(* ===== verification/Prelude.thy ===== *)
theory Prelude
  imports Main "HOL-Library.AList" "HOL-Library.Multiset"
begin

text \<open>
  What every component shares: the exceptions the sources raise, the result
  type of an operation that may raise, Python's insertion-ordered dictionaries
  as association lists with distinct keys, and generic lemmas on lists.
\<close>

section \<open>Exceptions and results\<close>

text \<open>
  One constructor per exception class the modelled code raises; the text of a
  message is not modelled. A stateful operation that may raise returns the
  exception or its value together with the state it leaves behind, because an
  exception does not undo the assignments made before it.
\<close>

datatype py_error =
    ValueError
  | RuntimeError
  | KeyError
  | IndexError
  | ZeroDivisionError
  | AssertionError
  | PromptTooLongError
  | KVCacheAllocationError
  | ContextLengthExceededError
  | InvalidRequestError
  | AttributeError
  | TypeError

type_synonym 'a result = "py_error + 'a"
type_synonym ('s, 'a) outcome = "(py_error + 'a) \<times> 's"

abbreviation raised :: "('s, 'a) outcome \<Rightarrow> bool" where
  "raised r \<equiv> isl (fst r)"

text \<open>\<^verbatim>\<open>for x in xs: f(x)\<close>, left by the first exception the body raises.\<close>

fun for_each :: "('a \<Rightarrow> 's \<Rightarrow> ('s, unit) outcome) \<Rightarrow> 'a list \<Rightarrow> 's \<Rightarrow> ('s, unit) outcome" where
  "for_each f [] s = (Inr (), s)"
| "for_each f (x # xs) s =
     (case f x s of (Inl e, s1) \<Rightarrow> (Inl e, s1) | (Inr _, s1) \<Rightarrow> for_each f xs s1)"

lemma for_each_invariant:
  assumes "\<And>x xs s. I (x # xs) s \<Longrightarrow> \<exists>s'. f x s = (Inr (), s') \<and> I xs s'" and "I xs s"
  shows "\<exists>s'. for_each f xs s = (Inr (), s') \<and> I [] s'"
  using assms(2)
proof (induction xs arbitrary: s)
  case Nil
  then show ?case by simp
next
  case (Cons x xs)
  then obtain s' where "f x s = (Inr (), s')" and "I xs s'" using assms(1) by blast
  with Cons.IH show ?case by simp
qed

lemma for_each_commute:
  assumes "\<And>x s. f x (u s) = apsnd u (f x s)"
  shows "for_each f xs (u s) = apsnd u (for_each f xs s)"
  by (induction xs arbitrary: s) (auto simp: assms split: prod.splits sum.splits)

lemma for_each_frame:
  assumes "\<And>x s. g (snd (f x s)) = g s"
  shows "g (snd (for_each f xs s)) = g s"
proof (induction xs arbitrary: s)
  case (Cons x xs)
  then show ?case using assms [of x s] by (auto split: prod.splits sum.splits)
qed simp

text \<open>Sequencing of two stateful operations: the second runs unless the first raised.\<close>

definition andthen ::
  "('s, 'a) outcome \<Rightarrow> ('a \<Rightarrow> 's \<Rightarrow> ('s, 'b) outcome) \<Rightarrow> ('s, 'b) outcome" where
  "andthen r f = (case r of (Inl e, s) \<Rightarrow> (Inl e, s) | (Inr a, s) \<Rightarrow> f a s)"

lemma andthen_simps [simp]:
  "andthen (Inl e, s) f = (Inl e, s)"
  "andthen (Inr a, s) f = f a s"
  by (simp_all add: andthen_def)

lemma andthen_Inr_iff:
  "andthen r f = (Inr b, s') \<longleftrightarrow> (\<exists>a s. r = (Inr a, s) \<and> f a s = (Inr b, s'))"
  by (auto simp: andthen_def split: prod.splits sum.splits)

lemma andthen_frame:
  assumes "\<And>a s. g (snd (f a s)) = g s"
  shows "g (snd (andthen r f)) = g (snd r)"
  using assms by (simp add: andthen_def split: prod.splits sum.splits)

section \<open>Ordered dictionaries\<close>

text \<open>
  Python's \<^verbatim>\<open>dict\<close> and \<^verbatim>\<open>OrderedDict\<close>: assignment keeps the position of a
  key that is present and appends a new one (\<^const>\<open>AList.update\<close>), \<^verbatim>\<open>del\<close> and
  \<^verbatim>\<open>pop\<close> remove the key (\<^const>\<open>AList.delete\<close>).
\<close>

type_synonym ('k, 'v) odict = "('k \<times> 'v) list"

abbreviation keys :: "('k, 'v) odict \<Rightarrow> 'k list" where
  "keys d \<equiv> map fst d"

abbreviation od_ok :: "('k, 'v) odict \<Rightarrow> bool" where
  "od_ok d \<equiv> distinct (map fst d)"

definition od_mem :: "'k \<Rightarrow> ('k, 'v) odict \<Rightarrow> bool" where
  "od_mem k d \<longleftrightarrow> map_of d k \<noteq> None"

definition move_to_end :: "'k \<Rightarrow> ('k, 'v) odict \<Rightarrow> ('k, 'v) odict" where
  "move_to_end k d = (case map_of d k of None \<Rightarrow> d | Some v \<Rightarrow> AList.delete k d @ [(k, v)])"

named_theorems odict_simps

lemma od_mem_iff [odict_simps]: "od_mem k d \<longleftrightarrow> k \<in> fst ` set d"
  by (auto simp: od_mem_def map_of_eq_None_iff)

lemma map_of_update [simp]: "map_of (AList.update k v d) = (map_of d)(k \<mapsto> v)"
  by (rule update_conv')

lemma map_of_delete [simp]: "map_of (AList.delete k d) = (map_of d)(k := None)"
  by (rule delete_conv')

lemma od_ok_update [simp, intro]: "od_ok d \<Longrightarrow> od_ok (AList.update k v d)"
  by (rule distinct_update)

lemma od_ok_delete [simp, intro]: "od_ok d \<Longrightarrow> od_ok (AList.delete k d)"
  by (rule distinct_delete)

lemma keys_delete [odict_simps]: "keys (AList.delete k d) = filter (\<lambda>x. x \<noteq> k) (keys d)"
  by (induction d) auto

lemma keys_update: "fst ` set (AList.update k v d) = insert k (fst ` set d)"
  by (metis dom_map_of_conv_image_fst dom_fun_upd map_of_update option.distinct(1))

lemma delete_eq_filter: "AList.delete k d = filter (\<lambda>p. fst p \<noteq> k) d"
  by (auto simp: AList.delete_eq intro!: filter_cong)

lemma delete_update_same: "AList.delete k (AList.update k v d) = AList.delete k d"
  by (induction d) auto

lemma delete_absent: "k \<notin> fst ` set d \<Longrightarrow> AList.delete k d = d"
  by (induction d) auto

lemma length_update:
  "length (AList.update k v d) = (if k \<in> fst ` set d then length d else Suc (length d))"
  by (induction d) auto

lemma length_delete_le [simp]: "length (AList.delete k d) \<le> length d"
  by (rule length_delete_le)

lemma length_delete_mem:
  assumes "od_ok d" and "k \<in> fst ` set d"
  shows "Suc (length (AList.delete k d)) = length d"
  using assms
proof (induction d)
  case Nil
  then show ?case by simp
next
  case (Cons p d)
  then show ?case
    by (cases "fst p = k") (auto simp: delete_absent)
qed

lemma update_absent: "k \<notin> fst ` set d \<Longrightarrow> AList.update k v d = d @ [(k, v)]"
  by (induction d) auto

lemma move_to_end_keys:
  "map_of d k = Some v \<Longrightarrow> keys (move_to_end k d) = filter (\<lambda>x. x \<noteq> k) (keys d) @ [k]"
  by (simp add: move_to_end_def keys_delete)

lemma od_ok_move_to_end [simp, intro]: "od_ok d \<Longrightarrow> od_ok (move_to_end k d)"
  by (auto simp: move_to_end_def odict_simps split: option.splits)

lemma map_of_move_to_end [simp]: "od_ok d \<Longrightarrow> map_of (move_to_end k d) = map_of d"
  by (rule ext) (auto simp: move_to_end_def map_add_def split: option.splits)

lemma length_move_to_end [simp]: "od_ok d \<Longrightarrow> length (move_to_end k d) = length d"
  by (auto simp: move_to_end_def split: option.splits
      intro!: length_delete_mem dest!: map_of_SomeD intro: rev_image_eqI)

section \<open>Lists\<close>

definition opt_hd :: "'a list \<Rightarrow> 'a option" where
  "opt_hd xs = (case xs of [] \<Rightarrow> None | x # _ \<Rightarrow> Some x)"

definition opt_last :: "'a list \<Rightarrow> 'a option" where
  "opt_last xs = (if xs = [] then None else Some (last xs))"

lemma opt_hd_simps [simp]: "opt_hd [] = None" "opt_hd (x # xs) = Some x"
  by (simp_all add: opt_hd_def)

lemma opt_hd_append [simp]: "opt_hd (xs @ ys) = (if xs = [] then opt_hd ys else opt_hd xs)"
  by (cases xs) simp_all

lemma opt_last_simps [simp]:
  "opt_last [] = None"
  "opt_last (x # xs) = Some (if xs = [] then x else last xs)"
  "opt_last (xs @ ys) = (if ys = [] then opt_last xs else opt_last ys)"
  by (simp_all add: opt_last_def)


text \<open>\<^verbatim>\<open>math.ceil(a / b)\<close> and \<^verbatim>\<open>(a + b - 1) // b\<close> for a positive divisor.\<close>

definition ceil_div :: "int \<Rightarrow> int \<Rightarrow> int" where
  "ceil_div a b = - ((- a) div b)"

lemma ceil_div_bounds:
  assumes "0 < b"
  shows "a \<le> ceil_div a b * b" and "ceil_div a b * b < a + b"
proof -
  have "(- a) div b * b + (- a) mod b = - a" by simp
  moreover have "0 \<le> (- a) mod b" and "(- a) mod b < b" using assms by simp_all
  ultimately show "a \<le> ceil_div a b * b" and "ceil_div a b * b < a + b"
    unfolding ceil_div_def mult_minus_left by linarith+
qed

lemma ceil_div_unique:
  assumes "0 < b" and "a \<le> q * b" and "q * b < a + b"
  shows "ceil_div a b = q"
proof -
  note c = ceil_div_bounds [OF assms(1), of a]
  from c(2) assms(2) have "ceil_div a b * b < (q + 1) * b" by (simp add: distrib_right)
  moreover from c(1) assms(3) have "q * b < (ceil_div a b + 1) * b" by (simp add: distrib_right)
  ultimately show ?thesis using assms(1) by simp
qed

lemma ceil_div_eq: "0 < b \<Longrightarrow> ceil_div a b = (a + b - 1) div b"
proof (rule ceil_div_unique)
  assume b: "0 < b"
  have "(a + b - 1) div b * b + (a + b - 1) mod b = a + b - 1" by simp
  moreover have "0 \<le> (a + b - 1) mod b" and "(a + b - 1) mod b < b" using b by simp_all
  ultimately show "a \<le> (a + b - 1) div b * b" and "(a + b - 1) div b * b < a + b" by linarith+
qed

section \<open>Broadcasting\<close>

text \<open>Assigning a tensor with one entry along the indexed dimension repeats that entry.\<close>

definition broadcast :: "nat \<Rightarrow> 'a list \<Rightarrow> 'a list" where
  "broadcast n xs = (if length xs = 1 then replicate n (hd xs) else xs)"

lemma broadcast_same: "length xs = n \<Longrightarrow> broadcast n xs = xs"
  by (cases xs) (auto simp: broadcast_def)

section \<open>References held by tables\<close>

text \<open>
  The block identifiers held by the values of a dictionary of lists, with
  multiplicity.
\<close>

definition table_refs :: "('k, 'b list) odict \<Rightarrow> 'b multiset" where
  "table_refs d = mset (concat (map snd d))"

lemma table_refs_simps [simp]:
  "table_refs [] = {#}"
  "table_refs (p # d) = mset (snd p) + table_refs d"
  "table_refs (d @ e) = table_refs d + table_refs e"
  by (simp_all add: table_refs_def)

lemma table_refs_delete:
  "od_ok d \<Longrightarrow> map_of d k = Some v \<Longrightarrow> table_refs d = mset v + table_refs (AList.delete k d)"
proof (induction d)
  case Nil
  then show ?case by simp
next
  case (Cons p d)
  show ?case
  proof (cases "fst p = k")
    case True
    with Cons.prems have "k \<notin> fst ` set d" and "snd p = v" by auto
    with True show ?thesis by (simp add: delete_absent)
  next
    case False
    with Cons show ?thesis by (simp add: ac_simps)
  qed
qed

lemma table_refs_update_new:
  "map_of d k = None \<Longrightarrow> table_refs (AList.update k v d) = table_refs d + mset v"
  by (simp add: update_absent map_of_eq_None_iff)

lemma table_refs_update:
  "od_ok d \<Longrightarrow> map_of d k = Some w \<Longrightarrow>
   table_refs (AList.update k v d) + mset w = table_refs d + mset v"
proof (induction d)
  case Nil
  then show ?case by simp
next
  case (Cons p d)
  then show ?case
    by (cases "fst p = k") (auto simp: ac_simps)
qed

section \<open>Holding blocks of a pool\<close>

text \<open>
  What a client that allocates and gives back blocks relies on: \<open>own s E\<close> says
  that the pool in state \<open>s\<close> accounts for the references \<open>E\<close> the client holds.
\<close>

locale block_holder =
  fixes own :: "'s \<Rightarrow> 'b multiset \<Rightarrow> bool"
    and alloc :: "'s \<Rightarrow> 'b option \<times> 's"
    and release :: "'b \<Rightarrow> 's \<Rightarrow> ('s, unit) outcome"
    and frame :: "'s \<Rightarrow> 'f"
  assumes alloc_Some: "own s E \<Longrightarrow> alloc s = (Some b, s') \<Longrightarrow> own s' (add_mset b E) \<and> frame s' = frame s"
    and alloc_None: "own s E \<Longrightarrow> alloc s = (None, s') \<Longrightarrow> s' = s"
    and release_own: "own s (add_mset b E) \<Longrightarrow>
          \<exists>s'. release b s = (Inr (), s') \<and> own s' E \<and> frame s' = frame s"
begin

lemma release_all:
  assumes "own s (mset bs + E)"
  shows "\<exists>s'. for_each release bs s = (Inr (), s') \<and> own s' E \<and> frame s' = frame s"
proof -
  have "\<exists>s'. for_each release bs s = (Inr (), s') \<and> own s' (mset [] + E) \<and> frame s' = frame s"
    by (rule for_each_invariant [where I = "\<lambda>bs s'. own s' (mset bs + E) \<and> frame s' = frame s"])
      (use assms release_own in fastforce)+
  then show ?thesis by simp
qed

end

end
