(* ===== verification/Block_Pool.thy ===== *)
theory Block_Pool
  imports Prelude
begin

text \<open>
  \<^verbatim>\<open>src/moe_infinity/memory/block_pool.py\<close>: the intrusive doubly linked queue of
  free KV-cache blocks (\<^verbatim>\<open>FreeBlockQueue\<close>) and the reference-counted block pool
  with its hash index of reusable blocks (\<^verbatim>\<open>BlockPool\<close>). A block object is
  referred to by its \<^verbatim>\<open>block_id\<close>: the pool creates exactly one object per
  identifier. The objects live in an explicit heap, since the queue and the
  pool mutate the same objects.
\<close>

section \<open>Block objects and the free queue\<close>

record kv_block =
  ref_cnt :: int
  block_hash :: "int option"
  blk_prev :: "nat option"
  blk_next :: "nat option"

type_synonym heap = "nat \<Rightarrow> kv_block"

record free_queue =
  fq_head :: "nat option"
  fq_tail :: "nat option"
  fq_size :: int

type_synonym fq_state = "heap \<times> free_queue"

definition new_block :: kv_block where
  "new_block = \<lparr>ref_cnt = 0, block_hash = None, blk_prev = None, blk_next = None\<rparr>"

definition fq_init :: free_queue where
  "fq_init = \<lparr>fq_head = None, fq_tail = None, fq_size = 0\<rparr>"

definition fq_append :: "fq_state \<Rightarrow> nat \<Rightarrow> fq_state" where
  "fq_append s b =
     (let h = fst s; q = snd s;
          h1 = h(b := (h b)\<lparr>blk_prev := fq_tail q, blk_next := None\<rparr>)
      in case fq_tail q of
           Some t \<Rightarrow>
             (h1(t := (h1 t)\<lparr>blk_next := Some b\<rparr>),
              q\<lparr>fq_tail := Some b, fq_size := fq_size q + 1\<rparr>)
         | None \<Rightarrow>
             (h1, q\<lparr>fq_head := Some b, fq_tail := Some b, fq_size := fq_size q + 1\<rparr>))"

definition fq_popleft :: "fq_state \<Rightarrow> nat option \<times> fq_state" where
  "fq_popleft s =
     (let h = fst s; q = snd s
      in case fq_head q of
           None \<Rightarrow> (None, s)
         | Some b \<Rightarrow>
             (let hd' = blk_next (h b);
                  h1 = (case hd' of
                          Some n \<Rightarrow> h(n := (h n)\<lparr>blk_prev := None\<rparr>)
                        | None \<Rightarrow> h);
                  tl' = (case hd' of Some n \<Rightarrow> fq_tail q | None \<Rightarrow> None);
                  h2 = h1(b := (h1 b)\<lparr>blk_prev := None, blk_next := None\<rparr>)
              in (Some b, (h2, q\<lparr>fq_head := hd', fq_tail := tl', fq_size := fq_size q - 1\<rparr>))))"

definition fq_remove :: "fq_state \<Rightarrow> nat \<Rightarrow> fq_state" where
  "fq_remove s b =
     (let h = fst s; q = snd s;
          (h1, q1) = (case blk_prev (h b) of
                        Some p \<Rightarrow> (h(p := (h p)\<lparr>blk_next := blk_next (h b)\<rparr>), q)
                      | None \<Rightarrow> (h, q\<lparr>fq_head := blk_next (h b)\<rparr>));
          (h2, q2) = (case blk_next (h1 b) of
                        Some n \<Rightarrow> (h1(n := (h1 n)\<lparr>blk_prev := blk_prev (h1 b)\<rparr>), q1)
                      | None \<Rightarrow> (h1, q1\<lparr>fq_tail := blk_prev (h1 b)\<rparr>));
          h3 = h2(b := (h2 b)\<lparr>blk_prev := None, blk_next := None\<rparr>)
      in (h3, q2\<lparr>fq_size := fq_size q2 - 1\<rparr>))"

definition fq_len :: "fq_state \<Rightarrow> int" where
  "fq_len s = fq_size (snd s)"

section \<open>The pool\<close>

record block_pool =
  bp_blocks :: "nat list"
  bp_heap :: heap
  bp_queue :: free_queue
  bp_hash_map :: "(int, nat) odict"

abbreviation bp_fq :: "block_pool \<Rightarrow> fq_state" where
  "bp_fq p \<equiv> (bp_heap p, bp_queue p)"

definition set_fq :: "fq_state \<Rightarrow> block_pool \<Rightarrow> block_pool" where
  "set_fq s p = p\<lparr>bp_heap := fst s, bp_queue := snd s\<rparr>"

definition upd_block :: "nat \<Rightarrow> (kv_block \<Rightarrow> kv_block) \<Rightarrow> block_pool \<Rightarrow> block_pool" where
  "upd_block b f p = p\<lparr>bp_heap := (bp_heap p)(b := f (bp_heap p b))\<rparr>"

definition pool_init :: "nat \<Rightarrow> block_pool" where
  "pool_init num_blocks =
     (let p = \<lparr>bp_blocks = [0..<num_blocks], bp_heap = (\<lambda>_. new_block),
               bp_queue = fq_init, bp_hash_map = []\<rparr>
      in set_fq (foldl fq_append (bp_fq p) (bp_blocks p)) p)"

definition allocate_block :: "block_pool \<Rightarrow> nat option \<times> block_pool" where
  "allocate_block p =
     (case fq_popleft (bp_fq p) of
        (None, s) \<Rightarrow> (None, set_fq s p)
      | (Some b, s) \<Rightarrow>
          (let p1 = set_fq s p;
               p2 = (case block_hash (bp_heap p1 b) of
                       None \<Rightarrow> p1
                     | Some h \<Rightarrow>
                         (let p' = (if map_of (bp_hash_map p1) h = Some b
                                    then p1\<lparr>bp_hash_map := AList.delete h (bp_hash_map p1)\<rparr>
                                    else p1)
                          in upd_block b (\<lambda>k. k\<lparr>block_hash := None\<rparr>) p'))
           in (Some b, upd_block b (\<lambda>k. k\<lparr>ref_cnt := 1\<rparr>) p2)))"

definition free_block :: "nat \<Rightarrow> block_pool \<Rightarrow> (block_pool, unit) outcome" where
  "free_block b p =
     (if ref_cnt (bp_heap p b) \<le> 0 then (Inl ValueError, p)
      else (let p1 = upd_block b (\<lambda>k. k\<lparr>ref_cnt := ref_cnt k - 1\<rparr>) p
            in (Inr (), if ref_cnt (bp_heap p1 b) = 0 then set_fq (fq_append (bp_fq p1) b) p1
                        else p1)))"

definition get_cached_block :: "int \<Rightarrow> block_pool \<Rightarrow> nat option \<times> block_pool" where
  "get_cached_block h p =
     (case map_of (bp_hash_map p) h of
        None \<Rightarrow> (None, p)
      | Some b \<Rightarrow>
          (let p1 = (if ref_cnt (bp_heap p b) = 0 then set_fq (fq_remove (bp_fq p) b) p else p)
           in (Some b, upd_block b (\<lambda>k. k\<lparr>ref_cnt := ref_cnt k + 1\<rparr>) p1)))"

definition cache_full_block :: "nat \<Rightarrow> int \<Rightarrow> block_pool \<Rightarrow> block_pool" where
  "cache_full_block b h p =
     (let p1 = (case block_hash (bp_heap p b) of
                  None \<Rightarrow> p
                | Some h0 \<Rightarrow>
                    if h0 \<noteq> h \<and> map_of (bp_hash_map p) h0 = Some b
                    then p\<lparr>bp_hash_map := AList.delete h0 (bp_hash_map p)\<rparr> else p);
          p2 = (case map_of (bp_hash_map p1) h of
                  None \<Rightarrow> p1
                | Some c \<Rightarrow> if c \<noteq> b then upd_block c (\<lambda>k. k\<lparr>block_hash := None\<rparr>) p1 else p1);
          p3 = upd_block b (\<lambda>k. k\<lparr>block_hash := Some h\<rparr>) p2
      in p3\<lparr>bp_hash_map := AList.update h b (bp_hash_map p3)\<rparr>)"

definition num_free_blocks :: "block_pool \<Rightarrow> int" where
  "num_free_blocks p = fq_len (bp_fq p)"

definition num_cached_blocks :: "block_pool \<Rightarrow> nat" where
  "num_cached_blocks p = length (bp_hash_map p)"

definition total_blocks :: "block_pool \<Rightarrow> nat" where
  "total_blocks p = length (bp_blocks p)"

section \<open>The queue as a list\<close>

text \<open>
  \<open>walk\<close> follows the \<^verbatim>\<open>next\<close> pointers; \<open>dll\<close> says that a list is threaded by
  both pointers, between a given predecessor and a given successor.
\<close>

fun walk :: "nat \<Rightarrow> heap \<Rightarrow> nat option \<Rightarrow> nat list" where
  "walk 0 h r = []"
| "walk (Suc n) h None = []"
| "walk (Suc n) h (Some b) = b # walk n h (blk_next (h b))"

fun dll :: "heap \<Rightarrow> nat option \<Rightarrow> nat list \<Rightarrow> nat option \<Rightarrow> bool" where
  "dll h p [] n = True"
| "dll h p (x # xs) n =
     (blk_prev (h x) = p \<and> blk_next (h x) = (case xs of [] \<Rightarrow> n | y # _ \<Rightarrow> Some y) \<and>
      dll h (Some x) xs n)"

definition fq_rep :: "fq_state \<Rightarrow> nat list \<Rightarrow> bool" where
  "fq_rep s xs \<longleftrightarrow>
     distinct xs \<and> dll (fst s) None xs None \<and> fq_head (snd s) = opt_hd xs \<and>
     fq_tail (snd s) = opt_last xs \<and> fq_size (snd s) = int (length xs)"

lemma dll_append:
  "dll h p (xs @ ys) n \<longleftrightarrow>
     dll h p xs (case ys of [] \<Rightarrow> n | y # _ \<Rightarrow> Some y) \<and>
     dll h (if xs = [] then p else Some (last xs)) ys n"
  by (induction xs arbitrary: p) (auto split: list.splits)

lemma dll_cong:
  "(\<And>x. x \<in> set xs \<Longrightarrow> blk_prev (h x) = blk_prev (h' x) \<and> blk_next (h x) = blk_next (h' x)) \<Longrightarrow>
   dll h p xs n = dll h' p xs n"
  by (induction xs arbitrary: p) auto

lemma dll_upd_other [simp]: "b \<notin> set xs \<Longrightarrow> dll (h(b := v)) p xs n = dll h p xs n"
  by (rule dll_cong) auto

lemma walk_dll:
  "dll h p xs None \<Longrightarrow> length xs \<le> k \<Longrightarrow> walk k h (opt_hd xs) = xs"
proof (induction xs arbitrary: p k)
  case Nil
  show ?case by (cases k) simp_all
next
  case (Cons x xs)
  then obtain k' where k: "k = Suc k'" "length xs \<le> k'" by (cases k) auto
  from Cons.prems(1) have "blk_next (h x) = opt_hd xs" and "dll h (Some x) xs None"
    by (auto simp: opt_hd_def split: list.splits)
  with Cons.IH k show ?case by simp
qed

lemma fq_rep_walk: "fq_rep s xs \<Longrightarrow> length xs \<le> k \<Longrightarrow> walk k (fst s) (fq_head (snd s)) = xs"
  by (auto simp: fq_rep_def intro: walk_dll)


lemma fq_rep_append: "fq_rep s xs \<Longrightarrow> b \<notin> set xs \<Longrightarrow> fq_rep (fq_append s b) (xs @ [b])"
  by (cases xs rule: rev_cases)
    (auto simp: fq_rep_def fq_append_def Let_def dll_append)

lemma fq_rep_popleft_Nil: "fq_rep s [] \<Longrightarrow> fq_popleft s = (None, s)"
  by (simp add: fq_rep_def fq_popleft_def)

lemma fq_rep_popleft_Cons:
  "fq_rep s (x # xs) \<Longrightarrow> fst (fq_popleft s) = Some x \<and> fq_rep (snd (fq_popleft s)) xs"
  by (cases xs) (auto simp: fq_rep_def fq_popleft_def Let_def)

lemma fq_rep_remove:
  assumes "fq_rep s (xs @ b # ys)"
  shows "fq_rep (fq_remove s b) (xs @ ys)"
proof (cases xs rule: rev_cases)
  case Nil
  with assms show ?thesis
    by (cases ys) (auto simp: fq_rep_def fq_remove_def Let_def)
next
  case (snoc zs z)
  with assms show ?thesis
    by (cases ys) (auto simp: fq_rep_def fq_remove_def Let_def dll_append)
qed

text \<open>The queue operations touch the links of the blocks only.\<close>

lemma fq_frame [simp]:
  "ref_cnt (fst (fq_append s b) x) = ref_cnt (fst s x)"
  "block_hash (fst (fq_append s b) x) = block_hash (fst s x)"
  "ref_cnt (fst (snd (fq_popleft s)) x) = ref_cnt (fst s x)"
  "block_hash (fst (snd (fq_popleft s)) x) = block_hash (fst s x)"
  "ref_cnt (fst (fq_remove s b) x) = ref_cnt (fst s x)"
  "block_hash (fst (fq_remove s b) x) = block_hash (fst s x)"
  by (auto simp: fq_append_def fq_popleft_def fq_remove_def Let_def split: option.splits)

lemma fq_rep_frame:
  assumes "fq_rep (h, q) xs"
    and "\<And>x. x \<in> set xs \<Longrightarrow> blk_prev (h' x) = blk_prev (h x) \<and> blk_next (h' x) = blk_next (h x)"
  shows "fq_rep (h', q) xs"
  using assms dll_cong [of xs h h'] by (simp add: fq_rep_def)

section \<open>The queue interface\<close>

text \<open>
  What \<^verbatim>\<open>BlockPool\<close> relies on: a queue state stands for a list of distinct
  elements, \<open>app\<close> adds at the back, \<open>pop\<close> takes the front, \<open>rem\<close> unlinks a
  given element, \<open>len\<close> counts.
\<close>

locale fifo_queue =
  fixes rep :: "'s \<Rightarrow> 'b list \<Rightarrow> bool"
    and app :: "'s \<Rightarrow> 'b \<Rightarrow> 's"
    and pop :: "'s \<Rightarrow> 'b option \<times> 's"
    and rem :: "'s \<Rightarrow> 'b \<Rightarrow> 's"
    and len :: "'s \<Rightarrow> int"
  assumes rep_distinct: "rep s xs \<Longrightarrow> distinct xs"
    and rep_len: "rep s xs \<Longrightarrow> len s = int (length xs)"
    and rep_app: "rep s xs \<Longrightarrow> b \<notin> set xs \<Longrightarrow> rep (app s b) (xs @ [b])"
    and rep_pop_Nil: "rep s [] \<Longrightarrow> pop s = (None, s)"
    and rep_pop_Cons: "rep s (x # xs) \<Longrightarrow> fst (pop s) = Some x \<and> rep (snd (pop s)) xs"
    and rep_rem: "rep s (xs @ b # ys) \<Longrightarrow> rep (rem s b) (xs @ ys)"
begin

lemma rep_foldl_app:
  "rep s xs \<Longrightarrow> distinct (xs @ ys) \<Longrightarrow> rep (foldl app s ys) (xs @ ys)"
proof (induction ys arbitrary: s xs)
  case Nil
  then show ?case by simp
next
  case (Cons y ys)
  from Cons.prems have "rep (app s y) (xs @ [y])" by (intro rep_app) auto
  from Cons.IH [OF this] Cons.prems(2) show ?case by simp
qed

lemma rep_rem_remove1:
  assumes "rep s xs" and "b \<in> set xs"
  shows "rep (rem s b) (remove1 b xs)"
proof -
  from assms(2) obtain ys zs where xs: "xs = ys @ b # zs" and "b \<notin> set ys"
    by (meson split_list_first)
  with rep_rem assms(1) show ?thesis by (simp add: remove1_append)
qed

lemma pop_None_iff: "rep s xs \<Longrightarrow> fst (pop s) = None \<longleftrightarrow> xs = []"
  by (cases xs) (auto dest: rep_pop_Nil rep_pop_Cons)

lemma pop_Some:
  assumes "rep s xs" and "pop s = (Some b, s')"
  shows "xs = b # tl xs \<and> rep s' (tl xs)"
  using assms by (cases xs) (auto dest: rep_pop_Nil rep_pop_Cons)

lemma pop_order:
  assumes "rep s (x # xs)" and "b \<notin> set (x # xs)"
  shows "fst (pop (app s b)) = Some x"
proof -
  from rep_app [OF assms] have "rep (app s b) (x # (xs @ [b]))" by simp
  from rep_pop_Cons [OF this] show ?thesis by simp
qed

end

interpretation fq: fifo_queue fq_rep fq_append fq_popleft fq_remove fq_len
proof unfold_locales
  fix s xs
  show "fq_rep s xs \<Longrightarrow> distinct xs" and "fq_rep s xs \<Longrightarrow> fq_len s = int (length xs)"
    by (simp_all add: fq_rep_def fq_len_def)
qed (fact fq_rep_append fq_rep_popleft_Nil fq_rep_popleft_Cons fq_rep_remove)+


section \<open>The pool invariant\<close>

text \<open>
  \<open>pool_ok p xs\<close>: the queue threads exactly the blocks with reference count
  0, in the order \<open>xs\<close>; no count is negative; the hash index and the hashes
  recorded in the blocks are inverse to each other.
\<close>

definition pool_ok :: "block_pool \<Rightarrow> nat list \<Rightarrow> bool" where
  "pool_ok p xs \<longleftrightarrow>
     bp_blocks p = [0..<total_blocks p] \<and> fq_rep (bp_fq p) xs \<and>
     (\<forall>b. b \<in> set xs \<longleftrightarrow> b < total_blocks p \<and> ref_cnt (bp_heap p b) = 0) \<and>
     (\<forall>b < total_blocks p. 0 \<le> ref_cnt (bp_heap p b)) \<and>
     od_ok (bp_hash_map p) \<and>
     (\<forall>h b. map_of (bp_hash_map p) h = Some b \<longleftrightarrow>
        b < total_blocks p \<and> block_hash (bp_heap p b) = Some h)"

definition free_list :: "block_pool \<Rightarrow> nat list" where
  "free_list p = walk (total_blocks p) (bp_heap p) (fq_head (bp_queue p))"

definition pool_inv :: "block_pool \<Rightarrow> bool" where
  "pool_inv p \<longleftrightarrow> pool_ok p (free_list p)"

lemma pool_ok_length: "pool_ok p xs \<Longrightarrow> length xs \<le> total_blocks p"
proof -
  assume ok: "pool_ok p xs"
  then have "set xs \<subseteq> {..<total_blocks p}" and "distinct xs"
    by (auto simp: pool_ok_def dest: fq.rep_distinct)
  then have "card (set xs) \<le> total_blocks p"
    using card_mono [of "{..<total_blocks p}" "set xs"] by simp
  with \<open>distinct xs\<close> show ?thesis by (simp add: distinct_card)
qed

lemma pool_ok_free_list: "pool_ok p xs \<Longrightarrow> free_list p = xs"
  using pool_ok_length fq_rep_walk [of "bp_fq p" xs]
  by (auto simp: pool_ok_def free_list_def)

lemma pool_hash_inj:
  assumes "pool_ok p xs" and "block_hash (bp_heap p b) = Some h" and "block_hash (bp_heap p c) = Some h"
    and "b < total_blocks p" and "c < total_blocks p"
  shows "b = c"
proof -
  from assms have "map_of (bp_hash_map p) h = Some b" and "map_of (bp_hash_map p) h = Some c"
    unfolding pool_ok_def by blast+
  then show ?thesis by simp
qed

lemma pool_okI: "pool_ok p xs \<Longrightarrow> pool_inv p \<and> free_list p = xs"
  by (simp add: pool_inv_def pool_ok_free_list)

lemma pool_sel [simp]:
  "bp_blocks (set_fq s p) = bp_blocks p" "bp_heap (set_fq s p) = fst s"
  "bp_queue (set_fq s p) = snd s" "bp_hash_map (set_fq s p) = bp_hash_map p"
  "bp_blocks (upd_block b f p) = bp_blocks p" "bp_queue (upd_block b f p) = bp_queue p"
  "bp_hash_map (upd_block b f p) = bp_hash_map p"
  "bp_heap (upd_block b f p) = (bp_heap p)(b := f (bp_heap p b))"
  by (simp_all add: set_fq_def upd_block_def)

lemma total_blocks_simps [simp]:
  "total_blocks (set_fq s p) = total_blocks p"
  "total_blocks (upd_block b f p) = total_blocks p"
  "total_blocks (p\<lparr>bp_hash_map := m\<rparr>) = total_blocks p"
  by (simp_all add: total_blocks_def)

lemma pool_init_ok: "pool_ok (pool_init n) [0..<n]"
proof -
  let ?s = "((\<lambda>_. new_block) :: heap, fq_init)"
  have frame: "ref_cnt (fst (foldl fq_append s xs) x) = ref_cnt (fst s x) \<and>
      block_hash (fst (foldl fq_append s xs) x) = block_hash (fst s x)" for s xs x
    by (induction xs arbitrary: s) simp_all
  have "fq_rep ?s []" by (simp add: fq_rep_def fq_init_def)
  from fq.rep_foldl_app [OF this, of "[0..<n]"]
  have "fq_rep (foldl fq_append ?s [0..<n]) [0..<n]" by simp
  then show ?thesis
    by (auto simp: pool_ok_def pool_init_def Let_def total_blocks_def frame new_block_def)
qed

lemma allocate_block_empty: "pool_ok p [] \<Longrightarrow> allocate_block p = (None, p)"
  by (simp add: pool_ok_def allocate_block_def fq_rep_popleft_Nil set_fq_def)

lemma allocate_block_ok:
  assumes "pool_ok p (x # xs)"
  obtains p' where "allocate_block p = (Some x, p')" and "pool_ok p' xs"
    and "total_blocks p' = total_blocks p"
    and "\<And>y. ref_cnt (bp_heap p' y) = (if y = x then 1 else ref_cnt (bp_heap p y))"
    and "\<And>y. block_hash (bp_heap p' y) = (if y = x then None else block_hash (bp_heap p y))"
proof -
  obtain s where pop: "fq_popleft (bp_fq p) = (Some x, s)" and rep: "fq_rep s xs"
    using assms fq_rep_popleft_Cons [of "bp_fq p" x xs]
    by (cases "fq_popleft (bp_fq p)") (auto simp: pool_ok_def)
  have fr: "ref_cnt (fst s y) = ref_cnt (bp_heap p y)"
    "block_hash (fst s y) = block_hash (bp_heap p y)" for y
    using fq_frame(3,4) [of "bp_fq p" y] pop by simp_all
  have x: "x \<notin> set xs" using assms by (auto simp: pool_ok_def dest: fq.rep_distinct)
  have rep': "fq_rep (h', snd s) xs"
    if "\<And>y. y \<noteq> x \<Longrightarrow> h' y = fst s y" for h'
    using rep fq_rep_frame [of "fst s" "snd s" xs h'] x that by (metis prod.collapse)
  obtain p' where p': "allocate_block p = (Some x, p')"
    by (simp add: allocate_block_def pop Let_def)
  show ?thesis
  proof
    show "allocate_block p = (Some x, p')" by (rule p')
    show "total_blocks p' = total_blocks p"
      and "ref_cnt (bp_heap p' y) = (if y = x then 1 else ref_cnt (bp_heap p y))"
      and "block_hash (bp_heap p' y) = (if y = x then None else block_hash (bp_heap p y))" for y
      using p' by (auto simp: allocate_block_def pop fr Let_def split: option.splits)
    show "pool_ok p' xs"
      using assms p' x
      by (auto simp: pool_ok_def allocate_block_def pop fr Let_def rep'
          split: option.splits if_splits dest: pool_hash_inj [OF assms])
  qed
qed


lemma free_block_error: "ref_cnt (bp_heap p b) \<le> 0 \<Longrightarrow> free_block b p = (Inl ValueError, p)"
  by (simp add: free_block_def)

lemma free_block_ok:
  assumes ok: "pool_ok p xs" and b: "b < total_blocks p" and ref: "0 < ref_cnt (bp_heap p b)"
  obtains p' where "free_block b p = (Inr (), p')"
    and "pool_ok p' (if ref_cnt (bp_heap p b) = 1 then xs @ [b] else xs)"
    and "total_blocks p' = total_blocks p" and "bp_hash_map p' = bp_hash_map p"
    and "\<And>y. ref_cnt (bp_heap p' y) =
          (if y = b then ref_cnt (bp_heap p y) - 1 else ref_cnt (bp_heap p y))"
    and "\<And>y. block_hash (bp_heap p' y) = block_hash (bp_heap p y)"
proof -
  define p1 where "p1 = upd_block b (\<lambda>k. k\<lparr>ref_cnt := ref_cnt k - 1\<rparr>) p"
  define p' where "p' = (if ref_cnt (bp_heap p1 b) = 0 then set_fq (fq_append (bp_fq p1) b) p1 else p1)"
  have eq: "free_block b p = (Inr (), p')"
    using ref by (simp add: free_block_def p'_def p1_def Let_def)
  have bn: "b \<notin> set xs" using ok ref by (auto simp: pool_ok_def)
  have rep: "fq_rep (bp_fq p1) xs"
    using ok fq_rep_frame [of "bp_heap p" "bp_queue p" xs "bp_heap p1"] bn
    by (simp add: pool_ok_def p1_def)
  show ?thesis
  proof
    show "free_block b p = (Inr (), p')" by (rule eq)
    show "total_blocks p' = total_blocks p" and "bp_hash_map p' = bp_hash_map p"
      by (simp_all add: p'_def p1_def)
    show "ref_cnt (bp_heap p' y) = (if y = b then ref_cnt (bp_heap p y) - 1 else ref_cnt (bp_heap p y))"
      and "block_hash (bp_heap p' y) = block_hash (bp_heap p y)" for y
      by (simp_all add: p'_def p1_def)
    show "pool_ok p' (if ref_cnt (bp_heap p b) = 1 then xs @ [b] else xs)"
      using ok b ref bn rep fq_rep_append [OF rep bn]
      by (auto simp: pool_ok_def p'_def p1_def)
  qed
qed

lemma get_cached_block_miss: "map_of (bp_hash_map p) h = None \<Longrightarrow> get_cached_block h p = (None, p)"
  by (simp add: get_cached_block_def)

lemma get_cached_block_ok:
  assumes ok: "pool_ok p xs" and hit: "map_of (bp_hash_map p) h = Some b"
  obtains p' where "get_cached_block h p = (Some b, p')"
    and "pool_ok p' (remove1 b xs)"
    and "total_blocks p' = total_blocks p" and "bp_hash_map p' = bp_hash_map p"
    and "\<And>y. ref_cnt (bp_heap p' y) =
          (if y = b then ref_cnt (bp_heap p y) + 1 else ref_cnt (bp_heap p y))"
    and "\<And>y. block_hash (bp_heap p' y) = block_hash (bp_heap p y)"
proof -
  define p1 where "p1 = (if ref_cnt (bp_heap p b) = 0 then set_fq (fq_remove (bp_fq p) b) p else p)"
  define p' where "p' = upd_block b (\<lambda>k. k\<lparr>ref_cnt := ref_cnt k + 1\<rparr>) p1"
  have eq: "get_cached_block h p = (Some b, p')"
    using hit by (simp add: get_cached_block_def p'_def p1_def Let_def)
  have b: "b < total_blocks p" using ok hit by (auto simp: pool_ok_def)
  have dist: "distinct xs" using ok by (auto simp: pool_ok_def dest: fq.rep_distinct)
  have rep1: "fq_rep (bp_fq p1) (remove1 b xs)"
    using ok b fq.rep_rem_remove1 [of "bp_fq p" xs b]
    by (auto simp: pool_ok_def p1_def remove1_idem)
  have rep: "fq_rep (bp_fq p') (remove1 b xs)"
    using fq_rep_frame [of "bp_heap p1" "bp_queue p1" "remove1 b xs" "bp_heap p'"] rep1 dist
    by (simp add: p'_def)
  have ref: "ref_cnt (bp_heap p' y) = (if y = b then ref_cnt (bp_heap p y) + 1 else ref_cnt (bp_heap p y))"
    and hash: "block_hash (bp_heap p' y) = block_hash (bp_heap p y)" for y
    by (simp_all add: p'_def p1_def)
  show ?thesis
  proof
    show "get_cached_block h p = (Some b, p')" by (rule eq)
    show tot: "total_blocks p' = total_blocks p" and map: "bp_hash_map p' = bp_hash_map p"
      by (simp_all add: p'_def p1_def)
    have blocks: "bp_blocks p' = bp_blocks p" by (simp add: p'_def p1_def)
    have nn: "0 \<le> ref_cnt (bp_heap p b)" using ok b by (simp add: pool_ok_def)
    have mem: "y \<in> set (remove1 b xs) \<longleftrightarrow> y < total_blocks p \<and> ref_cnt (bp_heap p' y) = 0" for y
      using ok nn dist by (auto simp: pool_ok_def ref)
    show "pool_ok p' (remove1 b xs)"
      using ok rep mem nn unfolding pool_ok_def tot blocks map by (auto simp: hash ref)
  qed (rule ref hash)+
qed

lemma cache_full_block_ok:
  fixes h :: int
  assumes ok: "pool_ok p xs" and b: "b < total_blocks p"
  defines "p' \<equiv> cache_full_block b h p"
  shows "pool_ok p' xs" and "total_blocks p' = total_blocks p"
    and "map_of (bp_hash_map p') h = Some b"
    and "ref_cnt (bp_heap p' y) = ref_cnt (bp_heap p y)"
    and "h' \<noteq> h \<Longrightarrow> map_of (bp_hash_map p') h' =
          (if block_hash (bp_heap p b) = Some h' then None else map_of (bp_hash_map p) h')"
proof -
  have links: "blk_prev (bp_heap p' y) = blk_prev (bp_heap p y) \<and>
      blk_next (bp_heap p' y) = blk_next (bp_heap p y)" for y
    by (auto simp: p'_def cache_full_block_def Let_def split: option.splits)
  have q: "bp_queue p' = bp_queue p" and blocks: "bp_blocks p' = bp_blocks p"
    by (auto simp: p'_def cache_full_block_def Let_def split: option.splits)
  have rep: "fq_rep (bp_fq p') xs"
    using ok fq_rep_frame [of "bp_heap p" "bp_queue p" xs "bp_heap p'"] links
    by (simp add: pool_ok_def q)
  show tot: "total_blocks p' = total_blocks p"
    using blocks by (simp add: total_blocks_def)
  show ref: "ref_cnt (bp_heap p' y) = ref_cnt (bp_heap p y)" for y
    by (auto simp: p'_def cache_full_block_def Let_def split: option.splits)
  have odk: "od_ok (bp_hash_map p')"
    using ok by (auto simp: pool_ok_def p'_def cache_full_block_def Let_def split: option.splits)
  have inv: "map_of (bp_hash_map p) h' = Some c \<longleftrightarrow>
      c < total_blocks p \<and> block_hash (bp_heap p c) = Some h'" for h' c
    using ok by (simp add: pool_ok_def)
  have map: "map_of (bp_hash_map p') = (\<lambda>h'. if h' = h then Some b
      else if block_hash (bp_heap p b) = Some h' then None else map_of (bp_hash_map p) h')"
    using b inv by (auto simp: p'_def cache_full_block_def Let_def fun_eq_iff split: option.splits)
  show "map_of (bp_hash_map p') h = Some b" by (simp add: map)
  show "map_of (bp_hash_map p') h' =
      (if block_hash (bp_heap p b) = Some h' then None else map_of (bp_hash_map p) h')"
    if "h' \<noteq> h" using that by (simp add: map)
  have hash: "block_hash (bp_heap p' c) = (if c = b then Some h
      else if map_of (bp_hash_map p) h = Some c then None else block_hash (bp_heap p c))" for c
    by (auto simp: p'_def cache_full_block_def Let_def split: option.splits)
  have "map_of (bp_hash_map p') h' = Some c \<longleftrightarrow>
      c < total_blocks p' \<and> block_hash (bp_heap p' c) = Some h'" for h' c
    using b inv by (auto simp: map hash tot dest: pool_hash_inj [OF ok])
  with ok rep odk show "pool_ok p' xs"
    unfolding pool_ok_def tot blocks by (simp add: ref)
qed


text \<open>The same facts about the result of each operation, in the form the clients use.\<close>

lemma allocate_block_facts:
  assumes "pool_ok p (x # xs)"
  shows "fst (allocate_block p) = Some x" and "pool_ok (snd (allocate_block p)) xs"
    and "ref_cnt (bp_heap (snd (allocate_block p)) y) = (if y = x then 1 else ref_cnt (bp_heap p y))"
    and "block_hash (bp_heap (snd (allocate_block p)) y) =
      (if y = x then None else block_hash (bp_heap p y))"
    and "total_blocks (snd (allocate_block p)) = total_blocks p"
  by (rule allocate_block_ok [OF assms], simp)+

lemma free_block_facts:
  assumes "pool_ok p xs" and "b < total_blocks p" and "0 < ref_cnt (bp_heap p b)"
  shows "fst (free_block b p) = Inr ()"
    and "pool_ok (snd (free_block b p)) (if ref_cnt (bp_heap p b) = 1 then xs @ [b] else xs)"
    and "total_blocks (snd (free_block b p)) = total_blocks p"
    and "bp_hash_map (snd (free_block b p)) = bp_hash_map p"
    and "ref_cnt (bp_heap (snd (free_block b p)) y) =
          (if y = b then ref_cnt (bp_heap p y) - 1 else ref_cnt (bp_heap p y))"
  by (rule free_block_ok [OF assms], simp)+

lemma get_cached_block_facts:
  assumes "pool_ok p xs" and "map_of (bp_hash_map p) h = Some b"
  shows "fst (get_cached_block h p) = Some b"
    and "pool_ok (snd (get_cached_block h p)) (remove1 b xs)"
    and "total_blocks (snd (get_cached_block h p)) = total_blocks p"
    and "bp_hash_map (snd (get_cached_block h p)) = bp_hash_map p"
    and "ref_cnt (bp_heap (snd (get_cached_block h p)) y) =
          (if y = b then ref_cnt (bp_heap p y) + 1 else ref_cnt (bp_heap p y))"
  by (rule get_cached_block_ok [OF assms], simp)+

section \<open>Runs of the pool\<close>

text \<open>
  Any sequence of the public operations on blocks of the pool. A step may be
  an operation that raises: the state it leaves is a state of the run.
\<close>

inductive pool_step :: "block_pool \<Rightarrow> block_pool \<Rightarrow> bool" where
  step_allocate: "pool_step p (snd (allocate_block p))"
| step_free: "b < total_blocks p \<Longrightarrow> pool_step p (snd (free_block b p))"
| step_get_cached: "pool_step p (snd (get_cached_block h p))"
| step_cache_full: "b < total_blocks p \<Longrightarrow> pool_step p (cache_full_block b h p)"

inductive pool_reach :: "nat \<Rightarrow> block_pool \<Rightarrow> bool" for n where
  reach_init: "pool_reach n (pool_init n)"
| reach_step: "pool_reach n p \<Longrightarrow> pool_step p p' \<Longrightarrow> pool_reach n p'"

lemma allocate_block_pool:
  assumes "pool_ok p xs"
  shows "pool_ok (snd (allocate_block p)) (tl xs) \<and>
    total_blocks (snd (allocate_block p)) = total_blocks p \<and> fst (allocate_block p) = opt_hd xs"
proof (cases xs)
  case Nil
  with assms allocate_block_empty [of p] show ?thesis by simp
next
  case (Cons x xs')
  with assms show ?thesis by (auto elim: allocate_block_ok)
qed

lemma pool_inv_total:
  "pool_ok p' xs \<Longrightarrow> total_blocks p' = n \<Longrightarrow> pool_inv p' \<and> total_blocks p' = n"
  by (simp add: pool_inv_def pool_ok_free_list)

lemma pool_step_inv:
  assumes "pool_step p p'" and "pool_inv p"
  shows "pool_inv p' \<and> total_blocks p' = total_blocks p"
proof -
  from assms(2) have ok: "pool_ok p (free_list p)" by (simp add: pool_inv_def)
  from assms(1) show ?thesis
  proof cases
    case step_allocate
    with allocate_block_pool [OF ok] pool_okI show ?thesis by blast
  next
    case (step_free b)
    then show ?thesis
      using assms(2) pool_inv_total [OF free_block_facts(2,3) [OF ok]]
      by (cases "0 < ref_cnt (bp_heap p b)") (simp_all add: free_block_error)
  next
    case (step_get_cached h)
    then show ?thesis
      using assms(2) pool_inv_total [OF get_cached_block_facts(2,3) [OF ok]]
      by (cases "map_of (bp_hash_map p) h") (simp_all add: get_cached_block_miss)
  next
    case (step_cache_full b h)
    then show ?thesis
      using pool_inv_total [OF cache_full_block_ok(1,2) [OF ok]] by simp
  qed
qed

lemma pool_reach_inv: "pool_reach n p \<Longrightarrow> pool_inv p \<and> total_blocks p = n"
proof (induction rule: pool_reach.induct)
  case reach_init
  from pool_okI [OF pool_init_ok] show ?case
    by (simp add: pool_init_def Let_def total_blocks_def)
next
  case (reach_step p p')
  then show ?case using pool_step_inv by blast
qed

lemma pool_conservation:
  assumes "pool_inv p"
  shows "num_free_blocks p + int (card {b. b < total_blocks p \<and> 0 < ref_cnt (bp_heap p b)}) =
    int (total_blocks p)"
proof -
  let ?n = "total_blocks p"
  let ?used = "{b. b < ?n \<and> 0 < ref_cnt (bp_heap p b)}"
  from assms have ok: "pool_ok p (free_list p)" by (simp add: pool_inv_def)
  then have free: "set (free_list p) = {b. b < ?n \<and> ref_cnt (bp_heap p b) = 0}"
    and dist: "distinct (free_list p)" and nf: "num_free_blocks p = int (length (free_list p))"
    by (auto simp: pool_ok_def num_free_blocks_def dest: fq.rep_distinct fq.rep_len)
  have "set (free_list p) \<union> ?used = {..<?n}" and "set (free_list p) \<inter> ?used = {}"
    using ok free by (fastforce simp: pool_ok_def)+
  moreover have "finite ?used" by simp
  ultimately have "card (set (free_list p)) + card ?used = ?n"
    by (metis List.finite_set card_Un_disjoint card_lessThan)
  with nf dist show ?thesis by (simp add: distinct_card)
qed

section \<open>Properties\<close>

text \<open>
  C6: the intrusive linked queue of free blocks implements a first-in
  first-out list: with head, tail, size and both link fields representing
  the list \<open>xs\<close>, \<^verbatim>\<open>append\<close> adds at the back, \<^verbatim>\<open>popleft\<close> returns and removes
  the front (or \<^verbatim>\<open>None\<close>), \<^verbatim>\<open>remove\<close> unlinks any member, and \<^verbatim>\<open>len\<close> is its
  length.
\<close>
theorem free_queue_refines_list:
  assumes "fq_rep s xs"
  shows "(b \<notin> set xs \<longrightarrow> fq_rep (fq_append s b) (xs @ [b])) \<and>
    fst (fq_popleft s) = opt_hd xs \<and> fq_rep (snd (fq_popleft s)) (tl xs) \<and>
    (b \<in> set xs \<longrightarrow> fq_rep (fq_remove s b) (remove1 b xs)) \<and>
    fq_len s = int (length xs)"
  using assms fq.rep_app [OF assms, of b] fq.rep_rem_remove1 [OF assms, of b] fq.rep_len [OF assms]
  by (cases xs) (auto dest: fq_rep_popleft_Cons simp: fq_rep_popleft_Nil)

theorem free_queue_refines_list_witness:
  "fq_rep (bp_fq (pool_init 3)) [0, 1, 2] \<and>
   fq_rep (fq_remove (bp_fq (pool_init 3)) 1) [0, 2] \<and>
   fst (fq_popleft (bp_fq (pool_init 3))) = Some 0"
proof -
  have rep: "fq_rep (bp_fq (pool_init 3)) [0, 1, 2]"
    using pool_init_ok [of 3] by (auto simp: pool_ok_def numeral_3_eq_3 eval_nat_numeral)
  from rep free_queue_refines_list [OF rep, of 1] show ?thesis by simp
qed

text \<open>
  C7: in every state a pool of \<open>n\<close> blocks can reach by its public operations
  (an operation that raises included), the free queue holds exactly the blocks
  with reference count 0, no count is negative, the hash index and the block
  hashes are inverse to each other, and free and referenced blocks add up to
  \<open>n\<close>: no block is lost or handed out twice.
\<close>
theorem pool_reachable_invariant:
  assumes "pool_reach n p"
  shows "pool_inv p \<and> total_blocks p = n \<and>
    num_free_blocks p + int (card {b. b < n \<and> 0 < ref_cnt (bp_heap p b)}) = int n"
  using pool_reach_inv [OF assms] pool_conservation [of p] by auto

theorem pool_reachable_invariant_witness:
  "let p = snd (allocate_block (pool_init 2)) in
     pool_reach 2 p \<and> num_free_blocks p + int (card {b. b < 2 \<and> 0 < ref_cnt (bp_heap p b)}) = 2"
proof -
  have r: "pool_reach 2 (snd (allocate_block (pool_init 2)))"
    by (rule pool_reach.reach_step [OF pool_reach.reach_init pool_step.step_allocate])
  from r pool_reachable_invariant [OF r] show ?thesis by (simp add: Let_def)
qed

text \<open>
  \<^verbatim>\<open>allocate_block\<close> hands out the block that has been free for longest,
  with reference count 1 and its stale hash dropped from the block and from
  the index, keeps the counts of all other blocks, and returns \<^verbatim>\<open>None\<close> exactly
  when no block is free, in which case nothing changes.
\<close>
theorem allocate_block_spec:
  assumes "pool_inv p" and "allocate_block p = (r, p')"
  shows "r = opt_hd (free_list p) \<and> free_list p' = tl (free_list p) \<and>
    (case r of
       None \<Rightarrow> p' = p
     | Some b \<Rightarrow> b < total_blocks p \<and> ref_cnt (bp_heap p b) = 0 \<and>
         ref_cnt (bp_heap p' b) = 1 \<and> block_hash (bp_heap p' b) = None \<and>
         (\<forall>h. map_of (bp_hash_map p') h \<noteq> Some b) \<and>
         (\<forall>c. c \<noteq> b \<longrightarrow> ref_cnt (bp_heap p' c) = ref_cnt (bp_heap p c)))"
proof (cases "free_list p")
  case Nil
  with assms allocate_block_empty [of p] show ?thesis by (auto simp: pool_inv_def)
next
  case (Cons x xs)
  with assms(1) have ok: "pool_ok p (x # xs)" by (simp add: pool_inv_def)
  note q = allocate_block_facts [OF ok]
  have "x < total_blocks p \<and> ref_cnt (bp_heap p x) = 0"
    using ok by (simp add: pool_ok_def) metis
  moreover have "map_of (bp_hash_map p') h \<noteq> Some x" for h
    using q(2) q(4) [of x] assms(2) unfolding pool_ok_def by auto
  ultimately show ?thesis using assms(2) Cons q by (simp add: pool_ok_free_list)
qed

theorem allocate_block_spec_witness:
  "free_list (snd (allocate_block (pool_init 2))) = [1]"
proof -
  have "pool_inv (pool_init 2)" and "free_list (pool_init 2) = [0, 1]"
    using pool_okI [OF pool_init_ok [of 2]] by (simp_all add: upt_rec)
  then show ?thesis
    using allocate_block_spec [of "pool_init 2" "fst (allocate_block (pool_init 2))"
        "snd (allocate_block (pool_init 2))"] by simp
qed

text \<open>
  A block in use that is registered under a hash and then released by its
  last holder can be revived: a lookup of that hash returns this very block,
  takes it off the free queue and gives it reference count 1 again.
\<close>
theorem cached_block_revived:
  assumes "pool_inv p" and "b < total_blocks p" and "ref_cnt (bp_heap p b) = 1"
    and p1_def: "p1 = snd (free_block b (cache_full_block b h p))"
  shows "b \<in> set (free_list p1) \<and> fst (get_cached_block h p1) = Some b \<and>
    ref_cnt (bp_heap (snd (get_cached_block h p1)) b) = 1 \<and>
    free_list (snd (get_cached_block h p1)) = free_list p"
proof -
  let ?xs = "free_list p"
  from assms(1) have ok: "pool_ok p ?xs" by (simp add: pool_inv_def)
  let ?c = "cache_full_block b h p"
  have c: "pool_ok ?c ?xs" "b < total_blocks ?c" "ref_cnt (bp_heap ?c b) = 1"
    "map_of (bp_hash_map ?c) h = Some b"
    using cache_full_block_ok(1-4) [OF ok assms(2), of h] assms(2,3) by simp_all
  have b: "b \<notin> set ?xs" using ok assms(3) by (simp add: pool_ok_def)
  have p1: "pool_ok p1 (?xs @ [b])" "map_of (bp_hash_map p1) h = Some b"
    "ref_cnt (bp_heap p1 b) = 0"
    using free_block_facts [OF c(1,2)] c(3,4) unfolding p1_def by simp_all
  from get_cached_block_facts [OF p1(1,2)] b p1 show ?thesis
    by (simp add: pool_ok_free_list remove1_append)
qed

theorem cached_block_revived_witness:
  "let p = snd (allocate_block (pool_init 1)); p1 = snd (free_block 0 (cache_full_block 0 7 p))
   in fst (get_cached_block 7 p1) = Some 0"
proof -
  let ?p = "snd (allocate_block (pool_init 1))"
  have "pool_ok (pool_init 1) (0 # [])" using pool_init_ok [of 1] by simp
  note q = allocate_block_facts [OF this]
  have "total_blocks (pool_init 1) = 1" by (simp add: pool_init_def total_blocks_def Let_def)
  with q have "pool_inv ?p" "0 < total_blocks ?p" "ref_cnt (bp_heap ?p 0) = 1"
    by (simp_all add: pool_inv_def pool_ok_free_list)
  from cached_block_revived [OF this refl, of 7] show ?thesis by (simp add: Let_def)
qed

end
