(* ===== verification/Cache_Policy.thy ===== *)
theory Cache_Policy
  imports Prelude
begin

text \<open>
  \<^verbatim>\<open>src/moe_infinity/memory/offloading_policy.py\<close>: the abstract \<^verbatim>\<open>CachePolicy\<close>
  (a record of operations), its implementations \<^verbatim>\<open>LRUPolicy\<close> and \<^verbatim>\<open>ARCPolicy\<close>,
  and the contract of a policy as a locale that both implement. Ordered
  dictionaries are association lists in insertion order; the ghost lists of
  ARC, whose values are all \<^verbatim>\<open>None\<close>, are lists of keys.
\<close>

section \<open>The interface\<close>

record ('p, 'k, 'v) policy_ops =
  po_get :: "'k \<Rightarrow> 'p \<Rightarrow> 'v option \<times> 'p"
  po_put :: "'k \<Rightarrow> 'v \<Rightarrow> 'p \<Rightarrow> 'p"
  po_evict :: "'p \<Rightarrow> ('k \<times> 'v) option \<times> 'p"
  po_capacity :: "'p \<Rightarrow> int"
  po_len :: "'p \<Rightarrow> nat"

section \<open>LRU\<close>

record ('k, 'v) lru =
  lru_capacity :: int
  lru_data :: "('k, 'v) odict"

definition lru_init :: "int \<Rightarrow> ('k, 'v) lru result" where
  "lru_init capacity =
     (if capacity \<le> 0 then Inl ValueError
      else Inr \<lparr>lru_capacity = capacity, lru_data = []\<rparr>)"

definition lru_len :: "('k, 'v) lru \<Rightarrow> nat" where
  "lru_len p = length (lru_data p)"

definition lru_get :: "'k \<Rightarrow> ('k, 'v) lru \<Rightarrow> 'v option \<times> ('k, 'v) lru" where
  "lru_get key p =
     (if \<not> od_mem key (lru_data p) then (None, p)
      else (let d = move_to_end key (lru_data p) in (map_of d key, p\<lparr>lru_data := d\<rparr>)))"

definition lru_put :: "'k \<Rightarrow> 'v \<Rightarrow> ('k, 'v) lru \<Rightarrow> ('k, 'v) lru" where
  "lru_put key v p =
     (if od_mem key (lru_data p)
      then p\<lparr>lru_data := move_to_end key (AList.update key v (lru_data p))\<rparr>
      else (let d = (if int (length (lru_data p)) \<ge> lru_capacity p
                     then tl (lru_data p) else lru_data p)
            in p\<lparr>lru_data := AList.update key v d\<rparr>))"

definition lru_evict :: "('k, 'v) lru \<Rightarrow> ('k \<times> 'v) option \<times> ('k, 'v) lru" where
  "lru_evict p =
     (case lru_data p of
        [] \<Rightarrow> (None, p)
      | kv # d \<Rightarrow> (Some kv, p\<lparr>lru_data := d\<rparr>))"

definition lru_ops :: "(('k, 'v) lru, 'k, 'v) policy_ops" where
  "lru_ops = \<lparr>po_get = lru_get, po_put = lru_put, po_evict = lru_evict,
              po_capacity = lru_capacity, po_len = lru_len\<rparr>"

section \<open>ARC\<close>

record ('k, 'v) arc =
  arc_capacity :: int
  arc_p :: int
  arc_t1 :: "('k, 'v) odict"
  arc_t2 :: "('k, 'v) odict"
  arc_b1 :: "'k list"
  arc_b2 :: "'k list"

definition arc_init :: "int \<Rightarrow> ('k, 'v) arc result" where
  "arc_init capacity =
     (if capacity \<le> 0 then Inl ValueError
      else Inr \<lparr>arc_capacity = capacity, arc_p = 0, arc_t1 = [], arc_t2 = [],
               arc_b1 = [], arc_b2 = []\<rparr>)"

definition arc_len :: "('k, 'v) arc \<Rightarrow> nat" where
  "arc_len p = length (arc_t1 p) + length (arc_t2 p)"

definition ghost_add :: "'k \<Rightarrow> 'k list \<Rightarrow> 'k list" where
  "ghost_add k b = (if k \<in> set b then b else b @ [k])"

definition arc_get :: "'k \<Rightarrow> ('k, 'v) arc \<Rightarrow> 'v option \<times> ('k, 'v) arc" where
  "arc_get key p =
     (case map_of (arc_t1 p) key of
        Some v \<Rightarrow> (Some v, p\<lparr>arc_t1 := AList.delete key (arc_t1 p),
                            arc_t2 := AList.update key v (arc_t2 p)\<rparr>)
      | None \<Rightarrow>
          (case map_of (arc_t2 p) key of
             Some v \<Rightarrow> (Some v, p\<lparr>arc_t2 := AList.update key v (AList.delete key (arc_t2 p))\<rparr>)
           | None \<Rightarrow> (None, p)))"

definition evict_t1 :: "('k, 'v) arc \<Rightarrow> ('k, 'v) arc" where
  "evict_t1 p = p\<lparr>arc_t1 := tl (arc_t1 p), arc_b1 := ghost_add (fst (hd (arc_t1 p))) (arc_b1 p)\<rparr>"

definition evict_t2 :: "('k, 'v) arc \<Rightarrow> ('k, 'v) arc" where
  "evict_t2 p = p\<lparr>arc_t2 := tl (arc_t2 p), arc_b2 := ghost_add (fst (hd (arc_t2 p))) (arc_b2 p)\<rparr>"

definition arc_replace :: "'k \<Rightarrow> ('k, 'v) arc \<Rightarrow> ('k, 'v) arc" where
  "arc_replace incoming_key p =
     (if arc_t1 p \<noteq> [] \<and>
         (int (length (arc_t1 p)) > arc_p p \<or>
          incoming_key \<in> set (arc_b2 p) \<and> int (length (arc_t1 p)) = arc_p p)
      then evict_t1 p
      else if arc_t2 p \<noteq> [] then evict_t2 p
      else if arc_t1 p \<noteq> [] then evict_t1 p
      else p)"

function trim_list :: "int \<Rightarrow> 'k list \<Rightarrow> 'k list" where
  "trim_list c b = (if int (length b) > c \<and> b \<noteq> [] then trim_list c (tl b) else b)"
  by pat_completeness auto
termination
  by (relation "measure (\<lambda>(c, b). length b)") auto

function trim_both :: "int \<Rightarrow> 'k list \<Rightarrow> 'k list \<Rightarrow> 'k list \<times> 'k list" where
  "trim_both c b1 b2 =
     (if int (length b1 + length b2) > c
      then if length b1 \<ge> length b2 \<and> b1 \<noteq> [] then trim_both c (tl b1) b2
           else if b2 \<noteq> [] then trim_both c b1 (tl b2)
           else (b1, b2)
      else (b1, b2))"
  by pat_completeness auto
termination
  by (relation "measure (\<lambda>(c, b1, b2). length b1 + length b2)") auto

declare trim_list.simps [simp del] trim_both.simps [simp del]

definition trim_ghosts :: "('k, 'v) arc \<Rightarrow> ('k, 'v) arc" where
  "trim_ghosts p =
     (let c = arc_capacity p;
          (b1, b2) = trim_both c (trim_list c (arc_b1 p)) (trim_list c (arc_b2 p))
      in p\<lparr>arc_b1 := b1, arc_b2 := b2\<rparr>)"

definition arc_put :: "'k \<Rightarrow> 'v \<Rightarrow> ('k, 'v) arc \<Rightarrow> ('k, 'v) arc" where
  "arc_put key v p =
     (if od_mem key (arc_t1 p) then
        p\<lparr>arc_t1 := AList.delete key (arc_t1 p), arc_t2 := AList.update key v (arc_t2 p)\<rparr>
      else if od_mem key (arc_t2 p) then
        p\<lparr>arc_t2 := AList.update key v (AList.delete key (arc_t2 p))\<rparr>
      else if key \<in> set (arc_b1 p) then
        (let delta = max 1 (int (length (arc_b2 p)) div max 1 (int (length (arc_b1 p))));
             p1 = arc_replace key (p\<lparr>arc_p := min (arc_capacity p) (arc_p p + delta)\<rparr>)
         in trim_ghosts (p1\<lparr>arc_b1 := remove1 key (arc_b1 p1), arc_t2 := AList.update key v (arc_t2 p1)\<rparr>))
      else if key \<in> set (arc_b2 p) then
        (let delta = max 1 (int (length (arc_b1 p)) div max 1 (int (length (arc_b2 p))));
             p1 = arc_replace key (p\<lparr>arc_p := max 0 (arc_p p - delta)\<rparr>)
         in trim_ghosts (p1\<lparr>arc_b2 := remove1 key (arc_b2 p1), arc_t2 := AList.update key v (arc_t2 p1)\<rparr>))
      else
        (let l1_size = int (length (arc_t1 p) + length (arc_b1 p));
             total = int (arc_len p + length (arc_b1 p) + length (arc_b2 p));
             p1 = (if l1_size = arc_capacity p then
                     if int (length (arc_t1 p)) < arc_capacity p
                     then arc_replace key (p\<lparr>arc_b1 := tl (arc_b1 p)\<rparr>)
                     else p\<lparr>arc_t1 := tl (arc_t1 p)\<rparr>
                   else if l1_size < arc_capacity p \<and> total \<ge> arc_capacity p then
                     arc_replace key
                       (if total \<ge> 2 * arc_capacity p \<and> arc_b2 p \<noteq> []
                        then p\<lparr>arc_b2 := tl (arc_b2 p)\<rparr> else p)
                   else p)
         in trim_ghosts (p1\<lparr>arc_t1 := AList.update key v (arc_t1 p1)\<rparr>)))"

definition arc_evict :: "('k, 'v) arc \<Rightarrow> ('k \<times> 'v) option \<times> ('k, 'v) arc" where
  "arc_evict p =
     (if arc_t1 p \<noteq> [] then (Some (hd (arc_t1 p)), trim_ghosts (evict_t1 p))
      else if arc_t2 p \<noteq> [] then (Some (hd (arc_t2 p)), trim_ghosts (evict_t2 p))
      else (None, p))"

definition arc_ops :: "(('k, 'v) arc, 'k, 'v) policy_ops" where
  "arc_ops = \<lparr>po_get = arc_get, po_put = arc_put, po_evict = arc_evict,
              po_capacity = arc_capacity, po_len = arc_len\<rparr>"

section \<open>Runs of a policy\<close>

datatype ('k, 'v) cache_op = Get 'k | Put 'k 'v | Evict

fun policy_step :: "('p, 'k, 'v) policy_ops \<Rightarrow> ('k, 'v) cache_op \<Rightarrow> 'p \<Rightarrow> 'p" where
  "policy_step ops (Get k) p = snd (po_get ops k p)"
| "policy_step ops (Put k v) p = po_put ops k v p"
| "policy_step ops Evict p = snd (po_evict ops p)"

definition policy_run :: "('p, 'k, 'v) policy_ops \<Rightarrow> ('k, 'v) cache_op list \<Rightarrow> 'p \<Rightarrow> 'p" where
  "policy_run ops xs p = fold (policy_step ops) xs p"

text \<open>The value most recently stored under a key by a sequence of operations.\<close>

fun last_put :: "('k, 'v) cache_op list \<Rightarrow> 'k \<Rightarrow> 'v option" where
  "last_put [] k = None"
| "last_put (x # xs) k =
     (case last_put xs k of
        Some v \<Rightarrow> Some v
      | None \<Rightarrow> (case x of Put k' v \<Rightarrow> if k' = k then Some v else None | _ \<Rightarrow> None))"

section \<open>The contract of a policy\<close>

locale cache_policy =
  fixes ops :: "('p, 'k, 'v) policy_ops"
    and content :: "'p \<Rightarrow> 'k \<Rightarrow> 'v option"
    and inv :: "'p \<Rightarrow> bool"
  assumes get_law: "inv p \<Longrightarrow> po_get ops k p = (r, p') \<Longrightarrow>
      r = content p k \<and> inv p' \<and> content p' = content p \<and> po_capacity ops p' = po_capacity ops p"
    and put_inv: "inv p \<Longrightarrow> inv (po_put ops k v p) \<and> po_capacity ops (po_put ops k v p) = po_capacity ops p"
    and put_content: "inv p \<Longrightarrow> content (po_put ops k v p) k = Some v \<and>
      content (po_put ops k v p) \<subseteq>\<^sub>m (content p)(k \<mapsto> v)"
    and evict_law: "inv p \<Longrightarrow> po_evict ops p = (e, p') \<Longrightarrow>
      (case e of
         None \<Rightarrow> content p = Map.empty \<and> p' = p
       | Some (k, v) \<Rightarrow> content p k = Some v \<and> content p' = (content p)(k := None) \<and> inv p' \<and>
           po_capacity ops p' = po_capacity ops p \<and> Suc (po_len ops p') = po_len ops p)"
    and bounded: "inv p \<Longrightarrow> int (po_len ops p) \<le> po_capacity ops p"
    and len_content: "inv p \<Longrightarrow> finite (dom (content p)) \<and> po_len ops p = card (dom (content p))"
begin

lemma step_inv: "inv p \<Longrightarrow> inv (policy_step ops x p) \<and>
    po_capacity ops (policy_step ops x p) = po_capacity ops p"
proof (cases x)
  case (Get k)
  assume "inv p"
  with get_law [of p k] Get show ?thesis by (cases "po_get ops k p") auto
next
  case (Put k v)
  assume "inv p"
  with put_inv Put show ?thesis by auto
next
  case Evict
  assume "inv p"
  with evict_law [of p] Evict show ?thesis
    by (cases "po_evict ops p") (auto split: option.splits)
qed

lemma step_content:
  assumes "inv p" and "content (policy_step ops x p) k = Some v"
  shows "(case x of Put k' v' \<Rightarrow> if k' = k then v' = v else content p k = Some v
           | _ \<Rightarrow> content p k = Some v)"
proof (cases x)
  case (Get k')
  with assms get_law [of p k'] show ?thesis by (cases "po_get ops k' p") auto
next
  case (Put k' v')
  with assms put_content [of p k' v'] show ?thesis
    by (auto simp: map_le_def dom_def split: if_splits)
next
  case Evict
  with assms evict_law [of p] show ?thesis
    by (cases "po_evict ops p") (auto split: option.splits if_splits)
qed

lemma run_inv: "inv p \<Longrightarrow> inv (policy_run ops xs p) \<and>
    po_capacity ops (policy_run ops xs p) = po_capacity ops p"
  by (induction xs arbitrary: p) (auto simp: policy_run_def step_inv)

lemma run_content:
  "inv p \<Longrightarrow> content (policy_run ops xs p) k = Some v \<Longrightarrow>
   (case last_put xs k of Some w \<Rightarrow> w = v | None \<Rightarrow> content p k = Some v)"
proof (induction xs arbitrary: p)
  case Nil
  then show ?case by (simp add: policy_run_def)
next
  case (Cons x xs)
  have inv: "inv (policy_step ops x p)" using step_inv Cons.prems(1) by blast
  have "content (policy_run ops xs (policy_step ops x p)) k = Some v"
    using Cons.prems(2) by (simp add: policy_run_def)
  from Cons.IH [OF inv this] step_content [OF Cons.prems(1), of x k v] show ?case
    by (auto split: option.splits cache_op.splits if_splits)
qed

lemma run_bounded: "inv p \<Longrightarrow> int (po_len ops (policy_run ops xs p)) \<le> po_capacity ops p"
  using run_inv bounded by metis

lemma coherent:
  assumes "inv p" and "content p = Map.empty"
    and "fst (po_get ops k (policy_run ops xs p)) = Some v"
  shows "last_put xs k = Some v"
proof -
  let ?q = "policy_run ops xs p"
  obtain r q where g: "po_get ops k ?q = (r, q)" by fastforce
  with get_law [of ?q k r q] run_inv [OF assms(1)] assms(3) have "content ?q k = Some v" by auto
  with run_content [OF assms(1)] assms(2) show ?thesis by (fastforce split: option.splits)
qed

end

text \<open>
  What a client that tracks the cached entries itself needs in addition: as
  long as there is room, storing an entry drops no other entry.
\<close>

locale exact_policy = cache_policy ops content inv
  for ops :: "('p, 'k, 'v) policy_ops" and content and inv +
  assumes put_exact: "inv p \<Longrightarrow> int (po_len ops p) < po_capacity ops p \<Longrightarrow>
      content (po_put ops k v p) = (content p)(k \<mapsto> v)"


section \<open>LRU implements the exact contract\<close>

definition lru_inv :: "('k, 'v) lru \<Rightarrow> bool" where
  "lru_inv p \<longleftrightarrow> 0 < lru_capacity p \<and> od_ok (lru_data p) \<and> int (lru_len p) \<le> lru_capacity p"

definition lru_content :: "('k, 'v) lru \<Rightarrow> 'k \<Rightarrow> 'v option" where
  "lru_content p = map_of (lru_data p)"

lemma od_mem_length: "od_ok d \<Longrightarrow> card (dom (map_of d)) = length d"
  by (metis dom_map_of_conv_image_fst distinct_card length_map list.set_map)

lemma map_of_tl: "od_ok d \<Longrightarrow> d \<noteq> [] \<Longrightarrow> map_of (tl d) = (map_of d)(fst (hd d) := None)"
  by (cases d) (auto simp: fun_eq_iff map_of_eq_None_iff)

lemma lru_put_inv: "lru_inv p \<Longrightarrow> lru_inv (lru_put k v p) \<and> lru_capacity (lru_put k v p) = lru_capacity p"
proof -
  assume inv: "lru_inv p"
  then have ok: "od_ok (lru_data p)" "od_ok (AList.update k v (lru_data p))" "od_ok (tl (lru_data p))"
    by (auto simp: lru_inv_def map_tl distinct_tl)
  show ?thesis
  proof (cases "od_mem k (lru_data p)")
    case True
    then have "length (AList.update k v (lru_data p)) = length (lru_data p)"
      by (simp add: length_update od_mem_iff)
    with True inv ok show ?thesis by (simp add: lru_inv_def lru_put_def lru_len_def)
  next
    case False
    with inv ok show ?thesis
      by (auto simp: lru_inv_def lru_put_def lru_len_def length_update od_mem_iff Let_def
          intro!: od_ok_update dest: list.set_sel(2))
  qed
qed

lemma lru_put_content:
  assumes "lru_inv p"
  shows "lru_content (lru_put k v p) =
    (if od_mem k (lru_data p) \<or> int (lru_len p) < lru_capacity p then (lru_content p)(k \<mapsto> v)
     else (lru_content p)(fst (hd (lru_data p)) := None, k \<mapsto> v))"
proof -
  have "lru_data p \<noteq> []" if "lru_capacity p \<le> int (lru_len p)"
    using assms that by (auto simp: lru_inv_def lru_len_def)
  with assms map_of_tl [of "lru_data p"] show ?thesis
    by (auto simp: lru_put_def lru_content_def lru_inv_def lru_len_def Let_def)
qed

interpretation lru: exact_policy lru_ops lru_content lru_inv
proof unfold_locales
  fix p :: "('a, 'b) lru" and k r p' v
  assume inv: "lru_inv p"
  show "r = lru_content p k \<and> lru_inv p' \<and> lru_content p' = lru_content p \<and>
      po_capacity lru_ops p' = po_capacity lru_ops p" if "po_get lru_ops k p = (r, p')"
    using that inv
    by (auto simp: lru_ops_def lru_get_def lru_content_def lru_inv_def lru_len_def od_mem_def Let_def
        split: if_splits)
  show "lru_inv (po_put lru_ops k v p) \<and>
      po_capacity lru_ops (po_put lru_ops k v p) = po_capacity lru_ops p"
    using lru_put_inv [OF inv] by (simp add: lru_ops_def)
  show "lru_content (po_put lru_ops k v p) k = Some v \<and>
      lru_content (po_put lru_ops k v p) \<subseteq>\<^sub>m (lru_content p)(k \<mapsto> v)"
    by (auto simp: lru_ops_def lru_put_content [OF inv] map_le_def)
  show "int (po_len lru_ops p) \<le> po_capacity lru_ops p"
    using inv by (simp add: lru_ops_def lru_inv_def)
  show "finite (dom (lru_content p)) \<and> po_len lru_ops p = card (dom (lru_content p))"
    using inv by (simp add: lru_ops_def lru_inv_def lru_content_def lru_len_def od_mem_length finite_dom_map_of)
  show "lru_content (po_put lru_ops k v p) = (lru_content p)(k \<mapsto> v)"
    if "int (po_len lru_ops p) < po_capacity lru_ops p"
    using that by (simp add: lru_ops_def lru_put_content [OF inv])
next
  fix p p' :: "('a, 'b) lru" and e
  assume "lru_inv p" and "po_evict lru_ops p = (e, p')"
  then show "case e of None \<Rightarrow> lru_content p = Map.empty \<and> p' = p
      | Some (k, v) \<Rightarrow> lru_content p k = Some v \<and> lru_content p' = (lru_content p)(k := None) \<and>
          lru_inv p' \<and> po_capacity lru_ops p' = po_capacity lru_ops p \<and>
          Suc (po_len lru_ops p') = po_len lru_ops p"
    by (cases "lru_data p")
      (auto simp: lru_ops_def lru_evict_def lru_content_def lru_inv_def lru_len_def fun_eq_iff
        map_of_eq_None_iff)
qed

section \<open>ARC implements the contract\<close>

definition arc_keys :: "('k, 'v) arc \<Rightarrow> 'k list" where
  "arc_keys p = keys (arc_t1 p) @ keys (arc_t2 p) @ arc_b1 p @ arc_b2 p"

text \<open>
  The resident lists and the ghost lists are pairwise disjoint and without
  duplicates; resident entries, the recency side and the ghosts are each at
  most the capacity.
\<close>

definition arc_inv :: "('k, 'v) arc \<Rightarrow> bool" where
  "arc_inv p \<longleftrightarrow>
     0 < arc_capacity p \<and> 0 \<le> arc_p p \<and> arc_p p \<le> arc_capacity p \<and> distinct (arc_keys p) \<and>
     int (arc_len p) \<le> arc_capacity p \<and>
     int (length (arc_t1 p) + length (arc_b1 p)) \<le> arc_capacity p \<and>
     int (length (arc_b1 p) + length (arc_b2 p)) \<le> arc_capacity p"

definition arc_content :: "('k, 'v) arc \<Rightarrow> 'k \<Rightarrow> 'v option" where
  "arc_content p = map_of (arc_t1 p @ arc_t2 p)"

lemma trim_list_drop: "\<exists>n. trim_list c b = drop n b"
proof (induction c b rule: trim_list.induct)
  case (1 c b)
  show ?case
  proof (cases "int (length b) > c \<and> b \<noteq> []")
    case True
    with 1 obtain n where "trim_list c (tl b) = drop n (tl b)" by blast
    with True show ?thesis by (metis drop_Suc trim_list.simps)
  next
    case False
    then have "trim_list c b = drop 0 b" by (subst trim_list.simps) auto
    then show ?thesis ..
  qed
qed

lemma trim_both_drop:
  "0 \<le> c \<Longrightarrow> \<exists>n m. trim_both c b1 b2 = (drop n b1, drop m b2) \<and>
     int (length (drop n b1) + length (drop m b2)) \<le> c"
proof (induction c b1 b2 rule: trim_both.induct)
  case (1 c b1 b2)
  consider "int (length b1 + length b2) \<le> c"
    | "int (length b1 + length b2) > c" "length b1 \<ge> length b2" "b1 \<noteq> []"
    | "int (length b1 + length b2) > c" "\<not> (length b1 \<ge> length b2 \<and> b1 \<noteq> [])" "b2 \<noteq> []"
    using "1.prems" by fastforce
  then show ?case
  proof cases
    case 1
    then have "trim_both c b1 b2 = (drop 0 b1, drop 0 b2)" by (simp add: trim_both.simps [of c b1 b2])
    with 1 show ?thesis by (metis drop0)
  next
    case 2
    with "1.IH"(1) "1.prems" show ?thesis
      by (simp add: trim_both.simps [of c b1 b2]) (metis drop_Suc length_drop)
  next
    case 3
    with "1.IH"(2) "1.prems" show ?thesis
      by (simp add: trim_both.simps [of c b1 b2]) (metis drop_Suc length_drop)
  qed
qed

lemma trim_ghosts_facts:
  assumes "0 \<le> arc_capacity p"
  obtains n m where "trim_ghosts p = p\<lparr>arc_b1 := drop n (arc_b1 p), arc_b2 := drop m (arc_b2 p)\<rparr>"
    and "int (length (drop n (arc_b1 p)) + length (drop m (arc_b2 p))) \<le> arc_capacity p"
proof -
  let ?c = "arc_capacity p"
  obtain i j where ij: "trim_list ?c (arc_b1 p) = drop i (arc_b1 p)"
    "trim_list ?c (arc_b2 p) = drop j (arc_b2 p)" using trim_list_drop by metis
  obtain n m where "trim_both ?c (drop i (arc_b1 p)) (drop j (arc_b2 p)) =
      (drop (n + i) (arc_b1 p), drop (m + j) (arc_b2 p))"
    "int (length (drop (n + i) (arc_b1 p)) + length (drop (m + j) (arc_b2 p))) \<le> ?c"
    using trim_both_drop [OF assms, of "drop i (arc_b1 p)" "drop j (arc_b2 p)"] by auto
  with ij that [where n = "n + i" and m = "m + j"] show thesis by (simp add: trim_ghosts_def)
qed


text \<open>
  The part of the invariant that holds in the middle of an operation, with
  the number \<open>room\<close> of entries the resident lists may still take.
\<close>

definition arc_mid :: "('k, 'v) arc \<Rightarrow> bool" where
  "arc_mid p \<longleftrightarrow>
     0 < arc_capacity p \<and> 0 \<le> arc_p p \<and> arc_p p \<le> arc_capacity p \<and> distinct (arc_keys p) \<and>
     int (arc_len p) \<le> arc_capacity p \<and>
     int (length (arc_t1 p) + length (arc_b1 p)) \<le> arc_capacity p"

lemma arc_inv_mid: "arc_inv p \<Longrightarrow> arc_mid p"
  by (simp add: arc_inv_def arc_mid_def)

lemma trim_ghosts_inv:
  assumes "arc_mid p"
  shows "arc_inv (trim_ghosts p)" and "arc_capacity (trim_ghosts p) = arc_capacity p"
    and "arc_t1 (trim_ghosts p) = arc_t1 p" and "arc_t2 (trim_ghosts p) = arc_t2 p"
proof -
  from assms have c: "0 \<le> arc_capacity p" by (simp add: arc_mid_def)
  obtain n m where t: "trim_ghosts p = p\<lparr>arc_b1 := drop n (arc_b1 p), arc_b2 := drop m (arc_b2 p)\<rparr>"
    "int (length (drop n (arc_b1 p)) + length (drop m (arc_b2 p))) \<le> arc_capacity p"
    using trim_ghosts_facts [OF c] by metis
  show "arc_capacity (trim_ghosts p) = arc_capacity p"
    and "arc_t1 (trim_ghosts p) = arc_t1 p" and "arc_t2 (trim_ghosts p) = arc_t2 p"
    by (simp_all add: t)
  have "distinct (arc_keys (trim_ghosts p))"
    using assms set_drop_subset [of n "arc_b1 p"] set_drop_subset [of m "arc_b2 p"]
    by (auto simp: arc_keys_def arc_mid_def t(1) distinct_drop)
  moreover have "length (drop n (arc_b1 p)) \<le> length (arc_b1 p)" by simp
  ultimately show "arc_inv (trim_ghosts p)"
    using assms t unfolding arc_inv_def arc_mid_def arc_len_def t(1) by (simp del: length_drop)
qed

lemma map_of_drop_mid:
  "k \<notin> fst ` set (xs @ ys) \<Longrightarrow> map_of (xs @ ys) = (map_of (xs @ (k, v) # ys))(k := None)"
proof (induction xs)
  case Nil
  then have "map_of ys k = None" by (simp add: map_of_eq_None_iff)
  then show ?case by (auto simp: fun_eq_iff)
next
  case (Cons x xs)
  then show ?case by (cases x) (auto simp: fun_eq_iff)
qed

lemma evict_t1_facts:
  assumes "arc_mid p" and "arc_t1 p \<noteq> []"
  shows "arc_mid (evict_t1 p)" and "set (arc_keys (evict_t1 p)) = set (arc_keys p)"
    and "Suc (arc_len (evict_t1 p)) = arc_len p"
    and "arc_content (evict_t1 p) = (arc_content p)(fst (hd (arc_t1 p)) := None)"
    and "arc_content p (fst (hd (arc_t1 p))) = Some (snd (hd (arc_t1 p)))"
proof -
  obtain k v d where t1: "arc_t1 p = (k, v) # d" using assms(2) by (cases "arc_t1 p") auto
  have "k \<notin> set (arc_b1 p)" using assms(1) by (simp add: arc_mid_def arc_keys_def t1)
  with assms(1) t1 show "arc_mid (evict_t1 p)" and "set (arc_keys (evict_t1 p)) = set (arc_keys p)"
    and "Suc (arc_len (evict_t1 p)) = arc_len p"
    by (auto simp: arc_mid_def arc_keys_def arc_len_def evict_t1_def ghost_add_def)
  show "arc_content (evict_t1 p) = (arc_content p)(fst (hd (arc_t1 p)) := None)"
    using assms(1) t1 map_of_drop_mid [of k "[]" "d @ arc_t2 p" v]
    by (auto simp: arc_mid_def arc_keys_def arc_content_def evict_t1_def)
  show "arc_content p (fst (hd (arc_t1 p))) = Some (snd (hd (arc_t1 p)))"
    by (simp add: arc_content_def t1)
qed

lemma evict_t2_facts:
  assumes "arc_mid p" and "arc_t2 p \<noteq> []"
  shows "arc_mid (evict_t2 p)" and "set (arc_keys (evict_t2 p)) = set (arc_keys p)"
    and "Suc (arc_len (evict_t2 p)) = arc_len p"
    and "arc_content (evict_t2 p) = (arc_content p)(fst (hd (arc_t2 p)) := None)"
    and "arc_content p (fst (hd (arc_t2 p))) = Some (snd (hd (arc_t2 p)))"
proof -
  obtain k v d where t2: "arc_t2 p = (k, v) # d" using assms(2) by (cases "arc_t2 p") auto
  have k: "k \<notin> set (arc_b2 p)" "k \<notin> fst ` set (arc_t1 p)"
    using assms(1) by (auto simp: arc_mid_def arc_keys_def t2)
  with assms(1) t2 show "arc_mid (evict_t2 p)" and "set (arc_keys (evict_t2 p)) = set (arc_keys p)"
    and "Suc (arc_len (evict_t2 p)) = arc_len p"
    by (auto simp: arc_mid_def arc_keys_def arc_len_def evict_t2_def ghost_add_def)
  have "map_of (arc_t1 p) k = None" using k(2) by (simp add: map_of_eq_None_iff)
  then show "arc_content p (fst (hd (arc_t2 p))) = Some (snd (hd (arc_t2 p)))"
    by (simp add: arc_content_def t2 map_add_def)
  have "k \<notin> fst ` set (arc_t1 p @ d)" using assms(1) t2 by (auto simp: arc_mid_def arc_keys_def)
  from map_of_drop_mid [OF this, of v]
  show "arc_content (evict_t2 p) = (arc_content p)(fst (hd (arc_t2 p)) := None)"
    by (simp add: arc_content_def evict_t2_def t2)
qed

lemma arc_replace_facts:
  assumes "arc_mid p"
  shows "arc_mid (arc_replace k p)" and "set (arc_keys (arc_replace k p)) = set (arc_keys p)"
    and "int (arc_len (arc_replace k p)) < arc_capacity p"
    and "arc_content (arc_replace k p) \<subseteq>\<^sub>m arc_content p"
    and "arc_capacity (arc_replace k p) = arc_capacity p"
    and "length (arc_t1 (arc_replace k p)) + length (arc_b1 (arc_replace k p)) =
         length (arc_t1 p) + length (arc_b1 p)"
    and "set (arc_b1 p) \<subseteq> set (arc_b1 (arc_replace k p))"
    and "set (arc_b2 p) \<subseteq> set (arc_b2 (arc_replace k p))"
proof -
  consider (t1) "arc_t1 p \<noteq> []" "arc_replace k p = evict_t1 p"
    | (t2) "arc_t2 p \<noteq> []" "arc_replace k p = evict_t2 p"
    | (none) "arc_t1 p = []" "arc_t2 p = []" "arc_replace k p = p"
    by (metis arc_replace_def)
  note cs = this
  have len: "int (arc_len p) \<le> arc_capacity p" "0 < arc_capacity p"
    using assms by (simp_all add: arc_mid_def)
  have d: "distinct (arc_keys p)" using assms by (simp add: arc_mid_def)
  have le: "m(x := None) \<subseteq>\<^sub>m m" for m :: "'a \<Rightarrow> 'b option" and x
    by (simp add: map_le_def)
  from cs show "arc_mid (arc_replace k p)"
    by cases (use assms evict_t1_facts(1) evict_t2_facts(1) in auto)
  from cs show "set (arc_keys (arc_replace k p)) = set (arc_keys p)"
    by cases (use assms evict_t1_facts(2) evict_t2_facts(2) in auto)
  from cs show "int (arc_len (arc_replace k p)) < arc_capacity p"
    by cases (use len evict_t1_facts(3) [OF assms] evict_t2_facts(3) [OF assms] in
        \<open>auto simp: arc_len_def\<close>)
  from cs show "arc_content (arc_replace k p) \<subseteq>\<^sub>m arc_content p"
    by cases (use le evict_t1_facts(4) [OF assms] evict_t2_facts(4) [OF assms] in auto)
  from cs show "arc_capacity (arc_replace k p) = arc_capacity p"
    by cases (auto simp: evict_t1_def evict_t2_def)
  from cs show "length (arc_t1 (arc_replace k p)) + length (arc_b1 (arc_replace k p)) =
         length (arc_t1 p) + length (arc_b1 p)"
    by cases (use d in \<open>cases "arc_t1 p"; auto simp: evict_t1_def evict_t2_def ghost_add_def arc_keys_def\<close>)+
  from cs show "set (arc_b1 p) \<subseteq> set (arc_b1 (arc_replace k p))"
    and "set (arc_b2 p) \<subseteq> set (arc_b2 (arc_replace k p))"
    by (cases; auto simp: evict_t1_def evict_t2_def ghost_add_def)+
qed


lemma arc_mid_notin:
  assumes "distinct (arc_keys p)"
  shows "k \<in> set (arc_b1 p) \<Longrightarrow> k \<notin> fst ` set (arc_t1 p) \<and> k \<notin> fst ` set (arc_t2 p) \<and> k \<notin> set (arc_b2 p)"
    and "k \<in> set (arc_b2 p) \<Longrightarrow> k \<notin> fst ` set (arc_t1 p) \<and> k \<notin> fst ` set (arc_t2 p) \<and> k \<notin> set (arc_b1 p)"
    and "k \<in> fst ` set (arc_t1 p) \<Longrightarrow> k \<notin> fst ` set (arc_t2 p)"
  using assms by (auto simp: arc_keys_def)

lemma arc_content_alt: "arc_content p = map_of (arc_t2 p) ++ map_of (arc_t1 p)"
  by (simp add: arc_content_def)

lemma arc_admit_t2:
  assumes mid: "arc_mid p" and len: "int (arc_len p) < arc_capacity p"
    and k: "k \<in> set (arc_b1 p) \<or> k \<in> set (arc_b2 p)"
    and q: "q = p\<lparr>arc_b1 := remove1 k (arc_b1 p), arc_b2 := remove1 k (arc_b2 p),
                 arc_t2 := AList.update k v (arc_t2 p)\<rparr>"
  shows "arc_mid q \<and> arc_content q = (arc_content p)(k \<mapsto> v)"
proof -
  have d: "distinct (arc_keys p)" using mid by (simp add: arc_mid_def)
  have nt: "k \<notin> fst ` set (arc_t1 p)" "k \<notin> fst ` set (arc_t2 p)" using arc_mid_notin [OF d] k by auto
  have "distinct (arc_keys q)"
    using d nt by (auto simp: arc_keys_def q update_absent distinct_remove1 dest: notin_set_remove1)
  moreover have "length (remove1 k (arc_b1 p)) \<le> length (arc_b1 p)" by (simp add: length_remove1)
  ultimately have "arc_mid q"
    using mid len nt by (simp add: arc_mid_def q arc_len_def update_absent)
  moreover have "map_of (arc_t1 p) k = None" using nt by (simp add: map_of_eq_None_iff)
  then have "arc_content q = (arc_content p)(k \<mapsto> v)"
    by (auto simp: arc_content_alt q fun_eq_iff map_add_def split: option.splits)
  ultimately show ?thesis ..
qed

lemma arc_admit_t1:
  assumes mid: "arc_mid p" and len: "int (arc_len p) < arc_capacity p"
    and l1: "int (length (arc_t1 p) + length (arc_b1 p)) < arc_capacity p"
    and k: "k \<notin> set (arc_keys p)"
  shows "arc_mid (p\<lparr>arc_t1 := AList.update k v (arc_t1 p)\<rparr>) \<and>
    arc_content (p\<lparr>arc_t1 := AList.update k v (arc_t1 p)\<rparr>) = (arc_content p)(k \<mapsto> v)"
proof -
  have nt: "k \<notin> fst ` set (arc_t1 p)" "k \<notin> fst ` set (arc_t2 p)" "k \<notin> set (arc_b1 p)"
    "k \<notin> set (arc_b2 p)" using k by (auto simp: arc_keys_def)
  with mid len l1 have "arc_mid (p\<lparr>arc_t1 := AList.update k v (arc_t1 p)\<rparr>)"
    by (auto simp: arc_mid_def arc_keys_def arc_len_def update_absent)
  then show ?thesis by (simp add: arc_content_alt)
qed

definition arc_make_room :: "'k \<Rightarrow> ('k, 'v) arc \<Rightarrow> ('k, 'v) arc" where
  "arc_make_room key p =
     (let l1_size = int (length (arc_t1 p) + length (arc_b1 p));
          total = int (arc_len p + length (arc_b1 p) + length (arc_b2 p))
      in if l1_size = arc_capacity p then
           if int (length (arc_t1 p)) < arc_capacity p
           then arc_replace key (p\<lparr>arc_b1 := tl (arc_b1 p)\<rparr>)
           else p\<lparr>arc_t1 := tl (arc_t1 p)\<rparr>
         else if l1_size < arc_capacity p \<and> total \<ge> arc_capacity p then
           arc_replace key
             (if total \<ge> 2 * arc_capacity p \<and> arc_b2 p \<noteq> []
              then p\<lparr>arc_b2 := tl (arc_b2 p)\<rparr> else p)
         else p)"

lemma arc_make_room_facts:
  assumes "arc_inv p"
  shows "arc_mid (arc_make_room k p) \<and> arc_capacity (arc_make_room k p) = arc_capacity p \<and>
    int (arc_len (arc_make_room k p)) < arc_capacity p \<and>
    int (length (arc_t1 (arc_make_room k p)) + length (arc_b1 (arc_make_room k p))) < arc_capacity p \<and>
    set (arc_keys (arc_make_room k p)) \<subseteq> set (arc_keys p) \<and>
    arc_content (arc_make_room k p) \<subseteq>\<^sub>m arc_content p"
proof -
  let ?c = "arc_capacity p" and ?l1 = "int (length (arc_t1 p) + length (arc_b1 p))"
  let ?total = "int (arc_len p + length (arc_b1 p) + length (arc_b2 p))"
  have mid: "arc_mid p" by (rule arc_inv_mid [OF assms])
  have l1: "?l1 \<le> ?c" and len: "int (arc_len p) \<le> ?c" using assms by (simp_all add: arc_inv_def)
  consider (a) "?l1 = ?c" "int (length (arc_t1 p)) < ?c"
    | (b) "?l1 = ?c" "\<not> int (length (arc_t1 p)) < ?c"
    | (c) "?l1 < ?c" "?total \<ge> ?c" | (d) "?l1 < ?c" "\<not> ?total \<ge> ?c"
    using l1 by linarith
  then show ?thesis
  proof cases
    case a
    let ?p = "p\<lparr>arc_b1 := tl (arc_b1 p)\<rparr>"
    obtain g gs where b1: "arc_b1 p = g # gs" using a by (cases "arc_b1 p") auto
    have "arc_mid ?p" using mid by (auto simp: arc_mid_def arc_keys_def arc_len_def b1)
    note r = arc_replace_facts [OF this, of k]
    have sub: "set (arc_keys ?p) \<subseteq> set (arc_keys p)" "arc_content ?p = arc_content p"
      by (auto simp: arc_keys_def arc_content_def b1)
    have "arc_make_room k p = arc_replace k ?p" using a by (simp add: arc_make_room_def)
    with r sub a b1 show ?thesis by auto
  next
    case b
    let ?p = "p\<lparr>arc_t1 := tl (arc_t1 p)\<rparr>"
    obtain x xs where t1: "arc_t1 p = x # xs"
      using b mid by (cases "arc_t1 p") (auto simp: arc_mid_def)
    have "arc_content ?p = (arc_content p)(fst x := None)"
      using mid map_of_drop_mid [of "fst x" "[]" "xs @ arc_t2 p" "snd x"]
      by (auto simp: arc_mid_def arc_keys_def arc_content_def t1)
    then have "arc_content ?p \<subseteq>\<^sub>m arc_content p" by (simp add: map_le_def)
    moreover have "arc_make_room k p = ?p" using b by (simp add: arc_make_room_def)
    ultimately show ?thesis
      using mid b len by (auto simp: arc_mid_def arc_keys_def arc_len_def t1)
  next
    case c
    let ?p = "if ?total \<ge> 2 * ?c \<and> arc_b2 p \<noteq> [] then p\<lparr>arc_b2 := tl (arc_b2 p)\<rparr> else p"
    have "arc_mid ?p"
      using mid by (cases "arc_b2 p") (auto simp: arc_mid_def arc_keys_def arc_len_def)
    note r = arc_replace_facts [OF this, of k]
    have sub: "set (arc_keys ?p) \<subseteq> set (arc_keys p)" "arc_content ?p = arc_content p"
      "arc_capacity ?p = ?c" "arc_t1 ?p = arc_t1 p" "arc_b1 ?p = arc_b1 p"
      by (auto simp: arc_keys_def arc_content_def dest: list.set_sel(2))
    have "arc_make_room k p = arc_replace k ?p" using c by (simp add: arc_make_room_def)
    with r sub c show ?thesis by auto
  next
    case d
    then have "arc_make_room k p = p" by (simp add: arc_make_room_def)
    with d mid show ?thesis by simp
  qed
qed

lemma arc_put_miss:
  assumes "k \<notin> set (arc_keys p)"
  shows "arc_put k v p = trim_ghosts ((arc_make_room k p)
    \<lparr>arc_t1 := AList.update k v (arc_t1 (arc_make_room k p))\<rparr>)"
  using assms by (simp add: arc_put_def arc_make_room_def Let_def arc_keys_def od_mem_iff image_iff)


lemma arc_content_trim [simp]: "arc_mid p \<Longrightarrow> arc_content (trim_ghosts p) = arc_content p"
  by (simp add: arc_content_def trim_ghosts_inv)

lemma arc_touch_inv:
  assumes inv: "arc_inv p" and k: "k \<in> fst ` set (arc_t1 p @ arc_t2 p)"
    and q: "q = p\<lparr>arc_t1 := AList.delete k (arc_t1 p),
                 arc_t2 := AList.update k v (AList.delete k (arc_t2 p))\<rparr>"
  shows "arc_inv q \<and> arc_content q = (arc_content p)(k \<mapsto> v)"
proof -
  have d: "distinct (arc_keys p)" using inv by (simp add: arc_inv_def)
  then have ok: "od_ok (arc_t1 p)" "od_ok (arc_t2 p)" by (simp_all add: arc_keys_def)
  have nd: "k \<notin> fst ` set (AList.delete k (arc_t2 p))" by (auto simp: delete_eq_filter)
  have len: "length (AList.delete k (arc_t1 p)) + Suc (length (AList.delete k (arc_t2 p))) =
      length (arc_t1 p) + length (arc_t2 p)"
  proof (cases "k \<in> fst ` set (arc_t1 p)")
    case True
    with arc_mid_notin(3) [OF d] have "AList.delete k (arc_t2 p) = arc_t2 p" by (simp add: delete_absent)
    with length_delete_mem [OF ok(1) True] show ?thesis by simp
  next
    case False
    with k have "k \<in> fst ` set (arc_t2 p)" by auto
    with length_delete_mem [OF ok(2) this] False show ?thesis by (simp add: delete_absent)
  qed
  have "arc_keys q = filter (\<lambda>x. x \<noteq> k) (keys (arc_t1 p)) @ filter (\<lambda>x. x \<noteq> k) (keys (arc_t2 p)) @
      [k] @ arc_b1 p @ arc_b2 p"
    by (simp add: arc_keys_def q update_absent [OF nd] keys_delete)
  moreover have "k \<notin> set (arc_b1 p)" "k \<notin> set (arc_b2 p)"
    using k arc_mid_notin(1,2) [OF d, of k] by auto
  ultimately have "distinct (arc_keys q)"
    using d by (auto simp: arc_keys_def)
  moreover have "length (AList.delete k (arc_t1 p)) \<le> length (arc_t1 p)" by (rule Prelude.length_delete_le)
  ultimately have "arc_inv q"
    using inv len by (simp add: arc_inv_def q arc_len_def update_absent [OF nd] del: Prelude.length_delete_le)
  moreover have "arc_content q = (arc_content p)(k \<mapsto> v)"
    by (auto simp: arc_content_alt q fun_eq_iff map_add_def split: option.splits)
  ultimately show ?thesis ..
qed

lemma arc_put_resident:
  assumes inv: "arc_inv p" and k: "k \<in> fst ` set (arc_t1 p @ arc_t2 p)"
  shows "arc_put k v p = p\<lparr>arc_t1 := AList.delete k (arc_t1 p),
                 arc_t2 := AList.update k v (AList.delete k (arc_t2 p))\<rparr>"
proof -
  have "distinct (arc_keys p)" using inv by (simp add: arc_inv_def)
  note t1 = arc_mid_notin(3) [OF this, of k]
  show ?thesis
  proof (cases "k \<in> fst ` set (arc_t1 p)")
    case True
    with t1 show ?thesis by (simp add: arc_put_def od_mem_iff delete_absent)
  next
    case False
    with k have "k \<in> fst ` set (arc_t2 p)" by auto
    with False show ?thesis by (simp add: arc_put_def od_mem_iff delete_absent)
  qed
qed

lemma arc_put_ghost:
  assumes inv: "arc_inv p" and k: "k \<in> set (arc_b1 p) \<or> k \<in> set (arc_b2 p)"
  obtains p1 where "arc_mid p1" "int (arc_len p1) < arc_capacity p" "arc_capacity p1 = arc_capacity p"
    "arc_content p1 \<subseteq>\<^sub>m arc_content p" "k \<in> set (arc_b1 p1) \<or> k \<in> set (arc_b2 p1)"
    "arc_put k v p = trim_ghosts (p1\<lparr>arc_b1 := remove1 k (arc_b1 p1), arc_b2 := remove1 k (arc_b2 p1),
        arc_t2 := AList.update k v (arc_t2 p1)\<rparr>)"
proof -
  have d: "distinct (arc_keys p)" using inv by (simp add: arc_inv_def)
  have nt: "\<not> od_mem k (arc_t1 p)" "\<not> od_mem k (arc_t2 p)" using arc_mid_notin [OF d] k by (auto simp: od_mem_iff)
  define r where "r = (if k \<in> set (arc_b1 p)
     then min (arc_capacity p) (arc_p p + max 1 (int (length (arc_b2 p)) div max 1 (int (length (arc_b1 p)))))
     else max 0 (arc_p p - max 1 (int (length (arc_b1 p)) div max 1 (int (length (arc_b2 p))))))"
  have r: "0 \<le> r" "r \<le> arc_capacity p" using inv by (auto simp: r_def arc_inv_def)
  let ?p0 = "p\<lparr>arc_p := r\<rparr>" and ?p1 = "arc_replace k (p\<lparr>arc_p := r\<rparr>)"
  have mid: "arc_mid ?p0"
    using inv r by (simp add: arc_inv_def arc_mid_def arc_keys_def arc_len_def)
  note f = arc_replace_facts [OF mid, of k]
  have d1: "distinct (arc_keys ?p1)" using f(1) by (simp add: arc_mid_def)
  have nr: "k \<in> set (arc_b1 p) \<Longrightarrow> remove1 k (arc_b2 ?p1) = arc_b2 ?p1"
    "k \<in> set (arc_b2 p) \<Longrightarrow> remove1 k (arc_b1 ?p1) = arc_b1 ?p1"
    using f(7,8) arc_mid_notin [OF d1, of k] by (auto simp: remove1_idem)
  have "arc_put k v p = trim_ghosts (?p1\<lparr>arc_b1 := remove1 k (arc_b1 ?p1), arc_b2 := remove1 k (arc_b2 ?p1),
        arc_t2 := AList.update k v (arc_t2 ?p1)\<rparr>)"
  proof (cases "k \<in> set (arc_b1 p)")
    case True
    with nt nr(1) show ?thesis by (simp add: arc_put_def Let_def r_def)
  next
    case False
    with k nt nr(2) show ?thesis by (simp add: arc_put_def Let_def r_def)
  qed
  moreover have "arc_content ?p0 = arc_content p" by (simp add: arc_content_def)
  ultimately show ?thesis using f k that [of ?p1] by auto
qed

lemma arc_put_facts:
  assumes inv: "arc_inv p"
  shows "arc_inv (arc_put k v p) \<and> arc_capacity (arc_put k v p) = arc_capacity p \<and>
    arc_content (arc_put k v p) k = Some v \<and> arc_content (arc_put k v p) \<subseteq>\<^sub>m (arc_content p)(k \<mapsto> v)"
proof -
  have le: "m(k \<mapsto> v) \<subseteq>\<^sub>m m'(k \<mapsto> v)" if "m \<subseteq>\<^sub>m m'" for m m' :: "'a \<Rightarrow> 'b option"
    using that by (auto simp: map_le_def)
  consider (res) "k \<in> fst ` set (arc_t1 p @ arc_t2 p)"
    | (ghost) "k \<in> set (arc_b1 p) \<or> k \<in> set (arc_b2 p)" | (miss) "k \<notin> set (arc_keys p)"
    by (auto simp: arc_keys_def)
  then show ?thesis
  proof cases
    case res
    with arc_touch_inv [OF inv res refl, of v] arc_put_resident [OF inv res, of v] show ?thesis
      by simp
  next
    case ghost
    from arc_put_ghost [OF inv ghost] obtain p1 where p1: "arc_mid p1"
      "int (arc_len p1) < arc_capacity p" "arc_capacity p1 = arc_capacity p"
      "arc_content p1 \<subseteq>\<^sub>m arc_content p" "k \<in> set (arc_b1 p1) \<or> k \<in> set (arc_b2 p1)"
      "arc_put k v p = trim_ghosts (p1\<lparr>arc_b1 := remove1 k (arc_b1 p1),
         arc_b2 := remove1 k (arc_b2 p1), arc_t2 := AList.update k v (arc_t2 p1)\<rparr>)" by metis
    from arc_admit_t2 [OF p1(1) _ p1(5) refl, of v] p1 le [OF p1(4)] show ?thesis
      by (simp add: trim_ghosts_inv)
  next
    case miss
    note r = arc_make_room_facts [OF inv, of k]
    have "k \<notin> set (arc_keys (arc_make_room k p))" using r miss by auto
    with r have a: "arc_mid ((arc_make_room k p)\<lparr>arc_t1 := AList.update k v (arc_t1 (arc_make_room k p))\<rparr>)"
      "arc_content ((arc_make_room k p)\<lparr>arc_t1 := AList.update k v (arc_t1 (arc_make_room k p))\<rparr>)
         = (arc_content (arc_make_room k p))(k \<mapsto> v)"
      using arc_admit_t1 [of "arc_make_room k p" k v] by simp_all
    with r le show ?thesis by (simp add: arc_put_miss [OF miss] trim_ghosts_inv)
  qed
qed

interpretation arc: cache_policy arc_ops arc_content arc_inv
proof unfold_locales
  fix p :: "('a, 'b) arc" and k r p' v
  assume inv: "arc_inv p"
  show "r = arc_content p k \<and> arc_inv p' \<and> arc_content p' = arc_content p \<and>
      po_capacity arc_ops p' = po_capacity arc_ops p" if g: "po_get arc_ops k p = (r, p')"
  proof (cases "k \<in> fst ` set (arc_t1 p @ arc_t2 p)")
    case True
    let ?q = "\<lambda>v. p\<lparr>arc_t1 := AList.delete k (arc_t1 p),
                 arc_t2 := AList.update k v (AList.delete k (arc_t2 p))\<rparr>"
    have d: "distinct (arc_keys p)" using inv by (simp add: arc_inv_def)
    obtain w where w: "arc_content p k = Some w"
      using True by (metis arc_content_def map_of_eq_None_iff not_None_eq)
    have "r = Some w \<and> p' = ?q w"
    proof (cases "map_of (arc_t1 p) k")
      case None
      then have "k \<notin> fst ` set (arc_t1 p)" by (simp add: map_of_eq_None_iff)
      with None w g show ?thesis
        by (auto simp: arc_ops_def arc_get_def arc_content_alt map_add_def delete_absent)
    next
      case (Some x)
      then have "k \<notin> fst ` set (arc_t2 p)" using arc_mid_notin(3) [OF d] by (force dest: map_of_SomeD)
      with Some w g show ?thesis
        by (auto simp: arc_ops_def arc_get_def arc_content_alt map_add_def delete_absent)
    qed
    with arc_touch_inv [OF inv True refl, of w] w show ?thesis
      by (simp add: arc_ops_def fun_upd_idem)
  next
    case False
    then have "map_of (arc_t1 p) k = None" "map_of (arc_t2 p) k = None"
      by (auto simp: map_of_eq_None_iff)
    with g inv show ?thesis by (auto simp: arc_ops_def arc_get_def arc_content_alt map_add_def)
  qed
  from arc_put_facts [OF inv, of k v]
  show "arc_inv (po_put arc_ops k v p) \<and> po_capacity arc_ops (po_put arc_ops k v p) = po_capacity arc_ops p"
    and "arc_content (po_put arc_ops k v p) k = Some v \<and>
      arc_content (po_put arc_ops k v p) \<subseteq>\<^sub>m (arc_content p)(k \<mapsto> v)"
    by (simp_all add: arc_ops_def)
  show "int (po_len arc_ops p) \<le> po_capacity arc_ops p" using inv by (simp add: arc_ops_def arc_inv_def)
  show "finite (dom (arc_content p)) \<and> po_len arc_ops p = card (dom (arc_content p))"
  proof -
    have "od_ok (arc_t1 p @ arc_t2 p)" using inv by (auto simp: arc_inv_def arc_keys_def)
    from od_mem_length [OF this] show ?thesis
      by (simp add: arc_ops_def arc_len_def arc_content_def finite_dom_map_of del: map_of_append)
  qed
next
  fix p p' :: "('a, 'b) arc" and e
  assume "arc_inv p" and e: "po_evict arc_ops p = (e, p')"
  then have mid: "arc_mid p" by (intro arc_inv_mid)
  show "case e of None \<Rightarrow> arc_content p = Map.empty \<and> p' = p
      | Some (k, v) \<Rightarrow> arc_content p k = Some v \<and> arc_content p' = (arc_content p)(k := None) \<and>
          arc_inv p' \<and> po_capacity arc_ops p' = po_capacity arc_ops p \<and>
          Suc (po_len arc_ops p') = po_len arc_ops p"
    using e evict_t1_facts [OF mid] evict_t2_facts [OF mid]
    by (cases "arc_t1 p"; cases "arc_t2 p")
      (auto simp: arc_ops_def arc_evict_def trim_ghosts_inv arc_content_def arc_len_def
        evict_t1_def evict_t2_def)
qed

section \<open>The order of eviction of LRU\<close>

text \<open>The last \<open>n\<close> elements of a list.\<close>

definition take_last :: "nat \<Rightarrow> 'a list \<Rightarrow> 'a list" where
  "take_last n xs = drop (length xs - n) xs"

lemma remdups_snoc: "remdups (xs @ [k]) = filter (\<lambda>x. x \<noteq> k) (remdups xs) @ [k]"
  by (induction xs) auto

lemma take_last_append: "length ys \<le> n \<Longrightarrow> take_last n (xs @ ys) = take_last (n - length ys) xs @ ys"
  by (simp add: take_last_def)

lemma take_last_split:
  obtains us where "xs = us @ take_last n xs"
    and "length (take_last n xs) \<le> n" and "length (take_last n xs) < n \<Longrightarrow> us = []"
  by (rule that [of "take (length xs - n) xs"]) (auto simp: take_last_def)

lemma distinct_filter_neq_length:
  "distinct xs \<Longrightarrow> k \<in> set xs \<Longrightarrow> Suc (length (filter (\<lambda>x. x \<noteq> k) xs)) = length xs"
proof (induction xs)
  case (Cons x xs)
  then show ?case by (cases "x = k") (auto intro!: arg_cong [of _ _ length] filter_True)
qed simp

lemma take_last_refresh:
  assumes "distinct xs" and "0 < n"
  shows "take_last n (filter (\<lambda>x. x \<noteq> k) xs @ [k]) =
    (if k \<in> set (take_last n xs) then filter (\<lambda>x. x \<noteq> k) (take_last n xs) @ [k]
     else (if length (take_last n xs) \<ge> n then tl (take_last n xs) else take_last n xs) @ [k])"
proof -
  define B where "B = take_last n xs"
  obtain A where xs: "xs = A @ B" and len: "length B \<le> n" and A: "length B < n \<Longrightarrow> A = []"
    unfolding B_def using take_last_split [of xs n] by metis
  have d: "distinct B" using assms(1) xs by simp
  show ?thesis
  proof (cases "k \<in> set B")
    case True
    then have "Suc (length (filter (\<lambda>x. x \<noteq> k) B)) = length B"
      using d distinct_filter_neq_length [of B k] by simp
    moreover from this True len A have "A = [] \<or> n = Suc (length (filter (\<lambda>x. x \<noteq> k) B))" by linarith
    moreover have "filter (\<lambda>x. x \<noteq> k) A = A"
      using True assms(1) xs by (auto intro!: filter_True)
    ultimately show ?thesis
      using True len unfolding B_def [symmetric] by (auto simp: xs take_last_def)
  next
    case False
    then have B: "filter (\<lambda>x. x \<noteq> k) B = B" by (auto intro!: filter_True)
    show ?thesis
    proof (cases "length B < n")
      case True
      with A False B show ?thesis unfolding B_def [symmetric] by (simp add: xs take_last_def)
    next
      case 2: False
      with len assms(2) have "length B = n" "B \<noteq> []" by auto
      with False B 2 show ?thesis
        unfolding B_def [symmetric] by (cases B) (auto simp: xs take_last_def)
    qed
  qed
qed

lemma keys_lru_put:
  assumes "lru_inv p"
  shows "keys (lru_data (lru_put k v p)) =
    (if k \<in> set (keys (lru_data p)) then filter (\<lambda>x. x \<noteq> k) (keys (lru_data p)) @ [k]
     else (if int (length (lru_data p)) \<ge> lru_capacity p then tl (keys (lru_data p))
           else keys (lru_data p)) @ [k])"
proof (cases "od_mem k (lru_data p)")
  case True
  then have "keys (AList.update k v (lru_data p)) = keys (lru_data p)"
    by (simp add: update_keys od_mem_iff)
  moreover have "map_of (AList.update k v (lru_data p)) k = Some v" by simp
  note move_to_end_keys [OF this]
  ultimately show ?thesis using True by (simp add: lru_put_def od_mem_iff)
next
  case False
  then have "k \<notin> fst ` set (tl (lru_data p))" by (cases "lru_data p") (auto simp: od_mem_iff)
  with False show ?thesis
    by (auto simp: lru_put_def od_mem_iff Let_def update_absent map_tl)
qed

lemma lru_puts_keys:
  assumes "lru_init c = Inr p"
  shows "keys (lru_data (policy_run lru_ops (map (\<lambda>(k, v). Put k v) kvs) p)) =
    take_last (nat c) (remdups (map fst kvs))"
proof (induction kvs rule: rev_induct)
  case Nil
  then show ?case using assms by (auto simp: lru_init_def policy_run_def take_last_def split: if_splits)
next
  case (snoc kv kvs)
  obtain k v where kv: "kv = (k, v)" by fastforce
  let ?q = "policy_run lru_ops (map (\<lambda>(k, v). Put k v) kvs) p"
  have "lru_inv p" "lru_capacity p = c" "0 < c"
    using assms by (auto simp: lru_init_def lru_inv_def lru_len_def split: if_splits)
  with lru.run_inv [of p "map (\<lambda>(k, v). Put k v) kvs"]
  have q: "lru_inv ?q" "lru_capacity ?q = c" "0 < c" by (auto simp: lru_ops_def)
  have "policy_run lru_ops (map (\<lambda>(k, v). Put k v) (kvs @ [kv])) p = lru_put k v ?q"
    by (simp add: policy_run_def kv lru_ops_def)
  moreover have "length (lru_data ?q) = length (take_last (nat c) (remdups (map fst kvs)))"
    using snoc.IH by (metis length_map)
  ultimately show ?case
    using keys_lru_put [OF q(1), of k v] q(2,3) snoc.IH
      take_last_refresh [of "remdups (map fst kvs)" "nat c" k]
    by (auto simp: kv remdups_snoc nat_le_iff)
qed

section \<open>Properties\<close>

text \<open>
  A fresh LRU cache, driven by any sequence of gets, puts and evictions,
  never holds more entries than its capacity, and a get answers only with the
  value most recently put under that key.
\<close>

theorem lru_coherent_bounded:
  assumes "lru_init c = Inr p"
  shows "int (lru_len (policy_run lru_ops xs p)) \<le> c \<and>
    (\<forall>k v. fst (lru_get k (policy_run lru_ops xs p)) = Some v \<longrightarrow> last_put xs k = Some v)"
proof -
  have p: "lru_inv p" "lru_content p = Map.empty" "lru_capacity p = c"
    using assms by (auto simp: lru_init_def lru_inv_def lru_len_def lru_content_def split: if_splits)
  from lru.run_bounded [OF p(1), of xs] p(3) have "int (lru_len (policy_run lru_ops xs p)) \<le> c"
    by (simp add: lru_ops_def)
  moreover have "last_put xs k = Some v"
    if "fst (lru_get k (policy_run lru_ops xs p)) = Some v" for k v
    using lru.coherent [OF p(1,2), of k xs v] that by (simp add: lru_ops_def)
  ultimately show ?thesis by blast
qed

theorem lru_coherent_bounded_witness:
  "fst (lru_get (1 :: nat) (policy_run lru_ops [Put 1 ''a'', Put 2 ''b'', Put 1 ''c'', Put 3 ''d'']
       \<lparr>lru_capacity = 2, lru_data = []\<rparr>)) = Some ''c'' \<and>
   last_put [Put (1 :: nat) ''a'', Put 2 ''b'', Put 1 ''c'', Put 3 ''d''] 1 = Some ''c''"
proof -
  have i: "lru_init 2 = Inr \<lparr>lru_capacity = 2, lru_data = [] :: (nat \<times> string) list\<rparr>" by (simp add: lru_init_def)
  have g: "fst (lru_get (1 :: nat) (policy_run lru_ops [Put 1 ''a'', Put 2 ''b'', Put 1 ''c'', Put 3 ''d'']
       \<lparr>lru_capacity = 2, lru_data = []\<rparr>)) = Some ''c''"
    by (simp add: policy_run_def lru_ops_def lru_put_def lru_get_def od_mem_def move_to_end_def)
  with lru_coherent_bounded [OF i] show ?thesis by blast
qed

text \<open>
  The LRU policy evicts in recency order: after any sequence of puts into
  a fresh cache of capacity \<open>c\<close>, the resident keys are exactly the \<open>c\<close> most
  recently put distinct keys, the least recent one (the next to be evicted) first.
\<close>

theorem lru_keeps_most_recent:
  assumes "lru_init c = Inr p"
  shows "keys (lru_data (policy_run lru_ops (map (\<lambda>(k, v). Put k v) kvs) p)) =
    take_last (nat c) (remdups (map fst kvs))"
  by (rule lru_puts_keys [OF assms])

theorem lru_keeps_most_recent_witness:
  "keys (lru_data (policy_run lru_ops
      (map (\<lambda>(k, v). Put k v) [(1 :: nat, True), (2, False), (1, False), (3, True)])
      \<lparr>lru_capacity = 2, lru_data = []\<rparr>)) = [1, 3]"
proof -
  have "lru_init 2 = Inr \<lparr>lru_capacity = 2, lru_data = [] :: (nat \<times> bool) list\<rparr>" by (simp add: lru_init_def)
  from lru_keeps_most_recent [OF this, of "[(1, True), (2, False), (1, False), (3, True)]"]
  show ?thesis by (simp add: take_last_def)
qed

text \<open>
  C32: A fresh ARC cache, driven by any sequence of gets, puts and evictions,
  keeps its lists pairwise disjoint and duplicate free, never holds more
  resident entries or more ghosts than its capacity, keeps the adaptation
  target between 0 and the capacity, and a get answers only with the value
  most recently put under that key.
\<close>

theorem arc_coherent_bounded:
  assumes "arc_init c = Inr p" and "q = policy_run arc_ops xs p"
  shows "distinct (keys (arc_t1 q) @ keys (arc_t2 q) @ arc_b1 q @ arc_b2 q) \<and>
    int (arc_len q) \<le> c \<and> int (length (arc_b1 q) + length (arc_b2 q)) \<le> c \<and>
    0 \<le> arc_p q \<and> arc_p q \<le> c \<and>
    (\<forall>k v. fst (arc_get k q) = Some v \<longrightarrow> last_put xs k = Some v)"
proof -
  have p: "arc_inv p" "arc_content p = Map.empty" "arc_capacity p = c"
    using assms(1) by (auto simp: arc_init_def arc_inv_def arc_len_def arc_content_def arc_keys_def
        split: if_splits)
  have "arc_inv q" "arc_capacity q = c"
    using arc.run_inv [OF p(1), of xs] p(3) by (simp_all add: assms(2) arc_ops_def)
  moreover have "last_put xs k = Some v" if "fst (arc_get k q) = Some v" for k v
    using arc.coherent [OF p(1,2), of k xs v] that by (simp add: assms(2) arc_ops_def)
  ultimately show ?thesis by (simp add: arc_inv_def arc_keys_def)
qed

theorem arc_coherent_bounded_witness:
  "fst (arc_get (1 :: nat) (policy_run arc_ops [Put 1 ''a'', Get 1, Put 2 ''b'', Put 3 ''c'']
      \<lparr>arc_capacity = 2, arc_p = 0, arc_t1 = [], arc_t2 = [], arc_b1 = [], arc_b2 = []\<rparr>)) = Some ''a'' \<and>
   last_put [Put (1 :: nat) ''a'', Get 1, Put 2 ''b'', Put 3 ''c''] 1 = Some ''a''"
proof -
  let ?p = "\<lparr>arc_capacity = 2, arc_p = 0, arc_t1 = [] :: (nat \<times> string) list, arc_t2 = [], arc_b1 = [], arc_b2 = []\<rparr>"
  have i: "arc_init 2 = Inr ?p" by (simp add: arc_init_def)
  have g: "fst (arc_get (1 :: nat) (policy_run arc_ops [Put 1 ''a'', Get 1, Put 2 ''b'', Put 3 ''c''] ?p))
      = Some ''a''"
    by (simp add: policy_run_def arc_ops_def arc_put_def arc_get_def arc_replace_def od_mem_def Let_def
        arc_len_def evict_t1_def evict_t2_def ghost_add_def trim_ghosts_def trim_both.simps trim_list.simps)
  with arc_coherent_bounded [OF i refl] show ?thesis by blast
qed

text \<open>
  The ARC policy does not meet the exact contract: on a hit in a ghost
  list \<^verbatim>\<open>_replace\<close> evicts a resident entry even when the cache is not full. With
  capacity 2, after two puts and one eviction a single entry is resident, and
  putting the evicted key back drops that entry although a slot was free.
\<close>

theorem arc_put_drops_below_capacity:
  "\<exists>p q. arc_init 2 = Inr p \<and> q = policy_run arc_ops [Put (1 :: nat) ''a'', Put 2 ''b'', Evict] p \<and>
     int (arc_len q) < arc_capacity q \<and> fst (arc_get 2 q) = Some ''b'' \<and>
     fst (arc_get 2 (arc_put 1 ''a'' q)) = None"
proof -
  let ?p = "\<lparr>arc_capacity = 2, arc_p = 0, arc_t1 = [] :: (nat \<times> string) list, arc_t2 = [], arc_b1 = [], arc_b2 = []\<rparr>"
  have "arc_init 2 = Inr ?p" by (simp add: arc_init_def)
  moreover have "policy_run arc_ops [Put (1 :: nat) ''a'', Put 2 ''b'', Evict] ?p =
      ?p\<lparr>arc_t1 := [(2, ''b'')], arc_b1 := [1]\<rparr>"
    by (simp add: policy_run_def arc_ops_def arc_put_def arc_evict_def od_mem_def Let_def arc_len_def
        evict_t1_def ghost_add_def trim_ghosts_def trim_both.simps trim_list.simps)
  moreover have "fst (arc_get 2 (arc_put (1 :: nat) ''a'' (?p\<lparr>arc_t1 := [(2, ''b'')], arc_b1 := [1]\<rparr>))) = None"
    by (simp add: arc_put_def arc_get_def arc_replace_def od_mem_def Let_def
        arc_len_def evict_t1_def ghost_add_def trim_ghosts_def trim_both.simps trim_list.simps)
  moreover have "fst (arc_get 2 (?p\<lparr>arc_t1 := [(2, ''b'')], arc_b1 := [1]\<rparr>)) = Some ''b''"
    by (simp add: arc_get_def)
  ultimately show ?thesis
    by (intro exI [of _ ?p] exI [of _ "?p\<lparr>arc_t1 := [(2, ''b'')], arc_b1 := [1]\<rparr>"]) (simp add: arc_len_def)
qed

end
