(* ===== verification/Cpu_Block_Cache.thy ===== *)
theory Cpu_Block_Cache
  imports Block_Pool Cache_Policy
begin

text \<open>
  \<^verbatim>\<open>src/moe_infinity/memory/cpu_block_cache.py\<close>: a cache of CPU blocks indexed by
  block hash. It allocates its blocks from a shared \<^verbatim>\<open>BlockPool\<close> and leaves the
  choice of victims to a cache policy. The policy is one of the two the
  repository has; the lock, which makes every method atomic, is not modelled.
\<close>

section \<open>A policy chosen at run time\<close>

datatype block_policy = LRU_policy "(int, nat) lru" | ARC_policy "(int, nat) arc"

fun bpol_get :: "int \<Rightarrow> block_policy \<Rightarrow> nat option \<times> block_policy" where
  "bpol_get k (LRU_policy p) = apsnd LRU_policy (lru_get k p)"
| "bpol_get k (ARC_policy p) = apsnd ARC_policy (arc_get k p)"

fun bpol_put :: "int \<Rightarrow> nat \<Rightarrow> block_policy \<Rightarrow> block_policy" where
  "bpol_put k v (LRU_policy p) = LRU_policy (lru_put k v p)"
| "bpol_put k v (ARC_policy p) = ARC_policy (arc_put k v p)"

fun bpol_evict :: "block_policy \<Rightarrow> (int \<times> nat) option \<times> block_policy" where
  "bpol_evict (LRU_policy p) = apsnd LRU_policy (lru_evict p)"
| "bpol_evict (ARC_policy p) = apsnd ARC_policy (arc_evict p)"

fun bpol_capacity :: "block_policy \<Rightarrow> int" where
  "bpol_capacity (LRU_policy p) = lru_capacity p"
| "bpol_capacity (ARC_policy p) = arc_capacity p"

fun bpol_len :: "block_policy \<Rightarrow> nat" where
  "bpol_len (LRU_policy p) = lru_len p"
| "bpol_len (ARC_policy p) = arc_len p"

lemma bpol_evict_shrinks: "bpol_evict p = (Some e, p') \<Longrightarrow> bpol_len p' < bpol_len p"
  by (cases p)
    (auto simp: lru_evict_def lru_len_def arc_evict_def arc_len_def evict_t1_def evict_t2_def
      trim_ghosts_def Let_def split: list.splits if_splits prod.splits)

section \<open>State and operations\<close>

record cpu_cache =
  cc_pool :: block_pool
  cc_policy :: block_policy
  cc_hash :: "(int, nat) odict"
  cc_id :: "(nat, int) odict"

text \<open>
  \<^verbatim>\<open>capacity or cpu_pool.total_blocks()\<close> and \<^verbatim>\<open>policy or LRUPolicy(cap)\<close>: the operator
  tests the truth value, and an object whose \<^verbatim>\<open>__len__\<close> is 0 is false.
\<close>

definition cpu_cache_init ::
  "block_pool \<Rightarrow> block_policy option \<Rightarrow> int option \<Rightarrow> cpu_cache result" where
  "cpu_cache_init cpu_pool policy capacity =
     (let cap = (case capacity of
                   Some c \<Rightarrow> if c \<noteq> 0 then c else int (total_blocks cpu_pool)
                 | None \<Rightarrow> int (total_blocks cpu_pool));
          pol = (case policy of
                   Some p \<Rightarrow> if bpol_len p \<noteq> 0 then Inr p else map_sum id LRU_policy (lru_init cap)
                 | None \<Rightarrow> map_sum id LRU_policy (lru_init cap))
      in case pol of
           Inl e \<Rightarrow> Inl e
         | Inr p \<Rightarrow> Inr \<lparr>cc_pool = cpu_pool, cc_policy = p, cc_hash = [], cc_id = []\<rparr>)"

text \<open>
  \<^verbatim>\<open>if block.ref_cnt > 0: pool.free_block(block)\<close>; under this guard
  \<^verbatim>\<open>free_block\<close> does not raise.
\<close>

definition cc_release :: "nat \<Rightarrow> cpu_cache \<Rightarrow> cpu_cache" where
  "cc_release b c =
     (if 0 < ref_cnt (bp_heap (cc_pool c) b)
      then c\<lparr>cc_pool := snd (free_block b (cc_pool c))\<rparr> else c)"

definition cc_drop :: "int \<Rightarrow> nat \<Rightarrow> cpu_cache \<Rightarrow> cpu_cache" where
  "cc_drop h i c =
     (let c1 = c\<lparr>cc_hash := AList.delete h (cc_hash c), cc_id := AList.delete i (cc_id c)\<rparr>
      in case map_of (cc_hash c) h of None \<Rightarrow> c1 | Some b \<Rightarrow> cc_release b c1)"

lemma cc_drop_policy [simp]: "cc_policy (cc_drop h i c) = cc_policy c"
  by (simp add: cc_drop_def cc_release_def Let_def split: option.splits)

function evict_if_needed :: "cpu_cache \<Rightarrow> cpu_cache" where
  "evict_if_needed c =
     (if int (bpol_len (cc_policy c)) \<ge> bpol_capacity (cc_policy c)
      then (case bpol_evict (cc_policy c) of
              (None, p) \<Rightarrow> c\<lparr>cc_policy := p\<rparr>
            | (Some hi, p) \<Rightarrow> evict_if_needed (cc_drop (fst hi) (snd hi) (c\<lparr>cc_policy := p\<rparr>)))
      else c)"
  by pat_completeness auto
termination
  by (relation "measure (\<lambda>c. bpol_len (cc_policy c))") (auto intro: bpol_evict_shrinks [OF sym])

declare evict_if_needed.simps [simp del]

definition cc_store :: "int \<Rightarrow> nat \<Rightarrow> cpu_cache \<Rightarrow> nat option \<times> cpu_cache" where
  "cc_store bhash gpu_block_id c =
     (case map_of (cc_hash c) bhash of
        Some b \<Rightarrow> (Some b, c\<lparr>cc_policy := snd (bpol_get bhash (cc_policy c))\<rparr>)
      | None \<Rightarrow>
          (let c1 = evict_if_needed c; (r, p) = allocate_block (cc_pool c1);
               c2 = c1\<lparr>cc_pool := p\<rparr>
           in case r of
                None \<Rightarrow> (None, c2)
              | Some b \<Rightarrow>
                  (Some b, c2\<lparr>cc_hash := AList.update bhash b (cc_hash c2),
                             cc_id := AList.update b bhash (cc_id c2),
                             cc_policy := bpol_put bhash b (cc_policy c2)\<rparr>)))"

definition cc_load :: "int \<Rightarrow> cpu_cache \<Rightarrow> nat option \<times> cpu_cache" where
  "cc_load bhash c =
     (let (r, p) = bpol_get bhash (cc_policy c); c1 = c\<lparr>cc_policy := p\<rparr>
      in case r of
           None \<Rightarrow> (None, c1)
         | Some i \<Rightarrow>
             (if map_of (cc_hash c1) bhash = Some i then (Some i, c1) else (None, c1)))"

function drain :: "int \<Rightarrow> block_policy \<Rightarrow> (int \<times> nat) list \<times> block_policy" where
  "drain target_hash p =
     (case bpol_evict p of
        (None, p1) \<Rightarrow> ([], p1)
      | (Some hi, p1) \<Rightarrow>
          (let (retained, p2) = drain target_hash p1
           in (if fst hi \<noteq> target_hash then hi # retained else retained, p2)))"
  by pat_completeness auto
termination
  by (relation "measure (\<lambda>(t, p). bpol_len p)") (auto intro: bpol_evict_shrinks [OF sym])

declare drain.simps [simp del]

definition remove_from_policy :: "int \<Rightarrow> block_policy \<Rightarrow> block_policy" where
  "remove_from_policy target_hash p =
     (let (retained, p1) = drain target_hash p
      in fold (\<lambda>(k, v). bpol_put k v) retained p1)"

definition cc_invalidate :: "int \<Rightarrow> cpu_cache \<Rightarrow> cpu_cache" where
  "cc_invalidate bhash c =
     (case map_of (cc_hash c) bhash of
        None \<Rightarrow> c
      | Some b \<Rightarrow>
          cc_release b
            (c\<lparr>cc_hash := AList.delete bhash (cc_hash c), cc_id := AList.delete b (cc_id c),
              cc_policy := remove_from_policy bhash (cc_policy c)\<rparr>))"

definition cc_len :: "cpu_cache \<Rightarrow> nat" where
  "cc_len c = length (cc_hash c)"

section \<open>The policy in use meets the exact contract\<close>

definition bpol_ops :: "(block_policy, int, nat) policy_ops" where
  "bpol_ops = \<lparr>po_get = bpol_get, po_put = bpol_put, po_evict = bpol_evict,
              po_capacity = bpol_capacity, po_len = bpol_len\<rparr>"

fun bpol_content :: "block_policy \<Rightarrow> int \<Rightarrow> nat option" where
  "bpol_content (LRU_policy p) = lru_content p"
| "bpol_content (ARC_policy p) = arc_content p"

text \<open>
  The invariant is that of the least recently used policy, which the cache installs
  by default; the adaptive policy, which can drop an entry without naming it,
  does not satisfy the interface below, so caches with it are not covered.
\<close>

fun bpol_inv :: "block_policy \<Rightarrow> bool" where
  "bpol_inv (LRU_policy p) = lru_inv p"
| "bpol_inv (ARC_policy p) = False"

lemma bpol_inv_cases: "bpol_inv p \<Longrightarrow> \<exists>q. p = LRU_policy q \<and> lru_inv q"
  by (cases p) auto

interpretation bpol: exact_policy bpol_ops bpol_content bpol_inv
proof unfold_locales
  fix p p' k v r e
  assume "bpol_inv p"
  then obtain q where q: "p = LRU_policy q" "lru_inv q" using bpol_inv_cases by blast
  show "r = bpol_content p k \<and> bpol_inv p' \<and> bpol_content p' = bpol_content p \<and>
      po_capacity bpol_ops p' = po_capacity bpol_ops p" if "po_get bpol_ops k p = (r, p')"
    using that lru.get_law [OF q(2), of k] q(1)
    by (cases "lru_get k q") (auto simp: bpol_ops_def lru_ops_def)
  show "bpol_inv (po_put bpol_ops k v p) \<and>
      po_capacity bpol_ops (po_put bpol_ops k v p) = po_capacity bpol_ops p"
    using lru.put_inv [OF q(2), of k v] q(1) by (simp add: bpol_ops_def lru_ops_def)
  show "bpol_content (po_put bpol_ops k v p) k = Some v \<and>
      bpol_content (po_put bpol_ops k v p) \<subseteq>\<^sub>m (bpol_content p)(k \<mapsto> v)"
    using lru.put_content [OF q(2), of k v] q(1) by (simp add: bpol_ops_def lru_ops_def)
  show "case e of None \<Rightarrow> bpol_content p = Map.empty \<and> p' = p
      | Some (k, v) \<Rightarrow> bpol_content p k = Some v \<and> bpol_content p' = (bpol_content p)(k := None) \<and>
          bpol_inv p' \<and> po_capacity bpol_ops p' = po_capacity bpol_ops p \<and>
          Suc (po_len bpol_ops p') = po_len bpol_ops p" if "po_evict bpol_ops p = (e, p')"
    using that lru.evict_law [OF q(2)] q(1)
    by (cases "lru_evict q") (auto simp: bpol_ops_def lru_ops_def split: option.splits)
  show "int (po_len bpol_ops p) \<le> po_capacity bpol_ops p"
    using lru.bounded [OF q(2)] q(1) by (simp add: bpol_ops_def lru_ops_def)
  show "finite (dom (bpol_content p)) \<and> po_len bpol_ops p = card (dom (bpol_content p))"
    using lru.len_content [OF q(2)] q(1) by (simp add: bpol_ops_def lru_ops_def)
  show "bpol_content (po_put bpol_ops k v p) = (bpol_content p)(k \<mapsto> v)"
    if "int (po_len bpol_ops p) < po_capacity bpol_ops p"
    using lru.put_exact [OF q(2), of k v] that q(1) by (simp add: bpol_ops_def lru_ops_def)
qed

lemmas bpol_laws = bpol.get_law [unfolded bpol_ops_def, simplified]
  bpol.put_inv [unfolded bpol_ops_def, simplified] bpol.put_exact [unfolded bpol_ops_def, simplified]
  bpol.evict_law [unfolded bpol_ops_def, simplified] bpol.bounded [unfolded bpol_ops_def, simplified]
  bpol.len_content [unfolded bpol_ops_def, simplified]

section \<open>References held in a pool\<close>

text \<open>Every block is referenced as often as the multiset says.\<close>

definition pool_owned :: "block_pool \<Rightarrow> nat multiset \<Rightarrow> bool" where
  "pool_owned p E \<longleftrightarrow>
     pool_inv p \<and> (\<forall>b \<in># E. b < total_blocks p) \<and>
     (\<forall>b < total_blocks p. ref_cnt (bp_heap p b) = int (count E b))"

lemma pool_owned_allocate:
  assumes own: "pool_owned p E" and a: "allocate_block p = (r, p')"
  shows "case r of
      None \<Rightarrow> p' = p \<and> num_free_blocks p = 0
    | Some b \<Rightarrow> pool_owned p' (add_mset b E) \<and> total_blocks p' = total_blocks p \<and> b \<notin># E"
proof -
  have ok: "pool_ok p (free_list p)" using own by (simp add: pool_owned_def pool_inv_def)
  show ?thesis
  proof (cases "free_list p")
    case Nil
    with ok a have "r = None" "p' = p" by (simp_all add: allocate_block_empty)
    moreover have "num_free_blocks p = 0"
      using ok Nil by (auto simp: pool_ok_def num_free_blocks_def dest: fq.rep_len)
    ultimately show ?thesis by simp
  next
    case (Cons b xs)
    with ok have ok': "pool_ok p (b # xs)" by simp
    note f = allocate_block_facts [OF ok', unfolded a fst_conv snd_conv]
    have b: "b < total_blocks p" "ref_cnt (bp_heap p b) = 0" using ok' by (auto simp: pool_ok_def)
    with own have "count E b = 0" by (auto simp: pool_owned_def)
    with own b f pool_okI [OF f(2)] show ?thesis by (auto simp: pool_owned_def not_in_iff)
  qed
qed

lemma pool_owned_free:
  assumes own: "pool_owned p (add_mset b E)"
  shows "0 < ref_cnt (bp_heap p b) \<and> pool_owned (snd (free_block b p)) E \<and>
    total_blocks (snd (free_block b p)) = total_blocks p"
proof -
  have ok: "pool_ok p (free_list p)" and b: "b < total_blocks p" and r: "0 < ref_cnt (bp_heap p b)"
    using own by (auto simp: pool_owned_def pool_inv_def)
  note f = free_block_facts [OF ok b r]
  have "pool_owned (snd (free_block b p)) E"
    using own pool_okI [OF f(2)] by (auto simp: pool_owned_def f)
  with r f(3) show ?thesis by simp
qed

lemma pool_owned_init: "total_blocks (pool_init n) = n" "pool_owned (pool_init n) {#}"
proof -
  show t: "total_blocks (pool_init n) = n" by (simp add: total_blocks_def pool_init_def Let_def)
  show "pool_owned (pool_init n) {#}"
    using pool_init_ok [of n] pool_okI [OF pool_init_ok [of n]]
    by (auto simp: pool_owned_def pool_ok_def t)
qed

section \<open>The invariant of the cache\<close>

text \<open>
  The policy knows exactly the cached entries, the two dictionaries are inverse
  to each other, and the pool is referenced once per entry besides the
  references \<open>E\<close> that the other users of the pool hold.
\<close>

definition cc_ok :: "nat multiset \<Rightarrow> cpu_cache \<Rightarrow> bool" where
  "cc_ok E c \<longleftrightarrow>
     bpol_inv (cc_policy c) \<and> bpol_content (cc_policy c) = map_of (cc_hash c) \<and>
     od_ok (cc_hash c) \<and> od_ok (cc_id c) \<and>
     (\<forall>i h. map_of (cc_id c) i = Some h \<longleftrightarrow> map_of (cc_hash c) h = Some i) \<and>
     pool_owned (cc_pool c) (mset (map snd (cc_hash c)) + E)"

lemma snd_delete:
  "od_ok d \<Longrightarrow> map_of d k = Some v \<Longrightarrow> mset (map snd d) = add_mset v (mset (map snd (AList.delete k d)))"
proof (induction d)
  case (Cons p d)
  show ?case
  proof (cases "fst p = k")
    case True
    with Cons.prems have "k \<notin> fst ` set d" and "snd p = v" by auto
    with True show ?thesis by (simp add: delete_absent)
  next
    case False
    with Cons show ?thesis by simp
  qed
qed simp

lemma cc_ok_len: "cc_ok E c \<Longrightarrow> bpol_len (cc_policy c) = cc_len c \<and>
    int (cc_len c) \<le> bpol_capacity (cc_policy c)"
  using bpol_laws(5,6) [of "cc_policy c"] by (auto simp: cc_ok_def cc_len_def od_mem_length)

lemma cc_drop_ok:
  assumes ok: "cc_ok E c" and h: "map_of (cc_hash c) h = Some b"
    and pol: "bpol_inv p" "bpol_content p = (map_of (cc_hash c))(h := None)"
    and c': "c' = cc_release b (c\<lparr>cc_hash := AList.delete h (cc_hash c), cc_id := AList.delete b (cc_id c),
              cc_policy := p\<rparr>)"
  shows "cc_ok E c' \<and> total_blocks (cc_pool c') = total_blocks (cc_pool c)"
proof -
  have inv: "map_of (cc_id c) i = Some k \<longleftrightarrow> map_of (cc_hash c) k = Some i" for i k
    using ok by (simp add: cc_ok_def)
  have "mset (map snd (cc_hash c)) = add_mset b (mset (map snd (AList.delete h (cc_hash c))))"
    using ok by (intro snd_delete [OF _ h]) (simp add: cc_ok_def)
  with ok have own: "pool_owned (cc_pool c) (add_mset b (mset (map snd (AList.delete h (cc_hash c))) + E))"
    by (simp add: cc_ok_def)
  have "(if i = b then None else map_of (cc_id c) i) = Some k \<longleftrightarrow>
      (if k = h then None else map_of (cc_hash c) k) = Some i" for i k
    using inv [of i k] inv [of i h] inv [of b k] inv [of b h] h by auto
  with ok pol pool_owned_free [OF own] show ?thesis
    by (simp add: cc_ok_def c' cc_release_def)
qed

lemma evict_if_needed_ok:
  "cc_ok E c \<Longrightarrow> 0 < bpol_capacity (cc_policy c) \<Longrightarrow>
   cc_ok E (evict_if_needed c) \<and> bpol_capacity (cc_policy (evict_if_needed c)) = bpol_capacity (cc_policy c) \<and>
   int (cc_len (evict_if_needed c)) < bpol_capacity (cc_policy c) \<and>
   map_of (cc_hash (evict_if_needed c)) \<subseteq>\<^sub>m map_of (cc_hash c) \<and>
   total_blocks (cc_pool (evict_if_needed c)) = total_blocks (cc_pool c)"
proof (induction c rule: evict_if_needed.induct)
  case (1 c)
  note len = cc_ok_len [OF "1.prems"(1)]
  show ?case
  proof (cases "int (bpol_len (cc_policy c)) \<ge> bpol_capacity (cc_policy c)")
    case False
    then have "evict_if_needed c = c" by (simp add: evict_if_needed.simps [of c])
    with False "1.prems" len show ?thesis by simp
  next
    case True
    obtain e p where e: "bpol_evict (cc_policy c) = (e, p)" by fastforce
    have inv: "bpol_inv (cc_policy c)" and con: "bpol_content (cc_policy c) = map_of (cc_hash c)"
      using "1.prems"(1) by (simp_all add: cc_ok_def)
    note law = bpol_laws(4) [OF inv e]
    have "e \<noteq> None"
    proof
      assume "e = None"
      with law con have "map_of (cc_hash c) = Map.empty" by simp
      then have "cc_hash c = []" by simp
      with True len "1.prems"(2) show False by (simp add: cc_len_def)
    qed
    then obtain h i where hi: "e = Some (h, i)" by auto
    with law con have i: "map_of (cc_hash c) h = Some i" and p: "bpol_inv p"
      "bpol_content p = (map_of (cc_hash c))(h := None)" "bpol_capacity p = bpol_capacity (cc_policy c)"
      by simp_all
    define c1 where "c1 = cc_drop h i (c\<lparr>cc_policy := p\<rparr>)"
    have c1: "c1 = cc_release i (c\<lparr>cc_hash := AList.delete h (cc_hash c), cc_id := AList.delete i (cc_id c),
              cc_policy := p\<rparr>)"
      by (cases c) (use i in \<open>simp add: c1_def cc_drop_def\<close>)
    have ok1: "cc_ok E c1" "total_blocks (cc_pool c1) = total_blocks (cc_pool c)"
      using cc_drop_ok [OF "1.prems"(1) i p(1,2) c1] by simp_all
    have eq: "evict_if_needed c = evict_if_needed c1"
      using True e hi by (simp add: evict_if_needed.simps [of c] c1_def)
    have "cc_hash c1 = AList.delete h (cc_hash c)" "cc_policy c1 = p"
      by (simp_all add: c1 cc_release_def)
    with "1.IH" [OF True e [symmetric] hi] ok1 "1.prems"(2) p(3) eq show ?thesis
      by (auto simp: c1_def intro: map_le_trans [OF _ upd_None_map_le])
  qed
qed

lemma cc_store_ok:
  assumes ok: "cc_ok E c" and cap: "0 < bpol_capacity (cc_policy c)" and s: "cc_store h g c = (r, c')"
  shows "cc_ok E c' \<and> bpol_capacity (cc_policy c') = bpol_capacity (cc_policy c) \<and>
    total_blocks (cc_pool c') = total_blocks (cc_pool c) \<and> map_of (cc_hash c') h = r"
proof (cases "map_of (cc_hash c) h")
  case (Some b)
  obtain x p where g: "bpol_get h (cc_policy c) = (x, p)" by fastforce
  have "bpol_inv (cc_policy c)" using ok by (simp add: cc_ok_def)
  from bpol_laws(1) [OF this g] Some s g ok show ?thesis by (auto simp: cc_store_def cc_ok_def)
next
  case None
  define c1 where "c1 = evict_if_needed c"
  note e = evict_if_needed_ok [OF ok cap, folded c1_def]
  obtain y p where a: "allocate_block (cc_pool c1) = (y, p)" by fastforce
  have own: "pool_owned (cc_pool c1) (mset (map snd (cc_hash c1)) + E)" using e by (simp add: cc_ok_def)
  note al = pool_owned_allocate [OF own a]
  have h1: "map_of (cc_hash c1) h = None" using e None by (auto simp: map_le_def dom_def)
  show ?thesis
  proof (cases y)
    case None
    with s a al e \<open>map_of (cc_hash c) h = None\<close> h1 have "r = None" "c' = c1"
      by (auto simp: cc_store_def c1_def [symmetric])
    with e h1 show ?thesis by simp
  next
    case (Some b)
    let ?c = "c1\<lparr>cc_pool := p, cc_hash := AList.update h b (cc_hash c1), cc_id := AList.update b h (cc_id c1),
        cc_policy := bpol_put h b (cc_policy c1)\<rparr>"
    have rc: "r = Some b" "c' = ?c"
      using s a Some \<open>map_of (cc_hash c) h = None\<close> by (auto simp: cc_store_def c1_def [symmetric])
    have b: "pool_owned p (add_mset b (mset (map snd (cc_hash c1)) + E))" "b \<notin> snd ` set (cc_hash c1)"
      "total_blocks p = total_blocks (cc_pool c1)"
      using al Some by auto
    have hk: "h \<notin> fst ` set (cc_hash c1)" using h1 by (simp add: map_of_eq_None_iff)
    have inv: "map_of (cc_id c1) i = Some k \<longleftrightarrow> map_of (cc_hash c1) k = Some i" for i k
      using e by (simp add: cc_ok_def)
    have nb: "map_of (cc_hash c1) k \<noteq> Some b" for k
      using b(2) by (force dest: map_of_SomeD)
    have pol: "bpol_inv (cc_policy c1)" "int (bpol_len (cc_policy c1)) < bpol_capacity (cc_policy c1)"
      "bpol_content (cc_policy c1) = map_of (cc_hash c1)"
      using e cc_ok_len [of E c1] by (simp_all add: cc_ok_def)
    have "(if i = b then Some h else map_of (cc_id c1) i) = Some k \<longleftrightarrow>
        (if k = h then Some b else map_of (cc_hash c1) k) = Some i" for i k
      using inv [of i k] inv [of b k] inv [of i h] nb [of k] nb [of h] h1 by auto
    moreover have "pool_owned p (mset (map snd (AList.update h b (cc_hash c1))) + E)"
      using b(1) by (simp add: update_absent [OF hk])
    ultimately have "cc_ok E ?c"
      using e pol bpol_laws(2,3) [OF pol(1)] by (simp add: cc_ok_def)
    with e b rc bpol_laws(2) [OF pol(1)] show ?thesis by simp
  qed
qed

lemma cc_load_ok:
  assumes ok: "cc_ok E c" and l: "cc_load h c = (r, c')"
  shows "cc_ok E c' \<and> bpol_capacity (cc_policy c') = bpol_capacity (cc_policy c) \<and>
    cc_pool c' = cc_pool c \<and> cc_hash c' = cc_hash c \<and> r = map_of (cc_hash c) h"
proof -
  obtain x p where g: "bpol_get h (cc_policy c) = (x, p)" by fastforce
  have "bpol_inv (cc_policy c)" using ok by (simp add: cc_ok_def)
  from bpol_laws(1) [OF this g] l g ok show ?thesis
    by (auto simp: cc_load_def cc_ok_def Let_def split: option.splits if_splits)
qed

lemma drain_facts:
  "bpol_inv p \<Longrightarrow> drain t p = (xs, p') \<Longrightarrow>
   bpol_inv p' \<and> bpol_content p' = Map.empty \<and> bpol_capacity p' = bpol_capacity p \<and> bpol_len p' = 0 \<and>
   od_ok xs \<and> map_of xs = (bpol_content p)(t := None) \<and> length xs \<le> bpol_len p"
proof (induction t p arbitrary: xs p' rule: drain.induct)
  case (1 t p)
  obtain e p1 where e: "bpol_evict p = (e, p1)" by fastforce
  note law = bpol_laws(4) [OF "1.prems"(1) e]
  show ?case
  proof (cases e)
    case None
    then have "xs = []" "p' = p" "bpol_content p = Map.empty"
      using "1.prems"(2) e law by (auto simp: drain.simps [of t p])
    with "1.prems"(1) bpol_laws(6) [OF "1.prems"(1)] show ?thesis by simp
  next
    case (Some hi)
    obtain h i where hi: "hi = (h, i)" by fastforce
    obtain ys p2 where d: "drain t p1 = (ys, p2)" by fastforce
    with "1.prems"(2) e Some hi have xs: "xs = (if h \<noteq> t then (h, i) # ys else ys)" "p' = p2"
      by (auto simp: drain.simps [of t p])
    have inv1: "bpol_inv p1" using law Some hi by simp
    note ih = "1.IH" [OF e [symmetric] Some inv1 d]
    have "map_of ys h = None" using ih law Some hi by simp
    then have "h \<notin> fst ` set ys" by (simp add: map_of_eq_None_iff)
    with ih law Some hi xs show ?thesis
      by (auto simp: fun_eq_iff)
  qed
qed

lemma put_all_facts:
  "bpol_inv p \<Longrightarrow> od_ok xs \<Longrightarrow> (\<forall>k \<in> fst ` set xs. bpol_content p k = None) \<Longrightarrow>
   int (bpol_len p + length xs) \<le> bpol_capacity p \<Longrightarrow>
   bpol_inv (fold (\<lambda>(k, v). bpol_put k v) xs p) \<and>
   bpol_content (fold (\<lambda>(k, v). bpol_put k v) xs p) = bpol_content p ++ map_of xs \<and>
   bpol_capacity (fold (\<lambda>(k, v). bpol_put k v) xs p) = bpol_capacity p"
proof (induction xs arbitrary: p)
  case (Cons kv xs)
  obtain k v where kv: "kv = (k, v)" by fastforce
  note p1 = bpol_laws(2) [OF Cons.prems(1), of k v]
  have con: "bpol_content (bpol_put k v p) = (bpol_content p)(k \<mapsto> v)"
    using Cons.prems by (intro bpol_laws(3)) auto
  have fin: "finite (dom (bpol_content p))" "bpol_len p = card (dom (bpol_content p))"
    using bpol_laws(6) [OF Cons.prems(1)] by simp_all
  have "k \<notin> dom (bpol_content p)" using Cons.prems(3) kv by auto
  with fin con have "bpol_len (bpol_put k v p) = Suc (bpol_len p)"
    using bpol_laws(6) [of "bpol_put k v p"] p1 by simp
  with Cons p1 con kv have "bpol_inv (fold (\<lambda>(k, v). bpol_put k v) xs (bpol_put k v p)) \<and>
   bpol_content (fold (\<lambda>(k, v). bpol_put k v) xs (bpol_put k v p)) = bpol_content (bpol_put k v p) ++ map_of xs \<and>
   bpol_capacity (fold (\<lambda>(k, v). bpol_put k v) xs (bpol_put k v p)) = bpol_capacity (bpol_put k v p)"
    by (intro Cons.IH) auto
  moreover have "map_of xs k = None" using Cons.prems(2) kv by (simp add: map_of_eq_None_iff)
  ultimately show ?case
    using p1 con by (auto simp: kv fun_eq_iff map_add_def split: option.splits)
qed simp

lemma remove_from_policy_facts:
  assumes "bpol_inv p"
  shows "bpol_inv (remove_from_policy h p) \<and> bpol_content (remove_from_policy h p) = (bpol_content p)(h := None) \<and>
    bpol_capacity (remove_from_policy h p) = bpol_capacity p"
proof -
  obtain xs p1 where d: "drain h p = (xs, p1)" by fastforce
  note f = drain_facts [OF assms d]
  have "int (bpol_len p1 + length xs) \<le> bpol_capacity p1" using f bpol_laws(5) [OF assms] by simp
  with put_all_facts [of p1 xs] f show ?thesis by (simp add: remove_from_policy_def d)
qed

lemma cc_invalidate_ok:
  assumes ok: "cc_ok E c"
  shows "cc_ok E (cc_invalidate h c) \<and>
    bpol_capacity (cc_policy (cc_invalidate h c)) = bpol_capacity (cc_policy c) \<and>
    total_blocks (cc_pool (cc_invalidate h c)) = total_blocks (cc_pool c) \<and>
    map_of (cc_hash (cc_invalidate h c)) = (map_of (cc_hash c))(h := None)"
proof (cases "map_of (cc_hash c) h")
  case None
  with ok show ?thesis by (auto simp: cc_invalidate_def)
next
  case (Some b)
  have pol: "bpol_inv (cc_policy c)" "bpol_content (cc_policy c) = map_of (cc_hash c)"
    using ok by (simp_all add: cc_ok_def)
  note r = remove_from_policy_facts [OF pol(1), of h]
  have i: "cc_invalidate h c = cc_release b (c\<lparr>cc_hash := AList.delete h (cc_hash c),
      cc_id := AList.delete b (cc_id c), cc_policy := remove_from_policy h (cc_policy c)\<rparr>)"
    using Some by (simp add: cc_invalidate_def)
  from cc_drop_ok [OF ok Some _ _ i] r pol(2) show ?thesis
    by (simp add: i cc_release_def)
qed

section \<open>Runs of the cache\<close>

datatype cc_op = Store int nat | Load int | Evict_needed | Invalidate int

fun cc_step :: "cc_op \<Rightarrow> cpu_cache \<Rightarrow> cpu_cache" where
  "cc_step (Store h g) c = snd (cc_store h g c)"
| "cc_step (Load h) c = snd (cc_load h c)"
| "cc_step Evict_needed c = evict_if_needed c"
| "cc_step (Invalidate h) c = cc_invalidate h c"

lemma cc_step_ok:
  assumes "cc_ok E c" and "0 < bpol_capacity (cc_policy c)"
  shows "cc_ok E (cc_step x c) \<and> bpol_capacity (cc_policy (cc_step x c)) = bpol_capacity (cc_policy c) \<and>
    total_blocks (cc_pool (cc_step x c)) = total_blocks (cc_pool c)"
proof (cases x)
  case (Store h g)
  with cc_store_ok [OF assms, of h g] show ?thesis by (cases "cc_store h g c") simp
next
  case (Load h)
  with cc_load_ok [OF assms(1), of h] show ?thesis by (cases "cc_load h c") simp
next
  case Evict_needed
  with evict_if_needed_ok [OF assms] show ?thesis by simp
next
  case (Invalidate h)
  with cc_invalidate_ok [OF assms(1)] show ?thesis by simp
qed

lemma cc_run_ok:
  "cc_ok E c \<Longrightarrow> 0 < bpol_capacity (cc_policy c) \<Longrightarrow>
   cc_ok E (fold cc_step xs c) \<and> bpol_capacity (cc_policy (fold cc_step xs c)) = bpol_capacity (cc_policy c) \<and>
   total_blocks (cc_pool (fold cc_step xs c)) = total_blocks (cc_pool c)"
  by (induction xs arbitrary: c) (auto simp: cc_step_ok)

lemma cpu_cache_init_ok:
  assumes "pool_owned pool E" and "cpu_cache_init pool None capacity = Inr c"
  shows "cc_ok E c \<and> 0 < bpol_capacity (cc_policy c) \<and> cc_pool c = pool"
  using assms
  by (auto simp: cpu_cache_init_def cc_ok_def lru_init_def lru_inv_def lru_len_def lru_content_def Let_def
      split: if_splits option.splits)

section \<open>Properties\<close>

text \<open>
  C33: However a cache with the default policy is used, it never holds more
  entries than its capacity, the policy tracks exactly its entries, and the
  shared pool is referenced exactly once per cached entry in addition to the
  references its other users hold: storing, evicting and invalidating neither
  leak nor double free a CPU block.
\<close>

theorem cpu_cache_no_leak:
  assumes "pool_owned pool E" and "cpu_cache_init pool None capacity = Inr c0"
    and "c = fold cc_step xs c0"
  shows "int (cc_len c) \<le> bpol_capacity (cc_policy c0) \<and> bpol_len (cc_policy c) = cc_len c \<and>
    (\<forall>b < total_blocks pool.
       ref_cnt (bp_heap (cc_pool c) b) = int (count (mset (map snd (cc_hash c)) + E) b))"
proof -
  from cpu_cache_init_ok [OF assms(1,2)] have c0: "cc_ok E c0" "0 < bpol_capacity (cc_policy c0)"
    "cc_pool c0 = pool" by simp_all
  note run = cc_run_ok [OF c0(1,2), of xs, folded assms(3)]
  then have "\<forall>b < total_blocks pool.
       ref_cnt (bp_heap (cc_pool c) b) = int (count (mset (map snd (cc_hash c)) + E) b)"
    using c0(3) by (simp add: cc_ok_def pool_owned_def)
  with run cc_ok_len [of E c] show ?thesis by simp
qed

theorem cpu_cache_no_leak_witness:
  "pool_owned (pool_init 2) {#} \<and>
   int (cc_len (fold cc_step [Store 7 0, Store 8 0, Store 9 0, Invalidate 8]
     \<lparr>cc_pool = pool_init 2, cc_policy = LRU_policy \<lparr>lru_capacity = 2, lru_data = []\<rparr>,
      cc_hash = [], cc_id = []\<rparr>)) \<le> 2"
proof -
  let ?c = "\<lparr>cc_pool = pool_init 2, cc_policy = LRU_policy \<lparr>lru_capacity = 2, lru_data = []\<rparr>,
      cc_hash = [], cc_id = []\<rparr>"
  note o = pool_owned_init(2) [of 2] and t = pool_owned_init(1) [of 2]
  have "cpu_cache_init (pool_init 2) None None = Inr ?c"
    by (simp add: cpu_cache_init_def lru_init_def t)
  from cpu_cache_no_leak [OF o this refl, of "[Store 7 0, Store 8 0, Store 9 0, Invalidate 8]"] o
  show ?thesis by simp
qed

text \<open>
  What was stored is found: in every state the cache reaches, after a
  store that answers with a block, a load of the same hash answers with that
  block, and after an invalidation of the hash with none; a store fails only
  when the pool has no free block left.
\<close>

theorem cpu_cache_store_load:
  assumes "pool_owned pool E" and "cpu_cache_init pool None capacity = Inr c0"
    and "c = fold cc_step xs c0" and "cc_store h g c = (r, c')"
  shows "fst (cc_load h c') = r \<and> fst (cc_load h (cc_invalidate h c')) = None \<and>
    (r = None \<longrightarrow> num_free_blocks (cc_pool c') = 0)"
proof -
  from cpu_cache_init_ok [OF assms(1,2)] have c0: "cc_ok E c0" "0 < bpol_capacity (cc_policy c0)" by simp_all
  from cc_run_ok [OF this, of xs] c0(2) have c: "cc_ok E c" "0 < bpol_capacity (cc_policy c)"
    by (simp_all add: assms(3))
  note st = cc_store_ok [OF c assms(4)]
  then have ok': "cc_ok E c'" and h: "map_of (cc_hash c') h = r" by simp_all
  have l1: "fst (cc_load h c') = r" using cc_load_ok [OF ok', of h] h by (cases "cc_load h c'") simp
  have "cc_ok E (cc_invalidate h c')" and "map_of (cc_hash (cc_invalidate h c')) h = None"
    using cc_invalidate_ok [OF ok', of h] by simp_all
  then have l2: "fst (cc_load h (cc_invalidate h c')) = None"
    using cc_load_ok [of E "cc_invalidate h c'" h "fst (cc_load h (cc_invalidate h c'))"
        "snd (cc_load h (cc_invalidate h c'))"] by (simp only: prod.collapse)
  have "num_free_blocks (cc_pool c') = 0" if "r = None"
  proof -
    define c1 where "c1 = evict_if_needed c"
    obtain y p where a: "allocate_block (cc_pool c1) = (y, p)" by fastforce
    have "pool_owned (cc_pool c1) (mset (map snd (cc_hash c1)) + E)"
      using evict_if_needed_ok [OF c] by (simp add: cc_ok_def c1_def)
    note al = pool_owned_allocate [OF this a]
    have "y = None \<and> c' = c1\<lparr>cc_pool := p\<rparr>"
      using assms(4) that a by (cases y; simp add: cc_store_def c1_def [symmetric] Let_def split: option.splits)
    with al show ?thesis by simp
  qed
  with l1 l2 show ?thesis by simp
qed

theorem cpu_cache_store_load_witness:
  "fst (cc_load 7 (snd (cc_store 7 0 \<lparr>cc_pool = pool_init 2,
      cc_policy = LRU_policy \<lparr>lru_capacity = 2, lru_data = []\<rparr>, cc_hash = [], cc_id = []\<rparr>))) = Some 0"
proof -
  let ?c = "\<lparr>cc_pool = pool_init 2, cc_policy = LRU_policy \<lparr>lru_capacity = 2, lru_data = []\<rparr>,
      cc_hash = [], cc_id = []\<rparr>"
  note o = pool_owned_init(2) [of 2] and t = pool_owned_init(1) [of 2]
  have i: "cpu_cache_init (pool_init 2) None None = Inr ?c"
    by (simp add: cpu_cache_init_def lru_init_def t)
  have "[0..<2] = [0, 1::nat]" by (simp add: upt_rec)
  with pool_init_ok [of 2] have "pool_ok (pool_init 2) [0, 1]" by simp
  from allocate_block_facts(1) [OF this] have "fst (cc_store 7 0 ?c) = Some 0"
    by (auto simp: cc_store_def evict_if_needed.simps [of ?c] lru_len_def split: prod.splits)
  then obtain c' where "cc_store 7 0 ?c = (Some 0, c')" by (cases "cc_store 7 0 ?c") auto
  with cpu_cache_store_load [OF o i _ this, of "[]"] show ?thesis by simp
qed

text \<open>
  A policy object passed to the constructor is ignored while it is empty:
  \<^verbatim>\<open>policy or LRUPolicy(...)\<close> tests \<^verbatim>\<open>len(policy)\<close>, so a fresh \<^verbatim>\<open>ARCPolicy\<close> of any
  capacity is replaced by an LRU policy with the capacity of the pool.
\<close>

theorem cpu_cache_ignores_fresh_policy:
  assumes "arc_init n = Inr a" and "0 < total_blocks pool"
  shows "\<exists>c. cpu_cache_init pool (Some (ARC_policy a)) None = Inr c \<and>
    cc_policy c = LRU_policy \<lparr>lru_capacity = int (total_blocks pool), lru_data = []\<rparr>"
  using assms by (auto simp: cpu_cache_init_def arc_init_def lru_init_def arc_len_def Let_def split: if_splits)

theorem cpu_cache_ignores_fresh_policy_witness:
  "\<exists>c. cpu_cache_init (pool_init 4) (Some (ARC_policy \<lparr>arc_capacity = 3, arc_p = 0, arc_t1 = [], arc_t2 = [],
      arc_b1 = [], arc_b2 = []\<rparr>)) None = Inr c \<and>
    cc_policy c = LRU_policy \<lparr>lru_capacity = 4, lru_data = []\<rparr>"
proof -
  have t: "total_blocks (pool_init 4) = 4" by (simp add: total_blocks_def pool_init_def Let_def)
  have "arc_init 3 = Inr (\<lparr>arc_capacity = 3, arc_p = 0, arc_t1 = [], arc_t2 = [],
      arc_b1 = [], arc_b2 = []\<rparr> :: (int, nat) arc)" by (simp add: arc_init_def)
  from cpu_cache_ignores_fresh_policy [OF this, of "pool_init 4"] t show ?thesis by simp
qed

end
