(* ===== verification/KV_Manager.thy ===== *)
theory KV_Manager
  imports Block_Pool
begin

text \<open>
  \<^verbatim>\<open>src/moe_infinity/memory/kv_cache_manager.py\<close>: the manager that owns the GPU
  and the CPU block pool, the block tables of the sequences and the swap
  bookkeeping. Block objects are again their identifiers, so the dictionaries
  of allocated blocks map an identifier to itself. Dictionaries whose size
  and order are not observed are maps; the block tables are an ordered
  dictionary because the ownership invariant sums over them.
\<close>

section \<open>State and operations\<close>

record kv_mgr =
  km_block_size :: int
  km_gpu :: block_pool
  km_cpu :: block_pool
  km_seq :: "(string, nat list) odict"
  km_swap :: "nat \<rightharpoonup> nat"
  km_seq_swapped :: "string \<rightharpoonup> nat list"
  km_gpu_alloc :: "nat \<rightharpoonup> nat"
  km_cpu_alloc :: "nat \<rightharpoonup> nat"

definition kv_mgr_init :: "nat \<Rightarrow> nat \<Rightarrow> int \<Rightarrow> kv_mgr" where
  "kv_mgr_init num_gpu_blocks num_cpu_blocks block_size =
     \<lparr>km_block_size = block_size, km_gpu = pool_init num_gpu_blocks,
      km_cpu = pool_init num_cpu_blocks, km_seq = [], km_swap = Map.empty,
      km_seq_swapped = Map.empty, km_gpu_alloc = Map.empty, km_cpu_alloc = Map.empty\<rparr>"

definition allocate_gpu_block :: "kv_mgr \<Rightarrow> nat option \<times> kv_mgr" where
  "allocate_gpu_block m =
     (let (r, g) = allocate_block (km_gpu m); m1 = m\<lparr>km_gpu := g\<rparr>
      in case r of
           None \<Rightarrow> (None, m1)
         | Some b \<Rightarrow> (Some b, m1\<lparr>km_gpu_alloc := (km_gpu_alloc m1)(b \<mapsto> b)\<rparr>))"

definition get_cached_gpu_block :: "int \<Rightarrow> kv_mgr \<Rightarrow> nat option \<times> kv_mgr" where
  "get_cached_gpu_block h m =
     (let (r, g) = get_cached_block h (km_gpu m); m1 = m\<lparr>km_gpu := g\<rparr>
      in case r of
           None \<Rightarrow> (None, m1)
         | Some b \<Rightarrow> (Some b, m1\<lparr>km_gpu_alloc := (km_gpu_alloc m1)(b \<mapsto> b)\<rparr>))"

definition release_gpu_block :: "nat \<Rightarrow> kv_mgr \<Rightarrow> (kv_mgr, unit) outcome" where
  "release_gpu_block b m =
     (case free_block b (km_gpu m) of
        (Inl e, g) \<Rightarrow> (Inl e, m\<lparr>km_gpu := g\<rparr>)
      | (Inr _, g) \<Rightarrow>
          (let m1 = m\<lparr>km_gpu := g\<rparr>
           in (Inr (),
               if ref_cnt (bp_heap g b) = 0 \<and> km_gpu_alloc m1 b = Some b
               then m1\<lparr>km_gpu_alloc := (km_gpu_alloc m1)(b := None)\<rparr> else m1)))"

definition release_gpu_blocks :: "nat list \<Rightarrow> kv_mgr \<Rightarrow> (kv_mgr, unit) outcome" where
  "release_gpu_blocks = for_each release_gpu_block"

fun allocate_loop :: "nat \<Rightarrow> nat list \<Rightarrow> kv_mgr \<Rightarrow> (kv_mgr, nat list option) outcome" where
  "allocate_loop 0 blocks m = (Inr (Some blocks), m)"
| "allocate_loop (Suc k) blocks m =
     (case allocate_gpu_block m of
        (None, m1) \<Rightarrow>
          (case release_gpu_blocks blocks m1 of
             (Inl e, m2) \<Rightarrow> (Inl e, m2)
           | (Inr _, m2) \<Rightarrow> (Inr None, m2))
      | (Some b, m1) \<Rightarrow> allocate_loop k (blocks @ [b]) m1)"

definition allocate_blocks_for_sequence ::
  "string \<Rightarrow> int \<Rightarrow> kv_mgr \<Rightarrow> (kv_mgr, bool) outcome" where
  "allocate_blocks_for_sequence seq_id num_tokens m =
     (if km_block_size m = 0 then (Inl ZeroDivisionError, m)
      else case allocate_loop (nat (ceil_div num_tokens (km_block_size m))) [] m of
             (Inl e, m1) \<Rightarrow> (Inl e, m1)
           | (Inr None, m1) \<Rightarrow> (Inr False, m1)
           | (Inr (Some blocks), m1) \<Rightarrow>
               (Inr True, m1\<lparr>km_seq := AList.update seq_id blocks (km_seq m1)\<rparr>))"

definition seq_blocks :: "kv_mgr \<Rightarrow> string \<Rightarrow> nat list" where
  "seq_blocks m seq_id = (case map_of (km_seq m) seq_id of None \<Rightarrow> [] | Some bs \<Rightarrow> bs)"

definition append_token_block :: "string \<Rightarrow> kv_mgr \<Rightarrow> bool \<times> kv_mgr" where
  "append_token_block seq_id m =
     (case allocate_gpu_block m of
        (None, m1) \<Rightarrow> (False, m1)
      | (Some b, m1) \<Rightarrow>
          (True, m1\<lparr>km_seq := AList.update seq_id (seq_blocks m1 seq_id @ [b]) (km_seq m1)\<rparr>))"

definition set_block_table :: "string \<Rightarrow> nat list \<Rightarrow> kv_mgr \<Rightarrow> kv_mgr" where
  "set_block_table seq_id block_ids m = m\<lparr>km_seq := AList.update seq_id block_ids (km_seq m)\<rparr>"

definition get_gpu_block :: "nat \<Rightarrow> kv_mgr \<Rightarrow> nat option" where
  "get_gpu_block block_id m = km_gpu_alloc m block_id"

definition cache_gpu_block :: "nat \<Rightarrow> int \<Rightarrow> kv_mgr \<Rightarrow> kv_mgr" where
  "cache_gpu_block b h m = m\<lparr>km_gpu := cache_full_block b h (km_gpu m)\<rparr>"

definition get_block_table :: "string \<Rightarrow> kv_mgr \<Rightarrow> nat list" where
  "get_block_table seq_id m = seq_blocks m seq_id"

text \<open>The loop bodies of \<^verbatim>\<open>free_sequence\<close>: for a resident and for a swapped block.\<close>

definition free_gpu_id :: "nat \<Rightarrow> kv_mgr \<Rightarrow> (kv_mgr, unit) outcome" where
  "free_gpu_id block_id m =
     (case km_gpu_alloc m block_id of
        None \<Rightarrow> (Inr (), m)
      | Some b \<Rightarrow> release_gpu_block b m)"

definition free_swapped_id :: "nat \<Rightarrow> kv_mgr \<Rightarrow> (kv_mgr, unit) outcome" where
  "free_swapped_id g m =
     (let m1 = m\<lparr>km_swap := (km_swap m)(g := None)\<rparr>
      in case km_swap m g of
           None \<Rightarrow> (Inr (), m1)
         | Some c \<Rightarrow>
             (let m2 = m1\<lparr>km_cpu_alloc := (km_cpu_alloc m1)(c := None)\<rparr>
              in case km_cpu_alloc m1 c of
                   None \<Rightarrow> (Inr (), m2)
                 | Some cb \<Rightarrow> (let (r, p) = free_block cb (km_cpu m2) in (r, m2\<lparr>km_cpu := p\<rparr>))))"

definition free_sequence :: "string \<Rightarrow> kv_mgr \<Rightarrow> (kv_mgr, unit) outcome" where
  "free_sequence seq_id m =
     (case for_each free_gpu_id (seq_blocks m seq_id) (m\<lparr>km_seq := AList.delete seq_id (km_seq m)\<rparr>) of
        (Inl e, m1) \<Rightarrow> (Inl e, m1)
      | (Inr _, m1) \<Rightarrow>
          for_each free_swapped_id (case km_seq_swapped m1 seq_id of None \<Rightarrow> [] | Some gs \<Rightarrow> gs)
            (m1\<lparr>km_seq_swapped := (km_seq_swapped m1)(seq_id := None)\<rparr>))"

section \<open>Swapping\<close>

definition unwind_cpu_block :: "nat \<Rightarrow> kv_mgr \<Rightarrow> (kv_mgr, unit) outcome" where
  "unwind_cpu_block c m =
     (let m1 = m\<lparr>km_cpu_alloc := (km_cpu_alloc m)(c := None)\<rparr>; (r, p) = free_block c (km_cpu m1)
      in (r, m1\<lparr>km_cpu := p\<rparr>))"

fun swap_out_loop ::
  "nat list \<Rightarrow> (nat \<times> nat) list \<Rightarrow> kv_mgr \<Rightarrow> (kv_mgr, (nat \<times> nat) list) outcome" where
  "swap_out_loop [] pairs m = (Inr pairs, m)"
| "swap_out_loop (g # gs) pairs m =
     (case allocate_block (km_cpu m) of
        (None, p) \<Rightarrow>
          (case for_each unwind_cpu_block (map snd pairs) (m\<lparr>km_cpu := p\<rparr>) of
             (Inl e, m1) \<Rightarrow> (Inl e, m1)
           | (Inr _, m1) \<Rightarrow> (Inr [], m1))
      | (Some c, p) \<Rightarrow>
          swap_out_loop gs (pairs @ [(g, c)])
            (m\<lparr>km_cpu := p, km_cpu_alloc := (km_cpu_alloc m)(c \<mapsto> c)\<rparr>))"

definition prepare_swap_out :: "string \<Rightarrow> kv_mgr \<Rightarrow> (kv_mgr, (nat \<times> nat) list) outcome" where
  "prepare_swap_out seq_id m =
     (if seq_blocks m seq_id = [] then (Inr [], m)
      else swap_out_loop (seq_blocks m seq_id) [] m)"

definition commit_out_pair :: "nat \<times> nat \<Rightarrow> kv_mgr \<Rightarrow> (kv_mgr, unit) outcome" where
  "commit_out_pair gc m =
     (let m1 = m\<lparr>km_swap := (km_swap m)(fst gc \<mapsto> snd gc)\<rparr>
      in case km_gpu_alloc m1 (fst gc) of
           None \<Rightarrow> (Inr (), m1)
         | Some b \<Rightarrow> release_gpu_block b m1)"

definition commit_swap_out :: "string \<Rightarrow> (nat \<times> nat) list \<Rightarrow> kv_mgr \<Rightarrow> (kv_mgr, unit) outcome" where
  "commit_swap_out seq_id pairs m =
     (case for_each commit_out_pair pairs m of
        (Inl e, m1) \<Rightarrow> (Inl e, m1)
      | (Inr _, m1) \<Rightarrow>
          (let m2 = (if pairs \<noteq> []
                     then m1\<lparr>km_seq_swapped := (km_seq_swapped m1)(seq_id \<mapsto> map fst pairs)\<rparr>
                     else m1)
           in (Inr (), m2\<lparr>km_seq := AList.delete seq_id (km_seq m2)\<rparr>)))"

text \<open>
  On a missing swap entry \<^verbatim>\<open>prepare_swap_in\<close> gives the new blocks back by
  dropping the tracking entry and calling the pool directly; on an exhausted
  pool it goes through \<^verbatim>\<open>release_gpu_block\<close>.
\<close>

definition unwind_gpu_block :: "nat \<Rightarrow> kv_mgr \<Rightarrow> (kv_mgr, unit) outcome" where
  "unwind_gpu_block b m =
     (let m1 = m\<lparr>km_gpu_alloc := (km_gpu_alloc m)(b := None)\<rparr>; (r, g) = free_block b (km_gpu m1)
      in (r, m1\<lparr>km_gpu := g\<rparr>))"

fun swap_in_loop ::
  "nat list \<Rightarrow> (nat \<times> nat) list \<Rightarrow> kv_mgr \<Rightarrow> (kv_mgr, (nat \<times> nat) list) outcome" where
  "swap_in_loop [] pairs m = (Inr pairs, m)"
| "swap_in_loop (g # gs) pairs m =
     (case km_swap m g of
        None \<Rightarrow>
          (case for_each unwind_gpu_block (map snd pairs) m of
             (Inl e, m1) \<Rightarrow> (Inl e, m1)
           | (Inr _, m1) \<Rightarrow> (Inr [], m1))
      | Some c \<Rightarrow>
          (case allocate_block (km_gpu m) of
             (None, p) \<Rightarrow>
               (case release_gpu_blocks (map snd pairs) (m\<lparr>km_gpu := p\<rparr>) of
                  (Inl e, m1) \<Rightarrow> (Inl e, m1)
                | (Inr _, m1) \<Rightarrow> (Inr [], m1))
           | (Some b, p) \<Rightarrow>
               swap_in_loop gs (pairs @ [(c, b)])
                 (m\<lparr>km_gpu := p, km_gpu_alloc := (km_gpu_alloc m)(b \<mapsto> b)\<rparr>)))"

definition prepare_swap_in ::
  "string \<Rightarrow> nat list \<Rightarrow> kv_mgr \<Rightarrow> (kv_mgr, (nat \<times> nat) list) outcome" where
  "prepare_swap_in seq_id swapped_gpu_block_ids m = swap_in_loop swapped_gpu_block_ids [] m"

definition commit_in_pair :: "nat \<times> (nat \<times> nat) \<Rightarrow> kv_mgr \<Rightarrow> (kv_mgr, unit) outcome" where
  "commit_in_pair gcn m =
     (let (g, c, n) = gcn; m1 = m\<lparr>km_cpu_alloc := (km_cpu_alloc m)(c := None)\<rparr>
      in case km_cpu_alloc m c of
           None \<Rightarrow> (Inr (), m1\<lparr>km_swap := (km_swap m1)(g := None)\<rparr>)
         | Some cb \<Rightarrow>
             (case free_block cb (km_cpu m1) of
                (Inl e, p) \<Rightarrow> (Inl e, m1\<lparr>km_cpu := p\<rparr>)
              | (Inr _, p) \<Rightarrow>
                  (Inr (), m1\<lparr>km_cpu := p, km_swap := (km_swap m1)(g := None)\<rparr>)))"

definition commit_swap_in ::
  "string \<Rightarrow> nat list \<Rightarrow> (nat \<times> nat) list \<Rightarrow> kv_mgr \<Rightarrow> (kv_mgr, unit) outcome" where
  "commit_swap_in seq_id orig_gpu_block_ids pairs m =
     (case for_each commit_in_pair (zip orig_gpu_block_ids pairs) m of
        (Inl e, m1) \<Rightarrow> (Inl e, m1)
      | (Inr _, m1) \<Rightarrow>
          (Inr (), m1\<lparr>km_seq_swapped := (km_seq_swapped m1)(seq_id := None),
                     km_seq := AList.update seq_id
                       (map snd (take (length orig_gpu_block_ids) pairs)) (km_seq m1)\<rparr>))"

definition num_free_gpu_blocks :: "kv_mgr \<Rightarrow> int" where
  "num_free_gpu_blocks m = num_free_blocks (km_gpu m)"

definition num_free_cpu_blocks :: "kv_mgr \<Rightarrow> int" where
  "num_free_cpu_blocks m = num_free_blocks (km_cpu m)"

definition num_gpu_blocks :: "kv_mgr \<Rightarrow> nat" where
  "num_gpu_blocks m = total_blocks (km_gpu m)"

definition num_cpu_blocks :: "kv_mgr \<Rightarrow> nat" where
  "num_cpu_blocks m = total_blocks (km_cpu m)"

definition num_cached_gpu_blocks :: "kv_mgr \<Rightarrow> nat" where
  "num_cached_gpu_blocks m = num_cached_blocks (km_gpu m)"


section \<open>Ownership\<close>

text \<open>
  \<open>gpu_owned m E\<close>: the GPU pool is in order, the tracked blocks are exactly the
  referenced ones, and the reference count of every block is the number of
  times it occurs in the block tables plus the number of references \<open>E\<close> that
  the running operation holds in its local variables.
\<close>

definition gpu_owned :: "kv_mgr \<Rightarrow> nat multiset \<Rightarrow> bool" where
  "gpu_owned m E \<longleftrightarrow>
     pool_inv (km_gpu m) \<and> od_ok (km_seq m) \<and>
     (\<forall>b. km_gpu_alloc m b =
        (if b < total_blocks (km_gpu m) \<and> 0 < ref_cnt (bp_heap (km_gpu m) b) then Some b else None)) \<and>
     (\<forall>b \<in># table_refs (km_seq m) + E. b < total_blocks (km_gpu m)) \<and>
     (\<forall>b < total_blocks (km_gpu m).
        ref_cnt (bp_heap (km_gpu m) b) = int (count (table_refs (km_seq m) + E) b))"

text \<open>The part of the state the GPU side of an operation must leave alone.\<close>

definition gpu_frame where
  "gpu_frame m = (km_block_size m, km_cpu m, km_swap m, km_seq_swapped m, km_cpu_alloc m,
     total_blocks (km_gpu m))"

lemma gpu_owned_ok: "gpu_owned m E \<Longrightarrow> pool_ok (km_gpu m) (free_list (km_gpu m))"
  by (simp add: gpu_owned_def pool_inv_def)

lemma gpu_owned_ref_pos:
  assumes "gpu_owned m (add_mset b E)"
  shows "b < total_blocks (km_gpu m)" and "0 < ref_cnt (bp_heap (km_gpu m) b)"
    and "km_gpu_alloc m b = Some b"
  using assms by (simp_all add: gpu_owned_def)

lemma gpu_owned_fresh:
  assumes "gpu_owned m E" and "b < total_blocks (km_gpu m)" and "ref_cnt (bp_heap (km_gpu m) b) = 0"
  shows "b \<notin># table_refs (km_seq m) + E"
proof -
  from assms have "int (count (table_refs (km_seq m) + E) b) = 0"
    unfolding gpu_owned_def by metis
  then show ?thesis by (simp add: not_in_iff)
qed

lemma allocate_gpu_None:
  assumes "gpu_owned m E" and "allocate_gpu_block m = (None, m')"
  shows "m' = m" and "free_list (km_gpu m) = []"
proof -
  note ok = gpu_owned_ok [OF assms(1)]
  from assms(2) have "fst (allocate_block (km_gpu m)) = None"
    by (auto simp: allocate_gpu_block_def Let_def split: prod.splits option.splits)
  with allocate_block_pool [OF ok] show nil: "free_list (km_gpu m) = []"
    by (cases "free_list (km_gpu m)") auto
  with ok assms(2) show "m' = m"
    by (simp add: allocate_gpu_block_def allocate_block_empty)
qed

lemma allocate_gpu_Some:
  assumes own: "gpu_owned m E" and "allocate_gpu_block m = (Some b, m')"
  shows "gpu_owned m' (add_mset b E)" and "gpu_frame m' = gpu_frame m" and "km_seq m' = km_seq m"
    and "free_list (km_gpu m) = b # free_list (km_gpu m')"
proof -
  note ok = gpu_owned_ok [OF own]
  obtain g where g: "allocate_block (km_gpu m) = (Some b, g)"
    and m': "m' = m\<lparr>km_gpu := g, km_gpu_alloc := (km_gpu_alloc m)(b \<mapsto> b)\<rparr>"
    using assms(2) by (auto simp: allocate_gpu_block_def Let_def split: prod.splits option.splits)
  with allocate_block_pool [OF ok] obtain xs where xs: "free_list (km_gpu m) = b # xs"
    by (cases "free_list (km_gpu m)") auto
  with ok have ok': "pool_ok (km_gpu m) (b # xs)" by simp
  note f = allocate_block_facts [OF ok', unfolded g snd_conv]
  have b: "b < total_blocks (km_gpu m)" "ref_cnt (bp_heap (km_gpu m) b) = 0"
    using ok' by (auto simp: pool_ok_def)
  have gi: "pool_inv g" "free_list g = xs" using pool_okI [OF f(2)] by simp_all
  have zero: "count (table_refs (km_seq m)) b + count E b = 0"
    using own b by (simp add: gpu_owned_def)
  show "gpu_owned m' (add_mset b E)"
    using own b zero by (auto simp: gpu_owned_def m' gi f not_in_iff)
  show "gpu_frame m' = gpu_frame m" and "km_seq m' = km_seq m"
    by (simp_all add: gpu_frame_def m' f)
  show "free_list (km_gpu m) = b # free_list (km_gpu m')" by (simp add: m' xs gi)
qed

lemma release_gpu_owned:
  assumes own: "gpu_owned m (add_mset b E)"
  shows "\<exists>m'. release_gpu_block b m = (Inr (), m') \<and> gpu_owned m' E \<and>
    gpu_frame m' = gpu_frame m \<and> km_seq m' = km_seq m"
proof -
  note b = gpu_owned_ref_pos [OF own] and ok = gpu_owned_ok [OF own]
  obtain g where g: "free_block b (km_gpu m) = (Inr (), g)"
    using free_block_facts(1) [OF ok b(1,2)] by (cases "free_block b (km_gpu m)") auto
  note f = free_block_facts [OF ok b(1,2), unfolded g snd_conv]
  have gi: "pool_inv g" using pool_okI [OF f(2)] by simp
  define m' where "m' = (let m1 = m\<lparr>km_gpu := g\<rparr> in
      if ref_cnt (bp_heap g b) = 0 \<and> km_gpu_alloc m1 b = Some b
      then m1\<lparr>km_gpu_alloc := (km_gpu_alloc m1)(b := None)\<rparr> else m1)"
  have rel: "release_gpu_block b m = (Inr (), m')"
    by (simp add: release_gpu_block_def g m'_def Let_def)
  have "gpu_owned m' E"
    using own b by (auto simp: gpu_owned_def m'_def Let_def gi f not_in_iff)
  with rel show ?thesis by (auto simp: gpu_frame_def m'_def Let_def f)
qed

interpretation gpu: block_holder gpu_owned allocate_gpu_block release_gpu_block
  "\<lambda>m. (gpu_frame m, km_seq m)"
proof unfold_locales
  fix m E b m'
  assume own: "gpu_owned m E"
  show "gpu_owned m' (add_mset b E) \<and> (gpu_frame m', km_seq m') = (gpu_frame m, km_seq m)"
    if "allocate_gpu_block m = (Some b, m')"
    using allocate_gpu_Some [OF own that] by simp
  show "m' = m" if "allocate_gpu_block m = (None, m')"
    using allocate_gpu_None [OF own that] by simp
next
  fix m b E
  assume "gpu_owned m (add_mset b E)"
  from release_gpu_owned [OF this]
  show "\<exists>m'. release_gpu_block b m = (Inr (), m') \<and> gpu_owned m' E \<and>
      (gpu_frame m', km_seq m') = (gpu_frame m, km_seq m)" by simp
qed

lemma get_cached_gpu_owned:
  assumes own: "gpu_owned m E" and "get_cached_gpu_block h m = (r, m')"
  shows "gpu_frame m' = gpu_frame m \<and> km_seq m' = km_seq m \<and>
    (case r of None \<Rightarrow> m' = m | Some b \<Rightarrow> gpu_owned m' (add_mset b E))"
proof (cases "map_of (bp_hash_map (km_gpu m)) h")
  case None
  with assms(2) show ?thesis by (simp add: get_cached_gpu_block_def get_cached_block_miss)
next
  case (Some b)
  note ok = gpu_owned_ok [OF own]
  obtain g where g: "get_cached_block h (km_gpu m) = (Some b, g)"
    using get_cached_block_facts(1) [OF ok Some] by (cases "get_cached_block h (km_gpu m)") auto
  note f = get_cached_block_facts [OF ok Some, unfolded g snd_conv]
  have b: "b < total_blocks (km_gpu m)" "0 \<le> ref_cnt (bp_heap (km_gpu m) b)"
    using ok Some by (auto simp: pool_ok_def)
  have gi: "pool_inv g" using pool_okI [OF f(2)] by simp
  have r: "r = Some b" and m': "m' = m\<lparr>km_gpu := g, km_gpu_alloc := (km_gpu_alloc m)(b \<mapsto> b)\<rparr>"
    using assms(2) by (auto simp: get_cached_gpu_block_def g)
  have "gpu_owned m' (add_mset b E)"
    using own b by (auto simp: gpu_owned_def m' gi f)
  then show ?thesis by (simp add: r m' gpu_frame_def f)
qed

lemma set_block_table_owned:
  assumes "gpu_owned m (mset bs + E)" and "map_of (km_seq m) sid = None"
  shows "gpu_owned (set_block_table sid bs m) E"
proof -
  have eq: "table_refs (AList.update sid bs (km_seq m)) + E = table_refs (km_seq m) + (mset bs + E)"
    by (simp add: table_refs_update_new [OF assms(2)])
  from assms(1) show ?thesis
    unfolding gpu_owned_def set_block_table_def by (simp add: eq del: count_union)
qed

lemma drop_table_owned:
  assumes "gpu_owned m E"
  shows "gpu_owned (m\<lparr>km_seq := AList.delete sid (km_seq m)\<rparr>) (mset (seq_blocks m sid) + E)"
proof -
  have "od_ok (km_seq m)" using assms by (simp add: gpu_owned_def)
  then have eq: "table_refs (AList.delete sid (km_seq m)) + (mset (seq_blocks m sid) + E) =
      table_refs (km_seq m) + E"
  proof (cases "map_of (km_seq m) sid")
    case None
    then have "sid \<notin> fst ` set (km_seq m)" by (simp add: map_of_eq_None_iff)
    with None show ?thesis by (simp add: seq_blocks_def delete_absent)
  qed (simp add: seq_blocks_def table_refs_delete ac_simps)
  from assms show ?thesis unfolding gpu_owned_def by (simp add: eq del: count_union)
qed


section \<open>The operations keep the ownership invariant\<close>

lemma seq_frame_simps:
  "gpu_frame (m\<lparr>km_seq := d\<rparr>) = gpu_frame m" "km_gpu (set_block_table sid bs m) = km_gpu m"
  "gpu_frame (set_block_table sid bs m) = gpu_frame m"
  by (simp_all add: gpu_frame_def set_block_table_def)

lemma allocate_loop_owned:
  assumes "gpu_owned m (mset bs + E)"
  shows "\<exists>r m'. allocate_loop k bs m = (Inr r, m') \<and> gpu_frame m' = gpu_frame m \<and>
    km_seq m' = km_seq m \<and>
    (case r of
       None \<Rightarrow> gpu_owned m' E \<and> length (free_list (km_gpu m)) < k
     | Some bs' \<Rightarrow> gpu_owned m' (mset bs' + E) \<and> length bs' = length bs + k \<and>
         k \<le> length (free_list (km_gpu m)) \<and>
         bs' = bs @ take k (free_list (km_gpu m)))"
  using assms
proof (induction k arbitrary: bs m)
  case 0
  then show ?case by simp
next
  case (Suc k)
  show ?case
  proof (cases "allocate_gpu_block m")
    case (Pair r m1)
    show ?thesis
    proof (cases r)
      case None
      note a = allocate_gpu_None [OF Suc.prems Pair [unfolded None]]
      from gpu.release_all [OF Suc.prems] obtain m2
        where "for_each release_gpu_block bs m = (Inr (), m2)" "gpu_owned m2 E"
          "gpu_frame m2 = gpu_frame m" "km_seq m2 = km_seq m" by auto
      with Pair None a show ?thesis by (simp add: release_gpu_blocks_def)
    next
      case (Some b)
      note a = allocate_gpu_Some [OF Suc.prems Pair [unfolded Some]]
      from a(1) have "gpu_owned m1 (mset (bs @ [b]) + E)" by simp
      from Suc.IH [OF this] a(2-4) Pair Some show ?thesis
        by (auto split: option.splits)
    qed
  qed
qed

lemma free_gpu_ids_owned:
  assumes "gpu_owned m (mset bs + E)"
  shows "\<exists>m'. for_each free_gpu_id bs m = (Inr (), m') \<and> gpu_owned m' E \<and>
    gpu_frame m' = gpu_frame m \<and> km_seq m' = km_seq m"
proof -
  have body: "\<exists>s'. free_gpu_id x s = (Inr (), s') \<and> gpu_owned s' (mset xs + E) \<and>
      gpu_frame s' = gpu_frame m \<and> km_seq s' = km_seq m"
    if "gpu_owned s (mset (x # xs) + E) \<and> gpu_frame s = gpu_frame m \<and> km_seq s = km_seq m"
    for x xs s
    using that gpu_owned_ref_pos [of s x "mset xs + E"] release_gpu_owned [of s x "mset xs + E"]
    by (auto simp: free_gpu_id_def)
  have "\<exists>m'. for_each free_gpu_id bs m = (Inr (), m') \<and> gpu_owned m' (mset [] + E) \<and>
      gpu_frame m' = gpu_frame m \<and> km_seq m' = km_seq m"
    by (rule for_each_invariant [where I = "\<lambda>xs s. gpu_owned s (mset xs + E) \<and>
          gpu_frame s = gpu_frame m \<and> km_seq s = km_seq m"])
      (use assms body in auto)
  then show ?thesis by simp
qed

text \<open>
  The CPU side of an operation: it may change the CPU pool and the swap maps,
  never the GPU pool or the block tables.
\<close>

definition gpu_part where
  "gpu_part m = (km_gpu m, km_gpu_alloc m, km_seq m, km_block_size m)"

lemma gpu_part_owned: "gpu_part m' = gpu_part m \<Longrightarrow> gpu_owned m' E = gpu_owned m E"
  by (simp add: gpu_part_def gpu_owned_def)

lemma commit_out_owned:
  assumes "gpu_owned m (mset (map fst ps) + E)"
  shows "\<exists>m'. for_each commit_out_pair ps m = (Inr (), m') \<and> gpu_owned m' E \<and> km_seq m' = km_seq m \<and>
    km_cpu m' = km_cpu m \<and> total_blocks (km_gpu m') = total_blocks (km_gpu m)"
proof -
  let ?fr = "\<lambda>s. km_seq s = km_seq m \<and> km_cpu s = km_cpu m \<and>
      total_blocks (km_gpu s) = total_blocks (km_gpu m)"
  have body: "\<exists>s'. commit_out_pair x s = (Inr (), s') \<and> gpu_owned s' (mset (map fst xs) + E) \<and> ?fr s'"
    if "gpu_owned s (mset (map fst (x # xs)) + E) \<and> ?fr s" for x xs s
  proof -
    let ?s = "s\<lparr>km_swap := (km_swap s)(fst x \<mapsto> snd x)\<rparr>"
    have own: "gpu_owned ?s (add_mset (fst x) (mset (map fst xs) + E))"
      using that gpu_part_owned [of ?s s] by (simp add: gpu_part_def)
    from release_gpu_owned [OF own] gpu_owned_ref_pos(3) [OF own] that show ?thesis
      by (auto simp: commit_out_pair_def gpu_frame_def)
  qed
  have "\<exists>m'. for_each commit_out_pair ps m = (Inr (), m') \<and>
      gpu_owned m' (mset (map fst ([] :: (nat \<times> nat) list)) + E) \<and> ?fr m'"
    by (rule for_each_invariant [where I = "\<lambda>(xs :: (nat \<times> nat) list) s.
          gpu_owned s (mset (map fst xs) + E) \<and> ?fr s"])
      (use assms body in auto)
  then show ?thesis by simp
qed

lemma cpu_bodies_gpu_part [simp]:
  "gpu_part (snd (free_swapped_id g m)) = gpu_part m"
  "gpu_part (snd (unwind_cpu_block c m)) = gpu_part m"
  "gpu_part (snd (commit_in_pair q m)) = gpu_part m"
  by (auto simp: gpu_part_def free_swapped_id_def unwind_cpu_block_def commit_in_pair_def Let_def
      split: option.splits prod.splits sum.splits)


section \<open>The CPU side\<close>

text \<open>
  A CPU block is referenced once, and tracked exactly while it is referenced;
  \<open>E\<close> are the tracked blocks an operation holds in its local variables.
\<close>

definition cpu_owned :: "kv_mgr \<Rightarrow> nat multiset \<Rightarrow> bool" where
  "cpu_owned m E \<longleftrightarrow>
     pool_inv (km_cpu m) \<and>
     (\<forall>c. km_cpu_alloc m c =
        (if c < total_blocks (km_cpu m) \<and> 0 < ref_cnt (bp_heap (km_cpu m) c) then Some c else None)) \<and>
     (\<forall>c < total_blocks (km_cpu m). ref_cnt (bp_heap (km_cpu m) c) \<le> 1) \<and>
     (\<forall>c \<in># E. c < total_blocks (km_cpu m) \<and> 0 < ref_cnt (bp_heap (km_cpu m) c)) \<and>
     (\<forall>c. count E c \<le> 1)"

definition allocate_cpu_block :: "kv_mgr \<Rightarrow> nat option \<times> kv_mgr" where
  "allocate_cpu_block m =
     (case allocate_block (km_cpu m) of
        (None, p) \<Rightarrow> (None, m\<lparr>km_cpu := p\<rparr>)
      | (Some c, p) \<Rightarrow> (Some c, m\<lparr>km_cpu := p, km_cpu_alloc := (km_cpu_alloc m)(c \<mapsto> c)\<rparr>))"

lemma cpu_owned_ok: "cpu_owned m E \<Longrightarrow> pool_ok (km_cpu m) (free_list (km_cpu m))"
  by (simp add: cpu_owned_def pool_inv_def)

lemma cpu_owned_tracked:
  assumes "cpu_owned m E"
  shows "km_cpu_alloc m c =
      (if c < total_blocks (km_cpu m) \<and> 0 < ref_cnt (bp_heap (km_cpu m) c) then Some c else None)"
    and "c \<in># E \<Longrightarrow> c < total_blocks (km_cpu m) \<and> 0 < ref_cnt (bp_heap (km_cpu m) c)"
    and "count E c \<le> 1"
    and "c < total_blocks (km_cpu m) \<Longrightarrow> ref_cnt (bp_heap (km_cpu m) c) \<le> 1"
  using assms unfolding cpu_owned_def by blast+

lemma allocate_cpu_owned:
  assumes own: "cpu_owned m E" and "allocate_cpu_block m = (r, m')"
  shows "case r of None \<Rightarrow> m' = m | Some c \<Rightarrow> cpu_owned m' (add_mset c E) \<and> gpu_part m' = gpu_part m"
proof (cases "free_list (km_cpu m)")
  case Nil
  with assms cpu_owned_ok [OF own] show ?thesis
    by (simp add: allocate_cpu_block_def allocate_block_empty)
next
  case (Cons c xs)
  with cpu_owned_ok [OF own] have ok: "pool_ok (km_cpu m) (c # xs)" by simp
  obtain p where p: "allocate_block (km_cpu m) = (Some c, p)"
    using allocate_block_facts(1) [OF ok] by (cases "allocate_block (km_cpu m)") auto
  note f = allocate_block_facts [OF ok, unfolded p snd_conv]
  have c: "c < total_blocks (km_cpu m)" "ref_cnt (bp_heap (km_cpu m) c) = 0"
    using ok by (auto simp: pool_ok_def)
  have r: "r = Some c" and m': "m' = m\<lparr>km_cpu := p, km_cpu_alloc := (km_cpu_alloc m)(c \<mapsto> c)\<rparr>"
    using assms(2) by (auto simp: allocate_cpu_block_def p)
  have "c \<notin># E" using cpu_owned_tracked(2) [OF own, of c] c by auto
  then have "count E c = 0" by (simp add: not_in_iff)
  with own c have "cpu_owned m' (add_mset c E)"
    using pool_okI [OF f(2)] by (auto simp: cpu_owned_def m' f)
  then show ?thesis by (simp add: r m' gpu_part_def)
qed

lemma free_cpu_owned:
  assumes own: "cpu_owned m E" and c: "km_cpu_alloc m c = Some c"
    and p: "free_block c (km_cpu m) = (r, p)"
    and m': "km_cpu m' = p" "km_cpu_alloc m' = (km_cpu_alloc m)(c := None)"
  shows "r = Inr () \<and> cpu_owned m' (E - {#c#})"
proof -
  note ok = cpu_owned_ok [OF own]
  have b: "c < total_blocks (km_cpu m)" "0 < ref_cnt (bp_heap (km_cpu m) c)"
    "ref_cnt (bp_heap (km_cpu m) c) = 1"
    using cpu_owned_tracked [OF own, of c] c by (auto split: if_splits)
  note f = free_block_facts [OF ok b(1,2), unfolded p fst_conv snd_conv]
  have "count E c \<le> 1" by (rule cpu_owned_tracked(3) [OF own])
  then have "c \<notin># E - {#c#}" by (simp add: not_in_iff)
  then have "cpu_owned m' (E - {#c#})"
    using own b pool_okI [OF f(2)]
    by (auto simp: cpu_owned_def m' f le_diff_conv dest: in_diffD intro: le_SucI)
  with f(1) show ?thesis by simp
qed

lemma unwind_cpu_owned:
  assumes "cpu_owned m (add_mset c E)"
  shows "\<exists>m'. unwind_cpu_block c m = (Inr (), m') \<and> cpu_owned m' E \<and> gpu_part m' = gpu_part m"
proof -
  obtain r p where p: "free_block c (km_cpu m) = (r, p)" by fastforce
  have "km_cpu_alloc m c = Some c"
    using cpu_owned_tracked(1,2) [OF assms, of c] by simp
  from free_cpu_owned [OF assms this p, of "m\<lparr>km_cpu_alloc := (km_cpu_alloc m)(c := None), km_cpu := p\<rparr>"]
  show ?thesis using p by (auto simp: unwind_cpu_block_def gpu_part_def)
qed

interpretation cpu: block_holder cpu_owned allocate_cpu_block unwind_cpu_block gpu_part
  using allocate_cpu_owned unwind_cpu_owned by unfold_locales fastforce+

lemma swap_out_loop_Cons:
  "swap_out_loop (g # gs) pairs m =
     (case allocate_cpu_block m of
        (None, m1) \<Rightarrow>
          (case for_each unwind_cpu_block (map snd pairs) m1 of
             (Inl e, m2) \<Rightarrow> (Inl e, m2)
           | (Inr _, m2) \<Rightarrow> (Inr [], m2))
      | (Some c, m1) \<Rightarrow> swap_out_loop gs (pairs @ [(g, c)]) m1)"
  by (auto simp: allocate_cpu_block_def split: prod.splits option.splits)

lemma swap_out_loop_owned:
  assumes "cpu_owned m (mset (map snd ps) + E)"
  shows "\<exists>qs m'. swap_out_loop gs ps m = (Inr qs, m') \<and> gpu_part m' = gpu_part m \<and>
    (qs = [] \<and> cpu_owned m' E \<or>
     map fst qs = map fst ps @ gs \<and> cpu_owned m' (mset (map snd qs) + E))"
  using assms
proof (induction gs arbitrary: ps m)
  case Nil
  then show ?case by simp
next
  case (Cons g gs)
  show ?case
  proof (cases "allocate_cpu_block m")
    case (Pair r m1)
    show ?thesis
    proof (cases r)
      case None
      with Pair allocate_cpu_owned [OF Cons.prems Pair] have "m1 = m" by simp
      with cpu.release_all [OF Cons.prems] Pair None show ?thesis
        by (auto simp: swap_out_loop_Cons simp del: swap_out_loop.simps)
    next
      case (Some c)
      with allocate_cpu_owned [OF Cons.prems Pair]
      have own: "cpu_owned m1 (mset (map snd (ps @ [(g, c)])) + E)" "gpu_part m1 = gpu_part m"
        by simp_all
      from Cons.IH [OF own(1)] own(2) Pair Some show ?thesis
        by (auto simp: swap_out_loop_Cons simp del: swap_out_loop.simps)
    qed
  qed
qed


lemma cpu_owned_cong:
  "km_cpu m' = km_cpu m \<Longrightarrow> km_cpu_alloc m' = km_cpu_alloc m \<Longrightarrow> cpu_owned m' E = cpu_owned m E"
  by (simp add: cpu_owned_def)

lemma gpu_frame_cpu: "gpu_frame m' = gpu_frame m \<Longrightarrow> cpu_owned m' E = cpu_owned m E"
  by (rule cpu_owned_cong) (simp_all add: gpu_frame_def)

lemma cpu_owned_drop: "cpu_owned m E \<Longrightarrow> cpu_owned m {#}"
  by (simp add: cpu_owned_def)

lemma free_swapped_owned:
  assumes "cpu_owned m {#}"
  shows "\<exists>m'. free_swapped_id g m = (Inr (), m') \<and> cpu_owned m' {#} \<and> gpu_part m' = gpu_part m"
proof (cases "km_swap m g")
  case None
  with assms cpu_owned_cong [of "m\<lparr>km_swap := (km_swap m)(g := None)\<rparr>" m "{#}"] show ?thesis
    by (simp add: free_swapped_id_def gpu_part_def)
next
  case (Some c)
  obtain r p where p: "free_block c (km_cpu m) = (r, p)" by fastforce
  let ?m = "m\<lparr>km_swap := (km_swap m)(g := None), km_cpu_alloc := (km_cpu_alloc m)(c := None)\<rparr>"
  show ?thesis
  proof (cases "km_cpu_alloc m c")
    case None
    then have "cpu_owned ?m {#}"
      using assms cpu_owned_cong [of ?m m "{#}"] by (simp add: fun_upd_idem)
    with Some None show ?thesis by (simp add: free_swapped_id_def gpu_part_def Let_def)
  next
    case (Some cb)
    then have cb: "km_cpu_alloc m c = Some c"
      using cpu_owned_tracked(1) [OF assms, of c] by (simp split: if_splits)
    from free_cpu_owned [OF assms cb p, of "?m\<lparr>km_cpu := p\<rparr>"] show ?thesis
      using cb p \<open>km_swap m g = Some c\<close> by (simp add: free_swapped_id_def gpu_part_def Let_def)
  qed
qed

lemma commit_in_owned:
  assumes "cpu_owned m {#}"
  shows "\<exists>m'. commit_in_pair q m = (Inr (), m') \<and> cpu_owned m' {#} \<and> gpu_part m' = gpu_part m"
proof -
  obtain g c n where q: "q = (g, c, n)" by (cases q)
  let ?m = "m\<lparr>km_cpu_alloc := (km_cpu_alloc m)(c := None)\<rparr>"
  show ?thesis
  proof (cases "km_cpu_alloc m c")
    case None
    then have "cpu_owned (?m\<lparr>km_swap := (km_swap m)(g := None)\<rparr>) {#}"
      using assms cpu_owned_cong [of "?m\<lparr>km_swap := (km_swap m)(g := None)\<rparr>" m "{#}"]
      by (simp add: fun_upd_idem)
    with None show ?thesis by (simp add: commit_in_pair_def q gpu_part_def Let_def)
  next
    case (Some cb)
    then have cb: "km_cpu_alloc m c = Some c"
      using cpu_owned_tracked(1) [OF assms, of c] by (simp split: if_splits)
    obtain r p where p: "free_block c (km_cpu m) = (r, p)" by fastforce
    from free_cpu_owned [OF assms cb p, of "?m\<lparr>km_cpu := p, km_swap := (km_swap m)(g := None)\<rparr>"]
    show ?thesis using cb p by (simp add: commit_in_pair_def q gpu_part_def Let_def)
  qed
qed

lemma for_each_cpu_owned:
  assumes "\<And>x m. cpu_owned m {#} \<Longrightarrow>
      \<exists>m'. f x m = (Inr (), m') \<and> cpu_owned m' {#} \<and> gpu_part m' = gpu_part m"
    and "cpu_owned m {#}"
  shows "\<exists>m'. for_each f xs m = (Inr (), m') \<and> cpu_owned m' {#} \<and> gpu_part m' = gpu_part m"
  by (rule for_each_invariant [where I = "\<lambda>xs s. cpu_owned s {#} \<and> gpu_part s = gpu_part m"])
    (use assms in force)+

section \<open>Swapping in\<close>

lemma unwind_gpu_eq_release:
  assumes "gpu_owned m (add_mset b E)" and "b \<notin># table_refs (km_seq m) + E"
  shows "unwind_gpu_block b m = release_gpu_block b m"
proof -
  note b = gpu_owned_ref_pos [OF assms(1)] and ok = gpu_owned_ok [OF assms(1)]
  have "ref_cnt (bp_heap (km_gpu m) b) = 1"
    using assms b(1) by (simp add: gpu_owned_def not_in_iff)
  with free_block_facts [OF ok b(1,2)] b(3) show ?thesis
    by (cases m) (auto simp: unwind_gpu_block_def release_gpu_block_def Let_def split: prod.splits)
qed

lemma unwind_gpu_all:
  assumes "gpu_owned m (mset bs)" and "distinct bs" and "\<forall>b \<in> set bs. b \<notin># table_refs (km_seq m)"
  shows "\<exists>m'. for_each unwind_gpu_block bs m = (Inr (), m') \<and> gpu_owned m' {#} \<and>
    gpu_frame m' = gpu_frame m \<and> km_seq m' = km_seq m"
proof -
  let ?I = "\<lambda>bs s. gpu_owned s (mset bs) \<and> distinct bs \<and> (\<forall>b \<in> set bs. b \<notin># table_refs (km_seq m)) \<and>
      gpu_frame s = gpu_frame m \<and> km_seq s = km_seq m"
  have "\<exists>s'. unwind_gpu_block x s = (Inr (), s') \<and> ?I xs s'" if "?I (x # xs) s" for x xs s
    using that unwind_gpu_eq_release [of s x "mset xs"] release_gpu_owned [of s x "mset xs"] by auto
  from for_each_invariant [where I = ?I, OF this] assms show ?thesis by auto
qed

lemma swap_in_loop_Cons:
  "swap_in_loop (g # gs) pairs m =
     (case km_swap m g of
        None \<Rightarrow>
          (case for_each unwind_gpu_block (map snd pairs) m of
             (Inl e, m1) \<Rightarrow> (Inl e, m1)
           | (Inr _, m1) \<Rightarrow> (Inr [], m1))
      | Some c \<Rightarrow>
          (case allocate_gpu_block m of
             (None, m1) \<Rightarrow>
               (case release_gpu_blocks (map snd pairs) m1 of
                  (Inl e, m2) \<Rightarrow> (Inl e, m2)
                | (Inr _, m2) \<Rightarrow> (Inr [], m2))
           | (Some b, m1) \<Rightarrow> swap_in_loop gs (pairs @ [(c, b)]) m1))"
  by (auto simp: allocate_gpu_block_def Let_def split: prod.splits option.splits)

lemma swap_in_loop_owned:
  assumes "gpu_owned m (mset (map snd ps))" and "distinct (map snd ps)"
    and "\<forall>b \<in> set (map snd ps). b \<notin># table_refs (km_seq m)"
  shows "\<exists>qs m'. swap_in_loop gs ps m = (Inr qs, m') \<and> gpu_frame m' = gpu_frame m \<and>
    km_seq m' = km_seq m \<and>
    (qs = [] \<and> gpu_owned m' {#} \<or>
     length qs = length ps + length gs \<and> gpu_owned m' (mset (map snd qs)) \<and>
     map (\<lambda>q. Some (fst q)) qs = map (\<lambda>q. Some (fst q)) ps @ map (km_swap m) gs)"
  using assms
proof (induction gs arbitrary: ps m)
  case Nil
  then show ?case by simp
next
  case (Cons g gs)
  note own = Cons.prems(1)
  show ?case
  proof (cases "km_swap m g")
    case None
    with unwind_gpu_all [OF Cons.prems] show ?thesis
      by (auto simp: swap_in_loop_Cons simp del: swap_in_loop.simps)
  next
    case (Some c)
    obtain r m1 where a: "allocate_gpu_block m = (r, m1)" by fastforce
    show ?thesis
    proof (cases r)
      case None
      with a allocate_gpu_None [OF own] gpu.release_all [of m "map snd ps" "{#}"] own Some
      show ?thesis
        by (auto simp: swap_in_loop_Cons release_gpu_blocks_def simp del: swap_in_loop.simps)
    next
      case (Some b)
      note al = allocate_gpu_Some [OF own a [unfolded Some]]
      have "ref_cnt (bp_heap (km_gpu m) b) = 0" and "b < total_blocks (km_gpu m)"
        using al(4) gpu_owned_ok [OF own] by (auto simp: pool_ok_def)
      with gpu_owned_fresh [OF own] have fresh: "b \<notin># table_refs (km_seq m)" "b \<notin> set (map snd ps)"
        by auto
      have sw: "km_swap m1 = km_swap m" using al(2) by (simp add: gpu_frame_def)
      have "\<exists>qs m'. swap_in_loop gs (ps @ [(c, b)]) m1 = (Inr qs, m') \<and> gpu_frame m' = gpu_frame m1 \<and>
          km_seq m' = km_seq m1 \<and>
          (qs = [] \<and> gpu_owned m' {#} \<or>
           length qs = length (ps @ [(c, b)]) + length gs \<and> gpu_owned m' (mset (map snd qs)) \<and>
           map (\<lambda>q. Some (fst q)) qs = map (\<lambda>q. Some (fst q)) (ps @ [(c, b)]) @ map (km_swap m1) gs)"
        by (rule Cons.IH) (use al fresh Cons.prems in auto)
      with a Some al \<open>km_swap m g = Some c\<close> sw show ?thesis
        by (fastforce simp: swap_in_loop_Cons simp del: swap_in_loop.simps)
    qed
  qed
qed


section \<open>The manager invariant\<close>

definition mgr_inv :: "kv_mgr \<Rightarrow> bool" where
  "mgr_inv m \<longleftrightarrow> gpu_owned m {#} \<and> cpu_owned m {#}"

lemma mgr_inv_init: "mgr_inv (kv_mgr_init g c bs)"
proof -
  have ok: "pool_inv (pool_init n)" "total_blocks (pool_init n) = n" for n
    using pool_reach_inv [OF reach_init] by auto
  have "ref_cnt (bp_heap (pool_init n) b) = 0" if "b < n" for n b
    using pool_init_ok [of n] ok(2) [of n] that by (auto simp: pool_ok_def)
  then show ?thesis
    by (auto simp: mgr_inv_def gpu_owned_def cpu_owned_def kv_mgr_init_def ok)
qed

lemma allocate_for_sequence_inv:
  assumes inv: "mgr_inv m" and new: "map_of (km_seq m) sid = None" and bs: "km_block_size m \<noteq> 0"
  shows "\<exists>r m'. allocate_blocks_for_sequence sid n m = (Inr r, m') \<and> mgr_inv m' \<and>
    gpu_frame m' = gpu_frame m \<and> AList.delete sid (km_seq m') = km_seq m \<and>
    (if r then get_block_table sid m' =
         take (nat (ceil_div n (km_block_size m))) (free_list (km_gpu m)) \<and>
         nat (ceil_div n (km_block_size m)) \<le> length (free_list (km_gpu m))
     else length (free_list (km_gpu m)) < nat (ceil_div n (km_block_size m)) \<and> km_seq m' = km_seq m)"
proof -
  let ?k = "nat (ceil_div n (km_block_size m))"
  from inv have own: "gpu_owned m (mset [] + {#})" and cpu: "cpu_owned m {#}"
    by (simp_all add: mgr_inv_def)
  from allocate_loop_owned [OF own, of ?k] obtain r m1
    where l: "allocate_loop ?k [] m = (Inr r, m1)" "gpu_frame m1 = gpu_frame m" "km_seq m1 = km_seq m"
      "case r of
         None \<Rightarrow> gpu_owned m1 {#} \<and> length (free_list (km_gpu m)) < ?k
       | Some bs' \<Rightarrow> gpu_owned m1 (mset bs' + {#}) \<and> length bs' = length ([] :: nat list) + ?k \<and>
           ?k \<le> length (free_list (km_gpu m)) \<and> bs' = [] @ take ?k (free_list (km_gpu m))"
    by blast
  have cpu1: "cpu_owned m1 {#}" using cpu gpu_frame_cpu [OF l(2)] by simp
  show ?thesis
  proof (cases r)
    case None
    with l cpu1 bs new show ?thesis
      by (intro exI [of _ False] exI [of _ m1])
        (simp add: allocate_blocks_for_sequence_def mgr_inv_def delete_absent map_of_eq_None_iff)
  next
    case (Some bl)
    have "gpu_owned m1 (mset bl + {#})"
      using l(4) unfolding Some option.case by (rule conjunct1)
    then have "gpu_owned (set_block_table sid bl m1) {#}"
      by (rule set_block_table_owned) (simp add: l(3) new)
    moreover have "cpu_owned (set_block_table sid bl m1) {#}"
      using cpu1 gpu_frame_cpu [OF seq_frame_simps(3)] by simp
    ultimately show ?thesis
      using l Some bs new
      by (intro exI [of _ True] exI [of _ "set_block_table sid bl m1"])
        (simp add: allocate_blocks_for_sequence_def mgr_inv_def set_block_table_def
          get_block_table_def seq_blocks_def seq_frame_simps delete_absent delete_update_same
          map_of_eq_None_iff)
  qed
qed

lemma append_token_block_inv:
  assumes inv: "mgr_inv m" and r: "append_token_block sid m = (r, m')"
  shows "mgr_inv m' \<and> gpu_frame m' = gpu_frame m \<and>
    AList.delete sid (km_seq m') = AList.delete sid (km_seq m) \<and>
    (if r then get_block_table sid m' = get_block_table sid m @ [hd (free_list (km_gpu m))] \<and>
       free_list (km_gpu m) \<noteq> [] else m' = m \<and> free_list (km_gpu m) = [])"
proof -
  obtain a m1 where a: "allocate_gpu_block m = (a, m1)" by fastforce
  from inv have own: "gpu_owned m {#}" and cpu: "cpu_owned m {#}" by (simp_all add: mgr_inv_def)
  show ?thesis
  proof (cases a)
    case None
    with allocate_gpu_None [OF own] a r inv show ?thesis by (simp add: append_token_block_def)
  next
    case (Some b)
    note al = allocate_gpu_Some [OF own a [unfolded Some]]
    let ?m = "m1\<lparr>km_seq := AList.delete sid (km_seq m1)\<rparr>"
    have seq: "seq_blocks m1 sid = seq_blocks m sid" by (simp add: seq_blocks_def al(3))
    have odk: "od_ok (km_seq m1)" using al(1) by (simp add: gpu_owned_def)
    have eq: "table_refs (AList.update sid (seq_blocks m sid @ [b]) (km_seq m1)) =
        table_refs (km_seq m1) + {#b#}"
    proof (cases "map_of (km_seq m1) sid")
      case None
      with seq show ?thesis by (simp add: table_refs_update_new seq_blocks_def)
    next
      case (Some w)
      from table_refs_update [OF odk Some, of "w @ [b]"]
      have "table_refs (AList.update sid (w @ [b]) (km_seq m1)) = table_refs (km_seq m1) + {#b#}"
        by simp
      with seq Some show ?thesis by (simp add: seq_blocks_def)
    qed
    have m': "m' = m1\<lparr>km_seq := AList.update sid (seq_blocks m sid @ [b]) (km_seq m1)\<rparr>" and "r"
      using r a Some seq by (auto simp: append_token_block_def)
    have "gpu_owned m' {#}" using al(1) by (simp add: gpu_owned_def m' eq)
    moreover have "cpu_owned m' {#}"
      using cpu gpu_frame_cpu [OF al(2)] cpu_owned_cong [of m' m1] by (simp add: m')
    ultimately show ?thesis
      using \<open>r\<close> al(2-4)
      by (simp add: mgr_inv_def m' get_block_table_def seq_blocks_def delete_update_same gpu_frame_def)
  qed
qed

lemma free_sequence_inv:
  assumes "mgr_inv m"
  shows "\<exists>m'. free_sequence sid m = (Inr (), m') \<and> mgr_inv m' \<and>
    km_seq m' = AList.delete sid (km_seq m) \<and> total_blocks (km_gpu m') = total_blocks (km_gpu m)"
proof -
  let ?m = "m\<lparr>km_seq := AList.delete sid (km_seq m)\<rparr>"
  from assms have own: "gpu_owned m {#}" and cpu: "cpu_owned m {#}" by (simp_all add: mgr_inv_def)
  from free_gpu_ids_owned [OF drop_table_owned [OF own]] obtain m1
    where m1: "for_each free_gpu_id (seq_blocks m sid) ?m = (Inr (), m1)" "gpu_owned m1 {#}"
      "gpu_frame m1 = gpu_frame ?m" "km_seq m1 = AList.delete sid (km_seq m)" by auto
  let ?m2 = "m1\<lparr>km_seq_swapped := (km_seq_swapped m1)(sid := None)\<rparr>"
  have "cpu_owned m1 {#}" using cpu gpu_frame_cpu [OF m1(3)] cpu_owned_cong [of ?m m] by simp
  then have "cpu_owned ?m2 {#}" using cpu_owned_cong [of ?m2 m1] by simp
  from for_each_cpu_owned [where f = free_swapped_id, OF free_swapped_owned this,
      where xs = "case km_seq_swapped m1 sid of None \<Rightarrow> [] | Some gs \<Rightarrow> gs"]
  obtain m3 where m3: "for_each free_swapped_id
        (case km_seq_swapped m1 sid of None \<Rightarrow> [] | Some gs \<Rightarrow> gs) ?m2 = (Inr (), m3)"
      "cpu_owned m3 {#}" "gpu_part m3 = gpu_part ?m2" by blast
  have "gpu_part m3 = gpu_part m1" using m3(3) by (simp add: gpu_part_def)
  with m1(2) have "gpu_owned m3 {#}" using gpu_part_owned by blast
  moreover have "km_seq m3 = AList.delete sid (km_seq m)"
    using m3(3) m1(4) by (simp add: gpu_part_def)
  moreover have "total_blocks (km_gpu m3) = total_blocks (km_gpu m)"
    using m3(3) m1(3) by (simp add: gpu_part_def gpu_frame_def)
  ultimately show ?thesis using m1(1) m3(1,2) by (simp add: free_sequence_def mgr_inv_def)
qed


lemma prepare_swap_out_inv:
  assumes "mgr_inv m"
  shows "\<exists>ps m'. prepare_swap_out sid m = (Inr ps, m') \<and> mgr_inv m' \<and> gpu_part m' = gpu_part m \<and>
    (ps = [] \<or> map fst ps = get_block_table sid m)"
proof (cases "seq_blocks m sid = []")
  case True
  with assms show ?thesis by (simp add: prepare_swap_out_def)
next
  case False
  from assms have cpu: "cpu_owned m (mset (map snd []) + {#})" by (simp add: mgr_inv_def)
  from swap_out_loop_owned [OF cpu, of "seq_blocks m sid"] obtain qs m'
    where q: "swap_out_loop (seq_blocks m sid) [] m = (Inr qs, m')" "gpu_part m' = gpu_part m"
      "qs = [] \<or> map fst qs = seq_blocks m sid" "cpu_owned m' {#}"
    by (auto dest: cpu_owned_drop)
  with False assms gpu_part_owned [of m' m] show ?thesis
    by (auto simp: prepare_swap_out_def mgr_inv_def get_block_table_def)
qed

lemma commit_out_pair_seq:
  "commit_out_pair x (m\<lparr>km_seq := d\<rparr>) = apsnd (\<lambda>m. m\<lparr>km_seq := d\<rparr>) (commit_out_pair x m)"
  by (cases m)
    (auto simp: commit_out_pair_def release_gpu_block_def Let_def split: option.splits prod.splits sum.splits)

lemma commit_swap_out_inv:
  assumes inv: "mgr_inv m" and ps: "ps \<noteq> []" "map fst ps = get_block_table sid m"
  shows "\<exists>m'. commit_swap_out sid ps m = (Inr (), m') \<and> mgr_inv m' \<and>
    km_seq m' = AList.delete sid (km_seq m) \<and> km_seq_swapped m' sid = Some (map fst ps)"
proof -
  let ?u = "\<lambda>m'. m'\<lparr>km_seq := AList.delete sid (km_seq m)\<rparr>"
  from inv have own: "gpu_owned m {#}" and cpu: "cpu_owned m {#}" by (simp_all add: mgr_inv_def)
  from drop_table_owned [OF own, of sid] ps(2)
  have "gpu_owned (?u m) (mset (map fst ps) + {#})" by (simp add: get_block_table_def)
  from commit_out_owned [OF this] obtain m1
    where m1: "for_each commit_out_pair ps (?u m) = (Inr (), m1)" "gpu_owned m1 {#}"
      "km_seq m1 = AList.delete sid (km_seq m)" "km_cpu m1 = km_cpu m" by auto
  have "for_each commit_out_pair ps (?u m) = apsnd ?u (for_each commit_out_pair ps m)"
    by (rule for_each_commute) (rule commit_out_pair_seq)
  with m1(1) obtain m0 where m0: "for_each commit_out_pair ps m = (Inr (), m0)" "m1 = ?u m0"
    by (cases "for_each commit_out_pair ps m") auto
  have fr: "(km_cpu_alloc (snd (for_each commit_out_pair qs s)), km_seq (snd (for_each commit_out_pair qs s))) =
      (km_cpu_alloc s, km_seq s)" for qs s
    by (rule for_each_frame)
      (auto simp: commit_out_pair_def release_gpu_block_def Let_def split: option.splits prod.splits sum.splits)
  let ?m' = "m0\<lparr>km_seq_swapped := (km_seq_swapped m0)(sid \<mapsto> map fst ps),
      km_seq := AList.delete sid (km_seq m0)\<rparr>"
  have seq: "km_seq m0 = km_seq m" "km_cpu_alloc m0 = km_cpu_alloc m" "km_cpu m0 = km_cpu m"
    using fr [of ps m] m0 m1(4) by simp_all
  have "commit_swap_out sid ps m = (Inr (), ?m')"
    using m0(1) ps(1) by (simp add: commit_swap_out_def)
  moreover have "gpu_owned ?m' {#}"
    using m1(2) m0(2) gpu_part_owned [of ?m' m1] by (simp add: gpu_part_def seq)
  moreover have "cpu_owned ?m' {#}" using cpu cpu_owned_cong [of ?m' m] by (simp add: seq)
  ultimately show ?thesis by (simp add: mgr_inv_def seq)
qed

lemma prepare_swap_in_inv:
  assumes "mgr_inv m"
  shows "\<exists>ps m'. prepare_swap_in sid gs m = (Inr ps, m') \<and> gpu_frame m' = gpu_frame m \<and>
    km_seq m' = km_seq m \<and> cpu_owned m' {#} \<and>
    (ps = [] \<and> mgr_inv m' \<or>
     length ps = length gs \<and> gpu_owned m' (mset (map snd ps)) \<and>
     map (\<lambda>q. Some (fst q)) ps = map (km_swap m) gs)"
proof -
  from assms have own: "gpu_owned m (mset (map snd []))" and cpu: "cpu_owned m {#}"
    by (simp_all add: mgr_inv_def)
  from swap_in_loop_owned [OF own, of gs] obtain ps m'
    where "swap_in_loop gs [] m = (Inr ps, m')" "gpu_frame m' = gpu_frame m" "km_seq m' = km_seq m"
      "ps = [] \<and> gpu_owned m' {#} \<or> length ps = length gs \<and> gpu_owned m' (mset (map snd ps)) \<and>
        map (\<lambda>q. Some (fst q)) ps = map (km_swap m) gs" by auto
  with cpu gpu_frame_cpu [of m' m "{#}"] show ?thesis
    by (auto simp: prepare_swap_in_def mgr_inv_def)
qed

lemma commit_swap_in_inv:
  assumes own: "gpu_owned m (mset (map snd ps))" and cpu: "cpu_owned m {#}"
    and len: "length ps = length gs" and new: "map_of (km_seq m) sid = None"
  shows "\<exists>m'. commit_swap_in sid gs ps m = (Inr (), m') \<and> mgr_inv m' \<and>
    get_block_table sid m' = map snd ps"
proof -
  from for_each_cpu_owned [where f = commit_in_pair, OF commit_in_owned cpu, where xs = "zip gs ps"]
  obtain m1 where m1: "for_each commit_in_pair (zip gs ps) m = (Inr (), m1)"
    "cpu_owned m1 {#}" "gpu_part m1 = gpu_part m" by blast
  let ?m2 = "m1\<lparr>km_seq_swapped := (km_seq_swapped m1)(sid := None)\<rparr>"
  let ?m' = "set_block_table sid (map snd ps) ?m2"
  have "gpu_owned ?m2 (mset (map snd ps) + {#})"
    using own gpu_part_owned [OF m1(3)] gpu_part_owned [of ?m2 m1] by (simp add: gpu_part_def)
  then have "gpu_owned ?m' {#}"
    by (rule set_block_table_owned) (use new m1(3) in \<open>simp add: gpu_part_def\<close>)
  moreover have "cpu_owned ?m' {#}"
    using m1(2) cpu_owned_cong [of ?m' m1] by (simp add: set_block_table_def)
  ultimately show ?thesis using m1(1) len
    by (simp add: commit_swap_in_def mgr_inv_def set_block_table_def get_block_table_def seq_blocks_def)
qed

lemma cache_gpu_block_inv:
  assumes "mgr_inv m" and "get_gpu_block i m = Some b"
  shows "mgr_inv (cache_gpu_block b h m)"
proof -
  from assms have own: "gpu_owned m {#}" by (simp add: mgr_inv_def)
  then have b: "b < total_blocks (km_gpu m)"
    using assms(2) by (auto simp: gpu_owned_def get_gpu_block_def split: if_splits)
  note f = cache_full_block_ok(1-4) [OF gpu_owned_ok [OF own] b, of h]
  from own have "gpu_owned (cache_gpu_block b h m) {#}"
    using pool_okI [OF f(1)] by (simp add: gpu_owned_def cache_gpu_block_def f(2,4))
  with assms(1) cpu_owned_cong [of "cache_gpu_block b h m" m] show ?thesis
    by (simp add: mgr_inv_def cache_gpu_block_def)
qed

section \<open>Runs of the manager\<close>

text \<open>
  The manager as its clients drive it: a block table is set for a sequence
  that has none, a swap is prepared and then committed with the pairs that
  were returned, and given up where no pairs came back. Only blocks the
  manager tracks are registered in the hash index. Allocating again for a
  sequence that has a table is no step: the code would overwrite the table and
  lose its blocks; the clients' identifiers are unique.
\<close>

inductive mgr_step :: "kv_mgr \<Rightarrow> kv_mgr \<Rightarrow> bool" where
  ms_allocate: "map_of (km_seq m) sid = None \<Longrightarrow>
     allocate_blocks_for_sequence sid n m = (r, m') \<Longrightarrow> mgr_step m m'"
| ms_append: "append_token_block sid m = (r', m') \<Longrightarrow> mgr_step m m'"
| ms_free: "free_sequence sid m = (u, m') \<Longrightarrow> mgr_step m m'"
| ms_swap_out: "prepare_swap_out sid m = (Inr ps, m1) \<Longrightarrow> ps \<noteq> [] \<Longrightarrow>
     commit_swap_out sid ps m1 = (u, m') \<Longrightarrow> mgr_step m m'"
| ms_swap_out_none: "prepare_swap_out sid m = (Inr [], m') \<Longrightarrow> mgr_step m m'"
| ms_swap_in: "map_of (km_seq m) sid = None \<Longrightarrow> prepare_swap_in sid gs m = (Inr ps, m1) \<Longrightarrow> ps \<noteq> [] \<Longrightarrow>
     commit_swap_in sid gs ps m1 = (u, m') \<Longrightarrow> mgr_step m m'"
| ms_swap_in_none: "prepare_swap_in sid gs m = (Inr [], m') \<Longrightarrow> mgr_step m m'"
| ms_cache: "get_gpu_block i m = Some b \<Longrightarrow> mgr_step m (cache_gpu_block b h m)"

inductive mgr_reach :: "nat \<Rightarrow> nat \<Rightarrow> int \<Rightarrow> kv_mgr \<Rightarrow> bool" for g c bs where
  mr_init: "mgr_reach g c bs (kv_mgr_init g c bs)"
| mr_step: "mgr_reach g c bs m \<Longrightarrow> mgr_step m m' \<Longrightarrow> mgr_reach g c bs m'"

lemma mgr_step_inv: "mgr_step m m' \<Longrightarrow> mgr_inv m \<Longrightarrow> mgr_inv m'"
proof (induction rule: mgr_step.induct)
  case (ms_allocate m sid n r m')
  then show ?case
    using allocate_for_sequence_inv [of m sid n]
    by (cases "km_block_size m = 0") (auto simp: allocate_blocks_for_sequence_def)
next
  case (ms_append sid m r' m')
  then show ?case using append_token_block_inv by blast
next
  case (ms_free sid m u m')
  then show ?case using free_sequence_inv [of m sid] by auto
next
  case (ms_swap_out sid m ps m1 u m')
  then have m1: "mgr_inv m1" "map fst ps = get_block_table sid m1"
    using prepare_swap_out_inv [of m sid]
    by (auto simp: gpu_part_def get_block_table_def seq_blocks_def)
  with ms_swap_out commit_swap_out_inv [OF m1(1) _ m1(2)] show ?case by auto
next
  case (ms_swap_out_none sid m m')
  then show ?case using prepare_swap_out_inv [of m sid] by auto
next
  case (ms_swap_in m sid gs ps m1 u m')
  then have "gpu_owned m1 (mset (map snd ps))" "cpu_owned m1 {#}" "length ps = length gs"
    "map_of (km_seq m1) sid = None"
    using prepare_swap_in_inv [of m sid gs] by auto
  from commit_swap_in_inv [OF this] ms_swap_in show ?case by auto
next
  case (ms_swap_in_none sid gs m m')
  then show ?case using prepare_swap_in_inv [of m sid gs] by (auto simp: mgr_inv_def)
next
  case (ms_cache i m b h)
  then show ?case by (blast intro: cache_gpu_block_inv)
qed

lemma mgr_reach_inv: "mgr_reach g c bs m \<Longrightarrow> mgr_inv m"
  by (induction rule: mgr_reach.induct) (auto intro: mgr_inv_init mgr_step_inv)


section \<open>Properties\<close>

text \<open>
  C5: in every state the manager can reach, the reference count of a GPU
  block equals the number of times it occurs in the block tables of the
  resident sequences, exactly the referenced blocks are tracked, and a CPU
  block is referenced at most once: blocks are neither leaked nor freed while
  a table still names them, whatever the order of allocation, growth, release,
  swapping and caching.
\<close>
theorem manager_reachable_ownership:
  assumes "mgr_reach g c bs m" and "b < total_blocks (km_gpu m)"
  shows "ref_cnt (bp_heap (km_gpu m) b) = int (count (table_refs (km_seq m)) b) \<and>
    (get_gpu_block b m = Some b \<longleftrightarrow> b \<in># table_refs (km_seq m)) \<and>
    cpu_owned m {#}"
proof -
  from mgr_reach_inv [OF assms(1)] have own: "gpu_owned m {#}" "cpu_owned m {#}"
    by (simp_all add: mgr_inv_def)
  with assms(2) have "ref_cnt (bp_heap (km_gpu m) b) = int (count (table_refs (km_seq m)) b)"
    "km_gpu_alloc m b = (if 0 < ref_cnt (bp_heap (km_gpu m) b) then Some b else None)"
    by (simp_all add: gpu_owned_def)
  with own(2) show ?thesis by (simp add: get_gpu_block_def count_greater_zero_iff [symmetric]
        del: count_greater_zero_iff)
qed

theorem manager_reachable_ownership_witness:
  "let m = snd (allocate_blocks_for_sequence ''a'' 20 (kv_mgr_init 3 1 16)) in
     ref_cnt (bp_heap (km_gpu m) 1) = int (count (table_refs (km_seq m)) 1)"
proof -
  let ?m0 = "kv_mgr_init 3 1 16"
  obtain r m where m: "allocate_blocks_for_sequence ''a'' 20 ?m0 = (r, m)" by fastforce
  have st: "mgr_step ?m0 m" by (rule ms_allocate [OF _ m]) (simp add: kv_mgr_init_def)
  have "total_blocks (km_gpu ?m0) = 3"
    using pool_reach_inv [OF reach_init] by (simp add: kv_mgr_init_def)
  moreover have "gpu_frame m = gpu_frame ?m0"
    using allocate_for_sequence_inv [OF mgr_inv_init [of 3 1 16], of "''a''" 20] m
    by (auto simp: kv_mgr_init_def)
  ultimately have "total_blocks (km_gpu m) = 3" by (simp add: gpu_frame_def)
  with manager_reachable_ownership [OF mr_step [OF mr_init st], of 1] m show ?thesis
    by (simp add: Let_def)
qed

text \<open>
  Allocation for a new sequence never raises; it succeeds exactly when
  enough blocks are free, and then the table of the sequence is the
  \<open>ceil(num_tokens / block_size)\<close> blocks that have been free for longest; on
  failure no table changes and every block taken is given back.
\<close>
theorem allocate_blocks_for_sequence_spec:
  assumes "mgr_inv m" and "map_of (km_seq m) sid = None" and "0 < km_block_size m"
  shows "\<exists>ok m'. allocate_blocks_for_sequence sid n m = (Inr ok, m') \<and> mgr_inv m' \<and>
    (ok \<longleftrightarrow> ceil_div n (km_block_size m) \<le> num_free_gpu_blocks m) \<and>
    (if ok then get_block_table sid m' =
        take (nat (ceil_div n (km_block_size m))) (free_list (km_gpu m))
     else km_seq m' = km_seq m)"
proof -
  have "num_free_gpu_blocks m = int (length (free_list (km_gpu m)))"
    using assms(1) fq.rep_len
    by (simp add: mgr_inv_def gpu_owned_def pool_inv_def pool_ok_def num_free_gpu_blocks_def
        num_free_blocks_def)
  with allocate_for_sequence_inv [OF assms(1,2), of n] assms(3) show ?thesis
    by (auto simp: nat_le_iff split: if_splits)
qed

theorem allocate_blocks_for_sequence_spec_witness:
  "\<exists>ok m'. allocate_blocks_for_sequence ''a'' 20 (kv_mgr_init 3 1 16) = (Inr ok, m') \<and> mgr_inv m'"
  using allocate_blocks_for_sequence_spec [of "kv_mgr_init 3 1 16" "''a''" 20] mgr_inv_init [of 3 1 16]
  by (auto simp: kv_mgr_init_def)

text \<open>Which blocks the two halves of a swap take and give back.\<close>

lemma allocate_cpu_Some:
  assumes "cpu_owned m E" and "free_list (km_cpu m) = c # xs"
  shows "\<exists>m'. allocate_cpu_block m = (Some c, m') \<and> free_list (km_cpu m') = xs"
proof -
  have ok: "pool_ok (km_cpu m) (c # xs)" using cpu_owned_ok [OF assms(1)] assms(2) by simp
  obtain p where p: "allocate_block (km_cpu m) = (Some c, p)"
    using allocate_block_facts(1) [OF ok] by (cases "allocate_block (km_cpu m)") auto
  with pool_okI [OF allocate_block_facts(2) [OF ok]] show ?thesis by (simp add: allocate_cpu_block_def)
qed

lemma swap_out_loop_takes:
  assumes "cpu_owned m (mset (map snd ps) + E)"
  shows "if length gs \<le> length (free_list (km_cpu m))
    then \<exists>m'. swap_out_loop gs ps m = (Inr (ps @ zip gs (free_list (km_cpu m))), m') \<and>
      free_list (km_cpu m') = drop (length gs) (free_list (km_cpu m))
    else fst (swap_out_loop gs ps m) = Inr []"
  using assms
proof (induction gs arbitrary: ps m)
  case Nil
  then show ?case by simp
next
  case (Cons g gs)
  show ?case
  proof (cases "free_list (km_cpu m)")
    case Nil
    with cpu_owned_ok [OF Cons.prems] have "allocate_cpu_block m = (None, m)"
      by (simp add: allocate_cpu_block_def allocate_block_empty)
    with cpu.release_all [OF Cons.prems] Nil show ?thesis
      by (auto simp: swap_out_loop_Cons simp del: swap_out_loop.simps)
  next
    case (Cons c xs)
    from allocate_cpu_Some [OF Cons.prems Cons] obtain m1 where m1: "allocate_cpu_block m = (Some c, m1)" "free_list (km_cpu m1) = xs"
      by blast
    have "cpu_owned m1 (mset (map snd (ps @ [(g, c)])) + E)" using allocate_cpu_owned [OF Cons.prems m1(1)] by simp
    from Cons.IH [OF this] m1 Cons show ?thesis
      by (auto simp: swap_out_loop_Cons simp del: swap_out_loop.simps split: if_splits)
  qed
qed

lemma swap_in_loop_takes:
  assumes "gpu_owned m (mset (map snd ps))" and "\<forall>g \<in> set gs. km_swap m g \<noteq> None"
  shows "if length gs \<le> length (free_list (km_gpu m))
    then \<exists>m'. swap_in_loop gs ps m = (Inr (ps @ zip (map (\<lambda>g. the (km_swap m g)) gs) (free_list (km_gpu m))), m')
    else fst (swap_in_loop gs ps m) = Inr []"
  using assms
proof (induction gs arbitrary: ps m)
  case Nil
  then show ?case by simp
next
  case (Cons g gs)
  obtain c where c: "km_swap m g = Some c" using Cons.prems(2) by auto
  obtain r m1 where a: "allocate_gpu_block m = (r, m1)" by fastforce
  show ?case
  proof (cases r)
    case None
    with a allocate_gpu_None [OF Cons.prems(1)] gpu.release_all [of m "map snd ps" "{#}"] Cons.prems(1) c
    show ?thesis by (auto simp: swap_in_loop_Cons release_gpu_blocks_def simp del: swap_in_loop.simps)
  next
    case (Some b)
    note al = allocate_gpu_Some [OF Cons.prems(1) a [unfolded Some]]
    have sw: "km_swap m1 = km_swap m" using al(2) by (simp add: gpu_frame_def)
    have "gpu_owned m1 (mset (map snd (ps @ [(c, b)])))" using al(1) by simp
    from Cons.IH [OF this] Cons.prems(2) a Some al(4) c sw show ?thesis
      by (auto simp: swap_in_loop_Cons simp del: swap_in_loop.simps split: if_splits)
  qed
qed

lemma commit_in_frees:
  assumes "cpu_owned m (mset (map (\<lambda>q. fst (snd q)) qs))"
  shows "\<exists>m'. for_each commit_in_pair qs m = (Inr (), m') \<and>
    free_list (km_cpu m') = free_list (km_cpu m) @ map (\<lambda>q. fst (snd q)) qs"
  using assms
proof (induction qs arbitrary: m)
  case Nil
  then show ?case by simp
next
  case (Cons q qs)
  obtain g c n where q: "q = (g, c, n)" by (cases q)
  obtain r p where p: "free_block c (km_cpu m) = (r, p)" by fastforce
  have own: "cpu_owned m (add_mset c (mset (map (\<lambda>q. fst (snd q)) qs)))" using Cons.prems q by simp
  have c: "km_cpu_alloc m c = Some c" "c < total_blocks (km_cpu m)" "0 < ref_cnt (bp_heap (km_cpu m) c)"
    "ref_cnt (bp_heap (km_cpu m) c) = 1"
    using cpu_owned_tracked [OF own, of c] by auto
  let ?m = "m\<lparr>km_cpu_alloc := (km_cpu_alloc m)(c := None), km_cpu := p, km_swap := (km_swap m)(g := None)\<rparr>"
  have f: "r = Inr ()" "cpu_owned ?m (mset (map (\<lambda>q. fst (snd q)) qs))"
    using free_cpu_owned [OF own c(1) p, of ?m] by simp_all
  have "free_list p = free_list (km_cpu m) @ [c]"
    using pool_okI [OF free_block_facts(2) [OF cpu_owned_ok [OF own] c(2,3)]] p c(4) by simp
  moreover have "commit_in_pair q m = (Inr (), ?m)" using f(1) p c(1) by (simp add: commit_in_pair_def q Let_def)
  ultimately show ?case using Cons.IH [OF f(2)] q by auto
qed

lemma commit_out_swap:
  assumes "distinct (map fst ps)" and "for_each commit_out_pair ps m = (Inr u, m')"
  shows "\<forall>p \<in> set ps. km_swap m' (fst p) = Some (snd p)" and "\<forall>g. g \<notin> fst ` set ps \<longrightarrow> km_swap m' g = km_swap m g"
  using assms
proof (induction ps arbitrary: m)
  case (Cons p ps)
  { case 1
    then obtain u1 m1 where m1: "commit_out_pair p m = (Inr u1, m1)" "for_each commit_out_pair ps m1 = (Inr u, m')"
      by (auto split: prod.splits sum.splits)
    then have "km_swap m1 = (km_swap m)(fst p \<mapsto> snd p)"
      by (auto simp: commit_out_pair_def release_gpu_block_def Let_def split: option.splits prod.splits sum.splits)
    with Cons.IH [OF _ m1(2)] 1 show ?case by auto }
  { case 2
    then obtain u1 m1 where m1: "commit_out_pair p m = (Inr u1, m1)" "for_each commit_out_pair ps m1 = (Inr u, m')"
      by (auto split: prod.splits sum.splits)
    then have "km_swap m1 = (km_swap m)(fst p \<mapsto> snd p)"
      by (auto simp: commit_out_pair_def release_gpu_block_def Let_def split: option.splits prod.splits sum.splits)
    with Cons.IH [OF _ m1(2)] 2 show ?case by auto }
qed simp_all

lemma commit_swap_out_cpu:
  assumes "commit_swap_out sid ps m = (Inr (), m')"
  shows "km_cpu m' = km_cpu m \<and> km_cpu_alloc m' = km_cpu_alloc m \<and>
    (distinct (map fst ps) \<longrightarrow> (\<forall>p \<in> set ps. km_swap m' (fst p) = Some (snd p)))"
proof -
  have fr: "(km_cpu (snd (for_each commit_out_pair ps m)), km_cpu_alloc (snd (for_each commit_out_pair ps m))) =
      (km_cpu m, km_cpu_alloc m)"
    by (rule for_each_frame)
      (auto simp: commit_out_pair_def release_gpu_block_def Let_def split: option.splits prod.splits sum.splits)
  from assms obtain m0 where m0: "for_each commit_out_pair ps m = (Inr (), m0)"
    by (auto simp: commit_swap_out_def split: prod.splits sum.splits)
  then have "km_swap m' = km_swap m0" "km_cpu m' = km_cpu m0" "km_cpu_alloc m' = km_cpu_alloc m0"
    using assms by (auto simp: commit_swap_out_def Let_def split: if_splits)
  with m0 fr commit_out_swap(1) [OF _ m0] show ?thesis by simp
qed

lemma swap_in_half:
  assumes "mgr_inv m" and "cpu_owned m (mset cs)" and "map_of (km_seq m) sid = None" and "gs \<noteq> []"
    and "map (km_swap m) gs = map Some cs"
  shows "\<exists>qs m1. prepare_swap_in sid gs m = (Inr qs, m1) \<and>
    (qs \<noteq> [] \<longleftrightarrow> length gs \<le> length (free_list (km_gpu m))) \<and> (qs = [] \<longrightarrow> mgr_inv m1) \<and>
    (qs \<noteq> [] \<longrightarrow> map fst qs = cs \<and> (\<exists>m2. commit_swap_in sid gs qs m1 = (Inr (), m2) \<and> mgr_inv m2 \<and>
       get_block_table sid m2 = map snd qs \<and> free_list (km_cpu m2) = free_list (km_cpu m) @ cs))"
proof -
  have len: "length cs = length gs" using arg_cong [OF assms(5), of length] by simp
  have sw: "map (\<lambda>g. the (km_swap m g)) gs = cs" using arg_cong [OF assms(5), of "map the"] by (simp add: comp_def)
  have "km_swap m g \<noteq> None" if "g \<in> set gs" for g
    using that arg_cong [OF assms(5), of set] by (metis (no_types) imageI image_iff list.set_map option.distinct(1))
  then have some: "\<forall>g \<in> set gs. km_swap m g \<noteq> None" by blast
  have own: "gpu_owned m (mset (map snd []))" using assms(1) by (simp add: mgr_inv_def)
  from prepare_swap_in_inv [OF assms(1), of sid gs] obtain qs m1 where
    m1: "prepare_swap_in sid gs m = (Inr qs, m1)" "gpu_frame m1 = gpu_frame m" "km_seq m1 = km_seq m"
      "qs = [] \<and> mgr_inv m1 \<or> length qs = length gs \<and> gpu_owned m1 (mset (map snd qs))" by blast
  have tk: "if length gs \<le> length (free_list (km_gpu m)) then qs = zip cs (free_list (km_gpu m)) else qs = []"
    using swap_in_loop_takes [OF own some] m1(1) by (auto simp: prepare_swap_in_def sw split: if_splits)
  have iff: "qs \<noteq> [] \<longleftrightarrow> length gs \<le> length (free_list (km_gpu m))"
    using tk len assms(4) by (cases "free_list (km_gpu m)"; cases cs) (auto split: if_splits)
  have "map fst qs = cs \<and> (\<exists>m2. commit_swap_in sid gs qs m1 = (Inr (), m2) \<and> mgr_inv m2 \<and>
      get_block_table sid m2 = map snd qs \<and> free_list (km_cpu m2) = free_list (km_cpu m) @ cs)" if "qs \<noteq> []"
  proof -
    have lq: "length qs = length gs" using m1(4) that by auto
    have fq: "map fst qs = cs" using tk iff that len by (simp add: map_fst_zip_take)
    have cz: "map (\<lambda>q. fst (snd q)) (zip gs qs) = cs"
      using fq lq by (metis (no_types, lifting) comp_apply list.map_comp map_cong map_snd_zip)
    have own1: "cpu_owned m1 (mset (map (\<lambda>q. fst (snd q)) (zip gs qs)))" using assms(2) gpu_frame_cpu [OF m1(2)] by (simp only: cz)
    from commit_swap_in_inv [of m1 qs gs sid] m1 that lq assms(3) cpu_owned_drop [OF own1]
    obtain m2 where m2: "commit_swap_in sid gs qs m1 = (Inr (), m2)" "mgr_inv m2" "get_block_table sid m2 = map snd qs" by auto
    have "free_list (km_cpu m2) = free_list (km_cpu m1) @ cs"
      using commit_in_frees [OF own1] m2(1) cz by (auto simp: commit_swap_in_def)
    with m1(2) m2 fq show ?thesis by (auto simp: gpu_frame_def)
  qed
  with m1(1,4) iff assms(4) show ?thesis by auto
qed

text \<open>
  C26: Swapping out and in again. For a sequence whose blocks are distinct, preparing the
  swap-out succeeds exactly when the CPU pool has room for all of them, and
  pairs every block with a CPU block of its own; committing it empties the
  table. Preparing the swap-in next succeeds exactly when the GPU pool has
  room, reads every block from the CPU block it was copied to, in order, and
  committing it makes the new blocks the table of the sequence and gives all
  CPU blocks back. No step raises and the ownership invariant is kept.
\<close>

theorem swap_round_trip:
  assumes "mgr_inv m" and "get_block_table sid m \<noteq> []" and "distinct (get_block_table sid m)"
  shows "\<exists>ps m1. prepare_swap_out sid m = (Inr ps, m1) \<and>
    (ps \<noteq> [] \<longleftrightarrow> length (get_block_table sid m) \<le> length (free_list (km_cpu m))) \<and>
    (ps \<noteq> [] \<longrightarrow> map fst ps = get_block_table sid m \<and> distinct (map snd ps) \<and>
      (\<exists>m2. commit_swap_out sid ps m1 = (Inr (), m2) \<and> mgr_inv m2 \<and>
        get_block_table sid m2 = [] \<and> km_seq_swapped m2 sid = Some (get_block_table sid m) \<and>
        (\<exists>qs m3. prepare_swap_in sid (get_block_table sid m) m2 = (Inr qs, m3) \<and>
          (qs \<noteq> [] \<longleftrightarrow> length (get_block_table sid m) \<le> length (free_list (km_gpu m2))) \<and> (qs = [] \<longrightarrow> mgr_inv m3) \<and>
          (qs \<noteq> [] \<longrightarrow> map fst qs = map snd ps \<and>
            (\<exists>m4. commit_swap_in sid (get_block_table sid m) qs m3 = (Inr (), m4) \<and> mgr_inv m4 \<and>
              get_block_table sid m4 = map snd qs \<and> mset (free_list (km_cpu m4)) = mset (free_list (km_cpu m)))))))"
proof -
  let ?t = "get_block_table sid m" and ?F = "free_list (km_cpu m)"
  from prepare_swap_out_inv [OF assms(1), of sid] obtain ps m1 where
    m1: "prepare_swap_out sid m = (Inr ps, m1)" "mgr_inv m1" "gpu_part m1 = gpu_part m" by blast
  have cpu: "cpu_owned m (mset (map snd []) + {#})" using assms(1) by (simp add: mgr_inv_def)
  have loop: "swap_out_loop ?t [] m = (Inr ps, m1)"
    using m1(1) assms(2) by (simp add: prepare_swap_out_def get_block_table_def)
  note takes = swap_out_loop_takes [OF cpu, of ?t, unfolded loop]
  have iff: "ps \<noteq> [] \<longleftrightarrow> length ?t \<le> length ?F" using takes assms(2) by (cases ?F) (auto split: if_splits)
  show ?thesis
  proof (cases "ps = []")
    case True
    then show ?thesis using m1(1) iff by blast
  next
    case False
    with iff have room: "length ?t \<le> length ?F" by simp
    with takes have ps: "ps = zip ?t ?F" "free_list (km_cpu m1) = drop (length ?t) ?F" by simp_all
    then have fs: "map fst ps = ?t" "map snd ps = take (length ?t) ?F" using room by (simp_all add: map_fst_zip_take map_snd_zip_take)
    have held: "cpu_owned m1 (mset (map snd ps))" using swap_out_loop_owned [OF cpu, of ?t] loop False by simp
    have "distinct ?F" using cpu_owned_ok [OF cpu] by (auto simp: pool_ok_def dest: fq.rep_distinct)
    then have ds: "distinct (map snd ps)" by (simp add: fs(2))
    have t1: "map fst ps = get_block_table sid m1" using fs(1) m1(3) by (simp add: gpu_part_def get_block_table_def seq_blocks_def)
    from commit_swap_out_inv [OF m1(2) False t1] obtain m2 where
      m2: "commit_swap_out sid ps m1 = (Inr (), m2)" "mgr_inv m2" "km_seq m2 = AList.delete sid (km_seq m1)"
        "km_seq_swapped m2 sid = Some ?t" using fs(1) by auto
    from commit_swap_out_cpu [OF m2(1)] fs(1) assms(3)
    have c2: "km_cpu m2 = km_cpu m1" "km_cpu_alloc m2 = km_cpu_alloc m1" "\<forall>p \<in> set ps. km_swap m2 (fst p) = Some (snd p)" by auto
    have none: "map_of (km_seq m2) sid = None" using m2(3) by simp
    have sw: "map (km_swap m2) ?t = map Some (map snd ps)" using c2(3) unfolding fs(1) [symmetric] by simp
    have held2: "cpu_owned m2 (mset (map snd ps))" using held cpu_owned_cong [OF c2(1,2)] by simp
    from swap_in_half [OF m2(2) held2 none assms(2) sw] obtain qs m3 where
      m3: "prepare_swap_in sid ?t m2 = (Inr qs, m3)" "qs \<noteq> [] \<longleftrightarrow> length ?t \<le> length (free_list (km_gpu m2))" "qs = [] \<longrightarrow> mgr_inv m3"
        "qs \<noteq> [] \<longrightarrow> map fst qs = map snd ps \<and> (\<exists>m4. commit_swap_in sid ?t qs m3 = (Inr (), m4) \<and> mgr_inv m4 \<and>
          get_block_table sid m4 = map snd qs \<and> free_list (km_cpu m4) = free_list (km_cpu m2) @ map snd ps)" by blast
    have "mset (free_list (km_cpu m2) @ map snd ps) = mset ?F"
      using c2(1) ps(2) fs(2) by (metis append_take_drop_id mset_append union_commute)
    with m3(4) have ret: "qs \<noteq> [] \<longrightarrow> map fst qs = map snd ps \<and> (\<exists>m4. commit_swap_in sid ?t qs m3 = (Inr (), m4) \<and> mgr_inv m4 \<and>
        get_block_table sid m4 = map snd qs \<and> mset (free_list (km_cpu m4)) = mset ?F)" by metis
    have "get_block_table sid m2 = []" using none by (simp add: get_block_table_def seq_blocks_def)
    with m1(1) iff fs(1) ds m2(1,2,4) m3(1-3) ret show ?thesis by blast
  qed
qed

theorem swap_round_trip_witness:
  "let m = snd (allocate_blocks_for_sequence ''a'' 16 (kv_mgr_init 1 1 16));
       m1 = snd (prepare_swap_out ''a'' m); m2 = snd (commit_swap_out ''a'' [(0, 0)] m1)
   in fst (prepare_swap_out ''a'' m) = Inr [(0, 0)] \<and> mgr_inv m2 \<and> get_block_table ''a'' m2 = [] \<and>
      fst (prepare_swap_in ''a'' [0] m2) = Inr [(0, 0)]"
proof -
  let ?m = "snd (allocate_blocks_for_sequence ''a'' 16 (kv_mgr_init 1 1 16))"
  let ?m2 = "snd (commit_swap_out ''a'' [(0, 0)] (snd (prepare_swap_out ''a'' ?m)))"
  have inv: "mgr_inv ?m"
    using allocate_for_sequence_inv [OF mgr_inv_init [of 1 1 16], of "''a''" 16]
    by (auto simp: kv_mgr_init_def)
  have t: "get_block_table ''a'' ?m = [0]" by code_simp
  have f: "fst (prepare_swap_out ''a'' ?m) = Inr [(0, 0)]" by code_simp
  have g: "fst (prepare_swap_in ''a'' [0] ?m2) = Inr [(0, 0)]" by code_simp
  from swap_round_trip [OF inv, of "''a''"] t f g show ?thesis by (auto simp: Let_def)
qed


text \<open>
  The swap map is keyed by GPU block alone, so it cannot tell two swapped
  sequences apart that used the same GPU block one after the other. In this
  run of a manager with one GPU and two CPU blocks, sequence a is swapped out
  to CPU block 0, sequence b reuses the GPU block and is swapped out to CPU
  block 1, and the swap-in prepared for a then reads CPU block 1, the data of
  b.
\<close>
theorem swap_map_confuses_sequences:
  "let run = (\<lambda>sid m. let m1 = snd (allocate_blocks_for_sequence sid 16 m);
                         (r, m2) = prepare_swap_out sid m1
                     in (r, snd (commit_swap_out sid (projr r) m2)));
       (out_a, m1) = run ''a'' (kv_mgr_init 1 2 16); (out_b, m2) = run ''b'' m1
   in out_a = Inr [(0, 0)] \<and> out_b = Inr [(0, 1)] \<and> km_seq_swapped m2 ''a'' = Some [0] \<and>
      fst (prepare_swap_in ''a'' [0] m2) = Inr [(1, 0)]"
  by code_simp

end
