(* ===== verification/Requests.thy ===== *)
theory Requests
  imports Complex_Main Prelude
begin

text \<open>
  \<^verbatim>\<open>src/moe_infinity/engine/types.py\<close> and \<^verbatim>\<open>src/moe_infinity/engine/request_manager.py\<close>:
  the life cycle of a request and the table of requests. Identifiers drawn by
  \<^verbatim>\<open>uuid4\<close> and the clock are arguments; floating point parameters are rationals,
  and no operation here computes with them. Each method holds the lock
  throughout, so it is one atomic step.
\<close>

section \<open>Requests\<close>

datatype seq_status = WAITING | RUNNING | SWAPPED | FINISHED_STOPPED | FINISHED_LENGTH

record sampling_params =
  temperature :: rat
  top_p :: rat
  top_k :: int
  max_tokens :: int
  stop_sequences :: "string list"

definition default_sampling :: sampling_params where
  "default_sampling = \<lparr>temperature = 1, top_p = 1, top_k = 0, max_tokens = 256, stop_sequences = []\<rparr>"

record request =
  request_id :: string
  prompt_token_ids :: "int list"
  sampling :: sampling_params
  status :: seq_status
  arrival_time :: rat

fun allowed_transitions :: "seq_status \<Rightarrow> seq_status list" where
  "allowed_transitions WAITING = [RUNNING, FINISHED_STOPPED]"
| "allowed_transitions RUNNING = [SWAPPED, FINISHED_STOPPED, FINISHED_LENGTH]"
| "allowed_transitions SWAPPED = [WAITING, FINISHED_STOPPED]"
| "allowed_transitions _ = []"

definition transition_to :: "seq_status \<Rightarrow> request \<Rightarrow> request result" where
  "transition_to new_status r =
     (if new_status \<notin> set (allowed_transitions (status r)) then Inl ValueError
      else Inr (r\<lparr>status := new_status\<rparr>))"

definition finished :: "seq_status \<Rightarrow> bool" where
  "finished st \<longleftrightarrow> st \<in> {FINISHED_STOPPED, FINISHED_LENGTH}"

section \<open>The request manager\<close>

type_synonym request_mgr = "(string, request) odict"

definition add_request ::
  "string \<Rightarrow> rat \<Rightarrow> int list \<Rightarrow> sampling_params option \<Rightarrow> string option \<Rightarrow> request_mgr \<Rightarrow>
   (request_mgr, string) outcome" where
  "add_request uuid now prompt params rid_opt m =
     (let rid = (case rid_opt of Some r \<Rightarrow> if r \<noteq> [] then r else uuid | None \<Rightarrow> uuid);
          req = \<lparr>request_id = rid, prompt_token_ids = prompt,
                 sampling = (case params of Some p \<Rightarrow> p | None \<Rightarrow> default_sampling),
                 status = WAITING, arrival_time = now\<rparr>
      in if od_mem rid m then (Inl ValueError, m) else (Inr rid, AList.update rid req m))"

definition get_request :: "string \<Rightarrow> request_mgr \<Rightarrow> request option" where
  "get_request rid m = map_of m rid"

definition transition_request :: "string \<Rightarrow> seq_status \<Rightarrow> request_mgr \<Rightarrow> (request_mgr, unit) outcome" where
  "transition_request rid new_status m =
     (case map_of m rid of
        None \<Rightarrow> (Inr (), m)
      | Some r \<Rightarrow>
          (case transition_to new_status r of
             Inl e \<Rightarrow> (Inl e, m)
           | Inr r1 \<Rightarrow> (Inr (), AList.update rid r1 m)))"

definition abort_request :: "string \<Rightarrow> request_mgr \<Rightarrow> request_mgr" where
  "abort_request rid m =
     (case map_of m rid of
        None \<Rightarrow> m
      | Some r \<Rightarrow>
          (case transition_to FINISHED_STOPPED r of
             Inl e \<Rightarrow> m
           | Inr r1 \<Rightarrow> AList.update rid r1 m))"

definition finish_request :: "string \<Rightarrow> seq_status \<Rightarrow> request_mgr \<Rightarrow> (request_mgr, unit) outcome" where
  "finish_request rid reason m =
     (if reason \<notin> {FINISHED_STOPPED, FINISHED_LENGTH} then (Inl ValueError, m)
      else case map_of m rid of
             None \<Rightarrow> (Inr (), m)
           | Some r \<Rightarrow>
               (case transition_to reason r of
                  Inl e \<Rightarrow> (Inl e, m)
                | Inr r1 \<Rightarrow> (Inr (), AList.update rid r1 m)))"

definition get_waiting_requests :: "request_mgr \<Rightarrow> request list" where
  "get_waiting_requests m = filter (\<lambda>r. status r = WAITING) (map snd m)"

definition get_running_requests :: "request_mgr \<Rightarrow> request list" where
  "get_running_requests m = filter (\<lambda>r. status r = RUNNING) (map snd m)"

definition get_swapped_requests :: "request_mgr \<Rightarrow> request list" where
  "get_swapped_requests m = filter (\<lambda>r. status r = SWAPPED) (map snd m)"

definition get_active_count :: "request_mgr \<Rightarrow> nat" where
  "get_active_count m = length (filter (\<lambda>r. status r \<in> {WAITING, RUNNING, SWAPPED}) (map snd m))"

definition remove_finished :: "request_mgr \<Rightarrow> nat \<times> request_mgr" where
  "remove_finished m =
     (let ids = map fst (filter (\<lambda>(rid, r). finished (status r)) m)
      in (length ids, fold AList.delete ids m))"

section \<open>Runs of the request manager\<close>

datatype rm_op =
    Add string rat "int list" "sampling_params option" "string option"
  | Transition string seq_status
  | Abort string
  | Finish string seq_status
  | Remove_finished

fun rm_step :: "rm_op \<Rightarrow> request_mgr \<Rightarrow> request_mgr" where
  "rm_step (Add uuid now prompt params rid_opt) m = snd (add_request uuid now prompt params rid_opt m)"
| "rm_step (Transition rid st) m = snd (transition_request rid st m)"
| "rm_step (Abort rid) m = abort_request rid m"
| "rm_step (Finish rid st) m = snd (finish_request rid st m)"
| "rm_step Remove_finished m = snd (remove_finished m)"

lemma remove_finished_filter:
  assumes "od_ok m"
  shows "snd (remove_finished m) = filter (\<lambda>(rid, r). \<not> finished (status r)) m"
proof -
  have del: "fold AList.delete ids m = filter (\<lambda>p. fst p \<notin> set ids) m" for ids and m :: request_mgr
    by (induction ids arbitrary: m) (auto simp: delete_eq_filter conj_commute intro!: filter_cong)
  have "fst p \<in> fst ` {x \<in> set m. case x of (rid, r) \<Rightarrow> finished (status r)} \<longleftrightarrow> finished (status (snd p))"
    if "p \<in> set m" for p
    using assms that by (force simp: distinct_map inj_on_def)
  then have "filter (\<lambda>p. fst p \<notin> fst ` {x \<in> set m. case x of (rid, r) \<Rightarrow> finished (status r)}) m =
      filter (\<lambda>(rid, r). \<not> finished (status r)) m"
    by (intro filter_cong refl) (simp add: case_prod_unfold)
  then show ?thesis by (simp add: remove_finished_def del)
qed

definition rm_inv :: "request_mgr \<Rightarrow> bool" where
  "rm_inv m \<longleftrightarrow> od_ok m \<and> (\<forall>rid r. map_of m rid = Some r \<longrightarrow> request_id r = rid)"

lemma rm_inv_update:
  "rm_inv m \<Longrightarrow> request_id r = rid \<Longrightarrow> rm_inv (AList.update rid r m)"
  by (auto simp: rm_inv_def)

lemma transition_to_id: "transition_to st r = Inr r' \<Longrightarrow> r' = r\<lparr>status := st\<rparr> \<and> st \<in> set (allowed_transitions (status r))"
  by (auto simp: transition_to_def split: if_splits)

lemma rm_step_inv: "rm_inv m \<Longrightarrow> rm_inv (rm_step x m)"
proof -
  assume inv: "rm_inv m"
  have id: "request_id r = rid" if "map_of m rid = Some r" for rid r
    using inv that by (auto simp: rm_inv_def)
  show ?thesis
  proof (cases x)
    case Remove_finished
    with inv remove_finished_filter [of m] show ?thesis
      by (auto simp: rm_inv_def distinct_map_filter dest!: map_of_SomeD)
  qed (use inv id in \<open>auto simp: add_request_def transition_request_def abort_request_def finish_request_def Let_def
        split: option.splits sum.splits dest!: transition_to_id intro!: rm_inv_update\<close>)
qed

text \<open>Statuses reachable from a status by allowed transitions.\<close>

definition status_path :: "seq_status \<Rightarrow> seq_status \<Rightarrow> bool" where
  "status_path = (\<lambda>s t. t \<in> set (allowed_transitions s))\<^sup>*\<^sup>*"

lemma status_path_refl [simp]: "status_path s s"
  by (simp add: status_path_def)

lemma status_path_step: "status_path s t \<Longrightarrow> u \<in> set (allowed_transitions t) \<Longrightarrow> status_path s u"
  by (simp add: status_path_def rtranclp.rtrancl_into_rtrancl)

lemma status_path_trans: "status_path s t \<Longrightarrow> status_path t u \<Longrightarrow> status_path s u"
  by (simp add: status_path_def)

lemma status_path_finished: "status_path s t \<Longrightarrow> finished s \<Longrightarrow> t = s"
  unfolding status_path_def
  by (induction rule: rtranclp_induct) (auto simp: finished_def)

lemma rm_step_request:
  assumes "map_of m rid = Some r" and "x \<noteq> Remove_finished"
  shows "\<exists>st. map_of (rm_step x m) rid = Some (r\<lparr>status := st\<rparr>) \<and> status_path (status r) st"
proof -
  have "map_of (rm_step x m) rid = Some r \<or>
      (\<exists>st \<in> set (allowed_transitions (status r)). map_of (rm_step x m) rid = Some (r\<lparr>status := st\<rparr>))"
    using assms
    by (cases x) (auto simp: add_request_def transition_request_def abort_request_def finish_request_def
        od_mem_def Let_def split: option.splits sum.splits dest!: transition_to_id)
  then show ?thesis
  proof
    assume "map_of (rm_step x m) rid = Some r"
    then show ?thesis by (intro exI [of _ "status r"]) simp
  qed (auto intro: status_path_step [OF status_path_refl])
qed

lemma rm_run_request:
  assumes "map_of m rid = Some r" and "Remove_finished \<notin> set xs"
  shows "\<exists>st. map_of (fold rm_step xs m) rid = Some (r\<lparr>status := st\<rparr>) \<and> status_path (status r) st"
  using assms
proof (induction xs arbitrary: m r)
  case Nil
  then show ?case by (auto intro!: exI [of _ "status r"])
next
  case (Cons x xs)
  then obtain st where st: "map_of (rm_step x m) rid = Some (r\<lparr>status := st\<rparr>)" "status_path (status r) st"
    using rm_step_request [of m rid r x] by auto
  from Cons.IH [OF st(1)] Cons.prems(2) st(2) show ?case
    by (auto intro: status_path_trans)
qed

lemma rm_run_inv: "rm_inv m \<Longrightarrow> rm_inv (fold rm_step xs m)"
  by (induction xs arbitrary: m) (auto simp: rm_step_inv)

section \<open>Properties\<close>

text \<open>
  From the moment a request is in the table, and as long as finished
  requests are not purged, no operation loses it or changes anything but its
  status; the status only moves along allowed transitions, so a finished
  request never changes again, whatever is aborted, finished or transitioned.
\<close>

theorem request_life_cycle:
  assumes "map_of m rid = Some r" and "Remove_finished \<notin> set xs"
  shows "\<exists>st. get_request rid (fold rm_step xs m) = Some (r\<lparr>status := st\<rparr>) \<and>
    status_path (status r) st \<and> (finished (status r) \<longrightarrow> st = status r)"
  using rm_run_request [OF assms] status_path_finished by (auto simp: get_request_def)

theorem request_life_cycle_witness:
  "\<exists>st. get_request ''a'' (fold rm_step [Abort ''a'', Transition ''a'' RUNNING]
      [(''a'', \<lparr>request_id = ''a'', prompt_token_ids = [1], sampling = default_sampling,
        status = WAITING, arrival_time = 0\<rparr>)]) =
    Some (\<lparr>request_id = ''a'', prompt_token_ids = [1], sampling = default_sampling,
        status = st, arrival_time = 0\<rparr>) \<and> st = FINISHED_STOPPED"
proof -
  let ?r = "\<lparr>request_id = ''a'', prompt_token_ids = [1], sampling = default_sampling,
        status = WAITING, arrival_time = 0\<rparr>"
  have "get_request ''a'' (fold rm_step [Abort ''a'', Transition ''a'' RUNNING] [(''a'', ?r)]) =
      Some (?r\<lparr>status := FINISHED_STOPPED\<rparr>)"
    by (simp add: get_request_def abort_request_def transition_request_def transition_to_def)
  with request_life_cycle [of "[(''a'', ?r)]" "''a''" ?r "[Abort ''a'', Transition ''a'' RUNNING]"]
  show ?thesis by simp
qed

text \<open>
  Purging finished requests removes exactly them, keeps the others in
  order, and reports their number: afterwards every remaining request counts
  as active, and before it the table held the active ones and the reported
  number of finished ones.
\<close>

theorem remove_finished_exact:
  assumes "m = fold rm_step xs []" and "remove_finished m = (n, m')"
  shows "m' = filter (\<lambda>(rid, r). \<not> finished (status r)) m \<and> get_active_count m' = length m' \<and>
    length m = get_active_count m + n \<and> get_active_count m = get_active_count m'"
proof -
  have "rm_inv m" unfolding assms(1) by (rule rm_run_inv) (simp add: rm_inv_def)
  then have m': "m' = filter (\<lambda>(rid, r). \<not> finished (status r)) m"
    using remove_finished_filter [of m] assms(2) by (simp add: rm_inv_def)
  have act: "st \<in> {WAITING, RUNNING, SWAPPED} \<longleftrightarrow> \<not> finished st" for st
    by (cases st) (auto simp: finished_def)
  have n: "n = length (filter (\<lambda>(rid, r). finished (status r)) m)"
    using assms(2) by (auto simp: remove_finished_def Let_def)
  have "get_active_count m = length m'"
    unfolding get_active_count_def act m' filter_map by (simp add: comp_def case_prod_unfold)
  moreover have "get_active_count m' = length m'"
    unfolding get_active_count_def act m' filter_map
    by (simp add: comp_def case_prod_unfold)
  moreover have "length m = length m' + n"
    using sum_length_filter_compl [of "\<lambda>(rid, r). finished (status r)" m]
    by (simp add: m' n case_prod_unfold)
  ultimately show ?thesis using m' by simp
qed

theorem remove_finished_exact_witness:
  "snd (remove_finished (fold rm_step [Add ''u'' 0 [1] None (Some ''a''), Add ''u'' 1 [2] None None, Abort ''a''] [])) =
   filter (\<lambda>(rid, r). \<not> finished (status r))
     (fold rm_step [Add ''u'' 0 [1] None (Some ''a''), Add ''u'' 1 [2] None None, Abort ''a''] [])"
  using remove_finished_exact [OF refl surjective_pairing] by blast

end
