(* ===== verification/Kv_Transfer.thy ===== *)
theory Kv_Transfer
  imports Complex_Main Prelude
begin

text \<open>
  \<^verbatim>\<open>src/moe_infinity/engine/transfer_types.py\<close>,
  \<^verbatim>\<open>src/moe_infinity/engine/unified_transfer_scheduler.py\<close> and
  \<^verbatim>\<open>src/moe_infinity/engine/kv_cache_offload_coordinator.py\<close>. The scheduler is a state
  machine: a client action or an action of the worker thread is one critical
  section of the code, so every interleaving of threads is a sequence of
  actions. Profiling contexts and the executor, whose only job the worker
  waits for, have no effect on the state. The heap of \<^verbatim>\<open>heapq\<close> is a list sorted
  by its key (priority value, sequence number).
\<close>

section \<open>Transfer types\<close>

datatype transfer_type = EXPERT_FETCH | EXPERT_EVICT | KV_SWAP_IN | KV_SWAP_OUT

datatype transfer_priority = URGENT | HIGH | NORMAL | LOW | BACKGROUND

fun priority_value :: "transfer_priority \<Rightarrow> nat" where
  "priority_value URGENT = 0"
| "priority_value HIGH = 5"
| "priority_value NORMAL = 10"
| "priority_value LOW = 15"
| "priority_value BACKGROUND = 19"

record transfer_request =
  transfer_id :: string
  transfer_type :: transfer_type
  priority :: transfer_priority
  source_device :: string
  target_device :: string
  tensor_id :: "string option"
  block_ids :: "nat list"

record transfer_result =
  tr_id :: string
  tr_status :: string
  tr_duration_ms :: rat

section \<open>The transfer scheduler\<close>

text \<open>
  An event object is named by the sequence number of the \<^verbatim>\<open>enqueue\<close> that created
  it; \<open>ts_set\<close> holds the events that were set. \<open>Popped\<close> and \<open>Active\<close> are the
  points of the worker loop after the request left the queue and after the
  check for cancellation.
\<close>

datatype worker = Idle | Popped transfer_request | Active transfer_request

record xfer =
  ts_queue :: "(nat \<times> nat \<times> transfer_request) list"
  ts_counter :: nat
  ts_pending :: "string \<rightharpoonup> nat"
  ts_set :: "nat list"
  ts_results :: "string \<rightharpoonup> transfer_result"
  ts_cancelled :: "string list"
  ts_count :: "transfer_type \<Rightarrow> nat"
  ts_bytes :: "transfer_type \<Rightarrow> nat"
  ts_expert_budget :: rat
  ts_kv_budget :: rat
  ts_handlers :: "transfer_type list"
  ts_running :: bool
  ts_worker :: worker

definition xfer_init :: "rat \<Rightarrow> rat \<Rightarrow> xfer" where
  "xfer_init expert_ratio kv_ratio =
     \<lparr>ts_queue = [], ts_counter = 0, ts_pending = Map.empty, ts_set = [], ts_results = Map.empty,
      ts_cancelled = [], ts_count = (\<lambda>_. 0), ts_bytes = (\<lambda>_. 0), ts_expert_budget = expert_ratio,
      ts_kv_budget = kv_ratio, ts_handlers = [], ts_running = True, ts_worker = Idle\<rparr>"

definition register_handler :: "transfer_type \<Rightarrow> xfer \<Rightarrow> xfer" where
  "register_handler t s = s\<lparr>ts_handlers := List.insert t (ts_handlers s)\<rparr>"

text \<open>The comparison of heap entries; sequence numbers are unique, so it never reaches the request.\<close>

definition entry_less :: "nat \<times> nat \<times> transfer_request \<Rightarrow> nat \<times> nat \<times> transfer_request \<Rightarrow> bool" where
  "entry_less x y \<longleftrightarrow> fst x < fst y \<or> fst x = fst y \<and> fst (snd x) < fst (snd y)"

fun heappush :: "nat \<times> nat \<times> transfer_request \<Rightarrow> (nat \<times> nat \<times> transfer_request) list \<Rightarrow>
    (nat \<times> nat \<times> transfer_request) list" where
  "heappush x [] = [x]"
| "heappush x (y # ys) =
     (if entry_less x y then x # y # ys
      else y # heappush x ys)"

definition enqueue :: "string \<Rightarrow> transfer_request \<Rightarrow> xfer \<Rightarrow> string \<times> xfer" where
  "enqueue uuid request s =
     (let tid = (if transfer_id request \<noteq> [] then transfer_id request else uuid);
          req = request\<lparr>transfer_id := tid\<rparr>;
          n = ts_counter s + 1
      in (tid, s\<lparr>ts_pending := (ts_pending s)(tid \<mapsto> n), ts_counter := n,
                 ts_queue := heappush (priority_value (priority req), n, req) (ts_queue s)\<rparr>))"

definition cancel :: "string \<Rightarrow> xfer \<Rightarrow> bool \<times> xfer" where
  "cancel tid s =
     (case ts_pending s tid of
        None \<Rightarrow> (False, s)
      | Some ev \<Rightarrow>
          (True, s\<lparr>ts_cancelled := List.insert tid (ts_cancelled s),
                   ts_pending := (ts_pending s)(tid := None),
                   ts_results := (ts_results s)(tid \<mapsto>
                     \<lparr>tr_id = tid, tr_status = ''CANCELLED'', tr_duration_ms = 0\<rparr>),
                   ts_set := ev # ts_set s\<rparr>))"

text \<open>
  \<^verbatim>\<open>wait\<close> answers at once when the transfer is not pending; otherwise it blocks on
  the event, and answers whether the event is set in the state in which it
  wakes up or times out.
\<close>

definition wait_begin :: "string \<Rightarrow> xfer \<Rightarrow> bool + nat" where
  "wait_begin tid s =
     (case ts_pending s tid of None \<Rightarrow> Inl (ts_results s tid \<noteq> None) | Some ev \<Rightarrow> Inr ev)"

definition wait_end :: "nat \<Rightarrow> xfer \<Rightarrow> bool" where
  "wait_end ev s \<longleftrightarrow> ev \<in> set (ts_set s)"

definition get_pending_count :: "xfer \<Rightarrow> transfer_type \<Rightarrow> nat" where
  "get_pending_count s t = length (filter (\<lambda>(p, n, req). transfer_type req = t) (ts_queue s))"

definition get_result :: "string \<Rightarrow> xfer \<Rightarrow> transfer_result option" where
  "get_result tid s = ts_results s tid"

definition set_bandwidth_budget :: "rat \<Rightarrow> rat \<Rightarrow> xfer \<Rightarrow> (xfer, unit) outcome" where
  "set_bandwidth_budget expert_ratio kv_ratio s =
     (if 0 \<le> expert_ratio + kv_ratio \<and> expert_ratio + kv_ratio \<le> 1
      then (Inr (), s\<lparr>ts_expert_budget := expert_ratio, ts_kv_budget := kv_ratio\<rparr>)
      else (Inl AssertionError, s))"

definition shutdown :: "xfer \<Rightarrow> xfer" where
  "shutdown s = s\<lparr>ts_running := False\<rparr>"

text \<open>The worker: \<open>ok\<close> tells whether the handler returned without an exception.\<close>

definition run_request :: "bool \<Rightarrow> rat \<Rightarrow> transfer_request \<Rightarrow> xfer \<Rightarrow> xfer" where
  "run_request ok duration req s =
     (let tid = transfer_id req; t = transfer_type req;
          st = (if t \<in> set (ts_handlers s) \<and> \<not> ok then ''FAILED'' else ''COMPLETED'')
      in s\<lparr>ts_results := (ts_results s)(tid \<mapsto>
             \<lparr>tr_id = tid, tr_status = st, tr_duration_ms = duration\<rparr>),
           ts_count := (ts_count s)(t := ts_count s t + 1),
           ts_bytes := (ts_bytes s)(t := ts_bytes s t + length (block_ids req)),
           ts_set := (case ts_pending s tid of Some ev \<Rightarrow> ev # ts_set s | None \<Rightarrow> ts_set s),
           ts_pending := (ts_pending s)(tid := None)\<rparr>)"

definition worker_step :: "bool \<Rightarrow> rat \<Rightarrow> xfer \<Rightarrow> xfer" where
  "worker_step ok duration s =
     (case ts_worker s of
        Idle \<Rightarrow>
          if ts_running s \<and> ts_queue s \<noteq> []
          then s\<lparr>ts_queue := tl (ts_queue s), ts_worker := Popped (snd (snd (hd (ts_queue s))))\<rparr>
          else s
      | Popped req \<Rightarrow>
          if transfer_id req \<in> set (ts_cancelled s)
          then s\<lparr>ts_cancelled := removeAll (transfer_id req) (ts_cancelled s), ts_worker := Idle\<rparr>
          else s\<lparr>ts_worker := Active req\<rparr>
      | Active req \<Rightarrow> (run_request ok duration req s)\<lparr>ts_worker := Idle\<rparr>)"

datatype ts_action =
    Enqueue string transfer_request
  | Cancel string
  | Worker bool rat
  | Register transfer_type
  | Shutdown

fun ts_step :: "ts_action \<Rightarrow> xfer \<Rightarrow> xfer" where
  "ts_step (Enqueue uuid req) s = snd (enqueue uuid req s)"
| "ts_step (Cancel tid) s = snd (cancel tid s)"
| "ts_step (Worker ok d) s = worker_step ok d s"
| "ts_step (Register t) s = register_handler t s"
| "ts_step Shutdown s = shutdown s"

section \<open>The KV cache offload coordinator\<close>

text \<open>
  The KV tensors are either a pair of caches or a single tensor, indexed by
  block; \<open>'d\<close> is the content of one block. Copies between devices keep the
  content. Indexing with a block that does not exist raises.
\<close>

datatype 'd kv_tensors = Pair_kv "'d list" "'d list" | Single_kv "'d list"

record 'd kv_coord =
  kc_tensors :: "'d kv_tensors option"
  kc_enabled :: bool
  kc_cpu_cache :: "(string, 'd kv_tensors) odict"

definition kv_coord_init :: "'d kv_tensors option \<Rightarrow> bool \<Rightarrow> 'd kv_coord" where
  "kv_coord_init tensors enabled = \<lparr>kc_tensors = tensors, kc_enabled = enabled, kc_cpu_cache = []\<rparr>"

definition set_kv_tensors :: "'d kv_tensors \<Rightarrow> 'd kv_coord \<Rightarrow> 'd kv_coord" where
  "set_kv_tensors t c = c\<lparr>kc_tensors := Some t\<rparr>"

definition register_with_scheduler :: "'d kv_coord \<Rightarrow> xfer \<Rightarrow> xfer" where
  "register_with_scheduler c s =
     (if \<not> kc_enabled c then s else register_handler KV_SWAP_IN (register_handler KV_SWAP_OUT s))"

definition gather :: "'d list \<Rightarrow> nat list \<Rightarrow> 'd list result" where
  "gather cache ids = (if \<forall>i \<in> set ids. i < length cache then Inr (map (nth cache) ids) else Inl IndexError)"

definition scatter :: "'d list \<Rightarrow> nat list \<Rightarrow> 'd list \<Rightarrow> 'd list result" where
  "scatter cache ids blocks =
     (let vals = broadcast (length ids) blocks
      in if \<forall>i \<in> set ids. i < length cache
         then if length vals = length ids
              then Inr (fold (\<lambda>(i, b) c. c[i := b]) (zip ids vals) cache) else Inl RuntimeError
         else Inl IndexError)"

definition handle_swap_out :: "transfer_request \<Rightarrow> 'd kv_coord \<Rightarrow> ('d kv_coord, unit) outcome" where
  "handle_swap_out req c =
     (case kc_tensors c of
        None \<Rightarrow> (Inr (), c)
      | Some (Pair_kv k v) \<Rightarrow>
          (case (gather k (block_ids req), gather v (block_ids req)) of
             (Inr kb, Inr vb) \<Rightarrow>
               (Inr (), c\<lparr>kc_cpu_cache := AList.update (transfer_id req) (Pair_kv kb vb) (kc_cpu_cache c)\<rparr>)
           | _ \<Rightarrow> (Inl IndexError, c))
      | Some (Single_kv t) \<Rightarrow>
          (case gather t (block_ids req) of
             Inr tb \<Rightarrow> (Inr (), c\<lparr>kc_cpu_cache := AList.update (transfer_id req) (Single_kv tb) (kc_cpu_cache c)\<rparr>)
           | Inl e \<Rightarrow> (Inl e, c)))"

definition handle_swap_in :: "transfer_request \<Rightarrow> 'd kv_coord \<Rightarrow> ('d kv_coord, unit) outcome" where
  "handle_swap_in req c =
     (case kc_tensors c of
        None \<Rightarrow> (Inr (), c)
      | Some t \<Rightarrow>
          (let c1 = c\<lparr>kc_cpu_cache := AList.delete (transfer_id req) (kc_cpu_cache c)\<rparr>
           in case map_of (kc_cpu_cache c) (transfer_id req) of
                None \<Rightarrow> (Inr (), c1)
              | Some (Pair_kv kb vb) \<Rightarrow>
                  (case t of
                     Single_kv _ \<Rightarrow> (Inr (), c1)
                   | Pair_kv k v \<Rightarrow>
                       (case scatter k (block_ids req) kb of
                          Inl e \<Rightarrow> (Inl e, c1)
                        | Inr k1 \<Rightarrow>
                            (case scatter v (block_ids req) vb of
                               Inl e \<Rightarrow> (Inl e, c1\<lparr>kc_tensors := Some (Pair_kv k1 v)\<rparr>)
                             | Inr v1 \<Rightarrow> (Inr (), c1\<lparr>kc_tensors := Some (Pair_kv k1 v1)\<rparr>))))
              | Some (Single_kv tb) \<Rightarrow>
                  (case t of
                     Pair_kv _ _ \<Rightarrow> (Inr (), c1)
                   | Single_kv tt \<Rightarrow>
                       (case scatter tt (block_ids req) tb of
                          Inl e \<Rightarrow> (Inl e, c1)
                        | Inr t1 \<Rightarrow> (Inr (), c1\<lparr>kc_tensors := Some (Single_kv t1)\<rparr>)))))"

text \<open>
  The requests the engine's scheduler builds for a sequence it swaps out, with
  the GPU blocks, and in again, with the CPU blocks
  (\<^verbatim>\<open>src/moe_infinity/engine/scheduler.py\<close>).
\<close>

definition swap_out_transfer :: "string \<Rightarrow> nat list \<Rightarrow> transfer_request" where
  "swap_out_transfer rid gpu_ids =
     \<lparr>transfer_id = ''swap_out_'' @ rid, transfer_type = KV_SWAP_OUT, priority = HIGH,
      source_device = ''cuda:0'', target_device = ''cpu'', tensor_id = None, block_ids = gpu_ids\<rparr>"

definition swap_in_transfer :: "string \<Rightarrow> nat list \<Rightarrow> transfer_request" where
  "swap_in_transfer rid cpu_ids =
     \<lparr>transfer_id = ''swap_in_'' @ rid, transfer_type = KV_SWAP_IN, priority = NORMAL,
      source_device = ''cpu'', target_device = ''cuda:0'', tensor_id = None, block_ids = cpu_ids\<rparr>"

section \<open>Order of the queue\<close>

definition queue_ok :: "xfer \<Rightarrow> bool" where
  "queue_ok s \<longleftrightarrow>
     sorted_wrt entry_less (ts_queue s) \<and>
     (\<forall>(p, n, req) \<in> set (ts_queue s). n \<le> ts_counter s \<and> p = priority_value (priority req))"

lemma set_heappush [simp]: "set (heappush x ys) = insert x (set ys)"
  by (induction ys) auto

lemma mset_heappush [simp]: "mset (heappush x ys) = add_mset x (mset ys)"
  by (induction ys) auto

lemma length_heappush [simp]: "length (heappush x ys) = Suc (length ys)"
  by (induction ys) auto

lemma sorted_heappush:
  "sorted_wrt entry_less ys \<Longrightarrow> (\<forall>y \<in> set ys. fst (snd y) < fst (snd x)) \<Longrightarrow>
   sorted_wrt entry_less (heappush x ys)"
proof (induction ys)
  case (Cons y ys)
  have tr: "entry_less a b \<Longrightarrow> entry_less b c \<Longrightarrow> entry_less a c" for a b c
    by (auto simp: entry_less_def)
  have "entry_less y x" if "\<not> entry_less x y"
    using that Cons.prems(2) by (auto simp: entry_less_def)
  with Cons show ?case by (auto intro: tr)
qed simp

lemma queue_ok_step: "queue_ok s \<Longrightarrow> queue_ok (ts_step a s)"
proof (cases a)
  case (Enqueue uuid req)
  assume "queue_ok s"
  with Enqueue show ?thesis
    by (auto simp: queue_ok_def enqueue_def Let_def intro!: sorted_heappush)
next
  case (Worker ok d)
  assume "queue_ok s"
  with Worker show ?thesis
    by (cases "ts_queue s")
      (auto simp: queue_ok_def worker_step_def run_request_def Let_def split: worker.splits)
qed (auto simp: queue_ok_def cancel_def register_handler_def shutdown_def split: option.splits)

lemma queue_ok_init: "queue_ok (xfer_init e k)"
  by (simp add: queue_ok_def xfer_init_def)

lemma queue_ok_run: "queue_ok s \<Longrightarrow> queue_ok (fold ts_step as s)"
  by (induction "as" arbitrary: s) (auto simp: queue_ok_step)

section \<open>Every pending transfer is served\<close>

definition worker_reqs :: "xfer \<Rightarrow> transfer_request list" where
  "worker_reqs s = (case ts_worker s of Idle \<Rightarrow> [] | Popped r \<Rightarrow> [r] | Active r \<Rightarrow> [r])"

text \<open>
  The identifiers an execution uses: an identifier is fresh when nothing in
  the state mentions it.
\<close>

definition in_flight :: "xfer \<Rightarrow> string set" where
  "in_flight s = transfer_id ` (set (worker_reqs s) \<union> (snd \<circ> snd) ` set (ts_queue s))"

definition serve_ok :: "xfer \<Rightarrow> bool" where
  "serve_ok s \<longleftrightarrow>
     (\<forall>tid ev. ts_pending s tid = Some ev \<longrightarrow>
        tid \<in> in_flight s \<and> tid \<notin> set (ts_cancelled s)) \<and>
     (\<forall>tid \<in> in_flight s. ts_pending s tid \<noteq> None \<or> ts_results s tid \<noteq> None) \<and>
     (\<forall>tid \<in> set (ts_cancelled s). ts_results s tid \<noteq> None)"

definition fresh_action :: "ts_action \<Rightarrow> xfer \<Rightarrow> bool" where
  "fresh_action a s =
     (case a of
        Enqueue uuid req \<Rightarrow>
          (let tid = (if transfer_id req \<noteq> [] then transfer_id req else uuid)
           in ts_results s tid = None \<and> ts_pending s tid = None)
      | _ \<Rightarrow> True)"

fun fresh_run :: "ts_action list \<Rightarrow> xfer \<Rightarrow> bool" where
  "fresh_run [] s = True"
| "fresh_run (a # as) s \<longleftrightarrow> fresh_action a s \<and> fresh_run as (ts_step a s)"

lemma serve_ok_step: "serve_ok s \<Longrightarrow> fresh_action a s \<Longrightarrow> serve_ok (ts_step a s)"
proof (cases a)
  case (Enqueue uuid req)
  assume "serve_ok s" "fresh_action a s"
  with Enqueue show ?thesis
    by (auto simp: serve_ok_def enqueue_def fresh_action_def in_flight_def worker_reqs_def Let_def
        split: worker.splits if_splits)
next
  case (Cancel tid)
  assume "serve_ok s"
  with Cancel show ?thesis
    by (auto simp: serve_ok_def cancel_def in_flight_def worker_reqs_def split: option.splits)
next
  case (Worker ok d)
  assume s: "serve_ok s"
  show ?thesis
  proof (cases "ts_worker s")
    case Idle
    with s Worker show ?thesis
      by (cases "ts_queue s") (auto simp: serve_ok_def worker_step_def in_flight_def worker_reqs_def)
  next
    case (Popped r)
    with s Worker show ?thesis
      by (auto simp: serve_ok_def worker_step_def in_flight_def worker_reqs_def)
  next
    case (Active r)
    with s Worker show ?thesis
      by (auto simp: serve_ok_def worker_step_def in_flight_def worker_reqs_def run_request_def Let_def)
  qed
qed (auto simp: serve_ok_def in_flight_def worker_reqs_def register_handler_def shutdown_def)

text \<open>What the worker still has to do.\<close>

definition work_left :: "xfer \<Rightarrow> nat" where
  "work_left s = 3 * length (ts_queue s) +
     (case ts_worker s of Idle \<Rightarrow> 0 | Popped _ \<Rightarrow> 2 | Active _ \<Rightarrow> 1)"

lemma work_left_step: "ts_running s \<Longrightarrow> work_left (worker_step ok d s) \<le> work_left s - 1 \<and>
    ts_running (worker_step ok d s)"
  by (cases "ts_queue s") (auto simp: work_left_def worker_step_def run_request_def Let_def split: worker.splits)

text \<open>
  Clients may go on cancelling and registering handlers while the worker
  runs; what is excluded is new work and the shutdown.
\<close>

definition closing :: "ts_action \<Rightarrow> bool" where
  "closing a = (case a of Enqueue _ _ \<Rightarrow> False | Shutdown \<Rightarrow> False | _ \<Rightarrow> True)"

definition is_worker :: "ts_action \<Rightarrow> bool" where
  "is_worker a = (case a of Worker _ _ \<Rightarrow> True | _ \<Rightarrow> False)"

lemma closing_step:
  assumes "closing a" and "serve_ok s" and "ts_running s"
  shows "serve_ok (ts_step a s)" and "ts_running (ts_step a s)"
    and "work_left (ts_step a s) \<le> work_left s - (if is_worker a then 1 else 0)"
proof -
  show "serve_ok (ts_step a s)"
    using assms by (intro serve_ok_step) (auto simp: fresh_action_def closing_def split: ts_action.splits)
  show "ts_running (ts_step a s)" "work_left (ts_step a s) \<le> work_left s - (if is_worker a then 1 else 0)"
    using assms work_left_step [of s]
    by (cases a; auto simp: closing_def is_worker_def cancel_def register_handler_def work_left_def
        split: option.splits)+
qed

lemma serve_ok_closing:
  "serve_ok s \<Longrightarrow> ts_running s \<Longrightarrow> list_all closing acts \<Longrightarrow> work_left s \<le> length (filter is_worker acts) \<Longrightarrow>
   serve_ok (fold ts_step acts s) \<and> work_left (fold ts_step acts s) = 0"
proof (induction acts arbitrary: s)
  case (Cons a acts)
  then have "closing a" by simp
  note st = closing_step [OF this Cons.prems(1,2)]
  have "work_left (ts_step a s) \<le> length (filter is_worker acts)"
    using st(3) Cons.prems(4) by (auto split: if_splits)
  from Cons.IH [OF st(1,2) _ this] Cons.prems(3) show ?case by simp
qed simp

lemma fresh_closing: "list_all closing acts \<Longrightarrow> fresh_run acts s"
  by (induction acts arbitrary: s) (auto simp: fresh_action_def closing_def split: ts_action.splits)

text \<open>The event a client waits for is the pending one or has been set.\<close>

lemma event_step:
  "fresh_action a s \<Longrightarrow> ts_pending s tid = Some ev \<or> ev \<in> set (ts_set s) \<Longrightarrow>
   ts_pending (ts_step a s) tid = Some ev \<or> ev \<in> set (ts_set (ts_step a s))"
  by (cases a) (auto simp: fresh_action_def enqueue_def cancel_def worker_step_def run_request_def
      register_handler_def shutdown_def Let_def split: option.splits worker.splits)

lemma event_run:
  "fresh_run acts s \<Longrightarrow> ts_pending s tid = Some ev \<or> ev \<in> set (ts_set s) \<Longrightarrow>
   ts_pending (fold ts_step acts s) tid = Some ev \<or> ev \<in> set (ts_set (fold ts_step acts s))"
proof (induction acts arbitrary: s)
  case (Cons a acts)
  then show ?case using Cons.IH [OF _ event_step [of a s tid ev]] by simp
qed simp

lemma serve_ok_done:
  assumes "serve_ok s" and "work_left s = 0"
  shows "ts_pending s = Map.empty"
proof -
  have "in_flight s = {}"
    using assms(2) by (auto simp: work_left_def in_flight_def worker_reqs_def split: worker.splits)
  with assms(1) show ?thesis by (auto simp: serve_ok_def fun_eq_iff)
qed

text \<open>Once a transfer has a result it keeps one.\<close>

lemma results_step: "ts_results s tid \<noteq> None \<Longrightarrow> ts_results (ts_step a s) tid \<noteq> None"
  by (cases a) (auto simp: enqueue_def cancel_def worker_step_def run_request_def register_handler_def
      shutdown_def Let_def split: option.splits worker.splits)

lemma known_step:
  "serve_ok s \<Longrightarrow> ts_pending s tid \<noteq> None \<or> ts_results s tid \<noteq> None \<Longrightarrow>
   ts_pending (ts_step a s) tid \<noteq> None \<or> ts_results (ts_step a s) tid \<noteq> None"
  by (cases a) (auto simp: enqueue_def cancel_def worker_step_def run_request_def register_handler_def
      shutdown_def Let_def split: option.splits worker.splits)

lemma serve_ok_init: "serve_ok (xfer_init e k)"
  by (simp add: serve_ok_def xfer_init_def in_flight_def worker_reqs_def)

lemma serve_ok_run: "serve_ok s \<Longrightarrow> fresh_run as s \<Longrightarrow> serve_ok (fold ts_step as s)"
  by (induction "as" arbitrary: s) (auto simp: serve_ok_step)

lemma known_run:
  "serve_ok s \<Longrightarrow> fresh_run as s \<Longrightarrow> ts_pending s tid \<noteq> None \<or> ts_results s tid \<noteq> None \<Longrightarrow>
   ts_pending (fold ts_step as s) tid \<noteq> None \<or> ts_results (fold ts_step as s) tid \<noteq> None"
proof (induction "as" arbitrary: s)
  case (Cons a as)
  then have "serve_ok (ts_step a s)" "fresh_run as (ts_step a s)" by (auto intro: serve_ok_step)
  from Cons.IH [OF this known_step [OF Cons.prems(1,3), of a]] show ?case by simp
qed simp

section \<open>Properties of the transfer scheduler\<close>



text \<open>
  C30: As long as no transfer identifier is used twice, no waiter blocks
  forever: let a client wait for a transfer that is pending in a state that
  some interleaving reaches, so that it blocks on the event of that transfer.
  However the worker's steps are interleaved with further cancellations and
  registrations, once the running worker has taken three steps per queued
  request and three for the one in hand the event is set, the transfer has a
  result and nothing is pending any more. Requests enqueued meanwhile and a
  shutdown are excluded: more urgent work can defer a transfer indefinitely,
  and the worker stops at a shutdown.
\<close>

theorem transfer_served:
  assumes "s = fold ts_step as (xfer_init e k)" and "fresh_run as (xfer_init e k)" and "ts_running s"
    and "ts_pending s tid = Some ev" and "list_all closing acts"
    and "3 * length (ts_queue s) + 3 \<le> length (filter is_worker acts)"
  shows "let s' = fold ts_step acts s
    in wait_begin tid s = Inr ev \<and> wait_end ev s' \<and> get_result tid s' \<noteq> None \<and>
       ts_pending s' = Map.empty \<and> wait_begin tid s' = Inl True"
proof -
  have ok: "serve_ok s" unfolding assms(1) by (rule serve_ok_run [OF serve_ok_init assms(2)])
  have "work_left s \<le> length (filter is_worker acts)"
    using assms(6) by (auto simp: work_left_def split: worker.splits)
  from serve_ok_closing [OF ok assms(3,5) this] serve_ok_done
  have p: "ts_pending (fold ts_step acts s) = Map.empty" by blast
  note f = fresh_closing [OF assms(5)]
  have "ev \<in> set (ts_set (fold ts_step acts s))" using event_run [OF f, of s tid ev] assms(4) p by simp
  moreover have "ts_results (fold ts_step acts s) tid \<noteq> None" using known_run [OF ok f, of tid] assms(4) p by simp
  ultimately show ?thesis using assms(4) p by (simp add: wait_begin_def wait_end_def get_result_def Let_def)
qed

theorem transfer_served_witness:
  "let r = \<lparr>transfer_id = ''a'', transfer_type = KV_SWAP_OUT, priority = LOW, source_device = ''cuda:0'',
            target_device = ''cpu'', tensor_id = None, block_ids = []\<rparr>;
       s = fold ts_step [Enqueue [] r] (xfer_init 0 0)
   in wait_begin ''a'' s = Inr 1 \<and> wait_end 1 (fold ts_step (Cancel ''b'' # replicate 6 (Worker True 0)) s)"
proof -
  define r where "r = \<lparr>transfer_id = ''a'', transfer_type = KV_SWAP_OUT, priority = LOW,
      source_device = ''cuda:0'', target_device = ''cpu'', tensor_id = None, block_ids = []\<rparr>"
  define s where "s = fold ts_step [Enqueue [] r] (xfer_init 0 0)"
  have e: "ts_running s" "ts_pending s ''a'' = Some 1" "length (ts_queue s) = 1"
    by (simp_all add: s_def enqueue_def xfer_init_def r_def Let_def)
  have "fresh_run [Enqueue [] r] (xfer_init 0 0)"
    by (simp add: fresh_action_def xfer_init_def Let_def)
  from transfer_served [OF s_def this e(1,2), of "Cancel ''b'' # replicate 6 (Worker True 0)"] e(3)
  have "wait_begin ''a'' s = Inr 1 \<and> wait_end 1 (fold ts_step (Cancel ''b'' # replicate 6 (Worker True 0)) s)"
    unfolding Let_def by (simp add: closing_def is_worker_def list_all_iff)
  then show ?thesis unfolding s_def r_def Let_def .
qed

text \<open>
  \<^verbatim>\<open>wait\<close> does not tell success from failure: it answers true for a transfer
  whose handler raised and for one that was cancelled, because it only tests
  that a result or a set event exists.
\<close>

theorem wait_true_on_failure:
  "let r = \<lparr>transfer_id = ''a'', transfer_type = KV_SWAP_IN, priority = NORMAL, source_device = ''cpu'',
            target_device = ''cuda:0'', tensor_id = None, block_ids = [0]\<rparr>;
       s0 = fold ts_step [Register KV_SWAP_IN, Enqueue [] r] (xfer_init 0 0);
       failed = fold ts_step [Worker True 0, Worker True 0, Worker False 1] s0;
       cancelled = fold ts_step [Cancel ''a''] s0
   in wait_begin ''a'' s0 = Inr 1 \<and>
      map_option tr_status (get_result ''a'' failed) = Some ''FAILED'' \<and> wait_end 1 failed \<and>
      wait_begin ''a'' failed = Inl True \<and>
      map_option tr_status (get_result ''a'' cancelled) = Some ''CANCELLED'' \<and> wait_end 1 cancelled"
  by (simp add: enqueue_def cancel_def worker_step_def run_request_def register_handler_def xfer_init_def
      wait_begin_def wait_end_def get_result_def Let_def)

text \<open>
  Cancelling a transfer that already runs leaves its identifier in
  \<^verbatim>\<open>_cancelled\<close>: the next transfer enqueued under the same identifier is dropped
  by the worker without a result of its own, and stays pending although the
  queue is empty and the worker idle, so whoever waits for it times out.
\<close>

theorem stale_cancel_drops_transfer:
  "let r = \<lparr>transfer_id = ''swap_out_x'', transfer_type = KV_SWAP_OUT, priority = HIGH,
            source_device = ''cuda:0'', target_device = ''cpu'', tensor_id = None, block_ids = [0]\<rparr>;
       s = fold ts_step [Enqueue [] r, Worker True 0, Worker True 0, Cancel ''swap_out_x'', Worker True 1,
                         Enqueue [] r, Worker True 0, Worker True 0] (xfer_init 0 0)
   in ts_queue s = [] \<and> ts_worker s = Idle \<and> wait_begin ''swap_out_x'' s = Inr 2 \<and>
      (\<forall>ws. \<not> wait_end 2 (fold (\<lambda>(ok, d). worker_step ok d) ws s))"
proof -
  define r where "r = \<lparr>transfer_id = ''swap_out_x'', transfer_type = KV_SWAP_OUT, priority = HIGH,
            source_device = ''cuda:0'', target_device = ''cpu'', tensor_id = None, block_ids = [0]\<rparr>"
  define s where "s = fold ts_step [Enqueue [] r, Worker True 0, Worker True 0, Cancel ''swap_out_x'', Worker True 1,
                         Enqueue [] r, Worker True 0, Worker True 0] (xfer_init 0 0)"
  have s: "ts_queue s = []" "ts_worker s = Idle" "wait_begin ''swap_out_x'' s = Inr 2" "\<not> wait_end 2 s"
    by (simp_all add: s_def enqueue_def cancel_def worker_step_def run_request_def xfer_init_def r_def
        wait_begin_def wait_end_def Let_def)
  then have stuck: "worker_step ok d s = s" for ok d by (simp add: worker_step_def)
  have "fold (\<lambda>(ok, d). worker_step ok d) ws s = s" for ws
    by (induction ws) (auto simp: stuck)
  with s show ?thesis unfolding r_def [symmetric] Let_def s_def [symmetric] by simp
qed

section \<open>Properties of the coordinator\<close>

lemma fold_update_nth:
  "distinct (map fst ps) \<Longrightarrow> (\<forall>p \<in> set ps. fst p < length c) \<Longrightarrow>
   fold (\<lambda>(i, b) c. c[i := b]) ps c ! j = (case map_of ps j of Some b \<Rightarrow> b | None \<Rightarrow> c ! j)"
  by (induction ps arbitrary: c) (auto simp: nth_list_update split: option.splits dest: map_of_SomeD intro: rev_image_eqI)

lemma scatter_gather:
  assumes "gather c0 ids = Inr bs" and "distinct ids'" and "length ids' = length ids"
    and "\<forall>i \<in> set ids'. i < length c"
  shows "\<exists>c'. scatter c ids' bs = Inr c' \<and> length c' = length c \<and>
    (\<forall>n < length ids. c' ! (ids' ! n) = c0 ! (ids ! n)) \<and> (\<forall>j. j \<notin> set ids' \<longrightarrow> c' ! j = c ! j)"
proof -
  have bs: "bs = map (nth c0) ids" using assms(1) by (auto simp: gather_def split: if_splits)
  let ?c' = "fold (\<lambda>(i, b) c. c[i := b]) (zip ids' bs) c"
  have len: "length (fold (\<lambda>(i, b) c. c[i := b]) ps c) = length c" for ps and c :: "'a list"
    by (induction ps arbitrary: c) auto
  have d: "distinct (map fst (zip ids' bs))" "\<forall>p \<in> set (zip ids' bs). fst p < length c"
    using assms bs by (auto dest: set_zip_leftD)
  have "?c' ! (ids' ! n) = c0 ! (ids ! n)" if "n < length ids" for n
  proof -
    have "(ids' ! n, bs ! n) \<in> set (zip ids' bs)"
      using that assms(3) bs by (auto simp: set_zip)
    then have "map_of (zip ids' bs) (ids' ! n) = Some (bs ! n)" using d(1) by (simp add: map_of_eq_Some_iff)
    with fold_update_nth [OF d, of "ids' ! n"] that bs show ?thesis by simp
  qed
  moreover have "?c' ! j = c ! j" if "j \<notin> set ids'" for j
  proof -
    have "map_of (zip ids' bs) j = None" using that by (auto simp: map_of_eq_None_iff dest: set_zip_leftD)
    with fold_update_nth [OF d, of j] show ?thesis by simp
  qed
  ultimately show ?thesis using assms(3,4) bs by (auto simp: scatter_def len broadcast_same Let_def)
qed

text \<open>
  Swapping blocks out and, under the same transfer identifier, in again
  puts their content into the target blocks and leaves every other block
  alone, whatever happened to the GPU cache in between; the CPU copy is gone
  afterwards.
\<close>

theorem coordinator_round_trip:
  assumes "kc_tensors c = Some (Single_kv t)" and "handle_swap_out out c = (Inr (), c1)"
    and "transfer_id inn = transfer_id out" and "distinct (block_ids inn)"
    and "length (block_ids inn) = length (block_ids out)" and "\<forall>i \<in> set (block_ids inn). i < length t'"
    and "c2 = c1\<lparr>kc_tensors := Some (Single_kv t')\<rparr>"
  shows "\<exists>c3 t''. handle_swap_in inn c2 = (Inr (), c3) \<and> kc_tensors c3 = Some (Single_kv t'') \<and>
    (\<forall>n < length (block_ids out). t'' ! (block_ids inn ! n) = t ! (block_ids out ! n)) \<and>
    (\<forall>j. j \<notin> set (block_ids inn) \<longrightarrow> t'' ! j = t' ! j) \<and>
    map_of (kc_cpu_cache c3) (transfer_id inn) = None"
proof -
  from assms(1,2) obtain bs where g: "gather t (block_ids out) = Inr bs"
    and c1: "c1 = c\<lparr>kc_cpu_cache := AList.update (transfer_id out) (Single_kv bs) (kc_cpu_cache c)\<rparr>"
    by (auto simp: handle_swap_out_def split: sum.splits)
  from scatter_gather [OF g assms(4,5,6)] obtain t'' where
    t'': "scatter t' (block_ids inn) bs = Inr t''"
      "\<forall>n < length (block_ids out). t'' ! (block_ids inn ! n) = t ! (block_ids out ! n)"
      "\<forall>j. j \<notin> set (block_ids inn) \<longrightarrow> t'' ! j = t' ! j" by blast
  then show ?thesis
    using assms(3) by (auto simp: assms(7) c1 handle_swap_in_def Let_def)
qed

theorem coordinator_round_trip_witness:
  "let req = \<lparr>transfer_id = ''x'', transfer_type = KV_SWAP_OUT, priority = HIGH, source_device = ''cuda:0'',
             target_device = ''cpu'', tensor_id = None, block_ids = [1]\<rparr>;
       c = kv_coord_init (Some (Single_kv [''a'', ''b''])) True
   in \<exists>c3 t''. handle_swap_in req ((snd (handle_swap_out req c))\<lparr>kc_tensors := Some (Single_kv [''z'', ''z''])\<rparr>)
        = (Inr (), c3) \<and> kc_tensors c3 = Some (Single_kv t'') \<and> t'' ! 1 = ''b''"
proof -
  define req where "req = \<lparr>transfer_id = ''x'', transfer_type = KV_SWAP_OUT, priority = HIGH,
      source_device = ''cuda:0'', target_device = ''cpu'', tensor_id = None, block_ids = [1::nat]\<rparr>"
  let ?c = "kv_coord_init (Some (Single_kv [''a'', ''b''])) True"
  have t: "kc_tensors ?c = Some (Single_kv [''a'', ''b''])" by (simp add: kv_coord_init_def)
  have h: "handle_swap_out req ?c = (Inr (), ?c\<lparr>kc_cpu_cache := [(''x'', Single_kv [''b''])]\<rparr>)"
    by (simp add: handle_swap_out_def req_def kv_coord_init_def gather_def)
  have b: "block_ids req = [1]" by (simp add: req_def)
  from coordinator_round_trip [OF t h refl, of "[''z'', ''z'']"]
  have "\<exists>c3 t''. handle_swap_in req ((snd (handle_swap_out req ?c))\<lparr>kc_tensors := Some (Single_kv [''z'', ''z''])\<rparr>)
        = (Inr (), c3) \<and> kc_tensors c3 = Some (Single_kv t'') \<and> t'' ! 1 = ''b''"
    by (auto simp: h b)
  then show ?thesis unfolding req_def [symmetric] Let_def .
qed

text \<open>The handler calls that the engine's swaps cause: a swap out or a swap in of a sequence.\<close>

datatype swap_event = Swap_out string "nat list" | Swap_in string "nat list"

fun swap_event_step :: "swap_event \<Rightarrow> 'd kv_coord \<Rightarrow> 'd kv_coord" where
  "swap_event_step (Swap_out rid ids) c = snd (handle_swap_out (swap_out_transfer rid ids) c)"
| "swap_event_step (Swap_in rid ids) c = snd (handle_swap_in (swap_in_transfer rid ids) c)"

definition no_in_keys :: "'d kv_coord \<Rightarrow> bool" where
  "no_in_keys c \<longleftrightarrow> (\<forall>rid. map_of (kc_cpu_cache c) (''swap_in_'' @ rid) = None)"

lemma swap_event_keys:
  assumes "no_in_keys c"
  shows "no_in_keys (swap_event_step e c) \<and> kc_tensors (swap_event_step e c) = kc_tensors c"
  using assms
  by (cases e) (auto simp: no_in_keys_def handle_swap_out_def swap_out_transfer_def handle_swap_in_def
      swap_in_transfer_def Let_def split: option.splits kv_tensors.splits sum.splits)

lemma swap_events_keys:
  "no_in_keys c \<Longrightarrow> no_in_keys (fold swap_event_step es c) \<and>
   kc_tensors (fold swap_event_step es c) = kc_tensors c"
  by (induction es arbitrary: c) (auto simp: swap_event_keys)

text \<open>
  The coordinator never restores a swapped sequence: the engine stores
  the blocks under \<^verbatim>\<open>swap_out_\<close> and asks for them under \<^verbatim>\<open>swap_in_\<close>, so whatever
  swaps it performs, in whatever order, the GPU tensors stay as they were.
\<close>

theorem swap_in_never_restores:
  "kc_tensors (fold swap_event_step es (kv_coord_init t enabled)) = t"
  using swap_events_keys [of "kv_coord_init t enabled" es]
  by (simp add: no_in_keys_def kv_coord_init_def)

end
