(* ===== verification/Engine_Scheduler.thy ===== *)
theory Engine_Scheduler
  imports KV_Manager Requests Kv_Transfer
begin

text \<open>
  \<^verbatim>\<open>src/moe_infinity/engine/scheduler.py\<close>: continuous batching. Requests wait, run or
  are swapped out; \<^verbatim>\<open>schedule\<close> admits waiting requests as long as KV blocks, the
  sequence limit and the token budget allow, preempts running ones to make
  room, swaps earlier victims in again and gives every running request a
  decode token. What the scheduler only calls is a parameter: the hash of a
  block of tokens, the score of the ContextPilot manager and, for the n-th
  transfer it starts, whether that transfer completes in time. Notifications
  to the ContextPilot manager, whose answers are ignored, are recorded in a log.
\<close>

section \<open>State\<close>

record sched_env =
  se_hash :: "int \<Rightarrow> int list \<Rightarrow> int"
  se_predict :: "(string \<Rightarrow> int list \<Rightarrow> rat result) option"
  se_transfer :: "(nat \<Rightarrow> bool) option"

datatype cp_event = Cp_allocated string "int list" | Cp_freed string "int list"

record sched =
  sc_kv :: kv_mgr
  sc_max_num_seqs :: int
  sc_max_tokens :: int
  sc_waiting :: "request list"
  sc_running :: "request list"
  sc_swapped :: "request list"
  sc_swapped_ids :: "string \<rightharpoonup> nat list"
  sc_reprefill :: "string list"
  sc_generated :: "string \<rightharpoonup> int"
  sc_cp_hashes :: "string \<rightharpoonup> int list"
  sc_transfers :: "transfer_request list"
  sc_cp_log :: "cp_event list"

record sched_out =
  so_scheduled :: "request list"
  so_preempted :: "request list"
  so_swapped_in :: "request list"
  so_tokens :: int

definition sched_init :: "kv_mgr \<Rightarrow> int \<Rightarrow> int \<Rightarrow> sched" where
  "sched_init kv max_num_seqs max_num_batched_tokens =
     \<lparr>sc_kv = kv, sc_max_num_seqs = max_num_seqs, sc_max_tokens = max_num_batched_tokens,
      sc_waiting = [], sc_running = [], sc_swapped = [], sc_swapped_ids = Map.empty, sc_reprefill = [],
      sc_generated = Map.empty, sc_cp_hashes = Map.empty, sc_transfers = [], sc_cp_log = []\<rparr>"

definition sched_add :: "request \<Rightarrow> sched \<Rightarrow> sched" where
  "sched_add request s = s\<lparr>sc_waiting := sc_waiting s @ [request]\<rparr>"

text \<open>An operation of the KV cache manager, run on the manager of the scheduler.\<close>

definition on_kv :: "(kv_mgr \<Rightarrow> (kv_mgr, 'a) outcome) \<Rightarrow> sched \<Rightarrow> (sched, 'a) outcome" where
  "on_kv f s = (case f (sc_kv s) of (r, m) \<Rightarrow> (r, s\<lparr>sc_kv := m\<rparr>))"

section \<open>Prefix caching\<close>

text \<open>The \<open>i\<close>-th block of a prompt and the number of full blocks.\<close>

definition token_slice :: "int \<Rightarrow> int list \<Rightarrow> nat \<Rightarrow> int list" where
  "token_slice bs prompt i = take (nat bs) (drop (i * nat bs) prompt)"

definition full_blocks :: "int \<Rightarrow> int list \<Rightarrow> nat" where
  "full_blocks bs prompt = nat (int (length prompt) div bs)"

fun match_prefix :: "(int \<Rightarrow> int list \<Rightarrow> int) \<Rightarrow> int \<Rightarrow> int list \<Rightarrow> nat list \<Rightarrow> int \<Rightarrow> kv_mgr \<Rightarrow>
    nat list \<times> kv_mgr" where
  "match_prefix h bs prompt [] parent m = ([], m)"
| "match_prefix h bs prompt (i # is) parent m =
     (let bh = h parent (token_slice bs prompt i)
      in case get_cached_gpu_block bh m of
           (None, m1) \<Rightarrow> ([], m1)
         | (Some b, m1) \<Rightarrow> apfst (Cons b) (match_prefix h bs prompt is bh m1))"

fun alloc_new :: "nat \<Rightarrow> nat list \<Rightarrow> nat list \<Rightarrow> kv_mgr \<Rightarrow> (kv_mgr, nat list option) outcome" where
  "alloc_new 0 cached_blocks new_blocks m = (Inr (Some new_blocks), m)"
| "alloc_new (Suc k) cached_blocks new_blocks m =
     (case allocate_gpu_block m of
        (None, m1) \<Rightarrow>
          andthen (release_gpu_blocks cached_blocks m1)
            (\<lambda>_ m2. andthen (release_gpu_blocks new_blocks m2) (\<lambda>_ m3. (Inr None, m3)))
      | (Some b, m1) \<Rightarrow> alloc_new k cached_blocks (new_blocks @ [b]) m1)"

fun chain_hashes :: "(int \<Rightarrow> int list \<Rightarrow> int) \<Rightarrow> int \<Rightarrow> int list \<Rightarrow> nat list \<Rightarrow> int \<Rightarrow> int list" where
  "chain_hashes h bs prompt [] parent = []"
| "chain_hashes h bs prompt (i # is) parent =
     (let bh = h parent (token_slice bs prompt i) in bh # chain_hashes h bs prompt is bh)"

definition compute_prompt_block_hashes :: "sched_env \<Rightarrow> int \<Rightarrow> int list \<Rightarrow> int list" where
  "compute_prompt_block_hashes env bs prompt =
     chain_hashes (se_hash env) bs prompt [0..<full_blocks bs prompt] 0"

definition allocate_with_prefix_cache :: "sched_env \<Rightarrow> request \<Rightarrow> sched \<Rightarrow> (sched, bool \<times> int) outcome" where
  "allocate_with_prefix_cache env req s =
     (let prompt = prompt_token_ids req; rid = request_id req; bs = km_block_size (sc_kv s)
      in if bs = 0 then (Inl ZeroDivisionError, s)
         else
           (let (cached, m1) = match_prefix (se_hash env) bs prompt [0..<full_blocks bs prompt] 0 (sc_kv s);
                num_cached = int (length cached) * bs;
                remaining = int (length prompt) - num_cached;
                needed = (if remaining > 0 then (remaining + bs - 1) div bs else 0)
            in case alloc_new (nat needed) cached [] m1 of
                 (Inl e, m2) \<Rightarrow> (Inl e, s\<lparr>sc_kv := m2\<rparr>)
               | (Inr None, m2) \<Rightarrow> (Inr (False, 0), s\<lparr>sc_kv := m2\<rparr>)
               | (Inr (Some new), m2) \<Rightarrow>
                   (let hashes = compute_prompt_block_hashes env bs prompt
                    in (Inr (True, num_cached),
                        s\<lparr>sc_kv := set_block_table rid (cached @ new) m2,
                          sc_cp_hashes := (sc_cp_hashes s)(rid \<mapsto> hashes),
                          sc_cp_log := (if se_predict env \<noteq> None \<and> hashes \<noteq> []
                                        then sc_cp_log s @ [Cp_allocated rid hashes] else sc_cp_log s)\<rparr>))))"

fun register_blocks :: "(int \<Rightarrow> int list \<Rightarrow> int) \<Rightarrow> int \<Rightarrow> int list \<Rightarrow> nat list \<Rightarrow> nat list \<Rightarrow> int \<Rightarrow>
    kv_mgr \<Rightarrow> kv_mgr" where
  "register_blocks h bs prompt blocks [] parent m = m"
| "register_blocks h bs prompt blocks (i # is) parent m =
     (if i \<ge> length blocks then m
      else let bh = h parent (token_slice bs prompt i)
           in case get_gpu_block (blocks ! i) m of
                None \<Rightarrow> m
              | Some b \<Rightarrow> register_blocks h bs prompt blocks is bh (cache_gpu_block b bh m))"

definition register_completed_blocks_in_cache :: "sched_env \<Rightarrow> request \<Rightarrow> sched \<Rightarrow> (sched, unit) outcome" where
  "register_completed_blocks_in_cache env req s =
     (let prompt = prompt_token_ids req; m = sc_kv s; bs = km_block_size m
      in if bs = 0 then (Inl ZeroDivisionError, s)
         else (Inr (), s\<lparr>sc_kv := register_blocks (se_hash env) bs prompt
                 (get_block_table (request_id req) m) [0..<full_blocks bs prompt] 0 m\<rparr>))"

definition notify_cp_blocks_freed :: "sched_env \<Rightarrow> string \<Rightarrow> sched \<Rightarrow> sched" where
  "notify_cp_blocks_freed env rid s =
     (let hashes = (case sc_cp_hashes s rid of None \<Rightarrow> [] | Some hs \<Rightarrow> hs)
      in s\<lparr>sc_cp_hashes := (sc_cp_hashes s)(rid := None),
           sc_cp_log := (if se_predict env = None \<or> hashes = [] then sc_cp_log s
                         else sc_cp_log s @ [Cp_freed rid hashes])\<rparr>)"

section \<open>Preemption and swapping\<close>

text \<open>\<^verbatim>\<open>self._notify_cp_blocks_freed(rid); self.kv_mgr.free_sequence(rid)\<close>\<close>

definition drop_sequence :: "sched_env \<Rightarrow> string \<Rightarrow> sched \<Rightarrow> (sched, unit) outcome" where
  "drop_sequence env rid s = on_kv (free_sequence rid) (notify_cp_blocks_freed env rid s)"

definition start_transfer :: "transfer_request \<Rightarrow> sched \<Rightarrow> sched" where
  "start_transfer t s = s\<lparr>sc_transfers := sc_transfers s @ [t]\<rparr>"

definition preempt_with_transfer :: "sched_env \<Rightarrow> request \<Rightarrow> sched \<Rightarrow> (sched, request) outcome" where
  "preempt_with_transfer env victim s =
     (let rid = request_id victim;
          to_swapped = (\<lambda>s. case transition_to SWAPPED victim of
                              Inl e \<Rightarrow> (Inl e, s)
                            | Inr v \<Rightarrow> (Inr v, s\<lparr>sc_swapped := sc_swapped s @ [v]\<rparr>));
          mark = (\<lambda>s. s\<lparr>sc_reprefill := List.insert rid (sc_reprefill s)\<rparr>)
      in andthen (on_kv (prepare_swap_out rid) s) (\<lambda>pairs s1.
           if pairs = [] then
             andthen (drop_sequence env rid s1) (\<lambda>_ s2.
               andthen (to_swapped s2) (\<lambda>v s3. (Inr v, mark s3)))
           else
             (let orig = map fst pairs;
                  s2 = s1\<lparr>sc_swapped_ids := (sc_swapped_ids s1)(rid \<mapsto> orig)\<rparr>
              in andthen
                   (case se_transfer env of
                      None \<Rightarrow> on_kv (commit_swap_out rid pairs) s2
                    | Some done \<Rightarrow>
                        (let s3 = start_transfer (swap_out_transfer rid orig) s2
                         in if done (length (sc_transfers s2))
                            then on_kv (commit_swap_out rid pairs) s3
                            else andthen (on_kv (commit_swap_out rid pairs) s3) (\<lambda>_ s4.
                                   andthen (drop_sequence env rid s4) (\<lambda>_ s5.
                                     (Inr (), mark (s5\<lparr>sc_swapped_ids := (sc_swapped_ids s5)(rid := None)\<rparr>))))))
                   (\<lambda>_ s6. to_swapped s6))))"

definition swap_in_request :: "sched_env \<Rightarrow> request \<Rightarrow> sched \<Rightarrow> (sched, bool \<times> request) outcome" where
  "swap_in_request env req s =
     (let rid = request_id req;
          requeue = (\<lambda>s. case transition_to WAITING req of
                           Inl e \<Rightarrow> (Inl e, s)
                         | Inr r \<Rightarrow> (Inr (True, r), s\<lparr>sc_waiting := r # sc_waiting s\<rparr>))
      in if rid \<in> set (sc_reprefill s) then
           requeue (s\<lparr>sc_reprefill := removeAll rid (sc_reprefill s)\<rparr>)
         else
           (let orig = (case sc_swapped_ids s rid of None \<Rightarrow> [] | Some ids \<Rightarrow> ids);
                forget = (\<lambda>s. s\<lparr>sc_swapped_ids := (sc_swapped_ids s)(rid := None)\<rparr>);
                resume = (\<lambda>s. case transition_to WAITING req of
                                Inl e \<Rightarrow> (Inl e, s)
                              | Inr r \<Rightarrow>
                                  (case transition_to RUNNING r of
                                     Inl e \<Rightarrow> (Inl e, s)
                                   | Inr r1 \<Rightarrow> (Inr (True, r1), s\<lparr>sc_running := sc_running s @ [r1]\<rparr>)))
            in andthen (on_kv (prepare_swap_in rid orig) s) (\<lambda>pairs s1.
                 if pairs = [] then (Inr (False, req), s1)
                 else
                   (case se_transfer env of
                      None \<Rightarrow>
                        andthen (on_kv (commit_swap_in rid orig pairs) s1) (\<lambda>_ s2. resume (forget s2))
                    | Some done \<Rightarrow>
                        (let s2 = start_transfer (swap_in_transfer rid (map fst pairs)) s1
                         in if done (length (sc_transfers s1))
                            then andthen (on_kv (commit_swap_in rid orig pairs) s2) (\<lambda>_ s3. resume (forget s3))
                            else andthen (on_kv (commit_swap_in rid orig pairs) s2) (\<lambda>_ s3.
                                   andthen (drop_sequence env rid s3) (\<lambda>_ s4.
                                     requeue ((forget s4)\<lparr>sc_reprefill := List.insert rid (sc_reprefill s4)\<rparr>))))))))"

section \<open>Scheduling\<close>

definition score :: "sched_env \<Rightarrow> request \<Rightarrow> rat" where
  "score env r =
     (case se_predict env of
        None \<Rightarrow> 0
      | Some f \<Rightarrow> (case f (request_id r) (prompt_token_ids r) of Inl _ \<Rightarrow> 0 | Inr x \<Rightarrow> x))"

text \<open>\<^verbatim>\<open>list.sort\<close> is stable, also with \<^verbatim>\<open>reverse=True\<close>.\<close>

definition reorder_waiting :: "sched_env \<Rightarrow> request list \<Rightarrow> request list" where
  "reorder_waiting env ws =
     (if se_predict env \<noteq> None \<and> length ws > 1 then sort_key (\<lambda>r. - score env r) ws else ws)"

fun make_room :: "sched_env \<Rightarrow> request \<Rightarrow> request list \<Rightarrow> sched \<Rightarrow>
    (sched, request list \<times> bool \<times> int) outcome" where
  "make_room env req [] s = (Inr ([], False, 0), s\<lparr>sc_running := []\<rparr>)"
| "make_room env req (victim # running) s =
     andthen (preempt_with_transfer env victim (s\<lparr>sc_running := running\<rparr>)) (\<lambda>v s1.
       andthen (allocate_with_prefix_cache env req s1) (\<lambda>a s2.
         if fst a then (Inr ([v], a), s2)
         else andthen (make_room env req running s2) (\<lambda>(vs, b) s3. (Inr (v # vs, b), s3))))"

record admitted =
  ad_new :: "request list"
  ad_preempted :: "request list"
  ad_tokens :: int

fun admit :: "sched_env \<Rightarrow> request list \<Rightarrow> admitted \<Rightarrow> sched \<Rightarrow> (sched, admitted) outcome" where
  "admit env [] a s = (Inr a, s\<lparr>sc_waiting := []\<rparr>)"
| "admit env (req # waiting) a s =
     (if int (length (sc_running s) + length (ad_new a)) \<ge> sc_max_num_seqs s
      then (Inr a, s\<lparr>sc_waiting := req # waiting\<rparr>)
      else
        andthen (allocate_with_prefix_cache env req (s\<lparr>sc_waiting := waiting\<rparr>)) (\<lambda>r0 s1.
          andthen (if fst r0 then (Inr ([], r0), s1) else make_room env req (sc_running s1) s1)
            (\<lambda>(victims, allocated, num_cached) s2.
              let a1 = a\<lparr>ad_preempted := ad_preempted a @ victims\<rparr>;
                  uncached = int (length (prompt_token_ids req)) - num_cached
              in if \<not> allocated then (Inr a1, s2\<lparr>sc_waiting := req # waiting\<rparr>)
                 else if ad_tokens a + uncached > sc_max_tokens s2
                 then andthen (drop_sequence env (request_id req) s2) (\<lambda>_ s3.
                        (Inr a1, s3\<lparr>sc_waiting := req # waiting\<rparr>))
                 else case transition_to RUNNING req of
                        Inl e \<Rightarrow> (Inl e, s2)
                      | Inr r \<Rightarrow>
                          admit env waiting
                            (a1\<lparr>ad_new := ad_new a @ [r], ad_tokens := ad_tokens a + uncached\<rparr>)
                            (s2\<lparr>sc_generated := (sc_generated s2)(request_id req \<mapsto> 0)\<rparr>))))"

fun swap_in_all :: "sched_env \<Rightarrow> request list \<Rightarrow> sched \<Rightarrow> (sched, request list) outcome" where
  "swap_in_all env [] s = (Inr [], s)"
| "swap_in_all env (req # reqs) s =
     (if int (length (sc_running s)) \<ge> sc_max_num_seqs s
      then swap_in_all env reqs (s\<lparr>sc_swapped := sc_swapped s @ [req]\<rparr>)
      else
        andthen (swap_in_request env req s) (\<lambda>(ok, r) s1.
          if ok then andthen (swap_in_all env reqs s1) (\<lambda>rs s2. (Inr (r # rs), s2))
          else swap_in_all env reqs (s1\<lparr>sc_swapped := sc_swapped s1 @ [r]\<rparr>)))"

fun decode_running :: "string list \<Rightarrow> int \<Rightarrow> request list \<Rightarrow> int \<Rightarrow> (string \<rightharpoonup> int) \<Rightarrow>
    request list \<times> int \<times> (string \<rightharpoonup> int)" where
  "decode_running ids max_tok [] n gen = ([], n, gen)"
| "decode_running ids max_tok (r # rs) n gen =
     (if request_id r \<in> set ids then decode_running ids max_tok rs n gen
      else if n + 1 > max_tok then ([], n, gen)
      else apfst (Cons r)
        (decode_running ids max_tok rs (n + 1)
          (gen(request_id r \<mapsto> (case gen (request_id r) of None \<Rightarrow> 0 | Some k \<Rightarrow> k) + 1))))"

definition schedule :: "sched_env \<Rightarrow> sched \<Rightarrow> (sched, sched_out) outcome" where
  "schedule env s =
     (let previously_swapped = sc_swapped s;
          waiting = reorder_waiting env (sc_waiting s);
          s1 = s\<lparr>sc_swapped := [], sc_waiting := waiting\<rparr>
      in andthen (admit env waiting \<lparr>ad_new = [], ad_preempted = [], ad_tokens = 0\<rparr> s1) (\<lambda>a s2.
           andthen (swap_in_all env previously_swapped (s2\<lparr>sc_running := sc_running s2 @ ad_new a\<rparr>)) (\<lambda>si s3.
             let (decoded, n, gen) = decode_running (map request_id (ad_new a)) (sc_max_tokens s3)
                   (sc_running s3) (ad_tokens a) (sc_generated s3)
             in (Inr \<lparr>so_scheduled = ad_new a @ decoded, so_preempted = ad_preempted a,
                      so_swapped_in = si, so_tokens = n\<rparr>,
                 s3\<lparr>sc_generated := gen\<rparr>))))"

definition sched_finish_request :: "sched_env \<Rightarrow> string \<Rightarrow> sched \<Rightarrow> (sched, unit) outcome" where
  "sched_finish_request env rid s =
     (let others = filter (\<lambda>r. request_id r \<noteq> rid)
      in andthen
           (case List.find (\<lambda>r. request_id r = rid) (sc_waiting s @ sc_running s @ sc_swapped s) of
              None \<Rightarrow> (Inr (), s)
            | Some req \<Rightarrow>
                if get_block_table rid (sc_kv s) \<noteq> [] then register_completed_blocks_in_cache env req s
                else (Inr (), s))
           (\<lambda>_ s1. drop_sequence env rid
              (s1\<lparr>sc_waiting := others (sc_waiting s1), sc_running := others (sc_running s1),
                 sc_swapped := others (sc_swapped s1),
                 sc_swapped_ids := (sc_swapped_ids s1)(rid := None),
                 sc_reprefill := removeAll rid (sc_reprefill s1),
                 sc_generated := (sc_generated s1)(rid := None)\<rparr>)))"

definition can_schedule :: "request \<Rightarrow> sched \<Rightarrow> bool result" where
  "can_schedule req s =
     (let bs = km_block_size (sc_kv s)
      in if bs = 0 then Inl ZeroDivisionError
         else Inr (num_free_gpu_blocks (sc_kv s) \<ge> (int (length (prompt_token_ids req)) + bs - 1) div bs))"

section \<open>The KV cache manager as the scheduler uses it\<close>

lemma block_size_frames:
  "km_block_size (snd (free_sequence sid m)) = km_block_size m"
  "km_block_size (snd (commit_swap_out sid ps m)) = km_block_size m"
  "km_block_size (snd (commit_swap_in sid gs ps m)) = km_block_size m"
proof -
  have b: "km_block_size (snd (for_each free_gpu_id xs m)) = km_block_size m"
    "km_block_size (snd (for_each free_swapped_id xs m)) = km_block_size m"
    "km_block_size (snd (for_each commit_out_pair ys m)) = km_block_size m"
    "km_block_size (snd (for_each commit_in_pair zs m)) = km_block_size m" for xs ys zs m
    by (rule for_each_frame, auto simp: free_gpu_id_def free_swapped_id_def commit_out_pair_def
        commit_in_pair_def release_gpu_block_def Let_def split: option.splits prod.splits sum.splits)+
  show "km_block_size (snd (free_sequence sid m)) = km_block_size m"
    using b(1) [of "seq_blocks m sid" "m\<lparr>km_seq := AList.delete sid (km_seq m)\<rparr>"]
    by (auto simp: free_sequence_def b(2) split: prod.splits sum.splits)
  show "km_block_size (snd (commit_swap_out sid ps m)) = km_block_size m"
    using b(3) [of ps m] by (auto simp: commit_swap_out_def Let_def split: prod.splits sum.splits)
  show "km_block_size (snd (commit_swap_in sid gs ps m)) = km_block_size m"
    using b(4) [of "zip gs ps" m] by (auto simp: commit_swap_in_def Let_def split: prod.splits sum.splits)
qed

lemma free_sequence_kv:
  assumes "mgr_inv m"
  shows "\<exists>m'. free_sequence sid m = (Inr (), m') \<and> mgr_inv m' \<and>
    km_seq m' = AList.delete sid (km_seq m) \<and> km_block_size m' = km_block_size m"
  using free_sequence_inv [OF assms, of sid] block_size_frames(1) [of sid m] by auto

lemma swap_out_kv:
  assumes "mgr_inv m"
  shows "\<exists>ps m1. prepare_swap_out sid m = (Inr ps, m1) \<and> mgr_inv m1 \<and> km_seq m1 = km_seq m \<and>
    km_block_size m1 = km_block_size m \<and>
    (ps \<noteq> [] \<longrightarrow> (\<exists>m2. commit_swap_out sid ps m1 = (Inr (), m2) \<and> mgr_inv m2 \<and>
       km_seq m2 = AList.delete sid (km_seq m) \<and> km_block_size m2 = km_block_size m))"
proof -
  from prepare_swap_out_inv [OF assms, of sid] obtain ps m1 where
    p: "prepare_swap_out sid m = (Inr ps, m1)" "mgr_inv m1" "gpu_part m1 = gpu_part m"
      "ps = [] \<or> map fst ps = get_block_table sid m" by blast
  have q: "km_seq m1 = km_seq m" "km_block_size m1 = km_block_size m"
    "get_block_table sid m1 = get_block_table sid m"
    using p(3) by (simp_all add: gpu_part_def get_block_table_def seq_blocks_def)
  have "\<exists>m2. commit_swap_out sid ps m1 = (Inr (), m2) \<and> mgr_inv m2 \<and>
       km_seq m2 = AList.delete sid (km_seq m) \<and> km_block_size m2 = km_block_size m" if "ps \<noteq> []"
    using commit_swap_out_inv [OF p(2) that, of sid] p(4) q that block_size_frames(2) [of sid ps m1]
    by auto
  with p q show ?thesis by blast
qed

lemma swap_in_kv:
  assumes "mgr_inv m" and "map_of (km_seq m) sid = None"
  shows "\<exists>ps m1. prepare_swap_in sid gs m = (Inr ps, m1) \<and> km_block_size m1 = km_block_size m \<and>
    (if ps = [] then mgr_inv m1 \<and> km_seq m1 = km_seq m
     else \<exists>m2. commit_swap_in sid gs ps m1 = (Inr (), m2) \<and> mgr_inv m2 \<and>
       fst ` set (km_seq m2) = insert sid (fst ` set (km_seq m)) \<and> km_block_size m2 = km_block_size m)"
proof -
  from prepare_swap_in_inv [OF assms(1), of sid gs] obtain ps m1 where
    p: "prepare_swap_in sid gs m = (Inr ps, m1)" "gpu_frame m1 = gpu_frame m" "km_seq m1 = km_seq m"
      "cpu_owned m1 {#}" "ps = [] \<and> mgr_inv m1 \<or> length ps = length gs \<and> gpu_owned m1 (mset (map snd ps))"
    by blast
  have bs: "km_block_size m1 = km_block_size m" using p(2) by (simp add: gpu_frame_def)
  show ?thesis
  proof (cases "ps = []")
    case True
    with p have "mgr_inv m1" by (auto simp: mgr_inv_def)
    with True p bs show ?thesis by auto
  next
    case False
    then have own: "gpu_owned m1 (mset (map snd ps))" and len: "length ps = length gs" using p(5) by auto
    from commit_swap_in_inv [OF own p(4) len] assms(2) p(3) obtain m2
      where m2: "commit_swap_in sid gs ps m1 = (Inr (), m2)" "mgr_inv m2" by auto
    have fr: "km_seq (snd (for_each commit_in_pair qs s)) = km_seq s" for qs s
      by (rule for_each_frame)
        (auto simp: commit_in_pair_def Let_def split: option.splits prod.splits sum.splits)
    have "\<exists>v. km_seq m2 = AList.update sid v (km_seq m)"
      using m2(1) fr [of "zip gs ps" m1] p(3)
      by (auto simp: commit_swap_in_def split: prod.splits sum.splits)
    then have "fst ` set (km_seq m2) = insert sid (fst ` set (km_seq m))"
      by (metis dom_map_of_conv_image_fst dom_fun_upd map_of_update option.distinct(1))
    with False p(1) m2 bs block_size_frames(3) [of sid gs ps m1] show ?thesis by auto
  qed
qed

lemma match_prefix_owned:
  "gpu_owned m E \<Longrightarrow> match_prefix h bs prompt is parent m = (cs, m') \<Longrightarrow>
   gpu_owned m' (mset cs + E) \<and> gpu_frame m' = gpu_frame m \<and> km_seq m' = km_seq m \<and> length cs \<le> length is"
proof (induction h bs prompt "is" parent m arbitrary: E cs m' rule: match_prefix.induct)
  case (2 h bs prompt i "is" parent m)
  obtain r m1 where g: "get_cached_gpu_block (h parent (token_slice bs prompt i)) m = (r, m1)" by fastforce
  note o = get_cached_gpu_owned [OF "2.prems"(1) g]
  show ?case
  proof (cases r)
    case None
    with "2.prems" g o show ?thesis by simp
  next
    case (Some b)
    obtain ds m2 where d: "match_prefix h bs prompt is (h parent (token_slice bs prompt i)) m1 = (ds, m2)"
      by fastforce
    from "2.IH" [OF refl g [symmetric] Some _ d, of "add_mset b E"] o Some "2.prems"(2) g d show ?thesis
      by auto
  qed
qed simp

lemma alloc_new_owned:
  assumes "gpu_owned m (mset new + (mset cached + E))"
  shows "\<exists>r m'. alloc_new k cached new m = (Inr r, m') \<and> gpu_frame m' = gpu_frame m \<and> km_seq m' = km_seq m \<and>
    (case r of
       None \<Rightarrow> gpu_owned m' E \<and> length (free_list (km_gpu m)) < k
     | Some new' \<Rightarrow> gpu_owned m' (mset new' + (mset cached + E)) \<and> length new' = length new + k)"
  using assms
proof (induction k arbitrary: new m)
  case 0
  then show ?case by simp
next
  case (Suc k)
  obtain r m1 where a: "allocate_gpu_block m = (r, m1)" by fastforce
  show ?case
  proof (cases r)
    case None
    note n = allocate_gpu_None [OF Suc.prems a [unfolded None]]
    have "gpu_owned m (mset cached + (mset new + E))" using Suc.prems by (simp add: ac_simps)
    from gpu.release_all [OF this] obtain m2
      where m2: "for_each release_gpu_block cached m = (Inr (), m2)" "gpu_owned m2 (mset new + E)"
        "gpu_frame m2 = gpu_frame m" "km_seq m2 = km_seq m" by auto
    from gpu.release_all [OF m2(2)] obtain m3
      where "for_each release_gpu_block new m2 = (Inr (), m3)" "gpu_owned m3 E"
        "gpu_frame m3 = gpu_frame m2" "km_seq m3 = km_seq m2" by auto
    with None a n m2 show ?thesis by (simp add: release_gpu_blocks_def)
  next
    case (Some b)
    note al = allocate_gpu_Some [OF Suc.prems a [unfolded Some]]
    from al(1) have "gpu_owned m1 (mset (new @ [b]) + (mset cached + E))" by simp
    from Suc.IH [OF this] obtain r' m' where "alloc_new k cached (new @ [b]) m1 = (Inr r', m')"
      "gpu_frame m' = gpu_frame m1" "km_seq m' = km_seq m1"
      "case r' of
         None \<Rightarrow> gpu_owned m' E \<and> length (free_list (km_gpu m1)) < k
       | Some new' \<Rightarrow> gpu_owned m' (mset new' + (mset cached + E)) \<and> length new' = length (new @ [b]) + k"
      by blast
    with al(2-4) a Some show ?thesis
      by (intro exI [of _ r'] exI [of _ m']) (auto split: option.splits)
  qed
qed

lemma get_cached_gpu_free:
  assumes own: "gpu_owned m E" and g: "get_cached_gpu_block h m = (r, m')"
  shows "length (free_list (km_gpu m)) \<le> length (free_list (km_gpu m')) + (if r = None then 0 else 1)"
proof (cases "map_of (bp_hash_map (km_gpu m)) h")
  case None
  with g show ?thesis by (auto simp: get_cached_gpu_block_def get_cached_block_miss)
next
  case (Some b)
  note f = get_cached_block_facts(1,2) [OF gpu_owned_ok [OF own] Some]
  have "km_gpu m' = snd (get_cached_block h (km_gpu m))" "r = Some b"
    using g f(1) by (auto simp: get_cached_gpu_block_def split: prod.splits)
  with pool_ok_free_list [OF f(2)] show ?thesis by (auto simp: length_remove1)
qed

lemma match_prefix_free:
  "gpu_owned m E \<Longrightarrow> match_prefix h bs prompt is parent m = (cs, m') \<Longrightarrow>
   length (free_list (km_gpu m)) \<le> length (free_list (km_gpu m')) + length cs"
proof (induction h bs prompt "is" parent m arbitrary: E cs m' rule: match_prefix.induct)
  case (2 h bs prompt i "is" parent m)
  obtain r m1 where g: "get_cached_gpu_block (h parent (token_slice bs prompt i)) m = (r, m1)" by fastforce
  note o = get_cached_gpu_owned [OF "2.prems"(1) g] and fr = get_cached_gpu_free [OF "2.prems"(1) g]
  show ?case
  proof (cases r)
    case None
    with "2.prems" g fr show ?thesis by simp
  next
    case (Some b)
    obtain ds m2 where d: "match_prefix h bs prompt is (h parent (token_slice bs prompt i)) m1 = (ds, m2)"
      by fastforce
    from "2.IH" [OF refl g [symmetric] Some _ d, of "add_mset b E"] o fr Some "2.prems"(2) g d show ?thesis
      by auto
  qed
qed simp

section \<open>The operations of the scheduler keep the block tables in order\<close>

text \<open>
  The manager is in order and has block tables only for the given sequences.
\<close>

definition kv_ok :: "string set \<Rightarrow> sched \<Rightarrow> bool" where
  "kv_ok ids s \<longleftrightarrow>
     mgr_inv (sc_kv s) \<and> 0 < km_block_size (sc_kv s) \<and> fst ` set (km_seq (sc_kv s)) \<subseteq> ids"

lemma kv_ok_mono: "kv_ok ids s \<Longrightarrow> ids \<subseteq> ids' \<Longrightarrow> sc_kv s' = sc_kv s \<Longrightarrow> kv_ok ids' s'"
  by (auto simp: kv_ok_def)

text \<open>The parts of the state an operation on block tables does not touch.\<close>

definition queues where
  "queues s = (sc_waiting s, sc_running s, sc_swapped s, sc_max_num_seqs s, sc_max_tokens s,
     km_block_size (sc_kv s))"

lemma keys_delete_set: "fst ` set (AList.delete k d) = fst ` set d - {k}"
  by (auto simp: delete_eq_filter)

lemma drop_sequence_ok:
  assumes "kv_ok ids s"
  shows "\<exists>s'. drop_sequence env rid s = (Inr (), s') \<and> kv_ok (ids - {rid}) s' \<and> queues s' = queues s \<and>
    sc_reprefill s' = sc_reprefill s \<and> sc_swapped_ids s' = sc_swapped_ids s"
proof -
  have "mgr_inv (sc_kv (notify_cp_blocks_freed env rid s))"
    and kv: "sc_kv (notify_cp_blocks_freed env rid s) = sc_kv s"
    using assms by (simp_all add: kv_ok_def notify_cp_blocks_freed_def Let_def)
  from free_sequence_kv [OF this(1), of rid] obtain m' where
    "free_sequence rid (sc_kv s) = (Inr (), m')" "mgr_inv m'"
    "km_seq m' = AList.delete rid (km_seq (sc_kv s))" "km_block_size m' = km_block_size (sc_kv s)"
    by (auto simp: kv)
  with assms kv show ?thesis
    by (auto simp: drop_sequence_def on_kv_def kv_ok_def queues_def keys_delete_set
        notify_cp_blocks_freed_def Let_def)
qed

text \<open>
  No operation of a scheduling step registers a block under a hash: the hashes known
  to the GPU pool can only become fewer.
\<close>

definition known_hashes :: "kv_mgr \<Rightarrow> int set" where
  "known_hashes m = dom (map_of (bp_hash_map (km_gpu m)))"

named_theorems hashes_shrink

lemma pool_hashes:
  "dom (map_of (bp_hash_map (snd (allocate_block p)))) \<subseteq> dom (map_of (bp_hash_map p))"
  "bp_hash_map (snd (free_block b p)) = bp_hash_map p"
  "bp_hash_map (snd (get_cached_block h p)) = bp_hash_map p"
  by (auto simp: allocate_block_def free_block_def get_cached_block_def set_fq_def upd_block_def Let_def
      split: prod.splits option.splits if_splits)

lemma for_each_shrink:
  assumes "\<And>x s. g (snd (f x s)) \<subseteq> (g s :: 'h set)"
  shows "g (snd (for_each f xs s)) \<subseteq> g s"
proof (induction xs arbitrary: s)
  case (Cons x xs)
  then show ?case using assms [of x s] by (fastforce split: prod.splits sum.splits)
qed simp

lemma andthen_shrink:
  assumes "g (snd r) \<subseteq> (H :: 'h set)" and "\<And>a s. g s \<subseteq> H \<Longrightarrow> g (snd (f a s)) \<subseteq> H"
  shows "g (snd (andthen r f)) \<subseteq> H"
  using assms(1) assms(2) [of "snd r"] by (cases r rule: prod.exhaust [of _ thesis for thesis]; cases "fst r") simp_all

lemma known_hashes_allocate [hashes_shrink]: "known_hashes (snd (allocate_gpu_block m)) \<subseteq> known_hashes m"
proof -
  obtain r p where "allocate_block (km_gpu m) = (r, p)" by fastforce
  with pool_hashes(1) [of "km_gpu m"] show ?thesis by (cases r) (simp_all add: allocate_gpu_block_def known_hashes_def)
qed

lemma known_hashes_cached: "known_hashes (snd (get_cached_gpu_block h m)) = known_hashes m"
  using pool_hashes(3) [of h "km_gpu m"]
  by (auto simp: get_cached_gpu_block_def known_hashes_def Let_def split: prod.splits option.splits)

lemma known_hashes_release [simp]: "known_hashes (snd (release_gpu_block b m)) = known_hashes m"
  using pool_hashes(2) [of b "km_gpu m"]
  by (auto simp: release_gpu_block_def known_hashes_def Let_def split: prod.splits sum.splits)

lemma known_hashes_release_all [simp]: "known_hashes (snd (release_gpu_blocks bs m)) = known_hashes m"
  unfolding release_gpu_blocks_def by (rule for_each_frame) simp

lemma known_hashes_cong: "km_gpu m' = km_gpu m \<Longrightarrow> known_hashes m' = known_hashes m"
  by (simp add: known_hashes_def)

lemma known_hashes_free [hashes_shrink]: "known_hashes (snd (free_sequence sid m)) \<subseteq> known_hashes m"
proof -
  have "known_hashes (snd (free_gpu_id b m)) = known_hashes m" for b m
    by (simp add: free_gpu_id_def split: option.split)
  then have g: "known_hashes (snd (for_each free_gpu_id bs m)) = known_hashes m" for bs m by (rule for_each_frame)
  have "known_hashes (snd (free_swapped_id b m)) = known_hashes m" for b m
    by (auto simp: free_swapped_id_def known_hashes_def Let_def split: option.splits prod.splits)
  then have c: "known_hashes (snd (for_each free_swapped_id bs m)) = known_hashes m" for bs m by (rule for_each_frame)
  have u: "known_hashes (m\<lparr>km_seq := x\<rparr>) = known_hashes m" "known_hashes (m\<lparr>km_seq_swapped := y\<rparr>) = known_hashes m" for m x y
    by (simp_all add: known_hashes_def)
  obtain x m1 where r: "for_each free_gpu_id (seq_blocks m sid) (m\<lparr>km_seq := AList.delete sid (km_seq m)\<rparr>) = (x, m1)" by fastforce
  then have "known_hashes m1 = known_hashes m" using g [of "seq_blocks m sid" "m\<lparr>km_seq := AList.delete sid (km_seq m)\<rparr>"] u by simp
  then show ?thesis by (cases x) (simp_all add: free_sequence_def r c u)
qed

lemma known_hashes_swap_out [hashes_shrink]:
  "known_hashes (snd (prepare_swap_out sid m)) \<subseteq> known_hashes m"
  "known_hashes (snd (commit_swap_out sid ps m)) \<subseteq> known_hashes m"
proof -
  have "known_hashes (snd (unwind_cpu_block b m)) = known_hashes m" for b m
    by (auto simp: unwind_cpu_block_def known_hashes_def Let_def split: prod.splits)
  then have u: "known_hashes (snd (for_each unwind_cpu_block bs m)) = known_hashes m" for bs m by (rule for_each_frame)
  have c: "known_hashes (m\<lparr>km_cpu := p\<rparr>) = known_hashes m" "known_hashes (m\<lparr>km_cpu := p, km_cpu_alloc := a\<rparr>) = known_hashes m" for m p a
    by (simp_all add: known_hashes_def)
  have "known_hashes (snd (swap_out_loop gs ps m)) = known_hashes m" for gs ps m
  proof (induction gs ps m rule: swap_out_loop.induct)
    case (2 g gs ps m)
    obtain r p where a: "allocate_block (km_cpu m) = (r, p)" by fastforce
    obtain x m1 where w: "for_each unwind_cpu_block (map snd ps) (m\<lparr>km_cpu := p\<rparr>) = (x, m1)" by fastforce
    have "known_hashes m1 = known_hashes m" using u [of "map snd ps" "m\<lparr>km_cpu := p\<rparr>"] w c by simp
    with 2 a w show ?case by (cases r; cases x) (simp_all add: c)
  qed simp
  then show "known_hashes (snd (prepare_swap_out sid m)) \<subseteq> known_hashes m" by (simp add: prepare_swap_out_def)
  have "known_hashes (snd (commit_out_pair b m)) = known_hashes m" for b m
    by (auto simp: commit_out_pair_def Let_def split: option.split) (simp_all add: known_hashes_def)
  then have "known_hashes (snd (for_each commit_out_pair ps m)) = known_hashes m" for ps m by (rule for_each_frame)
  then have o: "known_hashes (snd (for_each commit_out_pair ps m)) = known_hashes m" .
  obtain x m1 where r: "for_each commit_out_pair ps m = (x, m1)" by fastforce
  with o have "known_hashes m1 = known_hashes m" by simp
  then show "known_hashes (snd (commit_swap_out sid ps m)) \<subseteq> known_hashes m"
    by (cases x) (simp_all add: commit_swap_out_def r Let_def known_hashes_def)
qed

definition sched_hashes :: "sched \<Rightarrow> int set" where
  "sched_hashes s = known_hashes (sc_kv s)"

lemma sched_hashes_upd [simp]:
  "sched_hashes (s\<lparr>sc_waiting := w\<rparr>) = sched_hashes s" "sched_hashes (s\<lparr>sc_running := w\<rparr>) = sched_hashes s"
  "sched_hashes (s\<lparr>sc_swapped := w\<rparr>) = sched_hashes s" "sched_hashes (s\<lparr>sc_reprefill := l\<rparr>) = sched_hashes s"
  "sched_hashes (s\<lparr>sc_swapped_ids := i\<rparr>) = sched_hashes s" "sched_hashes (s\<lparr>sc_generated := g\<rparr>) = sched_hashes s"
  "sched_hashes (start_transfer t s) = sched_hashes s" "sched_hashes (notify_cp_blocks_freed env rid s) = sched_hashes s"
  by (simp_all add: sched_hashes_def start_transfer_def notify_cp_blocks_freed_def Let_def)

lemma on_kv_shrink: "(\<And>m. known_hashes (snd (f m)) \<subseteq> known_hashes m) \<Longrightarrow> sched_hashes (snd (on_kv f s)) \<subseteq> sched_hashes s"
  by (fastforce simp: on_kv_def sched_hashes_def split: prod.splits)

lemma drop_sequence_shrink: "sched_hashes (snd (drop_sequence env rid s)) \<subseteq> sched_hashes s"
  using on_kv_shrink [of "free_sequence rid" "notify_cp_blocks_freed env rid s"] hashes_shrink by (simp add: drop_sequence_def)

lemma match_prefix_hashes:
  "match_prefix h bs prompt is parent m = (cs, m') \<Longrightarrow>
     known_hashes m' = known_hashes m \<and> length cs = length (takeWhile (\<lambda>x. x \<in> known_hashes m) (chain_hashes h bs prompt is parent))"
proof (induction h bs prompt "is" parent m arbitrary: cs m' rule: match_prefix.induct)
  case (2 h bs prompt i "is" parent m)
  let ?h = "h parent (token_slice bs prompt i)"
  obtain r m1 where g: "get_cached_gpu_block ?h m = (r, m1)" by fastforce
  have k: "known_hashes m1 = known_hashes m" using known_hashes_cached [of ?h m] g by simp
  have r: "r = None \<longleftrightarrow> ?h \<notin> known_hashes m"
    using g by (auto simp: get_cached_gpu_block_def get_cached_block_def known_hashes_def Let_def split: prod.splits option.splits)
  show ?case
  proof (cases r)
    case None
    with "2.prems" g k r show ?thesis by (auto simp: Let_def)
  next
    case (Some b)
    obtain ds m2 where d: "match_prefix h bs prompt is ?h m1 = (ds, m2)" by fastforce
    from "2.IH" [OF refl g [symmetric] Some d] k r Some "2.prems" g d show ?thesis by (auto simp: Let_def)
  qed
qed simp

lemma alloc_new_shrink: "known_hashes (snd (alloc_new k cs new m)) \<subseteq> known_hashes m"
proof (induction k cs new m rule: alloc_new.induct)
  case (2 k cs new m)
  obtain r m1 where a: "allocate_gpu_block m = (r, m1)" by fastforce
  then have "known_hashes m1 \<subseteq> known_hashes m" using known_hashes_allocate [of m] by simp
  moreover have "known_hashes (snd (andthen (release_gpu_blocks cs m1) (\<lambda>_ m2. andthen (release_gpu_blocks new m2) (\<lambda>_ m3. (Inr None, m3)))))
      \<subseteq> known_hashes m1"
    by (rule andthen_shrink) (auto simp: andthen_def split: prod.splits sum.splits; metis known_hashes_release_all snd_conv subsetD)+
  ultimately show ?case using a 2 [OF a [symmetric]] by (cases r) auto
qed simp

lemma allocate_shrink: "sched_hashes (snd (allocate_with_prefix_cache env req s)) \<subseteq> sched_hashes s"
proof -
  let ?bs = "km_block_size (sc_kv s)" and ?p = "prompt_token_ids req"
  obtain cs m1 where mp: "match_prefix (se_hash env) ?bs ?p [0..<full_blocks ?bs ?p] 0 (sc_kv s) = (cs, m1)" by fastforce
  have s: "known_hashes (set_block_table x y m) = known_hashes m" for x y m by (simp add: set_block_table_def known_hashes_def)
  define k where "k = (let r = int (length ?p) - int (length cs) * ?bs in nat (if r > 0 then (r + ?bs - 1) div ?bs else 0))"
  obtain x m2 where a: "alloc_new k cs [] m1 = (x, m2)" by fastforce
  have "known_hashes m2 \<subseteq> known_hashes (sc_kv s)" using alloc_new_shrink [of k cs "[]" m1] match_prefix_hashes [OF mp] a by simp
  then show ?thesis using a unfolding k_def Let_def
    by (auto simp: allocate_with_prefix_cache_def mp sched_hashes_def s Let_def split: sum.split option.split)
qed

text \<open>The tokens of a prompt that lie in full blocks: only these can be found in the cache.\<close>

definition cacheable :: "sched \<Rightarrow> request \<Rightarrow> int" where
  "cacheable s req =
     int (length (prompt_token_ids req)) div km_block_size (sc_kv s) * km_block_size (sc_kv s)"

lemma cacheable_le: "0 < km_block_size (sc_kv s) \<Longrightarrow> cacheable s req \<le> int (length (prompt_token_ids req))"
  by (simp add: cacheable_def minus_mod_eq_div_mult [symmetric])

text \<open>The tokens of a list of requests that are certainly not in the cache.\<close>

definition uncacheable :: "sched \<Rightarrow> request list \<Rightarrow> int" where
  "uncacheable s rs = sum_list (map (\<lambda>r. int (length (prompt_token_ids r)) - cacheable s r) rs)"

lemma uncacheable_simps [simp]:
  "uncacheable s [] = 0"
  "uncacheable s (r # rs) = int (length (prompt_token_ids r)) - cacheable s r + uncacheable s rs"
  by (simp_all add: uncacheable_def)

lemma cacheable_nonneg: "0 < km_block_size (sc_kv s) \<Longrightarrow> 0 \<le> cacheable s req"
  by (simp add: cacheable_def pos_imp_zdiv_nonneg_iff)

lemma cacheable_cong: "km_block_size (sc_kv s') = km_block_size (sc_kv s) \<Longrightarrow> cacheable s' req = cacheable s req"
  by (simp add: cacheable_def)

text \<open>
  The tokens of a prompt that are in the prefix cache: its first blocks as far as the pool
  knows their chained hashes.
\<close>

definition cached_tokens :: "sched_env \<Rightarrow> sched \<Rightarrow> request \<Rightarrow> int" where
  "cached_tokens env s req =
     int (length (takeWhile (\<lambda>h. h \<in> known_hashes (sc_kv s))
       (compute_prompt_block_hashes env (km_block_size (sc_kv s)) (prompt_token_ids req)))) * km_block_size (sc_kv s)"

lemma length_chain_hashes [simp]: "length (chain_hashes h bs p is x) = length is"
  by (induction "is" arbitrary: x) (simp_all add: Let_def)

lemma cached_tokens_bounds:
  assumes "0 < km_block_size (sc_kv s)"
  shows "0 \<le> cached_tokens env s req" and "cached_tokens env s req \<le> cacheable s req"
proof -
  let ?bs = "km_block_size (sc_kv s)" and ?p = "prompt_token_ids req"
  let ?k = "length (takeWhile (\<lambda>h. h \<in> known_hashes (sc_kv s)) (compute_prompt_block_hashes env ?bs ?p))"
  have "?k \<le> full_blocks ?bs ?p"
    using length_takeWhile_le [of _ "compute_prompt_block_hashes env ?bs ?p"] by (simp add: compute_prompt_block_hashes_def)
  then have "int ?k \<le> int (length ?p) div ?bs"
    using pos_imp_zdiv_nonneg_iff [OF assms, of "int (length ?p)"] by (simp add: full_blocks_def le_nat_iff)
  then show "0 \<le> cached_tokens env s req" and "cached_tokens env s req \<le> cacheable s req"
    using assms by (simp_all add: cached_tokens_def cacheable_def)
qed

lemma length_takeWhile_mono: "(\<And>x. P x \<Longrightarrow> Q x) \<Longrightarrow> length (takeWhile P xs) \<le> length (takeWhile Q xs)"
  by (induction xs) auto

lemma cached_tokens_mono:
  assumes "sched_hashes s' \<subseteq> sched_hashes s" and "km_block_size (sc_kv s') = km_block_size (sc_kv s)" and "0 < km_block_size (sc_kv s)"
  shows "cached_tokens env s' req \<le> cached_tokens env s req"
  using assms length_takeWhile_mono [of "\<lambda>h. h \<in> known_hashes (sc_kv s')" "\<lambda>h. h \<in> known_hashes (sc_kv s)"
      "compute_prompt_block_hashes env (km_block_size (sc_kv s)) (prompt_token_ids req)"]
  by (auto simp: cached_tokens_def sched_hashes_def intro!: mult_right_mono)

lemma allocate_ok:
  assumes kv: "kv_ok ids s" and new: "request_id req \<notin> ids"
  shows "\<exists>b n s'. allocate_with_prefix_cache env req s = (Inr (b, n), s') \<and>
    kv_ok (if b then insert (request_id req) ids else ids) s' \<and> queues s' = queues s \<and>
    sc_reprefill s' = sc_reprefill s \<and> sc_swapped_ids s' = sc_swapped_ids s \<and>
    0 \<le> n \<and> n \<le> cached_tokens env s req \<and>
    (\<not> b \<longrightarrow> int (length (free_list (km_gpu (sc_kv s)))) <
       ceil_div (int (length (prompt_token_ids req))) (km_block_size (sc_kv s)))"
proof -
  let ?m = "sc_kv s" and ?bs = "km_block_size (sc_kv s)" and ?p = "prompt_token_ids req"
    and ?rid = "request_id req"
  have bs: "0 < ?bs" and inv: "mgr_inv ?m" and dom: "?rid \<notin> fst ` set (km_seq ?m)"
    using kv new by (auto simp: kv_ok_def)
  then have own: "gpu_owned ?m {#}" and cpu: "cpu_owned ?m {#}" by (simp_all add: mgr_inv_def)
  obtain cs m1 where mp: "match_prefix (se_hash env) ?bs ?p [0..<full_blocks ?bs ?p] 0 ?m = (cs, m1)"
    by fastforce
  note mo = match_prefix_owned [OF own mp] and mf = match_prefix_free [OF own mp]
  let ?n = "int (length cs) * ?bs" and ?l = "int (length ?p)"
  have lec: "?n = cached_tokens env s req"
    using match_prefix_hashes [OF mp] by (simp add: cached_tokens_def compute_prompt_block_hashes_def)
  then have le: "?n \<le> ?l" using cacheable_le [OF bs, of req] cached_tokens_bounds(2) [OF bs, of env req] by simp
  let ?need = "if ?l - ?n > 0 then (?l - ?n + ?bs - 1) div ?bs else 0"
  have need: "?need = ceil_div ?l ?bs - int (length cs)"
  proof -
    have "ceil_div (?l - ?n) ?bs = ceil_div ?l ?bs - int (length cs)"
      using bs ceil_div_bounds [OF bs, of ?l] by (intro ceil_div_unique) (auto simp: left_diff_distrib)
    moreover have "ceil_div 0 ?bs = 0" by (simp add: ceil_div_def)
    ultimately show ?thesis using le ceil_div_eq [OF bs, of "?l - ?n"] by (auto simp: not_less)
  qed
  define k where "k = nat ?need"
  have "gpu_owned m1 (mset [] + (mset cs + {#}))" using mo by simp
  from alloc_new_owned [OF this, of k] obtain r m2 where
    al: "alloc_new k cs [] m1 = (Inr r, m2)" "gpu_frame m2 = gpu_frame m1" "km_seq m2 = km_seq m1"
      "case r of
         None \<Rightarrow> gpu_owned m2 {#} \<and> length (free_list (km_gpu m1)) < k
       | Some new' \<Rightarrow> gpu_owned m2 (mset new' + (mset cs + {#})) \<and> length new' = length ([] :: nat list) + k"
    by blast
  have fr: "gpu_frame m2 = gpu_frame ?m" "km_seq m2 = km_seq ?m" using al mo by simp_all
  have c2: "cpu_owned m2 {#}" using cpu gpu_frame_cpu [OF fr(1)] by simp
  have b2: "km_block_size m2 = ?bs" using fr(1) by (simp add: gpu_frame_def)
  show ?thesis
  proof (cases r)
    case None
    then have "allocate_with_prefix_cache env req s = (Inr (False, 0), s\<lparr>sc_kv := m2\<rparr>)"
      using bs mp al(1) by (simp add: allocate_with_prefix_cache_def Let_def k_def)
    moreover have "int (length (free_list (km_gpu ?m))) < ceil_div ?l ?bs"
    proof -
      have "int (length (free_list (km_gpu m1))) < ceil_div ?l ?bs - int (length cs)"
        using None al(4) unfolding k_def need by (simp add: zless_nat_eq_int_zless)
      with mf show ?thesis by linarith
    qed
    moreover have "kv_ok ids (s\<lparr>sc_kv := m2\<rparr>)"
      using None al(4) c2 fr b2 bs kv by (simp add: kv_ok_def mgr_inv_def)
    ultimately show ?thesis
      using cached_tokens_bounds(1) [OF bs, of env req] b2
      by (intro exI [of _ False] exI [of _ 0] exI [of _ "s\<lparr>sc_kv := m2\<rparr>"]) (simp add: queues_def)
  next
    case (Some new')
    let ?m3 = "set_block_table ?rid (cs @ new') m2"
    have "gpu_owned m2 (mset (cs @ new') + {#})" using Some al(4) by (simp add: ac_simps)
    then have "gpu_owned ?m3 {#}"
      by (rule set_block_table_owned) (use dom fr(2) in \<open>simp add: map_of_eq_None_iff\<close>)
    moreover have "cpu_owned ?m3 {#}" using c2 gpu_frame_cpu [OF seq_frame_simps(3)] by simp
    ultimately have "mgr_inv ?m3" by (simp add: mgr_inv_def)
    moreover have "fst ` set (km_seq ?m3) = insert ?rid (fst ` set (km_seq ?m))"
      by (simp add: set_block_table_def fr(2) update_absent [OF dom])
    moreover have "km_block_size ?m3 = ?bs" by (simp add: set_block_table_def b2)
    ultimately have ok3: "kv_ok (insert ?rid ids) t" if "sc_kv t = ?m3" for t
      using kv that by (auto simp: kv_ok_def)
    have "\<exists>s'. allocate_with_prefix_cache env req s = (Inr (True, ?n), s') \<and> sc_kv s' = ?m3 \<and>
        queues s' = queues s \<and> sc_reprefill s' = sc_reprefill s \<and> sc_swapped_ids s' = sc_swapped_ids s"
      using bs mp al(1) Some b2
      by (simp add: allocate_with_prefix_cache_def Let_def queues_def k_def set_block_table_def)
    then obtain s' where "allocate_with_prefix_cache env req s = (Inr (True, ?n), s')" "sc_kv s' = ?m3"
      "queues s' = queues s" "sc_reprefill s' = sc_reprefill s" "sc_swapped_ids s' = sc_swapped_ids s" by blast
    then show ?thesis
      using lec bs ok3 cached_tokens_bounds(1) [OF bs, of env req] by (intro exI [of _ True] exI [of _ ?n] exI [of _ s']) simp
  qed
qed

lemma transition_simps [simp]:
  "status r = RUNNING \<Longrightarrow> transition_to SWAPPED r = Inr (r\<lparr>status := SWAPPED\<rparr>)"
  "status r = WAITING \<Longrightarrow> transition_to RUNNING r = Inr (r\<lparr>status := RUNNING\<rparr>)"
  "status r = SWAPPED \<Longrightarrow> transition_to WAITING r = Inr (r\<lparr>status := WAITING\<rparr>)"
  by (simp_all add: transition_to_def)

lemma on_kv_Inr: "f (sc_kv s) = (Inr a, m) \<Longrightarrow> on_kv f s = (Inr a, s\<lparr>sc_kv := m\<rparr>)"
  by (simp add: on_kv_def)

lemma preempt_ok:
  assumes kv: "kv_ok ids s" and st: "status v = RUNNING"
  shows "\<exists>s'. preempt_with_transfer env v s = (Inr (v\<lparr>status := SWAPPED\<rparr>), s') \<and>
    kv_ok (ids - {request_id v}) s' \<and>
    queues s' = queues (s\<lparr>sc_swapped := sc_swapped s @ [v\<lparr>status := SWAPPED\<rparr>]\<rparr>)"
proof -
  let ?rid = "request_id v"
  have inv: "mgr_inv (sc_kv s)" and bs: "0 < km_block_size (sc_kv s)"
    and dom: "fst ` set (km_seq (sc_kv s)) \<subseteq> ids" using kv by (auto simp: kv_ok_def)
  from swap_out_kv [OF inv, of ?rid] obtain ps m1 where
    p: "prepare_swap_out ?rid (sc_kv s) = (Inr ps, m1)" "mgr_inv m1" "km_seq m1 = km_seq (sc_kv s)"
      "km_block_size m1 = km_block_size (sc_kv s)"
    and c: "ps \<noteq> [] \<Longrightarrow> \<exists>m2. commit_swap_out ?rid ps m1 = (Inr (), m2) \<and> mgr_inv m2 \<and>
       km_seq m2 = AList.delete ?rid (km_seq (sc_kv s)) \<and> km_block_size m2 = km_block_size (sc_kv s)"
    by blast
  let ?s1 = "s\<lparr>sc_kv := m1\<rparr>"
  note pp = on_kv_Inr [where f = "prepare_swap_out ?rid", OF p(1)]
  show ?thesis
  proof (cases "ps = []")
    case True
    have "kv_ok ids ?s1" using p bs dom by (simp add: kv_ok_def)
    from drop_sequence_ok [OF this, of env ?rid] obtain s2 where
      "drop_sequence env ?rid ?s1 = (Inr (), s2)" "kv_ok (ids - {?rid}) s2" "queues s2 = queues ?s1" by blast
    with True st pp p(4) show ?thesis
      by (auto simp: preempt_with_transfer_def Let_def queues_def kv_ok_def)
  next
    case False
    from c [OF False] obtain m2 where m2: "commit_swap_out ?rid ps m1 = (Inr (), m2)" "mgr_inv m2"
      "km_seq m2 = AList.delete ?rid (km_seq (sc_kv s))" "km_block_size m2 = km_block_size (sc_kv s)" by blast
    have ok2: "kv_ok (ids - {?rid}) t" if "sc_kv t = m2" for t
      using that m2 bs dom by (auto simp: kv_ok_def keys_delete_set)
    let ?s2 = "?s1\<lparr>sc_swapped_ids := (sc_swapped_ids s)(?rid \<mapsto> map fst ps)\<rparr>"
    let ?s3 = "start_transfer (swap_out_transfer ?rid (map fst ps)) ?s2"
    have com: "on_kv (commit_swap_out ?rid ps) ?s2 = (Inr (), ?s2\<lparr>sc_kv := m2\<rparr>)"
      "on_kv (commit_swap_out ?rid ps) ?s3 = (Inr (), ?s3\<lparr>sc_kv := m2\<rparr>)"
      using m2(1) by (simp_all add: on_kv_def start_transfer_def)
    from drop_sequence_ok [OF ok2, of "?s3\<lparr>sc_kv := m2\<rparr>" env ?rid] obtain s5 where
      s5: "drop_sequence env ?rid (?s3\<lparr>sc_kv := m2\<rparr>) = (Inr (), s5)" "kv_ok (ids - {?rid}) s5"
        "queues s5 = queues ?s3" by (auto simp: queues_def m2(4) p(4) start_transfer_def)
    show ?thesis
    proof (cases "se_transfer env")
      case None
      with False st pp com(1) ok2 m2(4) show ?thesis
        by (auto simp: preempt_with_transfer_def Let_def queues_def)
    next
      case (Some d)
      show ?thesis
      proof (cases "d (length (sc_transfers s))")
        case True
        with Some False st pp com(2) ok2 m2(4) show ?thesis
          by (auto simp: preempt_with_transfer_def Let_def queues_def start_transfer_def)
      next
        case nd: False
        with Some False st pp com(2) s5 p(4) show ?thesis
          by (auto simp: preempt_with_transfer_def Let_def queues_def start_transfer_def kv_ok_def)
      qed
    qed
  qed
qed

lemma swap_in_ok:
  assumes kv: "kv_ok ids s" and st: "status r = SWAPPED" and new: "request_id r \<notin> ids"
  shows "\<exists>b r' s'. swap_in_request env r s = (Inr (b, r'), s') \<and>
    (b = False \<and> r' = r \<and> kv_ok ids s' \<and> queues s' = queues s \<or>
     b = True \<and> r' = r\<lparr>status := WAITING\<rparr> \<and> kv_ok ids s' \<and>
       queues s' = queues (s\<lparr>sc_waiting := r' # sc_waiting s\<rparr>) \<or>
     b = True \<and> r' = r\<lparr>status := RUNNING\<rparr> \<and> kv_ok (insert (request_id r) ids) s' \<and>
       queues s' = queues (s\<lparr>sc_running := sc_running s @ [r']\<rparr>))"
proof (cases "request_id r \<in> set (sc_reprefill s)")
  case True
  with assms show ?thesis by (auto simp: swap_in_request_def Let_def queues_def kv_ok_def)
next
  case nr: False
  let ?rid = "request_id r"
  define orig where "orig = (case sc_swapped_ids s ?rid of None \<Rightarrow> [] | Some ids \<Rightarrow> ids)"
  have inv: "mgr_inv (sc_kv s)" and bs: "0 < km_block_size (sc_kv s)"
    and dom: "fst ` set (km_seq (sc_kv s)) \<subseteq> ids" using kv by (auto simp: kv_ok_def)
  then have "map_of (km_seq (sc_kv s)) ?rid = None" using new by (auto simp: map_of_eq_None_iff)
  from swap_in_kv [OF inv this, of orig] obtain ps m1 where
    p: "prepare_swap_in ?rid orig (sc_kv s) = (Inr ps, m1)" and b1: "km_block_size m1 = km_block_size (sc_kv s)" and
    q: "if ps = [] then mgr_inv m1 \<and> km_seq m1 = km_seq (sc_kv s)
        else \<exists>m2. commit_swap_in ?rid orig ps m1 = (Inr (), m2) \<and> mgr_inv m2 \<and>
          fst ` set (km_seq m2) = insert ?rid (fst ` set (km_seq (sc_kv s))) \<and>
          km_block_size m2 = km_block_size (sc_kv s)" by blast
  let ?s1 = "s\<lparr>sc_kv := m1\<rparr>"
  note pp = on_kv_Inr [where f = "prepare_swap_in ?rid orig", OF p]
  show ?thesis
  proof (cases "ps = []")
    case True
    with q b1 bs dom have "kv_ok ids ?s1" by (simp add: kv_ok_def)
    moreover have "swap_in_request env r s = (Inr (False, r), ?s1)"
      using True pp nr by (simp add: swap_in_request_def Let_def orig_def [symmetric])
    ultimately show ?thesis using b1 by (auto simp: queues_def)
  next
    case False
    with q obtain m2 where m2: "commit_swap_in ?rid orig ps m1 = (Inr (), m2)" "mgr_inv m2"
      "fst ` set (km_seq m2) = insert ?rid (fst ` set (km_seq (sc_kv s)))"
      "km_block_size m2 = km_block_size (sc_kv s)" by auto
    have ok2: "kv_ok (insert ?rid ids) t" if "sc_kv t = m2" for t
      using that m2 bs dom by (auto simp: kv_ok_def)
    let ?s2 = "start_transfer (swap_in_transfer ?rid (map fst ps)) ?s1"
    have com: "on_kv (commit_swap_in ?rid orig ps) ?s1 = (Inr (), ?s1\<lparr>sc_kv := m2\<rparr>)"
      "on_kv (commit_swap_in ?rid orig ps) ?s2 = (Inr (), ?s2\<lparr>sc_kv := m2\<rparr>)"
      using m2(1) by (simp_all add: on_kv_def start_transfer_def)
    have del: "insert ?rid ids - {?rid} = ids" using new by auto
    from drop_sequence_ok [OF ok2, of "?s2\<lparr>sc_kv := m2\<rparr>" env ?rid] obtain s4 where
      s4: "drop_sequence env ?rid (?s2\<lparr>sc_kv := m2\<rparr>) = (Inr (), s4)" "kv_ok ids s4"
        "queues s4 = queues ?s2" by (auto simp: queues_def del b1 m2(4) start_transfer_def)
    let ?r = "r\<lparr>status := RUNNING\<rparr>" and ?w = "r\<lparr>status := WAITING\<rparr>"
    let ?forget = "\<lambda>t. t\<lparr>sc_swapped_ids := (sc_swapped_ids t)(?rid := None)\<rparr>"
    let ?resume = "\<lambda>t. (?forget t)\<lparr>sc_running := sc_running t @ [?r]\<rparr>"
    have resumed: "\<exists>s'. x = (Inr (True, ?r), s') \<and> kv_ok (insert ?rid ids) s' \<and>
        queues s' = queues (s\<lparr>sc_running := sc_running s @ [?r]\<rparr>)"
      if "x = (Inr (True, ?r), ?resume t)" "sc_kv t = m2" "queues t = queues s" for x t
      using that ok2 by (auto simp: queues_def)
    consider (none) "se_transfer env = None"
      | (ok) d where "se_transfer env = Some d" "d (length (sc_transfers s))"
      | (fail) d where "se_transfer env = Some d" "\<not> d (length (sc_transfers s))" by fastforce
    then show ?thesis
    proof cases
      case none
      then have "swap_in_request env r s = (Inr (True, ?r), ?resume (?s1\<lparr>sc_kv := m2\<rparr>))"
        using False st pp com(1) nr by (simp add: swap_in_request_def Let_def orig_def [symmetric])
      from resumed [OF this] show ?thesis by (auto simp: queues_def m2(4))
    next
      case ok
      then have "swap_in_request env r s = (Inr (True, ?r), ?resume (?s2\<lparr>sc_kv := m2\<rparr>))"
        using False st pp com(2) nr by (simp add: swap_in_request_def Let_def orig_def [symmetric])
      from resumed [OF this] show ?thesis by (auto simp: queues_def m2(4) start_transfer_def)
    next
      case fail
      then have "swap_in_request env r s = (Inr (True, ?w),
          (?forget s4)\<lparr>sc_reprefill := List.insert ?rid (sc_reprefill s4), sc_waiting := ?w # sc_waiting s4\<rparr>)"
        using False st pp com(2) nr s4(1) by (simp add: swap_in_request_def Let_def orig_def [symmetric])
      then show ?thesis using s4(2,3) b1 by (auto simp: queues_def start_transfer_def kv_ok_def)
    qed
  qed
qed

section \<open>Scheduling keeps the queues in order\<close>

abbreviation rids :: "request list \<Rightarrow> string set" where
  "rids rs \<equiv> request_id ` set rs"

definition has_status :: "seq_status \<Rightarrow> request list \<Rightarrow> bool" where
  "has_status st rs \<longleftrightarrow> (\<forall>r \<in> set rs. status r = st)"

lemma has_status_simps [simp]:
  "has_status st []" "has_status st (r # rs) \<longleftrightarrow> status r = st \<and> has_status st rs"
  "has_status st (rs @ qs) \<longleftrightarrow> has_status st rs \<and> has_status st qs"
  "has_status st (map (\<lambda>r. r\<lparr>status := st\<rparr>) rs)"
  by (auto simp: has_status_def)

lemma has_status_drop: "has_status st rs \<Longrightarrow> has_status st (drop k rs)"
  by (auto simp: has_status_def dest: in_set_dropD)

abbreviation as_swapped :: "request list \<Rightarrow> request list" where
  "as_swapped \<equiv> map (\<lambda>r. r\<lparr>status := SWAPPED\<rparr>)"

abbreviation as_running :: "request list \<Rightarrow> request list" where
  "as_running \<equiv> map (\<lambda>r. r\<lparr>status := RUNNING\<rparr>)"

text \<open>\<open>hashes_in H s\<close>: the pool knows no hashes but those of \<open>H\<close>.\<close>

definition hashes_in :: "int set \<Rightarrow> sched \<Rightarrow> bool" where
  "hashes_in H s \<longleftrightarrow> sched_hashes s \<subseteq> H"

lemma hashes_in_upd [simp]:
  "hashes_in H (s\<lparr>sc_waiting := w\<rparr>) = hashes_in H s" "hashes_in H (s\<lparr>sc_running := w\<rparr>) = hashes_in H s"
  "hashes_in H (s\<lparr>sc_swapped := w\<rparr>) = hashes_in H s" "hashes_in H (s\<lparr>sc_reprefill := l\<rparr>) = hashes_in H s"
  "hashes_in H (s\<lparr>sc_swapped_ids := i\<rparr>) = hashes_in H s" "hashes_in H (s\<lparr>sc_generated := g\<rparr>) = hashes_in H s"
  "hashes_in H (start_transfer t s) = hashes_in H s"
  by (simp_all add: hashes_in_def)

lemma hashes_in_andthen:
  "hashes_in H (snd r) \<Longrightarrow> (\<And>a s. hashes_in H s \<Longrightarrow> hashes_in H (snd (f a s))) \<Longrightarrow> hashes_in H (snd (andthen r f))"
  unfolding hashes_in_def by (rule andthen_shrink)

lemma hashes_in_ops:
  "hashes_in H s \<Longrightarrow> hashes_in H (snd (on_kv (prepare_swap_out rid) s))"
  "hashes_in H s \<Longrightarrow> hashes_in H (snd (on_kv (commit_swap_out rid ps) s))"
  "hashes_in H s \<Longrightarrow> hashes_in H (snd (drop_sequence env rid s))"
  "hashes_in H s \<Longrightarrow> hashes_in H (snd (allocate_with_prefix_cache env req s))"
  unfolding hashes_in_def
  by (rule order_trans [OF on_kv_shrink], rule hashes_shrink, assumption)+
    (rule order_trans [OF drop_sequence_shrink], assumption, rule order_trans [OF allocate_shrink], assumption)

lemma hashes_in_preempt: "hashes_in H s \<Longrightarrow> hashes_in H (snd (preempt_with_transfer env v s))"
  unfolding preempt_with_transfer_def Let_def
  by (auto intro!: hashes_in_andthen hashes_in_ops split: sum.split option.split)

lemma hashes_in_make_room: "hashes_in H s \<Longrightarrow> hashes_in H (snd (make_room env req vs s))"
proof (induction vs arbitrary: s)
  case (Cons v vs)
  have more: "hashes_in H (snd (andthen (make_room env req vs t) (\<lambda>(vs, b) s3. (Inr (w # vs, b), s3))))" if "hashes_in H t" for w t
    by (rule hashes_in_andthen [OF Cons.IH [OF that]]) (simp add: case_prod_beta)
  show ?case unfolding make_room.simps
    by (intro hashes_in_andthen hashes_in_preempt hashes_in_ops) (use Cons.prems more in simp_all)
qed simp

lemma cached_tokens_in:
  "hashes_in (sched_hashes s) s' \<Longrightarrow> km_block_size (sc_kv s') = km_block_size (sc_kv s) \<Longrightarrow> 0 < km_block_size (sc_kv s) \<Longrightarrow>
     cached_tokens env s' req \<le> cached_tokens env s req"
  unfolding hashes_in_def by (rule cached_tokens_mono)

lemma make_room_ok:
  "kv_ok (rids vs \<union> A) s \<Longrightarrow> has_status RUNNING vs \<Longrightarrow> request_id req \<notin> rids vs \<union> A \<Longrightarrow>
   \<exists>k b n s'. make_room env req vs s = (Inr (as_swapped (take k vs), b, n), s') \<and>
     kv_ok (rids (drop k vs) \<union> A \<union> (if b then {request_id req} else {})) s' \<and>
     queues s' = queues (s\<lparr>sc_running := drop k vs, sc_swapped := sc_swapped s @ as_swapped (take k vs)\<rparr>) \<and>
     0 \<le> n \<and> n \<le> cached_tokens env s req"
proof (induction vs arbitrary: s)
  case Nil
  then show ?case
    by (intro exI [of _ 0] exI [of _ False] exI [of _ 0] exI [of _ "s\<lparr>sc_running := []\<rparr>"])
      (auto simp: queues_def kv_ok_def intro: cached_tokens_bounds)
next
  case (Cons v vs)
  let ?s0 = "s\<lparr>sc_running := vs\<rparr>" and ?v = "v\<lparr>status := SWAPPED\<rparr>"
  have "kv_ok (rids (v # vs) \<union> A) ?s0" "status v = RUNNING" using Cons.prems by (auto simp: kv_ok_def)
  from preempt_ok [OF this, of env] obtain s1 where
    s1: "preempt_with_transfer env v ?s0 = (Inr ?v, s1)" "kv_ok (rids (v # vs) \<union> A - {request_id v}) s1"
      "queues s1 = queues (?s0\<lparr>sc_swapped := sc_swapped s @ [?v]\<rparr>)" by auto
  have k1: "kv_ok (rids vs \<union> A) s1" using s1(2) by (rule kv_ok_mono) auto
  have nr: "request_id req \<notin> rids vs \<union> A" using Cons.prems(3) by auto
  from allocate_ok [OF k1 nr, of env] obtain b n s2 where
    s2: "allocate_with_prefix_cache env req s1 = (Inr (b, n), s2)"
      "kv_ok (if b then insert (request_id req) (rids vs \<union> A) else rids vs \<union> A) s2"
      "queues s2 = queues s1" "0 \<le> n" "n \<le> cached_tokens env s1 req" by blast
  have h1: "hashes_in (sched_hashes s) s1"
    using hashes_in_preempt [of "sched_hashes s" ?s0 env v] s1(1) by (simp add: hashes_in_def)
  then have h2: "hashes_in (sched_hashes s) s2" using hashes_in_ops(4) [of _ s1 env req] s2(1) by (metis snd_conv)
  have cb: "cached_tokens env s1 req \<le> cached_tokens env s req" "cached_tokens env s2 req \<le> cached_tokens env s req"
    using h1 h2 s1(3) s2(3) Cons.prems(1) by (auto intro!: cached_tokens_in simp: queues_def kv_ok_def)
  show ?case
  proof (cases b)
    case True
    then have "kv_ok (rids vs \<union> A \<union> {request_id req}) s2" using s2(2) by (auto intro: kv_ok_mono)
    with True s1 s2 cb show ?thesis
      by (intro exI [of _ 1] exI [of _ True] exI [of _ n] exI [of _ s2]) (simp add: queues_def)
  next
    case False
    then have k2: "kv_ok (rids vs \<union> A) s2" using s2(2) by simp
    have st: "has_status RUNNING vs" using Cons.prems(2) by simp
    from Cons.IH [OF k2 st nr] obtain k b' n' s3 where
      s3: "make_room env req vs s2 = (Inr (as_swapped (take k vs), b', n'), s3)"
        "kv_ok (rids (drop k vs) \<union> A \<union> (if b' then {request_id req} else {})) s3"
        "queues s3 = queues (s2\<lparr>sc_running := drop k vs, sc_swapped := sc_swapped s2 @ as_swapped (take k vs)\<rparr>)"
        "0 \<le> n'" "n' \<le> cached_tokens env s2 req" by blast
    with False s1 s2 cb show ?thesis
      by (intro exI [of _ "Suc k"] exI [of _ b'] exI [of _ n'] exI [of _ s3]) (simp add: queues_def)
  qed
qed

lemma distinct_requeue:
  assumes "distinct (map f ((r # ws) @ R @ N))" and "f r' = f r"
  shows "distinct (map f (ws @ drop j R @ N @ [r']))"
proof -
  have "distinct (map f ((r # ws) @ (take j R @ drop j R) @ N))" using assms(1) by simp
  with assms(2) show ?thesis by (auto simp del: append_take_drop_id)
qed

text \<open>
  What a list of admitted requests costs: for each its prompt less the tokens taken from
  the prefix cache, which are at most those the cache has.
\<close>

definition charged :: "sched_env \<Rightarrow> sched \<Rightarrow> request list \<Rightarrow> int \<Rightarrow> bool" where
  "charged env s rs t \<longleftrightarrow>
     (\<exists>cs. list_all2 (\<lambda>c r. 0 \<le> c \<and> c \<le> cached_tokens env s r) cs rs \<and>
        t = (\<Sum>(c, r) \<leftarrow> zip cs rs. int (length (prompt_token_ids r)) - c))"

lemma charged_Nil [simp]: "charged env s [] t \<longleftrightarrow> t = 0"
  by (simp add: charged_def)

lemma charged_Cons:
  "charged env s rs t \<Longrightarrow> 0 \<le> c \<Longrightarrow> c \<le> cached_tokens env s r \<Longrightarrow>
     charged env s (r # rs) (int (length (prompt_token_ids r)) - c + t)"
proof -
  assume "charged env s rs t" and c: "0 \<le> c" "c \<le> cached_tokens env s r"
  then obtain cs where "list_all2 (\<lambda>c r. 0 \<le> c \<and> c \<le> cached_tokens env s r) cs rs"
    "t = (\<Sum>(c, r) \<leftarrow> zip cs rs. int (length (prompt_token_ids r)) - c)" by (auto simp: charged_def)
  with c show ?thesis unfolding charged_def by (intro exI [of _ "c # cs"]) simp
qed

lemma charged_mono:
  assumes "charged env s rs t" and "sched_hashes s \<subseteq> sched_hashes s'" and "km_block_size (sc_kv s) = km_block_size (sc_kv s')"
    and "0 < km_block_size (sc_kv s')"
  shows "charged env s' rs t"
  using assms(1) cached_tokens_mono [OF assms(2-4), of env] unfolding charged_def
  by (blast intro: list.rel_mono_strong order_trans)

lemma charged_uncacheable:
  assumes "charged env s rs t" and "0 < km_block_size (sc_kv s)"
  shows "uncacheable s rs \<le> t"
proof -
  from assms(1) obtain cs where cs: "list_all2 (\<lambda>c r. 0 \<le> c \<and> c \<le> cached_tokens env s r) cs rs"
    and t: "t = (\<Sum>(c, r) \<leftarrow> zip cs rs. int (length (prompt_token_ids r)) - c)" by (auto simp: charged_def)
  from cs have "uncacheable s rs \<le> (\<Sum>(c, r) \<leftarrow> zip cs rs. int (length (prompt_token_ids r)) - c)"
  proof (induction rule: list_all2_induct)
    case (Cons c cs r rs)
    then show ?case using cached_tokens_bounds(2) [OF assms(2), of env r] by simp
  qed simp
  with t show ?thesis by simp
qed

lemma admit_ok:
  "kv_ok (rids (sc_running s) \<union> rids (ad_new a)) s \<Longrightarrow> has_status WAITING ws \<Longrightarrow>
   has_status RUNNING (sc_running s) \<Longrightarrow>
   distinct (map request_id (ws @ sc_running s @ ad_new a)) \<Longrightarrow>
   \<exists>k j t s'. admit env ws a s = (Inr \<lparr>ad_new = ad_new a @ as_running (take k ws),
        ad_preempted = ad_preempted a @ as_swapped (take j (sc_running s)), ad_tokens = t\<rparr>, s') \<and>
     queues s' = queues (s\<lparr>sc_waiting := drop k ws, sc_running := drop j (sc_running s),
        sc_swapped := sc_swapped s @ as_swapped (take j (sc_running s))\<rparr>) \<and>
     kv_ok (rids (drop j (sc_running s)) \<union> rids (ad_new a) \<union> rids (take k ws)) s' \<and>
     charged env s (take k ws) (t - ad_tokens a) \<and> ad_tokens a \<le> t \<and>
     t \<le> max (ad_tokens a) (sc_max_tokens s) \<and>
     int (length (drop j (sc_running s)) + length (ad_new a) + length (take k ws)) \<le>
       max (int (length (sc_running s) + length (ad_new a))) (sc_max_num_seqs s)"
proof (induction ws arbitrary: a s)
  case Nil
  then show ?case
    by (intro exI [of _ 0] exI [of _ 0] exI [of _ "ad_tokens a"] exI [of _ "s\<lparr>sc_waiting := []\<rparr>"])
      (auto simp: queues_def kv_ok_def)
next
  case (Cons r ws)
  let ?R = "sc_running s" and ?A = "rids (ad_new a)"
  show ?case
  proof (cases "int (length ?R + length (ad_new a)) \<ge> sc_max_num_seqs s")
    case True
    with Cons.prems(1) show ?thesis
      by (intro exI [of _ 0] exI [of _ 0] exI [of _ "ad_tokens a"] exI [of _ "s\<lparr>sc_waiting := r # ws\<rparr>"])
        (auto simp: queues_def kv_ok_def)
  next
    case room: False
    let ?s0 = "s\<lparr>sc_waiting := ws\<rparr>"
    have k0: "kv_ok (rids ?R \<union> ?A) ?s0" using Cons.prems(1) by (simp add: kv_ok_def)
    have nr: "request_id r \<notin> rids ?R \<union> ?A" using Cons.prems(4) by auto
    from allocate_ok [OF k0 nr, of env] obtain b0 n0 s1 where
      s1: "allocate_with_prefix_cache env r ?s0 = (Inr (b0, n0), s1)"
        "kv_ok (if b0 then insert (request_id r) (rids ?R \<union> ?A) else rids ?R \<union> ?A) s1"
        "queues s1 = queues ?s0" "0 \<le> n0" "n0 \<le> cached_tokens env ?s0 r" by blast
    have bs: "0 < km_block_size (sc_kv s)" using Cons.prems(1) by (simp add: kv_ok_def)
    have h1: "hashes_in (sched_hashes s) s1"
      using hashes_in_ops(4) [of "sched_hashes s" ?s0 env r] s1(1) by (simp add: hashes_in_def)
    have cb: "cached_tokens env s1 r \<le> cached_tokens env s r" "cached_tokens env ?s0 r = cached_tokens env s r"
      using cached_tokens_in [OF h1 _ bs] s1(3) by (simp_all add: queues_def cached_tokens_def)
    have "\<exists>j b n s2. (if b0 then (Inr ([], b0, n0), s1) else make_room env r (sc_running s1) s1) =
        (Inr (as_swapped (take j ?R), b, n), s2) \<and>
        kv_ok (rids (drop j ?R) \<union> ?A \<union> (if b then {request_id r} else {})) s2 \<and>
        queues s2 = queues (?s0\<lparr>sc_running := drop j ?R, sc_swapped := sc_swapped s @ as_swapped (take j ?R)\<rparr>) \<and>
        0 \<le> n \<and> n \<le> cached_tokens env s r \<and> hashes_in (sched_hashes s) s2"
    proof (cases b0)
      case True
      then have "kv_ok (rids ?R \<union> ?A \<union> {request_id r}) s1" using s1(2) by (auto intro: kv_ok_mono)
      with True s1 cb h1 show ?thesis
        by (intro exI [of _ 0] exI [of _ True] exI [of _ n0] exI [of _ s1]) (simp add: queues_def)
    next
      case False
      then have R: "sc_running s1 = ?R" "kv_ok (rids ?R \<union> ?A) s1" using s1 by (simp_all add: queues_def)
      from make_room_ok [OF R(2) Cons.prems(3) nr, of env] obtain k b n s2 where
        mr: "make_room env r ?R s1 = (Inr (as_swapped (take k ?R), b, n), s2)"
          "kv_ok (rids (drop k ?R) \<union> ?A \<union> (if b then {request_id r} else {})) s2"
          "queues s2 = queues (s1\<lparr>sc_running := drop k ?R, sc_swapped := sc_swapped s1 @ as_swapped (take k ?R)\<rparr>)"
          "0 \<le> n" "n \<le> cached_tokens env s1 r" by blast
      have "hashes_in (sched_hashes s) s2" using hashes_in_make_room [OF h1, of env r ?R] mr(1) by simp
      with mr R(1) False s1(3) cb show ?thesis
        by (intro exI [of _ k] exI [of _ b] exI [of _ n] exI [of _ s2]) (simp add: queues_def)
    qed
    then obtain j b n s2 where
      s2: "(if b0 then (Inr ([], b0, n0), s1) else make_room env r (sc_running s1) s1) =
        (Inr (as_swapped (take j ?R), b, n), s2)"
        "kv_ok (rids (drop j ?R) \<union> ?A \<union> (if b then {request_id r} else {})) s2"
        "queues s2 = queues (?s0\<lparr>sc_running := drop j ?R, sc_swapped := sc_swapped s @ as_swapped (take j ?R)\<rparr>)"
        "0 \<le> n" "n \<le> cached_tokens env s r" "hashes_in (sched_hashes s) s2" by blast
    define u where "u = int (length (prompt_token_ids r)) - n"
    have u: "0 \<le> u"
      using s2(5) cached_tokens_bounds(2) [OF bs, of env r] cacheable_le [OF bs, of r] by (simp add: u_def)
    have q2: "sc_waiting s2 = ws" "sc_running s2 = drop j ?R"
      "sc_swapped s2 = sc_swapped s @ as_swapped (take j ?R)" "sc_max_num_seqs s2 = sc_max_num_seqs s"
      "sc_max_tokens s2 = sc_max_tokens s" "km_block_size (sc_kv s2) = km_block_size (sc_kv s)"
      using s2(3) by (simp_all add: queues_def)
    let ?a1 = "a\<lparr>ad_preempted := ad_preempted a @ as_swapped (take j ?R)\<rparr>"
    have step: "admit env (r # ws) a s =
        (if \<not> b then (Inr ?a1, s2\<lparr>sc_waiting := r # ws\<rparr>)
         else if ad_tokens a + u > sc_max_tokens s2
         then andthen (drop_sequence env (request_id r) s2) (\<lambda>_ s3. (Inr ?a1, s3\<lparr>sc_waiting := r # ws\<rparr>))
         else admit env ws (?a1\<lparr>ad_new := ad_new a @ [r\<lparr>status := RUNNING\<rparr>], ad_tokens := ad_tokens a + u\<rparr>)
                (s2\<lparr>sc_generated := (sc_generated s2)(request_id r \<mapsto> 0)\<rparr>))"
      using room s1(1) s2(1) Cons.prems(2) by (simp add: u_def Let_def)
    have a1: "?a1 = \<lparr>ad_new = ad_new a @ as_running (take 0 (r # ws)),
        ad_preempted = ad_preempted a @ as_swapped (take j ?R), ad_tokens = ad_tokens a\<rparr>"
      by (cases a) simp
    consider (stuck) "\<not> b" | (over) "b" "ad_tokens a + u > sc_max_tokens s" | (fits) "b" "ad_tokens a + u \<le> sc_max_tokens s"
      by fastforce
    then show ?thesis
    proof cases
      case stuck
      with step a1 s2(2) q2 show ?thesis
        by (intro exI [of _ 0] exI [of _ j] exI [of _ "ad_tokens a"] exI [of _ "s2\<lparr>sc_waiting := r # ws\<rparr>"])
          (auto simp: queues_def kv_ok_def)
    next
      case over
      from drop_sequence_ok [OF s2(2), of env "request_id r"] obtain s3 where
        s3: "drop_sequence env (request_id r) s2 = (Inr (), s3)" "queues s3 = queues s2"
          "kv_ok (rids (drop j ?R) \<union> ?A \<union> (if b then {request_id r} else {}) - {request_id r}) s3" by blast
      have "kv_ok (rids (drop j ?R) \<union> ?A) (s3\<lparr>sc_waiting := r # ws\<rparr>)"
        using s3(3) by (rule kv_ok_mono) (auto split: if_splits)
      with over step a1 s3 q2 show ?thesis
        by (intro exI [of _ 0] exI [of _ j] exI [of _ "ad_tokens a"] exI [of _ "s3\<lparr>sc_waiting := r # ws\<rparr>"])
          (auto simp: queues_def)
    next
      case fits
      let ?r = "r\<lparr>status := RUNNING\<rparr>"
      let ?a = "?a1\<lparr>ad_new := ad_new a @ [?r], ad_tokens := ad_tokens a + u\<rparr>"
      let ?s = "s2\<lparr>sc_generated := (sc_generated s2)(request_id r \<mapsto> 0)\<rparr>"
      have eq: "admit env (r # ws) a s = admit env ws ?a ?s" using step fits q2(5) by simp
      have p1: "kv_ok (rids (sc_running ?s) \<union> rids (ad_new ?a)) ?s"
        using s2(2) by (rule kv_ok_mono) (auto simp: q2 split: if_splits)
      have p2: "has_status WAITING ws" "has_status RUNNING (sc_running ?s)"
        using Cons.prems(2,3) by (simp_all add: q2 has_status_drop)
      have p3: "distinct (map request_id (ws @ sc_running ?s @ ad_new ?a))"
        using distinct_requeue [OF Cons.prems(4), of ?r j] by (simp add: q2)
      from Cons.IH [OF p1 p2 p3] obtain k j' t s' where
        ih: "admit env ws ?a ?s = (Inr \<lparr>ad_new = ad_new ?a @ as_running (take k ws),
            ad_preempted = ad_preempted ?a @ as_swapped (take j' (sc_running ?s)), ad_tokens = t\<rparr>, s')"
          "queues s' = queues (?s\<lparr>sc_waiting := drop k ws, sc_running := drop j' (sc_running ?s),
            sc_swapped := sc_swapped ?s @ as_swapped (take j' (sc_running ?s))\<rparr>)"
          "kv_ok (rids (drop j' (sc_running ?s)) \<union> rids (ad_new ?a) \<union> rids (take k ws)) s'"
          "charged env ?s (take k ws) (t - ad_tokens ?a)" "ad_tokens ?a \<le> t" "t \<le> max (ad_tokens ?a) (sc_max_tokens ?s)"
          "int (length (drop j' (sc_running ?s)) + length (ad_new ?a) + length (take k ws)) \<le>
             max (int (length (sc_running ?s) + length (ad_new ?a))) (sc_max_num_seqs ?s)" by blast
      have tk: "as_swapped (take j ?R) @ as_swapped (take j' (drop j ?R)) = as_swapped (take (j + j') ?R)"
        by (simp add: take_add)
      have dk: "drop j' (drop j ?R) = drop (j + j') ?R" by (simp add: add.commute)
      show ?thesis
      proof (intro exI conjI)
        show "admit env (r # ws) a s = (Inr \<lparr>ad_new = ad_new a @ as_running (take (Suc k) (r # ws)),
            ad_preempted = ad_preempted a @ as_swapped (take (j + j') ?R), ad_tokens = t\<rparr>, s')"
          using eq ih(1) tk by (simp add: q2)
        show "queues s' = queues (s\<lparr>sc_waiting := drop (Suc k) (r # ws), sc_running := drop (j + j') ?R,
            sc_swapped := sc_swapped s @ as_swapped (take (j + j') ?R)\<rparr>)"
          using ih(2) q2 dk tk by (simp add: queues_def)
        show "kv_ok (rids (drop (j + j') ?R) \<union> ?A \<union> rids (take (Suc k) (r # ws))) s'"
          using ih(3) q2(2) dk by (auto intro: kv_ok_mono)
        have "charged env s (take k ws) (t - ad_tokens ?a)"
          by (rule charged_mono [OF ih(4)]) (use s2(6) bs q2 in \<open>simp_all add: hashes_in_def\<close>)
        then show "charged env s (take (Suc k) (r # ws)) (t - ad_tokens a)"
          using charged_Cons [of env s "take k ws" "t - ad_tokens ?a" n r] s2(4,5) by (simp add: u_def algebra_simps)
        show "ad_tokens a \<le> t" "t \<le> max (ad_tokens a) (sc_max_tokens s)"
          using ih(5,6) u fits(2) q2(5) by auto
        show "int (length (drop (j + j') ?R) + length (ad_new a) + length (take (Suc k) (r # ws))) \<le>
            max (int (length ?R + length (ad_new a))) (sc_max_num_seqs s)"
          using ih(7) room q2(2,4) dk by auto
      qed
    qed
  qed
qed

lemma swap_in_all_ok:
  "kv_ok (rids (sc_running s)) s \<Longrightarrow> has_status WAITING (sc_waiting s) \<Longrightarrow>
   has_status RUNNING (sc_running s) \<Longrightarrow> has_status SWAPPED (sc_swapped s) \<Longrightarrow> has_status SWAPPED ps \<Longrightarrow>
   distinct (map request_id (sc_running s @ ps)) \<Longrightarrow>
   \<exists>si s'. swap_in_all env ps s = (Inr si, s') \<and> kv_ok (rids (sc_running s')) s' \<and>
     has_status WAITING (sc_waiting s') \<and> has_status RUNNING (sc_running s') \<and>
     has_status SWAPPED (sc_swapped s') \<and>
     mset (map request_id (sc_waiting s' @ sc_running s' @ sc_swapped s')) =
       mset (map request_id (sc_waiting s @ sc_running s @ sc_swapped s @ ps)) \<and>
     int (length (sc_running s')) \<le> max (int (length (sc_running s))) (sc_max_num_seqs s) \<and>
     sc_max_num_seqs s' = sc_max_num_seqs s \<and> sc_max_tokens s' = sc_max_tokens s \<and>
     (\<exists>zs. sc_running s' = sc_running s @ zs) \<and> (\<exists>ys. sc_waiting s' = ys @ sc_waiting s)"
proof (induction ps arbitrary: s)
  case Nil
  then show ?case by auto
next
  case (Cons r ps)
  have disj: "distinct (map request_id (sc_running s @ ps))" "request_id r \<notin> rids (sc_running s)"
    using Cons.prems(6) by auto
  show ?case
  proof (cases "int (length (sc_running s)) \<ge> sc_max_num_seqs s")
    case True
    let ?s = "s\<lparr>sc_swapped := sc_swapped s @ [r]\<rparr>"
    have "kv_ok (rids (sc_running ?s)) ?s" using Cons.prems(1) by (simp add: kv_ok_def)
    from Cons.IH [OF this] Cons.prems disj True show ?thesis by (simp add: ac_simps)
  next
    case False
    from swap_in_ok [OF Cons.prems(1) _ disj(2), of env] Cons.prems(5) obtain b r' s1 where
      s1: "swap_in_request env r s = (Inr (b, r'), s1)"
      and c: "b = False \<and> r' = r \<and> kv_ok (rids (sc_running s)) s1 \<and> queues s1 = queues s \<or>
       b = True \<and> r' = r\<lparr>status := WAITING\<rparr> \<and> kv_ok (rids (sc_running s)) s1 \<and>
         queues s1 = queues (s\<lparr>sc_waiting := r' # sc_waiting s\<rparr>) \<or>
       b = True \<and> r' = r\<lparr>status := RUNNING\<rparr> \<and> kv_ok (insert (request_id r) (rids (sc_running s))) s1 \<and>
         queues s1 = queues (s\<lparr>sc_running := sc_running s @ [r']\<rparr>)" by fastforce
    from c consider
        (no) "\<not> b" "r' = r" "kv_ok (rids (sc_running s)) s1" "queues s1 = queues s"
      | (wait) "b" "r' = r\<lparr>status := WAITING\<rparr>" "kv_ok (rids (sc_running s)) s1"
          "queues s1 = queues (s\<lparr>sc_waiting := r' # sc_waiting s\<rparr>)"
      | (run) "b" "r' = r\<lparr>status := RUNNING\<rparr>" "kv_ok (insert (request_id r) (rids (sc_running s))) s1"
          "queues s1 = queues (s\<lparr>sc_running := sc_running s @ [r']\<rparr>)"
      by blast
    then show ?thesis
    proof cases
      case no
      let ?s = "s1\<lparr>sc_swapped := sc_swapped s1 @ [r]\<rparr>"
      have eq: "swap_in_all env (r # ps) s = swap_in_all env ps ?s" using False s1 no by simp
      have "kv_ok (rids (sc_running ?s)) ?s" using no by (simp add: kv_ok_def queues_def)
      from Cons.IH [OF this] Cons.prems disj no show ?thesis
        unfolding eq by (simp add: queues_def ac_simps)
    next
      case wait
      have eq: "swap_in_all env (r # ps) s = andthen (swap_in_all env ps s1) (\<lambda>rs s2. (Inr (r' # rs), s2))"
        using False s1 wait by simp
      have k: "kv_ok (rids (sc_running s1)) s1" using wait by (simp add: queues_def)
      from Cons.IH [OF k] Cons.prems disj wait show ?thesis
        unfolding eq by (auto simp: queues_def ac_simps)
    next
      case run
      have eq: "swap_in_all env (r # ps) s = andthen (swap_in_all env ps s1) (\<lambda>rs s2. (Inr (r' # rs), s2))"
        using False s1 run by simp
      have k: "kv_ok (rids (sc_running s1)) s1" using run by (simp add: queues_def)
      have "distinct (map request_id (sc_running s1 @ ps))"
        using Cons.prems(6) run by (auto simp: queues_def)
      from Cons.IH [OF k _ _ _ _ this] Cons.prems run False show ?thesis
        unfolding eq by (auto simp: queues_def ac_simps)
    qed
  qed
qed

lemma decode_running_facts:
  assumes "decode_running ids mx rs n gen = (ds, n', gen')"
  shows "set ds \<subseteq> set rs \<and> n' = n + int (length ds) \<and> n' \<le> max n mx \<and> rids ds \<inter> set ids = {} \<and>
    (distinct (map request_id rs) \<longrightarrow> distinct (map request_id ds))"
  using assms
proof (induction ids mx rs n gen arbitrary: ds n' gen' rule: decode_running.induct)
  case (2 ids mx r rs n gen)
  let ?g = "gen(request_id r \<mapsto> (case gen (request_id r) of None \<Rightarrow> 0 | Some k \<Rightarrow> k) + 1)"
  obtain es m g where e: "decode_running ids mx rs (n + 1) ?g = (es, m, g)" by (metis prod_cases3)
  consider "request_id r \<in> set ids" | "request_id r \<notin> set ids" "n + 1 > mx"
    | "request_id r \<notin> set ids" "n + 1 \<le> mx" by fastforce
  then show ?case
  proof cases
    case 1
    with "2.IH"(1) "2.prems" show ?thesis by auto
  next
    case 2
    with "2.prems" show ?thesis by simp
  next
    case 3
    with "2.prems" e have "ds = r # es" "n' = m" by auto
    with "2.IH"(2) [OF 3(1) _ e] 3 show ?thesis by fastforce
  qed
qed simp

section \<open>The invariant of the scheduler\<close>

definition sched_ok :: "sched \<Rightarrow> bool" where
  "sched_ok s \<longleftrightarrow>
     kv_ok (rids (sc_running s)) s \<and> has_status WAITING (sc_waiting s) \<and>
     has_status RUNNING (sc_running s) \<and> has_status SWAPPED (sc_swapped s) \<and>
     distinct (map request_id (sc_waiting s @ sc_running s @ sc_swapped s)) \<and>
     int (length (sc_running s)) \<le> max 0 (sc_max_num_seqs s)"

lemma reorder_waiting_perm: "mset (reorder_waiting env ws) = mset ws"
  by (simp add: reorder_waiting_def)

lemma schedule_ok:
  assumes ok: "sched_ok s"
  shows "\<exists>out s'. schedule env s = (Inr out, s') \<and> sched_ok s' \<and>
    mset (map request_id (sc_waiting s' @ sc_running s' @ sc_swapped s')) =
      mset (map request_id (sc_waiting s @ sc_running s @ sc_swapped s)) \<and>
    so_tokens out \<le> max 0 (sc_max_tokens s) \<and> set (so_scheduled out) \<subseteq> set (sc_running s') \<and>
    distinct (map request_id (so_scheduled out)) \<and>
    (\<exists>k ds ys n. so_scheduled out = as_running (take k (reorder_waiting env (sc_waiting s))) @ ds \<and>
       sc_waiting s' = ys @ drop k (reorder_waiting env (sc_waiting s)) \<and>
       charged env s (take k (reorder_waiting env (sc_waiting s))) n \<and> so_tokens out = n + int (length ds))"
proof -
  define ws where "ws = reorder_waiting env (sc_waiting s)"
  let ?R = "sc_running s" and ?S = "sc_swapped s"
  let ?s1 = "s\<lparr>sc_swapped := [], sc_waiting := ws\<rparr>"
  let ?a0 = "\<lparr>ad_new = [], ad_preempted = [], ad_tokens = 0\<rparr>"
  have ws: "mset ws = mset (sc_waiting s)" by (simp add: ws_def reorder_waiting_perm)
  have st: "has_status WAITING ws" using ok ws by (auto simp: sched_ok_def has_status_def dest: mset_eq_setD)
  have "mset (map request_id (ws @ ?R @ ?S)) = mset (map request_id (sc_waiting s @ ?R @ ?S))"
    using ws by simp
  then have dis: "distinct (map request_id (ws @ ?R @ ?S))"
    using ok mset_eq_imp_distinct_iff unfolding sched_ok_def by blast
  have "kv_ok (rids (sc_running ?s1) \<union> rids (ad_new ?a0)) ?s1" "has_status RUNNING (sc_running ?s1)"
    "distinct (map request_id (ws @ sc_running ?s1 @ ad_new ?a0))"
    using ok dis by (auto simp: sched_ok_def kv_ok_def)
  from admit_ok [OF this(1) st this(2,3), of env] obtain k j t s2 where
    a: "admit env ws ?a0 ?s1 = (Inr \<lparr>ad_new = as_running (take k ws),
         ad_preempted = as_swapped (take j ?R), ad_tokens = t\<rparr>, s2)"
    and q: "queues s2 = queues (?s1\<lparr>sc_waiting := drop k ws, sc_running := drop j ?R,
         sc_swapped := as_swapped (take j ?R)\<rparr>)"
    and kv: "kv_ok (rids (drop j ?R) \<union> rids (take k ws)) s2"
    and t: "0 \<le> t" "t \<le> max 0 (sc_max_tokens s)" "charged env ?s1 (take k ws) t"
    and len: "int (length (drop j ?R) + length (take k ws)) \<le> max (int (length ?R)) (sc_max_num_seqs s)"
    by auto
  let ?N = "as_running (take k ws)" and ?s3 = "s2\<lparr>sc_running := drop j ?R @ as_running (take k ws)\<rparr>"
  have q2: "sc_waiting s2 = drop k ws" "sc_running s2 = drop j ?R" "sc_swapped s2 = as_swapped (take j ?R)"
    "sc_max_num_seqs s2 = sc_max_num_seqs s" "sc_max_tokens s2 = sc_max_tokens s"
    using q by (simp_all add: queues_def)
  have ids: "mset (map request_id (drop k ws @ (drop j ?R @ ?N) @ as_swapped (take j ?R) @ ?S)) =
      mset (map request_id (ws @ ?R @ ?S))"
  proof -
    have "mset (map request_id (ws @ ?R @ ?S)) =
        mset (map request_id ((take k ws @ drop k ws) @ (take j ?R @ drop j ?R) @ ?S))" by simp
    then show ?thesis by (simp add: comp_def del: append_take_drop_id)
  qed
  then have dis2: "distinct (map request_id (drop k ws @ (drop j ?R @ ?N) @ as_swapped (take j ?R) @ ?S))"
    using dis mset_eq_imp_distinct_iff by blast
  have "kv_ok (rids (sc_running ?s3)) ?s3" using kv by (rule kv_ok_mono) (auto simp: image_Un image_image)
  moreover have "has_status WAITING (sc_waiting ?s3)" "has_status RUNNING (sc_running ?s3)"
    "has_status SWAPPED (sc_swapped ?s3)" "has_status SWAPPED ?S"
    using ok st by (simp_all add: q2 sched_ok_def has_status_drop)
  moreover have "distinct (map request_id (sc_running ?s3 @ ?S))" using dis2 by auto
  ultimately obtain si s4 where s4: "swap_in_all env ?S ?s3 = (Inr si, s4)" "kv_ok (rids (sc_running s4)) s4"
    "has_status WAITING (sc_waiting s4)" "has_status RUNNING (sc_running s4)" "has_status SWAPPED (sc_swapped s4)"
    "mset (map request_id (sc_waiting s4 @ sc_running s4 @ sc_swapped s4)) =
       mset (map request_id (sc_waiting ?s3 @ sc_running ?s3 @ sc_swapped ?s3 @ ?S))"
    "int (length (sc_running s4)) \<le> max (int (length (sc_running ?s3))) (sc_max_num_seqs ?s3)"
    "sc_max_num_seqs s4 = sc_max_num_seqs ?s3" "sc_max_tokens s4 = sc_max_tokens ?s3"
    "\<exists>zs. sc_running s4 = sc_running ?s3 @ zs" "\<exists>ys. sc_waiting s4 = ys @ sc_waiting ?s3"
    using swap_in_all_ok [of ?s3 ?S env] by blast
  have m4: "mset (map request_id (sc_waiting s4 @ sc_running s4 @ sc_swapped s4)) =
      mset (map request_id (sc_waiting s @ ?R @ ?S))"
    using s4(6) ids ws by (simp add: q2)
  then have dis4: "distinct (map request_id (sc_waiting s4 @ sc_running s4 @ sc_swapped s4))"
    using ok mset_eq_imp_distinct_iff unfolding sched_ok_def by blast
  obtain ds n gen where d: "decode_running (map request_id ?N) (sc_max_tokens s4) (sc_running s4) t
      (sc_generated s4) = (ds, n, gen)" by (metis prod_cases3)
  note df = decode_running_facts [OF d]
  let ?s' = "s4\<lparr>sc_generated := gen\<rparr>"
  let ?out = "\<lparr>so_scheduled = ?N @ ds, so_preempted = as_swapped (take j ?R), so_swapped_in = si, so_tokens = n\<rparr>"
  have eq: "schedule env s = (Inr ?out, ?s')"
    using a s4(1) d by (simp add: schedule_def ws_def [symmetric] q2 Let_def)
  have "int (length (sc_running s4)) \<le> max 0 (sc_max_num_seqs s4)"
  proof -
    have "int (length ?R) \<le> max 0 (sc_max_num_seqs s)" using ok by (simp add: sched_ok_def)
    moreover have "int (length (sc_running ?s3)) \<le> max (int (length ?R)) (sc_max_num_seqs s)"
      using len by simp
    moreover have "int (length (sc_running s4)) \<le> max (int (length (sc_running ?s3))) (sc_max_num_seqs s)"
      "sc_max_num_seqs s4 = sc_max_num_seqs s" using s4(7,8) q2(4) by simp_all
    ultimately show ?thesis unfolding le_max_iff_disj by linarith
  qed
  then have "sched_ok ?s'"
    using s4(2-5) dis4 unfolding sched_ok_def by (simp add: kv_ok_def)
  moreover have "so_tokens ?out \<le> max 0 (sc_max_tokens s)" using df t s4(9) q2(5) by auto
  moreover have "set (?N @ ds) \<subseteq> set (sc_running s4)" using df s4(10) by auto
  moreover have "distinct (map request_id (?N @ ds))"
    using df dis4 dis2 by (auto simp: image_image)
  moreover have "charged env s (take k ws) t"
    using t(3) by (simp add: charged_def cached_tokens_def)
  then have "\<exists>i es ys c. ?N @ ds = as_running (take i ws) @ es \<and> sc_waiting s4 = ys @ drop i ws \<and>
      charged env s (take i ws) c \<and> n = c + int (length es)"
    using s4(11) q2(1) df by auto
  ultimately show ?thesis using eq m4 by (auto simp: ws_def)
qed

lemma register_blocks_inv:
  "mgr_inv m \<Longrightarrow> mgr_inv (register_blocks h bs prompt blocks is parent m) \<and>
   km_seq (register_blocks h bs prompt blocks is parent m) = km_seq m \<and>
   km_block_size (register_blocks h bs prompt blocks is parent m) = km_block_size m"
proof (induction h bs prompt blocks "is" parent m rule: register_blocks.induct)
  case (2 h bs prompt blocks i "is" parent m)
  show ?case
  proof (cases "i \<ge> length blocks \<or> get_gpu_block (blocks ! i) m = None")
    case True
    with "2.prems" show ?thesis by (auto simp: Let_def)
  next
    case False
    then obtain b where b: "i < length blocks" "get_gpu_block (blocks ! i) m = Some b" by auto
    from "2.IH" [OF _ refl b(2)] b cache_gpu_block_inv [OF "2.prems" b(2)] show ?thesis
      by (simp add: Let_def cache_gpu_block_def)
  qed
qed simp

lemma sched_finish_ok:
  assumes ok: "sched_ok s"
  shows "\<exists>s'. sched_finish_request env rid s = (Inr (), s') \<and> sched_ok s' \<and>
    sc_waiting s' = filter (\<lambda>r. request_id r \<noteq> rid) (sc_waiting s) \<and>
    sc_running s' = filter (\<lambda>r. request_id r \<noteq> rid) (sc_running s) \<and>
    sc_swapped s' = filter (\<lambda>r. request_id r \<noteq> rid) (sc_swapped s) \<and>
    get_block_table rid (sc_kv s') = []"
proof -
  let ?x = "case List.find (\<lambda>r. request_id r = rid) (sc_waiting s @ sc_running s @ sc_swapped s) of
      None \<Rightarrow> (Inr (), s)
    | Some req \<Rightarrow> if get_block_table rid (sc_kv s) \<noteq> [] then register_completed_blocks_in_cache env req s
        else (Inr (), s)"
  let ?f = "filter (\<lambda>r. request_id r \<noteq> rid)"
  have kv: "kv_ok (rids (sc_running s)) s" using ok by (simp add: sched_ok_def)
  have "\<exists>m. ?x = (Inr (), s\<lparr>sc_kv := m\<rparr>) \<and> mgr_inv m \<and> km_seq m = km_seq (sc_kv s) \<and>
      km_block_size m = km_block_size (sc_kv s)"
  proof -
    have "\<exists>m. register_completed_blocks_in_cache env req s = (Inr (), s\<lparr>sc_kv := m\<rparr>) \<and> mgr_inv m \<and>
        km_seq m = km_seq (sc_kv s) \<and> km_block_size m = km_block_size (sc_kv s)" for req
      using kv register_blocks_inv [of "sc_kv s"]
      by (auto simp: register_completed_blocks_in_cache_def Let_def kv_ok_def)
    moreover have "\<exists>m. (Inr (), s) = (Inr (), s\<lparr>sc_kv := m\<rparr>) \<and> mgr_inv m \<and>
        km_seq m = km_seq (sc_kv s) \<and> km_block_size m = km_block_size (sc_kv s)"
      using kv by (intro exI [of _ "sc_kv s"]) (simp add: kv_ok_def)
    ultimately show ?thesis by (auto split: option.splits)
  qed
  then obtain m where m: "?x = (Inr (), s\<lparr>sc_kv := m\<rparr>)" "mgr_inv m" "km_seq m = km_seq (sc_kv s)"
    "km_block_size m = km_block_size (sc_kv s)" by blast
  let ?s1 = "s\<lparr>sc_kv := m, sc_waiting := ?f (sc_waiting s), sc_running := ?f (sc_running s),
     sc_swapped := ?f (sc_swapped s), sc_swapped_ids := (sc_swapped_ids s)(rid := None),
     sc_reprefill := removeAll rid (sc_reprefill s), sc_generated := (sc_generated s)(rid := None)\<rparr>"
  have "kv_ok (rids (sc_running s)) ?s1" using kv m by (simp add: kv_ok_def)
  from drop_sequence_ok [OF this, of env rid] obtain s2 where
    s2: "drop_sequence env rid ?s1 = (Inr (), s2)" "kv_ok (rids (sc_running s) - {rid}) s2"
      "queues s2 = queues ?s1" by blast
  have eq: "sched_finish_request env rid s = (Inr (), s2)"
    using m(1) s2(1) by (simp add: sched_finish_request_def Let_def)
  have r: "rids (?f (sc_running s)) = rids (sc_running s) - {rid}" by auto
  have "has_status st xs \<Longrightarrow> has_status st (?f xs)" for st xs by (auto simp: has_status_def)
  moreover have "distinct (map request_id (?f xs))" if "distinct (map request_id xs)" for xs
    using that by (simp add: distinct_map_filter)
  from this [of "sc_waiting s @ sc_running s @ sc_swapped s"] ok
  have "distinct (map request_id (?f (sc_waiting s) @ ?f (sc_running s) @ ?f (sc_swapped s)))"
    by (simp add: sched_ok_def)
  moreover have "int (length (?f (sc_running s))) \<le> max 0 (sc_max_num_seqs s)"
    using ok length_filter_le [of "\<lambda>r. request_id r \<noteq> rid" "sc_running s"] unfolding sched_ok_def by linarith
  moreover have "map_of (km_seq (sc_kv s2)) rid = None"
    using s2(2) by (auto simp: kv_ok_def map_of_eq_None_iff)
  ultimately show ?thesis using eq s2 ok r
    by (simp add: sched_ok_def queues_def get_block_table_def seq_blocks_def)
qed

section \<open>Runs of the scheduler\<close>

text \<open>
  Clients add waiting requests under new identifiers, schedule, finish or
  abort requests, and the generation loop grows the block table of a running
  request.
\<close>

inductive sched_step :: "sched_env \<Rightarrow> sched \<Rightarrow> sched \<Rightarrow> bool" for env where
  ss_add: "status r = WAITING \<Longrightarrow> request_id r \<notin> rids (sc_waiting s @ sc_running s @ sc_swapped s) \<Longrightarrow>
     sched_step env s (sched_add r s)"
| ss_schedule: "schedule env s = (x, s') \<Longrightarrow> sched_step env s s'"
| ss_finish: "sched_finish_request env rid s = (y, s') \<Longrightarrow> sched_step env s s'"
| ss_grow: "rid \<in> rids (sc_running s) \<Longrightarrow> append_token_block rid (sc_kv s) = (b, m) \<Longrightarrow>
     sched_step env s (s\<lparr>sc_kv := m\<rparr>)"

inductive sched_reach :: "sched_env \<Rightarrow> nat \<Rightarrow> nat \<Rightarrow> int \<Rightarrow> int \<Rightarrow> int \<Rightarrow> sched \<Rightarrow> bool"
  for env g c bs mseqs mtok where
  sr_init: "sched_reach env g c bs mseqs mtok (sched_init (kv_mgr_init g c bs) mseqs mtok)"
| sr_step: "sched_reach env g c bs mseqs mtok s \<Longrightarrow> sched_step env s s' \<Longrightarrow>
     sched_reach env g c bs mseqs mtok s'"

lemma append_token_keys:
  assumes "append_token_block rid m = (b, m')"
  shows "fst ` set (km_seq m') \<subseteq> insert rid (fst ` set (km_seq m)) \<and> km_block_size m' = km_block_size m"
proof -
  obtain r m1 where a: "allocate_gpu_block m = (r, m1)" by fastforce
  then have "km_seq m1 = km_seq m" "km_block_size m1 = km_block_size m"
    by (auto simp: allocate_gpu_block_def Let_def split: prod.splits option.splits)
  moreover have "(\<exists>v. km_seq m' = AList.update rid v (km_seq m1)) \<and> km_block_size m' = km_block_size m1 \<or> m' = m1"
    using assms a by (cases r) (auto simp: append_token_block_def)
  ultimately show ?thesis by (elim disjE conjE exE) (simp_all add: keys_update subset_insertI)
qed

lemma sched_step_ok: "sched_step env s s' \<Longrightarrow> sched_ok s \<Longrightarrow> sched_ok s'"
proof (induction rule: sched_step.induct)
  case (ss_add r s)
  then show ?case by (auto simp: sched_ok_def sched_add_def kv_ok_def)
next
  case (ss_schedule s x s')
  with schedule_ok [of s env] show ?case by auto
next
  case (ss_finish rid s y s')
  with sched_finish_ok [of s env rid] show ?case by auto
next
  case (ss_grow rid s b m)
  then have "kv_ok (rids (sc_running s)) (s\<lparr>sc_kv := m\<rparr>)"
    using append_token_block_inv [of "sc_kv s" rid b m] append_token_keys [of rid "sc_kv s" b m]
    by (auto simp: sched_ok_def kv_ok_def)
  with ss_grow show ?case by (auto simp: sched_ok_def)
qed

lemma sched_reach_ok: "sched_reach env g c bs mseqs mtok s \<Longrightarrow> 0 < bs \<Longrightarrow> sched_ok s"
proof (induction rule: sched_reach.induct)
  case sr_init
  then show ?case
    using mgr_inv_init [of g c bs]
    by (simp add: sched_ok_def sched_init_def kv_ok_def kv_mgr_init_def)
next
  case (sr_step s s')
  then show ?case using sched_step_ok by blast
qed

section \<open>Admission of the head of the queue\<close>

lemma admit_extends: "admit env ws a s = (Inr a', s') \<Longrightarrow> \<exists>zs. ad_new a' = ad_new a @ zs"
proof (induction ws arbitrary: a s)
  case Nil
  then show ?case by simp
next
  case (Cons r ws)
  then show ?case
    by (auto simp: andthen_Inr_iff Let_def split: if_splits sum.splits dest!: Cons.IH)
qed

lemma num_free_gpu_free_list: "mgr_inv m \<Longrightarrow> num_free_gpu_blocks m = int (length (free_list (km_gpu m)))"
  by (auto simp: mgr_inv_def gpu_owned_def pool_inv_def pool_ok_def num_free_gpu_blocks_def num_free_blocks_def
      dest: fq.rep_len)

lemma admit_head:
  assumes kv: "kv_ok (rids (sc_running s)) s" and st: "status r = WAITING"
    and new: "request_id r \<notin> rids (sc_running s)"
    and seqs: "int (length (sc_running s)) < sc_max_num_seqs s"
    and free: "ceil_div (int (length (prompt_token_ids r))) (km_block_size (sc_kv s)) \<le> num_free_gpu_blocks (sc_kv s)"
    and tok: "int (length (prompt_token_ids r)) \<le> sc_max_tokens s"
    and a: "admit env (r # ws) \<lparr>ad_new = [], ad_preempted = [], ad_tokens = 0\<rparr> s = (Inr a', s')"
  shows "r\<lparr>status := RUNNING\<rparr> \<in> set (ad_new a')"
proof -
  let ?s0 = "s\<lparr>sc_waiting := ws\<rparr>"
  have k0: "kv_ok (rids (sc_running s)) ?s0" using kv by (simp add: kv_ok_def)
  from allocate_ok [OF k0 new, of env] obtain b n s1 where
    s1: "allocate_with_prefix_cache env r ?s0 = (Inr (b, n), s1)" "queues s1 = queues ?s0" "0 \<le> n"
      "\<not> b \<longrightarrow> int (length (free_list (km_gpu (sc_kv s)))) <
         ceil_div (int (length (prompt_token_ids r))) (km_block_size (sc_kv s))" by auto
  have b: "b" using s1(4) free kv num_free_gpu_free_list [of "sc_kv s"] by (auto simp: kv_ok_def)
  have "sc_max_tokens s1 = sc_max_tokens s" using s1(2) by (simp add: queues_def)
  with a b s1 st seqs tok
  have "admit env ws \<lparr>ad_new = [r\<lparr>status := RUNNING\<rparr>], ad_preempted = [],
      ad_tokens = int (length (prompt_token_ids r)) - n\<rparr>
      (s1\<lparr>sc_generated := (sc_generated s1)(request_id r \<mapsto> 0)\<rparr>) = (Inr a', s')"
    by (simp add: Let_def)
  from admit_extends [OF this] show ?thesis by auto
qed

lemma schedule_admits:
  assumes "schedule env s = (Inr out, s')"
  shows "\<exists>a s2. admit env (reorder_waiting env (sc_waiting s)) \<lparr>ad_new = [], ad_preempted = [], ad_tokens = 0\<rparr>
      (s\<lparr>sc_swapped := [], sc_waiting := reorder_waiting env (sc_waiting s)\<rparr>) = (Inr a, s2) \<and>
    set (ad_new a) \<subseteq> set (so_scheduled out)"
  using assms by (auto simp: schedule_def andthen_Inr_iff Let_def case_prod_beta)

section \<open>Properties\<close>

text \<open>
  C3: However requests are added, scheduled, grown, preempted, swapped,
  finished and aborted, and whatever transfers time out, scheduling and
  finishing never raise, and the KV blocks stay accounted for: only running
  requests have a block table, and the reference count of every GPU block is
  the number of times the block tables name it.
\<close>

theorem scheduler_never_raises:
  assumes "sched_reach env g c bs mseqs mtok s" and "0 < bs"
  shows "(\<exists>out s'. schedule env s = (Inr out, s')) \<and> (\<exists>s'. sched_finish_request env rid s = (Inr (), s')) \<and>
    set (keys (km_seq (sc_kv s))) \<subseteq> rids (sc_running s) \<and>
    (\<forall>b < total_blocks (km_gpu (sc_kv s)).
       ref_cnt (bp_heap (km_gpu (sc_kv s)) b) = int (count (table_refs (km_seq (sc_kv s))) b))"
proof -
  have ok: "sched_ok s" by (rule sched_reach_ok [OF assms])
  from schedule_ok [OF ok, of env] have "\<exists>out s'. schedule env s = (Inr out, s')" by blast
  moreover from sched_finish_ok [OF ok, of env rid]
  have "\<exists>s'. sched_finish_request env rid s = (Inr (), s')" by blast
  moreover have "set (keys (km_seq (sc_kv s))) \<subseteq> rids (sc_running s)"
    using ok by (simp add: sched_ok_def kv_ok_def)
  moreover have "gpu_owned (sc_kv s) {#}" using ok by (simp add: sched_ok_def kv_ok_def mgr_inv_def)
  ultimately show ?thesis by (simp add: gpu_owned_def)
qed

text \<open>An environment without hashing collisions, ContextPilot or a transfer scheduler.\<close>

definition plain_env :: sched_env where
  "plain_env = \<lparr>se_hash = (\<lambda>h ts. h * 31 + sum_list ts), se_predict = None, se_transfer = None\<rparr>"

definition mk_request :: "string \<Rightarrow> nat \<Rightarrow> request" where
  "mk_request rid n = \<lparr>request_id = rid, prompt_token_ids = map int [0..<n], sampling = default_sampling,
     status = WAITING, arrival_time = 0\<rparr>"

lemma example_reach:
  "sched_reach plain_env 4 4 16 2 64
     (sched_add (mk_request ''a'' 20) (sched_init (kv_mgr_init 4 4 16) 2 64))"
proof (rule sr_step [OF sr_init ss_add])
  show "status (mk_request ''a'' 20) = WAITING" by (simp add: mk_request_def)
  show "request_id (mk_request ''a'' 20) \<notin> rids (sc_waiting (sched_init (kv_mgr_init 4 4 16) 2 64) @
      sc_running (sched_init (kv_mgr_init 4 4 16) 2 64) @ sc_swapped (sched_init (kv_mgr_init 4 4 16) 2 64))"
    by (simp add: sched_init_def)
qed

theorem scheduler_never_raises_witness:
  "\<exists>out s'. schedule plain_env (sched_add (mk_request ''a'' 20) (sched_init (kv_mgr_init 4 4 16) 2 64)) = (Inr out, s')"
  using scheduler_never_raises [OF example_reach, of "''a''"] by simp



text \<open>
  C9: Scheduling neither loses nor duplicates a request: the identifiers in
  the waiting, running and swapped queues together are the same before and
  after, and admission is in order: the requests it starts are the first ones
  of the (reordered) waiting queue, and the rest stays queued in that order,
  behind requests that came back from the swapped queue.
\<close>

theorem schedule_conserves_requests:
  assumes "sched_reach env g c bs mseqs mtok s" and "0 < bs" and "schedule env s = (Inr out, s')"
  shows "mset (map request_id (sc_waiting s' @ sc_running s' @ sc_swapped s')) =
      mset (map request_id (sc_waiting s @ sc_running s @ sc_swapped s)) \<and>
    (\<exists>k started decoded requeued.
       so_scheduled out = started @ decoded \<and>
       map request_id started = map request_id (take k (reorder_waiting env (sc_waiting s))) \<and>
       sc_waiting s' = requeued @ drop k (reorder_waiting env (sc_waiting s)))"
proof -
  have ok: "sched_ok s" by (rule sched_reach_ok [OF assms(1,2)])
  have ids: "map request_id (as_running xs) = map request_id xs" for xs by simp
  from schedule_ok [OF ok, of env] assms(3) ids show ?thesis by (auto; metis)
qed

theorem schedule_conserves_requests_witness:
  "\<exists>out s'. schedule plain_env (sched_add (mk_request ''a'' 20) (sched_init (kv_mgr_init 4 4 16) 2 64)) = (Inr out, s') \<and>
     mset (map request_id (sc_waiting s' @ sc_running s' @ sc_swapped s')) = {#''a''#}"
proof -
  have "sched_ok (sched_add (mk_request ''a'' 20) (sched_init (kv_mgr_init 4 4 16) 2 64))"
    by (rule sched_reach_ok [OF example_reach]) simp
  from schedule_ok [OF this, of plain_env] obtain out s' where
    o: "schedule plain_env (sched_add (mk_request ''a'' 20) (sched_init (kv_mgr_init 4 4 16) 2 64)) = (Inr out, s')"
    by blast
  from schedule_conserves_requests [OF example_reach _ o] o show ?thesis
    by (auto simp: sched_add_def sched_init_def mk_request_def)
qed

text \<open>
  C11: The first request of the waiting queue, in the order in which scheduling takes it
  (arrival, or the scores of the ContextPilot manager if one is attached), is
  started by the next scheduling step when a sequence slot is free, enough KV
  blocks are free for its prompt and the prompt fits the token budget.
\<close>

theorem schedule_starts_head:
  assumes "sched_reach env g c bs mseqs mtok s" and "0 < bs"
    and "reorder_waiting env (sc_waiting s) = r # ws" and "int (length (sc_running s)) < sc_max_num_seqs s"
    and "ceil_div (int (length (prompt_token_ids r))) (km_block_size (sc_kv s)) \<le> num_free_gpu_blocks (sc_kv s)"
    and "int (length (prompt_token_ids r)) \<le> sc_max_tokens s"
  shows "\<exists>out s'. schedule env s = (Inr out, s') \<and> r\<lparr>status := RUNNING\<rparr> \<in> set (so_scheduled out)"
proof -
  have ok: "sched_ok s" by (rule sched_reach_ok [OF assms(1,2)])
  from schedule_ok [OF ok, of env] obtain out s' where o: "schedule env s = (Inr out, s')" by blast
  let ?s1 = "s\<lparr>sc_swapped := [], sc_waiting := r # ws\<rparr>"
  from schedule_admits [OF o] assms(3) obtain a s2 where
    a: "admit env (r # ws) \<lparr>ad_new = [], ad_preempted = [], ad_tokens = 0\<rparr> ?s1 = (Inr a, s2)"
    and so: "set (ad_new a) \<subseteq> set (so_scheduled out)" by auto
  have "mset (r # ws) = mset (sc_waiting s)" using reorder_waiting_perm [of env "sc_waiting s"] assms(3) by simp
  then have "r \<in> set (sc_waiting s)" by (metis list.set_intros(1) set_mset_mset)
  have "r\<lparr>status := RUNNING\<rparr> \<in> set (ad_new a)"
    by (rule admit_head [OF _ _ _ _ _ _ a]) (use ok assms \<open>r \<in> set (sc_waiting s)\<close> in \<open>auto simp: sched_ok_def kv_ok_def has_status_def\<close>)
  with o so show ?thesis by auto
qed

theorem schedule_starts_head_witness:
  "\<exists>out s'. schedule plain_env (sched_add (mk_request ''a'' 20) (sched_init (kv_mgr_init 4 4 16) 2 64)) = (Inr out, s') \<and>
     (mk_request ''a'' 20)\<lparr>status := RUNNING\<rparr> \<in> set (so_scheduled out)"
proof -
  have "num_free_gpu_blocks (kv_mgr_init 4 4 16) = 4"
    using mgr_inv_init [of 4 4 16] num_free_gpu_free_list [of "kv_mgr_init 4 4 16"]
      pool_ok_free_list [OF pool_init_ok [of 4]] by (simp add: kv_mgr_init_def)
  then show ?thesis
    using schedule_starts_head [OF example_reach, of "mk_request ''a'' 20" "[]"]
    by (simp add: plain_env_def sched_add_def sched_init_def mk_request_def kv_mgr_init_def ceil_div_def reorder_waiting_def)
qed

text \<open>
  A request whose prompt can never fit the token budget blocks the queue:
  if the part of the prompt beyond its full blocks exceeds the budget, then
  scheduling starts neither this request nor any request behind it, and
  leaves the whole waiting queue in place.
\<close>

theorem oversized_head_blocks_queue:
  assumes "sched_reach env g c bs mseqs mtok s" and "0 < bs" and "se_predict env = None"
    and "sc_waiting s = r # ws" and "0 \<le> sc_max_tokens s"
    and "sc_max_tokens s < int (length (prompt_token_ids r)) mod km_block_size (sc_kv s)"
  shows "\<exists>out s' requeued. schedule env s = (Inr out, s') \<and> sc_waiting s' = requeued @ r # ws \<and>
    (\<forall>w \<in> set (r # ws). request_id w \<notin> rids (so_scheduled out))"
proof -
  have ok: "sched_ok s" by (rule sched_reach_ok [OF assms(1,2)])
  have ro: "reorder_waiting env (sc_waiting s) = r # ws" using assms(3,4) by (simp add: reorder_waiting_def)
  from schedule_ok [OF ok, of env] obtain out s' k ys n and ds :: "request list" where
    o1: "schedule env s = (Inr out, s')" "sched_ok s'" "so_tokens out \<le> max 0 (sc_max_tokens s)"
      "set (so_scheduled out) \<subseteq> set (sc_running s')" "sc_waiting s' = ys @ drop k (r # ws)"
      "charged env s (take k (r # ws)) n" "so_tokens out = n + int (length ds)" unfolding ro by blast
  have "uncacheable s (take k (r # ws)) \<le> so_tokens out"
    using charged_uncacheable [OF o1(6)] o1(7) ok by (simp add: sched_ok_def kv_ok_def)
  with o1 have o: "schedule env s = (Inr out, s')" "sched_ok s'" "so_tokens out \<le> max 0 (sc_max_tokens s)"
      "set (so_scheduled out) \<subseteq> set (sc_running s')" "sc_waiting s' = ys @ drop k (r # ws)"
      "uncacheable s (take k (r # ws)) \<le> so_tokens out" by blast+
  have bs: "0 < km_block_size (sc_kv s)" using ok by (simp add: sched_ok_def kv_ok_def)
  have nn: "0 \<le> uncacheable s xs" for xs
    using cacheable_le [OF bs] by (induction xs) (auto simp: add_nonneg_nonneg)
  have m: "int (length (prompt_token_ids r)) - cacheable s r = int (length (prompt_token_ids r)) mod km_block_size (sc_kv s)"
    by (simp add: cacheable_def minus_div_mult_eq_mod)
  have "k = 0"
  proof (rule ccontr)
    assume "k \<noteq> 0"
    then obtain i where "k = Suc i" by (cases k) auto
    with o(6) nn [of "take i ws"] m have "int (length (prompt_token_ids r)) mod km_block_size (sc_kv s) \<le> so_tokens out"
      by simp
    with o(3) assms(5,6) show False by simp
  qed
  with o(5) have w: "sc_waiting s' = ys @ r # ws" by simp
  have "request_id w \<notin> rids (so_scheduled out)" if "w \<in> set (r # ws)" for w
  proof -
    have "rids (r # ws) \<inter> rids (sc_running s') = {}" using o(2) w by (auto simp: sched_ok_def)
    moreover have "rids (so_scheduled out) \<subseteq> rids (sc_running s')" using o(4) by (rule image_mono)
    ultimately show ?thesis using that by blast
  qed
  with o(1) w show ?thesis by blast
qed

theorem oversized_head_blocks_queue_witness:
  "\<exists>out s' requeued. schedule plain_env
       (sched_add (mk_request ''b'' 1) (sched_add (mk_request ''a'' 3) (sched_init (kv_mgr_init 4 4 16) 2 2))) = (Inr out, s') \<and>
     sc_waiting s' = requeued @ [mk_request ''a'' 3, mk_request ''b'' 1]"
proof -
  let ?i = "sched_init (kv_mgr_init 4 4 16) 2 2"
  have "sched_reach plain_env 4 4 16 2 2 (sched_add (mk_request ''a'' 3) ?i)"
    by (rule sr_step [OF sr_init ss_add]) (simp_all add: mk_request_def sched_init_def)
  then have r: "sched_reach plain_env 4 4 16 2 2 (sched_add (mk_request ''b'' 1) (sched_add (mk_request ''a'' 3) ?i))"
    by (rule sr_step [OF _ ss_add]) (simp_all add: mk_request_def sched_init_def sched_add_def)
  from oversized_head_blocks_queue [OF r, of "mk_request ''a'' 3" "[mk_request ''b'' 1]"] show ?thesis
    by (auto simp: plain_env_def sched_add_def sched_init_def mk_request_def kv_mgr_init_def)
qed

end
