(* ===== verification/Serving_Sequence.thy ===== *)
theory Serving_Sequence
  imports Prelude Complex_Main
begin

text \<open>
  \<^verbatim>\<open>src/moe_infinity/serving/sequence.py\<close>: the state of one generated sequence,
  its status machine, and the group of sequences of a request. The creation and
  arrival times are read by no modelled code and are left out. A floating-point
  parameter is a real number.
\<close>

section \<open>Sequences\<close>

datatype sequence_status = WAITING | PREFILL | DECODE | FINISHED | SWAPPED | CANCELLED

record sv_sampling_params =
  temperature :: real
  top_k :: int
  top_p :: real
  logprobs :: int
  max_tokens :: int
  stop :: "string list"
  repetition_penalty :: real

definition default_sampling_params :: sv_sampling_params where
  "default_sampling_params =
     \<lparr>temperature = 1, top_k = -1, top_p = 1, logprobs = 0, max_tokens = 256, stop = [],
      repetition_penalty = 1\<rparr>"

record sequence_data =
  seq_id :: int
  prompt_token_ids :: "int list"
  seq_sampling_params :: sv_sampling_params
  output_token_ids :: "int list"
  seq_status :: sequence_status
  num_computed_tokens :: int

definition new_sequence :: "int \<Rightarrow> int list \<Rightarrow> sv_sampling_params \<Rightarrow> sequence_data" where
  "new_sequence sid prompt params =
     \<lparr>seq_id = sid, prompt_token_ids = prompt, seq_sampling_params = params, output_token_ids = [],
      seq_status = WAITING, num_computed_tokens = 0\<rparr>"

fun seq_transitions :: "sequence_status \<Rightarrow> sequence_status list" where
  "seq_transitions WAITING = [PREFILL, SWAPPED, CANCELLED]"
| "seq_transitions PREFILL = [DECODE, FINISHED, SWAPPED, CANCELLED]"
| "seq_transitions DECODE = [FINISHED, SWAPPED, CANCELLED]"
| "seq_transitions SWAPPED = [WAITING, PREFILL, DECODE, FINISHED, CANCELLED]"
| "seq_transitions FINISHED = []"
| "seq_transitions CANCELLED = []"

definition validate_transition :: "sequence_data \<Rightarrow> sequence_status \<Rightarrow> unit result" where
  "validate_transition s new =
     (if seq_status s = new then Inr ()
      else if new \<notin> set (seq_transitions (seq_status s)) then Inl ValueError
      else Inr ())"

definition set_status :: "sequence_status \<Rightarrow> sequence_data \<Rightarrow> (sequence_data, unit) outcome" where
  "set_status new s =
     (case validate_transition s new of
        Inl e \<Rightarrow> (Inl e, s)
      | Inr _ \<Rightarrow> (Inr (), s\<lparr>seq_status := new\<rparr>))"

definition append_output_token :: "int \<Rightarrow> sequence_data \<Rightarrow> (sequence_data, unit) outcome" where
  "append_output_token token s =
     (if seq_status s \<in> {FINISHED, CANCELLED} then (Inl RuntimeError, s)
      else let s1 = s\<lparr>output_token_ids := output_token_ids s @ [token]\<rparr>
           in (Inr (), s1\<lparr>num_computed_tokens :=
                 int (length (prompt_token_ids s1)) + int (length (output_token_ids s1))\<rparr>))"

definition prompt_length :: "sequence_data \<Rightarrow> int" where
  "prompt_length s = int (length (prompt_token_ids s))"

definition total_token_ids :: "sequence_data \<Rightarrow> int list" where
  "total_token_ids s = prompt_token_ids s @ output_token_ids s"

section \<open>Groups\<close>

text \<open>
  A group refers to its sequences; the objects themselves are shared between the
  group, the scheduler's tables and the engine's. An object is named by its
  sequence id, and \<open>seq_heap\<close> gives the current state of each object.
\<close>

record sequence_group =
  request_id :: string
  sequence_ids :: "int list"

type_synonym seq_heap = "int \<Rightarrow> sequence_data"

definition get_sequence :: "int \<Rightarrow> sequence_group \<Rightarrow> seq_heap \<Rightarrow> sequence_data option" where
  "get_sequence sid g h = (if sid \<in> set (sequence_ids g) then Some (h sid) else None)"

section \<open>Lemmas\<close>

definition active :: "sequence_status \<Rightarrow> bool" where
  "active st \<longleftrightarrow> st \<noteq> FINISHED \<and> st \<noteq> CANCELLED"

lemma active_simps [simp]:
  "active WAITING" "active PREFILL" "active DECODE" "active SWAPPED"
  "\<not> active FINISHED" "\<not> active CANCELLED"
  by (simp_all add: active_def)

lemma set_status_ok:
  "new = seq_status s \<or> new \<in> set (seq_transitions (seq_status s)) \<Longrightarrow>
   set_status new s = (Inr (), s\<lparr>seq_status := new\<rparr>)"
  by (auto simp: set_status_def validate_transition_def)

lemma set_status_error:
  "new \<noteq> seq_status s \<Longrightarrow> new \<notin> set (seq_transitions (seq_status s)) \<Longrightarrow>
   set_status new s = (Inl ValueError, s)"
  by (auto simp: set_status_def validate_transition_def)

lemma terminal_transitions: "seq_transitions st = [] \<longleftrightarrow> \<not> active st"
  by (cases st) simp_all

text \<open>A step of the life of a sequence: a change of status or a new token, failed or not.\<close>

datatype seq_op = Set_status sequence_status | Append_output int

fun seq_step :: "seq_op \<Rightarrow> sequence_data \<Rightarrow> sequence_data" where
  "seq_step (Set_status st) s = snd (set_status st s)"
| "seq_step (Append_output tok) s = snd (append_output_token tok s)"

lemma seq_step_terminal: "\<not> active (seq_status s) \<Longrightarrow> seq_step x s = s"
  by (cases x; cases "seq_status s")
    (auto simp: set_status_def validate_transition_def append_output_token_def)

lemma seq_step_prompt: "prompt_token_ids (seq_step x s) = prompt_token_ids s"
  by (cases x) (auto simp: set_status_def append_output_token_def Let_def split: sum.splits)

lemma seq_step_outputs: "\<exists>ts. output_token_ids (seq_step x s) = output_token_ids s @ ts"
  by (cases x) (auto simp: set_status_def append_output_token_def Let_def split: sum.splits)

lemma seq_step_computed:
  assumes "output_token_ids s \<noteq> [] \<Longrightarrow>
      num_computed_tokens s = int (length (prompt_token_ids s)) + int (length (output_token_ids s))"
    and "output_token_ids (seq_step x s) \<noteq> []"
  shows "num_computed_tokens (seq_step x s) = int (length (total_token_ids (seq_step x s)))"
  using assms
  by (cases x) (auto simp: set_status_def append_output_token_def total_token_ids_def Let_def split: sum.splits if_splits)

end
