(* ===== verification/Paged_KV.thy ===== *)
theory Paged_KV
  imports Prelude
begin

text \<open>
  \<^verbatim>\<open>src/moe_infinity/serving/kv_cache.py\<close>: the block allocator, block tables and the
  paged KV cache of the serving engine, with swapping to the CPU, and the page
  metadata built for FlashInfer. The tensor is a map from block ids to the
  content \<open>'d\<close> of a block over all layers. The heap of \<^verbatim>\<open>heapq\<close> is a sorted list.
  The attention kernels and the notifications of the ContextPilot manager, whose
  failures are swallowed, do not touch this state and are not modelled.
\<close>

section \<open>The block allocator\<close>

record allocator =
  ba_num_blocks :: int
  ba_block_size :: int
  ba_heap :: "int list"
  ba_free :: "int set"

definition allocator_init :: "int \<Rightarrow> int \<Rightarrow> allocator result" where
  "allocator_init num_blocks block_size =
     (if num_blocks \<le> 0 then Inl ValueError
      else if block_size \<le> 0 then Inl ValueError
      else Inr \<lparr>ba_num_blocks = num_blocks, ba_block_size = block_size,
               ba_heap = [0..num_blocks - 1], ba_free = set [0..num_blocks - 1]\<rparr>)"

definition ba_num_free :: "allocator \<Rightarrow> int" where
  "ba_num_free a = int (length (ba_heap a))"

fun pop_blocks :: "nat \<Rightarrow> int list \<Rightarrow> allocator \<Rightarrow> (allocator, int list) outcome" where
  "pop_blocks 0 acc a = (Inr acc, a)"
| "pop_blocks (Suc k) acc a =
     (case ba_heap a of
        [] \<Rightarrow> (Inl IndexError, a)
      | b # hs \<Rightarrow>
          (let a1 = a\<lparr>ba_heap := hs\<rparr>
           in if b \<notin> ba_free a1 then (Inl KeyError, a1)
              else pop_blocks k (acc @ [b]) (a1\<lparr>ba_free := ba_free a1 - {b}\<rparr>)))"

definition ba_allocate :: "int \<Rightarrow> allocator \<Rightarrow> (allocator, int list) outcome" where
  "ba_allocate num_blocks a =
     (if num_blocks < 0 then (Inl ValueError, a)
      else if num_blocks = 0 then (Inr [], a)
      else if num_blocks > ba_num_free a then (Inl RuntimeError, a)
      else pop_blocks (nat num_blocks) [] a)"

definition free_one :: "int \<Rightarrow> allocator \<Rightarrow> (allocator, unit) outcome" where
  "free_one b a =
     (if \<not> (0 \<le> b \<and> b < ba_num_blocks a) then (Inl ValueError, a)
      else if b \<in> ba_free a then (Inl ValueError, a)
      else (Inr (), a\<lparr>ba_heap := insort b (ba_heap a), ba_free := insert b (ba_free a)\<rparr>))"

definition ba_free_blocks :: "int list \<Rightarrow> allocator \<Rightarrow> (allocator, unit) outcome" where
  "ba_free_blocks = for_each free_one"

section \<open>Block tables and the cache\<close>

record block_table =
  bt_ids :: "int list"
  bt_num_tokens :: int

definition append_token :: "allocator \<times> block_table \<Rightarrow> (allocator \<times> block_table, unit) outcome" where
  "append_token = (\<lambda>(a, t).
     if bt_num_tokens t mod ba_block_size a = 0
     then (case ba_allocate 1 a of
             (Inl e, a1) \<Rightarrow> (Inl e, (a1, t))
           | (Inr bs, a1) \<Rightarrow>
               (Inr (), (a1, t\<lparr>bt_ids := bt_ids t @ [hd bs], bt_num_tokens := bt_num_tokens t + 1\<rparr>)))
     else (Inr (), (a, t\<lparr>bt_num_tokens := bt_num_tokens t + 1\<rparr>)))"

text \<open>\<^verbatim>\<open>for _ in range(n): block_table.append_token()\<close>\<close>

fun append_loop :: "nat \<Rightarrow> allocator \<times> block_table \<Rightarrow> (allocator \<times> block_table, unit) outcome" where
  "append_loop 0 s = (Inr (), s)"
| "append_loop (Suc n) s = andthen (append_token s) (\<lambda>_ s1. append_loop n s1)"

record 'd paged_kv =
  pk_alloc :: allocator
  pk_tables :: "(int, block_table) odict"
  pk_buffers :: "int \<rightharpoonup> 'd list"
  pk_saved_tokens :: "int \<rightharpoonup> int"
  pk_swapped :: "int set"
  pk_data :: "int \<Rightarrow> 'd"

definition paged_kv_init :: "'d \<Rightarrow> int \<Rightarrow> int \<Rightarrow> int \<Rightarrow> int \<Rightarrow> int \<Rightarrow> 'd paged_kv result" where
  "paged_kv_init zero num_blocks block_size num_layers num_heads head_dim =
     (if num_layers \<le> 0 \<or> num_heads \<le> 0 \<or> head_dim \<le> 0 then Inl ValueError
      else case allocator_init num_blocks block_size of
             Inl e \<Rightarrow> Inl e
           | Inr a \<Rightarrow> Inr \<lparr>pk_alloc = a, pk_tables = [], pk_buffers = Map.empty, pk_saved_tokens = Map.empty,
                          pk_swapped = {}, pk_data = (\<lambda>_. zero)\<rparr>)"

text \<open>
  If the allocator runs out in the middle, the exception leaves the method
  before the table is entered: the blocks taken so far belong to no table.
\<close>

definition pk_allocate_sequence :: "int \<Rightarrow> int \<Rightarrow> 'd paged_kv \<Rightarrow> ('d paged_kv, unit) outcome" where
  "pk_allocate_sequence seq_id num_tokens c =
     (if od_mem seq_id (pk_tables c) then (Inl ValueError, c)
      else if num_tokens < 0 then (Inl ValueError, c)
      else case append_loop (nat num_tokens) (pk_alloc c, \<lparr>bt_ids = [], bt_num_tokens = 0\<rparr>) of
             (Inl e, (a, t)) \<Rightarrow> (Inl e, c\<lparr>pk_alloc := a\<rparr>)
           | (Inr _, (a, t)) \<Rightarrow>
               (Inr (), c\<lparr>pk_alloc := a, pk_tables := AList.update seq_id t (pk_tables c)\<rparr>))"

definition pk_append_tokens :: "int \<Rightarrow> int \<Rightarrow> 'd paged_kv \<Rightarrow> ('d paged_kv, unit) outcome" where
  "pk_append_tokens seq_id num_new_tokens c =
     (if num_new_tokens < 0 then (Inl ValueError, c)
      else case map_of (pk_tables c) seq_id of
             None \<Rightarrow> (Inl KeyError, c)
           | Some t \<Rightarrow>
               (case append_loop (nat num_new_tokens) (pk_alloc c, t) of
                  (r, (a, t1)) \<Rightarrow>
                    (r, c\<lparr>pk_alloc := a, pk_tables := AList.update seq_id t1 (pk_tables c)\<rparr>)))"

text \<open>\<^verbatim>\<open>BlockTable.release\<close> on a table that was taken out of the dictionary.\<close>

definition pk_free_sequence :: "int \<Rightarrow> 'd paged_kv \<Rightarrow> ('d paged_kv, unit) outcome" where
  "pk_free_sequence seq_id c =
     (case map_of (pk_tables c) seq_id of
        None \<Rightarrow> (Inr (), c)
      | Some t \<Rightarrow>
          (let c1 = c\<lparr>pk_tables := AList.delete seq_id (pk_tables c)\<rparr>
           in case ba_free_blocks (bt_ids t) (pk_alloc c1) of
                (Inl e, a) \<Rightarrow> (Inl e, c1\<lparr>pk_alloc := a\<rparr>)
              | (Inr _, a) \<Rightarrow>
                  (Inr (), c1\<lparr>pk_alloc := a, pk_buffers := (pk_buffers c1)(seq_id := None),
                             pk_saved_tokens := (pk_saved_tokens c1)(seq_id := None),
                             pk_swapped := pk_swapped c1 - {seq_id}\<rparr>)))"

definition pk_free_gpu_blocks :: "int \<Rightarrow> 'd paged_kv \<Rightarrow> ('d paged_kv, unit) outcome" where
  "pk_free_gpu_blocks seq_id c =
     (case map_of (pk_tables c) seq_id of
        None \<Rightarrow> (Inr (), c)
      | Some t \<Rightarrow>
          if bt_ids t = [] then (Inr (), c)
          else (case ba_free_blocks (bt_ids t) (pk_alloc c) of
                  (Inl e, a) \<Rightarrow> (Inl e, c\<lparr>pk_alloc := a\<rparr>)
                | (Inr _, a) \<Rightarrow>
                    (Inr (), c\<lparr>pk_alloc := a,
                               pk_tables := AList.update seq_id (t\<lparr>bt_ids := []\<rparr>) (pk_tables c)\<rparr>)))"

definition pk_get_block_table :: "int \<Rightarrow> 'd paged_kv \<Rightarrow> int list result" where
  "pk_get_block_table seq_id c =
     (case map_of (pk_tables c) seq_id of None \<Rightarrow> Inl KeyError | Some t \<Rightarrow> Inr (bt_ids t))"

definition pk_swap_out :: "int \<Rightarrow> 'd paged_kv \<Rightarrow> ('d paged_kv, unit) outcome" where
  "pk_swap_out seq_id c =
     (case map_of (pk_tables c) seq_id of
        None \<Rightarrow> (Inl KeyError, c)
      | Some t \<Rightarrow>
          if seq_id \<in> pk_swapped c then (Inr (), c)
          else
            (let c1 = c\<lparr>pk_saved_tokens := (pk_saved_tokens c)(seq_id \<mapsto> bt_num_tokens t)\<rparr>;
                 c2 = (if bt_ids t \<noteq> []
                       then c1\<lparr>pk_buffers := (pk_buffers c1)(seq_id \<mapsto> map (pk_data c1) (bt_ids t))\<rparr> else c1)
             in (Inr (), c2\<lparr>pk_swapped := insert seq_id (pk_swapped c2)\<rparr>)))"

fun write_blocks :: "int list \<Rightarrow> 'd list \<Rightarrow> (int \<Rightarrow> 'd) \<Rightarrow> int \<Rightarrow> 'd" where
  "write_blocks (b # bs) (x # xs) d = write_blocks bs xs (d(b := x))"
| "write_blocks _ _ d = d"

text \<open>
  A buffer of one block is broadcast to all blocks of the table; a buffer of any other
  length than the table cannot be assigned: torch raises.
  An exhausted allocator raises after the buffer was taken out of its dictionary.
\<close>

definition pk_swap_in :: "int \<Rightarrow> 'd paged_kv \<Rightarrow> ('d paged_kv, unit) outcome" where
  "pk_swap_in seq_id c =
     (case map_of (pk_tables c) seq_id of
        None \<Rightarrow> (Inl KeyError, c)
      | Some t \<Rightarrow>
          if seq_id \<notin> pk_swapped c then (Inr (), c)
          else
            (let c1 = c\<lparr>pk_buffers := (pk_buffers c)(seq_id := None),
                        pk_saved_tokens := (pk_saved_tokens c)(seq_id := None)\<rparr>;
                 saved = (case pk_saved_tokens c seq_id of None \<Rightarrow> 0 | Some n \<Rightarrow> n);
                 finish = (\<lambda>c. c\<lparr>pk_swapped := pk_swapped c - {seq_id}\<rparr>)
             in case pk_buffers c seq_id of
                  None \<Rightarrow> (Inr (), finish c1)
                | Some buf \<Rightarrow>
                    andthen
                      (if bt_ids t = []
                       then (case ba_allocate (int (length buf)) (pk_alloc c1) of
                               (Inl e, a) \<Rightarrow> (Inl e, c1\<lparr>pk_alloc := a\<rparr>)
                             | (Inr ids, a) \<Rightarrow>
                                 (Inr ids, c1\<lparr>pk_alloc := a, pk_tables :=
                                    AList.update seq_id \<lparr>bt_ids = ids, bt_num_tokens = saved\<rparr> (pk_tables c1)\<rparr>))
                       else (Inr (bt_ids t), c1))
                      (\<lambda>ids c2.
                        if ids = [] then (Inr (), finish c2)
                        else
                          (let vals = broadcast (length ids) buf
                           in if length ids \<noteq> length vals then (Inl RuntimeError, c2)
                              else (Inr (), finish (c2\<lparr>pk_data := write_blocks ids vals (pk_data c2)\<rparr>))))))"

section \<open>Page metadata\<close>

definition build_qo_indptr :: "nat \<Rightarrow> int \<Rightarrow> int list" where
  "build_qo_indptr batch_size query_tokens =
     0 # map (\<lambda>i. query_tokens * int (Suc i)) [0..<batch_size]"

definition num_pages :: "int \<Rightarrow> int \<Rightarrow> int" where
  "num_pages kv_tokens bs = max ((max kv_tokens 1 + bs - 1) div bs) 1"

definition last_page_len :: "int \<Rightarrow> int \<Rightarrow> int" where
  "last_page_len kv_tokens bs =
     (let rem = kv_tokens mod bs in if rem = 0 \<and> kv_tokens > 0 then bs else max rem 1)"

definition build_flashinfer_paged_metadata ::
  "nat \<Rightarrow> int \<Rightarrow> int \<Rightarrow> int list \<times> int list \<times> int list" where
  "build_flashinfer_paged_metadata batch_size kv_tokens bs =
     (let np = num_pages kv_tokens bs
      in (map (\<lambda>i. int i * np) [0..<batch_size + 1],
          concat (replicate batch_size [0..np - 1]),
          replicate batch_size (last_page_len kv_tokens bs)))"

section \<open>Ownership of the blocks\<close>

definition ba_ok :: "allocator \<Rightarrow> bool" where
  "ba_ok a \<longleftrightarrow>
     0 < ba_num_blocks a \<and> 0 < ba_block_size a \<and> sorted (ba_heap a) \<and> distinct (ba_heap a) \<and>
     set (ba_heap a) = ba_free a \<and> ba_free a \<subseteq> {0..<ba_num_blocks a}"

text \<open>
  Every block of the cache is either free or held exactly once: \<open>U\<close> are the
  blocks held by the tables and, possibly, blocks nobody can give back.
\<close>

definition ba_own :: "allocator \<Rightarrow> int multiset \<Rightarrow> bool" where
  "ba_own a U \<longleftrightarrow>
     ba_ok a \<and>
     (\<forall>b. count U b + of_bool (b \<in> ba_free a) = of_bool (0 \<le> b \<and> b < ba_num_blocks a))"

definition ba_frame :: "allocator \<Rightarrow> int \<times> int" where
  "ba_frame a = (ba_num_blocks a, ba_block_size a)"

lemma allocator_init_own:
  assumes "allocator_init n bs = Inr a"
  shows "ba_own a {#}" and "ba_num_free a = n" and "ba_frame a = (n, bs)"
proof -
  have a: "0 < n" "0 < bs" "a = \<lparr>ba_num_blocks = n, ba_block_size = bs, ba_heap = [0..n - 1],
      ba_free = set [0..n - 1]\<rparr>"
    using assms by (auto simp: allocator_init_def split: if_splits)
  then show "ba_num_free a = n" "ba_frame a = (n, bs)" by (simp_all add: ba_num_free_def ba_frame_def)
  have "sorted [0..n - 1]" "distinct [0..n - 1]" by simp_all
  with a show "ba_own a {#}" by (auto simp: ba_own_def ba_ok_def)
qed

lemma pop_blocks_ok:
  "ba_ok a \<Longrightarrow> k \<le> length (ba_heap a) \<Longrightarrow>
   pop_blocks k acc a = (Inr (acc @ take k (ba_heap a)),
     a\<lparr>ba_heap := drop k (ba_heap a), ba_free := set (drop k (ba_heap a))\<rparr>)"
proof (induction k arbitrary: acc a)
  case 0
  then show ?case by (cases a) (auto simp: ba_ok_def)
next
  case (Suc k)
  then obtain b hs where h: "ba_heap a = b # hs" by (cases "ba_heap a") auto
  let ?a = "a\<lparr>ba_heap := hs, ba_free := ba_free a - {b}\<rparr>"
  have ok: "ba_ok ?a" and f: "b \<in> ba_free a" "ba_free a - {b} = set hs"
    using Suc.prems(1) h by (auto simp: ba_ok_def)
  from Suc.IH [OF ok, of "acc @ [b]"] Suc.prems(2) h f show ?case by simp
qed

lemma ba_allocate_ok:
  assumes own: "ba_own a U" and k: "0 \<le> k" "k \<le> ba_num_free a"
  shows "\<exists>bs a'. ba_allocate k a = (Inr bs, a') \<and> ba_own a' (mset bs + U) \<and> ba_frame a' = ba_frame a \<and>
    int (length bs) = k \<and> bs = take (nat k) (ba_heap a) \<and> ba_num_free a' = ba_num_free a - k"
proof -
  let ?n = "nat k"
  let ?a = "a\<lparr>ba_heap := drop ?n (ba_heap a), ba_free := set (drop ?n (ba_heap a))\<rparr>"
  have ok: "ba_ok a" using own by (simp add: ba_own_def)
  have n: "?n \<le> length (ba_heap a)" using k by (simp add: ba_num_free_def)
  have eq: "ba_allocate k a = (Inr (take ?n (ba_heap a)), ?a)"
  proof (cases "k = 0")
    case True
    with ok show ?thesis by (cases a) (auto simp: ba_allocate_def ba_ok_def)
  next
    case False
    with k pop_blocks_ok [OF ok n, of "[]"] show ?thesis by (simp add: ba_allocate_def)
  qed
  have split: "ba_heap a = take ?n (ba_heap a) @ drop ?n (ba_heap a)" by simp
  have d: "distinct (take ?n (ba_heap a) @ drop ?n (ba_heap a))" using ok by (simp add: ba_ok_def)
  have cnt: "count (mset (take ?n (ba_heap a))) b + of_bool (b \<in> set (drop ?n (ba_heap a))) =
      of_bool (b \<in> ba_free a)" for b
  proof -
    have "b \<in> ba_free a \<longleftrightarrow> b \<in> set (take ?n (ba_heap a)) \<or> b \<in> set (drop ?n (ba_heap a))"
      using ok split by (metis Un_iff ba_ok_def set_append)
    moreover have "count (mset (take ?n (ba_heap a))) b = of_bool (b \<in> set (take ?n (ba_heap a)))"
    proof -
      have "distinct (take ?n (ba_heap a))" using d by simp
      then show ?thesis by (simp only: distinct_count_atmost_1) (simp add: of_bool_def)
    qed
    moreover have "set (take ?n (ba_heap a)) \<inter> set (drop ?n (ba_heap a)) = {}"
      using ok by (intro set_take_disj_set_drop_if_distinct) (simp_all add: ba_ok_def)
    ultimately show ?thesis by auto
  qed
  have "ba_ok ?a"
    using ok set_drop_subset [of ?n "ba_heap a"] by (auto simp: ba_ok_def sorted_wrt_drop)
  moreover have "count (mset (take ?n (ba_heap a)) + U) b + of_bool (b \<in> ba_free ?a) =
      of_bool (0 \<le> b \<and> b < ba_num_blocks ?a)" for b
  proof -
    have "count U b + of_bool (b \<in> ba_free a) = of_bool (0 \<le> b \<and> b < ba_num_blocks a)"
      using own by (simp add: ba_own_def)
    with cnt [of b] show ?thesis by (simp add: ac_simps)
  qed
  ultimately have "ba_own ?a (mset (take ?n (ba_heap a)) + U)" by (simp add: ba_own_def)
  moreover have "ba_num_free ?a = ba_num_free a - k" using n k(1) by (simp add: ba_num_free_def of_nat_diff)
  ultimately show ?thesis using eq n k by (auto simp: ba_frame_def)
qed

lemma ba_allocate_fail: "0 < k \<Longrightarrow> ba_num_free a < k \<Longrightarrow> ba_allocate k a = (Inl RuntimeError, a)"
  by (simp add: ba_allocate_def)

lemma free_one_own:
  assumes own: "ba_own a (add_mset b U)"
  shows "\<exists>a'. free_one b a = (Inr (), a') \<and> ba_own a' U \<and> ba_frame a' = ba_frame a \<and>
    ba_num_free a' = ba_num_free a + 1"
proof -
  let ?a = "a\<lparr>ba_heap := insort b (ba_heap a), ba_free := insert b (ba_free a)\<rparr>"
  have c: "count (add_mset b U) x + of_bool (x \<in> ba_free a) = of_bool (0 \<le> x \<and> x < ba_num_blocks a)" for x
    using own by (simp add: ba_own_def)
  have b: "b \<notin> ba_free a" "0 \<le> b" "b < ba_num_blocks a" "count U b = 0"
    using c [of b] by (auto split: if_splits simp: of_bool_def)
  have ok: "ba_ok a" using own by (simp add: ba_own_def)
  have "ba_ok ?a"
    using ok b by (auto simp: ba_ok_def set_insort_key distinct_insort sorted_insort)
  moreover have "count U x + of_bool (x \<in> insert b (ba_free a)) = of_bool (0 \<le> x \<and> x < ba_num_blocks a)" for x
    using c [of x] b by (cases "x = b") (simp_all add: of_bool_def)
  ultimately have "ba_own ?a U" by (simp add: ba_own_def)
  with b show ?thesis by (simp add: free_one_def ba_frame_def ba_num_free_def)
qed

definition pop_one :: "allocator \<Rightarrow> int option \<times> allocator" where
  "pop_one a = (case ba_allocate 1 a of (Inl _, a1) \<Rightarrow> (None, a1) | (Inr bs, a1) \<Rightarrow> (Some (hd bs), a1))"

lemma pop_one_own:
  assumes "ba_own a U" and "pop_one a = (r, a')"
  shows "case r of
      None \<Rightarrow> a' = a \<and> ba_num_free a = 0
    | Some b \<Rightarrow> ba_own a' (add_mset b U) \<and> ba_frame a' = ba_frame a \<and> ba_num_free a' = ba_num_free a - 1 \<and>
        ba_allocate 1 a = (Inr [b], a')"
proof (cases "1 \<le> ba_num_free a")
  case True
  from ba_allocate_ok [OF assms(1) _ True] obtain bs a1 where
    b: "ba_allocate 1 a = (Inr bs, a1)" "ba_own a1 (mset bs + U)" "ba_frame a1 = ba_frame a"
      "int (length bs) = 1" "ba_num_free a1 = ba_num_free a - 1" by auto
  from b(4) obtain x where "bs = [x]" by (cases bs) auto
  with b assms(2) show ?thesis by (auto simp: pop_one_def)
next
  case False
  then have "ba_num_free a = 0" by (cases "ba_heap a") (auto simp: ba_num_free_def)
  moreover from this have "pop_one a = (None, a)" by (simp add: pop_one_def ba_allocate_fail)
  ultimately show ?thesis using assms(2) by simp
qed

interpretation pages: block_holder ba_own pop_one free_one ba_frame
  using pop_one_own free_one_own by unfold_locales fastforce+

section \<open>Growing a table\<close>

lemma ceil_div_Suc:
  assumes "0 < b"
  shows "ceil_div (n + 1) b = ceil_div n b + of_bool (n mod b = 0)"
proof -
  define q r where "q = n div b" and "r = n mod b"
  have n: "n = q * b + r" and r: "0 \<le> r" "r < b" using assms by (simp_all add: q_def r_def)
  have "ceil_div n b = (if r = 0 then q else q + 1)"
    by (rule ceil_div_unique [OF assms]) (use n r in \<open>auto simp: distrib_right\<close>)
  moreover have "ceil_div (n + 1) b = q + 1"
    by (rule ceil_div_unique [OF assms]) (use n r in \<open>auto simp: distrib_right\<close>)
  ultimately show ?thesis by (simp add: r_def [symmetric])
qed

lemma ceil_div_mono: "0 < b \<Longrightarrow> 0 \<le> k \<Longrightarrow> ceil_div n b \<le> ceil_div (n + k) b"
  by (simp add: ceil_div_def zdiv_mono1)

lemma append_token_cases:
  assumes own: "ba_own a (mset (bt_ids t) + U)"
  obtains (full) "bt_num_tokens t mod ba_block_size a = 0" "ba_num_free a = 0"
      "append_token (a, t) = (Inl RuntimeError, (a, t))"
    | (new) b a' where "bt_num_tokens t mod ba_block_size a = 0" "0 < ba_num_free a"
      "append_token (a, t) = (Inr (), (a', t\<lparr>bt_ids := bt_ids t @ [b], bt_num_tokens := bt_num_tokens t + 1\<rparr>))"
      "ba_own a' (mset (bt_ids t @ [b]) + U)" "ba_frame a' = ba_frame a" "ba_num_free a' = ba_num_free a - 1"
    | (fits) "bt_num_tokens t mod ba_block_size a \<noteq> 0"
      "append_token (a, t) = (Inr (), (a, t\<lparr>bt_num_tokens := bt_num_tokens t + 1\<rparr>))"
proof (cases "bt_num_tokens t mod ba_block_size a = 0")
  case False
  then show thesis by (intro fits) (simp_all add: append_token_def)
next
  case True
  obtain r a' where p: "pop_one a = (r, a')" by fastforce
  note po = pop_one_own [OF own p]
  show thesis
  proof (cases r)
    case None
    with po True show thesis by (intro full) (simp_all add: append_token_def ba_allocate_fail)
  next
    case (Some b)
    have "0 \<le> ba_num_free a'" by (simp add: ba_num_free_def)
    moreover from po Some have "ba_num_free a' = ba_num_free a - 1" by simp
    ultimately have "0 < ba_num_free a" by linarith
    with po Some True show thesis by (intro new [of a' b]) (simp_all add: append_token_def)
  qed
qed

lemma append_loop_spec:
  assumes "ba_own a (mset (bt_ids t) + U)"
    and "int (length (bt_ids t)) = ceil_div (bt_num_tokens t) (ba_block_size a)"
    and "need = ceil_div (bt_num_tokens t + int n) (ba_block_size a) - ceil_div (bt_num_tokens t) (ba_block_size a)"
  shows "\<exists>r a' t'. append_loop n (a, t) = (r, (a', t')) \<and> ba_own a' (mset (bt_ids t') + U) \<and>
    ba_frame a' = ba_frame a \<and>
    int (length (bt_ids t')) = ceil_div (bt_num_tokens t') (ba_block_size a) \<and>
    (if need \<le> ba_num_free a
     then r = Inr () \<and> bt_num_tokens t' = bt_num_tokens t + int n \<and> ba_num_free a' = ba_num_free a - need
     else r = Inl RuntimeError \<and> ba_num_free a' = 0)"
  using assms
proof (induction n arbitrary: a t need)
  case 0
  then show ?case by (auto simp: ba_num_free_def)
next
  case (Suc n)
  let ?bs = "ba_block_size a" and ?k = "bt_num_tokens t"
  have bs: "0 < ?bs" using Suc.prems(1) by (simp add: ba_own_def ba_ok_def)
  note step = ceil_div_Suc [OF bs, of ?k]
  have sum: "?k + int (Suc n) = (?k + 1) + int n" by simp
  have le: "ceil_div (?k + 1) ?bs \<le> ceil_div (?k + 1 + int n) ?bs" by (rule ceil_div_mono [OF bs]) simp
  from Suc.prems(1) show ?case
  proof (cases rule: append_token_cases)
    case full
    with Suc.prems le step have "\<not> need \<le> ba_num_free a" unfolding sum by simp
    with full Suc.prems show ?thesis by simp
  next
    case (new b a')
    let ?t = "t\<lparr>bt_ids := bt_ids t @ [b], bt_num_tokens := ?k + 1\<rparr>"
    have fr: "ba_block_size a' = ?bs" using new(5) by (simp add: ba_frame_def)
    have own': "ba_own a' (mset (bt_ids ?t) + U)" using new(4) by simp
    have len': "int (length (bt_ids ?t)) = ceil_div (bt_num_tokens ?t) (ba_block_size a')"
      using Suc.prems(2) step new(1) fr by simp
    from Suc.IH [OF own' len' refl] obtain r a2 t2 where
      "append_loop n (a', ?t) = (r, (a2, t2))" "ba_own a2 (mset (bt_ids t2) + U)" "ba_frame a2 = ba_frame a'"
      "int (length (bt_ids t2)) = ceil_div (bt_num_tokens t2) (ba_block_size a')"
      "if ceil_div (?k + 1 + int n) ?bs - ceil_div (?k + 1) ?bs \<le> ba_num_free a'
       then r = Inr () \<and> bt_num_tokens t2 = ?k + 1 + int n \<and>
         ba_num_free a2 = ba_num_free a' - (ceil_div (?k + 1 + int n) ?bs - ceil_div (?k + 1) ?bs)
       else r = Inl RuntimeError \<and> ba_num_free a2 = 0" by (auto simp: fr)
    with new fr step Suc.prems(3) show ?thesis unfolding sum by (auto split: if_splits)
  next
    case fits
    let ?t = "t\<lparr>bt_num_tokens := ?k + 1\<rparr>"
    have own': "ba_own a (mset (bt_ids ?t) + U)" using Suc.prems(1) by simp
    have len': "int (length (bt_ids ?t)) = ceil_div (bt_num_tokens ?t) ?bs"
      using Suc.prems(2) step fits(1) by simp
    from Suc.IH [OF own' len' refl] fits step Suc.prems(3) show ?thesis
      unfolding sum by (auto split: if_splits)
  qed
qed

section \<open>The invariant of the cache\<close>

lemma map_apsnd_update: "map (apsnd f) (AList.update k v d) = AList.update k (f v) (map (apsnd f) d)"
  by (induction d) auto

lemma map_apsnd_delete: "map (apsnd f) (AList.delete k d) = AList.delete k (map (apsnd f) d)"
  by (induction d) auto

lemma map_of_apsnd: "map_of (map (apsnd f) d) k = map_option f (map_of d k)"
  by (induction d) auto

lemma keys_apsnd: "map fst (map (apsnd f) d) = map fst d"
  by simp

definition held :: "(int, block_table) odict \<Rightarrow> int multiset" where
  "held d = table_refs (map (apsnd bt_ids) d)"

lemma held_delete:
  "od_ok d \<Longrightarrow> map_of d k = Some t \<Longrightarrow> held d = mset (bt_ids t) + held (AList.delete k d)"
  using table_refs_delete [of "map (apsnd bt_ids) d" k "bt_ids t"]
  by (simp add: held_def map_of_apsnd map_apsnd_delete)

lemma held_update_new: "map_of d k = None \<Longrightarrow> held (AList.update k t d) = held d + mset (bt_ids t)"
  using table_refs_update_new [of "map (apsnd bt_ids) d" k "bt_ids t"]
  by (simp add: held_def map_of_apsnd map_apsnd_update)

lemma held_update:
  assumes "od_ok d" and "map_of d k = Some t"
  shows "held (AList.update k t' d) = mset (bt_ids t') + held (AList.delete k d)"
proof -
  have "held (AList.update k t' d) + mset (bt_ids t) = held d + mset (bt_ids t')"
    using table_refs_update [of "map (apsnd bt_ids) d" k "bt_ids t" "bt_ids t'"] assms
    by (simp add: held_def map_of_apsnd map_apsnd_update)
  with held_delete [OF assms] show ?thesis by (simp add: ac_simps)
qed

text \<open>
  \<open>E\<close> are blocks that no table holds and that are not free: what a failed
  allocation lost. Every table that has blocks has exactly as many as its
  tokens need; a table whose blocks were given back is marked by having none.
\<close>

definition pk_ok :: "int multiset \<Rightarrow> 'd paged_kv \<Rightarrow> bool" where
  "pk_ok E c \<longleftrightarrow> od_ok (pk_tables c) \<and> ba_own (pk_alloc c) (held (pk_tables c) + E)"

lemma pk_okI: "od_ok (pk_tables c) \<Longrightarrow> ba_own (pk_alloc c) (held (pk_tables c) + E) \<Longrightarrow> pk_ok E c"
  by (simp add: pk_ok_def)

lemma allocate_sequence_spec:
  assumes ok: "pk_ok E c" and new: "map_of (pk_tables c) sid = None" and n: "0 \<le> n"
    and need: "need = ceil_div n (ba_block_size (pk_alloc c))"
  shows "\<exists>r c'. pk_allocate_sequence sid n c = (r, c') \<and>
    (if need \<le> ba_num_free (pk_alloc c)
     then r = Inr () \<and> pk_ok E c' \<and>
       (\<exists>ids. map_of (pk_tables c') sid = Some \<lparr>bt_ids = ids, bt_num_tokens = n\<rparr> \<and> int (length ids) = need) \<and>
       ba_num_free (pk_alloc c') = ba_num_free (pk_alloc c) - need
     else r = Inl RuntimeError \<and> pk_tables c' = pk_tables c \<and> ba_num_free (pk_alloc c') = 0 \<and>
       (\<exists>L. pk_ok (L + E) c'))"
proof -
  let ?t0 = "\<lparr>bt_ids = [], bt_num_tokens = 0\<rparr>" and ?a = "pk_alloc c"
  have od: "od_ok (pk_tables c)" and own: "ba_own ?a (mset (bt_ids ?t0) + (held (pk_tables c) + E))"
    using ok by (simp_all add: pk_ok_def)
  have z: "ceil_div 0 b = 0" for b by (simp add: ceil_div_def)
  have len: "int (length (bt_ids ?t0)) = ceil_div (bt_num_tokens ?t0) (ba_block_size ?a)" by (simp add: z)
  from append_loop_spec [OF own len refl, of "nat n"] n need z obtain r a t where
    l: "append_loop (nat n) (?a, ?t0) = (r, (a, t))" "ba_own a (mset (bt_ids t) + (held (pk_tables c) + E))"
      "int (length (bt_ids t)) = ceil_div (bt_num_tokens t) (ba_block_size ?a)"
      "if need \<le> ba_num_free ?a
       then r = Inr () \<and> bt_num_tokens t = n \<and> ba_num_free a = ba_num_free ?a - need
       else r = Inl RuntimeError \<and> ba_num_free a = 0" by auto
  have nm: "\<not> od_mem sid (pk_tables c)" using new by (simp add: od_mem_def)
  show ?thesis
  proof (cases "need \<le> ba_num_free ?a")
    case True
    let ?c = "c\<lparr>pk_alloc := a, pk_tables := AList.update sid t (pk_tables c)\<rparr>"
    have "ba_own a (held (pk_tables ?c) + E)" using l(2) by (simp add: held_update_new [OF new] ac_simps)
    then have "pk_ok E ?c" using od by (intro pk_okI) auto
    moreover have "t = \<lparr>bt_ids = bt_ids t, bt_num_tokens = n\<rparr>" using True l(4) by (cases t) simp
    ultimately show ?thesis
      using True l nm n need by (intro exI [of _ "Inr ()"] exI [of _ ?c])
        (auto simp: pk_allocate_sequence_def intro!: exI [of _ "bt_ids t"])
  next
    case False
    let ?c = "c\<lparr>pk_alloc := a\<rparr>"
    have "pk_ok (mset (bt_ids t) + E) ?c" using od l(2) by (intro pk_okI) (simp_all add: ac_simps)
    then show ?thesis
      using False l nm n by (intro exI [of _ "Inl RuntimeError"] exI [of _ ?c])
        (auto simp: pk_allocate_sequence_def)
  qed
qed

text \<open>Tables that were not released keep as many blocks as their tokens need.\<close>

lemma append_loop_own:
  "ba_own a (mset (bt_ids t) + U) \<Longrightarrow> append_loop n (a, t) = (r, (a', t')) \<Longrightarrow>
   ba_own a' (mset (bt_ids t') + U) \<and> ba_frame a' = ba_frame a"
proof (induction n arbitrary: a t)
  case 0
  then show ?case by simp
next
  case (Suc n)
  from Suc.prems(1) show ?case
  proof (cases rule: append_token_cases)
    case full
    with Suc.prems show ?thesis by auto
  next
    case (new b a1)
    with Suc.IH [of a1 "t\<lparr>bt_ids := bt_ids t @ [b], bt_num_tokens := bt_num_tokens t + 1\<rparr>"] Suc.prems(2)
    show ?thesis by simp
  next
    case fits
    with Suc.IH [of a "t\<lparr>bt_num_tokens := bt_num_tokens t + 1\<rparr>"] Suc.prems show ?thesis by simp
  qed
qed

lemma append_tokens_ok:
  assumes ok: "pk_ok E c" and r: "pk_append_tokens sid n c = (r, c')"
  shows "pk_ok E c'"
proof (cases "n < 0 \<or> map_of (pk_tables c) sid = None")
  case True
  with assms show ?thesis by (auto simp: pk_append_tokens_def split: if_splits)
next
  case False
  then obtain t where t: "map_of (pk_tables c) sid = Some t" "\<not> n < 0" by auto
  have od: "od_ok (pk_tables c)" using ok by (simp add: pk_ok_def)
  have own: "ba_own (pk_alloc c) (mset (bt_ids t) + (held (AList.delete sid (pk_tables c)) + E))"
    using ok held_delete [OF od t(1)] by (simp add: pk_ok_def ac_simps)
  obtain x a t' where l: "append_loop (nat n) (pk_alloc c, t) = (x, (a, t'))" by (metis surj_pair)
  have "c' = c\<lparr>pk_alloc := a, pk_tables := AList.update sid t' (pk_tables c)\<rparr>"
    using r t l by (simp add: pk_append_tokens_def)
  moreover have "ba_own a (held (AList.update sid t' (pk_tables c)) + E)"
    using append_loop_own [OF own l] by (simp add: held_update [OF od t(1)] ac_simps)
  ultimately show ?thesis using od by (intro pk_okI) auto
qed

lemma free_table_own:
  assumes ok: "pk_ok E c" and t: "map_of (pk_tables c) sid = Some t"
  shows "\<exists>a. ba_free_blocks (bt_ids t) (pk_alloc c) = (Inr (), a) \<and>
    ba_own a (held (AList.delete sid (pk_tables c)) + E) \<and> ba_frame a = ba_frame (pk_alloc c)"
proof -
  have od: "od_ok (pk_tables c)" using ok by (simp add: pk_ok_def)
  have "ba_own (pk_alloc c) (mset (bt_ids t) + (held (AList.delete sid (pk_tables c)) + E))"
    using ok held_delete [OF od t] by (simp add: pk_ok_def ac_simps)
  from pages.release_all [OF this] show ?thesis by (simp add: ba_free_blocks_def)
qed

lemma free_sequence_ok:
  assumes ok: "pk_ok E c"
  shows "\<exists>c'. pk_free_sequence sid c = (Inr (), c') \<and> pk_ok E c' \<and>
    pk_tables c' = AList.delete sid (pk_tables c)"
proof (cases "map_of (pk_tables c) sid")
  case None
  then have "AList.delete sid (pk_tables c) = pk_tables c" by (intro delete_absent) (simp add: map_of_eq_None_iff)
  with None ok show ?thesis by (simp add: pk_free_sequence_def)
next
  case (Some t)
  from free_table_own [OF ok Some] obtain a where
    "ba_free_blocks (bt_ids t) (pk_alloc c) = (Inr (), a)"
    "ba_own a (held (AList.delete sid (pk_tables c)) + E)" by blast
  with ok Some show ?thesis by (simp add: pk_free_sequence_def pk_ok_def Let_def)
qed

lemma free_gpu_blocks_ok:
  assumes ok: "pk_ok E c"
  shows "\<exists>c'. pk_free_gpu_blocks sid c = (Inr (), c') \<and> pk_ok E c' \<and>
    (\<forall>t. map_of (pk_tables c) sid = Some t \<longrightarrow> map_of (pk_tables c') sid = Some (t\<lparr>bt_ids := []\<rparr>)) \<and>
    pk_buffers c' = pk_buffers c \<and> pk_saved_tokens c' = pk_saved_tokens c \<and> pk_swapped c' = pk_swapped c \<and>
    pk_data c' = pk_data c"
proof (cases "map_of (pk_tables c) sid")
  case None
  with ok show ?thesis by (simp add: pk_free_gpu_blocks_def)
next
  case (Some t)
  show ?thesis
  proof (cases "bt_ids t = []")
    case True
    then have "t\<lparr>bt_ids := []\<rparr> = t" by (cases t) simp
    with True Some ok show ?thesis by (simp add: pk_free_gpu_blocks_def)
  next
    case False
    have od: "od_ok (pk_tables c)" using ok by (simp add: pk_ok_def)
    from free_table_own [OF ok Some] obtain a where
      a: "ba_free_blocks (bt_ids t) (pk_alloc c) = (Inr (), a)"
        "ba_own a (held (AList.delete sid (pk_tables c)) + E)" by blast
    have "held (AList.update sid (t\<lparr>bt_ids := []\<rparr>) (pk_tables c)) = held (AList.delete sid (pk_tables c))"
      by (simp add: held_update [OF od Some])
    with a False Some od show ?thesis by (simp add: pk_free_gpu_blocks_def pk_ok_def)
  qed
qed

lemma write_blocks_other: "b \<notin> set ids \<Longrightarrow> write_blocks ids buf d b = d b"
  by (induction ids buf d rule: write_blocks.induct) auto

lemma write_blocks_map:
  "distinct ids \<Longrightarrow> length ids = length buf \<Longrightarrow> map (write_blocks ids buf d) ids = buf"
proof (induction ids buf d rule: write_blocks.induct)
  case (1 b bs x xs d)
  then show ?case by (simp add: write_blocks_other del: fun_upd_apply) (simp add: fun_upd_same)
qed auto

lemma pk_ok_cong:
  "pk_alloc c' = pk_alloc c \<Longrightarrow> pk_tables c' = pk_tables c \<Longrightarrow> pk_ok E c' = pk_ok E c"
  by (simp add: pk_ok_def)

lemma pk_swap_out_ok: "pk_ok E c \<Longrightarrow> pk_swap_out sid c = (r, c') \<Longrightarrow> pk_ok E c'"
  by (auto simp: pk_swap_out_def pk_ok_def Let_def split: option.splits if_splits)

lemma own_distinct: "ba_own a (mset bs + U) \<Longrightarrow> distinct bs"
proof -
  assume own: "ba_own a (mset bs + U)"
  have "count (mset bs) b \<le> 1" for b
  proof -
    have "count (mset bs) b + count U b + of_bool (b \<in> ba_free a) = of_bool (0 \<le> b \<and> b < ba_num_blocks a)"
      using own by (simp add: ba_own_def)
    moreover have "of_bool (0 \<le> b \<and> b < ba_num_blocks a) \<le> (1 :: nat)" by simp
    ultimately show ?thesis by linarith
  qed
  then show "distinct bs"
    by (metis One_nat_def count_eq_zero_iff distinct_count_atmost_1 le_0_eq le_SucE set_mset_mset)
qed

text \<open>Taking the blocks for the saved buffer, when the table has none.\<close>

lemma restore_own:
  assumes ok: "pk_ok E c" and t: "map_of (pk_tables c) sid = Some t" and e: "bt_ids t = []"
    and n: "int n \<le> ba_num_free (pk_alloc c)"
  shows "\<exists>ids a. ba_allocate (int n) (pk_alloc c) = (Inr ids, a) \<and> length ids = n \<and> distinct ids \<and>
    (\<forall>k. ba_own a (held (AList.update sid \<lparr>bt_ids = ids, bt_num_tokens = k\<rparr> (pk_tables c)) + E))"
proof -
  have od: "od_ok (pk_tables c)" using ok by (simp add: pk_ok_def)
  have own: "ba_own (pk_alloc c) (held (AList.delete sid (pk_tables c)) + E)"
    using ok held_delete [OF od t] e by (simp add: pk_ok_def)
  from ba_allocate_ok [OF own _ n] obtain ids a where
    a: "ba_allocate (int n) (pk_alloc c) = (Inr ids, a)"
      "ba_own a (mset ids + (held (AList.delete sid (pk_tables c)) + E))" "int (length ids) = int n" by auto
  have "ba_own a (held (AList.update sid \<lparr>bt_ids = ids, bt_num_tokens = k\<rparr> (pk_tables c)) + E)" for k
    using a(2) by (simp add: held_update [OF od t] union_assoc)
  with a own_distinct [OF a(2)] show ?thesis by (intro exI [of _ ids] exI [of _ a]) simp
qed

lemma pk_swap_in_ok:
  assumes ok: "pk_ok E c" and r: "pk_swap_in sid c = (r, c')"
  shows "pk_ok E c'"
proof (cases "map_of (pk_tables c) sid")
  case None
  with assms show ?thesis by (simp add: pk_swap_in_def)
next
  case (Some t)
  show ?thesis
  proof (cases "sid \<in> pk_swapped c \<and> bt_ids t = [] \<and> pk_buffers c sid \<noteq> None")
    case False
    with Some r ok show ?thesis
      by (auto simp: pk_swap_in_def pk_ok_def Let_def split: if_splits option.splits)
  next
    case True
    then obtain buf where b: "sid \<in> pk_swapped c" "bt_ids t = []" "pk_buffers c sid = Some buf" by auto
    have od: "od_ok (pk_tables c)" using ok by (simp add: pk_ok_def)
    show ?thesis
    proof (cases "int (length buf) \<le> ba_num_free (pk_alloc c)")
      case True
      from restore_own [OF ok Some b(2) True] obtain ids a where
        "ba_allocate (int (length buf)) (pk_alloc c) = (Inr ids, a)" "length ids = length buf"
        "\<forall>k. ba_own a (held (AList.update sid \<lparr>bt_ids = ids, bt_num_tokens = k\<rparr> (pk_tables c)) + E)" by blast
      with Some b r od show ?thesis
        by (auto simp: pk_swap_in_def pk_ok_def Let_def split: if_splits)
    next
      case False
      then have "ba_allocate (int (length buf)) (pk_alloc c) = (Inl RuntimeError, pk_alloc c)"
        by (cases buf) (auto simp: ba_allocate_def ba_num_free_def)
      with Some b r ok show ?thesis by (auto simp: pk_swap_in_def pk_ok_def Let_def)
    qed
  qed
qed

section \<open>Runs of the cache\<close>

datatype pk_op =
    Allocate_sequence int int
  | Append_tokens int int
  | Free_sequence int
  | Free_gpu_blocks int
  | Swap_out int
  | Swap_in int

fun pk_step :: "pk_op \<Rightarrow> 'd paged_kv \<Rightarrow> 'd paged_kv" where
  "pk_step (Allocate_sequence i n) c = snd (pk_allocate_sequence i n c)"
| "pk_step (Append_tokens i n) c = snd (pk_append_tokens i n c)"
| "pk_step (Free_sequence i) c = snd (pk_free_sequence i c)"
| "pk_step (Free_gpu_blocks i) c = snd (pk_free_gpu_blocks i c)"
| "pk_step (Swap_out i) c = snd (pk_swap_out i c)"
| "pk_step (Swap_in i) c = snd (pk_swap_in i c)"

lemma allocate_sequence_error:
  "map_of (pk_tables c) i \<noteq> None \<or> n < 0 \<Longrightarrow> pk_allocate_sequence i n c = (Inl ValueError, c)"
  by (auto simp: pk_allocate_sequence_def od_mem_def)

lemma pk_step_ok: "pk_ok E c \<Longrightarrow> \<exists>E'. pk_ok E' (pk_step x c)"
proof (cases x)
  case (Allocate_sequence i n)
  assume ok: "pk_ok E c"
  show ?thesis
  proof (cases "map_of (pk_tables c) i \<noteq> None \<or> n < 0")
    case True
    with ok Allocate_sequence show ?thesis by (auto simp: allocate_sequence_error)
  next
    case False
    with allocate_sequence_spec [OF ok, of i n] Allocate_sequence show ?thesis
      by (auto split: if_splits)
  qed
next
  case (Append_tokens i n)
  assume ok: "pk_ok E c"
  with append_tokens_ok [OF ok, of i n] Append_tokens show ?thesis by (cases "pk_append_tokens i n c") auto
next
  case (Free_sequence i)
  assume ok: "pk_ok E c"
  with free_sequence_ok [OF ok, of i] Free_sequence show ?thesis by auto
next
  case (Free_gpu_blocks i)
  assume ok: "pk_ok E c"
  with free_gpu_blocks_ok [OF ok, of i] Free_gpu_blocks show ?thesis by auto
next
  case (Swap_out i)
  assume ok: "pk_ok E c"
  with pk_swap_out_ok [OF ok, of i] Swap_out show ?thesis by (cases "pk_swap_out i c") auto
next
  case (Swap_in i)
  assume ok: "pk_ok E c"
  with pk_swap_in_ok [OF ok, of i] Swap_in show ?thesis by (cases "pk_swap_in i c") auto
qed

lemma pk_run_ok: "pk_ok E c \<Longrightarrow> \<exists>E'. pk_ok E' (fold pk_step xs c)"
proof (induction xs arbitrary: E c)
  case (Cons x xs)
  from pk_step_ok [OF Cons.prems, of x] obtain E1 where "pk_ok E1 (pk_step x c)" by blast
  from Cons.IH [OF this] show ?case by simp
qed auto

lemma paged_kv_init_ok: "paged_kv_init z n bs l h d = Inr c \<Longrightarrow> pk_ok {#} c \<and> ba_frame (pk_alloc c) = (n, bs)"
  using allocator_init_own by (auto simp: paged_kv_init_def pk_ok_def held_def split: if_splits sum.splits)

lemma held_concat: "held d = mset (concat (map (bt_ids \<circ> snd) d))"
  by (simp add: held_def table_refs_def comp_def)

section \<open>Properties\<close>

text \<open>
  C8: However the cache is used, and whichever operations fail, no block is
  ever in two block tables or twice in one, and no block of a table is free:
  the attention of one sequence never reads or writes the pages of another.
\<close>

theorem paged_blocks_exclusive:
  assumes "paged_kv_init z n bs l h d = Inr c0" and "c = fold pk_step xs c0"
  shows "distinct (concat (map (bt_ids \<circ> snd) (pk_tables c))) \<and>
    set (concat (map (bt_ids \<circ> snd) (pk_tables c))) \<inter> ba_free (pk_alloc c) = {} \<and>
    ba_num_free (pk_alloc c) = int (card (ba_free (pk_alloc c)))"
proof -
  from paged_kv_init_ok [OF assms(1)] have "pk_ok {#} c0" by simp
  from pk_run_ok [OF this, of xs] assms(2) obtain E where ok: "pk_ok E c" by blast
  let ?ids = "concat (map (bt_ids \<circ> snd) (pk_tables c))"
  have own: "ba_own (pk_alloc c) (mset ?ids + E)" using ok by (simp only: pk_ok_def held_concat)
  have "b \<notin> ba_free (pk_alloc c)" if "b \<in> set ?ids" for b
  proof
    assume f: "b \<in> ba_free (pk_alloc c)"
    have c: "count (mset ?ids + E) b + of_bool (b \<in> ba_free (pk_alloc c)) =
        of_bool (0 \<le> b \<and> b < ba_num_blocks (pk_alloc c))" using own unfolding ba_own_def by blast
    have "0 < count (mset ?ids) b" using that by (simp only: count_greater_zero_iff set_mset_mset)
    moreover have "of_bool (0 \<le> b \<and> b < ba_num_blocks (pk_alloc c)) \<le> (1 :: nat)" by simp
    moreover have "of_bool (b \<in> ba_free (pk_alloc c)) = (1 :: nat)" using f by simp
    ultimately show False using c unfolding count_union by linarith
  qed
  moreover have "ba_ok (pk_alloc c)" using own by (simp only: ba_own_def)
  then have "ba_num_free (pk_alloc c) = int (card (ba_free (pk_alloc c)))"
    using distinct_card [of "ba_heap (pk_alloc c)"] by (auto simp: ba_ok_def ba_num_free_def)
  ultimately show ?thesis using own_distinct [OF own] by blast
qed

theorem paged_blocks_exclusive_witness:
  "\<exists>c0. paged_kv_init (0 :: nat) 4 2 1 1 1 = Inr c0 \<and>
     distinct (concat (map (bt_ids \<circ> snd) (pk_tables (fold pk_step
       [Allocate_sequence 1 3, Allocate_sequence 2 2, Swap_out 1, Free_gpu_blocks 1, Append_tokens 2 2, Swap_in 1] c0))))"
proof -
  obtain c0 where i: "paged_kv_init (0 :: nat) 4 2 1 1 1 = Inr c0"
    by (simp add: paged_kv_init_def allocator_init_def)
  with paged_blocks_exclusive [OF i refl] show ?thesis by blast
qed

text \<open>
  Allocating a new sequence of \<open>n\<close> tokens in a cache that has lost no
  block succeeds exactly when \<open>\<lceil>n / block_size\<rceil>\<close> blocks are free and then takes
  exactly that many. When it fails for lack of blocks it has already taken
  every free block, and they are lost: nothing is free afterwards, yet no table
  holds more than before.
\<close>

theorem allocate_sequence_all_or_leak:
  assumes "pk_ok {#} c" and "map_of (pk_tables c) sid = None" and "0 \<le> n"
    and "need = ceil_div n (ba_block_size (pk_alloc c))" and "pk_allocate_sequence sid n c = (r, c')"
  shows "if need \<le> ba_num_free (pk_alloc c)
    then r = Inr () \<and> (\<exists>ids. pk_get_block_table sid c' = Inr ids \<and> int (length ids) = need) \<and>
      ba_num_free (pk_alloc c') = ba_num_free (pk_alloc c) - need
    else r = Inl RuntimeError \<and> pk_tables c' = pk_tables c \<and> ba_num_free (pk_alloc c') = 0"
  using allocate_sequence_spec [OF assms(1-4)] assms(5)
  by (auto simp: pk_get_block_table_def split: if_splits)

theorem allocate_sequence_all_or_leak_witness:
  "\<exists>c0. paged_kv_init (0 :: nat) 2 2 1 1 1 = Inr c0 \<and> ba_num_free (pk_alloc c0) = 2 \<and>
     ba_num_free (pk_alloc (snd (pk_allocate_sequence 7 5 c0))) = 0 \<and>
     pk_tables (snd (pk_allocate_sequence 7 5 c0)) = []"
proof -
  obtain c0 where i: "paged_kv_init (0 :: nat) 2 2 1 1 1 = Inr c0"
    by (simp add: paged_kv_init_def allocator_init_def)
  then have c: "pk_tables c0 = []" "ba_num_free (pk_alloc c0) = 2" "ba_block_size (pk_alloc c0) = 2"
    by (auto simp: paged_kv_init_def allocator_init_def ba_num_free_def)
  from paged_kv_init_ok [OF i] have ok: "pk_ok {#} c0" by simp
  have "map_of (pk_tables c0) 7 = None" using c by simp
  from allocate_sequence_all_or_leak [OF ok this, of 5 3 "fst (pk_allocate_sequence 7 5 c0)"
      "snd (pk_allocate_sequence 7 5 c0)"] c i show ?thesis
    by (auto simp: ceil_div_def)
qed

text \<open>
  Swapping out and in again restores a sequence: copy the blocks out, give
  them back, let anything happen to the other sequences and to the content of
  the cache, and swap in; if enough blocks are free the sequence has as many
  blocks as before, with the content its old blocks had, the other tables are
  untouched, and its CPU buffer is released.
\<close>

theorem paged_swap_round_trip:
  assumes "pk_ok E c" and "map_of (pk_tables c) sid = Some t" and "bt_ids t \<noteq> []" and "sid \<notin> pk_swapped c"
    and "pk_swap_out sid c = (Inr (), c1)" and "pk_free_gpu_blocks sid c1 = (Inr (), c2)"
    and "pk_ok E' c3" and "map_of (pk_tables c3) sid = map_of (pk_tables c2) sid"
    and "pk_buffers c3 sid = pk_buffers c2 sid" and "pk_saved_tokens c3 sid = pk_saved_tokens c2 sid"
    and "sid \<in> pk_swapped c3" and "int (length (bt_ids t)) \<le> ba_num_free (pk_alloc c3)"
  shows "\<exists>c4 t4. pk_swap_in sid c3 = (Inr (), c4) \<and> map_of (pk_tables c4) sid = Some t4 \<and>
    map (pk_data c4) (bt_ids t4) = map (pk_data c) (bt_ids t) \<and> bt_num_tokens t4 = bt_num_tokens t \<and>
    (\<forall>j. j \<noteq> sid \<longrightarrow> map_of (pk_tables c4) j = map_of (pk_tables c3) j) \<and>
    (\<forall>b. b \<notin> set (bt_ids t4) \<longrightarrow> pk_data c4 b = pk_data c3 b) \<and>
    sid \<notin> pk_swapped c4 \<and> pk_buffers c4 sid = None"
proof -
  let ?buf = "map (pk_data c) (bt_ids t)"
  have c1: "pk_tables c1 = pk_tables c" "pk_alloc c1 = pk_alloc c" "pk_buffers c1 sid = Some ?buf"
    "pk_saved_tokens c1 sid = Some (bt_num_tokens t)"
    using assms(2-5) by (auto simp: pk_swap_out_def Let_def)
  have ok1: "pk_ok E c1" using assms(1) c1 by (simp add: pk_ok_def)
  from free_gpu_blocks_ok [OF ok1, of sid] assms(2,6) c1 have
    c2: "map_of (pk_tables c2) sid = Some (t\<lparr>bt_ids := []\<rparr>)" "pk_buffers c2 sid = Some ?buf"
      "pk_saved_tokens c2 sid = Some (bt_num_tokens t)" by auto
  have t3: "map_of (pk_tables c3) sid = Some (t\<lparr>bt_ids := []\<rparr>)" "pk_buffers c3 sid = Some ?buf"
    "pk_saved_tokens c3 sid = Some (bt_num_tokens t)" using assms(8-10) c2 by simp_all
  have "bt_ids (t\<lparr>bt_ids := []\<rparr>) = []" by simp
  from restore_own [OF assms(7) t3(1) this, of "length ?buf"] assms(12) obtain ids a where
    ids: "ba_allocate (int (length ?buf)) (pk_alloc c3) = (Inr ids, a)" "length ids = length ?buf" "distinct ids"
    by auto
  let ?t4 = "\<lparr>bt_ids = ids, bt_num_tokens = bt_num_tokens t\<rparr>"
  let ?c4 = "c3\<lparr>pk_buffers := (pk_buffers c3)(sid := None), pk_saved_tokens := (pk_saved_tokens c3)(sid := None),
      pk_alloc := a, pk_tables := AList.update sid ?t4 (pk_tables c3),
      pk_data := write_blocks ids ?buf (pk_data c3), pk_swapped := pk_swapped c3 - {sid}\<rparr>"
  have "ids \<noteq> []" using ids(2) assms(3) by auto
  then have "pk_swap_in sid c3 = (Inr (), ?c4)"
    using t3 ids(1,2) assms(11) by (simp add: pk_swap_in_def Let_def broadcast_same)
  moreover have "map (write_blocks ids ?buf (pk_data c3)) ids = ?buf"
    by (rule write_blocks_map) (use ids in simp_all)
  ultimately show ?thesis
    by (intro exI [of _ ?c4] exI [of _ ?t4]) (simp add: write_blocks_other)
qed

theorem paged_swap_round_trip_witness:
  "let a = \<lparr>ba_num_blocks = 2, ba_block_size = 4, ba_heap = [0], ba_free = {0}\<rparr>;
       t = \<lparr>bt_ids = [1], bt_num_tokens = 3\<rparr>;
       c = \<lparr>pk_alloc = a, pk_tables = [(7, t)], pk_buffers = Map.empty, pk_saved_tokens = Map.empty,
            pk_swapped = {}, pk_data = (\<lambda>b. 10 * b)\<rparr>;
       c2 = snd (pk_free_gpu_blocks 7 (snd (pk_swap_out 7 c)));
       c3 = c2\<lparr>pk_data := (\<lambda>b. 0)\<rparr>
   in \<exists>c4 t4. pk_swap_in 7 c3 = (Inr (), c4) \<and> map_of (pk_tables c4) 7 = Some t4 \<and>
        map (pk_data c4) (bt_ids t4) = [10]"
proof -
  let ?a = "\<lparr>ba_num_blocks = 2, ba_block_size = 4, ba_heap = [0], ba_free = {0}\<rparr>"
  let ?t = "\<lparr>bt_ids = [1], bt_num_tokens = 3\<rparr>"
  let ?c = "\<lparr>pk_alloc = ?a, pk_tables = [(7, ?t)], pk_buffers = Map.empty, pk_saved_tokens = Map.empty,
            pk_swapped = {}, pk_data = (\<lambda>b. 10 * b)\<rparr>"
  let ?c1 = "?c\<lparr>pk_saved_tokens := [7 \<mapsto> 3], pk_buffers := [7 \<mapsto> [10]], pk_swapped := {7}\<rparr>"
  let ?c2 = "?c1\<lparr>pk_alloc := ?a\<lparr>ba_heap := [0, 1], ba_free := {0, 1}\<rparr>, pk_tables := [(7, ?t\<lparr>bt_ids := []\<rparr>)]\<rparr>"
  have c1: "pk_swap_out 7 ?c = (Inr (), ?c1)" by (simp add: pk_swap_out_def Let_def)
  have c2: "pk_free_gpu_blocks 7 ?c1 = (Inr (), ?c2)"
    by (simp add: pk_free_gpu_blocks_def ba_free_blocks_def free_one_def insert_commute)
  have ok: "pk_ok {#} ?c" by (auto simp: pk_ok_def ba_own_def ba_ok_def held_def of_bool_def)
  have ok3: "pk_ok {#} (?c2\<lparr>pk_data := (\<lambda>b. 0)\<rparr>)"
    by (auto simp: pk_ok_def ba_own_def ba_ok_def held_def of_bool_def)
  have t: "map_of (pk_tables ?c) 7 = Some ?t" by simp
  from paged_swap_round_trip [OF ok t _ _ c1 c2 ok3] show ?thesis
    unfolding Let_def c1 c2 snd_conv by (auto simp: ba_num_free_def)
qed

end
