(* ===== verification/Serving_Batch.thy ===== *)
theory Serving_Batch
  imports Serving_Sequence Paged_KV
begin

text \<open>
  \<^verbatim>\<open>src/moe_infinity/serving/batch.py\<close>: the scheduler's output, the packed batch
  built from it, its validation, and the split of a mixed batch into a prefill
  and a decode batch with the recombination of their outputs. A tensor of logits
  is the list of its rows; lengths and offsets are lengths of token lists, hence
  natural numbers.
\<close>

section \<open>Scheduler output and batches\<close>

record scheduler_output =
  prefill_seq_ids :: "int list"
  decode_seq_ids :: "int list"
  preempted_seq_ids :: "int list"
  num_prefill_tokens :: int
  num_decode_tokens :: int

definition empty_output :: scheduler_output where
  "empty_output = \<lparr>prefill_seq_ids = [], decode_seq_ids = [], preempted_seq_ids = [],
     num_prefill_tokens = 0, num_decode_tokens = 0\<rparr>"

record batch_metadata =
  seq_ids :: "int list"
  input_token_ids :: "int list"
  seq_lengths :: "nat list"
  context_lengths :: "int list"
  is_prefill :: "bool list"
  block_tables :: "int list list"
  token_offsets :: "nat list"
  batch_params :: "sv_sampling_params list"

fun offsets_cumulative :: "nat \<Rightarrow> nat list \<Rightarrow> nat list \<Rightarrow> bool" where
  "offsets_cumulative acc [] offs = True"
| "offsets_cumulative acc (n # ns) offs = (hd offs = acc + n \<and> offsets_cumulative (acc + n) ns (tl offs))"

text \<open>\<^verbatim>\<open>BatchMetadata.__post_init__\<close>: the batch, if it is well formed.\<close>

definition check_batch :: "batch_metadata \<Rightarrow> batch_metadata result" where
  "check_batch b =
     (let expected = length (seq_ids b)
      in if length (seq_lengths b) \<noteq> expected then Inl ValueError
         else if length (context_lengths b) \<noteq> expected then Inl ValueError
         else if length (is_prefill b) \<noteq> expected then Inl ValueError
         else if length (block_tables b) \<noteq> expected then Inl ValueError
         else if length (batch_params b) \<noteq> expected then Inl ValueError
         else if length (token_offsets b) \<noteq> expected + 1 then Inl ValueError
         else if take 1 (token_offsets b) \<noteq> [0] then Inl ValueError
         else if \<not> offsets_cumulative 0 (seq_lengths b) (tl (token_offsets b)) then Inl ValueError
         else if sum_list (seq_lengths b) \<noteq> length (input_token_ids b) then Inl ValueError
         else Inr b)"

definition total_tokens :: "batch_metadata \<Rightarrow> nat" where
  "total_tokens b = length (input_token_ids b)"

text \<open>\<^verbatim>\<open>xs[start:end]\<close> and \<^verbatim>\<open>xs[k:]\<close>, where a negative \<open>k\<close> counts from the end.\<close>

definition slice :: "nat \<Rightarrow> nat \<Rightarrow> 'a list \<Rightarrow> 'a list" where
  "slice i j xs = take (j - i) (drop i xs)"

definition slice_from :: "int \<Rightarrow> 'a list \<Rightarrow> 'a list" where
  "slice_from k xs = (if 0 \<le> k then drop (nat k) xs else drop (length xs - nat (- k)) xs)"

section \<open>Splitting\<close>

fun offsets_from :: "nat \<Rightarrow> nat list \<Rightarrow> nat list" where
  "offsets_from acc [] = [acc]"
| "offsets_from acc (n # ns) = acc # offsets_from (acc + n) ns"

definition slice_batch :: "batch_metadata \<Rightarrow> nat list \<Rightarrow> batch_metadata result" where
  "slice_batch b idxs =
     (if idxs = [] then Inl ValueError
      else
        (let parts = map (\<lambda>i. slice (token_offsets b ! i) (token_offsets b ! (i + 1)) (input_token_ids b)) idxs
         in check_batch
              \<lparr>seq_ids = map ((!) (seq_ids b)) idxs,
               input_token_ids = concat parts,
               seq_lengths = map ((!) (seq_lengths b)) idxs,
               context_lengths = map ((!) (context_lengths b)) idxs,
               is_prefill = map ((!) (is_prefill b)) idxs,
               block_tables = map ((!) (block_tables b)) idxs,
               token_offsets = offsets_from 0 (map length parts),
               batch_params = map ((!) (batch_params b)) idxs\<rparr>))"

record split_batch_metadata =
  original_batch :: batch_metadata
  prefill_batch :: "batch_metadata option"
  decode_batch :: "batch_metadata option"
  prefill_indices :: "nat list"
  decode_indices :: "nat list"

definition indices_where :: "(bool \<Rightarrow> bool) \<Rightarrow> bool list \<Rightarrow> nat list" where
  "indices_where p bs = filter (\<lambda>i. p (bs ! i)) [0..<length bs]"

definition slice_if_any :: "batch_metadata \<Rightarrow> nat list \<Rightarrow> batch_metadata option result" where
  "slice_if_any b idxs = (if idxs = [] then Inr None else map_sum id Some (slice_batch b idxs))"

definition split_prefill_decode_batch :: "batch_metadata \<Rightarrow> split_batch_metadata result" where
  "split_prefill_decode_batch b =
     (let ps = indices_where (\<lambda>x. x) (is_prefill b);
          ds = indices_where Not (is_prefill b)
      in case slice_if_any b ps of
           Inl e \<Rightarrow> Inl e
         | Inr pb \<Rightarrow>
             (case slice_if_any b ds of
                Inl e \<Rightarrow> Inl e
              | Inr db \<Rightarrow> Inr \<lparr>original_batch = b, prefill_batch = pb, decode_batch = db,
                              prefill_indices = ps, decode_indices = ds\<rparr>))"

section \<open>Recombining\<close>

text \<open>
  The assignment \<^verbatim>\<open>result[i:j] = rows\<close> of a tensor: the row counts must agree, or a
  single row is repeated.
\<close>

definition assign_rows :: "nat \<Rightarrow> nat \<Rightarrow> 'r list \<Rightarrow> 'r list \<Rightarrow> 'r list result" where
  "assign_rows i j rows res =
     (if length rows = length (slice i j res) then Inr (take i res @ rows @ drop j res)
      else if length rows = 1 then Inr (take i res @ replicate (length (slice i j res)) (hd rows) @ drop j res)
      else Inl RuntimeError)"

fun recombine_loop ::
  "batch_metadata \<Rightarrow> 'r list option \<Rightarrow> 'r list option \<Rightarrow> nat list \<Rightarrow> nat \<Rightarrow> nat \<Rightarrow> 'r list \<Rightarrow> 'r list result" where
  "recombine_loop b pre dec [] pc dc res = Inr res"
| "recombine_loop b pre dec (i # is) pc dc res =
     (let st = token_offsets b ! i; en = token_offsets b ! (i + 1); n = en - st
      in if n = 0 then recombine_loop b pre dec is pc dc res
         else if is_prefill b ! i
         then (case pre of
                 None \<Rightarrow> Inl ValueError
               | Some rows \<Rightarrow>
                   (case assign_rows st en (slice pc (pc + n) rows) res of
                      Inl e \<Rightarrow> Inl e
                    | Inr res1 \<Rightarrow> recombine_loop b pre dec is (pc + n) dc res1))
         else (case dec of
                 None \<Rightarrow> Inl ValueError
               | Some rows \<Rightarrow>
                   (case assign_rows st en (slice dc (dc + n) rows) res of
                      Inl e \<Rightarrow> Inl e
                    | Inr res1 \<Rightarrow> recombine_loop b pre dec is pc (dc + n) res1)))"

definition check_rows :: "batch_metadata option \<Rightarrow> 'r list option \<Rightarrow> bool" where
  "check_rows sub rows =
     (case sub of
        Some sb \<Rightarrow> (case rows of None \<Rightarrow> False | Some rs \<Rightarrow> length rs = total_tokens sb)
      | None \<Rightarrow> (case rows of None \<Rightarrow> True | Some rs \<Rightarrow> length rs = 0))"

text \<open>The rows of \<^verbatim>\<open>torch.empty\<close> hold whatever the memory held: \<open>junk\<close>.\<close>

definition recombine_outputs ::
  "'r \<Rightarrow> split_batch_metadata \<Rightarrow> 'r list option \<Rightarrow> 'r list option \<Rightarrow> 'r list result" where
  "recombine_outputs junk sp pre dec =
     (if \<not> check_rows (prefill_batch sp) pre then Inl ValueError
      else if \<not> check_rows (decode_batch sp) dec then Inl ValueError
      else if pre = None \<and> dec = None then Inr []
      else recombine_loop (original_batch sp) pre dec [0..<length (seq_ids (original_batch sp))] 0 0
             (replicate (total_tokens (original_batch sp)) junk))"

section \<open>Building a batch\<close>

type_synonym sequence_dict = "int \<rightharpoonup> sequence_data"

text \<open>One sequence of a batch.\<close>

record seq_view =
  v_id :: int
  v_tokens :: "int list"
  v_context :: int
  v_prefill :: bool
  v_blocks :: "int list"
  v_params :: sv_sampling_params

definition batch_of :: "seq_view list \<Rightarrow> batch_metadata" where
  "batch_of vs =
     \<lparr>seq_ids = map v_id vs, input_token_ids = concat (map v_tokens vs),
      seq_lengths = map (length \<circ> v_tokens) vs, context_lengths = map v_context vs,
      is_prefill = map v_prefill vs, block_tables = map v_blocks vs,
      token_offsets = offsets_from 0 (map (length \<circ> v_tokens) vs), batch_params = map v_params vs\<rparr>"

definition prefill_view :: "sequence_dict \<Rightarrow> 'd paged_kv \<Rightarrow> int \<Rightarrow> seq_view result" where
  "prefill_view objs kv sid =
     (case objs sid of
        None \<Rightarrow> Inl KeyError
      | Some s \<Rightarrow>
          (case pk_get_block_table sid kv of
             Inl e \<Rightarrow> Inl e
           | Inr bt \<Rightarrow> Inr \<lparr>v_id = sid, v_tokens = slice_from (num_computed_tokens s) (prompt_token_ids s),
                           v_context = num_computed_tokens s, v_prefill = True, v_blocks = bt,
                           v_params = seq_sampling_params s\<rparr>))"

definition decode_view :: "sequence_dict \<Rightarrow> 'd paged_kv \<Rightarrow> int \<Rightarrow> seq_view result" where
  "decode_view objs kv sid =
     (case objs sid of
        None \<Rightarrow> Inl KeyError
      | Some s \<Rightarrow>
          (let token = (if total_token_ids s \<noteq> [] then slice_from (-1) (total_token_ids s) else [])
           in case pk_get_block_table sid kv of
                Inl e \<Rightarrow> Inl e
              | Inr bt \<Rightarrow> Inr \<lparr>v_id = sid, v_tokens = token, v_context = num_computed_tokens s,
                              v_prefill = False, v_blocks = bt, v_params = seq_sampling_params s\<rparr>))"

fun map_result :: "('a \<Rightarrow> 'b result) \<Rightarrow> 'a list \<Rightarrow> 'b list result" where
  "map_result f [] = Inr []"
| "map_result f (x # xs) =
     (case f x of
        Inl e \<Rightarrow> Inl e
      | Inr y \<Rightarrow> (case map_result f xs of Inl e \<Rightarrow> Inl e | Inr ys \<Rightarrow> Inr (y # ys)))"

definition from_scheduler_output :: "scheduler_output \<Rightarrow> sequence_dict \<Rightarrow> 'd paged_kv \<Rightarrow> batch_metadata result" where
  "from_scheduler_output out objs kv =
     (case map_result (prefill_view objs kv) (prefill_seq_ids out) of
        Inl e \<Rightarrow> Inl e
      | Inr ps \<Rightarrow>
          (case map_result (decode_view objs kv) (decode_seq_ids out) of
             Inl e \<Rightarrow> Inl e
           | Inr ds \<Rightarrow> check_batch (batch_of (ps @ ds))))"


section \<open>Well-formed batches\<close>

lemma length_offsets_from [simp]: "length (offsets_from n ns) = Suc (length ns)"
  by (induction n ns rule: offsets_from.induct) auto

lemma offsets_from_nth: "i \<le> length ns \<Longrightarrow> offsets_from n ns ! i = n + sum_list (take i ns)"
proof (induction n ns arbitrary: i rule: offsets_from.induct)
  case (2 n m ns)
  then show ?case by (cases i) auto
qed simp

lemma hd_offsets_from [simp]: "hd (offsets_from n ns) = n" "take (Suc 0) (offsets_from n ns) = [n]"
  by (cases ns; simp)+

lemma offsets_cumulative_from: "offsets_cumulative n ns (tl (offsets_from n ns))"
proof (induction n ns rule: offsets_from.induct)
  case (2 n m ns)
  then show ?case by (cases ns) auto
qed simp

lemma offsets_cumulative_unique:
  "offsets_cumulative n ns offs \<Longrightarrow> length offs = length ns \<Longrightarrow> n # offs = offsets_from n ns"
proof (induction n ns offs rule: offsets_cumulative.induct)
  case (2 n m ns offs)
  from "2.prems"(2) obtain o' offs' where "offs = o' # offs'" by (cases offs) auto
  with 2 show ?case by auto
qed simp

lemma check_batch_of: "check_batch (batch_of vs) = Inr (batch_of vs)"
  by (simp add: check_batch_def batch_of_def offsets_cumulative_from length_concat comp_def)

text \<open>The tokens of consecutive lengths, and the views of a well-formed batch.\<close>

fun chop :: "nat list \<Rightarrow> 'a list \<Rightarrow> 'a list list" where
  "chop [] xs = []"
| "chop (n # ns) xs = take n xs # chop ns (drop n xs)"

lemma chop_concat:
  "sum_list ns = length xs \<Longrightarrow> concat (chop ns xs) = xs \<and> map length (chop ns xs) = ns"
proof (induction ns xs rule: chop.induct)
  case (2 n ns xs)
  then have "sum_list ns = length (drop n xs)" "n \<le> length xs" by auto
  with 2 show ?case by auto
qed simp

lemma length_chop [simp]: "length (chop ns xs) = length ns"
  by (induction ns xs rule: chop.induct) auto

definition seq_views :: "batch_metadata \<Rightarrow> seq_view list" where
  "seq_views b =
     map (\<lambda>i. \<lparr>v_id = seq_ids b ! i, v_tokens = chop (seq_lengths b) (input_token_ids b) ! i,
              v_context = context_lengths b ! i, v_prefill = is_prefill b ! i,
              v_blocks = block_tables b ! i, v_params = batch_params b ! i\<rparr>) [0..<length (seq_ids b)]"

lemma batch_of_views:
  assumes "check_batch b = Inr b'"
  shows "batch_of (seq_views b) = b" and "b' = b"
proof -
  have len: "length (seq_lengths b) = length (seq_ids b)" "length (context_lengths b) = length (seq_ids b)"
      "length (is_prefill b) = length (seq_ids b)" "length (block_tables b) = length (seq_ids b)"
      "length (batch_params b) = length (seq_ids b)" "length (token_offsets b) = length (seq_ids b) + 1"
    and off: "take 1 (token_offsets b) = [0]" "offsets_cumulative 0 (seq_lengths b) (tl (token_offsets b))"
    and sum: "sum_list (seq_lengths b) = length (input_token_ids b)" and "b' = b"
    using assms by (auto simp: check_batch_def Let_def split: if_splits)
  then show "b' = b" by simp
  from off(1) obtain os where os: "token_offsets b = 0 # os" by (cases "token_offsets b") auto
  from offsets_cumulative_unique [of 0 "seq_lengths b" os] off(2) os len
  have o: "token_offsets b = offsets_from 0 (seq_lengths b)" by simp
  note ch = chop_concat [OF sum]
  have tok: "map v_tokens (seq_views b) = chop (seq_lengths b) (input_token_ids b)"
    using len by (intro nth_equalityI) (simp_all add: seq_views_def)
  then have "map (length \<circ> v_tokens) (seq_views b) = seq_lengths b" using ch by (metis map_map)
  moreover have "map v_id (seq_views b) = seq_ids b" "map v_context (seq_views b) = context_lengths b"
      "map v_prefill (seq_views b) = is_prefill b" "map v_blocks (seq_views b) = block_tables b"
      "map v_params (seq_views b) = batch_params b"
    using len by (auto simp: seq_views_def intro!: nth_equalityI)
  ultimately show "batch_of (seq_views b) = b"
    using o tok ch by (simp add: batch_of_def)
qed

section \<open>Splitting and recombining a batch of views\<close>

lemma slice_concat:
  "i < length xss \<Longrightarrow>
   slice (sum_list (take i (map length xss))) (sum_list (take (Suc i) (map length xss))) (concat xss) = xss ! i"
proof (induction xss arbitrary: i)
  case (Cons xs xss)
  show ?case
  proof (cases i)
    case (Suc k)
    with Cons show ?thesis by (simp add: slice_def)
  qed (simp add: slice_def)
qed simp

lemma slice_batch_of:
  assumes "idxs \<noteq> []" and "\<And>i. i \<in> set idxs \<Longrightarrow> i < length vs"
  shows "slice_batch (batch_of vs) idxs = Inr (batch_of (map ((!) vs) idxs))"
proof -
  let ?ns = "map (length \<circ> v_tokens) vs"
  have tok: "slice (token_offsets (batch_of vs) ! i) (token_offsets (batch_of vs) ! (i + 1))
      (input_token_ids (batch_of vs)) = v_tokens (vs ! i)" if "i < length vs" for i
    using that slice_concat [of i "map v_tokens vs"] by (simp add: batch_of_def offsets_from_nth comp_def)
  then have m: "map (\<lambda>i. slice (token_offsets (batch_of vs) ! i) (token_offsets (batch_of vs) ! (i + 1))
      (input_token_ids (batch_of vs))) idxs = map v_tokens (map ((!) vs) idxs)"
    using assms(2) by simp
  have n: "map ((!) (map f vs)) idxs = map f (map ((!) vs) idxs)" for f :: "seq_view \<Rightarrow> 'x"
    using assms(2) by simp
  have "slice_batch (batch_of vs) idxs = check_batch (batch_of (map ((!) vs) idxs))"
    unfolding slice_batch_def Let_def m using assms(1)
    by (simp add: batch_of_def n [unfolded map_map] comp_def)
  then show ?thesis by (simp add: check_batch_of)
qed

lemma nth_indices_where:
  "map ((!) vs) (indices_where p (map v_prefill vs)) = filter (\<lambda>v. p (v_prefill v)) vs"
proof -
  have "map ((!) vs) (filter (\<lambda>i. p (map v_prefill vs ! i)) [0..<length vs]) =
      map ((!) vs) (filter ((\<lambda>v. p (v_prefill v)) \<circ> (!) vs) [0..<length vs])"
    by (intro arg_cong [where f = "map ((!) vs)"] filter_cong) auto
  also have "\<dots> = filter (\<lambda>v. p (v_prefill v)) (map ((!) vs) [0..<length vs])" by (simp add: filter_map)
  finally show ?thesis by (simp add: indices_where_def map_nth)
qed

definition some_batch :: "seq_view list \<Rightarrow> batch_metadata option" where
  "some_batch vs = (if vs = [] then None else Some (batch_of vs))"

lemma slice_if_any_of:
  "slice_if_any (batch_of vs) (indices_where p (map v_prefill vs)) =
   Inr (some_batch (filter (\<lambda>v. p (v_prefill v)) vs))"
proof (cases "indices_where p (map v_prefill vs) = []")
  case True
  then have "filter (\<lambda>v. p (v_prefill v)) vs = []" using nth_indices_where [of vs p] by simp
  with True show ?thesis by (simp add: slice_if_any_def some_batch_def)
next
  case False
  have "slice_batch (batch_of vs) (indices_where p (map v_prefill vs)) =
      Inr (batch_of (filter (\<lambda>v. p (v_prefill v)) vs))"
    using slice_batch_of [OF False, of vs] by (simp add: nth_indices_where) (simp add: indices_where_def)
  moreover have "filter (\<lambda>v. p (v_prefill v)) vs \<noteq> []"
    using False by (metis nth_indices_where map_is_Nil_conv)
  ultimately show ?thesis using False by (simp add: slice_if_any_def some_batch_def)
qed

lemma split_of_views:
  "split_prefill_decode_batch (batch_of vs) =
   Inr \<lparr>original_batch = batch_of vs, prefill_batch = some_batch (filter v_prefill vs),
        decode_batch = some_batch (filter (\<lambda>v. \<not> v_prefill v) vs),
        prefill_indices = indices_where (\<lambda>x. x) (map v_prefill vs),
        decode_indices = indices_where Not (map v_prefill vs)\<rparr>"
proof -
  have "is_prefill (batch_of vs) = map v_prefill vs" by (simp add: batch_of_def)
  then show ?thesis using slice_if_any_of [of vs "\<lambda>x. x"] slice_if_any_of [of vs Not]
    by (simp add: split_prefill_decode_batch_def Let_def)
qed

text \<open>
  A model that treats the sequences of a batch independently: \<open>g\<close> gives one row
  for each token of a sequence.
\<close>

definition seqwise :: "(seq_view \<Rightarrow> 'r list) \<Rightarrow> batch_metadata \<Rightarrow> 'r list" where
  "seqwise g b = concat (map g (seq_views b))"

lemma views_of_batch: "seq_views (batch_of vs) = vs"
proof -
  have "chop (map (length \<circ> v_tokens) vs) (concat (map v_tokens vs)) = map v_tokens vs"
    by (induction vs) auto
  then show ?thesis
    by (intro nth_equalityI) (simp_all add: seq_views_def batch_of_def)
qed

lemma seqwise_of [simp]: "seqwise g (batch_of vs) = concat (map g vs)"
  by (simp add: seqwise_def views_of_batch)


definition num_tokens :: "seq_view list \<Rightarrow> nat" where
  "num_tokens vs = sum_list (map (length \<circ> v_tokens) vs)"

lemma num_tokens_simps [simp]:
  "num_tokens [] = 0" "num_tokens (v # vs) = length (v_tokens v) + num_tokens vs"
  "num_tokens (us @ vs) = num_tokens us + num_tokens vs"
  by (simp_all add: num_tokens_def)

lemma total_tokens_of [simp]: "total_tokens (batch_of vs) = num_tokens vs"
  by (simp add: total_tokens_def batch_of_def length_concat num_tokens_def comp_def)

lemma offsets_of_views:
  "k = length us \<Longrightarrow> token_offsets (batch_of (us @ vs)) ! k = num_tokens us"
  by (simp add: batch_of_def offsets_from_nth num_tokens_def)

lemma slice_middle: "n = length ys \<Longrightarrow> i = length xs \<Longrightarrow> slice i (i + n) (xs @ ys @ zs) = ys"
  by (simp add: slice_def)

lemma assign_rows_middle:
  "length rows = length ys \<Longrightarrow> i = length xs \<Longrightarrow> j = length xs + length ys \<Longrightarrow>
   assign_rows i j rows (xs @ ys @ zs) = Inr (xs @ rows @ zs)"
  by (simp add: assign_rows_def slice_def)

definition some_rows :: "(seq_view \<Rightarrow> 'r list) \<Rightarrow> seq_view list \<Rightarrow> 'r list option" where
  "some_rows g vs = (if vs = [] then None else Some (concat (map g vs)))"

lemma recombine_loop_views:
  assumes len: "\<And>v. length (g v) = length (v_tokens v)"
    and "vs = us @ ws" and "b = batch_of vs"
    and "pc = num_tokens (filter v_prefill us)" and "dc = num_tokens (filter (\<lambda>v. \<not> v_prefill v) us)"
    and "pre = some_rows g (filter v_prefill vs)" and "dec = some_rows g (filter (\<lambda>v. \<not> v_prefill v) vs)"
  shows "recombine_loop b pre dec [length us..<length vs] pc dc
      (concat (map g us) @ replicate (num_tokens ws) junk) = Inr (concat (map g vs))"
  using assms(2-)
proof (induction ws arbitrary: us pc dc)
  case Nil
  then show ?case by simp
next
  case (Cons v ws)
  let ?i = "length us" and ?n = "length (v_tokens v)" and ?res = "concat (map g us) @ replicate (num_tokens (v # ws)) junk"
  have gl: "length (concat (map g xs)) = num_tokens xs" for xs
    by (induction xs) (simp_all add: len)
  have idx: "[?i..<length vs] = ?i # [Suc ?i..<length vs]" using Cons.prems(1) by (intro upt_conv_Cons) simp
  have st: "token_offsets b ! ?i = num_tokens us" "token_offsets b ! Suc ?i = num_tokens us + ?n"
    using offsets_of_views [OF refl, of us "v # ws"] offsets_of_views [of "Suc ?i" "us @ [v]" ws] Cons.prems(1,2)
    by simp_all
  have pv: "is_prefill b ! ?i = v_prefill v" using Cons.prems(1,2) by (simp add: batch_of_def nth_append)
  have vs: "vs = (us @ [v]) @ ws" using Cons.prems(1) by simp
  have rep: "?res = concat (map g us) @ replicate ?n junk @ replicate (num_tokens ws) junk"
    by (simp add: replicate_add)
  have asg: "assign_rows (num_tokens us) (num_tokens us + ?n) (g v) ?res =
      Inr (concat (map g (us @ [v])) @ replicate (num_tokens ws) junk)"
    unfolding rep by (subst assign_rows_middle) (simp_all add: len gl)
  note IH = Cons.IH [OF vs Cons.prems(2) _ _ Cons.prems(5,6)]
  show ?case
  proof (cases "?n = 0")
    case True
    with len [of v] have "g v = []" by simp
    with True IH [of pc dc] Cons.prems(3,4) st pv show ?thesis by (simp add: idx)
  next
    case n: False
    show ?thesis
    proof (cases "v_prefill v")
      case True
      have pre: "pre = Some (concat (map g (filter v_prefill us)) @ g v @ concat (map g (filter v_prefill ws)))"
        using Cons.prems(1,5) True by (simp add: some_rows_def)
      have "slice pc (pc + ?n) (concat (map g (filter v_prefill us)) @ g v @ concat (map g (filter v_prefill ws))) = g v"
        by (rule slice_middle) (simp_all add: len gl Cons.prems(3))
      with n True pre st pv asg IH [of "pc + ?n" dc] Cons.prems(3,4) show ?thesis by (simp add: idx)
    next
      case False
      let ?d = "filter (\<lambda>v. \<not> v_prefill v)"
      have dec: "dec = Some (concat (map g (?d us)) @ g v @ concat (map g (?d ws)))"
        using Cons.prems(1,6) False by (simp add: some_rows_def)
      have "slice dc (dc + ?n) (concat (map g (?d us)) @ g v @ concat (map g (?d ws))) = g v"
        by (rule slice_middle) (simp_all add: len gl Cons.prems(4))
      with n False dec st pv asg IH [of pc "dc + ?n"] Cons.prems(3,4) show ?thesis by (simp add: idx)
    qed
  qed
qed

lemma check_rows_some:
  assumes "\<And>v. length (g v) = length (v_tokens v)"
  shows "check_rows (some_batch vs) (some_rows g vs)"
proof -
  have "length (concat (map g xs)) = num_tokens xs" for xs by (induction xs) (simp_all add: assms)
  then show ?thesis by (simp add: check_rows_def some_batch_def some_rows_def)
qed

lemma recombine_views:
  assumes "\<And>v. length (g v) = length (v_tokens v)"
    and "split_prefill_decode_batch (batch_of vs) = Inr sp"
  shows "recombine_outputs junk sp (map_option (seqwise g) (prefill_batch sp))
      (map_option (seqwise g) (decode_batch sp)) = Inr (concat (map g vs))"
proof -
  have sb: "map_option (seqwise g) (some_batch xs) = some_rows g xs" for xs
    by (simp add: some_batch_def some_rows_def)
  note sp = assms(2) [unfolded split_of_views, THEN sum.inject(2) [THEN iffD1], symmetric]
  note chk = check_rows_some [of g, OF assms(1)]
  have "recombine_loop (batch_of vs) (some_rows g (filter v_prefill vs))
      (some_rows g (filter (\<lambda>v. \<not> v_prefill v) vs)) [0..<length vs] 0 0 (replicate (num_tokens vs) junk) =
      Inr (concat (map g vs))"
    using recombine_loop_views [where us = "[]" and ws = vs and vs = vs and junk = junk, OF assms(1)] by simp
  moreover have "vs = []" if "some_rows g (filter v_prefill vs) = None"
      "some_rows g (filter (\<lambda>v. \<not> v_prefill v) vs) = None"
    using that by (induction vs) (auto simp: some_rows_def split: if_splits)
  moreover have "length (seq_ids (batch_of vs)) = length vs" by (simp add: batch_of_def)
  ultimately show ?thesis
    unfolding recombine_outputs_def sp by (auto simp: sb chk)
qed

section \<open>Properties\<close>

text \<open>
  C25: A mixed batch that passes validation can always be split, and running the
  two halves separately and recombining their rows gives exactly what running the
  whole batch gives, for any model that computes a row per token and treats the
  sequences of a batch independently: no row is lost, moved or left uninitialised.
\<close>

theorem split_execution_equiv:
  assumes "check_batch b = Inr b" and "\<And>v. length (g v) = length (v_tokens v)"
  shows "\<exists>sp. split_prefill_decode_batch b = Inr sp \<and>
    recombine_outputs junk sp (map_option (seqwise g) (prefill_batch sp))
      (map_option (seqwise g) (decode_batch sp)) = Inr (seqwise g b)"
proof -
  note b = batch_of_views(1) [OF assms(1)]
  obtain sp where sp: "split_prefill_decode_batch (batch_of (seq_views b)) = Inr sp"
    by (simp add: split_of_views)
  from recombine_views [OF assms(2) sp, of junk] sp b show ?thesis by (auto simp: seqwise_def)
qed

theorem split_execution_equiv_witness:
  "let b = \<lparr>seq_ids = [4, 5, 6], input_token_ids = [7, 8, 9, 1, 2], seq_lengths = [2, 1, 2],
            context_lengths = [0, 3, 0], is_prefill = [True, False, True], block_tables = [[0], [1], [2]],
            token_offsets = [0, 2, 3, 5], batch_params = replicate 3 default_sampling_params\<rparr>
   in check_batch b = Inr b \<and>
      (\<exists>sp. split_prefill_decode_batch b = Inr sp \<and>
        recombine_outputs 0 sp (map_option (seqwise (map ((+) 100) \<circ> v_tokens)) (prefill_batch sp))
          (map_option (seqwise (map ((+) 100) \<circ> v_tokens)) (decode_batch sp)) = Inr [107, 108, 109, 101, 102])"
proof -
  define b where "b = \<lparr>seq_ids = [4, 5, 6], input_token_ids = [7, 8, 9, 1, 2], seq_lengths = [2, 1, 2],
    context_lengths = [0, 3, 0], is_prefill = [True, False, True], block_tables = [[0], [1], [2 :: int]],
    token_offsets = [0, 2, 3, 5], batch_params = replicate 3 default_sampling_params\<rparr>"
  have b: "check_batch b = Inr b" by (simp add: b_def check_batch_def)
  moreover have "seqwise (map ((+) 100) \<circ> v_tokens) b = [107, 108, 109, 101, 102]"
    by (simp add: b_def seqwise_def seq_views_def upt_rec)
  ultimately show ?thesis
    using split_execution_equiv [OF b, of "map ((+) 100) \<circ> v_tokens" 0]
    unfolding b_def [symmetric] Let_def by simp
qed

end
