(* ===== verification/Serving_Scheduler.thy ===== *)
theory Serving_Scheduler
  imports Serving_Batch
begin

text \<open>
  \<^verbatim>\<open>src/moe_infinity/serving/scheduler.py\<close>: continuous batching over the paged KV
  cache. The three queues hold groups; \<open>sv_heap\<close> holds the sequence objects the
  groups refer to, so a change of status made through one table is seen through
  every other. The ContextPilot manager, another component behind a protocol
  class, is the function \<open>predict_prefix_reuse\<close> it offers, if one was set.
\<close>

section \<open>State\<close>

record 'd serving_scheduler =
  sv_kv :: "'d paged_kv"
  sv_max_batch_size :: int
  sv_max_tokens_per_step :: int
  sv_waiting :: "sequence_group list"
  sv_running :: "sequence_group list"
  sv_swapped :: "sequence_group list"
  sv_sequence_map :: "int set"
  sv_request_map :: "(string, sequence_group) odict"
  sv_heap :: seq_heap

type_synonym cp_manager = "string \<Rightarrow> int list \<Rightarrow> real"

definition sv_init :: "seq_heap \<Rightarrow> 'd paged_kv \<Rightarrow> int \<Rightarrow> int \<Rightarrow> 'd serving_scheduler result" where
  "sv_init h kv max_batch max_tokens_step =
     (if max_batch \<le> 0 then Inl ValueError
      else if max_tokens_step \<le> 0 then Inl ValueError
      else Inr \<lparr>sv_kv = kv, sv_max_batch_size = max_batch, sv_max_tokens_per_step = max_tokens_step,
               sv_waiting = [], sv_running = [], sv_swapped = [], sv_sequence_map = {},
               sv_request_map = [], sv_heap = h\<rparr>)"

definition sv_status :: "'d serving_scheduler \<Rightarrow> int \<Rightarrow> sequence_status" where
  "sv_status s sid = seq_status (sv_heap s sid)"

text \<open>\<^verbatim>\<open>sequence.set_status(new)\<close> through a reference to the object.\<close>

definition sv_set_status ::
  "sequence_status \<Rightarrow> int \<Rightarrow> 'd serving_scheduler \<Rightarrow> ('d serving_scheduler, unit) outcome" where
  "sv_set_status new sid s =
     (case set_status new (sv_heap s sid) of
        (r, q) \<Rightarrow> (r, s\<lparr>sv_heap := (sv_heap s)(sid := q)\<rparr>))"

definition with_kv ::
  "('d paged_kv \<Rightarrow> ('d paged_kv, 'a) outcome) \<Rightarrow> 'd serving_scheduler \<Rightarrow> ('d serving_scheduler, 'a) outcome" where
  "with_kv f s = (case f (sv_kv s) of (r, kv) \<Rightarrow> (r, s\<lparr>sv_kv := kv\<rparr>))"

text \<open>\<^verbatim>\<open>try: ... except KeyError: pass\<close>\<close>

definition ignore_KeyError :: "('s, unit) outcome \<Rightarrow> ('s, unit) outcome" where
  "ignore_KeyError r = (case r of (Inl e, s) \<Rightarrow> (if e = KeyError then Inr () else Inl e, s) | (Inr u, s) \<Rightarrow> (Inr u, s))"

definition sv_free :: "'d serving_scheduler \<Rightarrow> int" where
  "sv_free s = ba_num_free (pk_alloc (sv_kv s))"

definition sv_block_size :: "'d serving_scheduler \<Rightarrow> int" where
  "sv_block_size s = ba_block_size (pk_alloc (sv_kv s))"

section \<open>Adding requests\<close>

definition register_sequence ::
  "sequence_data \<Rightarrow> 'd serving_scheduler \<Rightarrow> ('d serving_scheduler, unit) outcome" where
  "register_sequence q s =
     (if seq_id q \<in> sv_sequence_map s then (Inl ValueError, s)
      else case (if seq_status q \<noteq> WAITING then set_status WAITING q else (Inr (), q)) of
             (Inl e, _) \<Rightarrow> (Inl e, s)
           | (Inr _, q1) \<Rightarrow>
               (Inr (), s\<lparr>sv_heap := (sv_heap s)(seq_id q := q1),
                          sv_sequence_map := insert (seq_id q) (sv_sequence_map s)\<rparr>))"

definition sv_add_request ::
  "string \<Rightarrow> sequence_data list \<Rightarrow> 'd serving_scheduler \<Rightarrow> ('d serving_scheduler, unit) outcome" where
  "sv_add_request rid seqs s =
     (if od_mem rid (sv_request_map s) then (Inl ValueError, s)
      else andthen (for_each register_sequence seqs s) (\<lambda>_ s1.
             let g = \<lparr>request_id = rid, sequence_ids = map seq_id seqs\<rparr>
             in (Inr (), s1\<lparr>sv_request_map := AList.update rid g (sv_request_map s1),
                            sv_waiting := sv_waiting s1 @ [g]\<rparr>)))"

section \<open>Preemption and recovery\<close>

fun preempt_sequences ::
  "int list \<Rightarrow> int list \<Rightarrow> 'd serving_scheduler \<Rightarrow> ('d serving_scheduler, int list) outcome" where
  "preempt_sequences [] acc s = (Inr acc, s)"
| "preempt_sequences (sid # sids) acc s =
     (if sv_status s sid \<notin> {PREFILL, DECODE} then preempt_sequences sids acc s
      else andthen (ignore_KeyError (with_kv (pk_swap_out sid) s)) (\<lambda>_ s1.
           andthen (with_kv (pk_free_gpu_blocks sid) s1) (\<lambda>_ s2.
           andthen (sv_set_status SWAPPED sid s2) (\<lambda>_ s3.
           preempt_sequences sids (acc @ [sid]) s3))))"

fun preempt_loop ::
  "sequence_group list \<Rightarrow> 'd serving_scheduler \<Rightarrow> ('d serving_scheduler, int list) outcome" where
  "preempt_loop [] s = (Inr [], s)"
| "preempt_loop (g # gs) s =
     andthen (preempt_sequences (sequence_ids g) [] (s\<lparr>sv_running := gs\<rparr>)) (\<lambda>ids s1.
       if ids \<noteq> [] then (Inr ids, s1\<lparr>sv_swapped := sv_swapped s1 @ [g]\<rparr>)
       else preempt_loop gs s1)"

definition preempt_oldest_running_group ::
  "'d serving_scheduler \<Rightarrow> ('d serving_scheduler, int list) outcome" where
  "preempt_oldest_running_group s = preempt_loop (sv_running s) s"

text \<open>The loop over \<^verbatim>\<open>swap_in\<close> that stops at the first exception and swallows it.\<close>

fun sv_swap_in_all :: "int list \<Rightarrow> 'd serving_scheduler \<Rightarrow> bool \<times> 'd serving_scheduler" where
  "sv_swap_in_all [] s = (True, s)"
| "sv_swap_in_all (sid # sids) s =
     (case with_kv (pk_swap_in sid) s of
        (Inl _, s1) \<Rightarrow> (False, s1)
      | (Inr _, s1) \<Rightarrow> sv_swap_in_all sids s1)"

definition seqs_in :: "sequence_status \<Rightarrow> sequence_group \<Rightarrow> 'd serving_scheduler \<Rightarrow> int list" where
  "seqs_in st g s = filter (\<lambda>sid. sv_status s sid = st) (sequence_ids g)"

definition recover_group ::
  "sequence_group \<Rightarrow> 'd serving_scheduler \<Rightarrow> ('d serving_scheduler, unit) outcome" where
  "recover_group g s =
     (if g \<notin> set (sv_swapped s) then (Inr (), s)
      else
        (let ss = seqs_in SWAPPED g s
         in if ss = [] then (Inr (), s\<lparr>sv_swapped := remove1 g (sv_swapped s)\<rparr>)
            else case sv_swap_in_all ss s of
                   (False, s1) \<Rightarrow> (Inr (), s1)
                 | (True, s1) \<Rightarrow>
                     andthen (for_each (sv_set_status DECODE) ss s1) (\<lambda>_ s2.
                       (Inr (), s2\<lparr>sv_swapped := remove1 g (sv_swapped s2), sv_running := g # sv_running s2\<rparr>))))"

definition recover_swapped_groups ::
  "sequence_group list \<Rightarrow> 'd serving_scheduler \<Rightarrow> ('d serving_scheduler, unit) outcome" where
  "recover_swapped_groups gs s = (if sv_free s \<le> 0 then (Inr (), s) else for_each recover_group gs s)"

section \<open>Scheduling\<close>

definition required_blocks :: "'d serving_scheduler \<Rightarrow> int \<Rightarrow> int" where
  "required_blocks s sid =
     (if prompt_length (sv_heap s sid) = 0 then 0
      else ceil_div (prompt_length (sv_heap s sid)) (sv_block_size s))"

definition seq_prefill_tokens :: "'d serving_scheduler \<Rightarrow> int \<Rightarrow> int" where
  "seq_prefill_tokens s sid = max 0 (prompt_length (sv_heap s sid) - num_computed_tokens (sv_heap s sid))"

definition group_token_ids :: "sequence_group \<Rightarrow> 'd serving_scheduler \<Rightarrow> int list" where
  "group_token_ids g s = concat (map (\<lambda>sid. prompt_token_ids (sv_heap s sid)) (sequence_ids g))"

definition start_prefill ::
  "int \<Rightarrow> 'd serving_scheduler \<Rightarrow> ('d serving_scheduler, unit) outcome" where
  "start_prefill sid s =
     andthen (with_kv (pk_allocate_sequence sid (prompt_length (sv_heap s sid))) s) (\<lambda>_ s1.
       sv_set_status PREFILL sid s1)"

text \<open>
  Whether the head group is blocked, after at most one preemption to make room
  for it, with the output extended by the preempted sequences.
\<close>

definition sv_make_room ::
  "int \<Rightarrow> scheduler_output \<Rightarrow> 'd serving_scheduler \<Rightarrow> ('d serving_scheduler, scheduler_output \<times> bool) outcome" where
  "sv_make_room required out s =
     (if sv_free s < required
      then andthen (preempt_oldest_running_group s) (\<lambda>pids s1.
             if pids = [] then (Inr (out, True), s1)
             else (Inr (out\<lparr>preempted_seq_ids := preempted_seq_ids out @ pids\<rparr>, sv_free s1 < required), s1))
      else (Inr (out, False), s))"

fun waiting_loop ::
  "sequence_group list \<Rightarrow> int \<Rightarrow> int \<Rightarrow> scheduler_output \<Rightarrow> 'd serving_scheduler \<Rightarrow>
   ('d serving_scheduler, int \<times> int \<times> scheduler_output) outcome" where
  "waiting_loop [] n t out s = (Inr (n, t, out), s)"
| "waiting_loop (g # gs) n t out s =
     (let next = seqs_in WAITING g s;
          prefill = sum_list (map (seq_prefill_tokens s) next);
          required = sum_list (map (required_blocks s) next)
      in if next = [] then waiting_loop gs n t out (s\<lparr>sv_waiting := gs\<rparr>)
         else if n + int (length next) > sv_max_batch_size s then (Inr (n, t, out), s)
         else if t + prefill > sv_max_tokens_per_step s then (Inr (n, t, out), s)
         else andthen (sv_make_room required out s) (\<lambda>(out1, blocked) s1.
           if blocked then (Inr (n, t, out1), s1)
           else andthen (for_each start_prefill next
                  (s1\<lparr>sv_waiting := gs, sv_running := sv_running s1 @ [g]\<rparr>)) (\<lambda>_ s2.
             waiting_loop gs (n + int (length next)) (t + prefill)
               (out1\<lparr>prefill_seq_ids := prefill_seq_ids out1 @ next,
                     num_prefill_tokens := num_prefill_tokens out1 + prefill\<rparr>) s2)))"

fun decode_loop ::
  "int list \<Rightarrow> 'd serving_scheduler \<Rightarrow> int \<Rightarrow> int \<Rightarrow> scheduler_output \<Rightarrow> scheduler_output" where
  "decode_loop [] s n t out = out"
| "decode_loop (sid # sids) s n t out =
     (if sv_status s sid \<noteq> DECODE then decode_loop sids s n t out
      else if n \<ge> sv_max_batch_size s then out
      else if t \<ge> sv_max_tokens_per_step s then out
      else decode_loop sids s (n + 1) (t + 1)
             (out\<lparr>decode_seq_ids := decode_seq_ids out @ [sid], num_decode_tokens := num_decode_tokens out + 1\<rparr>))"

text \<open>
  \<^verbatim>\<open>sort(key=..., reverse=True)\<close> keeps the order of groups with equal scores. The scores
  of \<^verbatim>\<open>predict_prefix_reuse\<close> are a parameter that always answers; the code does not
  catch an exception of it, so one would leave \<^verbatim>\<open>schedule\<close> after the recovery of
  swapped groups, which the model does not show.
\<close>

definition sv_reorder_waiting :: "cp_manager option \<Rightarrow> 'd serving_scheduler \<Rightarrow> 'd serving_scheduler" where
  "sv_reorder_waiting cp s =
     (case cp of
        Some predict \<Rightarrow>
          if length (sv_waiting s) > 1
          then s\<lparr>sv_waiting := sort_key (\<lambda>g. - predict (request_id g) (group_token_ids g s)) (sv_waiting s)\<rparr>
          else s
      | None \<Rightarrow> s)"

definition sv_schedule ::
  "cp_manager option \<Rightarrow> 'd serving_scheduler \<Rightarrow> ('d serving_scheduler, scheduler_output) outcome" where
  "sv_schedule cp s =
     andthen (recover_swapped_groups (sv_swapped s) s) (\<lambda>_ s1.
       let s2 = sv_reorder_waiting cp s1
       in andthen (waiting_loop (sv_waiting s2) 0 0 empty_output s2) (\<lambda>(n, t, out) s3.
            (Inr (decode_loop (concat (map sequence_ids (sv_running s3))) s3 n t out), s3)))"

section \<open>After a step\<close>

definition drop_request_metadata :: "sequence_group \<Rightarrow> 'd serving_scheduler \<Rightarrow> 'd serving_scheduler" where
  "drop_request_metadata g s =
     s\<lparr>sv_request_map := AList.delete (request_id g) (sv_request_map s),
       sv_sequence_map := sv_sequence_map s - set (sequence_ids g)\<rparr>"

definition has_active :: "'d serving_scheduler \<Rightarrow> sequence_group \<Rightarrow> bool" where
  "has_active s g \<longleftrightarrow> (\<exists>sid \<in> set (sequence_ids g). sv_status s sid \<notin> {FINISHED, CANCELLED})"

definition prune_requests :: "'d serving_scheduler \<Rightarrow> 'd serving_scheduler" where
  "prune_requests s =
     (let gs = map snd (sv_request_map s);
          active_requests = map (\<lambda>g. (request_id g, g)) (filter (has_active s) gs);
          s1 = fold drop_request_metadata (filter (\<lambda>g. \<not> has_active s g) gs) s;
          keep = filter (\<lambda>g. od_mem (request_id g) active_requests)
      in s1\<lparr>sv_request_map := active_requests, sv_waiting := keep (sv_waiting s1),
            sv_running := keep (sv_running s1), sv_swapped := keep (sv_swapped s1)\<rparr>)"

text \<open>\<^verbatim>\<open>dict.fromkeys(xs)\<close>: the elements in the order of their first occurrence.\<close>

definition first_occurrences :: "'a list \<Rightarrow> 'a list" where
  "first_occurrences xs = rev (remdups (rev xs))"

definition advance_sequence ::
  "int list \<Rightarrow> int \<Rightarrow> 'd serving_scheduler \<Rightarrow> ('d serving_scheduler, unit) outcome" where
  "advance_sequence completed sid s =
     (if sid \<notin> sv_sequence_map s \<or> sid \<in> set completed then (Inr (), s)
      else andthen (if sv_status s sid = PREFILL then sv_set_status DECODE sid s else (Inr (), s)) (\<lambda>_ s1.
        if sv_status s1 sid = DECODE then ignore_KeyError (with_kv (pk_append_tokens sid 1) s1)
        else (Inr (), s1)))"

definition complete_sequence ::
  "int \<Rightarrow> 'd serving_scheduler \<Rightarrow> ('d serving_scheduler, unit) outcome" where
  "complete_sequence sid s =
     (if sid \<notin> sv_sequence_map s then (Inr (), s)
      else andthen (if sv_status s sid \<in> {WAITING, PREFILL, DECODE, SWAPPED}
                    then sv_set_status FINISHED sid s else (Inr (), s)) (\<lambda>_ s1.
        with_kv (pk_free_sequence sid) s1))"

text \<open>
  The set of completed ids is iterated in an unspecified order, here that of
  their first occurrence: completing different sequences commutes.
\<close>

definition update_after_step ::
  "int list \<Rightarrow> int list \<Rightarrow> 'd serving_scheduler \<Rightarrow> ('d serving_scheduler, unit) outcome" where
  "update_after_step completed new_decode s =
     andthen (for_each (advance_sequence completed) (first_occurrences new_decode) s) (\<lambda>_ s1.
     andthen (for_each complete_sequence (first_occurrences completed) s1) (\<lambda>_ s2.
       (Inr (), prune_requests s2)))"

definition cancel_sequence ::
  "int \<Rightarrow> 'd serving_scheduler \<Rightarrow> ('d serving_scheduler, unit) outcome" where
  "cancel_sequence sid s =
     andthen (if sv_status s sid \<notin> {FINISHED, CANCELLED} then sv_set_status CANCELLED sid s else (Inr (), s)) (\<lambda>_ s1.
       with_kv (pk_free_sequence sid) s1)"

definition sv_abort_request :: "string \<Rightarrow> 'd serving_scheduler \<Rightarrow> ('d serving_scheduler, unit) outcome" where
  "sv_abort_request rid s =
     (case map_of (sv_request_map s) rid of
        None \<Rightarrow> (Inr (), s)
      | Some g \<Rightarrow>
          andthen (for_each cancel_sequence (sequence_ids g) s) (\<lambda>_ s1.
            let keep = filter (\<lambda>q. request_id q \<noteq> rid);
                s2 = s1\<lparr>sv_waiting := keep (sv_waiting s1), sv_running := keep (sv_running s1),
                        sv_swapped := keep (sv_swapped s1)\<rparr>
            in (Inr (), prune_requests (drop_request_metadata g s2))))"

definition has_work :: "'d serving_scheduler \<Rightarrow> bool" where
  "has_work s \<longleftrightarrow> sv_waiting s \<noteq> [] \<or> sv_running s \<noteq> []"

definition num_waiting :: "'d serving_scheduler \<Rightarrow> int" where
  "num_waiting s = int (length (sv_waiting s))"

definition get_running_seq_ids :: "'d serving_scheduler \<Rightarrow> int list" where
  "get_running_seq_ids s =
     filter (\<lambda>sid. sv_status s sid \<in> {PREFILL, DECODE}) (concat (map sequence_ids (sv_running s)))"


section \<open>The cache under the scheduler\<close>

text \<open>The size of a block never changes, and the sequences known to the cache change as expected.\<close>

lemma pop_blocks_size: "ba_block_size (snd (pop_blocks k acc a)) = ba_block_size a"
  by (induction k acc a rule: pop_blocks.induct) (auto simp: Let_def split: list.splits)

lemma ba_allocate_size: "ba_block_size (snd (ba_allocate k a)) = ba_block_size a"
  by (simp add: ba_allocate_def pop_blocks_size)

lemma ba_free_blocks_size: "ba_block_size (snd (ba_free_blocks bs a)) = ba_block_size a"
  unfolding ba_free_blocks_def by (rule for_each_frame) (simp add: free_one_def)

lemma append_token_size: "ba_block_size (fst (snd (append_token x))) = ba_block_size (fst x)"
proof (cases x)
  case (Pair a t)
  with ba_allocate_size [of 1 a] show ?thesis
    by (auto simp: append_token_def split: prod.splits sum.splits)
qed

lemma append_loop_size: "ba_block_size (fst (snd (append_loop n x))) = ba_block_size (fst x)"
proof (induction n arbitrary: x)
  case (Suc n)
  with append_token_size [of x] show ?case by (auto simp: andthen_def split: prod.splits sum.splits)
qed simp

abbreviation kv_size :: "'d paged_kv \<Rightarrow> int" where
  "kv_size c \<equiv> ba_block_size (pk_alloc c)"

abbreviation kv_keys :: "'d paged_kv \<Rightarrow> int set" where
  "kv_keys c \<equiv> fst ` set (pk_tables c)"

lemma pk_swap_out_frame:
  "pk_swap_out i c = (r, c') \<Longrightarrow> kv_size c' = kv_size c \<and> kv_keys c' = kv_keys c \<and> (r = Inr () \<or> r = Inl KeyError)"
  by (auto simp: pk_swap_out_def Let_def split: option.splits if_splits)

lemma keys_update_known: "map_of d k = Some v \<Longrightarrow> fst ` set (AList.update k w d) = fst ` set d"
  by (metis keys_update dom_map_of_conv_image_fst domI insert_absorb)

lemma pk_free_gpu_frame:
  assumes "pk_free_gpu_blocks i c = (r, c')"
  shows "kv_size c' = kv_size c \<and> kv_keys c' = kv_keys c"
proof (cases "map_of (pk_tables c) i")
  case (Some t)
  obtain x a where x: "ba_free_blocks (bt_ids t) (pk_alloc c) = (x, a)" by fastforce
  with ba_free_blocks_size [of "bt_ids t" "pk_alloc c"] have "ba_block_size a = kv_size c" by simp
  then show ?thesis
    using assms Some x keys_update_known [OF Some]
    by (cases x) (simp_all add: pk_free_gpu_blocks_def split: if_splits, (erule conjE)?; hypsubst?; simp)+
qed (use assms in \<open>simp add: pk_free_gpu_blocks_def\<close>)

lemma pk_swap_in_frame:
  assumes "pk_swap_in i c = (r, c')"
  shows "kv_size c' = kv_size c \<and> kv_keys c' = kv_keys c"
proof (cases "map_of (pk_tables c) i")
  case None
  with assms show ?thesis by (simp add: pk_swap_in_def)
next
  case (Some t)
  note ku = keys_update_known [OF Some]
  show ?thesis
  proof (cases "i \<notin> pk_swapped c \<or> pk_buffers c i = None \<or> bt_ids t \<noteq> []")
    case True
    with assms Some show ?thesis by (auto simp: pk_swap_in_def Let_def split: if_splits option.splits)
  next
    case False
    then obtain buf where b: "pk_buffers c i = Some buf" "i \<in> pk_swapped c" "bt_ids t = []" by auto
    obtain x a where x: "ba_allocate (int (length buf)) (pk_alloc c) = (x, a)" by fastforce
    with ba_allocate_size [of "int (length buf)" "pk_alloc c"] have "ba_block_size a = kv_size c" by simp
    moreover have "pk_alloc c' = a" and "pk_tables c' = pk_tables c \<or> (\<exists>u. pk_tables c' = AList.update i u (pk_tables c))"
      using assms Some b x by (cases x; auto simp: pk_swap_in_def Let_def split: if_splits)+
    ultimately show ?thesis using ku by metis
  qed
qed

lemma pk_append_frame:
  assumes "pk_append_tokens i n c = (r, c')"
  shows "kv_size c' = kv_size c \<and> kv_keys c' = kv_keys c"
proof (cases "n < 0 \<or> map_of (pk_tables c) i = None")
  case False
  then obtain t where t: "map_of (pk_tables c) i = Some t" by auto
  obtain x a t' where x: "append_loop (nat n) (pk_alloc c, t) = (x, (a, t'))" by (metis surj_pair)
  with append_loop_size [of "nat n" "(pk_alloc c, t)"] have "ba_block_size a = kv_size c" by simp
  moreover have "c' = c\<lparr>pk_alloc := a, pk_tables := AList.update i t' (pk_tables c)\<rparr>"
    using assms False t x by (simp add: pk_append_tokens_def)
  ultimately show ?thesis using keys_update_known [OF t] by simp
qed (use assms in \<open>auto simp: pk_append_tokens_def split: if_splits\<close>)

lemma pk_free_sequence_size: "kv_size (snd (pk_free_sequence i c)) = kv_size c"
proof (cases "map_of (pk_tables c) i")
  case (Some t)
  obtain x a where x: "ba_free_blocks (bt_ids t) (pk_alloc c) = (x, a)" by fastforce
  with ba_free_blocks_size [of "bt_ids t" "pk_alloc c"] have "ba_block_size a = kv_size c" by simp
  with Some x show ?thesis by (cases x) (simp_all add: pk_free_sequence_def)
qed (simp add: pk_free_sequence_def)

lemma pk_allocate_frame:
  assumes "pk_allocate_sequence i n c = (Inr (), c')"
  shows "kv_size c' = kv_size c \<and> kv_keys c' = insert i (kv_keys c)"
proof -
  let ?t = "\<lparr>bt_ids = [], bt_num_tokens = 0\<rparr>"
  obtain x a t' where x: "append_loop (nat n) (pk_alloc c, ?t) = (x, (a, t'))" by (metis surj_pair)
  with append_loop_size [of "nat n" "(pk_alloc c, ?t)"] have "ba_block_size a = kv_size c" by simp
  moreover have "c' = c\<lparr>pk_alloc := a, pk_tables := AList.update i t' (pk_tables c)\<rparr>"
    using assms x by (cases x) (simp_all add: pk_allocate_sequence_def split: if_splits)
  ultimately show ?thesis by (simp add: keys_update)
qed

section \<open>Marking sequences\<close>

definition mark :: "sequence_status \<Rightarrow> int set \<Rightarrow> seq_heap \<Rightarrow> seq_heap" where
  "mark st X h = (\<lambda>i. if i \<in> X then (h i)\<lparr>seq_status := st\<rparr> else h i)"

lemma mark_empty [simp]: "mark st {} h = h"
  by (simp add: mark_def)

lemma mark_mark: "mark st X (mark st Y h) = mark st (X \<union> Y) h"
  by (auto simp: mark_def)

lemma status_mark [simp]: "seq_status (mark st X h i) = (if i \<in> X then st else seq_status (h i))"
  by (simp add: mark_def)

lemma sv_set_status_ok:
  "st = sv_status s i \<or> st \<in> set (seq_transitions (sv_status s i)) \<Longrightarrow>
   sv_set_status st i s = (Inr (), s\<lparr>sv_heap := mark st {i} (sv_heap s)\<rparr>)"
  by (auto simp: sv_set_status_def sv_status_def set_status_ok mark_def fun_eq_iff
      intro!: arg_cong [where f = "\<lambda>h. s\<lparr>sv_heap := h\<rparr>"])

text \<open>The states a call leaves when it only touches the cache and marks the sequences \<open>X\<close>.\<close>

definition marked ::
  "int multiset \<Rightarrow> sequence_status \<Rightarrow> int set \<Rightarrow> int set \<Rightarrow> 'd serving_scheduler \<Rightarrow> 'd serving_scheduler \<Rightarrow> bool" where
  "marked E st X K s s' \<longleftrightarrow>
     s' = s\<lparr>sv_kv := sv_kv s', sv_heap := mark st X (sv_heap s)\<rparr> \<and> pk_ok E (sv_kv s') \<and>
     kv_size (sv_kv s') = kv_size (sv_kv s) \<and> kv_keys (sv_kv s') = K"

lemma markedD:
  assumes "marked E st X K s s'"
  shows "sv_waiting s' = sv_waiting s" "sv_running s' = sv_running s" "sv_swapped s' = sv_swapped s"
    "sv_sequence_map s' = sv_sequence_map s" "sv_request_map s' = sv_request_map s"
    "sv_heap s' = mark st X (sv_heap s)" "sv_max_batch_size s' = sv_max_batch_size s"
    "sv_max_tokens_per_step s' = sv_max_tokens_per_step s" "pk_ok E (sv_kv s')"
    "sv_block_size s' = sv_block_size s" "kv_keys (sv_kv s') = K"
proof -
  obtain kv where s': "s' = s\<lparr>sv_kv := kv, sv_heap := mark st X (sv_heap s)\<rparr>" and r: "pk_ok E (sv_kv s')"
      "kv_size (sv_kv s') = kv_size (sv_kv s)" "kv_keys (sv_kv s') = K"
    using assms unfolding marked_def by blast
  show "sv_waiting s' = sv_waiting s" "sv_running s' = sv_running s" "sv_swapped s' = sv_swapped s"
    "sv_sequence_map s' = sv_sequence_map s" "sv_request_map s' = sv_request_map s"
    "sv_heap s' = mark st X (sv_heap s)" "sv_max_batch_size s' = sv_max_batch_size s"
    "sv_max_tokens_per_step s' = sv_max_tokens_per_step s"
    by (simp_all add: s')
  from r show "pk_ok E (sv_kv s')" "sv_block_size s' = sv_block_size s" "kv_keys (sv_kv s') = K"
    by (simp_all add: sv_block_size_def)
qed

lemma marked_kv:
  "pk_ok E kv \<Longrightarrow> kv_size kv = kv_size (sv_kv s) \<Longrightarrow> kv_keys kv = K \<Longrightarrow>
   marked E st {} K s (s\<lparr>sv_kv := kv\<rparr>)"
  by (simp add: marked_def)

lemma marked_trans:
  assumes "marked E st X K s s1" and "marked E st Y K' s1 s2"
  shows "marked E st (Y \<union> X) K' s s2"
proof -
  note d1 = markedD [OF assms(1)] and d2 = markedD [OF assms(2)]
  have "s2 = s\<lparr>sv_kv := sv_kv s2, sv_heap := mark st (Y \<union> X) (sv_heap s)\<rparr>"
    by (rule serving_scheduler.equality) (simp_all add: d1 d2 mark_mark)
  with d1 d2 show ?thesis by (simp add: marked_def sv_block_size_def)
qed


section \<open>The invariant\<close>

definition sv_queues :: "'d serving_scheduler \<Rightarrow> sequence_group list" where
  "sv_queues s = sv_waiting s @ sv_running s @ sv_swapped s"

definition sv_keys :: "'d serving_scheduler \<Rightarrow> int set" where
  "sv_keys s = kv_keys (sv_kv s)"

text \<open>
  A group waits while all its sequences wait and have no block table. Once
  admitted, each of its sequences has a table or is finished, and one is not.
\<close>

definition waiting_ok :: "seq_heap \<Rightarrow> int set \<Rightarrow> sequence_group \<Rightarrow> bool" where
  "waiting_ok h K g \<longleftrightarrow>
     sequence_ids g \<noteq> [] \<and> (\<forall>i \<in> set (sequence_ids g). seq_status (h i) = WAITING \<and> i \<notin> K)"

definition placed_ok :: "sequence_status set \<Rightarrow> seq_heap \<Rightarrow> int set \<Rightarrow> sequence_group \<Rightarrow> bool" where
  "placed_ok A h K g \<longleftrightarrow>
     (\<forall>i \<in> set (sequence_ids g). seq_status (h i) \<in> A \<and> i \<in> K \<or> seq_status (h i) = FINISHED \<and> i \<notin> K) \<and>
     (\<exists>i \<in> set (sequence_ids g). seq_status (h i) \<in> A)"

text \<open>The tables agree with each other: every request is in exactly one queue.\<close>

definition sv_tables_ok :: "'d serving_scheduler \<Rightarrow> bool" where
  "sv_tables_ok s \<longleftrightarrow>
     0 < sv_max_batch_size s \<and> 0 < sv_max_tokens_per_step s \<and> od_ok (sv_request_map s) \<and>
     (\<forall>p \<in> set (sv_request_map s). request_id (snd p) = fst p) \<and>
     mset (sv_queues s) = mset (map snd (sv_request_map s)) \<and>
     distinct (concat (map sequence_ids (sv_queues s))) \<and>
     set (concat (map sequence_ids (sv_queues s))) \<subseteq> sv_sequence_map s \<and>
     sv_keys s \<subseteq> set (concat (map sequence_ids (sv_queues s)))"

definition sv_places_ok :: "'d serving_scheduler \<Rightarrow> bool" where
  "sv_places_ok s \<longleftrightarrow>
     (\<forall>g \<in> set (sv_waiting s). waiting_ok (sv_heap s) (sv_keys s) g) \<and>
     (\<forall>g \<in> set (sv_running s). placed_ok {PREFILL, DECODE} (sv_heap s) (sv_keys s) g) \<and>
     (\<forall>g \<in> set (sv_swapped s). placed_ok {SWAPPED} (sv_heap s) (sv_keys s) g)"

definition sv_ok :: "int multiset \<Rightarrow> 'd serving_scheduler \<Rightarrow> bool" where
  "sv_ok E s \<longleftrightarrow> pk_ok E (sv_kv s) \<and> sv_tables_ok s \<and> sv_places_ok s"

lemma waiting_ok_cong:
  "(\<And>i. i \<in> set (sequence_ids g) \<Longrightarrow> seq_status (h' i) = seq_status (h i) \<and> (i \<in> K' \<longleftrightarrow> i \<in> K)) \<Longrightarrow>
   waiting_ok h' K' g = waiting_ok h K g"
  by (auto simp: waiting_ok_def)

lemma placed_ok_cong:
  "(\<And>i. i \<in> set (sequence_ids g) \<Longrightarrow> seq_status (h' i) = seq_status (h i) \<and> (i \<in> K' \<longleftrightarrow> i \<in> K)) \<Longrightarrow>
   placed_ok A h' K' g = placed_ok A h K g"
  by (simp add: placed_ok_def)

text \<open>Groups in different places share no sequence.\<close>

lemma concat_disjoint:
  assumes "distinct (concat (map f xs))" and "x \<in> set xs" and "y \<in> set xs" and "x \<noteq> y"
  shows "set (f x) \<inter> set (f y) = {}"
  using assms by (induction xs) auto

lemma mset_concat_map: "mset xs = mset ys \<Longrightarrow> mset (concat (map f xs)) = mset (concat (map f ys))"
  by (simp flip: sum_mset_sum_list add: mset_concat)

lemma distinct_concat_perm:
  "mset xs = mset ys \<Longrightarrow> distinct (concat (map f xs)) = distinct (concat (map f ys))"
  using mset_concat_map [of xs ys f] mset_eq_imp_distinct_iff by blast

lemma set_concat_perm: "mset xs = mset ys \<Longrightarrow> set (concat (map f xs)) = set (concat (map f ys))"
  using mset_concat_map [of xs ys f] mset_eq_setD by blast

text \<open>What a call on the queues and the cache leaves alone.\<close>

definition sv_frame :: "'d serving_scheduler \<Rightarrow> 'd serving_scheduler \<Rightarrow> bool" where
  "sv_frame s s' \<longleftrightarrow>
     sv_max_batch_size s' = sv_max_batch_size s \<and> sv_max_tokens_per_step s' = sv_max_tokens_per_step s \<and>
     sv_sequence_map s' = sv_sequence_map s \<and> sv_request_map s' = sv_request_map s \<and>
     sv_block_size s' = sv_block_size s \<and>
     (\<forall>i. sv_heap s' i = (sv_heap s i)\<lparr>seq_status := seq_status (sv_heap s' i)\<rparr> \<and>
          active (seq_status (sv_heap s' i)) = active (seq_status (sv_heap s i)))"

lemma sv_frame_refl [simp]: "sv_frame s s"
  by (simp add: sv_frame_def)

lemma sv_frame_trans: "sv_frame s s1 \<Longrightarrow> sv_frame s1 s2 \<Longrightarrow> sv_frame s s2"
proof -
  assume a: "sv_frame s s1" "sv_frame s1 s2"
  have "sv_heap s2 i = (sv_heap s i)\<lparr>seq_status := seq_status (sv_heap s2 i)\<rparr>" for i
  proof -
    have 1: "sv_heap s1 i = (sv_heap s i)\<lparr>seq_status := seq_status (sv_heap s1 i)\<rparr>"
      and 2: "sv_heap s2 i = (sv_heap s1 i)\<lparr>seq_status := seq_status (sv_heap s2 i)\<rparr>"
      using a unfolding sv_frame_def by blast+
    show ?thesis by (subst 2, subst 1) simp
  qed
  with a show ?thesis unfolding sv_frame_def by simp
qed

lemma sv_frame_marked:
  assumes "marked E st X K s s'" and "active st" and "\<And>i. i \<in> X \<Longrightarrow> active (sv_status s i)"
  shows "sv_frame s s'"
  using markedD [OF assms(1)] assms(2,3) by (auto simp: sv_frame_def mark_def sv_status_def)

lemma sv_frame_queues:
  "sv_frame s (s'\<lparr>sv_waiting := w, sv_running := r, sv_swapped := q\<rparr>) = sv_frame s s'"
  by (simp add: sv_frame_def sv_block_size_def)

lemma sv_frame_queue_updates [simp]:
  "sv_frame s (s'\<lparr>sv_waiting := w\<rparr>) = sv_frame s s'"
  "sv_frame s (s'\<lparr>sv_running := r\<rparr>) = sv_frame s s'"
  "sv_frame s (s'\<lparr>sv_swapped := q\<rparr>) = sv_frame s s'"
  "sv_frame (s\<lparr>sv_waiting := w\<rparr>) s' = sv_frame s s'"
  "sv_frame (s\<lparr>sv_running := r\<rparr>) s' = sv_frame s s'"
  "sv_frame (s\<lparr>sv_swapped := q\<rparr>) s' = sv_frame s s'"
  by (simp_all add: sv_frame_def sv_block_size_def)

text \<open>The tables after a call that moved groups between queues and left the rest.\<close>

lemma sv_tables_okI:
  assumes "sv_tables_ok s" and "sv_frame s s'" and "mset (sv_queues s') = mset (sv_queues s)"
    and "sv_keys s' \<subseteq> set (concat (map sequence_ids (sv_queues s)))"
  shows "sv_tables_ok s'"
  using assms distinct_concat_perm [OF assms(3), of sequence_ids] set_concat_perm [OF assms(3), of sequence_ids]
  by (simp add: sv_tables_ok_def sv_frame_def)

lemma sv_keys_queued:
  assumes "sv_tables_ok s" and "i \<in> sv_keys s"
  obtains g where "g \<in> set (sv_queues s)" and "i \<in> set (sequence_ids g)" and "i \<in> sv_sequence_map s"
proof -
  have "i \<in> set (concat (map sequence_ids (sv_queues s)))" and "i \<in> sv_sequence_map s"
    using assms unfolding sv_tables_ok_def by blast+
  with that show thesis by auto
qed

section \<open>Preemption\<close>

lemma preempt_sequences_spec:
  assumes "distinct ids" and "pk_ok E (sv_kv s)"
  shows "\<exists>s'. preempt_sequences ids acc s = (Inr (acc @ filter (\<lambda>i. sv_status s i \<in> {PREFILL, DECODE}) ids), s') \<and>
    marked E SWAPPED {i \<in> set ids. sv_status s i \<in> {PREFILL, DECODE}} (sv_keys s) s s'"
  using assms
proof (induction ids arbitrary: acc s)
  case Nil
  then show ?case by (simp add: marked_def sv_keys_def)
next
  case (Cons i ids)
  show ?case
  proof (cases "sv_status s i \<in> {PREFILL, DECODE}")
    case False
    then have "{j \<in> set (i # ids). sv_status s j \<in> {PREFILL, DECODE}} = {j \<in> set ids. sv_status s j \<in> {PREFILL, DECODE}}"
      by auto
    with Cons False show ?thesis by auto
  next
    case True
    obtain r1 kv1 where k1: "pk_swap_out i (sv_kv s) = (r1, kv1)" by fastforce
    note f1 = pk_swap_out_frame [OF k1] and o1 = pk_swap_out_ok [OF Cons.prems(2) k1]
    from free_gpu_blocks_ok [OF o1, of i] obtain kv2 where k2: "pk_free_gpu_blocks i kv1 = (Inr (), kv2)" "pk_ok E kv2"
      by blast
    note f2 = pk_free_gpu_frame [OF k2(1)]
    let ?s2 = "s\<lparr>sv_kv := kv2\<rparr>"
    let ?s3 = "?s2\<lparr>sv_heap := mark SWAPPED {i} (sv_heap s)\<rparr>"
    have e1: "ignore_KeyError (with_kv (pk_swap_out i) s) = (Inr (), s\<lparr>sv_kv := kv1\<rparr>)"
      using k1 f1 by (auto simp: ignore_KeyError_def with_kv_def)
    have e2: "with_kv (pk_free_gpu_blocks i) (s\<lparr>sv_kv := kv1\<rparr>) = (Inr (), ?s2)"
      using k2 by (simp add: with_kv_def)
    have e3: "sv_set_status SWAPPED i ?s2 = (Inr (), ?s3)"
      using True by (subst sv_set_status_ok) (auto simp: sv_status_def)
    have m: "marked E SWAPPED {i} (sv_keys s) s ?s3"
      using k2(2) f1 f2 by (simp add: marked_def sv_keys_def)
    have st: "sv_status ?s3 j = sv_status s j" if "j \<in> set ids" for j
      using that Cons.prems(1) by (auto simp: sv_status_def)
    then have fl: "filter (\<lambda>j. sv_status ?s3 j \<in> {PREFILL, DECODE}) ids = filter (\<lambda>j. sv_status s j \<in> {PREFILL, DECODE}) ids"
      and sl: "{j \<in> set ids. sv_status ?s3 j \<in> {PREFILL, DECODE}} = {j \<in> set ids. sv_status s j \<in> {PREFILL, DECODE}}"
      by (auto intro: filter_cong)
    from Cons.IH [of ?s3 "acc @ [i]"] Cons.prems k2(2) obtain s' where
      s': "preempt_sequences ids (acc @ [i]) ?s3 = (Inr ((acc @ [i]) @ filter (\<lambda>j. sv_status s j \<in> {PREFILL, DECODE}) ids), s')"
        "marked E SWAPPED {j \<in> set ids. sv_status s j \<in> {PREFILL, DECODE}} (sv_keys ?s3) ?s3 s'"
      unfolding fl sl by auto
    have "sv_keys ?s3 = sv_keys s" using m by (simp add: marked_def sv_keys_def)
    moreover have "{j \<in> set (i # ids). sv_status s j \<in> {PREFILL, DECODE}} =
        {j \<in> set ids. sv_status s j \<in> {PREFILL, DECODE}} \<union> {i}"
      using True by auto
    ultimately have "marked E SWAPPED {j \<in> set (i # ids). sv_status s j \<in> {PREFILL, DECODE}} (sv_keys s) s s'"
      using marked_trans [OF m s'(2)] by simp
    with True s'(1) e1 e2 e3 show ?thesis by simp
  qed
qed


text \<open>
  A move of the group \<open>g\<close>, whose sequences \<open>X\<close> are marked, from one place to
  another: every other group is untouched.
\<close>

lemma queues_distinct: "sv_tables_ok s \<Longrightarrow> distinct (sv_queues s)"
proof -
  assume t: "sv_tables_ok s"
  have "map request_id (map snd (sv_request_map s)) = map fst (sv_request_map s)"
    using t by (simp add: sv_tables_ok_def)
  then have "distinct (map snd (sv_request_map s))"
    using t unfolding sv_tables_ok_def by (metis distinct_map)
  moreover have "mset (sv_queues s) = mset (map snd (sv_request_map s))" using t by (simp add: sv_tables_ok_def)
  ultimately show ?thesis using mset_eq_imp_distinct_iff by blast
qed

lemma moved_ok:
  assumes ok: "sv_ok E s" and m: "marked E st X K' s s'" and X: "X \<subseteq> set (sequence_ids g)"
    and K: "sv_keys s \<subseteq> K'" "K' \<subseteq> sv_keys s \<union> X"
    and act: "active st" "\<And>i. i \<in> X \<Longrightarrow> active (sv_status s i)"
    and g: "g \<in> set (sv_queues s)" "mset (w @ r @ q) = mset (sv_queues s)"
    and w: "set w \<subseteq> set (sv_waiting s) - {g}"
    and r: "set r \<subseteq> insert g (set (sv_running s))"
      "g \<in> set r \<Longrightarrow> placed_ok {PREFILL, DECODE} (mark st X (sv_heap s)) K' g"
    and q: "set q \<subseteq> insert g (set (sv_swapped s))"
      "g \<in> set q \<Longrightarrow> placed_ok {SWAPPED} (mark st X (sv_heap s)) K' g"
  shows "sv_ok E (s'\<lparr>sv_waiting := w, sv_running := r, sv_swapped := q\<rparr>)"
proof -
  note d = markedD [OF m]
  let ?s = "s'\<lparr>sv_waiting := w, sv_running := r, sv_swapped := q\<rparr>"
  have t: "sv_tables_ok s" and p: "sv_places_ok s" using ok by (simp_all add: sv_ok_def)
  have di: "distinct (concat (map sequence_ids (sv_queues s)))" using t by (simp add: sv_tables_ok_def)
  have out: "i \<notin> X" if "x \<in> set (sv_queues s)" "x \<noteq> g" "i \<in> set (sequence_ids x)" for x i
    using concat_disjoint [OF di that(1) g(1) that(2)] that(3) X by auto
  have keep: "i \<in> K' \<longleftrightarrow> i \<in> sv_keys s" if "i \<notin> X" for i using that K by auto
  have h: "sv_heap ?s = mark st X (sv_heap s)" "sv_keys ?s = K'" using d by (simp_all add: sv_keys_def)
  have wc: "waiting_ok (mark st X (sv_heap s)) K' x = waiting_ok (sv_heap s) (sv_keys s) x"
    and pc: "placed_ok A (mark st X (sv_heap s)) K' x = placed_ok A (sv_heap s) (sv_keys s) x"
    if "x \<in> set (sv_queues s)" "x \<noteq> g" for x A
    using out [OF that] keep by (auto intro!: waiting_ok_cong placed_ok_cong)
  have sub: "set (sv_waiting s) \<subseteq> set (sv_queues s)" "set (sv_running s) \<subseteq> set (sv_queues s)"
      "set (sv_swapped s) \<subseteq> set (sv_queues s)" by (auto simp: sv_queues_def)
  have "\<forall>x \<in> set w. waiting_ok (mark st X (sv_heap s)) K' x"
    using w wc sub p unfolding sv_places_ok_def by blast
  moreover have "\<forall>x \<in> set r. placed_ok {PREFILL, DECODE} (mark st X (sv_heap s)) K' x"
    using r pc sub p unfolding sv_places_ok_def by blast
  moreover have "\<forall>x \<in> set q. placed_ok {SWAPPED} (mark st X (sv_heap s)) K' x"
    using q pc sub p unfolding sv_places_ok_def by blast
  ultimately have "sv_places_ok ?s" unfolding sv_places_ok_def h by simp
  moreover have "sv_tables_ok ?s"
  proof (rule sv_tables_okI [OF t])
    show "sv_frame s ?s" using sv_frame_marked [OF m act] by simp
    show "mset (sv_queues ?s) = mset (sv_queues s)" using g(2) by (simp add: sv_queues_def)
    have "X \<subseteq> set (concat (map sequence_ids (sv_queues s)))" using X g(1) by auto
    moreover have "sv_keys s \<subseteq> set (concat (map sequence_ids (sv_queues s)))" using t by (simp add: sv_tables_ok_def)
    ultimately show "sv_keys ?s \<subseteq> set (concat (map sequence_ids (sv_queues s)))" using K(2) h(2) by blast
  qed
  moreover have "pk_ok E (sv_kv ?s)" using d by simp
  ultimately show ?thesis by (simp add: sv_ok_def)
qed

lemma preempt_spec:
  assumes ok: "sv_ok E s"
  shows "\<exists>ids s'. preempt_oldest_running_group s = (Inr ids, s') \<and> sv_ok E s' \<and> sv_frame s s' \<and>
    sv_waiting s' = sv_waiting s \<and> (ids = [] \<longleftrightarrow> sv_running s = []) \<and>
    (\<forall>i. sv_status s' i = (if i \<in> set ids then SWAPPED else sv_status s i)) \<and>
    (\<forall>i \<in> set ids. sv_status s i \<in> {PREFILL, DECODE}) \<and> sv_keys s' = sv_keys s"
proof (cases "sv_running s")
  case Nil
  with ok show ?thesis by (simp add: preempt_oldest_running_group_def)
next
  case (Cons g gs)
  let ?P = "\<lambda>i. sv_status s i \<in> {PREFILL, DECODE}"
  let ?X = "{i \<in> set (sequence_ids g). ?P i}"
  let ?ids = "filter ?P (sequence_ids g)"
  have t: "sv_tables_ok s" and p: "placed_ok {PREFILL, DECODE} (sv_heap s) (sv_keys s) g"
    using ok Cons by (auto simp: sv_ok_def sv_places_ok_def)
  have gq: "sv_queues s = sv_waiting s @ g # gs @ sv_swapped s" using Cons by (simp add: sv_queues_def)
  have dq: "distinct (sv_queues s)" using queues_distinct [OF t] .
  have "distinct (sequence_ids g)" using t by (simp add: sv_tables_ok_def gq)
  moreover have "pk_ok E (sv_kv (s\<lparr>sv_running := gs\<rparr>))" using ok by (simp add: sv_ok_def)
  ultimately obtain s1 where
    s1: "preempt_sequences (sequence_ids g) [] (s\<lparr>sv_running := gs\<rparr>) = (Inr ?ids, s1)"
      "marked E SWAPPED ?X (sv_keys s) (s\<lparr>sv_running := gs\<rparr>) s1"
    using preempt_sequences_spec [of "sequence_ids g" E "s\<lparr>sv_running := gs\<rparr>" "[]"]
    by (auto simp: sv_status_def sv_keys_def)
  note d = markedD [OF s1(2)]
  let ?s1 = "s1\<lparr>sv_running := sv_running s\<rparr>" and ?s' = "s1\<lparr>sv_swapped := sv_swapped s1 @ [g]\<rparr>"
  have "?s1 = s\<lparr>sv_kv := sv_kv ?s1, sv_heap := mark SWAPPED ?X (sv_heap s)\<rparr>"
    by (rule serving_scheduler.equality) (simp_all add: d)
  then have m: "marked E SWAPPED ?X (sv_keys s) s ?s1" using d by (simp add: marked_def sv_block_size_def)
  have ne: "?ids \<noteq> []" using p by (auto simp: placed_ok_def sv_status_def filter_empty_conv)
  have eq: "?s' = ?s1\<lparr>sv_waiting := sv_waiting s, sv_running := gs, sv_swapped := sv_swapped s @ [g]\<rparr>"
    by (rule serving_scheduler.equality) (simp_all add: d)
  have pg: "placed_ok {SWAPPED} (mark SWAPPED ?X (sv_heap s)) (sv_keys s) g"
    unfolding placed_ok_def
  proof (intro conjI ballI)
    fix i assume i: "i \<in> set (sequence_ids g)"
    with p have "?P i \<and> i \<in> sv_keys s \<or> sv_status s i = FINISHED \<and> i \<notin> sv_keys s"
      unfolding placed_ok_def sv_status_def by blast
    with i show "seq_status (mark SWAPPED ?X (sv_heap s) i) \<in> {SWAPPED} \<and> i \<in> sv_keys s \<or>
        seq_status (mark SWAPPED ?X (sv_heap s) i) = FINISHED \<and> i \<notin> sv_keys s"
      by (cases "?P i") (auto simp: sv_status_def)
  next
    from p obtain i where "i \<in> set (sequence_ids g)" "?P i" unfolding placed_ok_def sv_status_def by blast
    then show "\<exists>i \<in> set (sequence_ids g). seq_status (mark SWAPPED ?X (sv_heap s) i) \<in> {SWAPPED}" by auto
  qed
  have "sv_ok E ?s'" unfolding eq
    by (rule moved_ok [OF ok m]) (use gq dq pg Cons in \<open>auto simp: sv_status_def\<close>)
  moreover have "sv_frame s ?s'"
  proof -
    have "active (sv_status s i)" if "i \<in> ?X" for i using that by auto
    from sv_frame_marked [OF m _ this] show ?thesis by simp
  qed
  moreover have "preempt_oldest_running_group s = (Inr ?ids, ?s')"
    using Cons s1(1) ne by (simp add: preempt_oldest_running_group_def)
  moreover have "sv_status ?s' i = (if i \<in> set ?ids then SWAPPED else sv_status s i)" for i
    by (auto simp: sv_status_def d)
  ultimately show ?thesis using ne Cons d by (intro exI [of _ ?ids] exI [of _ ?s']) (simp add: sv_keys_def)
qed


section \<open>Recovery and admission\<close>

lemma sv_swap_in_all_spec:
  "pk_ok E (sv_kv s) \<Longrightarrow> \<exists>b s'. sv_swap_in_all ids s = (b, s') \<and> marked E st {} (sv_keys s) s s'"
proof (induction ids arbitrary: s)
  case Nil
  then show ?case by (auto simp: marked_def sv_keys_def)
next
  case (Cons i ids)
  obtain r kv where k: "pk_swap_in i (sv_kv s) = (r, kv)" by fastforce
  let ?s = "s\<lparr>sv_kv := kv\<rparr>"
  have ok: "pk_ok E kv" using pk_swap_in_ok [OF Cons.prems k] .
  with pk_swap_in_frame [OF k] have m: "marked E st {} (sv_keys s) s ?s"
    by (simp add: marked_def sv_keys_def)
  show ?case
  proof (cases r)
    case (Inl e)
    with k m show ?thesis by (auto simp: with_kv_def)
  next
    case (Inr u)
    from Cons.IH [of ?s] ok obtain b s' where "sv_swap_in_all ids ?s = (b, s')" "marked E st {} (sv_keys ?s) ?s s'"
      by auto
    with marked_trans [OF m this(2)] k Inr m show ?thesis by (simp add: with_kv_def marked_def sv_keys_def)
  qed
qed

lemma for_each_set_status:
  "(\<And>i. i \<in> set ids \<Longrightarrow> st \<in> set (seq_transitions (sv_status s i))) \<Longrightarrow>
   for_each (sv_set_status st) ids s = (Inr (), s\<lparr>sv_heap := mark st (set ids) (sv_heap s)\<rparr>)"
proof (induction ids arbitrary: s rule: rev_induct)
  case Nil
  then show ?case by simp
next
  case (snoc i ids)
  have app: "for_each f (xs @ [x]) s = andthen (for_each f xs s) (\<lambda>_ s1. f x s1)"
    for f :: "int \<Rightarrow> 'a serving_scheduler \<Rightarrow> ('a serving_scheduler, unit) outcome" and xs x s
    by (induction xs arbitrary: s) (auto simp: andthen_def split: prod.splits sum.splits)
  from snoc have "for_each (sv_set_status st) ids s = (Inr (), s\<lparr>sv_heap := mark st (set ids) (sv_heap s)\<rparr>)" by simp
  moreover have "st = sv_status (s\<lparr>sv_heap := mark st (set ids) (sv_heap s)\<rparr>) i \<or>
      st \<in> set (seq_transitions (sv_status (s\<lparr>sv_heap := mark st (set ids) (sv_heap s)\<rparr>) i))"
    using snoc.prems by (simp add: sv_status_def)
  ultimately show ?case by (simp add: app sv_set_status_ok mark_mark)
qed

lemma recover_group_spec:
  assumes ok: "sv_ok E s"
  shows "\<exists>s'. recover_group g s = (Inr (), s') \<and> sv_ok E s' \<and> sv_frame s s' \<and> sv_waiting s' = sv_waiting s"
proof (cases "g \<in> set (sv_swapped s)")
  case False
  with ok show ?thesis by (simp add: recover_group_def)
next
  case True
  let ?ss = "seqs_in SWAPPED g s"
  have t: "sv_tables_ok s" and p: "placed_ok {SWAPPED} (sv_heap s) (sv_keys s) g" and kv: "pk_ok E (sv_kv s)"
    using ok True by (auto simp: sv_ok_def sv_places_ok_def)
  have ne: "?ss \<noteq> []" using p by (auto simp: placed_ok_def seqs_in_def sv_status_def filter_empty_conv)
  have gq: "g \<in> set (sv_queues s)" using True by (simp add: sv_queues_def)
  have dq: "distinct (sv_queues s)" using queues_distinct [OF t] .
  from sv_swap_in_all_spec [OF kv, of ?ss DECODE] obtain b s1 where
    s1: "sv_swap_in_all ?ss s = (b, s1)" "marked E DECODE {} (sv_keys s) s s1" by blast
  note d1 = markedD [OF s1(2)]
  show ?thesis
  proof (cases b)
    case False
    have "sv_ok E (s1\<lparr>sv_waiting := sv_waiting s, sv_running := sv_running s, sv_swapped := sv_swapped s\<rparr>)"
      by (rule moved_ok [OF ok s1(2)]) (use gq dq p True in \<open>auto simp: sv_queues_def\<close>)
    moreover have "s1\<lparr>sv_waiting := sv_waiting s, sv_running := sv_running s, sv_swapped := sv_swapped s\<rparr> = s1"
      by (rule serving_scheduler.equality) (simp_all add: d1)
    ultimately show ?thesis
      using False True ne s1 sv_frame_marked [OF s1(2)] d1 by (simp add: recover_group_def)
  next
    case b: True
    let ?s2 = "s1\<lparr>sv_heap := mark DECODE (set ?ss) (sv_heap s1)\<rparr>"
    let ?s' = "?s2\<lparr>sv_swapped := remove1 g (sv_swapped s), sv_running := g # sv_running s\<rparr>"
    have st: "sv_status s1 i = SWAPPED" if "i \<in> set ?ss" for i
      using that d1 by (simp add: sv_status_def seqs_in_def)
    then have e: "for_each (sv_set_status DECODE) ?ss s1 = (Inr (), ?s2)"
      by (intro for_each_set_status) simp
    have "?s2 = s\<lparr>sv_kv := sv_kv ?s2, sv_heap := mark DECODE (set ?ss) (sv_heap s)\<rparr>"
      by (rule serving_scheduler.equality) (simp_all add: d1)
    then have m: "marked E DECODE (set ?ss) (sv_keys s) s ?s2"
      using d1 by (simp add: marked_def sv_block_size_def)
    have act: "active (sv_status s i)" if "i \<in> set ?ss" for i
      using that by (simp add: sv_status_def seqs_in_def)
    have eq: "?s' = ?s2\<lparr>sv_waiting := sv_waiting s, sv_running := g # sv_running s, sv_swapped := remove1 g (sv_swapped s)\<rparr>"
      by (rule serving_scheduler.equality) (simp_all add: d1)
    have pg: "placed_ok {PREFILL, DECODE} (mark DECODE (set ?ss) (sv_heap s)) (sv_keys s) g"
      using p by (auto simp: placed_ok_def seqs_in_def sv_status_def)
    have ids: "set ?ss \<subseteq> set (sequence_ids g)" by (auto simp: seqs_in_def)
    have ms: "mset (sv_waiting s @ (g # sv_running s) @ remove1 g (sv_swapped s)) = mset (sv_queues s)"
      using True by (simp add: sv_queues_def)
    have dis: "distinct (sv_swapped s)" "g \<notin> set (sv_waiting s)" using dq True by (auto simp: sv_queues_def)
    have "sv_ok E ?s'" unfolding eq
      by (rule moved_ok [OF ok m ids _ _ _ act gq ms]) (use pg dis in \<open>auto dest: set_remove1_subset [THEN subsetD]\<close>)
    moreover have "sv_frame s ?s'" using sv_frame_marked [OF m _ act] by simp
    moreover have "recover_group g s = (Inr (), ?s')"
      using True ne s1 b e d1 by (simp add: recover_group_def)
    ultimately show ?thesis by (simp add: d1)
  qed
qed

lemma recover_swapped_spec:
  assumes "sv_ok E s"
  shows "\<exists>s'. recover_swapped_groups gs s = (Inr (), s') \<and> sv_ok E s' \<and> sv_frame s s' \<and> sv_waiting s' = sv_waiting s"
proof (cases "sv_free s \<le> 0")
  case True
  with assms show ?thesis by (simp add: recover_swapped_groups_def)
next
  case False
  have "\<exists>s'. for_each recover_group gs s = (Inr (), s') \<and> sv_ok E s' \<and> sv_frame s s' \<and> sv_waiting s' = sv_waiting s"
    by (rule for_each_invariant [where I = "\<lambda>_ s'. sv_ok E s' \<and> sv_frame s s' \<and> sv_waiting s' = sv_waiting s"])
      (use assms recover_group_spec sv_frame_trans in \<open>fastforce+\<close>)
  with False show ?thesis by (simp add: recover_swapped_groups_def)
qed

lemma required_blocks_eq: "0 < sv_block_size s \<Longrightarrow> required_blocks s i = ceil_div (prompt_length (sv_heap s i)) (sv_block_size s)"
  by (simp add: required_blocks_def ceil_div_def)

lemma required_blocks_nonneg: "0 < sv_block_size s \<Longrightarrow> 0 \<le> required_blocks s i"
proof -
  assume b: "0 < sv_block_size s"
  from ceil_div_mono [OF b, of "prompt_length (sv_heap s i)" 0] show ?thesis
    by (simp add: required_blocks_eq [OF b] prompt_length_def ceil_div_def)
qed

lemma sv_ok_block_size: "pk_ok E (sv_kv s) \<Longrightarrow> 0 < sv_block_size s"
  by (simp add: pk_ok_def ba_own_def ba_ok_def sv_block_size_def)

lemma start_prefill_all:
  assumes "distinct ids" and "pk_ok E (sv_kv s)"
    and "\<And>i. i \<in> set ids \<Longrightarrow> sv_status s i = WAITING \<and> i \<notin> sv_keys s"
    and "sum_list (map (required_blocks s) ids) \<le> sv_free s"
  shows "\<exists>s'. for_each start_prefill ids s = (Inr (), s') \<and> marked E PREFILL (set ids) (sv_keys s \<union> set ids) s s'"
  using assms
proof (induction ids arbitrary: s)
  case Nil
  then show ?case by (simp add: marked_def sv_keys_def)
next
  case (Cons i ids)
  let ?n = "prompt_length (sv_heap s i)"
  note bs = sv_ok_block_size [OF Cons.prems(2)]
  have new: "map_of (pk_tables (sv_kv s)) i = None"
    using Cons.prems(3) [of i] by (simp add: sv_keys_def map_of_eq_None_iff)
  have need: "required_blocks s i = ceil_div ?n (kv_size (sv_kv s))"
    using required_blocks_eq [OF bs] by (simp add: sv_block_size_def)
  have "0 \<le> sum_list (map (required_blocks s) ids)"
    by (rule sum_list_nonneg) (use required_blocks_nonneg [OF bs] in auto)
  then have fits: "required_blocks s i \<le> ba_num_free (pk_alloc (sv_kv s))"
    using Cons.prems(4) by (simp add: sv_free_def)
  have n: "0 \<le> ?n" by (simp add: prompt_length_def)
  from allocate_sequence_spec [OF Cons.prems(2) new n need] fits obtain kv where
    k: "pk_allocate_sequence i ?n (sv_kv s) = (Inr (), kv)" "pk_ok E kv"
      "ba_num_free (pk_alloc kv) = sv_free s - required_blocks s i"
    by (auto simp: sv_free_def)
  note f = pk_allocate_frame [OF k(1)]
  let ?s1 = "s\<lparr>sv_kv := kv\<rparr>\<lparr>sv_heap := mark PREFILL {i} (sv_heap s)\<rparr>"
  have e: "start_prefill i s = (Inr (), ?s1)"
    using k(1) Cons.prems(3) [of i]
    by (simp add: start_prefill_def with_kv_def) (subst sv_set_status_ok; simp add: sv_status_def)
  have m: "marked E PREFILL {i} (insert i (sv_keys s)) s ?s1"
    using k f by (simp add: marked_def sv_keys_def)
  have rb: "required_blocks ?s1 = required_blocks s"
    using f by (auto simp: fun_eq_iff required_blocks_def sv_block_size_def prompt_length_def mark_def)
  have "\<exists>s'. for_each start_prefill ids ?s1 = (Inr (), s') \<and>
      marked E PREFILL (set ids) (sv_keys ?s1 \<union> set ids) ?s1 s'"
  proof (rule Cons.IH)
    show "distinct ids" "pk_ok E (sv_kv ?s1)" using Cons.prems(1) k(2) by simp_all
    show "sum_list (map (required_blocks ?s1) ids) \<le> sv_free ?s1"
      using Cons.prems(4) k(3) unfolding rb by (simp add: sv_free_def)
    show "sv_status ?s1 j = WAITING \<and> j \<notin> sv_keys ?s1" if "j \<in> set ids" for j
      using that Cons.prems(1) Cons.prems(3) [of j] f by (auto simp: sv_status_def sv_keys_def)
  qed
  then obtain s' where s': "for_each start_prefill ids ?s1 = (Inr (), s')"
      "marked E PREFILL (set ids) (sv_keys ?s1 \<union> set ids) ?s1 s'" by blast
  from marked_trans [OF m s'(2)] have "marked E PREFILL (set (i # ids)) (sv_keys s \<union> set (i # ids)) s s'"
    using f by (simp add: sv_keys_def)
  with e s'(1) show ?case by simp
qed


section \<open>The batch of one step\<close>

text \<open>
  What is known of the output while the waiting queue is processed: the scheduled
  prefills are distinct, active sequences with a block table, in prefill or
  already preempted again, and the counters count them.
\<close>

definition prefills_ok :: "'d serving_scheduler \<Rightarrow> int \<Rightarrow> int \<Rightarrow> scheduler_output \<Rightarrow> bool" where
  "prefills_ok s n t out \<longleftrightarrow>
     n = int (length (prefill_seq_ids out)) \<and> t = num_prefill_tokens out \<and>
     decode_seq_ids out = [] \<and> num_decode_tokens out = 0 \<and>
     n \<le> sv_max_batch_size s \<and> t \<le> sv_max_tokens_per_step s \<and> distinct (prefill_seq_ids out) \<and>
     (\<forall>i \<in> set (prefill_seq_ids out). sv_status s i \<in> {PREFILL, SWAPPED} \<and> i \<in> sv_keys s)"

lemma sv_make_room_spec:
  assumes ok: "sv_ok E s" and out: "prefills_ok s n t out"
  shows "\<exists>out' b s'. sv_make_room req out s = (Inr (out', b), s') \<and> sv_ok E s' \<and> sv_frame s s' \<and>
    sv_waiting s' = sv_waiting s \<and> prefills_ok s' n t out' \<and> (\<not> b \<longrightarrow> req \<le> sv_free s') \<and>
    sv_keys s' = sv_keys s \<and> (\<forall>i. sv_status s i = WAITING \<longrightarrow> sv_status s' i = WAITING)"
proof (cases "sv_free s < req")
  case False
  with assms show ?thesis by (intro exI [of _ out] exI [of _ False] exI [of _ s]) (simp add: sv_make_room_def)
next
  case True
  from preempt_spec [OF ok] obtain ids s' where
    p: "preempt_oldest_running_group s = (Inr ids, s')" "sv_ok E s'" "sv_frame s s'" "sv_waiting s' = sv_waiting s"
      "\<And>i. sv_status s' i = (if i \<in> set ids then SWAPPED else sv_status s i)"
      "\<And>i. i \<in> set ids \<Longrightarrow> sv_status s i \<in> {PREFILL, DECODE}" "sv_keys s' = sv_keys s"
    by blast
  have lim: "sv_max_batch_size s' = sv_max_batch_size s" "sv_max_tokens_per_step s' = sv_max_tokens_per_step s"
    using p(3) by (simp_all add: sv_frame_def)
  have "prefills_ok s' n t out" using out p(5,7) by (auto simp: prefills_ok_def lim)
  moreover from this have "prefills_ok s' n t (out\<lparr>preempted_seq_ids := preempted_seq_ids out @ ids\<rparr>)"
    by (simp add: prefills_ok_def)
  moreover have "sv_status s' i = WAITING" if "sv_status s i = WAITING" for i
    using p(5) [of i] p(6) [of i] that by auto
  ultimately show ?thesis using True p(1-4,7) by (cases "ids = []") (auto simp: sv_make_room_def)
qed

lemma waiting_group_all: "waiting_ok (sv_heap s) (sv_keys s) g \<Longrightarrow> seqs_in WAITING g s = sequence_ids g"
  by (simp add: seqs_in_def waiting_ok_def sv_status_def)

lemma admit_group:
  assumes ok: "sv_ok E s" and w: "sv_waiting s = g # gs" and out: "prefills_ok s n t out"
    and req: "sum_list (map (required_blocks s) (sequence_ids g)) \<le> sv_free s"
    and lim: "n + int (length (sequence_ids g)) \<le> sv_max_batch_size s" "t + p \<le> sv_max_tokens_per_step s"
  shows "\<exists>s'. for_each start_prefill (sequence_ids g)
        (s\<lparr>sv_waiting := gs, sv_running := sv_running s @ [g]\<rparr>) = (Inr (), s') \<and>
      sv_ok E s' \<and> sv_frame s s' \<and> sv_waiting s' = gs \<and>
      prefills_ok s' (n + int (length (sequence_ids g))) (t + p)
        (out\<lparr>prefill_seq_ids := prefill_seq_ids out @ sequence_ids g,
             num_prefill_tokens := num_prefill_tokens out + p\<rparr>)"
proof -
  let ?s = "s\<lparr>sv_waiting := gs, sv_running := sv_running s @ [g]\<rparr>" and ?ids = "sequence_ids g"
  have t: "sv_tables_ok s" and wg: "waiting_ok (sv_heap s) (sv_keys s) g" and kv: "pk_ok E (sv_kv s)"
    using ok w by (auto simp: sv_ok_def sv_places_ok_def)
  have gq: "sv_queues s = g # gs @ sv_running s @ sv_swapped s" using w by (simp add: sv_queues_def)
  have dq: "distinct (sv_queues s)" using queues_distinct [OF t] .
  have di: "distinct ?ids" using t by (simp add: sv_tables_ok_def gq)
  have st: "sv_status s i = WAITING" "i \<notin> sv_keys s" if "i \<in> set ?ids" for i
    using wg that by (auto simp: waiting_ok_def sv_status_def)
  have rb: "required_blocks ?s = required_blocks s" "sv_free ?s = sv_free s" "sv_keys ?s = sv_keys s"
      "sv_status ?s = sv_status s" "sv_kv ?s = sv_kv s"
    by (auto simp: fun_eq_iff required_blocks_def sv_block_size_def sv_free_def sv_keys_def sv_status_def)
  from start_prefill_all [OF di, of E ?s] st req kv obtain s1 where
    s1: "for_each start_prefill ?ids ?s = (Inr (), s1)" "marked E PREFILL (set ?ids) (sv_keys s \<union> set ?ids) ?s s1"
    unfolding rb by auto
  note d = markedD [OF s1(2)]
  let ?s1 = "s1\<lparr>sv_waiting := sv_waiting s, sv_running := sv_running s\<rparr>"
  have "?s1 = s\<lparr>sv_kv := sv_kv ?s1, sv_heap := mark PREFILL (set ?ids) (sv_heap s)\<rparr>"
    by (rule serving_scheduler.equality) (simp_all add: d)
  then have m: "marked E PREFILL (set ?ids) (sv_keys s \<union> set ?ids) s ?s1"
    using d by (simp add: marked_def sv_block_size_def)
  have act: "active (sv_status s i)" if "i \<in> set ?ids" for i using st(1) [OF that] by simp
  have eq: "s1 = ?s1\<lparr>sv_waiting := gs, sv_running := sv_running s @ [g], sv_swapped := sv_swapped s\<rparr>"
    by (rule serving_scheduler.equality) (simp_all add: d)
  have pg: "placed_ok {PREFILL, DECODE} (mark PREFILL (set ?ids) (sv_heap s)) (sv_keys s \<union> set ?ids) g"
    using wg by (auto simp: placed_ok_def waiting_ok_def neq_Nil_conv)
  have ok1: "sv_ok E s1"
    by (subst eq, rule moved_ok [OF ok m _ _ _ _ act]) (use gq dq pg w in auto)
  have fr: "sv_frame s s1" using sv_frame_marked [OF m _ act] by simp
  have s1st: "sv_status s1 i = (if i \<in> set ?ids then PREFILL else sv_status s i)" for i
    by (simp add: sv_status_def d)
  have s1k: "sv_keys s1 = sv_keys s \<union> set ?ids" using d by (simp add: sv_keys_def)
  have new: "set (prefill_seq_ids out) \<inter> set ?ids = {}"
    using out st(2) by (auto simp: prefills_ok_def)
  have "prefills_ok s1 (n + int (length ?ids)) (t + p)
        (out\<lparr>prefill_seq_ids := prefill_seq_ids out @ ?ids, num_prefill_tokens := num_prefill_tokens out + p\<rparr>)"
    using out lim fr di new by (auto simp: prefills_ok_def sv_frame_def s1st s1k)
  with s1 ok1 fr d show ?thesis by simp
qed

lemma waiting_loop_spec:
  assumes "sv_ok E s" and "sv_waiting s = ws" and "prefills_ok s n t out"
  shows "\<exists>n' t' out' s'. waiting_loop ws n t out s = (Inr (n', t', out'), s') \<and> sv_ok E s' \<and> sv_frame s s' \<and>
    prefills_ok s' n' t' out'"
  using assms
proof (induction ws arbitrary: n t out s)
  case Nil
  then show ?case by auto
next
  case (Cons g gs)
  let ?ids = "sequence_ids g"
  define p where "p = sum_list (map (seq_prefill_tokens s) ?ids)"
  define req where "req = sum_list (map (required_blocks s) ?ids)"
  have wg: "waiting_ok (sv_heap s) (sv_keys s) g"
    using Cons.prems(1,2) by (auto simp: sv_ok_def sv_places_ok_def)
  then have ne: "?ids \<noteq> []" and nx: "seqs_in WAITING g s = ?ids"
    using waiting_group_all by (auto simp: waiting_ok_def)
  show ?case
  proof (cases "n + int (length ?ids) > sv_max_batch_size s \<or> t + p > sv_max_tokens_per_step s")
    case True
    then have "waiting_loop (g # gs) n t out s = (Inr (n, t, out), s)"
      using ne nx by (auto simp: p_def Let_def)
    with Cons.prems show ?thesis by auto
  next
    case False
    from sv_make_room_spec [OF Cons.prems(1,3), of req] obtain out1 b s1 where
      r: "sv_make_room req out s = (Inr (out1, b), s1)" "sv_ok E s1" "sv_frame s s1" "sv_waiting s1 = sv_waiting s"
        "prefills_ok s1 n t out1" "\<not> b \<Longrightarrow> req \<le> sv_free s1" by blast
    show ?thesis
    proof (cases b)
      case True
      with r(1) False ne nx have "waiting_loop (g # gs) n t out s = (Inr (n, t, out1), s1)"
        by (simp add: p_def req_def Let_def)
      with r show ?thesis by auto
    next
      case nb: False
      have len: "prompt_length (sv_heap s1 i) = prompt_length (sv_heap s i)" for i
      proof -
        have "sv_heap s1 i = (sv_heap s i)\<lparr>seq_status := seq_status (sv_heap s1 i)\<rparr>"
          using r(3) by (simp add: sv_frame_def)
        then have "prompt_token_ids (sv_heap s1 i) = prompt_token_ids ((sv_heap s i)\<lparr>seq_status := seq_status (sv_heap s1 i)\<rparr>)"
          by (rule arg_cong)
        then show ?thesis by (simp add: prompt_length_def)
      qed
      have "required_blocks s1 = required_blocks s"
        using r(3) by (simp add: fun_eq_iff required_blocks_def len sv_frame_def)
      then have rq: "sum_list (map (required_blocks s1) ?ids) \<le> sv_free s1"
        using r(6) [OF nb] by (simp add: req_def)
      have lim: "n + int (length ?ids) \<le> sv_max_batch_size s1" "t + p \<le> sv_max_tokens_per_step s1"
        using False r(3) by (simp_all add: sv_frame_def)
      from admit_group [OF r(2) _ r(5) rq lim, of gs] r(4) Cons.prems(2) obtain s2 where
        s2: "for_each start_prefill ?ids (s1\<lparr>sv_waiting := gs, sv_running := sv_running s1 @ [g]\<rparr>) = (Inr (), s2)"
          "sv_ok E s2" "sv_frame s1 s2" "sv_waiting s2 = gs"
          "prefills_ok s2 (n + int (length ?ids)) (t + p)
             (out1\<lparr>prefill_seq_ids := prefill_seq_ids out1 @ ?ids, num_prefill_tokens := num_prefill_tokens out1 + p\<rparr>)"
        by auto
      from Cons.IH [OF s2(2,4,5)] obtain n' t' out' s' where
        l: "waiting_loop gs (n + int (length ?ids)) (t + p)
             (out1\<lparr>prefill_seq_ids := prefill_seq_ids out1 @ ?ids, num_prefill_tokens := num_prefill_tokens out1 + p\<rparr>) s2
             = (Inr (n', t', out'), s')" "sv_ok E s'" "sv_frame s2 s'" "prefills_ok s' n' t' out'" by blast
      have "sv_frame s s'" using r(3) s2(3) l(3) sv_frame_trans by blast
      moreover have "waiting_loop (g # gs) n t out s = (Inr (n', t', out'), s')"
        using False nb ne nx r(1) s2(1) l(1) by (simp add: p_def req_def Let_def)
      ultimately show ?thesis using l by blast
    qed
  qed
qed


lemma decode_loop_spec:
  "\<exists>k. k \<le> length (filter (\<lambda>i. sv_status s i = DECODE) ids) \<and>
     (0 < k \<longrightarrow> n + int k \<le> sv_max_batch_size s \<and> t + int k \<le> sv_max_tokens_per_step s) \<and>
     decode_loop ids s n t out =
       out\<lparr>decode_seq_ids := decode_seq_ids out @ take k (filter (\<lambda>i. sv_status s i = DECODE) ids),
           num_decode_tokens := num_decode_tokens out + int k\<rparr>"
proof (induction ids arbitrary: n t out)
  case Nil
  then show ?case by simp
next
  case (Cons i ids)
  show ?case
  proof (cases "sv_status s i = DECODE \<and> n < sv_max_batch_size s \<and> t < sv_max_tokens_per_step s")
    case True
    let ?out = "out\<lparr>decode_seq_ids := decode_seq_ids out @ [i], num_decode_tokens := num_decode_tokens out + 1\<rparr>"
    from Cons.IH [of "n + 1" "t + 1" ?out] obtain k where
      "k \<le> length (filter (\<lambda>i. sv_status s i = DECODE) ids)"
      "0 < k \<longrightarrow> n + 1 + int k \<le> sv_max_batch_size s \<and> t + 1 + int k \<le> sv_max_tokens_per_step s"
      "decode_loop ids s (n + 1) (t + 1) ?out =
        ?out\<lparr>decode_seq_ids := decode_seq_ids ?out @ take k (filter (\<lambda>i. sv_status s i = DECODE) ids),
             num_decode_tokens := num_decode_tokens ?out + int k\<rparr>" by blast
    with True show ?thesis by (intro exI [of _ "Suc k"]) auto
  next
    case False
    show ?thesis
    proof (cases "sv_status s i = DECODE")
      case True
      with False show ?thesis by (intro exI [of _ 0]) auto
    next
      case nd: False
      with Cons.IH [of n t out] show ?thesis by simp
    qed
  qed
qed

text \<open>The batch a call of \<^verbatim>\<open>schedule\<close> returns.\<close>

definition batch_ok :: "'d serving_scheduler \<Rightarrow> scheduler_output \<Rightarrow> bool" where
  "batch_ok s out \<longleftrightarrow>
     int (length (prefill_seq_ids out)) + int (length (decode_seq_ids out)) \<le> sv_max_batch_size s \<and>
     num_prefill_tokens out + num_decode_tokens out \<le> sv_max_tokens_per_step s \<and>
     num_decode_tokens out = int (length (decode_seq_ids out)) \<and>
     distinct (prefill_seq_ids out @ decode_seq_ids out) \<and>
     (\<forall>i \<in> set (prefill_seq_ids out). sv_status s i \<in> {PREFILL, SWAPPED} \<and> i \<in> sv_keys s) \<and>
     (\<forall>i \<in> set (decode_seq_ids out). sv_status s i = DECODE \<and> i \<in> sv_keys s)"

lemma sv_reorder_waiting_ok:
  assumes "sv_ok E s"
  shows "sv_ok E (sv_reorder_waiting cp s)" and "sv_frame s (sv_reorder_waiting cp s)"
    and "mset (sv_waiting (sv_reorder_waiting cp s)) = mset (sv_waiting s)"
proof -
  obtain w where r: "sv_reorder_waiting cp s = s\<lparr>sv_waiting := w\<rparr>" and w: "mset w = mset (sv_waiting s)"
  proof (cases "\<exists>f. cp = Some f \<and> length (sv_waiting s) > 1")
    case True
    then obtain f where "cp = Some f" "length (sv_waiting s) > 1" by blast
    then show ?thesis
      by (intro that [of "sort_key (\<lambda>g. - f (request_id g) (group_token_ids g s)) (sv_waiting s)"])
        (simp_all add: sv_reorder_waiting_def)
  next
    case False
    then show ?thesis by (intro that [of "sv_waiting s"]) (auto simp: sv_reorder_waiting_def split: option.splits)
  qed
  show fr: "sv_frame s (sv_reorder_waiting cp s)" by (simp add: r)
  show "mset (sv_waiting (sv_reorder_waiting cp s)) = mset (sv_waiting s)" by (simp add: r w)
  have "sv_tables_ok (sv_reorder_waiting cp s)"
    by (rule sv_tables_okI [OF _ fr]) (use assms w in \<open>simp_all add: r sv_ok_def sv_queues_def sv_keys_def sv_tables_ok_def\<close>)
  with assms w show "sv_ok E (sv_reorder_waiting cp s)"
    by (simp add: r sv_ok_def sv_places_ok_def sv_keys_def mset_eq_setD [OF w])
qed

lemma schedule_spec:
  assumes ok: "sv_ok E s"
  shows "\<exists>out s'. sv_schedule cp s = (Inr out, s') \<and> sv_ok E s' \<and> sv_frame s s' \<and> batch_ok s' out"
proof -
  from recover_swapped_spec [OF ok, of "sv_swapped s"] obtain s1 where
    s1: "recover_swapped_groups (sv_swapped s) s = (Inr (), s1)" "sv_ok E s1" "sv_frame s s1" by blast
  define s2 where "s2 = sv_reorder_waiting cp s1"
  note r = sv_reorder_waiting_ok [OF s1(2), of cp, folded s2_def]
  have lim: "0 < sv_max_batch_size s2" "0 < sv_max_tokens_per_step s2"
    using r(1) by (simp_all add: sv_ok_def sv_tables_ok_def)
  then have "prefills_ok s2 0 0 empty_output" by (simp add: prefills_ok_def empty_output_def)
  from waiting_loop_spec [OF r(1) refl this] obtain n t out s3 where
    w: "waiting_loop (sv_waiting s2) 0 0 empty_output s2 = (Inr (n, t, out), s3)" "sv_ok E s3" "sv_frame s2 s3"
      "prefills_ok s3 n t out" by blast
  let ?run = "concat (map sequence_ids (sv_running s3))"
  let ?dec = "filter (\<lambda>i. sv_status s3 i = DECODE) ?run"
  from decode_loop_spec [of s3 ?run n t out] obtain k where
    k: "0 < k \<longrightarrow> n + int k \<le> sv_max_batch_size s3 \<and> t + int k \<le> sv_max_tokens_per_step s3" "k \<le> length ?dec"
      "decode_loop ?run s3 n t out = out\<lparr>decode_seq_ids := decode_seq_ids out @ take k ?dec,
        num_decode_tokens := num_decode_tokens out + int k\<rparr>" by blast
  let ?out = "decode_loop ?run s3 n t out"
  have t3: "distinct (concat (map sequence_ids (sv_queues s3)))" and p3: "sv_places_ok s3"
    using w(2) by (simp_all add: sv_ok_def sv_tables_ok_def)
  have dd: "distinct ?dec" using t3 by (simp add: sv_queues_def)
  have dk: "sv_status s3 i = DECODE \<and> i \<in> sv_keys s3" if "i \<in> set (take k ?dec)" for i
  proof -
    from set_take_subset [of k ?dec] that have st: "sv_status s3 i = DECODE" and i: "i \<in> set ?run"
      by (auto simp del: filter_concat)
    from i obtain g where g: "g \<in> set (sv_running s3)" "i \<in> set (sequence_ids g)" by auto
    with p3 have "placed_ok {PREFILL, DECODE} (sv_heap s3) (sv_keys s3) g" by (simp add: sv_places_ok_def)
    with g(2) st have "i \<in> sv_keys s3" unfolding placed_ok_def sv_status_def by (metis sequence_status.distinct(19))
    with st show ?thesis by simp
  qed
  have pk: "sv_status s3 i \<in> {PREFILL, SWAPPED}" if "i \<in> set (prefill_seq_ids out)" for i
    using w(4) that by (simp add: prefills_ok_def)
  define ds where "ds = take k ?dec"
  have ds: "distinct ds" "int (length ds) = int k" "\<And>i. i \<in> set ds \<Longrightarrow> sv_status s3 i = DECODE \<and> i \<in> sv_keys s3"
    unfolding ds_def using distinct_take [OF dd, of k] dk min_absorb2 [OF k(2)] by (simp_all only: length_take)
  have "set (prefill_seq_ids out) \<inter> set ds = {}"
    using pk ds(3) by force
  with w(4) ds k(1) have "batch_ok s3 (out\<lparr>decode_seq_ids := decode_seq_ids out @ ds, num_decode_tokens := num_decode_tokens out + int k\<rparr>)"
    by (cases "k = 0") (auto simp: batch_ok_def prefills_ok_def)
  then have "batch_ok s3 ?out" unfolding k(3) ds_def .
  moreover have "sv_schedule cp s = (Inr ?out, s3)"
    using s1(1) w(1) by (simp add: sv_schedule_def s2_def)
  moreover have "sv_frame s s3" using s1(3) r(2) w(3) sv_frame_trans by blast
  ultimately show ?thesis using w(2) by blast
qed

end
