(* ===== verification/Serving_Invariant.thy ===== *)
theory Serving_Invariant
  imports Serving_Scheduler
begin

text \<open>
  The operations of the serving scheduler between two calls of \<^verbatim>\<open>schedule\<close>: adding
  a request, the update after a step and aborting keep the invariant of
  \<^verbatim>\<open>Serving_Scheduler\<close>, so it holds in every reachable state, and the properties
  of the scheduler follow.
\<close>

section \<open>While sequences finish\<close>

text \<open>The invariant without the demand that an admitted group has an active sequence.\<close>

definition placed_weak :: "sequence_status set \<Rightarrow> seq_heap \<Rightarrow> int set \<Rightarrow> sequence_group \<Rightarrow> bool" where
  "placed_weak A h K g \<longleftrightarrow>
     (\<forall>i \<in> set (sequence_ids g). seq_status (h i) \<in> A \<and> i \<in> K \<or> seq_status (h i) = FINISHED \<and> i \<notin> K)"

definition sv_weak :: "int multiset \<Rightarrow> 'd serving_scheduler \<Rightarrow> bool" where
  "sv_weak E s \<longleftrightarrow>
     pk_ok E (sv_kv s) \<and> sv_tables_ok s \<and>
     (\<forall>g \<in> set (sv_waiting s). waiting_ok (sv_heap s) (sv_keys s) g) \<and>
     (\<forall>g \<in> set (sv_running s). placed_weak {PREFILL, DECODE} (sv_heap s) (sv_keys s) g) \<and>
     (\<forall>g \<in> set (sv_swapped s). placed_weak {SWAPPED} (sv_heap s) (sv_keys s) g)"

lemma placed_ok_weak: "placed_ok A h K g \<Longrightarrow> placed_weak A h K g"
  by (simp add: placed_ok_def placed_weak_def)

lemma sv_ok_weak: "sv_ok E s \<Longrightarrow> sv_weak E s"
  by (auto simp: sv_ok_def sv_weak_def sv_places_ok_def intro: placed_ok_weak)

text \<open>
  One sequence moves on: it stays as it is, enters decoding, or finishes and
  gives up its block table.
\<close>

definition moves_on :: "sequence_status \<Rightarrow> bool \<Rightarrow> sequence_status \<Rightarrow> bool \<Rightarrow> bool" where
  "moves_on st k st' k' \<longleftrightarrow>
     st' = st \<and> k' = k \<or> st = PREFILL \<and> st' = DECODE \<and> k' = k \<or>
     st' = FINISHED \<and> \<not> k' \<and> st \<noteq> WAITING \<or> st' = st \<and> \<not> k' \<and> \<not> active st"

lemma weak_step:
  assumes ok: "sv_weak E s"
    and s': "s' = s\<lparr>sv_kv := kv, sv_heap := (sv_heap s)(i := (sv_heap s i)\<lparr>seq_status := st\<rparr>)\<rparr>"
    and kv: "pk_ok E kv" "kv_keys kv \<subseteq> sv_keys s" "\<And>j. j \<noteq> i \<Longrightarrow> j \<in> kv_keys kv \<longleftrightarrow> j \<in> sv_keys s"
    and m: "moves_on (sv_status s i) (i \<in> sv_keys s) st (i \<in> kv_keys kv)"
  shows "sv_weak E s'"
proof -
  have h: "seq_status (sv_heap s' j) = (if j = i then st else seq_status (sv_heap s j))"
      "j \<in> sv_keys s' \<longleftrightarrow> (if j = i then i \<in> kv_keys kv else j \<in> sv_keys s)" for j
    using kv(3) by (auto simp: s' sv_keys_def)
  have q: "sv_waiting s' = sv_waiting s" "sv_running s' = sv_running s" "sv_swapped s' = sv_swapped s"
      "sv_queues s' = sv_queues s" "sv_kv s' = kv" by (simp_all add: s' sv_queues_def)
  have "waiting_ok (sv_heap s') (sv_keys s') g" if "g \<in> set (sv_waiting s)" for g
    using ok that m by (auto simp: sv_weak_def waiting_ok_def h moves_on_def sv_status_def split: if_splits)
  moreover have "placed_weak {PREFILL, DECODE} (sv_heap s') (sv_keys s') g" if "g \<in> set (sv_running s)" for g
  proof -
    have "placed_weak {PREFILL, DECODE} (sv_heap s) (sv_keys s) g" using ok that by (simp add: sv_weak_def)
    with m show ?thesis by (auto simp: placed_weak_def h moves_on_def sv_status_def)
  qed
  moreover have "placed_weak {SWAPPED} (sv_heap s') (sv_keys s') g" if "g \<in> set (sv_swapped s)" for g
  proof -
    have "placed_weak {SWAPPED} (sv_heap s) (sv_keys s) g" using ok that by (simp add: sv_weak_def)
    with m show ?thesis by (auto simp: placed_weak_def h moves_on_def sv_status_def)
  qed
  moreover have "sv_tables_ok s'"
  proof -
    have t: "sv_tables_ok s" using ok by (simp add: sv_weak_def)
    then have "kv_keys kv \<subseteq> set (concat (map sequence_ids (sv_queues s)))"
      using kv(2) unfolding sv_tables_ok_def by blast
    with t show ?thesis unfolding sv_tables_ok_def q(4) by (simp add: s' sv_keys_def)
  qed
  ultimately show ?thesis using kv(1) by (simp add: sv_weak_def q)
qed

section \<open>The update after a step\<close>

text \<open>What the calls of an update keep of the objects and the tables.\<close>

definition upd_frame :: "'d serving_scheduler \<Rightarrow> 'd serving_scheduler \<Rightarrow> bool" where
  "upd_frame s s' \<longleftrightarrow>
     sv_max_batch_size s' = sv_max_batch_size s \<and> sv_max_tokens_per_step s' = sv_max_tokens_per_step s \<and>
     sv_sequence_map s' = sv_sequence_map s \<and> sv_request_map s' = sv_request_map s \<and>
     (\<forall>i. sv_heap s' i = (sv_heap s i)\<lparr>seq_status := seq_status (sv_heap s' i)\<rparr>)"

lemma upd_frame_refl [simp]: "upd_frame s s"
  by (simp add: upd_frame_def)

lemma upd_frame_trans:
  assumes "upd_frame s s1" and "upd_frame s1 s2"
  shows "upd_frame s s2"
proof -
  have "sv_heap s2 i = (sv_heap s i)\<lparr>seq_status := seq_status (sv_heap s2 i)\<rparr>" for i
  proof -
    have 1: "sv_heap s1 i = (sv_heap s i)\<lparr>seq_status := seq_status (sv_heap s1 i)\<rparr>"
      and 2: "sv_heap s2 i = (sv_heap s1 i)\<lparr>seq_status := seq_status (sv_heap s2 i)\<rparr>"
      using assms unfolding upd_frame_def by blast+
    show ?thesis by (subst 2, subst 1) simp
  qed
  with assms show ?thesis unfolding upd_frame_def by simp
qed

lemma append_tokens_errors:
  assumes "pk_ok E c" and "pk_append_tokens i 1 c = (r, c')"
  shows "r = Inr () \<or> r = Inl KeyError \<or> r = Inl RuntimeError"
proof (cases "map_of (pk_tables c) i")
  case None
  with assms(2) show ?thesis by (simp add: pk_append_tokens_def)
next
  case (Some t)
  have od: "od_ok (pk_tables c)" using assms(1) by (simp add: pk_ok_def)
  have "ba_own (pk_alloc c) (mset (bt_ids t) + (held (AList.delete i (pk_tables c)) + E))"
    using assms(1) held_delete [OF od Some] by (simp add: pk_ok_def ac_simps)
  then show ?thesis
    by (cases rule: append_token_cases) (use assms(2) Some in \<open>auto simp: pk_append_tokens_def andthen_def\<close>)
qed

lemma advance_spec:
  assumes ok: "sv_weak E s" and r: "advance_sequence completed i s = (r, s')"
  shows "sv_weak E s' \<and> upd_frame s s' \<and> (r = Inr () \<or> r = Inl RuntimeError) \<and>
    (\<forall>j. sv_status s' j = (if j = i \<and> j \<in> sv_sequence_map s \<and> j \<notin> set completed \<and> sv_status s j = PREFILL
       then DECODE else sv_status s j))"
proof (cases "i \<in> sv_sequence_map s \<and> i \<notin> set completed \<and> sv_status s i \<in> {PREFILL, DECODE}")
  case False
  then have "r = Inr ()" "s' = s" "\<not> (i \<in> sv_sequence_map s \<and> i \<notin> set completed \<and> sv_status s i = PREFILL)"
    using r by (auto simp: advance_sequence_def split: if_splits)
  with ok show ?thesis by auto
next
  case True
  let ?s1 = "s\<lparr>sv_heap := (sv_heap s)(i := (sv_heap s i)\<lparr>seq_status := DECODE\<rparr>)\<rparr>"
  have "(if sv_status s i = PREFILL then sv_set_status DECODE i s else (Inr (), s)) = (Inr (), ?s1)"
  proof (cases "sv_status s i = PREFILL")
    case False
    with True have "sv_heap s i = (sv_heap s i)\<lparr>seq_status := DECODE\<rparr>" by (simp add: sv_status_def)
    with False show ?thesis by (metis fun_upd_triv serving_scheduler.surjective serving_scheduler.update_convs(9))
  next
    case True
    then show ?thesis by (simp add: sv_set_status_def sv_status_def set_status_ok)
  qed
  then have a: "advance_sequence completed i s = ignore_KeyError (with_kv (pk_append_tokens i 1) ?s1)"
    using True by (simp add: advance_sequence_def sv_status_def)
  obtain r1 kv where k: "pk_append_tokens i 1 (sv_kv s) = (r1, kv)" by fastforce
  have okk: "pk_ok E (sv_kv s)" using ok by (simp add: sv_weak_def)
  note f = pk_append_frame [OF k] and o = append_tokens_ok [OF okk k] and e = append_tokens_errors [OF okk k]
  have s': "s' = s\<lparr>sv_kv := kv, sv_heap := (sv_heap s)(i := (sv_heap s i)\<lparr>seq_status := DECODE\<rparr>)\<rparr>"
    and r': "r = Inr () \<or> r = Inl RuntimeError"
    using r e unfolding a by (auto simp: with_kv_def k ignore_KeyError_def)
  have "sv_weak E s'"
    by (rule weak_step [OF ok s' o]) (use f True in \<open>auto simp: sv_keys_def moves_on_def\<close>)
  with r' True show ?thesis by (auto simp: s' upd_frame_def sv_status_def)
qed


lemma complete_spec:
  assumes ok: "sv_weak E s" and nw: "i \<in> sv_sequence_map s \<Longrightarrow> sv_status s i \<noteq> WAITING"
  shows "\<exists>s'. complete_sequence i s = (Inr (), s') \<and> sv_weak E s' \<and> upd_frame s s' \<and>
    (\<forall>j. sv_status s' j = (if j = i \<and> j \<in> sv_sequence_map s \<and> active (sv_status s j) then FINISHED else sv_status s j)) \<and>
    (i \<in> sv_sequence_map s \<longrightarrow> i \<notin> sv_keys s')"
proof (cases "i \<in> sv_sequence_map s")
  case False
  with ok show ?thesis by (auto simp: complete_sequence_def)
next
  case True
  define st where "st = (if active (sv_status s i) then FINISHED else sv_status s i)"
  have st: "sv_status s i \<in> {WAITING, PREFILL, DECODE, SWAPPED} \<longleftrightarrow> active (sv_status s i)"
    by (cases "sv_status s i") auto
  let ?s1 = "s\<lparr>sv_heap := (sv_heap s)(i := (sv_heap s i)\<lparr>seq_status := st\<rparr>)\<rparr>"
  have s1: "(if active (sv_status s i) then sv_set_status FINISHED i s else (Inr (), s)) = (Inr (), ?s1)"
  proof (cases "active (sv_status s i)")
    case act: True
    with nw [OF True] have "FINISHED \<in> set (seq_transitions (seq_status (sv_heap s i)))"
      by (cases "seq_status (sv_heap s i)") (auto simp: sv_status_def)
    with act show ?thesis by (simp add: sv_set_status_def set_status_ok st_def)
  next
    case False
    then have "sv_heap s i = (sv_heap s i)\<lparr>seq_status := st\<rparr>" by (simp add: st_def sv_status_def)
    with False show ?thesis by (metis fun_upd_triv serving_scheduler.surjective serving_scheduler.update_convs(9))
  qed
  from ok have okk: "pk_ok E (sv_kv s)" by (simp add: sv_weak_def)
  from free_sequence_ok [OF this, of i] obtain kv where
    k: "pk_free_sequence i (sv_kv s) = (Inr (), kv)" "pk_ok E kv" "pk_tables kv = AList.delete i (pk_tables (sv_kv s))"
    by blast
  let ?s' = "s\<lparr>sv_kv := kv, sv_heap := (sv_heap s)(i := (sv_heap s i)\<lparr>seq_status := st\<rparr>)\<rparr>"
  have keys: "kv_keys kv = sv_keys s - {i}"
  proof -
    have "set (map fst (pk_tables kv)) = set (filter (\<lambda>x. x \<noteq> i) (map fst (pk_tables (sv_kv s))))"
      unfolding k(3) keys_delete ..
    then show ?thesis by (auto simp: sv_keys_def simp flip: set_map)
  qed
  have e: "complete_sequence i s = (Inr (), ?s')"
    using True k(1) s1 unfolding complete_sequence_def st by (simp add: with_kv_def)
  have "moves_on (sv_status s i) (i \<in> sv_keys s) st (i \<in> kv_keys kv)"
    using nw [OF True] by (auto simp: moves_on_def st_def keys)
  then have "sv_weak E ?s'"
    by (intro weak_step [OF ok refl k(2)]) (auto simp: keys)
  with e True show ?thesis by (auto simp: upd_frame_def sv_status_def st_def sv_keys_def keys)
qed


section \<open>Pruning\<close>

lemma drop_fields [simp]:
  "sv_kv (drop_request_metadata g s) = sv_kv s"
  "sv_max_batch_size (drop_request_metadata g s) = sv_max_batch_size s"
  "sv_max_tokens_per_step (drop_request_metadata g s) = sv_max_tokens_per_step s"
  "sv_waiting (drop_request_metadata g s) = sv_waiting s"
  "sv_running (drop_request_metadata g s) = sv_running s"
  "sv_swapped (drop_request_metadata g s) = sv_swapped s"
  "sv_sequence_map (drop_request_metadata g s) = sv_sequence_map s - set (sequence_ids g)"
  "sv_request_map (drop_request_metadata g s) = AList.delete (request_id g) (sv_request_map s)"
  "sv_heap (drop_request_metadata g s) = sv_heap s"
  by (simp_all add: drop_request_metadata_def)

lemma fold_drop [simp]:
  "sv_kv (fold drop_request_metadata gs s) = sv_kv s"
  "sv_max_batch_size (fold drop_request_metadata gs s) = sv_max_batch_size s"
  "sv_max_tokens_per_step (fold drop_request_metadata gs s) = sv_max_tokens_per_step s"
  "sv_waiting (fold drop_request_metadata gs s) = sv_waiting s"
  "sv_running (fold drop_request_metadata gs s) = sv_running s"
  "sv_swapped (fold drop_request_metadata gs s) = sv_swapped s"
  "sv_sequence_map (fold drop_request_metadata gs s) = sv_sequence_map s - set (concat (map sequence_ids gs))"
  "sv_heap (fold drop_request_metadata gs s) = sv_heap s"
  by (induction gs arbitrary: s) auto

lemma request_groups:
  assumes "sv_tables_ok s"
  shows "set (sv_queues s) = snd ` set (sv_request_map s)"
    and "map (\<lambda>g. (request_id g, g)) (map snd (sv_request_map s)) = sv_request_map s"
proof -
  have "mset (sv_queues s) = mset (map snd (sv_request_map s))" using assms by (simp add: sv_tables_ok_def)
  then show "set (sv_queues s) = snd ` set (sv_request_map s)" by (metis mset_eq_setD set_map)
  show "map (\<lambda>g. (request_id g, g)) (map snd (sv_request_map s)) = sv_request_map s"
    using assms by (simp add: sv_tables_ok_def comp_def map_idI prod_eq_iff)
qed

lemma active_requests_eq:
  assumes "sv_tables_ok s"
  shows "map (\<lambda>g. (request_id g, g)) (filter P (map snd (sv_request_map s))) = filter (P \<circ> snd) (sv_request_map s)"
proof -
  have "filter (P \<circ> snd) (map (\<lambda>g. (request_id g, g)) gs) = map (\<lambda>g. (request_id g, g)) (filter P gs)" for gs
    by (induction gs) auto
  from this [of "map snd (sv_request_map s)"] show ?thesis unfolding request_groups(2) [OF assms] ..
qed

lemma active_request_iff:
  assumes t: "sv_tables_ok s" and g: "g \<in> set (sv_queues s)"
  shows "od_mem (request_id g) (filter (P \<circ> snd) (sv_request_map s)) \<longleftrightarrow> P g"
proof -
  have od: "od_ok (sv_request_map s)" and rid: "\<And>p. p \<in> set (sv_request_map s) \<Longrightarrow> request_id (snd p) = fst p"
    using t by (auto simp: sv_tables_ok_def)
  from g obtain p where p: "p \<in> set (sv_request_map s)" "snd p = g" by (auto simp: request_groups(1) [OF t])
  have uniq: "q = p" if "q \<in> set (sv_request_map s)" "fst q = request_id g" for q
  proof -
    have "fst q = fst p" using rid [OF p(1)] p(2) that(2) by simp
    with od that(1) p(1) show ?thesis by (metis distinct_map inj_onD)
  qed
  show ?thesis
  proof
    assume "od_mem (request_id g) (filter (P \<circ> snd) (sv_request_map s))"
    then obtain q where "q \<in> set (sv_request_map s)" "P (snd q)" "fst q = request_id g"
      by (auto simp: od_mem_iff)
    with uniq p(2) show "P g" by blast
  next
    assume "P g"
    with p rid [OF p(1)] show "od_mem (request_id g) (filter (P \<circ> snd) (sv_request_map s))"
      by (auto simp: od_mem_iff intro!: image_eqI [of _ fst p])
  qed
qed

lemma prune_eq:
  assumes t: "sv_tables_ok s"
  shows "prune_requests s =
    s\<lparr>sv_request_map := filter (has_active s \<circ> snd) (sv_request_map s),
      sv_sequence_map := sv_sequence_map s -
        set (concat (map sequence_ids (filter (\<lambda>g. \<not> has_active s g) (map snd (sv_request_map s))))),
      sv_waiting := filter (has_active s) (sv_waiting s), sv_running := filter (has_active s) (sv_running s),
      sv_swapped := filter (has_active s) (sv_swapped s)\<rparr>"
proof -
  have f: "filter (\<lambda>g. od_mem (request_id g) (filter (has_active s \<circ> snd) (sv_request_map s))) xs = filter (has_active s) xs"
    if "set xs \<subseteq> set (sv_queues s)" for xs
    using that active_request_iff [OF t, of _ "has_active s"] by (intro filter_cong) auto
  have sub: "set (sv_waiting s) \<subseteq> set (sv_queues s)" "set (sv_running s) \<subseteq> set (sv_queues s)"
      "set (sv_swapped s) \<subseteq> set (sv_queues s)" by (auto simp: sv_queues_def)
  show ?thesis
    unfolding prune_requests_def Let_def active_requests_eq [OF t]
    by (rule serving_scheduler.equality) (simp_all add: f sub)
qed

lemma has_active_simps:
  "sv_heap s' = sv_heap s \<Longrightarrow> has_active s' = has_active s"
  by (simp add: has_active_def fun_eq_iff sv_status_def)

lemma active_placed:
  "placed_weak A h K g \<Longrightarrow> h = sv_heap s \<Longrightarrow> has_active s g \<Longrightarrow> placed_ok A h K g"
  by (auto simp: placed_weak_def placed_ok_def has_active_def sv_status_def)

lemma distinct_concat_filter: "distinct (concat (map f xs)) \<Longrightarrow> distinct (concat (map f (filter P xs)))"
  by (induction xs) auto

lemma prune_spec:
  assumes ok: "sv_weak E s"
  shows "sv_ok E (prune_requests s)"
proof -
  have t: "sv_tables_ok s" and kv: "pk_ok E (sv_kv s)" using ok by (simp_all add: sv_weak_def)
  note eq = prune_eq [OF t]
  let ?s = "prune_requests s" and ?in = "filter (\<lambda>g. \<not> has_active s g) (map snd (sv_request_map s))"
  have q: "sv_queues ?s = filter (has_active s) (sv_queues s)" by (simp add: eq sv_queues_def)
  have h: "sv_heap ?s = sv_heap s" "sv_keys ?s = sv_keys s" "sv_kv ?s = sv_kv s" by (simp_all add: eq sv_keys_def)
  have di: "distinct (concat (map sequence_ids (sv_queues s)))" using t by (simp add: sv_tables_ok_def)
  have inq: "g \<in> set (sv_queues s)" if "g \<in> set ?in" for g using that by (auto simp: request_groups(1) [OF t])
  have nokey: "i \<notin> sv_keys s" if "g \<in> set ?in" "i \<in> set (sequence_ids g)" for g i
  proof -
    have "\<not> active (sv_status s i)" using that by (auto simp: has_active_def active_def)
    then have "seq_status (sv_heap s i) \<in> {FINISHED, CANCELLED}" by (simp add: active_def sv_status_def)
    with inq [OF that(1)] that(2) ok show ?thesis
      by (fastforce simp: sv_queues_def sv_weak_def waiting_ok_def placed_weak_def)
  qed
  have "sv_tables_ok ?s"
    unfolding sv_tables_ok_def q
  proof (intro conjI)
    show "0 < sv_max_batch_size ?s" "0 < sv_max_tokens_per_step ?s" "od_ok (sv_request_map ?s)"
      "\<forall>p \<in> set (sv_request_map ?s). request_id (snd p) = fst p"
      using t by (auto simp: eq sv_tables_ok_def intro: distinct_map_filter)
    have "mset (filter (has_active s) (sv_queues s)) = mset (filter (has_active s) (map snd (sv_request_map s)))"
      using t unfolding sv_tables_ok_def mset_filter by simp
    then show "mset (filter (has_active s) (sv_queues s)) = mset (map snd (sv_request_map ?s))"
      by (simp add: eq filter_map)
    show "distinct (concat (map sequence_ids (filter (has_active s) (sv_queues s))))"
      using di by (rule distinct_concat_filter)
    show "set (concat (map sequence_ids (filter (has_active s) (sv_queues s)))) \<subseteq> sv_sequence_map ?s"
    proof
      fix i assume "i \<in> set (concat (map sequence_ids (filter (has_active s) (sv_queues s))))"
      then obtain g where g: "g \<in> set (sv_queues s)" "has_active s g" "i \<in> set (sequence_ids g)" by auto
      have "i \<notin> set (sequence_ids g')" if "g' \<in> set ?in" for g'
        using concat_disjoint [OF di g(1) inq [OF that]] g(2,3) that by auto
      moreover have "i \<in> sv_sequence_map s" using t g by (auto simp: sv_tables_ok_def)
      ultimately show "i \<in> sv_sequence_map ?s" by (auto simp: eq)
    qed
    show "sv_keys ?s \<subseteq> set (concat (map sequence_ids (filter (has_active s) (sv_queues s))))"
    proof
      fix i assume i: "i \<in> sv_keys ?s"
      then have "i \<in> sv_keys s" by (simp add: h)
      from sv_keys_queued [OF t this] obtain g where g: "g \<in> set (sv_queues s)" "i \<in> set (sequence_ids g)" .
      moreover from this i nokey [of g i] have "has_active s g" unfolding h by (auto simp: request_groups(1) [OF t])
      ultimately show "i \<in> set (concat (map sequence_ids (filter (has_active s) (sv_queues s))))" by auto
    qed
  qed
  moreover have "sv_places_ok ?s"
    using ok active_placed [of _ "sv_heap s" "sv_keys s" _ s] unfolding sv_places_ok_def h
    by (auto simp: eq sv_weak_def)
  ultimately show ?thesis using kv by (simp add: sv_ok_def h)
qed


section \<open>The operations keep the invariant\<close>

lemma update_loops:
  assumes "sv_weak E s" and "for_each (advance_sequence completed) xs s = (r, s')"
  shows "sv_weak E s' \<and> upd_frame s s' \<and> (r = Inr () \<or> r = Inl RuntimeError) \<and>
    (\<forall>j. sv_status s' j = sv_status s j \<or> sv_status s j = PREFILL \<and> sv_status s' j = DECODE)"
  using assms
proof (induction xs arbitrary: s)
  case Nil
  then show ?case by auto
next
  case (Cons i xs)
  obtain r1 s1 where a: "advance_sequence completed i s = (r1, s1)" by fastforce
  note sp = advance_spec [OF Cons.prems(1) a]
  show ?case
  proof (cases r1)
    case (Inl e)
    with Cons.prems(2) a sp show ?thesis by auto
  next
    case (Inr u)
    with Cons.prems(2) a have "for_each (advance_sequence completed) xs s1 = (r, s')" by simp
    with Cons.IH [of s1] sp have "sv_weak E s' \<and> upd_frame s1 s' \<and> (r = Inr () \<or> r = Inl RuntimeError) \<and>
        (\<forall>j. sv_status s' j = sv_status s1 j \<or> sv_status s1 j = PREFILL \<and> sv_status s' j = DECODE)" by blast
    moreover have "sv_status s1 j = sv_status s j \<or> sv_status s j = PREFILL \<and> sv_status s1 j = DECODE" for j
      using sp by auto
    ultimately show ?thesis using sp upd_frame_trans by (metis sequence_status.distinct)
  qed
qed

lemma complete_loop:
  assumes "sv_weak E s" and "\<And>i. i \<in> set xs \<Longrightarrow> i \<in> sv_sequence_map s \<Longrightarrow> sv_status s i \<noteq> WAITING"
  shows "\<exists>s'. for_each complete_sequence xs s = (Inr (), s') \<and> sv_weak E s' \<and> upd_frame s s' \<and>
    (\<forall>j. sv_status s' j = (if j \<in> set xs \<and> j \<in> sv_sequence_map s \<and> active (sv_status s j) then FINISHED else sv_status s j))"
  using assms
proof (induction xs arbitrary: s)
  case Nil
  then show ?case by simp
next
  case (Cons i xs)
  from complete_spec [OF Cons.prems(1), of i] Cons.prems(2) obtain s1 where
    s1: "complete_sequence i s = (Inr (), s1)" "sv_weak E s1" "upd_frame s s1"
      "\<And>j. sv_status s1 j = (if j = i \<and> j \<in> sv_sequence_map s \<and> active (sv_status s j) then FINISHED else sv_status s j)"
    by auto
  have m: "sv_sequence_map s1 = sv_sequence_map s" using s1(3) by (simp add: upd_frame_def)
  have "sv_status s1 j \<noteq> WAITING" if "j \<in> set xs" "j \<in> sv_sequence_map s1" for j
    using Cons.prems(2) [of j] that s1(4) [of j] by (auto simp: m)
  from Cons.IH [OF s1(2) this] obtain s' where
    s': "for_each complete_sequence xs s1 = (Inr (), s')" "sv_weak E s'" "upd_frame s1 s'"
      "\<And>j. sv_status s' j = (if j \<in> set xs \<and> j \<in> sv_sequence_map s1 \<and> active (sv_status s1 j) then FINISHED else sv_status s1 j)"
    by blast
  have "sv_status s' j = (if j \<in> set (i # xs) \<and> j \<in> sv_sequence_map s \<and> active (sv_status s j) then FINISHED else sv_status s j)" for j
    using s'(4) [of j] s1(4) [of j] by (auto simp: m)
  with s1 s' upd_frame_trans show ?case by auto
qed

text \<open>
  An update over sequences that were scheduled, hence are not waiting, either
  ends normally or is left by the allocator's \<^verbatim>\<open>RuntimeError\<close>.
\<close>

lemma set_first_occurrences [simp]: "set (first_occurrences xs) = set xs"
  by (simp add: first_occurrences_def)

lemma update_spec:
  assumes ok: "sv_ok E s" and nw: "\<And>i. i \<in> set completed \<Longrightarrow> i \<in> sv_sequence_map s \<Longrightarrow> sv_status s i \<noteq> WAITING"
    and r: "update_after_step completed new s = (r, s')"
  shows "r = Inl RuntimeError \<and> sv_weak E s' \<or> r = Inr () \<and> sv_ok E s' \<and>
    (\<forall>i. sv_heap s' i = (sv_heap s i)\<lparr>seq_status := sv_status s' i\<rparr>) \<and>
    (\<forall>i. sv_status s' i = FINISHED \<longleftrightarrow> sv_status s i = FINISHED \<or>
          i \<in> set completed \<and> i \<in> sv_sequence_map s \<and> active (sv_status s i)) \<and>
    (\<forall>i. sv_status s' i = CANCELLED \<longleftrightarrow> sv_status s i = CANCELLED)"
proof -
  obtain r1 s1 where a: "for_each (advance_sequence completed) (first_occurrences new) s = (r1, s1)" by fastforce
  note u = update_loops [OF sv_ok_weak [OF ok] a]
  show ?thesis
  proof (cases r1)
    case (Inl e)
    with u r a show ?thesis by (auto simp: update_after_step_def)
  next
    case (Inr v)
    have m: "sv_sequence_map s1 = sv_sequence_map s" using u by (simp add: upd_frame_def)
    have "sv_status s1 i \<noteq> WAITING" if "i \<in> set (first_occurrences completed)" "i \<in> sv_sequence_map s1" for i
      using nw [of i] that u by (metis m set_first_occurrences sequence_status.distinct(3))
    from complete_loop [OF conjunct1 [OF u], of "first_occurrences completed"] this obtain s2 where
      s2: "for_each complete_sequence (first_occurrences completed) s1 = (Inr (), s2)" "sv_weak E s2" "upd_frame s1 s2"
        "\<And>j. sv_status s2 j = (if j \<in> set completed \<and> j \<in> sv_sequence_map s1 \<and> active (sv_status s1 j) then FINISHED else sv_status s1 j)"
      by auto
    have t2: "sv_tables_ok s2" using s2(2) by (simp add: sv_weak_def)
    have s': "r = Inr ()" "s' = prune_requests s2" using r a Inr s2(1) by (auto simp: update_after_step_def)
    have h: "sv_heap s' = sv_heap s2" by (simp add: s' prune_eq [OF t2])
    then have st: "sv_status s' = sv_status s2" by (simp add: fun_eq_iff sv_status_def)
    have u1: "upd_frame s s2" using u s2(3) upd_frame_trans by blast
    have j1: "sv_status s1 j = sv_status s j \<or> sv_status s j = PREFILL \<and> sv_status s1 j = DECODE" for j
      using u by blast
    have "sv_heap s' i = (sv_heap s i)\<lparr>seq_status := sv_status s' i\<rparr>" for i
      using u1 unfolding upd_frame_def h st sv_status_def by blast
    moreover have "sv_status s' i = FINISHED \<longleftrightarrow> sv_status s i = FINISHED \<or>
        i \<in> set completed \<and> i \<in> sv_sequence_map s \<and> active (sv_status s i)" for i
      using s2(4) [of i] j1 [of i] unfolding st m by auto
    moreover have "sv_status s' i = CANCELLED \<longleftrightarrow> sv_status s i = CANCELLED" for i
      using s2(4) [of i] j1 [of i] unfolding st m by auto
    ultimately show ?thesis using s'(1) prune_spec [OF s2(2)] s'(2) by blast
  qed
qed


lemma free_sequence_keys:
  assumes "pk_ok E c"
  shows "\<exists>c'. pk_free_sequence i c = (Inr (), c') \<and> pk_ok E c' \<and> kv_keys c' = kv_keys c - {i}"
proof -
  from free_sequence_ok [OF assms, of i] obtain c' where
    c: "pk_free_sequence i c = (Inr (), c')" "pk_ok E c'" "pk_tables c' = AList.delete i (pk_tables c)" by blast
  have "set (map fst (pk_tables c')) = set (filter (\<lambda>x. x \<noteq> i) (map fst (pk_tables c)))"
    unfolding c(3) keys_delete ..
  then have "kv_keys c' = kv_keys c - {i}" by (auto simp flip: set_map)
  with c show ?thesis by blast
qed

lemma cancel_loop:
  assumes "pk_ok E (sv_kv s)"
  shows "\<exists>kv. for_each cancel_sequence ids s =
      (Inr (), s\<lparr>sv_kv := kv, sv_heap := mark CANCELLED {i \<in> set ids. active (sv_status s i)} (sv_heap s)\<rparr>) \<and>
    pk_ok E kv \<and> kv_keys kv = sv_keys s - set ids"
  using assms
proof (induction ids arbitrary: s)
  case Nil
  then show ?case by (auto simp: sv_keys_def intro!: exI [of _ "sv_kv s"])
next
  case (Cons i ids)
  from free_sequence_keys [OF Cons.prems, of i] obtain kv where
    k: "pk_free_sequence i (sv_kv s) = (Inr (), kv)" "pk_ok E kv" "kv_keys kv = sv_keys s - {i}"
    by (auto simp: sv_keys_def)
  let ?X = "{j. j = i \<and> active (sv_status s i)}"
  let ?s1 = "s\<lparr>sv_kv := kv, sv_heap := mark CANCELLED ?X (sv_heap s)\<rparr>"
  have "cancel_sequence i s = (Inr (), ?s1)"
  proof (cases "active (sv_status s i)")
    case True
    then have "CANCELLED \<in> set (seq_transitions (sv_status s i))"
      by (cases "sv_status s i") simp_all
    with True k(1) show ?thesis
      by (simp add: cancel_sequence_def sv_set_status_ok with_kv_def active_def)
  next
    case False
    then have "?X = {}" and "sv_status s i \<in> {FINISHED, CANCELLED}" by (auto simp: active_def)
    with k(1) show ?thesis by (simp add: cancel_sequence_def with_kv_def)
  qed
  moreover from Cons.IH [of ?s1] k(2) obtain kv2 where
    k2: "for_each cancel_sequence ids ?s1 =
        (Inr (), ?s1\<lparr>sv_kv := kv2, sv_heap := mark CANCELLED {j \<in> set ids. active (sv_status ?s1 j)} (sv_heap ?s1)\<rparr>)"
      "pk_ok E kv2" "kv_keys kv2 = sv_keys ?s1 - set ids" by auto
  moreover have "mark CANCELLED {j \<in> set ids. active (sv_status ?s1 j)} (mark CANCELLED ?X (sv_heap s)) =
      mark CANCELLED {j \<in> set (i # ids). active (sv_status s j)} (sv_heap s)"
    unfolding mark_mark by (rule arg_cong [where f = "\<lambda>X. mark CANCELLED X _"]) (auto simp: sv_status_def)
  ultimately show ?case using k(3) by (intro exI [of _ kv2]) (auto simp: sv_keys_def)
qed

lemma abort_spec:
  assumes ok: "sv_ok E s"
  shows "\<exists>s'. sv_abort_request rid s = (Inr (), s') \<and> sv_ok E s' \<and> map_of (sv_request_map s') rid = None \<and>
    (\<forall>g. map_of (sv_request_map s) rid = Some g \<longrightarrow> sv_keys s' = sv_keys s - set (sequence_ids g))"
proof (cases "map_of (sv_request_map s) rid")
  case None
  with ok show ?thesis by (simp add: sv_abort_request_def)
next
  case (Some g)
  have t: "sv_tables_ok s" and kv: "pk_ok E (sv_kv s)" and p: "sv_places_ok s" using ok by (simp_all add: sv_ok_def)
  from Some have gm: "(rid, g) \<in> set (sv_request_map s)" by (rule map_of_SomeD)
  then have rg: "request_id g = rid" using t by (auto simp: sv_tables_ok_def)
  have gq: "g \<in> set (sv_queues s)" using gm by (auto simp: request_groups(1) [OF t] intro!: image_eqI [of _ _ "(rid, g)"])
  from cancel_loop [OF kv, of "sequence_ids g"] obtain kv1 where
    c: "for_each cancel_sequence (sequence_ids g) s = (Inr (), s\<lparr>sv_kv := kv1,
          sv_heap := mark CANCELLED {i \<in> set (sequence_ids g). active (sv_status s i)} (sv_heap s)\<rparr>)"
      "pk_ok E kv1" "kv_keys kv1 = sv_keys s - set (sequence_ids g)" by blast
  let ?h = "mark CANCELLED {i \<in> set (sequence_ids g). active (sv_status s i)} (sv_heap s)"
  let ?keep = "filter (\<lambda>q. request_id q \<noteq> rid)"
  define s2 where "s2 = drop_request_metadata g (s\<lparr>sv_kv := kv1, sv_heap := ?h,
      sv_waiting := ?keep (sv_waiting s), sv_running := ?keep (sv_running s), sv_swapped := ?keep (sv_swapped s)\<rparr>)"
  have di: "distinct (concat (map sequence_ids (sv_queues s)))" using t by (simp add: sv_tables_ok_def)
  have uq: "x = g" if "x \<in> set (sv_queues s)" "request_id x = rid" for x
    using active_request_iff [OF t that(1), of "\<lambda>y. y = g"] active_request_iff [OF t gq, of "\<lambda>y. y = g"] that(2) rg by simp
  have out: "i \<notin> set (sequence_ids g)" if "x \<in> set (sv_queues s)" "request_id x \<noteq> rid" "i \<in> set (sequence_ids x)" for x i
    using concat_disjoint [OF di that(1) gq] that(2,3) rg by auto
  have q2: "sv_queues s2 = ?keep (sv_queues s)" by (simp add: s2_def sv_queues_def)
  have k2: "sv_keys s2 = sv_keys s - set (sequence_ids g)" "sv_heap s2 = ?h" "sv_kv s2 = kv1"
    using c(3) by (simp_all add: s2_def sv_keys_def)
  have del: "AList.delete rid (sv_request_map s) = filter ((\<lambda>y. request_id y \<noteq> rid) \<circ> snd) (sv_request_map s)"
    using t unfolding delete_eq_filter by (intro filter_cong) (auto simp: sv_tables_ok_def)
  have "sv_tables_ok s2"
    unfolding sv_tables_ok_def q2
  proof (intro conjI)
    show "0 < sv_max_batch_size s2" "0 < sv_max_tokens_per_step s2" "od_ok (sv_request_map s2)"
      "\<forall>p \<in> set (sv_request_map s2). request_id (snd p) = fst p"
      using t by (auto simp: s2_def sv_tables_ok_def rg delete_eq_filter intro: distinct_map_filter)
    have "mset (?keep (sv_queues s)) = mset (?keep (map snd (sv_request_map s)))"
      using t unfolding sv_tables_ok_def mset_filter by simp
    then show "mset (?keep (sv_queues s)) = mset (map snd (sv_request_map s2))"
      by (simp add: s2_def rg del filter_map)
    show "distinct (concat (map sequence_ids (?keep (sv_queues s))))" using di by (rule distinct_concat_filter)
    show "set (concat (map sequence_ids (?keep (sv_queues s)))) \<subseteq> sv_sequence_map s2"
      using t out by (fastforce simp: s2_def sv_tables_ok_def)
    show "sv_keys s2 \<subseteq> set (concat (map sequence_ids (?keep (sv_queues s))))"
    proof
      fix i assume i: "i \<in> sv_keys s2"
      then have ik: "i \<in> sv_keys s" "i \<notin> set (sequence_ids g)" by (simp_all add: k2)
      from sv_keys_queued [OF t ik(1)] obtain x where x: "x \<in> set (sv_queues s)" "i \<in> set (sequence_ids x)" .
      note x = x ik(2)
      with uq [of x] have "request_id x \<noteq> rid" by auto
      with x show "i \<in> set (concat (map sequence_ids (?keep (sv_queues s))))" by auto
    qed
  qed
  moreover have "waiting_ok ?h (sv_keys s2) x" if "x \<in> set (sv_waiting s2)" for x
  proof -
    from that have "x \<in> set (sv_waiting s)" "request_id x \<noteq> rid" by (auto simp: s2_def)
    moreover from this out [of x] have "waiting_ok ?h (sv_keys s2) x = waiting_ok (sv_heap s) (sv_keys s) x"
      by (intro waiting_ok_cong) (auto simp: k2 sv_queues_def)
    ultimately show ?thesis using p by (simp add: sv_places_ok_def)
  qed
  moreover have "placed_ok A ?h (sv_keys s2) x = placed_ok A (sv_heap s) (sv_keys s) x"
    if "x \<in> set (sv_queues s)" "request_id x \<noteq> rid" for x A
    using out [OF that] by (intro placed_ok_cong) (auto simp: k2)
  then have "\<forall>x \<in> set (sv_running s2). placed_weak {PREFILL, DECODE} ?h (sv_keys s2) x"
    "\<forall>x \<in> set (sv_swapped s2). placed_weak {SWAPPED} ?h (sv_keys s2) x"
    using p by (auto simp: s2_def sv_queues_def sv_places_ok_def intro!: placed_ok_weak)
  ultimately have w: "sv_weak E s2" using c(2) by (simp add: sv_weak_def k2)
  have e: "sv_abort_request rid s = (Inr (), prune_requests s2)"
    using Some c(1) by (simp add: sv_abort_request_def s2_def Let_def)
  have t2: "sv_tables_ok s2" using w by (simp add: sv_weak_def)
  have "map_of (sv_request_map (prune_requests s2)) rid = None"
    unfolding prune_eq [OF t2] by (auto simp: map_of_eq_None_iff s2_def rg del)
      (use t in \<open>auto simp: sv_tables_ok_def\<close>)
  moreover have "sv_keys (prune_requests s2) = sv_keys s - set (sequence_ids g)"
    using k2(1) unfolding prune_eq [OF t2] by (simp add: sv_keys_def)
  ultimately show ?thesis using e prune_spec [OF w] Some by auto
qed


lemma register_step:
  assumes ok: "sv_ok E s" and r: "register_sequence q s = (r, s')"
  shows "sv_ok E s' \<and> sv_queues s' = sv_queues s \<and> sv_waiting s' = sv_waiting s \<and> sv_running s' = sv_running s \<and>
    sv_swapped s' = sv_swapped s \<and> sv_request_map s' = sv_request_map s \<and> sv_kv s' = sv_kv s \<and>
    (r = Inr () \<and> seq_id q \<notin> sv_sequence_map s \<and> sv_sequence_map s' = insert (seq_id q) (sv_sequence_map s) \<and>
       sv_status s' (seq_id q) = WAITING \<and> (\<forall>j. j \<noteq> seq_id q \<longrightarrow> sv_heap s' j = sv_heap s j) \<or>
     r = Inl ValueError \<and> s' = s)"
proof (cases "seq_id q \<in> sv_sequence_map s \<or> seq_status q \<notin> {WAITING, SWAPPED}")
  case True
  then have "r = Inl ValueError \<and> s' = s"
    using r by (cases "seq_status q") (auto simp: register_sequence_def set_status_error split: if_splits)
  with ok show ?thesis by simp
next
  case False
  let ?q = "q\<lparr>seq_status := WAITING\<rparr>"
  have "(if seq_status q \<noteq> WAITING then set_status WAITING q else (Inr (), q)) = (Inr (), ?q)"
    using False by (auto simp: set_status_ok)
  then have s': "r = Inr ()" "s' = s\<lparr>sv_heap := (sv_heap s)(seq_id q := ?q),
      sv_sequence_map := insert (seq_id q) (sv_sequence_map s)\<rparr>"
    using r False by (auto simp: register_sequence_def)
  have t: "sv_tables_ok s" and p: "sv_places_ok s" using ok by (simp_all add: sv_ok_def)
  have qs: "sv_queues s' = sv_queues s" "sv_keys s' = sv_keys s" by (simp_all add: s' sv_queues_def sv_keys_def)
  have out: "seq_id q \<notin> set (sequence_ids g)" if "g \<in> set (sv_queues s)" for g
    using t that False by (auto simp: sv_tables_ok_def)
  have "waiting_ok (sv_heap s') (sv_keys s') g = waiting_ok (sv_heap s) (sv_keys s) g"
    "placed_ok A (sv_heap s') (sv_keys s') g = placed_ok A (sv_heap s) (sv_keys s) g"
    if "g \<in> set (sv_queues s)" for g A
    using out [OF that] by (auto intro!: waiting_ok_cong placed_ok_cong simp: s' sv_keys_def)
  then have "sv_places_ok s'" using p by (auto simp: sv_places_ok_def sv_queues_def s' sv_keys_def)
  moreover have "sv_tables_ok s'" using t unfolding sv_tables_ok_def qs by (auto simp: s')
  ultimately have "sv_ok E s'" using ok by (simp add: sv_ok_def s')
  with False qs s' show ?thesis by (auto simp: sv_status_def)
qed

lemma register_loop:
  assumes "sv_ok E s" and "for_each register_sequence qs s = (r, s')"
  shows "sv_ok E s' \<and> sv_queues s' = sv_queues s \<and> sv_waiting s' = sv_waiting s \<and> sv_running s' = sv_running s \<and>
    sv_swapped s' = sv_swapped s \<and> sv_request_map s' = sv_request_map s \<and> sv_kv s' = sv_kv s \<and>
    (r = Inr () \<longrightarrow> distinct (map seq_id qs) \<and> set (map seq_id qs) \<inter> sv_sequence_map s = {} \<and>
       sv_sequence_map s' = sv_sequence_map s \<union> set (map seq_id qs) \<and>
       (\<forall>q \<in> set qs. sv_status s' (seq_id q) = WAITING)) \<and>
    (r \<noteq> Inr () \<longrightarrow> r = Inl ValueError) \<and>
    (\<forall>j. j \<in> sv_sequence_map s \<longrightarrow> sv_heap s' j = sv_heap s j)"
  using assms
proof (induction qs arbitrary: s)
  case Nil
  then show ?case by simp
next
  case (Cons q qs)
  obtain r1 s1 where a: "register_sequence q s = (r1, s1)" by fastforce
  note st = register_step [OF Cons.prems(1) a]
  show ?case
  proof (cases r1)
    case (Inl e)
    with a Cons.prems st show ?thesis by auto
  next
    case (Inr u)
    with a Cons.prems(2) have "for_each register_sequence qs s1 = (r, s')" by simp
    from Cons.IH [OF _ this] st have IH: "sv_ok E s' \<and> sv_queues s' = sv_queues s1 \<and> sv_waiting s' = sv_waiting s1 \<and>
      sv_running s' = sv_running s1 \<and> sv_swapped s' = sv_swapped s1 \<and> sv_request_map s' = sv_request_map s1 \<and>
      sv_kv s' = sv_kv s1 \<and>
      (r = Inr () \<longrightarrow> distinct (map seq_id qs) \<and> set (map seq_id qs) \<inter> sv_sequence_map s1 = {} \<and>
         sv_sequence_map s' = sv_sequence_map s1 \<union> set (map seq_id qs) \<and>
         (\<forall>q \<in> set qs. sv_status s' (seq_id q) = WAITING)) \<and>
      (r \<noteq> Inr () \<longrightarrow> r = Inl ValueError) \<and> (\<forall>j. j \<in> sv_sequence_map s1 \<longrightarrow> sv_heap s' j = sv_heap s1 j)" by blast
    have n: "seq_id q \<notin> sv_sequence_map s" "sv_sequence_map s1 = insert (seq_id q) (sv_sequence_map s)"
        "sv_status s1 (seq_id q) = WAITING" "\<And>j. j \<noteq> seq_id q \<Longrightarrow> sv_heap s1 j = sv_heap s j"
      using st Inr by auto
    have hq: "sv_heap s' (seq_id q) = sv_heap s1 (seq_id q)" using IH n(2) by blast
    have hj: "sv_heap s' j = sv_heap s j" if "j \<in> sv_sequence_map s" for j
      using IH n that by (metis insertCI)
    have eqs: "sv_queues s' = sv_queues s" "sv_waiting s' = sv_waiting s" "sv_running s' = sv_running s"
        "sv_swapped s' = sv_swapped s" "sv_request_map s' = sv_request_map s" "sv_kv s' = sv_kv s"
      using IH st by auto
    have "distinct (map seq_id (q # qs)) \<and> set (map seq_id (q # qs)) \<inter> sv_sequence_map s = {} \<and>
        sv_sequence_map s' = sv_sequence_map s \<union> set (map seq_id (q # qs)) \<and>
        (\<forall>q' \<in> set (q # qs). sv_status s' (seq_id q') = WAITING)" if "r = Inr ()"
    proof -
      from IH that have i: "distinct (map seq_id qs)" "set (map seq_id qs) \<inter> sv_sequence_map s1 = {}"
        "sv_sequence_map s' = sv_sequence_map s1 \<union> set (map seq_id qs)" "\<forall>q \<in> set qs. sv_status s' (seq_id q) = WAITING"
        by blast+
      moreover have "sv_status s' (seq_id q) = WAITING" using n(3) hq by (simp add: sv_status_def)
      ultimately show ?thesis using n(1,2) by auto
    qed
    with IH eqs hj show ?thesis by blast
  qed
qed

lemma add_request_spec:
  assumes ok: "sv_ok E s" and ne: "qs \<noteq> []" and r: "sv_add_request rid qs s = (r, s')"
  shows "sv_ok E s' \<and> (r = Inr () \<or> r = Inl ValueError)"
proof (cases "od_mem rid (sv_request_map s)")
  case True
  with ok r show ?thesis by (auto simp: sv_add_request_def)
next
  case False
  obtain r1 s1 where a: "for_each register_sequence qs s = (r1, s1)" by fastforce
  note l = register_loop [OF ok a]
  show ?thesis
  proof (cases r1)
    case (Inl e)
    with l r a False show ?thesis by (auto simp: sv_add_request_def)
  next
    case (Inr u)
    let ?g = "\<lparr>request_id = rid, sequence_ids = map seq_id qs\<rparr>"
    have s': "r = Inr ()" "s' = s1\<lparr>sv_request_map := AList.update rid ?g (sv_request_map s1),
        sv_waiting := sv_waiting s1 @ [?g]\<rparr>"
      using r a False Inr by (auto simp: sv_add_request_def Let_def)
    have new: "rid \<notin> fst ` set (sv_request_map s1)" using False l by (auto simp: od_mem_iff)
    have m': "sv_request_map s' = sv_request_map s1 @ [(rid, ?g)]" using update_absent [OF new] by (simp add: s')
    have ok1: "sv_tables_ok s1" "sv_places_ok s1" "pk_ok E (sv_kv s1)" using l by (auto simp: sv_ok_def)
    have tb: "sv_tables_ok s" using ok by (simp add: sv_ok_def)
    have ids: "distinct (map seq_id qs)" "set (map seq_id qs) \<inter> sv_sequence_map s = {}"
        "sv_sequence_map s1 = sv_sequence_map s \<union> set (map seq_id qs)" "sv_keys s1 = sv_keys s"
        "\<And>q. q \<in> set qs \<Longrightarrow> sv_status s1 (seq_id q) = WAITING"
      using l Inr by (auto simp: sv_keys_def)
    have qq: "mset (sv_queues s') = mset (sv_queues s1 @ [?g])" by (simp add: s' sv_queues_def)
    have k': "sv_keys s' = sv_keys s1" "sv_sequence_map s' = sv_sequence_map s1" "sv_heap s' = sv_heap s1"
      by (simp_all add: s' sv_keys_def)
    have old: "set (concat (map sequence_ids (sv_queues s1))) \<subseteq> sv_sequence_map s"
      using tb l by (auto simp: sv_tables_ok_def)
    have wg: "waiting_ok (sv_heap s1) (sv_keys s1) ?g"
    proof -
      have "i \<notin> sv_keys s" if "i \<in> set (map seq_id qs)" for i
        using sv_keys_queued [OF tb, of i] that ids(2) by blast
      with ne ids show ?thesis by (auto simp: waiting_ok_def sv_status_def)
    qed
    have "sv_places_ok s'" using ok1(2) wg unfolding sv_places_ok_def k' by (auto simp: s')
    moreover have "sv_tables_ok s'"
      unfolding sv_tables_ok_def k'
    proof (intro conjI)
      show "0 < sv_max_batch_size s'" "0 < sv_max_tokens_per_step s'" "od_ok (sv_request_map s')"
        "\<forall>p \<in> set (sv_request_map s'). request_id (snd p) = fst p" "mset (sv_queues s') = mset (map snd (sv_request_map s'))"
        using ok1(1) new unfolding m' qq by (auto simp: sv_tables_ok_def s')
      show "distinct (concat (map sequence_ids (sv_queues s')))"
        using ok1(1) ids(1,2) old unfolding distinct_concat_perm [OF qq] by (auto simp: sv_tables_ok_def)
      show "set (concat (map sequence_ids (sv_queues s'))) \<subseteq> sv_sequence_map s1"
        using ids(3) old unfolding set_concat_perm [OF qq] by auto
      show "sv_keys s1 \<subseteq> set (concat (map sequence_ids (sv_queues s')))"
        using ok1(1) unfolding set_concat_perm [OF qq] sv_tables_ok_def by auto
    qed
    ultimately show ?thesis using s'(1) ok1(3) by (simp add: sv_ok_def s'(2))
  qed
qed

section \<open>Reachable states\<close>

text \<open>
  The calls the engine makes. Between them a sampled token is appended to a
  sequence and the model writes the pages. Only sequences that were scheduled,
  hence are no longer waiting, are reported as completed.
\<close>

inductive sv_reach :: "'d serving_scheduler \<Rightarrow> bool" where
  init: "paged_kv_init z nb bs nl nh hdim = Inr kv \<Longrightarrow> sv_init h kv mb mt = Inr s \<Longrightarrow> sv_reach s"
| add: "sv_reach s \<Longrightarrow> qs \<noteq> [] \<Longrightarrow> sv_add_request rid qs s = (r, s') \<Longrightarrow> sv_reach s'"
| schedule: "sv_reach s \<Longrightarrow> sv_schedule cp s = (r, s') \<Longrightarrow> sv_reach s'"
| token: "sv_reach s \<Longrightarrow> append_output_token tok (sv_heap s i) = (r, q) \<Longrightarrow>
    sv_reach (s\<lparr>sv_heap := (sv_heap s)(i := q)\<rparr>)"
| pages: "sv_reach s \<Longrightarrow> sv_reach (s\<lparr>sv_kv := (sv_kv s)\<lparr>pk_data := d\<rparr>\<rparr>)"
| update: "sv_reach s \<Longrightarrow> \<forall>i \<in> set completed. sv_status s i \<noteq> WAITING \<Longrightarrow>
    update_after_step completed new s = (Inr (), s') \<Longrightarrow> sv_reach s'"
| abort: "sv_reach s \<Longrightarrow> sv_abort_request rid s = (r, s') \<Longrightarrow> sv_reach s'"

lemma sv_ok_same_status:
  assumes "sv_ok E s" and "s' = s\<lparr>sv_kv := kv, sv_heap := h\<rparr>" and "pk_ok E kv" and "kv_keys kv = sv_keys s"
    and "\<And>i. seq_status (h i) = seq_status (sv_heap s i)"
  shows "sv_ok E s'"
proof -
  have q: "sv_queues s' = sv_queues s" "sv_keys s' = sv_keys s" using assms(2,4) by (simp_all add: sv_queues_def sv_keys_def)
  have "sv_places_ok s'"
    using assms(1) unfolding sv_ok_def sv_places_ok_def q by (simp add: assms(2,5) waiting_ok_def placed_ok_def)
  moreover have "sv_tables_ok s'" using assms(1) unfolding sv_ok_def sv_tables_ok_def q by (simp add: assms(2))
  ultimately show ?thesis using assms(3) by (simp add: sv_ok_def assms(2))
qed

lemma append_output_status: "append_output_token tok q = (r, q') \<Longrightarrow> seq_status q' = seq_status q"
  by (auto simp: append_output_token_def Let_def split: if_splits)

lemma sv_reach_ok: "sv_reach s \<Longrightarrow> sv_ok {#} s"
proof (induction rule: sv_reach.induct)
  case (init z nb bs nl nh hdim kv h mb mt s)
  then have "pk_tables kv = []" by (auto simp: paged_kv_init_def split: if_splits sum.splits)
  moreover have "pk_ok {#} kv" using paged_kv_init_ok [OF init(1)] by simp
  ultimately show ?case using init
    by (auto simp: sv_init_def sv_ok_def sv_tables_ok_def sv_places_ok_def sv_queues_def sv_keys_def split: if_splits)
next
  case (add s qs rid r s')
  with add_request_spec show ?case by blast
next
  case (schedule s cp r s')
  with schedule_spec [of "{#}" s cp] show ?case by auto
next
  case (token s tok i r q)
  then show ?case
    by (intro sv_ok_same_status [where kv = "sv_kv s" and h = "(sv_heap s)(i := q)", OF token.IH])
      (auto simp: append_output_status sv_ok_def sv_keys_def)
next
  case (pages s d)
  then show ?case
    by (intro sv_ok_same_status [where kv = "(sv_kv s)\<lparr>pk_data := d\<rparr>" and h = "sv_heap s", OF pages.IH])
      (auto simp: sv_ok_def sv_keys_def pk_ok_def)
next
  case (update s completed new s')
  with update_spec [of "{#}" s completed new] show ?case by blast
next
  case (abort s rid r s')
  with abort_spec [of "{#}" s rid] show ?case by auto
qed


lemma pk_ok_partition:
  assumes "pk_ok {#} c"
  shows "set (concat (map (bt_ids \<circ> snd) (pk_tables c))) \<union> ba_free (pk_alloc c) = {0..<ba_num_blocks (pk_alloc c)}"
proof -
  have "b \<in># held (pk_tables c) \<or> b \<in> ba_free (pk_alloc c) \<longleftrightarrow> 0 \<le> b \<and> b < ba_num_blocks (pk_alloc c)" for b
  proof -
    have "count (held (pk_tables c)) b + of_bool (b \<in> ba_free (pk_alloc c)) = of_bool (0 \<le> b \<and> b < ba_num_blocks (pk_alloc c))"
      using assms by (simp add: pk_ok_def ba_own_def)
    then show ?thesis by (cases "b \<in> ba_free (pk_alloc c)"; cases "0 \<le> b \<and> b < ba_num_blocks (pk_alloc c)")
        (simp_all flip: count_greater_zero_iff)
  qed
  then show ?thesis
    unfolding held_concat set_mset_mset by (simp only: set_eq_iff Un_iff atLeastLessThan_iff simp_thms)
qed

text \<open>The identifiers of the sequences that were admitted and are not finished.\<close>

definition admitted_ids :: "'d serving_scheduler \<Rightarrow> int set" where
  "admitted_ids s =
     {i \<in> set (concat (map sequence_ids (sv_running s @ sv_swapped s))). active (sv_status s i)}"

text \<open>A small scheduler: two blocks of two tokens, two requests.\<close>

definition example_seq :: "int \<Rightarrow> int list \<Rightarrow> sequence_data" where
  "example_seq i prompt = new_sequence i prompt default_sampling_params"

definition example_kv :: "nat paged_kv" where
  "example_kv = \<lparr>pk_alloc = \<lparr>ba_num_blocks = 2, ba_block_size = 2, ba_heap = [0, 1], ba_free = {0, 1}\<rparr>,
     pk_tables = [], pk_buffers = Map.empty, pk_saved_tokens = Map.empty, pk_swapped = {}, pk_data = (\<lambda>_. 0)\<rparr>"

definition example_init :: "nat serving_scheduler" where
  "example_init = \<lparr>sv_kv = example_kv, sv_max_batch_size = 8, sv_max_tokens_per_step = 64, sv_waiting = [],
     sv_running = [], sv_swapped = [], sv_sequence_map = {}, sv_request_map = [],
     sv_heap = (\<lambda>i. example_seq i [])\<rparr>"

definition example_state :: "nat serving_scheduler" where
  "example_state = snd (sv_add_request ''b'' [example_seq 2 [9]] (snd (sv_add_request ''a'' [example_seq 1 [7, 8, 9]] example_init)))"

lemma example_kv_init: "paged_kv_init 0 2 2 1 1 1 = Inr example_kv"
  by (simp add: paged_kv_init_def allocator_init_def example_kv_def upto_rec1 insert_commute)

lemma example_state_eq:
  "example_state = example_init\<lparr>
     sv_waiting := [\<lparr>request_id = ''a'', sequence_ids = [1]\<rparr>, \<lparr>request_id = ''b'', sequence_ids = [2]\<rparr>],
     sv_sequence_map := {1, 2},
     sv_request_map := [(''a'', \<lparr>request_id = ''a'', sequence_ids = [1]\<rparr>), (''b'', \<lparr>request_id = ''b'', sequence_ids = [2]\<rparr>)],
     sv_heap := (sv_heap example_init)(1 := example_seq 1 [7, 8, 9], 2 := example_seq 2 [9])\<rparr>"
  by (simp add: example_state_def sv_add_request_def register_sequence_def example_init_def example_seq_def
      new_sequence_def od_mem_def Let_def insert_commute)

lemma example_state_reach: "sv_reach example_state"
proof -
  have "sv_init (\<lambda>i. example_seq i []) example_kv 8 64 = Inr example_init"
    by (simp add: sv_init_def example_init_def)
  then have i: "sv_reach example_init" by (rule sv_reach.init [OF example_kv_init])
  let ?s1 = "sv_add_request ''a'' [example_seq 1 [7, 8, 9]] example_init"
  have "sv_reach (snd ?s1)" by (rule sv_reach.add [OF i]) (auto intro: prod.collapse [symmetric])
  then show ?thesis unfolding example_state_def
    by (rule sv_reach.add [where r = "fst (sv_add_request ''b'' [example_seq 2 [9]] (snd ?s1))"]) auto
qed

section \<open>Properties\<close>



text \<open>
  C2: Nothing is lost between the queues and the cache. In every reachable state each
  known request is in exactly one of the three queues; a sequence has a block
  table exactly while it is admitted and unfinished; and every block of the cache
  is free or belongs to the table of one of those sequences.
\<close>

theorem serving_state_consistent:
  assumes "sv_reach s"
  shows "mset (sv_waiting s @ sv_running s @ sv_swapped s) = mset (map snd (sv_request_map s)) \<and>
    distinct (map fst (sv_request_map s)) \<and>
    fst ` set (pk_tables (sv_kv s)) = admitted_ids s \<and>
    set (concat (map (bt_ids \<circ> snd) (pk_tables (sv_kv s)))) \<union> ba_free (pk_alloc (sv_kv s)) =
      {0..<ba_num_blocks (pk_alloc (sv_kv s))}"
proof -
  note ok = sv_reach_ok [OF assms]
  then have p: "sv_places_ok s" and kv: "pk_ok {#} (sv_kv s)" by (simp_all add: sv_ok_def)
  have adm: "i \<in> sv_keys s \<longleftrightarrow> active (sv_status s i)"
    if "g \<in> set (sv_running s @ sv_swapped s)" "i \<in> set (sequence_ids g)" for g i
  proof -
    from p that obtain A where "placed_ok A (sv_heap s) (sv_keys s) g" "A \<subseteq> {PREFILL, DECODE, SWAPPED}"
      unfolding sv_places_ok_def by fastforce
    with that(2) have "sv_status s i \<in> {PREFILL, DECODE, SWAPPED} \<and> i \<in> sv_keys s \<or> sv_status s i = FINISHED \<and> i \<notin> sv_keys s"
      unfolding placed_ok_def sv_status_def by blast
    then show ?thesis by auto
  qed
  have wait: "i \<notin> sv_keys s" if "g \<in> set (sv_waiting s)" "i \<in> set (sequence_ids g)" for g i
    using p that unfolding sv_places_ok_def waiting_ok_def by blast
  have "i \<in> sv_keys s \<longleftrightarrow> i \<in> admitted_ids s" for i
  proof
    assume i: "i \<in> sv_keys s"
    moreover have "sv_tables_ok s" using ok by (simp add: sv_ok_def)
    ultimately obtain g where g: "g \<in> set (sv_queues s)" "i \<in> set (sequence_ids g)" using sv_keys_queued by metis
    with wait i have "g \<in> set (sv_running s @ sv_swapped s)" by (auto simp: sv_queues_def)
    with adm g(2) i show "i \<in> admitted_ids s" by (auto simp: admitted_ids_def)
  next
    assume "i \<in> admitted_ids s"
    then obtain g where "g \<in> set (sv_running s @ sv_swapped s)" "i \<in> set (sequence_ids g)" "active (sv_status s i)"
      by (auto simp: admitted_ids_def)
    with adm show "i \<in> sv_keys s" by blast
  qed
  then have "sv_keys s = admitted_ids s" by blast
  with ok pk_ok_partition [OF kv] show ?thesis
    by (simp add: sv_ok_def sv_tables_ok_def sv_queues_def sv_keys_def)
qed


theorem serving_state_consistent_witness:
  "let s = snd (sv_schedule None example_state)
   in sv_reach s \<and> mset (sv_waiting s @ sv_running s @ sv_swapped s) = mset (map snd (sv_request_map s)) \<and>
      fst ` set (pk_tables (sv_kv s)) = admitted_ids s"
proof -
  have "sv_reach (snd (sv_schedule None example_state))"
    by (rule sv_reach.schedule [OF example_state_reach]) (rule prod.collapse [symmetric])
  with serving_state_consistent [OF this] show ?thesis unfolding Let_def by blast
qed

text \<open>
  One call of \<^verbatim>\<open>schedule\<close> can admit a group, preempt it again to make room for the
  next one, and still return it among the prefills: the batch then runs a prefill
  for a sequence that is swapped out and whose block table is empty.
\<close>

theorem schedule_preempts_own_prefill:
  "\<exists>s out s'. sv_reach (s :: nat serving_scheduler) \<and> sv_schedule None s = (Inr out, s') \<and>
     (\<exists>i \<in> set (prefill_seq_ids out). i \<in> set (preempted_seq_ids out) \<and>
        sv_status s' i = SWAPPED \<and> prompt_token_ids (sv_heap s' i) \<noteq> [] \<and>
        pk_get_block_table i (sv_kv s') = Inr [])"
proof -
  have "case sv_schedule None example_state of (Inr out, s') \<Rightarrow>
      1 \<in> set (prefill_seq_ids out) \<and> 1 \<in> set (preempted_seq_ids out) \<and> sv_status s' 1 = SWAPPED \<and>
      prompt_token_ids (sv_heap s' 1) \<noteq> [] \<and> pk_get_block_table 1 (sv_kv s') = Inr [] | _ \<Rightarrow> False"
    by code_simp
  then show ?thesis using example_state_reach by (auto split: prod.splits sum.splits)
qed

text \<open>
  C40: A recovery that fails for lack of blocks loses the pages. \<^verbatim>\<open>swap_in\<close> takes the saved
  pages out of its table before it allocates; the exception is swallowed, the
  group stays swapped, and the next attempt finds nothing to restore, succeeds
  and sets the sequence decoding with an empty block table.
\<close>

theorem failed_recovery_loses_pages:
  assumes "sv_ok E s" and "g \<in> set (sv_swapped s)" and "seqs_in SWAPPED g s = [i]"
    and "map_of (pk_tables (sv_kv s)) i = Some t" and "bt_ids t = []" and "i \<in> pk_swapped (sv_kv s)"
    and "pk_buffers (sv_kv s) i = Some buf" and "sv_free s < int (length buf)"
  shows "\<exists>s1 s2. recover_group g s = (Inr (), s1) \<and> g \<in> set (sv_swapped s1) \<and>
    recover_group g s1 = (Inr (), s2) \<and> sv_status s2 i = DECODE \<and> g \<in> set (sv_running s2) \<and>
    pk_get_block_table i (sv_kv s2) = Inr [] \<and> pk_buffers (sv_kv s2) i = None"
proof -
  have pos: "0 < int (length buf)" using assms(8) by (auto simp: sv_free_def ba_num_free_def)
  define kv1 where "kv1 = (sv_kv s)\<lparr>pk_buffers := (pk_buffers (sv_kv s))(i := None),
      pk_saved_tokens := (pk_saved_tokens (sv_kv s))(i := None)\<rparr>"
  have k1: "pk_swap_in i (sv_kv s) = (Inl RuntimeError, kv1)"
    using assms(4-8) pos by (simp add: pk_swap_in_def Let_def ba_allocate_fail sv_free_def kv1_def)
  define s1 where "s1 = s\<lparr>sv_kv := kv1\<rparr>"
  have r1: "recover_group g s = (Inr (), s1)"
    using assms(2,3) k1 by (simp add: recover_group_def with_kv_def s1_def)
  obtain kv2 where k2: "pk_swap_in i kv1 = (Inr (), kv2)" "pk_tables kv2 = pk_tables (sv_kv s)" "pk_buffers kv2 i = None"
    using assms(4-6) by (simp add: pk_swap_in_def Let_def kv1_def)
  have ss: "seqs_in SWAPPED g s1 = [i]" using assms(3) by (simp add: seqs_in_def sv_status_def s1_def)
  have st: "sv_status s i = SWAPPED" using assms(3) by (auto simp: seqs_in_def filter_eq_Cons_iff)
  define s2 where "s2 = s1\<lparr>sv_kv := kv2, sv_heap := mark DECODE {i} (sv_heap s)\<rparr>"
  have "sv_set_status DECODE i (s1\<lparr>sv_kv := kv2\<rparr>) = (Inr (), s2)"
    using st by (subst sv_set_status_ok) (simp_all add: sv_status_def s1_def s2_def)
  then have "recover_group g s1 = (Inr (), s2\<lparr>sv_swapped := remove1 g (sv_swapped s2), sv_running := g # sv_running s2\<rparr>)"
    using assms(2) ss k2(1) by (simp add: recover_group_def with_kv_def s1_def)
  with r1 k2 assms(2,4,5) show ?thesis
    by (intro exI [of _ s1] exI conjI) (auto simp: sv_status_def pk_get_block_table_def s1_def s2_def)
qed

theorem failed_recovery_loses_pages_witness:
  "let s = snd (sv_schedule None example_state); g = \<lparr>request_id = ''a'', sequence_ids = [1]\<rparr>
   in sv_ok {#} s \<and>
     (\<exists>s1 s2. recover_group g s = (Inr (), s1) \<and> recover_group g s1 = (Inr (), s2) \<and>
        sv_status s2 1 = DECODE \<and> pk_get_block_table 1 (sv_kv s2) = Inr [])"
proof -
  define s where "s = snd (sv_schedule None example_state)"
  have r: "sv_reach s" unfolding s_def
    by (rule sv_reach.schedule [OF example_state_reach]) (rule prod.collapse [symmetric])
  have "\<lparr>request_id = ''a'', sequence_ids = [1]\<rparr> \<in> set (sv_swapped s) \<and>
      seqs_in SWAPPED \<lparr>request_id = ''a'', sequence_ids = [1]\<rparr> s = [1] \<and>
      map_option bt_ids (map_of (pk_tables (sv_kv s)) 1) = Some [] \<and> 1 \<in> pk_swapped (sv_kv s) \<and>
      pk_buffers (sv_kv s) 1 = Some [0, 0] \<and> sv_free s < int (length [0 :: nat, 0])"
    unfolding s_def by code_simp
  then show ?thesis
    using failed_recovery_loses_pages [OF sv_reach_ok [OF r], of "\<lparr>request_id = ''a'', sequence_ids = [1]\<rparr>" 1 _ "[0, 0]"]
      sv_reach_ok [OF r] unfolding s_def [symmetric] Let_def by (fastforce simp: map_option_case split: option.splits)
qed

end
