(* ===== verification/Memory_Budget.thy ===== *)
theory Memory_Budget
  imports Prelude Complex_Main
begin

text \<open>
  \<^verbatim>\<open>src/moe_infinity/memory/memory_coordinator.py\<close> and
  \<^verbatim>\<open>src/moe_infinity/serving/memory_manager.py\<close>: how GPU memory is divided between the
  expert cache and the KV cache, and the batch size that adapts to the load.
  Ratios are real numbers: the rounding of floating-point arithmetic is not
  modelled. What torch reports about the devices and the clock are arguments.
\<close>

section \<open>Numbers\<close>

text \<open>\<^verbatim>\<open>int(x)\<close> of a float truncates towards zero.\<close>

definition py_int :: "real \<Rightarrow> int" where
  "py_int x = (if 0 \<le> x then \<lfloor>x\<rfloor> else \<lceil>x\<rceil>)"

lemma py_int_nonneg: "0 \<le> x \<Longrightarrow> 0 \<le> py_int x \<and> real_of_int (py_int x) \<le> x"
  by (simp add: py_int_def)

definition in_unit :: "real \<Rightarrow> bool" where
  "in_unit r \<longleftrightarrow> 0 \<le> r \<and> r \<le> 1"

lemma in_unit_mult: "in_unit a \<Longrightarrow> in_unit b \<Longrightarrow> in_unit (a * b)"
  by (simp add: in_unit_def mult_le_one)

section \<open>The budget of the KV cache manager\<close>

text \<open>
  \<^verbatim>\<open>MemoryBudget\<close> of \<^verbatim>\<open>src/moe_infinity/memory/kv_cache_manager.py\<close>; the argument
  \<open>reported\<close> is the memory torch reports for the first device, absent when CUDA is not
  available or the query fails.
\<close>

record kv_memory_budget =
  kb_device_ratio :: real
  kb_kv_ratio :: real
  kb_host_ratio :: real

definition kb_total_gpu_memory_bytes :: "int option \<Rightarrow> int" where
  "kb_total_gpu_memory_bytes reported = (case reported of None \<Rightarrow> 24 * 1024 ^ 3 | Some n \<Rightarrow> n)"

definition kv_cache_gpu_bytes :: "int option \<Rightarrow> kv_memory_budget \<Rightarrow> int" where
  "kv_cache_gpu_bytes reported b = py_int (real_of_int (kb_total_gpu_memory_bytes reported) * kb_kv_ratio b)"

lemma kv_cache_gpu_bytes_fits:
  assumes "in_unit (kb_kv_ratio b)" and "0 \<le> kb_total_gpu_memory_bytes reported"
  shows "0 \<le> kv_cache_gpu_bytes reported b \<and>
    kv_cache_gpu_bytes reported b \<le> kb_total_gpu_memory_bytes reported"
proof -
  let ?n = "real_of_int (kb_total_gpu_memory_bytes reported)"
  have nonneg: "0 \<le> ?n * kb_kv_ratio b" and le: "?n * kb_kv_ratio b \<le> ?n"
    using assms by (simp_all add: in_unit_def mult_left_le)
  from py_int_nonneg [OF nonneg] le show ?thesis unfolding kv_cache_gpu_bytes_def by linarith
qed

section \<open>The memory coordinator\<close>

record memory_coordinator =
  device_memory_ratio :: real
  kv_cache_memory_ratio :: real

definition coordinator_init :: "real \<Rightarrow> real \<Rightarrow> memory_coordinator result" where
  "coordinator_init device kv =
     (if device + kv > 1 then Inl ValueError
      else Inr \<lparr>device_memory_ratio = device, kv_cache_memory_ratio = kv\<rparr>)"

text \<open>The entries of the configuration, absent or converted to numbers.\<close>

record coordinator_config =
  cfg_device_ratio :: "real option"
  cfg_kv_ratio :: "real option"
  cfg_use_native :: "bool option"

definition coordinator_from_config :: "coordinator_config \<Rightarrow> memory_coordinator result" where
  "coordinator_from_config cfg =
     (let device = (case cfg_device_ratio cfg of None \<Rightarrow> 3 / 4 | Some r \<Rightarrow> r);
          kv = (case cfg_kv_ratio cfg of None \<Rightarrow> 0 | Some r \<Rightarrow> r);
          use_native = (case cfg_use_native cfg of None \<Rightarrow> True | Some b \<Rightarrow> b)
      in if use_native \<and> kv = 0
         then (let kv1 = 15 / 100
               in coordinator_init (if device + kv1 > 1 then max 0 (1 - kv1) else device) kv1)
         else coordinator_init device kv)"

text \<open>
  The visible devices: for each the \<^verbatim>\<open>total_memory\<close> of its properties, if it is an
  integer; the empty list when CUDA is not available or torch raises.
\<close>

type_synonym gpus = "int option list"

definition default_gpu_bytes :: int where
  "default_gpu_bytes = 24 * 1024 ^ 3"

definition num_gpu_devices :: "gpus \<Rightarrow> int" where
  "num_gpu_devices gs = int (length gs)"

definition total_gpu_memory_bytes :: "gpus \<Rightarrow> int \<Rightarrow> int" where
  "total_gpu_memory_bytes gs device =
     (if 0 \<le> device \<and> device < int (length gs)
      then (case gs ! nat device of Some all_bytes \<Rightarrow> all_bytes | None \<Rightarrow> default_gpu_bytes)
      else default_gpu_bytes)"

definition aggregate_gpu_memory_bytes :: "gpus \<Rightarrow> int" where
  "aggregate_gpu_memory_bytes gs =
     (let n = num_gpu_devices gs
      in if n = 0 then default_gpu_bytes
         else sum_list (map (total_gpu_memory_bytes gs) [0..n - 1]))"

definition expert_cache_bytes :: "gpus \<Rightarrow> memory_coordinator \<Rightarrow> int \<Rightarrow> int" where
  "expert_cache_bytes gs m device = py_int (real_of_int (total_gpu_memory_bytes gs device) * device_memory_ratio m)"

definition expert_cache_bytes_total :: "gpus \<Rightarrow> memory_coordinator \<Rightarrow> int" where
  "expert_cache_bytes_total gs m =
     (let n = max 1 (num_gpu_devices gs) in sum_list (map (expert_cache_bytes gs m) [0..n - 1]))"

definition kv_cache_bytes :: "gpus \<Rightarrow> memory_coordinator \<Rightarrow> int \<Rightarrow> int" where
  "kv_cache_bytes gs m device = py_int (real_of_int (total_gpu_memory_bytes gs device) * kv_cache_memory_ratio m)"

definition kv_cache_bytes_total :: "gpus \<Rightarrow> memory_coordinator \<Rightarrow> int" where
  "kv_cache_bytes_total gs m =
     (let n = max 1 (num_gpu_devices gs) in sum_list (map (kv_cache_bytes gs m) [0..n - 1]))"

definition remaining_bytes :: "gpus \<Rightarrow> memory_coordinator \<Rightarrow> int \<Rightarrow> int" where
  "remaining_bytes gs m device =
     (let all_bytes = total_gpu_memory_bytes gs device;
          used = expert_cache_bytes gs m device + kv_cache_bytes gs m device
      in max 0 (all_bytes - used))"

definition can_allocate_kv_blocks :: "gpus \<Rightarrow> memory_coordinator \<Rightarrow> int \<Rightarrow> int \<Rightarrow> bool" where
  "can_allocate_kv_blocks gs m num_blocks block_size_bytes \<longleftrightarrow> num_blocks * block_size_bytes \<le> kv_cache_bytes gs m 0"

definition can_cache_expert :: "gpus \<Rightarrow> memory_coordinator \<Rightarrow> int \<Rightarrow> bool" where
  "can_cache_expert gs m expert_size \<longleftrightarrow> expert_size \<le> expert_cache_bytes gs m 0"

definition compute_num_kv_blocks :: "gpus \<Rightarrow> memory_coordinator \<Rightarrow> int \<Rightarrow> int" where
  "compute_num_kv_blocks gs m block_size_bytes =
     (if block_size_bytes \<le> 0 then 0
      else max 0 \<lfloor>real_of_int (kv_cache_bytes gs m 0) / real_of_int block_size_bytes\<rfloor>)"

record budget_status =
  st_total :: int
  st_expert :: int
  st_kv :: int
  st_remaining :: int
  st_device_ratio :: real
  st_kv_ratio :: real
  st_devices :: int
  st_aggregate :: int

definition get_budget_status :: "gpus \<Rightarrow> memory_coordinator \<Rightarrow> budget_status" where
  "get_budget_status gs m =
     \<lparr>st_total = total_gpu_memory_bytes gs 0, st_expert = expert_cache_bytes gs m 0, st_kv = kv_cache_bytes gs m 0,
      st_remaining = remaining_bytes gs m 0, st_device_ratio = device_memory_ratio m,
      st_kv_ratio = kv_cache_memory_ratio m, st_devices = num_gpu_devices gs,
      st_aggregate = aggregate_gpu_memory_bytes gs\<rparr>"

section \<open>The memory manager\<close>

record memory_budget =
  mb_total :: int
  mb_model :: int
  mb_expert_ratio :: real
  mb_kv_ratio :: real
  mb_activation_ratio :: real

definition memory_budget_init :: "int \<Rightarrow> int \<Rightarrow> real \<Rightarrow> real \<Rightarrow> real \<Rightarrow> memory_budget result" where
  "memory_budget_init all_bytes model expert kv activation =
     (if all_bytes < 0 then Inl ValueError
      else if model < 0 then Inl ValueError
      else if \<not> in_unit expert \<or> \<not> in_unit kv \<or> \<not> in_unit activation then Inl ValueError
      else Inr \<lparr>mb_total = all_bytes, mb_model = model, mb_expert_ratio = expert, mb_kv_ratio = kv,
               mb_activation_ratio = activation\<rparr>)"

definition mb_available :: "memory_budget \<Rightarrow> int" where
  "mb_available b =
     (let reserve = py_int (real_of_int (mb_total b) * mb_activation_ratio b)
      in max 0 (mb_total b - mb_model b - reserve))"

definition mb_expert_bytes :: "memory_budget \<Rightarrow> int" where
  "mb_expert_bytes b =
     (let requested = py_int (real_of_int (mb_available b) * mb_expert_ratio b)
      in min (mb_available b) (max 0 requested))"

definition mb_kv_bytes :: "memory_budget \<Rightarrow> int" where
  "mb_kv_bytes b =
     (let requested = py_int (real_of_int (mb_available b) * mb_kv_ratio b);
          remaining = max 0 (mb_available b - mb_expert_bytes b)
      in min remaining (max 0 requested))"

record memory_manager =
  mm_device_ratio :: real
  mm_kv_ratio :: real
  mm_activation_ratio :: real
  mm_total :: int
  mm_last_budget :: "memory_budget option"

text \<open>The free/total query of a CUDA device; anything else, or a failure, counts as no memory.\<close>

definition get_total_gpu_memory_bytes :: "int option \<Rightarrow> int" where
  "get_total_gpu_memory_bytes cuda_total = (case cuda_total of None \<Rightarrow> 0 | Some all_bytes \<Rightarrow> all_bytes)"

definition memory_manager_init :: "int option \<Rightarrow> real \<Rightarrow> real \<Rightarrow> real \<Rightarrow> memory_manager result" where
  "memory_manager_init cuda_total device kv activation =
     (if \<not> in_unit device then Inl ValueError
      else if \<not> in_unit kv then Inl ValueError
      else if \<not> in_unit activation then Inl ValueError
      else Inr \<lparr>mm_device_ratio = device, mm_kv_ratio = kv, mm_activation_ratio = activation,
               mm_total = get_total_gpu_memory_bytes cuda_total, mm_last_budget = None\<rparr>)"

definition get_expert_cache_ratio :: "memory_manager \<Rightarrow> real" where
  "get_expert_cache_ratio m = mm_device_ratio m - mm_device_ratio m * mm_kv_ratio m"

definition compute_budget :: "int \<Rightarrow> memory_manager \<Rightarrow> (memory_manager, memory_budget) outcome" where
  "compute_budget model m =
     (if model < 0 then (Inl ValueError, m)
      else case memory_budget_init (mm_total m) model (get_expert_cache_ratio m)
                  (mm_device_ratio m * mm_kv_ratio m) (mm_activation_ratio m) of
             Inl e \<Rightarrow> (Inl e, m)
           | Inr b \<Rightarrow> (Inr b, m\<lparr>mm_last_budget := Some b\<rparr>))"

definition last_budget :: "memory_manager \<Rightarrow> (memory_manager, memory_budget) outcome" where
  "last_budget m = (case mm_last_budget m of None \<Rightarrow> compute_budget 0 m | Some b \<Rightarrow> (Inr b, m))"

definition get_max_kv_blocks ::
  "int \<Rightarrow> int \<Rightarrow> int \<Rightarrow> int \<Rightarrow> int \<Rightarrow> memory_manager \<Rightarrow> (memory_manager, int) outcome" where
  "get_max_kv_blocks element_size block_size num_layers num_heads head_dim m =
     (if block_size \<le> 0 \<or> num_layers \<le> 0 \<or> num_heads \<le> 0 \<or> head_dim \<le> 0 then (Inl ValueError, m)
      else
        (let kv_bytes_per_block = 2 * block_size * num_layers * num_heads * head_dim * element_size
         in andthen (last_budget m) (\<lambda>b m1.
              if kv_bytes_per_block \<le> 0 then (Inr 0, m1)
              else (Inr (max 0 (mb_kv_bytes b div kv_bytes_per_block)), m1))))"

section \<open>The adaptive batch size\<close>

record adaptive =
  ad_initial :: int
  ad_high :: real
  ad_low :: real
  ad_target :: real
  ad_cooldown :: real
  ad_current :: int
  ad_step :: int
  ad_last :: "real option"
  ad_utilization :: real
  ad_hit_rate :: "real option"
  ad_used :: int
  ad_blocks :: int

definition adaptive_init :: "int \<Rightarrow> real \<Rightarrow> real \<Rightarrow> real \<Rightarrow> real \<Rightarrow> adaptive result" where
  "adaptive_init initial high low target cooldown =
     (if initial \<le> 0 then Inl ValueError
      else if \<not> in_unit high \<or> \<not> in_unit low \<or> \<not> in_unit target then Inl ValueError
      else if low \<ge> high then Inl ValueError
      else if cooldown < 0 then Inl ValueError
      else Inr \<lparr>ad_initial = initial, ad_high = high, ad_low = low, ad_target = target, ad_cooldown = cooldown,
               ad_current = initial, ad_step = max 1 (initial div 8), ad_last = None, ad_utilization = 0,
               ad_hit_rate = None, ad_used = 0, ad_blocks = 0\<rparr>)"

definition expert_pressure_high :: "adaptive \<Rightarrow> bool" where
  "expert_pressure_high a = (case ad_hit_rate a of None \<Rightarrow> False | Some h \<Rightarrow> h < ad_target a)"

definition maybe_adjust :: "real \<Rightarrow> adaptive \<Rightarrow> adaptive" where
  "maybe_adjust now a =
     (if (case ad_last a of None \<Rightarrow> False | Some t \<Rightarrow> now - t < ad_cooldown a) then a
      else
        (let high = ad_utilization a \<ge> ad_high a;
             expert = expert_pressure_high a;
             low = ad_utilization a \<le> ad_low a;
             next = (if high \<and> expert then ad_current a - ad_step a * 2
                     else if high \<or> expert then ad_current a - ad_step a
                     else if low \<and> (case ad_hit_rate a of None \<Rightarrow> True | Some h \<Rightarrow> h \<ge> ad_target a)
                     then ad_current a + ad_step a
                     else ad_current a);
             next1 = max 1 (min (ad_initial a) next)
         in if next1 \<noteq> ad_current a then a\<lparr>ad_current := next1, ad_last := Some now\<rparr> else a))"

definition observe :: "real \<Rightarrow> int \<Rightarrow> int \<Rightarrow> real option \<Rightarrow> adaptive \<Rightarrow> (adaptive, unit) outcome" where
  "observe now used blocks hit_rate a =
     (if used < 0 then (Inl ValueError, a)
      else if blocks < 0 then (Inl ValueError, a)
      else if blocks > 0 \<and> used > blocks then (Inl ValueError, a)
      else if (case hit_rate of None \<Rightarrow> False | Some h \<Rightarrow> \<not> in_unit h) then (Inl ValueError, a)
      else
        (let a1 = a\<lparr>ad_used := used, ad_blocks := blocks,
                    ad_utilization := (if blocks = 0 then 0 else real_of_int used / real_of_int blocks)\<rparr>;
             a2 = (case hit_rate of None \<Rightarrow> a1 | Some h \<Rightarrow> a1\<lparr>ad_hit_rate := Some h\<rparr>)
         in (Inr (), maybe_adjust now a2)))"

definition should_preempt_aggressively :: "adaptive \<Rightarrow> bool" where
  "should_preempt_aggressively a \<longleftrightarrow> ad_utilization a \<ge> ad_high a"

datatype recommendation =
    Increase_kv_cache_ratio real
  | Increase_expert_cache_ratio real real
  | Increase_scheduler_batch_size int int
  | Keep_current_policy real int

definition get_tuning_recommendations :: "adaptive \<Rightarrow> recommendation" where
  "get_tuning_recommendations a =
     (if ad_utilization a \<ge> ad_high a then Increase_kv_cache_ratio (ad_utilization a)
      else case ad_hit_rate a of
             Some h \<Rightarrow>
               if h < ad_target a then Increase_expert_cache_ratio h (ad_target a)
               else if ad_utilization a \<le> ad_low a \<and> ad_current a < ad_initial a
               then Increase_scheduler_batch_size (ad_current a) (min (ad_initial a) (ad_current a + ad_step a))
               else Keep_current_policy (ad_utilization a) (ad_current a)
           | None \<Rightarrow>
               if ad_utilization a \<le> ad_low a \<and> ad_current a < ad_initial a
               then Increase_scheduler_batch_size (ad_current a) (min (ad_initial a) (ad_current a + ad_step a))
               else Keep_current_policy (ad_utilization a) (ad_current a))"

section \<open>Lemmas\<close>

lemma mb_available_bounds:
  assumes "memory_budget_init all_bytes model expert kv act = Inr b"
  shows "0 \<le> mb_available b" and "mb_available b \<le> max 0 (all_bytes - model)"
proof -
  have b: "0 \<le> mb_total b" "in_unit (mb_activation_ratio b)" "mb_total b = all_bytes" "mb_model b = model"
    using assms by (auto simp: memory_budget_init_def split: if_splits)
  have "0 \<le> py_int (real_of_int (mb_total b) * mb_activation_ratio b)"
    using b(1,2) by (intro conjunct1 [OF py_int_nonneg]) (simp add: in_unit_def)
  with b show "0 \<le> mb_available b" "mb_available b \<le> max 0 (all_bytes - model)"
    by (auto simp: mb_available_def Let_def)
qed

lemma mb_split_bounds:
  "0 \<le> mb_available b \<Longrightarrow> 0 \<le> mb_expert_bytes b \<and> 0 \<le> mb_kv_bytes b \<and> mb_expert_bytes b + mb_kv_bytes b \<le> mb_available b"
  by (auto simp: mb_expert_bytes_def mb_kv_bytes_def Let_def)

text \<open>The budget of a manager is always accepted, and both shares sum to the device ratio.\<close>

definition mm_ok :: "memory_manager \<Rightarrow> bool" where
  "mm_ok m \<longleftrightarrow> in_unit (mm_device_ratio m) \<and> in_unit (mm_kv_ratio m) \<and> in_unit (mm_activation_ratio m) \<and> 0 \<le> mm_total m \<and>
     (\<forall>b. mm_last_budget m = Some b \<longrightarrow>
        (\<exists>model. memory_budget_init (mm_total m) model (get_expert_cache_ratio m)
            (mm_device_ratio m * mm_kv_ratio m) (mm_activation_ratio m) = Inr b))"

lemma expert_ratio_unit:
  assumes "in_unit (mm_device_ratio m)" "in_unit (mm_kv_ratio m)"
  shows "in_unit (get_expert_cache_ratio m)"
proof -
  have "get_expert_cache_ratio m = mm_device_ratio m * (1 - mm_kv_ratio m)"
    by (simp add: get_expert_cache_ratio_def right_diff_distrib)
  moreover have "in_unit (1 - mm_kv_ratio m)" using assms(2) by (simp add: in_unit_def)
  ultimately show ?thesis using in_unit_mult assms(1) by metis
qed

lemma compute_budget_ok:
  assumes "mm_ok m" and "0 \<le> model"
  shows "\<exists>b. compute_budget model m = (Inr b, m\<lparr>mm_last_budget := Some b\<rparr>) \<and> mm_ok (m\<lparr>mm_last_budget := Some b\<rparr>) \<and>
    memory_budget_init (mm_total m) model (get_expert_cache_ratio m)
      (mm_device_ratio m * mm_kv_ratio m) (mm_activation_ratio m) = Inr b"
proof -
  have "in_unit (get_expert_cache_ratio m)" "in_unit (mm_device_ratio m * mm_kv_ratio m)"
    using assms(1) expert_ratio_unit in_unit_mult by (auto simp: mm_ok_def)
  with assms obtain b where b: "memory_budget_init (mm_total m) model (get_expert_cache_ratio m)
      (mm_device_ratio m * mm_kv_ratio m) (mm_activation_ratio m) = Inr b"
    by (auto simp: memory_budget_init_def mm_ok_def)
  moreover have "get_expert_cache_ratio (m\<lparr>mm_last_budget := Some b\<rparr>) = get_expert_cache_ratio m"
    by (simp add: get_expert_cache_ratio_def)
  ultimately show ?thesis using assms by (auto simp: compute_budget_def mm_ok_def)
qed

lemma last_budget_ok:
  assumes "mm_ok m"
  shows "\<exists>b model m'. last_budget m = (Inr b, m') \<and> mm_ok m' \<and>
    memory_budget_init (mm_total m) model (get_expert_cache_ratio m)
      (mm_device_ratio m * mm_kv_ratio m) (mm_activation_ratio m) = Inr b"
proof (cases "mm_last_budget m")
  case None
  with compute_budget_ok [OF assms, of 0] show ?thesis by (auto simp: last_budget_def)
next
  case (Some b)
  with assms show ?thesis by (auto simp: last_budget_def mm_ok_def)
qed

lemma memory_manager_init_ok:
  "memory_manager_init ct d k a = Inr m \<Longrightarrow> (\<And>t. ct = Some t \<Longrightarrow> 0 \<le> t) \<Longrightarrow> mm_ok m"
  by (auto simp: memory_manager_init_def mm_ok_def get_total_gpu_memory_bytes_def split: if_splits option.splits)

text \<open>The batch size stays between one and its initial value, whatever is observed.\<close>

definition adaptive_ok :: "adaptive \<Rightarrow> bool" where
  "adaptive_ok a \<longleftrightarrow> 1 \<le> ad_current a \<and> ad_current a \<le> ad_initial a \<and> 1 \<le> ad_step a"

lemma adaptive_init_ok: "adaptive_init i h l t c = Inr a \<Longrightarrow> adaptive_ok a \<and> ad_initial a = i"
  by (auto simp: adaptive_init_def adaptive_ok_def split: if_splits)

lemma maybe_adjust_ok:
  assumes "adaptive_ok a"
  shows "adaptive_ok (maybe_adjust now a) \<and> ad_initial (maybe_adjust now a) = ad_initial a"
proof (cases "case ad_last a of None \<Rightarrow> False | Some t \<Rightarrow> now - t < ad_cooldown a")
  case True
  then have "maybe_adjust now a = a" by (simp add: maybe_adjust_def)
  with assms show ?thesis by simp
next
  case False
  then obtain n where n: "maybe_adjust now a =
      (let n1 = max 1 (min (ad_initial a) n) in if n1 \<noteq> ad_current a then a\<lparr>ad_current := n1, ad_last := Some now\<rparr> else a)"
    unfolding maybe_adjust_def by (simp only: if_False Let_def)
  show ?thesis using assms unfolding n Let_def by (cases "max 1 (min (ad_initial a) n) = ad_current a") (auto simp: adaptive_ok_def)
qed

lemma observe_cases:
  assumes "observe now used blocks hit a = (r, a')"
  obtains "a' = a" | b where "a' = maybe_adjust now b" "ad_current b = ad_current a" "ad_initial b = ad_initial a"
    "ad_step b = ad_step a"
proof (cases "r = Inr ()")
  case True
  define b where "b = (let a1 = a\<lparr>ad_used := used, ad_blocks := blocks,
      ad_utilization := (if blocks = 0 then 0 else real_of_int used / real_of_int blocks)\<rparr>
    in case hit of None \<Rightarrow> a1 | Some h \<Rightarrow> a1\<lparr>ad_hit_rate := Some h\<rparr>)"
  have "a' = maybe_adjust now b"
    using assms True unfolding observe_def b_def Let_def by (simp split: if_split_asm)
  moreover have "ad_current b = ad_current a" "ad_initial b = ad_initial a" "ad_step b = ad_step a"
    by (cases hit; simp add: b_def Let_def)+
  ultimately show thesis by (rule that(2))
next
  case False
  with assms have "a' = a" unfolding observe_def Let_def by (simp split: if_split_asm)
  then show thesis by (rule that(1))
qed

lemma observe_ok:
  assumes "adaptive_ok a" and "observe now used blocks hit a = (r, a')"
  shows "adaptive_ok a' \<and> ad_initial a' = ad_initial a"
  using assms(2)
proof (cases rule: observe_cases)
  case (2 b)
  with assms(1) have "adaptive_ok b" by (simp add: adaptive_ok_def)
  from maybe_adjust_ok [OF this] 2 show ?thesis by simp
qed (use assms(1) in simp)

lemma observe_many:
  "adaptive_ok a \<Longrightarrow> adaptive_ok (fold (\<lambda>(now, u, b, h) a. snd (observe now u b h a)) xs a) \<and>
   ad_initial (fold (\<lambda>(now, u, b, h) a. snd (observe now u b h a)) xs a) = ad_initial a"
proof (induction xs arbitrary: a)
  case (Cons x xs)
  obtain now u b h where x: "x = (now, u, b, h)" by (cases x) auto
  obtain r a' where o: "observe now u b h a = (r, a')" by fastforce
  from observe_ok [OF Cons.prems o] Cons.IH [of a'] show ?case by (simp add: x o)
qed simp


section \<open>Properties\<close>

text \<open>
  C31: The memory of the device is never promised twice. With a budget computed for
  a model, the model, the activation reserve, the expert cache and the KV cache
  together fit into the device whenever the model itself and the reserve do;
  and the number of KV blocks the manager reports fits into the share of the KV
  cache. The call does not raise for a cache geometry with positive sizes.
\<close>

theorem kv_blocks_fit_device:
  assumes "memory_manager_init (Some all_bytes) device kv act = Inr m0" and "0 \<le> all_bytes" and "0 \<le> model"
    and "compute_budget model m0 = (Inr b, m)"
    and "0 < element_size" and "0 < block_size" and "0 < num_layers" and "0 < num_heads" and "0 < head_dim"
  shows "\<exists>n m'. get_max_kv_blocks element_size block_size num_layers num_heads head_dim m = (Inr n, m') \<and> 0 \<le> n \<and>
    n * (2 * block_size * num_layers * num_heads * head_dim * element_size) \<le> mb_kv_bytes b \<and>
    mb_expert_bytes b + mb_kv_bytes b \<le> mb_available b \<and>
    (model + py_int (real_of_int all_bytes * act) \<le> all_bytes \<longrightarrow>
      model + py_int (real_of_int all_bytes * act) + mb_expert_bytes b + mb_kv_bytes b \<le> all_bytes)"
proof -
  define per where "per = 2 * block_size * num_layers * num_heads * head_dim * element_size"
  have m0: "mm_ok m0" using memory_manager_init_ok [OF assms(1)] assms(2) by simp
  from compute_budget_ok [OF m0 assms(3)] assms(4) have
    m: "m = m0\<lparr>mm_last_budget := Some b\<rparr>" and b: "memory_budget_init (mm_total m0) model (get_expert_cache_ratio m0)
      (mm_device_ratio m0 * mm_kv_ratio m0) (mm_activation_ratio m0) = Inr b"
    by auto
  note av = mb_available_bounds [OF b] and sp = mb_split_bounds [of b]
  have per: "0 < per" using assms(5-9) by (simp add: per_def)
  have g: "get_max_kv_blocks element_size block_size num_layers num_heads head_dim m =
      (Inr (max 0 (mb_kv_bytes b div per)), m)"
    using assms(6-9) per unfolding get_max_kv_blocks_def Let_def per_def [symmetric]
    by (simp add: last_budget_def m)
  have "mb_kv_bytes b div per * per \<le> mb_kv_bytes b"
    using div_mult_mod_eq [of "mb_kv_bytes b" per] pos_mod_sign [OF per, of "mb_kv_bytes b"] by linarith
  moreover have "0 \<le> mb_kv_bytes b div per" using av sp per by (simp add: pos_imp_zdiv_nonneg_iff)
  moreover have "model + py_int (real_of_int all_bytes * act) + mb_expert_bytes b + mb_kv_bytes b \<le> all_bytes"
    if "model + py_int (real_of_int all_bytes * act) \<le> all_bytes"
  proof -
    have "mb_total b = all_bytes" "mb_model b = model" "mb_activation_ratio b = act"
      using b assms(1) by (auto simp: memory_budget_init_def memory_manager_init_def get_total_gpu_memory_bytes_def
          split: if_splits)
    then have "mb_available b = all_bytes - model - py_int (real_of_int all_bytes * act)"
      using that by (simp add: mb_available_def)
    with sp av show ?thesis by linarith
  qed
  ultimately show ?thesis using g sp av unfolding per_def [symmetric] by (simp add: max_def)
qed

theorem kv_blocks_fit_device_witness:
  "\<exists>m0 b m n m'. memory_manager_init (Some 1000000) (1 / 2) (1 / 2) (1 / 10) = Inr m0 \<and>
     compute_budget 100000 m0 = (Inr b, m) \<and>
     get_max_kv_blocks 2 16 2 4 8 m = (Inr n, m') \<and> n * (2 * 16 * 2 * 4 * 8 * 2) \<le> mb_kv_bytes b"
proof -
  obtain m0 where i: "memory_manager_init (Some 1000000) (1 / 2) (1 / 2) (1 / 10) = Inr m0"
    by (simp add: memory_manager_init_def in_unit_def)
  then have "mm_ok m0" using memory_manager_init_ok by fastforce
  from compute_budget_ok [OF this, of 100000] obtain b m where c: "compute_budget 100000 m0 = (Inr b, m)" by auto
  from kv_blocks_fit_device [OF i _ _ c, of 2 16 2 4 8] i c show ?thesis by fastforce
qed

end
