(* ===== verification/Serving_Engine.thy ===== *)
theory Serving_Engine
  imports Serving_Invariant Memory_Budget
begin

text \<open>
  \<^verbatim>\<open>src/moe_infinity/serving/engine.py\<close>: the continuous-batching engine over the
  scheduler, the batch builder and the memory manager. The model runner, the
  sampler and the tokenizer are parameters, indexed by the number of the step so
  that they may keep state or be random. A registered callback is a name; the
  calls made are appended to a log, and so are the notifications of the eviction
  adapter (finished or aborted), made when one is set. The log-probabilities that are passed through
  from the sampler are left out. Callbacks and the eviction adapter do not raise.
\<close>

section \<open>Configuration\<close>

datatype pyval = PInt int | PBool bool | PFloat real | PStr string

type_synonym config = "string \<rightharpoonup> pyval"

definition get_float_config :: "config \<Rightarrow> string \<Rightarrow> real \<Rightarrow> real result" where
  "get_float_config cfg key def_value =
     (case (case cfg key of None \<Rightarrow> PFloat def_value | Some v \<Rightarrow> v) of
        PInt i \<Rightarrow> Inr (real_of_int i)
      | PFloat r \<Rightarrow> Inr r
      | _ \<Rightarrow> Inl ValueError)"

definition get_int_config :: "config \<Rightarrow> string \<Rightarrow> int option \<Rightarrow> int result" where
  "get_int_config cfg key def_value =
     (case cfg key of
        None \<Rightarrow> (case def_value of None \<Rightarrow> Inl KeyError | Some i \<Rightarrow> Inr i)
      | Some (PInt i) \<Rightarrow> Inr i
      | Some _ \<Rightarrow> Inl ValueError)"

definition fallback_num_blocks :: "config \<Rightarrow> int \<Rightarrow> int result" where
  "fallback_num_blocks cfg block_size =
     (case get_int_config cfg ''max_tokens_per_step'' (Some 1) of
        Inl e \<Rightarrow> Inl e
      | Inr n \<Rightarrow> Inr (max 1 (ceil_div n (max 1 block_size))))"

definition resolve_num_blocks ::
  "config \<Rightarrow> int \<Rightarrow> int \<Rightarrow> int \<Rightarrow> int \<Rightarrow> int \<Rightarrow> memory_manager \<Rightarrow> (memory_manager, int) outcome" where
  "resolve_num_blocks cfg element_size block_size num_layers num_kv_heads head_dim m =
     andthen
       (case cfg ''num_kv_blocks'' of
          Some (PInt i) \<Rightarrow> (Inr i, m)
        | Some _ \<Rightarrow> (Inl ValueError, m)
        | None \<Rightarrow> get_max_kv_blocks element_size block_size num_layers num_kv_heads head_dim m)
       (\<lambda>n m1. if n > 0 then (Inr n, m1) else (fallback_num_blocks cfg block_size, m1))"

definition resolve_eos_token_id :: "config \<Rightarrow> int option \<Rightarrow> int option" where
  "resolve_eos_token_id cfg model_eos =
     (case cfg ''eos_token_id'' of
        Some (PInt i) \<Rightarrow> Some i
      | Some (PBool b) \<Rightarrow> Some (of_bool b)
      | _ \<Rightarrow> model_eos)"

datatype dtype = Float16 | Float32 | BFloat16

definition ascii_lower :: "char \<Rightarrow> char" where
  "ascii_lower c = (if c \<in> set ''ABCDEFGHIJKLMNOPQRSTUVWXYZ'' then char_of (of_char c + 32 :: nat) else c)"

definition resolve_dtype :: "pyval \<Rightarrow> dtype result" where
  "resolve_dtype v =
     (case v of
        PStr name \<Rightarrow>
          (case map_of [(''float16'', Float16), (''half'', Float16), (''float32'', Float32), (''float'', Float32),
                        (''bfloat16'', BFloat16)] (map ascii_lower name) of
             None \<Rightarrow> Inl ValueError
           | Some d \<Rightarrow> Inr d)
      | _ \<Rightarrow> Inl ValueError)"

fun element_size :: "dtype \<Rightarrow> int" where
  "element_size Float16 = 2"
| "element_size Float32 = 4"
| "element_size BFloat16 = 2"

section \<open>State\<close>

record request_output =
  ro_request_id :: string
  ro_seq_id :: int
  ro_token_id :: int
  ro_text :: "string option"
  ro_finished :: bool
  ro_reason :: "string option"
  ro_usage :: "(int \<times> int \<times> int) option"

record 'd serving_engine =
  en_sched :: "'d serving_scheduler"
  en_eos :: "int option"
  en_next_seq_id :: int
  en_sequences :: "int set"
  en_seq_request :: "int \<rightharpoonup> string"
  en_request_seqs :: "(string, int list) odict"
  en_outputs :: "(string, (int, int list) odict) odict"
  en_callbacks :: "string \<rightharpoonup> nat list"
  en_completed :: "string set"
  en_cancelled :: "string set"
  en_num_steps :: int
  en_generated :: int
  en_log :: "(nat \<times> request_output) list"
  en_notified :: "(string \<times> bool) list"

definition engine_init :: "'d serving_scheduler \<Rightarrow> int option \<Rightarrow> 'd serving_engine" where
  "engine_init sched eos =
     \<lparr>en_sched = sched, en_eos = eos, en_next_seq_id = 0, en_sequences = {}, en_seq_request = Map.empty,
      en_request_seqs = [], en_outputs = [], en_callbacks = Map.empty, en_completed = {}, en_cancelled = {},
      en_num_steps = 0, en_generated = 0, en_log = [], en_notified = []\<rparr>"

text \<open>
  The constructor: what torch says about the device, the size of the model and
  the model's own end token are arguments.
\<close>

definition rbind :: "'a result \<Rightarrow> ('a \<Rightarrow> 'b result) \<Rightarrow> 'b result" where
  "rbind r f = (case r of Inl e \<Rightarrow> Inl e | Inr x \<Rightarrow> f x)"

definition engine_new ::
  "config \<Rightarrow> int option \<Rightarrow> int \<Rightarrow> int option \<Rightarrow> 'd \<Rightarrow> seq_heap \<Rightarrow> ('d serving_engine \<times> memory_manager) result" where
  "engine_new cfg cuda_total model_bytes model_eos zero h =
     rbind (case cfg ''dtype'' of None \<Rightarrow> Inl KeyError | Some v \<Rightarrow> resolve_dtype v) (\<lambda>dt.
     rbind (get_float_config cfg ''device_memory_ratio'' (3 / 4)) (\<lambda>device.
     rbind (get_float_config cfg ''kv_cache_ratio'' (1 / 4)) (\<lambda>kv_ratio.
     rbind (memory_manager_init cuda_total device kv_ratio (1 / 10)) (\<lambda>m0.
     case compute_budget model_bytes m0 of
       (Inl e, _) \<Rightarrow> Inl e
     | (Inr _, m1) \<Rightarrow>
         rbind (get_int_config cfg ''block_size'' None) (\<lambda>block_size.
         rbind (get_int_config cfg ''num_layers'' None) (\<lambda>num_layers.
         rbind (get_int_config cfg ''num_kv_heads'' None) (\<lambda>num_kv_heads.
         rbind (get_int_config cfg ''head_dim'' None) (\<lambda>head_dim.
         case resolve_num_blocks cfg (element_size dt) block_size num_layers num_kv_heads head_dim m1 of
           (Inl e, _) \<Rightarrow> Inl e
         | (Inr num_blocks, m2) \<Rightarrow>
             rbind (paged_kv_init zero num_blocks block_size num_layers num_kv_heads head_dim) (\<lambda>kv.
             rbind (get_int_config cfg ''max_batch_size'' (Some 32)) (\<lambda>max_batch.
             rbind (get_int_config cfg ''max_tokens_per_step'' (Some 2048)) (\<lambda>max_step.
             rbind (sv_init h kv max_batch max_step) (\<lambda>sched.
               Inr (engine_init sched (resolve_eos_token_id cfg model_eos), m2)))))))))))))"

text \<open>The dictionary \<^verbatim>\<open>self._sequences\<close>: its objects are those of the scheduler.\<close>

definition en_dict :: "'d serving_engine \<Rightarrow> sequence_dict" where
  "en_dict e = (\<lambda>i. if i \<in> en_sequences e then Some (sv_heap (en_sched e) i) else None)"

section \<open>Requests\<close>

definition en_add_request ::
  "string \<Rightarrow> int list \<Rightarrow> sv_sampling_params \<Rightarrow> nat option \<Rightarrow> int \<Rightarrow> 'd serving_engine \<Rightarrow>
   ('d serving_engine, unit) outcome" where
  "en_add_request rid prompt params on_token n e =
     (if od_mem rid (en_request_seqs e) then (Inl ValueError, e)
      else if n \<le> 0 then (Inl ValueError, e)
      else
        (let ids = [en_next_seq_id e..en_next_seq_id e + n - 1];
             seqs = map (\<lambda>i. new_sequence i prompt params) ids;
             sched0 = (en_sched e)\<lparr>sv_heap := (\<lambda>i. if i \<in> set ids then new_sequence i prompt params
                                                 else sv_heap (en_sched e) i)\<rparr>;
             e1 = e\<lparr>en_sched := sched0, en_next_seq_id := en_next_seq_id e + n,
                    en_sequences := en_sequences e \<union> set ids,
                    en_seq_request := (\<lambda>i. if i \<in> set ids then Some rid else en_seq_request e i),
                    en_request_seqs := AList.update rid ids (en_request_seqs e),
                    en_outputs := AList.update rid (map (\<lambda>i. (i, [])) ids) (en_outputs e),
                    en_callbacks := (case on_token of
                        None \<Rightarrow> en_callbacks e
                      | Some c \<Rightarrow> (en_callbacks e)(rid \<mapsto>
                          (case en_callbacks e rid of None \<Rightarrow> [] | Some cs \<Rightarrow> cs) @ [c]))\<rparr>
         in case sv_add_request rid seqs (en_sched e1) of (r, sched1) \<Rightarrow> (r, e1\<lparr>en_sched := sched1\<rparr>)))"

definition pending_request_ids :: "'d serving_engine \<Rightarrow> string list" where
  "pending_request_ids e =
     map fst (filter (\<lambda>(rid, ids). \<exists>i \<in> set ids. i \<in> en_sequences e \<and>
         sv_status (en_sched e) i \<in> {WAITING, PREFILL, DECODE, SWAPPED}) (en_request_seqs e))"

definition has_pending_requests :: "'d serving_engine \<Rightarrow> bool" where
  "has_pending_requests e \<longleftrightarrow> pending_request_ids e \<noteq> []"

definition is_request_finished :: "'d serving_engine \<Rightarrow> string \<Rightarrow> bool" where
  "is_request_finished e rid =
     (case map_of (en_request_seqs e) rid of
        None \<Rightarrow> False
      | Some ids \<Rightarrow> ids \<noteq> [] \<and>
          (\<forall>i \<in> set ids. i \<in> en_sequences e \<longrightarrow> sv_status (en_sched e) i = FINISHED))"

definition get_request_n_outputs :: "'d serving_engine \<Rightarrow> string \<Rightarrow> int list list result" where
  "get_request_n_outputs e rid =
     (case map_of (en_outputs e) rid of
        None \<Rightarrow> Inl KeyError
      | Some outs \<Rightarrow>
          map_result (\<lambda>i. case map_of outs i of None \<Rightarrow> Inl KeyError | Some ts \<Rightarrow> Inr ts)
            (case map_of (en_request_seqs e) rid of None \<Rightarrow> [] | Some ids \<Rightarrow> ids))"

definition en_abort_request :: "string \<Rightarrow> 'd serving_engine \<Rightarrow> ('d serving_engine, unit) outcome" where
  "en_abort_request rid e =
     (let ids = (case map_of (en_request_seqs e) rid of None \<Rightarrow> [] | Some ids \<Rightarrow> ids);
          was_pending = (\<exists>i \<in> set ids. i \<in> en_sequences e \<and>
            sv_status (en_sched e) i \<in> {WAITING, PREFILL, DECODE, SWAPPED})
      in case sv_abort_request rid (en_sched e) of
           (Inl err, sched1) \<Rightarrow> (Inl err, e\<lparr>en_sched := sched1\<rparr>)
         | (Inr _, sched1) \<Rightarrow>
             (let e1 = e\<lparr>en_sched := sched1, en_callbacks := (en_callbacks e)(rid := None)\<rparr>
              in if \<not> was_pending then (Inr (), e1)
                 else (Inr (), e1\<lparr>en_notified := en_notified e1 @ [(rid, False)], en_cancelled := insert rid (en_cancelled e1),
                                  en_outputs := AList.delete rid (en_outputs e1),
                                  en_request_seqs := AList.delete rid (en_request_seqs e1),
                                  en_seq_request := (\<lambda>i. if i \<in> set ids then None else en_seq_request e1 i),
                                  en_sequences := en_sequences e1 - set ids\<rparr>)))"

section \<open>A step\<close>

record ('d, 'r) engine_env =
  env_paged :: bool
  env_execute :: "int \<Rightarrow> batch_metadata \<Rightarrow> 'r list result"
  env_pages :: "int \<Rightarrow> batch_metadata \<Rightarrow> (int \<Rightarrow> 'd) \<Rightarrow> int \<Rightarrow> 'd"
  env_junk :: 'r
  env_sample :: "int \<Rightarrow> 'r list \<Rightarrow> sv_sampling_params list \<Rightarrow> int list"
  env_decode :: "int list \<Rightarrow> string option"
  env_predict :: "cp_manager option"

definition execute_batch :: "('d, 'r) engine_env \<Rightarrow> int \<Rightarrow> batch_metadata \<Rightarrow> 'r list result" where
  "execute_batch env k b =
     (let has_prefill = (True \<in> set (is_prefill b));
          has_decode = (False \<in> set (is_prefill b))
      in if \<not> env_paged env \<or> \<not> (has_prefill \<and> has_decode) then env_execute env k b
         else case split_prefill_decode_batch b of
                Inl e \<Rightarrow> Inl e
              | Inr sp \<Rightarrow>
                  (let run = (\<lambda>sub. case sub of None \<Rightarrow> Inr None | Some sb \<Rightarrow> map_sum id Some (env_execute env k sb))
                   in case run (prefill_batch sp) of
                        Inl e \<Rightarrow> Inl e
                      | Inr pre \<Rightarrow>
                          (case run (decode_batch sp) of
                             Inl e \<Rightarrow> Inl e
                           | Inr dec \<Rightarrow> recombine_outputs (env_junk env) sp pre dec)))"

definition extract_last_token_logits :: "'r list \<Rightarrow> batch_metadata \<Rightarrow> 'r list result" where
  "extract_last_token_logits logits b =
     map_result (\<lambda>(i, n).
       if n = 0 then Inl RuntimeError
       else let k = token_offsets b ! (i + 1) - 1
            in if k < length logits then Inr (logits ! k) else Inl IndexError)
       (zip [0..<length (seq_lengths b)] (seq_lengths b))"

definition ends_with :: "string \<Rightarrow> string \<Rightarrow> bool" where
  "ends_with xs ys \<longleftrightarrow> length ys \<le> length xs \<and> drop (length xs - length ys) xs = ys"

definition get_finish_reason ::
  "('d, 'r) engine_env \<Rightarrow> int option \<Rightarrow> sequence_data \<Rightarrow> int \<Rightarrow> string option" where
  "get_finish_reason env eos q token =
     (if eos = Some token then Some ''stop''
      else if int (length (output_token_ids q)) \<ge> max_tokens (seq_sampling_params q) then Some ''length''
      else if stop (seq_sampling_params q) = [] then None
      else case env_decode env (output_token_ids q) of
             None \<Rightarrow> None
           | Some text \<Rightarrow>
               if \<exists>t \<in> set (stop (seq_sampling_params q)). ends_with text t then Some ''stop'' else None)"

definition build_usage :: "sequence_data \<Rightarrow> int \<times> int \<times> int" where
  "build_usage q =
     (prompt_length q, int (length (output_token_ids q)), prompt_length q + int (length (output_token_ids q)))"

text \<open>
  One sampled token: it is appended to the sequence and to the outputs of its
  request. The loop collects the outputs and the completed and continuing ids.
\<close>

definition append_outputs :: "string \<Rightarrow> int \<Rightarrow> int \<Rightarrow> 'd serving_engine \<Rightarrow> 'd serving_engine option" where
  "append_outputs rid sid token e =
     (case map_of (en_outputs e) rid of
        None \<Rightarrow> None
      | Some outs \<Rightarrow>
          (case map_of outs sid of
             None \<Rightarrow> None
           | Some ts \<Rightarrow> Some (e\<lparr>en_outputs := AList.update rid (AList.update sid (ts @ [token]) outs) (en_outputs e)\<rparr>)))"

definition accept_token ::
  "('d, 'r) engine_env \<Rightarrow> int \<Rightarrow> int option \<Rightarrow> 'd serving_engine \<Rightarrow> ('d serving_engine, request_output) outcome" where
  "accept_token env sid sampled e =
     (if sid \<notin> en_sequences e then (Inl KeyError, e)
      else case (en_seq_request e sid, sampled) of
             (None, _) \<Rightarrow> (Inl KeyError, e)
           | (Some rid, None) \<Rightarrow> (Inl IndexError, e)
           | (Some rid, Some token) \<Rightarrow>
               (case append_output_token token (sv_heap (en_sched e) sid) of
                  (Inl err, _) \<Rightarrow> (Inl err, e)
                | (Inr _, q) \<Rightarrow>
                    (let e1 = e\<lparr>en_sched := (en_sched e)\<lparr>sv_heap := (sv_heap (en_sched e))(sid := q)\<rparr>\<rparr>
                     in case append_outputs rid sid token e1 of
                          None \<Rightarrow> (Inl KeyError, e1)
                        | Some e2 \<Rightarrow>
                            (let reason = get_finish_reason env (en_eos e) q token
                             in (Inr \<lparr>ro_request_id = rid, ro_seq_id = sid, ro_token_id = token,
                                      ro_text = env_decode env [token], ro_finished = (reason \<noteq> None),
                                      ro_reason = reason,
                                      ro_usage = (if reason \<noteq> None then Some (build_usage q) else None)\<rparr>,
                                 e2\<lparr>en_generated := en_generated e2 + 1\<rparr>)))))"

fun token_loop ::
  "('d, 'r) engine_env \<Rightarrow> int list \<Rightarrow> int list \<Rightarrow> request_output list \<Rightarrow> 'd serving_engine \<Rightarrow>
   ('d serving_engine, request_output list) outcome" where
  "token_loop env [] tokens acc e = (Inr acc, e)"
| "token_loop env (sid # sids) tokens acc e =
     andthen (accept_token env sid (opt_hd tokens) e) (\<lambda>out e1. token_loop env sids (tl tokens) (acc @ [out]) e1)"

definition finish_requests :: "request_output list \<Rightarrow> 'd serving_engine \<Rightarrow> 'd serving_engine" where
  "finish_requests outs e =
     (let finished = filter (is_request_finished e) (remdups (map ro_request_id outs));
          calls = concat (map (\<lambda>out. map (\<lambda>c. (c, out))
                    (case en_callbacks e (ro_request_id out) of None \<Rightarrow> [] | Some cs \<Rightarrow> cs)) outs)
      in e\<lparr>en_completed := en_completed e \<union> set finished, en_log := en_log e @ calls,
           en_notified := en_notified e @ map (\<lambda>r. (r, True)) finished,
           en_callbacks := (\<lambda>r. if r \<in> set finished then None else en_callbacks e r)\<rparr>)"

definition with_sched ::
  "('d serving_scheduler \<Rightarrow> ('d serving_scheduler, 'a) outcome) \<Rightarrow> 'd serving_engine \<Rightarrow> ('d serving_engine, 'a) outcome" where
  "with_sched f e = (case f (en_sched e) of (r, sched) \<Rightarrow> (r, e\<lparr>en_sched := sched\<rparr>))"

definition write_pages :: "('d, 'r) engine_env \<Rightarrow> batch_metadata \<Rightarrow> 'd serving_engine \<Rightarrow> 'd serving_engine" where
  "write_pages env b e =
     (let s = en_sched e; kv = sv_kv s
      in e\<lparr>en_sched := s\<lparr>sv_kv := kv\<lparr>pk_data := env_pages env (en_num_steps e) b (pk_data kv)\<rparr>\<rparr>\<rparr>)"

definition run_batch ::
  "('d, 'r) engine_env \<Rightarrow> batch_metadata \<Rightarrow> 'd serving_engine \<Rightarrow> ('d serving_engine, int list) outcome" where
  "run_batch env b e =
     (let k = en_num_steps e; e1 = write_pages env b e
      in case execute_batch env k b of
           Inl err \<Rightarrow> (Inl err, e1)
         | Inr logits \<Rightarrow>
             (case extract_last_token_logits logits b of
                Inl err \<Rightarrow> (Inl err, e1)
              | Inr rows \<Rightarrow> (Inr (env_sample env k rows (batch_params b)), e1)))"

definition en_step ::
  "('d, 'r) engine_env \<Rightarrow> 'd serving_engine \<Rightarrow> ('d serving_engine, request_output list) outcome" where
  "en_step env e =
     andthen (with_sched (sv_schedule (env_predict env)) e) (\<lambda>out e1.
       if prefill_seq_ids out = [] \<and> decode_seq_ids out = [] then (Inr [], e1)
       else case from_scheduler_output out (en_dict e1) (sv_kv (en_sched e1)) of
              Inl err \<Rightarrow> (Inl err, e1)
            | Inr b \<Rightarrow>
                if total_tokens b = 0 then (Inl RuntimeError, e1)
                else
                  andthen (run_batch env b e1) (\<lambda>tokens e2.
                  andthen (token_loop env (seq_ids b) tokens [] e2) (\<lambda>outs e3.
                    let completed = map ro_seq_id (filter ro_finished outs);
                        continuing = map ro_seq_id (filter (\<lambda>x. \<not> ro_finished x) outs)
                    in andthen (with_sched (update_after_step completed continuing) e3) (\<lambda>_ e4.
                         (Inr outs, finish_requests outs (e4\<lparr>en_num_steps := en_num_steps e4 + 1\<rparr>))))))"

text \<open>\<^verbatim>\<open>while self.has_pending_requests(): ...\<close>, which need not end by itself.\<close>

datatype formatted = One "int list" | Many "int list list"

definition format_request_outputs :: "'d serving_engine \<Rightarrow> string \<Rightarrow> formatted result" where
  "format_request_outputs e rid =
     (case get_request_n_outputs e rid of
        Inl err \<Rightarrow> Inl err
      | Inr outs \<Rightarrow> Inr (if length outs = 1 then One (hd outs) else Many outs))"

partial_function (option) run_until_done ::
  "('d, 'r) engine_env \<Rightarrow> 'd serving_engine \<Rightarrow> ('d serving_engine, (string \<times> formatted) list) outcome option" where
  "run_until_done env e =
     (if has_pending_requests e
      then (case en_step env e of
              (Inl err, e1) \<Rightarrow> Some (Inl err, e1)
            | (Inr outs, e1) \<Rightarrow>
                if outs \<noteq> [] then run_until_done env e1 else Some (Inl RuntimeError, e1))
      else Some (map_result (\<lambda>rid. map_sum id (Pair rid) (format_request_outputs e rid)) (keys (en_outputs e)), e))"


section \<open>Tokens that may still be generated\<close>

definition token_limit :: "sequence_data \<Rightarrow> nat" where
  "token_limit q = nat (max 1 (max_tokens (seq_sampling_params q)))"

definition tokens_left :: "sequence_data \<Rightarrow> nat" where
  "tokens_left q = (if active (seq_status q) then token_limit q - length (output_token_ids q) else 0)"

definition seq_bounded :: "sequence_data \<Rightarrow> bool" where
  "seq_bounded q \<longleftrightarrow> length (output_token_ids q) \<le> token_limit q \<and>
     (active (seq_status q) \<longrightarrow> length (output_token_ids q) < token_limit q)"

definition en_left :: "'d serving_engine \<Rightarrow> nat" where
  "en_left e = (\<Sum>i \<in> en_sequences e. tokens_left (sv_heap (en_sched e) i))"

definition en_ok :: "'d serving_engine \<Rightarrow> bool" where
  "en_ok e \<longleftrightarrow>
     sv_ok {#} (en_sched e) \<and> finite (en_sequences e) \<and>
     (\<forall>i \<in> sv_sequence_map (en_sched e). i < en_next_seq_id e) \<and>
     (\<forall>i \<in> en_sequences e. i < en_next_seq_id e \<and> seq_bounded (sv_heap (en_sched e) i))"

lemma token_limit_status [simp]: "token_limit (q\<lparr>seq_status := st\<rparr>) = token_limit q"
  by (simp add: token_limit_def)

lemma new_sequence_bounded: "seq_bounded (new_sequence i p params)"
  by (simp add: seq_bounded_def new_sequence_def token_limit_def)

text \<open>The scheduler's state when only its heap is replaced.\<close>

lemma sv_ok_heap:
  assumes "sv_ok E s" and st: "\<And>i. i \<in> sv_sequence_map s \<Longrightarrow> seq_status (h i) = seq_status (sv_heap s i)"
  shows "sv_ok E (s\<lparr>sv_heap := h\<rparr>)"
proof -
  let ?s = "s\<lparr>sv_heap := h\<rparr>"
  have q: "sv_queues ?s = sv_queues s" "sv_keys ?s = sv_keys s" by (simp_all add: sv_queues_def sv_keys_def)
  have t: "sv_tables_ok s" and p: "sv_places_ok s" using assms(1) by (simp_all add: sv_ok_def)
  have "seq_status (h i) = seq_status (sv_heap s i)" if "g \<in> set (sv_queues s)" "i \<in> set (sequence_ids g)" for g i
    using st t that by (auto simp: sv_tables_ok_def)
  then have "waiting_ok h K g = waiting_ok (sv_heap s) K g" "placed_ok A h K g = placed_ok A (sv_heap s) K g"
    if "g \<in> set (sv_queues s)" for g A K
    using that by (auto intro!: waiting_ok_cong placed_ok_cong)
  then have "sv_places_ok ?s" using p unfolding sv_places_ok_def q by (simp add: sv_queues_def)
  moreover have "sv_tables_ok ?s" using t unfolding sv_tables_ok_def q by simp
  ultimately show ?thesis using assms(1) by (simp add: sv_ok_def)
qed

lemma sv_ok_pages: "sv_ok E s \<Longrightarrow> sv_ok E (s\<lparr>sv_kv := (sv_kv s)\<lparr>pk_data := d\<rparr>\<rparr>)"
  by (rule sv_ok_same_status [where kv = "(sv_kv s)\<lparr>pk_data := d\<rparr>" and h = "sv_heap s"])
    (auto simp: sv_ok_def sv_keys_def pk_ok_def)

section \<open>One token per scheduled sequence\<close>

lemma accept_token_spec:
  assumes "accept_token env i tok e = (Inr out, e')"
  shows "i \<in> en_sequences e" and "ro_seq_id out = i" and "en_sequences e' = en_sequences e"
    and "en_next_seq_id e' = en_next_seq_id e"
    and "\<exists>q t. append_output_token t (sv_heap (en_sched e) i) = (Inr (), q) \<and>
      en_sched e' = (en_sched e)\<lparr>sv_heap := (sv_heap (en_sched e))(i := q)\<rparr> \<and>
      (\<not> ro_finished out \<longrightarrow> int (length (output_token_ids q)) < max_tokens (seq_sampling_params q))"
proof -
  obtain rid t q e1 e2 where
    e1: "i \<in> en_sequences e" "en_seq_request e i = Some rid" "append_output_token t (sv_heap (en_sched e) i) = (Inr (), q)"
      "e1 = e\<lparr>en_sched := (en_sched e)\<lparr>sv_heap := (sv_heap (en_sched e))(i := q)\<rparr>\<rparr>"
      "append_outputs rid i t e1 = Some e2" "e' = e2\<lparr>en_generated := en_generated e2 + 1\<rparr>"
      "ro_finished out = (get_finish_reason env (en_eos e) q t \<noteq> None)" "ro_seq_id out = i"
    using assms by (auto simp: accept_token_def Let_def split: if_splits option.splits prod.splits sum.splits)
  have e2: "en_sched e2 = en_sched e1" "en_sequences e2 = en_sequences e1" "en_next_seq_id e2 = en_next_seq_id e1"
    using e1(5) by (auto simp: append_outputs_def split: option.splits)
  show "i \<in> en_sequences e" "ro_seq_id out = i" using e1 by simp_all
  show "en_sequences e' = en_sequences e" "en_next_seq_id e' = en_next_seq_id e" using e1 e2 by simp_all
  show "\<exists>q t. append_output_token t (sv_heap (en_sched e) i) = (Inr (), q) \<and>
      en_sched e' = (en_sched e)\<lparr>sv_heap := (sv_heap (en_sched e))(i := q)\<rparr> \<and>
      (\<not> ro_finished out \<longrightarrow> int (length (output_token_ids q)) < max_tokens (seq_sampling_params q))"
    using e1 e2 by (intro exI [of _ q] exI [of _ t]) (auto simp: get_finish_reason_def split: if_splits)
qed

text \<open>A sequence after its next token.\<close>

definition one_more :: "sequence_data \<Rightarrow> sequence_data \<Rightarrow> bool" where
  "one_more q q' \<longleftrightarrow> active (seq_status q) \<and> seq_status q' = seq_status q \<and> token_limit q' = token_limit q \<and>
     seq_sampling_params q' = seq_sampling_params q \<and> length (output_token_ids q') = Suc (length (output_token_ids q))"

lemma append_one_more: "append_output_token t q = (Inr (), q') \<Longrightarrow> one_more q q'"
  by (auto simp: append_output_token_def one_more_def Let_def token_limit_def active_def split: if_splits)

lemma token_loop_spec:
  assumes "token_loop env ids toks acc e = (Inr outs, e')" and "distinct ids"
  shows "\<exists>new h. outs = acc @ new \<and> map ro_seq_id new = ids \<and> en_sequences e' = en_sequences e \<and>
    en_next_seq_id e' = en_next_seq_id e \<and> set ids \<subseteq> en_sequences e \<and>
    en_sched e' = (en_sched e)\<lparr>sv_heap := h\<rparr> \<and> (\<forall>i. i \<notin> set ids \<longrightarrow> h i = sv_heap (en_sched e) i) \<and>
    (\<forall>i \<in> set ids. one_more (sv_heap (en_sched e) i) (h i)) \<and>
    (\<forall>out \<in> set new. \<not> ro_finished out \<longrightarrow>
       int (length (output_token_ids (h (ro_seq_id out)))) < max_tokens (seq_sampling_params (h (ro_seq_id out))))"
  using assms
proof (induction ids arbitrary: toks acc e)
  case Nil
  then show ?case by (auto intro!: exI [of _ "sv_heap (en_sched e)"])
next
  case (Cons i ids)
  from Cons.prems(1) obtain out e1 where
    a: "accept_token env i (opt_hd toks) e = (Inr out, e1)" and l: "token_loop env ids (tl toks) (acc @ [out]) e1 = (Inr outs, e')"
    by (auto simp: andthen_Inr_iff)
  note sp = accept_token_spec [OF a]
  from sp(5) obtain q t where
    q: "append_output_token t (sv_heap (en_sched e) i) = (Inr (), q)"
      "en_sched e1 = (en_sched e)\<lparr>sv_heap := (sv_heap (en_sched e))(i := q)\<rparr>"
      "\<not> ro_finished out \<Longrightarrow> int (length (output_token_ids q)) < max_tokens (seq_sampling_params q)" by blast
  have d: "distinct ids" using Cons.prems(2) by simp
  from Cons.IH [OF l d] obtain new h where
    n: "outs = (acc @ [out]) @ new" "map ro_seq_id new = ids" "en_sequences e' = en_sequences e1"
      "en_next_seq_id e' = en_next_seq_id e1" "set ids \<subseteq> en_sequences e1"
      "en_sched e' = (en_sched e1)\<lparr>sv_heap := h\<rparr>" "\<And>j. j \<notin> set ids \<Longrightarrow> h j = sv_heap (en_sched e1) j"
      "\<And>j. j \<in> set ids \<Longrightarrow> one_more (sv_heap (en_sched e1) j) (h j)"
      "\<And>x. x \<in> set new \<Longrightarrow> \<not> ro_finished x \<Longrightarrow>
        int (length (output_token_ids (h (ro_seq_id x)))) < max_tokens (seq_sampling_params (h (ro_seq_id x)))"
    by blast
  have hi: "h i = q" using n(7) [of i] q(2) Cons.prems(2) by simp
  have hj: "sv_heap (en_sched e1) j = sv_heap (en_sched e) j" if "j \<noteq> i" for j using q(2) that by simp
  show ?case
  proof (intro exI [of _ "out # new"] exI [of _ h] conjI allI ballI impI)
    show "outs = acc @ (out # new)" "map ro_seq_id (out # new) = i # ids" using n(1,2) sp(2) by simp_all
    show "en_sequences e' = en_sequences e" "en_next_seq_id e' = en_next_seq_id e" using n(3,4) sp(3,4) by simp_all
    show "set (i # ids) \<subseteq> en_sequences e" using n(5) sp(1,3) by simp
    show "en_sched e' = (en_sched e)\<lparr>sv_heap := h\<rparr>" using n(6) q(2) by simp
  next
    fix j assume "j \<notin> set (i # ids)"
    then show "h j = sv_heap (en_sched e) j" using n(7) [of j] hj [of j] by simp
  next
    fix j assume "j \<in> set (i # ids)"
    then show "one_more (sv_heap (en_sched e) j) (h j)"
      using n(8) [of j] hj [of j] hi append_one_more [OF q(1)] Cons.prems(2) by (cases "j = i") auto
  next
    fix x assume "x \<in> set (out # new)" "\<not> ro_finished x"
    then show "int (length (output_token_ids (h (ro_seq_id x)))) < max_tokens (seq_sampling_params (h (ro_seq_id x)))"
      using n(9) [of x] q(3) hi sp(2) by auto
  qed
qed


section \<open>A step uses up tokens\<close>

lemma map_result_ids:
  "map_result f xs = Inr ys \<Longrightarrow> (\<And>x y. f x = Inr y \<Longrightarrow> g y = x) \<Longrightarrow> map g ys = xs"
  by (induction xs arbitrary: ys) (auto split: sum.splits)

lemma builder_seq_ids:
  assumes "from_scheduler_output out d kv = Inr b"
  shows "seq_ids b = prefill_seq_ids out @ decode_seq_ids out"
proof -
  obtain ps ds where
    v: "map_result (prefill_view d kv) (prefill_seq_ids out) = Inr ps" "map_result (decode_view d kv) (decode_seq_ids out) = Inr ds"
      "b = batch_of (ps @ ds)"
    using assms by (auto simp: from_scheduler_output_def check_batch_of split: sum.splits)
  have "map v_id ps = prefill_seq_ids out"
    by (rule map_result_ids [OF v(1)]) (auto simp: prefill_view_def split: option.splits sum.splits)
  moreover have "map v_id ds = decode_seq_ids out"
    by (rule map_result_ids [OF v(2)]) (auto simp: decode_view_def Let_def split: option.splits sum.splits)
  ultimately show ?thesis by (simp add: v(3) batch_of_def)
qed

lemma tokens_left_mono:
  assumes "seq_bounded q" and "one_more q q'" and "active st \<longrightarrow> length (output_token_ids q') < token_limit q'"
  shows "seq_bounded (q'\<lparr>seq_status := st\<rparr>)" and "tokens_left (q'\<lparr>seq_status := st\<rparr>) < tokens_left q"
  using assms by (auto simp: seq_bounded_def one_more_def tokens_left_def)

text \<open>
  The step after the batch was run: scheduled sequences got their token, then the
  update set the status of each object.
\<close>

lemma step_progress:
  fixes h0 h2 :: seq_heap
  assumes fin: "finite X" and ids: "set ids \<subseteq> X" "ids \<noteq> []"
    and b: "\<And>i. i \<in> X \<Longrightarrow> seq_bounded (h0 i)"
    and out: "\<And>i. i \<notin> set ids \<Longrightarrow> h1 i = h0 i" and more: "\<And>i. i \<in> set ids \<Longrightarrow> one_more (h0 i) (h1 i)"
    and st: "\<And>i. h2 i = (h1 i)\<lparr>seq_status := seq_status (h2 i)\<rparr>"
    and keep: "\<And>i. i \<notin> set ids \<Longrightarrow> active (seq_status (h2 i)) \<longrightarrow> active (seq_status (h1 i))"
    and lim: "\<And>i. i \<in> set ids \<Longrightarrow> active (seq_status (h2 i)) \<Longrightarrow> length (output_token_ids (h1 i)) < token_limit (h1 i)"
  shows "(\<forall>i \<in> X. seq_bounded (h2 i)) \<and> (\<Sum>i \<in> X. tokens_left (h2 i)) < (\<Sum>i \<in> X. tokens_left (h0 i))"
proof -
  have same: "token_limit (h2 i) = token_limit (h1 i)" "output_token_ids (h2 i) = output_token_ids (h1 i)" for i
    by (subst st, simp)+
  have in_ids: "seq_bounded (h2 i) \<and> tokens_left (h2 i) < tokens_left (h0 i)" if "i \<in> set ids" for i
    using tokens_left_mono [of "h0 i" "h1 i" "seq_status (h2 i)"] b [of i] more [OF that] lim [OF that] that ids(1) st [of i]
    by auto
  have not_ids: "seq_bounded (h2 i) \<and> tokens_left (h2 i) \<le> tokens_left (h0 i)" if "i \<in> X" "i \<notin> set ids" for i
    using b [OF that(1)] out [OF that(2)] keep [OF that(2)] same [of i]
    by (auto simp: seq_bounded_def tokens_left_def)
  obtain i where i: "i \<in> set ids" using ids(2) by (cases ids) auto
  have "(\<Sum>i \<in> X. tokens_left (h2 i)) < (\<Sum>i \<in> X. tokens_left (h0 i))"
  proof (rule sum_strict_mono_ex1 [OF fin])
    show "\<forall>i \<in> X. tokens_left (h2 i) \<le> tokens_left (h0 i)" using in_ids not_ids by (meson less_imp_le)
    show "\<exists>i \<in> X. tokens_left (h2 i) < tokens_left (h0 i)" using i in_ids ids(1) by blast
  qed
  with in_ids not_ids show ?thesis by blast
qed

lemma frame_tokens:
  assumes "sv_frame s s'"
  shows "tokens_left (sv_heap s' i) = tokens_left (sv_heap s i)" and "seq_bounded (sv_heap s' i) = seq_bounded (sv_heap s i)"
proof -
  have h: "sv_heap s' i = (sv_heap s i)\<lparr>seq_status := seq_status (sv_heap s' i)\<rparr>"
    and a: "active (seq_status (sv_heap s' i)) = active (seq_status (sv_heap s i))"
    using assms by (auto simp: sv_frame_def)
  have "token_limit (sv_heap s' i) = token_limit (sv_heap s i)" "output_token_ids (sv_heap s' i) = output_token_ids (sv_heap s i)"
    by (subst h, simp)+
  with a show "tokens_left (sv_heap s' i) = tokens_left (sv_heap s i)" "seq_bounded (sv_heap s' i) = seq_bounded (sv_heap s i)"
    by (simp_all add: tokens_left_def seq_bounded_def)
qed

text \<open>An update never adds to the sequence map.\<close>

lemma update_sequence_map:
  assumes ok: "sv_ok E s" and nw: "\<And>i. i \<in> set completed \<Longrightarrow> i \<in> sv_sequence_map s \<Longrightarrow> sv_status s i \<noteq> WAITING"
    and r: "update_after_step completed new s = (Inr (), s')"
  shows "sv_sequence_map s' \<subseteq> sv_sequence_map s"
proof -
  obtain s1 s2 where
    s: "for_each (advance_sequence completed) (first_occurrences new) s = (Inr (), s1)"
      "for_each complete_sequence (first_occurrences completed) s1 = (Inr (), s2)" "s' = prune_requests s2"
    using r by (auto simp: update_after_step_def andthen_Inr_iff)
  have wk: "sv_sequence_map (snd (with_kv f x)) = sv_sequence_map x"
    for f :: "'a paged_kv \<Rightarrow> ('a paged_kv, unit) outcome" and x
    by (simp add: with_kv_def split: prod.splits)
  have ss: "sv_sequence_map (snd (sv_set_status st i x)) = sv_sequence_map x" for st i and x :: "'a serving_scheduler"
    by (simp add: sv_set_status_def split: prod.splits)
  have ik: "snd (ignore_KeyError x) = snd x" for x :: "('a serving_scheduler, unit) outcome"
    by (simp add: ignore_KeyError_def split: prod.splits sum.splits)
  have a: "sv_sequence_map (snd (advance_sequence completed i x)) = sv_sequence_map x" for i and x :: "'a serving_scheduler"
    unfolding advance_sequence_def
    by (auto simp: andthen_frame [where g = sv_sequence_map] wk ss ik)
  have c: "sv_sequence_map (snd (complete_sequence i x)) = sv_sequence_map x" for i and x :: "'a serving_scheduler"
    unfolding complete_sequence_def
    by (auto simp: andthen_frame [where g = sv_sequence_map] wk ss)
  have "sv_sequence_map s2 = sv_sequence_map s"
    using for_each_frame [of sv_sequence_map "advance_sequence completed" "first_occurrences new" s, OF a]
      for_each_frame [of sv_sequence_map complete_sequence "first_occurrences completed" s1, OF c] s by simp
  then show ?thesis by (auto simp: s(3) prune_requests_def Let_def)
qed


lemma finish_requests_fields [simp]:
  "en_sched (finish_requests outs e) = en_sched e" "en_sequences (finish_requests outs e) = en_sequences e"
  "en_next_seq_id (finish_requests outs e) = en_next_seq_id e"
  by (simp_all add: finish_requests_def Let_def)

lemma with_sched_Inr:
  "with_sched f e = (Inr a, e') \<longleftrightarrow> (\<exists>s. f (en_sched e) = (Inr a, s) \<and> e' = e\<lparr>en_sched := s\<rparr>)"
  by (auto simp: with_sched_def split: prod.splits)

lemma step_cases:
  assumes "en_step env e = (Inr outs, e')"
  obtains (idle) out s1 where "sv_schedule (env_predict env) (en_sched e) = (Inr out, s1)" "outs = []"
      "e' = e\<lparr>en_sched := s1\<rparr>"
    | (busy) out s1 b tokens e2 e3 s4 where "sv_schedule (env_predict env) (en_sched e) = (Inr out, s1)"
      "prefill_seq_ids out @ decode_seq_ids out \<noteq> []"
      "from_scheduler_output out (en_dict (e\<lparr>en_sched := s1\<rparr>)) (sv_kv s1) = Inr b"
      "e2 = write_pages env b (e\<lparr>en_sched := s1\<rparr>)"
      "token_loop env (seq_ids b) tokens [] e2 = (Inr outs, e3)"
      "update_after_step (map ro_seq_id (filter ro_finished outs)) (map ro_seq_id (filter (\<lambda>x. \<not> ro_finished x) outs))
         (en_sched e3) = (Inr (), s4)"
      "e' = finish_requests outs (e3\<lparr>en_sched := s4, en_num_steps := en_num_steps e3 + 1\<rparr>)"
proof -
  from assms obtain out e1 where o: "with_sched (sv_schedule (env_predict env)) e = (Inr out, e1)"
    unfolding en_step_def andthen_Inr_iff by blast
  obtain s1 where s1: "sv_schedule (env_predict env) (en_sched e) = (Inr out, s1)" "e1 = e\<lparr>en_sched := s1\<rparr>"
    using o by (auto simp: with_sched_Inr)
  show thesis
  proof (cases "prefill_seq_ids out = [] \<and> decode_seq_ids out = []")
    case True
    with assms o have "outs = []" "e' = e1" by (auto simp: en_step_def)
    with s1 show thesis by (intro idle) auto
  next
    case False
    from assms o False obtain b where b: "from_scheduler_output out (en_dict e1) (sv_kv (en_sched e1)) = Inr b"
        "total_tokens b \<noteq> 0"
      by (auto simp: en_step_def split: sum.splits if_splits)
    from assms o False b obtain tokens e2 e3 s4 where
      r: "run_batch env b e1 = (Inr tokens, e2)" "token_loop env (seq_ids b) tokens [] e2 = (Inr outs, e3)"
        "update_after_step (map ro_seq_id (filter ro_finished outs)) (map ro_seq_id (filter (\<lambda>x. \<not> ro_finished x) outs))
           (en_sched e3) = (Inr (), s4)"
        "e' = finish_requests outs (e3\<lparr>en_sched := s4, en_num_steps := en_num_steps e3 + 1\<rparr>)"
      by (auto simp: en_step_def andthen_Inr_iff with_sched_Inr Let_def)
    have "e2 = write_pages env b e1"
      using r(1) by (auto simp: run_batch_def Let_def split: sum.splits)
    with s1 b r False show thesis by (intro busy) auto
  qed
qed

lemma step_spec:
  assumes ok: "en_ok e" and st: "en_step env e = (Inr outs, e')"
  shows "en_ok e' \<and> en_sequences e' = en_sequences e \<and> (outs \<noteq> [] \<longrightarrow> en_left e' < en_left e)"
  using st
proof (cases rule: step_cases)
  case (idle out s1)
  from ok have "sv_ok {#} (en_sched e)" by (simp add: en_ok_def)
  from schedule_spec [OF this, of "env_predict env"] idle(1) have "sv_ok {#} s1" "sv_frame (en_sched e) s1" by auto
  with ok idle frame_tokens [OF this(2)] show ?thesis by (simp add: en_ok_def sv_frame_def)
next
  case (busy out s1 b tokens e2 e3 s4)
  from ok have "sv_ok {#} (en_sched e)" by (simp add: en_ok_def)
  from schedule_spec [OF this, of "env_predict env"] busy(1) have
    s1: "sv_ok {#} s1" "sv_frame (en_sched e) s1" "batch_ok s1 out" by auto
  let ?ids = "seq_ids b"
  have ids: "?ids = prefill_seq_ids out @ decode_seq_ids out" using builder_seq_ids [OF busy(3)] .
  have di: "distinct ?ids" using s1(3) by (simp add: ids batch_ok_def)
  have run: "sv_status s1 i \<in> {PREFILL, SWAPPED, DECODE} \<and> i \<in> sv_sequence_map s1" if "i \<in> set ?ids" for i
  proof -
    have "i \<in> sv_keys s1" "sv_status s1 i \<in> {PREFILL, SWAPPED, DECODE}" using s1(3) that by (auto simp: ids batch_ok_def)
    moreover have "sv_tables_ok s1" using s1(1) by (simp add: sv_ok_def)
    ultimately show ?thesis using sv_keys_queued by metis
  qed
  define s2 where "s2 = en_sched e2"
  have e2: "en_sequences e2 = en_sequences e" "en_next_seq_id e2 = en_next_seq_id e" "sv_heap s2 = sv_heap s1"
      "sv_sequence_map s2 = sv_sequence_map s1"
    by (simp_all add: busy(4) write_pages_def Let_def s2_def)
  have ok2: "sv_ok {#} s2" using sv_ok_pages [OF s1(1)] by (simp add: busy(4) write_pages_def Let_def s2_def)
  from token_loop_spec [OF busy(5) di] obtain h where
    t: "map ro_seq_id outs = ?ids" "en_sequences e3 = en_sequences e" "en_next_seq_id e3 = en_next_seq_id e"
      "set ?ids \<subseteq> en_sequences e" "en_sched e3 = s2\<lparr>sv_heap := h\<rparr>"
      "\<And>i. i \<notin> set ?ids \<Longrightarrow> h i = sv_heap s1 i" "\<And>i. i \<in> set ?ids \<Longrightarrow> one_more (sv_heap s1 i) (h i)"
      "\<And>x. x \<in> set outs \<Longrightarrow> \<not> ro_finished x \<Longrightarrow>
         int (length (output_token_ids (h (ro_seq_id x)))) < max_tokens (seq_sampling_params (h (ro_seq_id x)))"
    unfolding s2_def [symmetric] e2 by (metis (no_types, lifting) append_Nil)
  have hst: "seq_status (h i) = seq_status (sv_heap s1 i)" for i
    using t(6,7) [of i] by (cases "i \<in> set ?ids") (auto simp: one_more_def)
  let ?comp = "map ro_seq_id (filter ro_finished outs)"
  have ok3: "sv_ok {#} (en_sched e3)" unfolding t(5) by (rule sv_ok_heap [OF ok2]) (simp add: hst e2)
  have sm3: "sv_sequence_map (en_sched e3) = sv_sequence_map s1" "sv_status (en_sched e3) i = sv_status s1 i" for i
    by (simp_all add: t(5) e2 sv_status_def hst)
  have h3: "sv_heap (en_sched e3) = h" by (simp add: t(5))
  have csub: "set ?comp \<subseteq> set ?ids" using t(1) by (metis filter_is_subset image_mono set_map)
  have nw: "sv_status (en_sched e3) i \<noteq> WAITING" if "i \<in> set ?comp" for i
    using run [of i] csub that sm3(2) [of i] by auto
  from update_spec [OF ok3 nw busy(6)] have
    u: "sv_ok {#} s4" "\<And>i. sv_heap s4 i = (h i)\<lparr>seq_status := sv_status s4 i\<rparr>"
      "\<And>i. sv_status s4 i = FINISHED \<longleftrightarrow> sv_status s1 i = FINISHED \<or>
          i \<in> set ?comp \<and> i \<in> sv_sequence_map s1 \<and> active (sv_status s1 i)"
      "\<And>i. sv_status s4 i = CANCELLED \<longleftrightarrow> sv_status s1 i = CANCELLED"
    unfolding sm3 h3 by auto
  have usub: "sv_sequence_map s4 \<subseteq> sv_sequence_map (en_sched e)"
    using update_sequence_map [OF ok3 nw busy(6)] s1(2) by (simp add: sm3 sv_frame_def)
  have fin: "finite (en_sequences e)" using ok by (simp add: en_ok_def)
  have bd: "seq_bounded (sv_heap s1 i)" if "i \<in> en_sequences e" for i
    using ok that frame_tokens(2) [OF s1(2), of i] by (simp add: en_ok_def)
  have prog: "(\<forall>i \<in> en_sequences e. seq_bounded (sv_heap s4 i)) \<and>
      (\<Sum>i \<in> en_sequences e. tokens_left (sv_heap s4 i)) < (\<Sum>i \<in> en_sequences e. tokens_left (sv_heap s1 i))"
  proof (rule step_progress [where ?h1.0 = h and ids = ?ids])
    show "?ids \<noteq> []" using busy(2) by (simp add: ids)
    show "sv_heap s4 i = (h i)\<lparr>seq_status := seq_status (sv_heap s4 i)\<rparr>" for i using u(2) [of i] by (simp add: sv_status_def)
    show "active (seq_status (sv_heap s4 i)) \<longrightarrow> active (seq_status (h i))" for i
      using u(3,4) [of i] by (auto simp: active_def sv_status_def hst)
    show "length (output_token_ids (h i)) < token_limit (h i)" if "i \<in> set ?ids" "active (seq_status (sv_heap s4 i))" for i
    proof -
      have "i \<notin> set ?comp" using that u(3) [of i] run [OF that(1)] by (auto simp: sv_status_def)
      moreover from that(1) obtain x where x: "x \<in> set outs" "ro_seq_id x = i" unfolding t(1) [symmetric] by auto
      ultimately have "\<not> ro_finished x" by auto
      from t(8) [OF x(1) this] x(2) show ?thesis by (simp add: token_limit_def)
    qed
  qed (use fin t bd in auto)
  have "en_left e' < en_left e"
    using prog frame_tokens(1) [OF s1(2)] t(2) by (simp add: en_left_def busy(7))
  moreover have "en_ok e'"
    using ok u(1) prog usub t(2,3) fin by (auto simp: en_ok_def busy(7))
  ultimately show ?thesis using t(2) by (simp add: busy(7))
qed


section \<open>Reachable engines\<close>

lemma register_known:
  assumes "\<And>q. q \<in> set qs \<Longrightarrow> seq_status q = WAITING \<and> sv_heap s (seq_id q) = q"
  shows "sv_heap (snd (for_each register_sequence qs s)) = sv_heap s"
  using assms
proof (induction qs arbitrary: s)
  case (Cons q qs)
  have q: "seq_status q = WAITING" "sv_heap s (seq_id q) = q" using Cons.prems by simp_all
  obtain r s1 where r: "register_sequence q s = (r, s1)" by fastforce
  have "sv_heap s1 = sv_heap s" using r q by (auto simp: register_sequence_def fun_upd_idem split: if_splits)
  with Cons.IH [of s1] Cons.prems r show ?case by (cases r) simp_all
qed simp

lemma register_map:
  "sv_sequence_map (snd (for_each register_sequence qs s)) \<subseteq> sv_sequence_map s \<union> set (map seq_id qs)"
proof (induction qs arbitrary: s)
  case (Cons q qs)
  obtain r s1 where r: "register_sequence q s = (r, s1)" by fastforce
  have "sv_sequence_map s1 \<subseteq> insert (seq_id q) (sv_sequence_map s)"
    using r by (auto simp: register_sequence_def split: if_splits prod.splits sum.splits)
  with Cons.IH [of s1] r show ?case by (cases r) auto
qed simp

lemma sv_add_known:
  assumes "\<And>q. q \<in> set qs \<Longrightarrow> seq_status q = WAITING \<and> sv_heap s (seq_id q) = q"
    and "sv_add_request rid qs s = (r, s')"
  shows "sv_heap s' = sv_heap s" and "sv_sequence_map s' \<subseteq> sv_sequence_map s \<union> set (map seq_id qs)"
proof -
  obtain r1 s1 where f: "for_each register_sequence qs s = (r1, s1)" by fastforce
  have "sv_heap s1 = sv_heap s" "sv_sequence_map s1 \<subseteq> sv_sequence_map s \<union> set (map seq_id qs)"
    using register_known [of qs s, OF assms(1)] register_map [of qs s] f by auto
  moreover have "sv_heap s' = sv_heap s1 \<and> sv_sequence_map s' = sv_sequence_map s1 \<or> s' = s"
    using assms(2) f by (cases r1) (auto simp: sv_add_request_def Let_def split: if_splits)
  ultimately show "sv_heap s' = sv_heap s" "sv_sequence_map s' \<subseteq> sv_sequence_map s \<union> set (map seq_id qs)" by auto
qed

lemma add_ok:
  assumes ok: "en_ok e" and r: "en_add_request rid prompt params cb n e = (r, e')"
  shows "en_ok e'"
proof (cases "od_mem rid (en_request_seqs e) \<or> n \<le> 0")
  case True
  with r have "e' = e" unfolding en_add_request_def by (auto split: if_splits)
  with ok show ?thesis by simp
next
  case False
  define ids where "ids = [en_next_seq_id e..en_next_seq_id e + n - 1]"
  define seqs where "seqs = map (\<lambda>i. new_sequence i prompt params) ids"
  define h where "h = (\<lambda>i. if i \<in> set ids then new_sequence i prompt params else sv_heap (en_sched e) i)"
  define s0 where "s0 = (en_sched e)\<lparr>sv_heap := h\<rparr>"
  obtain r1 s1 where a: "sv_add_request rid seqs s0 = (r1, s1)" by fastforce
  have e': "en_sched e' = s1" "en_sequences e' = en_sequences e \<union> set ids" "en_next_seq_id e' = en_next_seq_id e + n"
    using r False a by (auto simp: en_add_request_def Let_def ids_def seqs_def h_def s0_def)
  have ids: "i \<in> set ids \<longleftrightarrow> en_next_seq_id e \<le> i \<and> i < en_next_seq_id e + n" for i by (auto simp: ids_def)
  have "sv_ok {#} s0" unfolding s0_def
    by (rule sv_ok_heap) (use ok in \<open>auto simp: en_ok_def h_def ids\<close>)
  moreover have "seqs \<noteq> []" using False by (simp add: seqs_def ids_def)
  ultimately have s1: "sv_ok {#} s1" using add_request_spec a by blast
  have "seq_status q = WAITING \<and> sv_heap s0 (seq_id q) = q" if "q \<in> set seqs" for q
    using that by (auto simp: seqs_def s0_def h_def new_sequence_def)
  note kn = sv_add_known [OF this a]
  have hp: "sv_heap s1 = h" using kn(1) by (simp add: s0_def)
  have "set (map seq_id seqs) = set ids" by (auto simp: seqs_def new_sequence_def)
  with kn(2) have sm: "sv_sequence_map s1 \<subseteq> sv_sequence_map (en_sched e) \<union> set ids" by (simp add: s0_def)
  have "i < en_next_seq_id e + n" if "i \<in> sv_sequence_map s1" for i
    using sm that ok False ids [of i] by (fastforce simp: en_ok_def)
  moreover have "i < en_next_seq_id e + n \<and> seq_bounded (h i)" if "i \<in> en_sequences e \<union> set ids" for i
    using that ok False ids [of i] new_sequence_bounded [of i prompt params] by (auto simp: en_ok_def h_def)
  moreover have "finite (en_sequences e')" using ok by (simp add: e' en_ok_def)
  ultimately show ?thesis using s1 by (simp add: en_ok_def e' hp)
qed

lemma abort_heap:
  assumes ok: "sv_ok E s" and a: "sv_abort_request rid s = (r, s')"
  shows "seq_bounded (sv_heap s i) \<Longrightarrow> seq_bounded (sv_heap s' i)" and "sv_sequence_map s' \<subseteq> sv_sequence_map s"
proof -
  have *: "(seq_bounded (sv_heap s i) \<longrightarrow> seq_bounded (sv_heap s' i)) \<and> sv_sequence_map s' \<subseteq> sv_sequence_map s"
  proof (cases "map_of (sv_request_map s) rid")
    case None
    with a show ?thesis by (simp add: sv_abort_request_def)
  next
    case (Some g)
    have "pk_ok E (sv_kv s)" using ok by (simp add: sv_ok_def)
    from cancel_loop [OF this, of "sequence_ids g"] obtain kv where
      c: "for_each cancel_sequence (sequence_ids g) s = (Inr (), s\<lparr>sv_kv := kv,
          sv_heap := mark CANCELLED {i \<in> set (sequence_ids g). active (sv_status s i)} (sv_heap s)\<rparr>)" by blast
    have "sv_heap (prune_requests x) = sv_heap x" "sv_sequence_map (prune_requests x) \<subseteq> sv_sequence_map x"
      for x :: "'a serving_scheduler" by (auto simp: prune_requests_def Let_def)
    with a Some c have "sv_heap s' = mark CANCELLED {i \<in> set (sequence_ids g). active (sv_status s i)} (sv_heap s)"
      "sv_sequence_map s' \<subseteq> sv_sequence_map s"
      by (fastforce simp: sv_abort_request_def Let_def)+
    then show ?thesis by (auto simp: seq_bounded_def mark_def)
  qed
  then show "seq_bounded (sv_heap s i) \<Longrightarrow> seq_bounded (sv_heap s' i)" "sv_sequence_map s' \<subseteq> sv_sequence_map s"
    by blast+
qed

lemma en_abort_ok:
  assumes ok: "en_ok e" and r: "en_abort_request rid e = (r, e')"
  shows "en_ok e'"
proof -
  have sok: "sv_ok {#} (en_sched e)" using ok by (simp add: en_ok_def)
  obtain v s1 where a: "sv_abort_request rid (en_sched e) = (v, s1)" by fastforce
  from abort_spec [OF sok, of rid] a have s1: "sv_ok {#} s1" "v = Inr ()" by auto
  have e': "en_sched e' = s1" "en_sequences e' \<subseteq> en_sequences e" "en_next_seq_id e' = en_next_seq_id e"
    using r a s1(2) by (auto simp: en_abort_request_def Let_def split: if_splits)
  show ?thesis
    using ok s1 e' abort_heap [OF sok a] finite_subset [OF e'(2)] unfolding en_ok_def e' by blast
qed

inductive en_reach :: "('d, 'r) engine_env \<Rightarrow> 'd serving_engine \<Rightarrow> bool" for env where
  new: "engine_new cfg cuda model eos z h = Inr (e, m) \<Longrightarrow> en_reach env e"
| add: "en_reach env e \<Longrightarrow> en_add_request rid prompt params cb n e = (r, e') \<Longrightarrow> en_reach env e'"
| step: "en_reach env e \<Longrightarrow> en_step env e = (Inr outs, e') \<Longrightarrow> en_reach env e'"
| abort: "en_reach env e \<Longrightarrow> en_abort_request rid e = (r, e') \<Longrightarrow> en_reach env e'"

lemma engine_new_sched:
  assumes "engine_new cfg cuda model eos z h = Inr (e, m)"
  obtains kv nb bs nl nh hdim mb mt s eos' where "paged_kv_init z nb bs nl nh hdim = Inr kv" "sv_init h kv mb mt = Inr s"
    "e = engine_init s eos'"
  using assms by (auto simp: engine_new_def rbind_def split: sum.splits prod.splits option.splits)

lemma en_reach_ok: "en_reach env e \<Longrightarrow> en_ok e"
proof (induction rule: en_reach.induct)
  case (new cfg cuda model eos z h e m)
  then obtain kv nb bs nl nh hdim mb mt s eos' where
    n: "paged_kv_init z nb bs nl nh hdim = Inr kv" "sv_init h kv mb mt = Inr s" "e = engine_init s eos'"
    by (rule engine_new_sched)
  have "sv_ok {#} s" using sv_reach_ok [OF sv_reach.init [OF n(1,2)]] .
  moreover have "sv_sequence_map s = {}" using n(2) by (auto simp: sv_init_def split: if_splits)
  ultimately show ?case by (simp add: n(3) engine_init_def en_ok_def)
next
  case (add e rid prompt params cb n r e')
  then show ?case using add_ok by blast
next
  case (step e outs e')
  then show ?case using step_spec by blast
next
  case (abort e rid r e')
  then show ?case using en_abort_ok by blast
qed

lemma run_terminates:
  "en_ok e \<Longrightarrow> \<exists>r e'. run_until_done env e = Some (r, e') \<and>
     (\<forall>res. r = Inr res \<longrightarrow> \<not> has_pending_requests e' \<and> en_ok e' \<and> en_sequences e' = en_sequences e)"
proof (induction "en_left e" arbitrary: e rule: less_induct)
  case less
  show ?case
  proof (cases "has_pending_requests e")
    case False
    with less.prems show ?thesis by (simp add: run_until_done.simps)
  next
    case True
    obtain v e1 where v: "en_step env e = (v, e1)" by fastforce
    show ?thesis
    proof (cases v)
      case (Inl err)
      with True v show ?thesis by (subst run_until_done.simps) simp
    next
      case (Inr outs)
      note sp = step_spec [OF less.prems v [unfolded Inr]]
      show ?thesis
      proof (cases "outs = []")
        case o: True
        with True v Inr show ?thesis by (subst run_until_done.simps) simp
      next
        case o: False
        with True v Inr have "run_until_done env e = run_until_done env e1" by (subst run_until_done.simps) simp
        with less.hyps [of e1] sp o show ?thesis by auto
      qed
    qed
  qed
qed

section \<open>Properties\<close>

text \<open>
  C4: \<^verbatim>\<open>run_until_done\<close> always ends, for every model, sampler and tokenizer: each step that
  returns outputs uses up at least one of the tokens the sequences may still
  generate. If it returns normally no request is pending, and no sequence ever
  gets more tokens than its \<^verbatim>\<open>max_tokens\<close> (but at least one).
\<close>

theorem run_until_done_terminates:
  assumes "en_reach env e"
  shows "\<exists>r e'. run_until_done env e = Some (r, e') \<and>
    (\<forall>res. r = Inr res \<longrightarrow> pending_request_ids e' = [] \<and>
      (\<forall>i \<in> en_sequences e. length (output_token_ids (sv_heap (en_sched e') i))
         \<le> nat (max 1 (max_tokens (seq_sampling_params (sv_heap (en_sched e') i))))))"
proof -
  from run_terminates [OF en_reach_ok [OF assms], of env] obtain r e' where
    r: "run_until_done env e = Some (r, e')" "\<And>res. r = Inr res \<Longrightarrow>
      \<not> has_pending_requests e' \<and> en_ok e' \<and> en_sequences e' = en_sequences e" by blast
  show ?thesis
  proof (intro exI conjI allI impI)
    show "run_until_done env e = Some (r, e')" by (rule r(1))
    fix res assume "r = Inr res"
    note f = r(2) [OF this]
    then show "pending_request_ids e' = []" by (simp add: has_pending_requests_def)
    show "\<forall>i \<in> en_sequences e. length (output_token_ids (sv_heap (en_sched e') i))
         \<le> nat (max 1 (max_tokens (seq_sampling_params (sv_heap (en_sched e') i))))"
      using f by (simp add: en_ok_def seq_bounded_def token_limit_def)
  qed
qed


definition example_config :: config where
  "example_config = [''dtype'' \<mapsto> PStr ''Float16'', ''block_size'' \<mapsto> PInt 2, ''num_layers'' \<mapsto> PInt 1,
     ''num_kv_heads'' \<mapsto> PInt 1, ''head_dim'' \<mapsto> PInt 1, ''num_kv_blocks'' \<mapsto> PInt 2]"

definition example_env :: "(nat, nat) engine_env" where
  "example_env = \<lparr>env_paged = True, env_execute = (\<lambda>_ b. Inr (replicate (total_tokens b) 0)), env_pages = (\<lambda>_ _ d. d),
     env_junk = 0, env_sample = (\<lambda>k rows _. map (\<lambda>_. 5 + k) rows), env_decode = (\<lambda>_. None), env_predict = None\<rparr>"

lemma example_engine:
  "\<exists>e m. engine_new example_config None 0 None (0 :: nat) (\<lambda>i. example_seq i []) = Inr (e, m) \<and>
     en_next_seq_id e = 0 \<and> en_request_seqs e = [] \<and> en_sequences e = {}"
proof -
  have "resolve_dtype (PStr ''Float16'') = Inr Float16" by code_simp
  then show ?thesis
    by (simp add: engine_new_def rbind_def example_config_def get_float_config_def get_int_config_def
        memory_manager_init_def in_unit_def compute_budget_def memory_budget_init_def get_total_gpu_memory_bytes_def
        get_expert_cache_ratio_def resolve_num_blocks_def paged_kv_init_def allocator_init_def sv_init_def engine_init_def)
qed

theorem run_until_done_terminates_witness:
  "\<exists>e r e'. en_reach example_env e \<and> en_sequences e = {0} \<and> run_until_done example_env e = Some (r, e')"
proof -
  from example_engine obtain e m where
    n: "engine_new example_config None 0 None (0 :: nat) (\<lambda>i. example_seq i []) = Inr (e, m)"
    and e: "en_next_seq_id e = 0" "en_request_seqs e = []" "en_sequences e = {}" by blast
  obtain r e1 where a: "en_add_request ''a'' [7, 8] default_sampling_params None 1 e = (r, e1)" by fastforce
  have "en_sequences e1 = {0}" using a e by (auto simp: en_add_request_def od_mem_def Let_def split: prod.splits)
  moreover have "en_reach example_env e1" by (rule en_reach.add [OF en_reach.new [OF n] a])
  ultimately show ?thesis using run_until_done_terminates [of example_env e1] by blast
qed

end
