(* ===== verification/Prefix_Cache.thy ===== *)
theory Prefix_Cache
  imports Prelude Complex_Main
begin

text \<open>
  \<^verbatim>\<open>src/moe_infinity/serving/prefix_cache.py\<close>: \<^verbatim>\<open>PrefixCache\<close>, a bounded
  LRU table from the hash of a full block of tokens to the KV block that holds
  it. The hexadecimal SHA-256 digest of a byte string is the parameter \<open>H\<close> of
  the operations; nothing is assumed of it beyond being a function, so the
  results about lookups hold for every pattern of hash collisions.
\<close>

section \<open>Definitions\<close>

definition hash_token_block :: "(int list \<Rightarrow> string) \<Rightarrow> int list \<Rightarrow> string" where
  "hash_token_block H token_ids = take 16 (H (map (\<lambda>token_id. token_id mod 256) token_ids))"

record pc_entry =
  pe_block_id :: int
  pe_token_block :: "int list"

record prefix_cache =
  pc_block_size :: int
  pc_max_entries :: int
  pc_entries :: "(string, pc_entry) odict"
  pc_hits :: nat
  pc_misses :: nat

definition prefix_cache_init :: "int \<Rightarrow> int \<Rightarrow> prefix_cache result" where
  "prefix_cache_init block_size max_entries =
     (if block_size \<le> 0 then Inl ValueError
      else if max_entries \<le> 0 then Inl ValueError
      else Inr \<lparr>pc_block_size = block_size, pc_max_entries = max_entries,
               pc_entries = [], pc_hits = 0, pc_misses = 0\<rparr>)"

text \<open>
  The starts \<^verbatim>\<open>range(0, len(token_ids) - block_size + 1, block_size)\<close> and the
  slice of \<^verbatim>\<open>block_size\<close> tokens at each.
\<close>

definition block_starts :: "int \<Rightarrow> int \<Rightarrow> nat list" where
  "block_starts n block_size =
     map (\<lambda>i. i * nat block_size) [0..<nat (ceil_div (n - block_size + 1) block_size)]"

definition iter_full_blocks :: "int \<Rightarrow> int list \<Rightarrow> int list list" where
  "iter_full_blocks block_size token_ids =
     map (\<lambda>start. take (nat block_size) (drop start token_ids))
       (block_starts (int (length token_ids)) block_size)"

fun lookup_loop ::
  "(int list \<Rightarrow> string) \<Rightarrow> int list list \<Rightarrow> (string, pc_entry) odict \<Rightarrow> int list
   \<Rightarrow> int list \<times> (string, pc_entry) odict" where
  "lookup_loop H [] entries matched = (matched, entries)"
| "lookup_loop H (block_tokens # blocks) entries matched =
     (let block_hash = hash_token_block H block_tokens in
      case map_of entries block_hash of
        None \<Rightarrow> (matched, entries)
      | Some cache_entry \<Rightarrow>
          if pe_token_block cache_entry \<noteq> block_tokens then (matched, entries)
          else lookup_loop H blocks (move_to_end block_hash entries)
                 (matched @ [pe_block_id cache_entry]))"

definition pc_lookup ::
  "(int list \<Rightarrow> string) \<Rightarrow> int list \<Rightarrow> prefix_cache \<Rightarrow> (int \<times> int list) \<times> prefix_cache" where
  "pc_lookup H token_ids c =
     (let (matched, entries) =
            lookup_loop H (iter_full_blocks (pc_block_size c) token_ids) (pc_entries c) [];
          c1 = c\<lparr>pc_entries := entries\<rparr>;
          c2 = (if matched \<noteq> [] then c1\<lparr>pc_hits := Suc (pc_hits c1)\<rparr>
                else c1\<lparr>pc_misses := Suc (pc_misses c1)\<rparr>)
      in ((int (length matched) * pc_block_size c, matched), c2))"

fun insert_loop ::
  "(int list \<Rightarrow> string) \<Rightarrow> int list \<Rightarrow> nat \<Rightarrow> int list list \<Rightarrow> (string, pc_entry) odict
   \<Rightarrow> (string, pc_entry) odict" where
  "insert_loop H block_ids block_index [] entries = entries"
| "insert_loop H block_ids block_index (block_tokens # blocks) entries =
     (let block_hash = hash_token_block H block_tokens;
          entry = \<lparr>pe_block_id = block_ids ! block_index, pe_token_block = block_tokens\<rparr>
      in insert_loop H block_ids (Suc block_index) blocks
           (move_to_end block_hash (AList.update block_hash entry entries)))"

primrec pop_oldest ::
  "nat \<Rightarrow> ('k, 'v) odict \<Rightarrow> 'k list \<Rightarrow> 'k list \<times> ('k, 'v) odict" where
  "pop_oldest 0 entries evicted = (evicted, entries)"
| "pop_oldest (Suc n) entries evicted = pop_oldest n (tl entries) (evicted @ [fst (hd entries)])"

definition pc_evict_lru :: "int \<Rightarrow> prefix_cache \<Rightarrow> (prefix_cache, string list) outcome" where
  "pc_evict_lru n c =
     (if n < 0 then (Inl ValueError, c)
      else (let (evicted, entries) =
                  pop_oldest (min (nat n) (length (pc_entries c))) (pc_entries c) []
            in (Inr evicted, c\<lparr>pc_entries := entries\<rparr>)))"

definition pc_insert ::
  "(int list \<Rightarrow> string) \<Rightarrow> int list \<Rightarrow> int list \<Rightarrow> prefix_cache \<Rightarrow> (prefix_cache, unit) outcome" where
  "pc_insert H token_ids block_ids c =
     (let num_full_blocks = int (length token_ids) div pc_block_size c in
      if int (length block_ids) < num_full_blocks then (Inl ValueError, c)
      else
        (let c1 = c\<lparr>pc_entries := insert_loop H block_ids 0
                      (iter_full_blocks (pc_block_size c) token_ids) (pc_entries c)\<rparr>;
             overflow = int (length (pc_entries c1)) - pc_max_entries c1
         in if overflow > 0 then andthen (pc_evict_lru overflow c1) (\<lambda>_ c2. (Inr (), c2))
            else (Inr (), c1)))"

definition pc_num_entries :: "prefix_cache \<Rightarrow> nat" where
  "pc_num_entries c = length (pc_entries c)"

definition hit_rate :: "prefix_cache \<Rightarrow> real" where
  "hit_rate c =
     (let total = pc_hits c + pc_misses c
      in if total = 0 then 0 else real (pc_hits c) / real total)"

section \<open>Full blocks\<close>

lemma ceil_div_full_blocks:
  "0 < b \<Longrightarrow> ceil_div (n - b + 1) b = n div b"
  by (simp add: ceil_div_eq)

lemma iter_full_blocks_nth:
  assumes "0 < b"
  shows "length (iter_full_blocks b toks) = length toks div nat b"
    and "i < length toks div nat b \<Longrightarrow>
         iter_full_blocks b toks ! i = take (nat b) (drop (i * nat b) toks)"
proof -
  have n: "nat (ceil_div (int (length toks) - b + 1) b) = length toks div nat b"
    using assms by (simp add: ceil_div_full_blocks nat_div_distrib)
  show "length (iter_full_blocks b toks) = length toks div nat b"
    by (simp add: iter_full_blocks_def block_starts_def n)
  show "i < length toks div nat b \<Longrightarrow>
        iter_full_blocks b toks ! i = take (nat b) (drop (i * nat b) toks)"
    by (simp add: iter_full_blocks_def block_starts_def n)
qed

lemma int_full_blocks:
  assumes "0 < b"
  shows "int n div b = int (n div nat b)"
  using assms zdiv_int [of n "nat b"] by simp

lemma minus_mult_div:
  fixes a b k :: nat
  assumes "0 < b"
  shows "(a - k * b) div b = a div b - k"
proof (cases "k * b \<le> a")
  case True
  then obtain r where "a = r + k * b" by (metis le_iff_add add.commute)
  then show ?thesis using assms by simp
next
  case False
  then have "a div b < k" using assms by (simp add: less_mult_imp_div_less)
  with False show ?thesis by simp
qed

lemma iter_full_blocks_drop:
  assumes "0 < b"
  shows "iter_full_blocks b (drop (k * nat b) toks) = drop k (iter_full_blocks b toks)"
proof (rule nth_equalityI)
  have len: "(length toks - k * nat b) div nat b = length toks div nat b - k"
    using assms by (simp add: minus_mult_div)
  show "length (iter_full_blocks b (drop (k * nat b) toks)) =
        length (drop k (iter_full_blocks b toks))"
    by (simp add: iter_full_blocks_nth [OF assms] len)
  fix i
  assume "i < length (iter_full_blocks b (drop (k * nat b) toks))"
  then show "iter_full_blocks b (drop (k * nat b) toks) ! i = drop k (iter_full_blocks b toks) ! i"
    by (simp add: iter_full_blocks_nth [OF assms] len algebra_simps)
qed

section \<open>Loops\<close>

lemma move_to_end_update:
  "move_to_end k (AList.update k v d) = AList.delete k d @ [(k, v)]"
  by (simp add: move_to_end_def delete_update_same)

text \<open>
  With distinct hashes, the inserted blocks end up last and in order, behind the
  entries that were not replaced.
\<close>

lemma insert_loop_snoc:
  "insert_loop H ids i (bs @ [b]) d =
   (let h = hash_token_block H b in
    AList.delete h (insert_loop H ids i bs d) @
      [(h, \<lparr>pe_block_id = ids ! (i + length bs), pe_token_block = b\<rparr>)])"
  by (induction H ids i bs d rule: insert_loop.induct)
    (simp_all add: move_to_end_update Let_def)

definition new_entries ::
  "(int list \<Rightarrow> string) \<Rightarrow> int list \<Rightarrow> int list list \<Rightarrow> (string, pc_entry) odict" where
  "new_entries H ids bs =
     map (\<lambda>(b, i). (hash_token_block H b, \<lparr>pe_block_id = i, pe_token_block = b\<rparr>)) (zip bs ids)"

lemma keys_new_entries:
  "length bs \<le> length ids \<Longrightarrow> keys (new_entries H ids bs) = map (hash_token_block H) bs"
  by (rule nth_equalityI) (auto simp: new_entries_def)

lemma zip_snoc_left:
  "length xs < length ys \<Longrightarrow> zip (xs @ [x]) ys = zip xs ys @ [(x, ys ! length xs)]"
proof (induction xs arbitrary: ys)
  case Nil
  then show ?case by (cases ys) simp_all
next
  case (Cons a xs)
  then show ?case by (cases ys) simp_all
qed

lemma insert_loop_distinct:
  assumes "distinct (map (hash_token_block H) bs)" and "length bs \<le> length ids"
  shows "insert_loop H ids 0 bs d =
         filter (\<lambda>p. fst p \<notin> hash_token_block H ` set bs) d @ new_entries H ids bs"
  using assms
proof (induction bs rule: rev_induct)
  case Nil
  then show ?case by (simp add: new_entries_def)
next
  case (snoc b bs)
  let ?h = "hash_token_block H b"
  from snoc.prems have "?h \<notin> fst ` set (new_entries H ids bs)"
    by (simp add: keys_new_entries flip: set_map)
  moreover have "new_entries H ids (bs @ [b]) =
      new_entries H ids bs @ [(?h, \<lparr>pe_block_id = ids ! length bs, pe_token_block = b\<rparr>)]"
    using snoc.prems(2) by (simp add: new_entries_def zip_snoc_left)
  moreover from calculation(1) have "filter (\<lambda>p. fst p \<noteq> ?h) (new_entries H ids bs) = new_entries H ids bs"
    by (force simp: filter_id_conv)
  ultimately show ?case using snoc
    by (simp add: insert_loop_snoc Let_def delete_eq_filter conj_commute)
qed

lemma pop_oldest_eq:
  "n \<le> length d \<Longrightarrow> pop_oldest n d acc = (acc @ keys (take n d), drop n d)"
proof (induction n arbitrary: d acc)
  case (Suc n)
  then show ?case by (cases d) simp_all
qed simp

lemma evict_lru_eq:
  "0 \<le> n \<Longrightarrow> pc_evict_lru n c =
   (Inr (keys (take (nat n) (pc_entries c))), c\<lparr>pc_entries := drop (nat n) (pc_entries c)\<rparr>)"
  by (simp add: pc_evict_lru_def pop_oldest_eq min_def)

lemma insert_eq:
  assumes "int (length toks) div pc_block_size c \<le> int (length ids)"
  shows "pc_insert H toks ids c =
    (let d = insert_loop H ids 0 (iter_full_blocks (pc_block_size c) toks) (pc_entries c)
     in (Inr (), c\<lparr>pc_entries := drop (nat (int (length d) - pc_max_entries c)) d\<rparr>))"
  using assms by (simp add: pc_insert_def Let_def evict_lru_eq)

section \<open>Histories\<close>

text \<open>
  The cache against the log of what was inserted: the pairs of a token block and
  its KV block, oldest first. Failed operations leave the cache as it is.
\<close>

datatype pc_op =
    PcLookup "int list"
  | PcInsert "int list" "int list"
  | PcEvict int

fun pc_exec :: "(int list \<Rightarrow> string) \<Rightarrow> pc_op \<Rightarrow> prefix_cache \<Rightarrow> prefix_cache" where
  "pc_exec H (PcLookup toks) c = snd (pc_lookup H toks c)"
| "pc_exec H (PcInsert toks ids) c = snd (pc_insert H toks ids c)"
| "pc_exec H (PcEvict n) c = snd (pc_evict_lru n c)"

fun pc_logged :: "int \<Rightarrow> pc_op \<Rightarrow> (int list \<times> int) list" where
  "pc_logged b (PcInsert toks ids) =
     (if int (length ids) < int (length toks) div b then [] else zip (iter_full_blocks b toks) ids)"
| "pc_logged b _ = []"

text \<open>
  Every entry is filed under the hash of its tokens and carries the block id that
  was logged last for that hash.
\<close>

definition pc_agrees ::
  "(int list \<Rightarrow> string) \<Rightarrow> (int list \<times> int) list \<Rightarrow> (string, pc_entry) odict \<Rightarrow> bool" where
  "pc_agrees H L d \<longleftrightarrow> od_ok d \<and>
     (\<forall>(h, e) \<in> set d. hash_token_block H (pe_token_block e) = h \<and>
        map_of (rev L) (pe_token_block e) = Some (pe_block_id e))"

definition pc_ok :: "(int list \<Rightarrow> string) \<Rightarrow> (int list \<times> int) list \<Rightarrow> prefix_cache \<Rightarrow> bool" where
  "pc_ok H L c \<longleftrightarrow> 0 < pc_block_size c \<and> pc_agrees H L (pc_entries c) \<and>
     int (length (pc_entries c)) \<le> pc_max_entries c"

lemma set_move_to_end: "set (move_to_end h d) \<subseteq> set d"
  by (auto simp: move_to_end_def delete_eq_filter dest: map_of_SomeD split: option.splits)

lemma agrees_move_to_end [simp]: "pc_agrees H L d \<Longrightarrow> pc_agrees H L (move_to_end h d)"
  using set_move_to_end [of h d] by (auto simp: pc_agrees_def)

lemma agrees_drop [simp]: "pc_agrees H L d \<Longrightarrow> pc_agrees H L (drop n d)"
  by (auto simp: pc_agrees_def simp flip: drop_map dest: in_set_dropD)

lemma agrees_insert:
  assumes "pc_agrees H L d" and "h = hash_token_block H b"
  shows "pc_agrees H (L @ [(b, i)])
           (move_to_end h (AList.update h \<lparr>pe_block_id = i, pe_token_block = b\<rparr> d))"
  using assms by (auto simp: pc_agrees_def move_to_end_update delete_eq_filter distinct_map_filter)

lemma agrees_insert_loop:
  assumes "pc_agrees H L d" and "i + length bs \<le> length ids"
  shows "pc_agrees H (L @ zip bs (drop i ids)) (insert_loop H ids i bs d)"
  using assms
proof (induction H ids i bs d arbitrary: L rule: insert_loop.induct)
  case (2 H ids i b bs d)
  have "drop i ids = ids ! i # drop (Suc i) ids"
    using "2.prems"(2) by (simp add: Cons_nth_drop_Suc)
  with "2.IH" [OF refl refl agrees_insert [OF "2.prems"(1) refl]] "2.prems"(2) show ?case
    by (simp add: Let_def)
qed simp

lemma agrees_lookup:
  assumes "pc_agrees H L d" and "map_of d h = Some e"
  shows "hash_token_block H (pe_token_block e) = h"
    and "map_of (rev L) (pe_token_block e) = Some (pe_block_id e)"
  using assms by (auto simp: pc_agrees_def dest: map_of_SomeD)

lemma agrees_filed:
  assumes "pc_agrees H L d" and "(h, e) \<in> set d"
  shows "map_of d (hash_token_block H (pe_token_block e)) = Some e"
  using assms by (auto simp: pc_agrees_def)

lemma lookup_loop_sound:
  assumes "pc_agrees H L d"
  shows "\<exists>ids d'. lookup_loop H bs d ms = (ms @ ids, d') \<and> pc_agrees H L d' \<and>
           length d' = length d \<and> length ids \<le> length bs \<and>
           map Some ids = map (map_of (rev L)) (take (length ids) bs) \<and>
           (length ids < length bs \<longrightarrow> (\<forall>(h, e) \<in> set d. pe_token_block e \<noteq> bs ! length ids))"
  using assms
proof (induction bs arbitrary: d ms)
  case (Cons b bs)
  show ?case
  proof (cases "map_of d (hash_token_block H b)")
    case None
    then have "\<forall>(h, e) \<in> set d. pe_token_block e \<noteq> b"
      using agrees_filed [OF Cons.prems] by auto
    with None Cons.prems show ?thesis by simp
  next
    case (Some e)
    note e = agrees_lookup [OF Cons.prems Some]
    show ?thesis
    proof (cases "pe_token_block e = b")
      case True
      let ?d = "move_to_end (hash_token_block H b) d"
      from Cons.prems have d: "od_ok d" by (simp add: pc_agrees_def)
      then have "set ?d = set d" by (metis map_of_move_to_end od_ok_move_to_end map_of_eqI set_map_of_compr)
      with Cons.IH [of ?d "ms @ [pe_block_id e]"] Cons.prems d
      obtain ids d' where "lookup_loop H bs ?d (ms @ [pe_block_id e]) = (ms @ pe_block_id e # ids, d')"
        and "pc_agrees H L d'" "length d' = length d" "length ids \<le> length bs"
        and "map Some ids = map (map_of (rev L)) (take (length ids) bs)"
        and "length ids < length bs \<longrightarrow> (\<forall>(h, e) \<in> set d. pe_token_block e \<noteq> bs ! length ids)"
        by auto
      with Some True e(2) show ?thesis
        by (intro exI [of _ "pe_block_id e # ids"] exI [of _ d']) simp
    next
      case False
      have "\<forall>(h', e') \<in> set d. pe_token_block e' \<noteq> b"
        using agrees_filed [OF Cons.prems] Some False by auto
      with False Some Cons.prems show ?thesis by simp
    qed
  qed
qed simp

lemma overflow_bound: "0 \<le> m \<Longrightarrow> int (n - nat (int n - m)) \<le> m"
  by linarith

lemma pc_exec_ok:
  assumes "pc_ok H L c"
  shows "pc_ok H (L @ pc_logged (pc_block_size c) op) (pc_exec H op c) \<and>
         pc_block_size (pc_exec H op c) = pc_block_size c \<and>
         pc_max_entries (pc_exec H op c) = pc_max_entries c"
proof (cases op)
  case (PcLookup toks)
  from assms lookup_loop_sound [of H L "pc_entries c" "iter_full_blocks (pc_block_size c) toks" "[]"]
  obtain ids d' where "lookup_loop H (iter_full_blocks (pc_block_size c) toks) (pc_entries c) [] = (ids, d')"
    and "pc_agrees H L d'" "length d' = length (pc_entries c)"
    by (auto simp: pc_ok_def)
  with PcLookup assms show ?thesis by (simp add: pc_lookup_def pc_ok_def Let_def)
next
  case (PcInsert toks ids)
  show ?thesis
  proof (cases "int (length toks) div pc_block_size c \<le> int (length ids)")
    case True
    with assms have "length (iter_full_blocks (pc_block_size c) toks) \<le> length ids"
      by (simp add: pc_ok_def iter_full_blocks_nth(1) int_full_blocks)
    with True PcInsert assms agrees_insert_loop [of H L "pc_entries c" 0 _ ids] show ?thesis
      using order_trans [of 0 "int (length (pc_entries c))" "pc_max_entries c"]
      by (simp add: pc_ok_def insert_eq Let_def overflow_bound)
  next
    case False
    with PcInsert assms show ?thesis by (simp add: pc_insert_def)
  qed
next
  case (PcEvict n)
  show ?thesis
  proof (cases "n < 0")
    case True
    with PcEvict assms show ?thesis by (simp add: pc_evict_lru_def)
  next
    case False
    with PcEvict assms show ?thesis by (auto simp: pc_ok_def evict_lru_eq)
  qed
qed

lemma pc_run_ok:
  assumes "pc_ok H L c"
  shows "pc_ok H (L @ concat (map (pc_logged (pc_block_size c)) ops)) (fold (pc_exec H) ops c) \<and>
         pc_block_size (fold (pc_exec H) ops c) = pc_block_size c \<and>
         pc_max_entries (fold (pc_exec H) ops c) = pc_max_entries c"
  using assms
proof (induction ops arbitrary: L c)
  case (Cons op ops)
  from pc_exec_ok [OF Cons.prems, of op] Cons.IH [of "L @ pc_logged (pc_block_size c) op" "pc_exec H op c"]
  show ?case by simp
qed simp

lemma prefix_cache_init_ok:
  "prefix_cache_init b m = Inr c \<Longrightarrow> pc_ok H [] c \<and> pc_block_size c = b \<and> pc_max_entries c = m"
  by (auto simp: prefix_cache_init_def pc_ok_def pc_agrees_def split: if_splits)

lemma pc_lookup_sound:
  assumes ok: "pc_ok H L c" and b: "b = pc_block_size c"
    and lookup: "pc_lookup H toks c = ((n, ids), c')"
  shows "n = int (length ids) * b" and "n \<le> int (length toks)"
    and "i < length ids \<Longrightarrow> map_of (rev L) (take (nat b) (drop (i * nat b) toks)) = Some (ids ! i)"
    and "n + b \<le> int (length toks) \<Longrightarrow> (h, e) \<in> set (pc_entries c) \<Longrightarrow>
           pe_token_block e \<noteq> take (nat b) (drop (length ids * nat b) toks)"
proof -
  let ?bs = "iter_full_blocks b toks"
  from ok b have pos: "0 < b" by (simp add: pc_ok_def)
  note len = iter_full_blocks_nth [OF pos, where toks = toks]
  from lookup_loop_sound [of H L "pc_entries c" ?bs "[]"] ok lookup
  have n: "n = int (length ids) * b" and le: "length ids \<le> length ?bs"
    and ids: "map Some ids = map (map_of (rev L)) (take (length ids) ?bs)"
    and miss: "length ids < length ?bs \<longrightarrow>
      (\<forall>(h, e) \<in> set (pc_entries c). pe_token_block e \<noteq> ?bs ! length ids)"
    by (auto simp: pc_lookup_def pc_ok_def Let_def b)
  show "n = int (length ids) * b" by (rule n)
  from le have "length ids * nat b \<le> length toks div nat b * nat b" by (simp add: len)
  also have "\<dots> \<le> length toks" by simp
  finally have "int (length ids * nat b) \<le> int (length toks)" by (rule zle_int [THEN iffD2])
  with n pos show "n \<le> int (length toks)" by simp
  show "map_of (rev L) (take (nat b) (drop (i * nat b) toks)) = Some (ids ! i)" if "i < length ids"
    using that le arg_cong [OF ids, of "\<lambda>xs. xs ! i"] by (simp add: len)
  assume "n + b \<le> int (length toks)" and e: "(h, e) \<in> set (pc_entries c)"
  with n have "(int (length ids) + 1) * b \<le> int (length toks)" by (simp add: distrib_right)
  with pos have "int (length ids) + 1 \<le> int (length toks) div b"
    using zdiv_mono1 [of "(int (length ids) + 1) * b" "int (length toks)" b] by simp
  with pos have "length ids < length ?bs" by (simp add: len int_full_blocks)
  with miss e len show "pe_token_block e \<noteq> take (nat b) (drop (length ids * nat b) toks)" by auto
qed

text \<open>
  C37: However a prefix cache has been used, failed calls included, and however
  the hashes of the token blocks collide, it holds at most \<^verbatim>\<open>max_entries\<close>
  entries, and a lookup reports whole blocks within the prompt, gives for each of
  them the block id inserted last for exactly those tokens, and stops before the
  end of the prompt only at a block whose tokens no entry holds.
\<close>

theorem prefix_cache_sound:
  assumes "prefix_cache_init b m = Inr c0" and "c = fold (pc_exec H) ops c0"
    and "pc_lookup H toks c = ((n, ids), c')"
  shows "int (pc_num_entries c) \<le> m \<and> n = int (length ids) * b \<and> n \<le> int (length toks) \<and>
    (\<forall>i < length ids. map_of (rev (concat (map (pc_logged b) ops)))
       (take (nat b) (drop (i * nat b) toks)) = Some (ids ! i)) \<and>
    (n + b \<le> int (length toks) \<longrightarrow> (\<forall>(h, e) \<in> set (pc_entries c).
       pe_token_block e \<noteq> take (nat b) (drop (length ids * nat b) toks)))"
proof -
  note c0 = prefix_cache_init_ok [OF assms(1), of H]
  with pc_run_ok [of H "[]" c0 ops] assms(2)
  have ok: "pc_ok H (concat (map (pc_logged b) ops)) c" and b: "b = pc_block_size c"
    and "pc_max_entries c = m" by simp_all
  note sound = pc_lookup_sound [OF ok b assms(3)]
  have "int (pc_num_entries c) \<le> m"
    using ok \<open>pc_max_entries c = m\<close> by (simp add: pc_ok_def pc_num_entries_def)
  with sound show ?thesis by (intro conjI) auto
qed

lemma lookup_loop_hit:
  assumes "list_all2 (\<lambda>t i. map_of d (hash_token_block H t) =
             Some \<lparr>pe_block_id = i, pe_token_block = t\<rparr>) bs ids" and "od_ok d"
  shows "fst (lookup_loop H bs d ms) = ms @ ids"
  using assms
proof (induction bs ids arbitrary: d ms rule: list_induct2')
  case (4 t bs i ids)
  then show ?case by (simp add: Let_def del: map_of_eq_Some_iff)
qed simp_all

lemma drop_overflow:
  "int (length ys) \<le> m \<Longrightarrow>
   drop (nat (int (length (xs @ ys)) - m)) (xs @ ys) = drop (nat (int (length (xs @ ys)) - m)) xs @ ys"
  by simp

lemma insert_files_blocks:
  assumes od: "od_ok (pc_entries c)" and pos: "0 < b" and b: "b = pc_block_size c"
    and distinct: "distinct (map (hash_token_block H) (iter_full_blocks b toks))"
    and ids: "length toks div nat b \<le> length ids"
    and room: "int (length toks div nat b) \<le> pc_max_entries c"
  shows "\<exists>d. pc_insert H toks ids c = (Inr (), c\<lparr>pc_entries := d\<rparr>) \<and> od_ok d \<and>
    list_all2 (\<lambda>t i. map_of d (hash_token_block H t) =
       Some \<lparr>pe_block_id = i, pe_token_block = t\<rparr>)
     (iter_full_blocks b toks) (take (length toks div nat b) ids)"
proof -
  let ?bs = "iter_full_blocks b toks"
  let ?old = "filter (\<lambda>p. fst p \<notin> hash_token_block H ` set ?bs) (pc_entries c)"
  let ?new = "new_entries H ids ?bs"
  have nb: "length ?bs = length toks div nat b" by (rule iter_full_blocks_nth(1) [OF pos])
  have len: "length ?bs \<le> length ids" using ids nb by simp
  then have new: "length ?new = length ?bs" by (simp add: new_entries_def)
  define n where "n = nat (int (length (?old @ ?new)) - pc_max_entries c)"
  have "drop n (?old @ ?new) = drop n ?old @ ?new"
    unfolding n_def by (rule drop_overflow) (simp add: new nb room)
  moreover have "int (length toks) div pc_block_size c \<le> int (length ids)"
    using ids pos b by (simp add: int_full_blocks)
  ultimately have ins: "pc_insert H toks ids c = (Inr (), c\<lparr>pc_entries := drop n ?old @ ?new\<rparr>)"
    by (simp only: insert_eq Let_def insert_loop_distinct [OF distinct len] n_def flip: b)
  have keys: "keys ?new = map (hash_token_block H) ?bs" by (rule keys_new_entries [OF len])
  have old: "fst ` set (drop n ?old) \<inter> hash_token_block H ` set ?bs = {}"
    by (auto dest!: in_set_dropD)
  have "od_ok (drop n ?old @ ?new)"
    using od distinct keys old by (simp add: distinct_map_filter flip: drop_map set_map) 
  moreover have "map_of (drop n ?old @ ?new) (hash_token_block H (?bs ! j)) =
      Some \<lparr>pe_block_id = ids ! j, pe_token_block = ?bs ! j\<rparr>" if "j < length ?bs" for j
  proof -
    have "?new ! j = (hash_token_block H (?bs ! j), \<lparr>pe_block_id = ids ! j, pe_token_block = ?bs ! j\<rparr>)"
      using that len by (simp add: new_entries_def)
    then have "(hash_token_block H (?bs ! j), \<lparr>pe_block_id = ids ! j, pe_token_block = ?bs ! j\<rparr>)
        \<in> set (drop n ?old @ ?new)"
      using that new by (metis Un_iff nth_mem set_append)
    with calculation show ?thesis by (rule map_of_is_SomeI)
  qed
  ultimately show ?thesis
    using ins len by (intro exI [of _ "drop n ?old @ ?new"]) (simp add: list_all2_conv_all_nth nb)
qed

definition sum_hash :: "int list \<Rightarrow> string" where
  "sum_hash bytes = replicate (nat (sum_list bytes)) (CHR ''a'')"

definition example_prefix_cache :: prefix_cache where
  "example_prefix_cache = \<lparr>pc_block_size = 2, pc_max_entries = 2, pc_entries = [], pc_hits = 0, pc_misses = 0\<rparr>"

lemma example_prefix_cache_init: "prefix_cache_init 2 2 = Inr example_prefix_cache"
  by (simp add: prefix_cache_init_def example_prefix_cache_def)

lemma example_prefix_cache_lookup:
  "pc_lookup sum_hash [3, 4, 1, 1]
     (fold (pc_exec sum_hash) [PcInsert [1, 2, 3, 4, 5] [7, 8], PcInsert [2, 1] [9]] example_prefix_cache) =
   ((2, [8]), example_prefix_cache
      \<lparr>pc_entries := [(''aaa'', \<lparr>pe_block_id = 9, pe_token_block = [2, 1]\<rparr>),
                     (''aaaaaaa'', \<lparr>pe_block_id = 8, pe_token_block = [3, 4]\<rparr>)],
       pc_hits := 1\<rparr>)"
  by code_simp

theorem prefix_cache_sound_witness:
  "map_of (rev (concat (map (pc_logged 2) [PcInsert [1, 2, 3, 4, 5] [7, 8], PcInsert [2, 1] [9]]))) [3, 4]
   = Some 8"
  using prefix_cache_sound [OF example_prefix_cache_init refl example_prefix_cache_lookup]
  by simp

text \<open>
  Inserting a prompt and looking it up again gives back the block ids of
  all its full blocks, provided the cache has room for them and their hashes
  differ. The same holds from every block of the prompt on: the key of a block
  is the hash of its own tokens alone, so a prompt that starts with the tokens
  of a later block is answered with KV blocks computed behind another prefix.
\<close>

theorem prefix_cache_insert_lookup:
  assumes "pc_ok H L c" and "b = pc_block_size c"
    and "distinct (map (hash_token_block H) (iter_full_blocks b toks))"
    and "length toks div nat b \<le> length ids" and "int (length toks div nat b) \<le> pc_max_entries c"
  shows "\<exists>c'. pc_insert H toks ids c = (Inr (), c') \<and>
     (\<forall>k. fst (pc_lookup H (drop (k * nat b) toks) c') =
        (int (length toks div nat b - k) * b, drop k (take (length toks div nat b) ids)))"
proof -
  let ?bs = "iter_full_blocks b toks" and ?nb = "length toks div nat b"
  from assms(1,2) have pos: "0 < b" and od: "od_ok (pc_entries c)" by (simp_all add: pc_ok_def pc_agrees_def)
  have nb: "length ?bs = ?nb" by (rule iter_full_blocks_nth(1) [OF pos])
  obtain d where ins: "pc_insert H toks ids c = (Inr (), c\<lparr>pc_entries := d\<rparr>)" and "od_ok d"
    and hit: "list_all2 (\<lambda>t i. map_of d (hash_token_block H t) =
                 Some \<lparr>pe_block_id = i, pe_token_block = t\<rparr>) ?bs (take ?nb ids)"
    using insert_files_blocks [OF od pos assms(2-5)] by auto
  have "fst (pc_lookup H (drop (k * nat b) toks) (c\<lparr>pc_entries := d\<rparr>)) =
        (int (?nb - k) * b, drop k (take ?nb ids))" for k
  proof -
    have "fst (lookup_loop H (drop k ?bs) d []) = drop k (take ?nb ids)"
      using lookup_loop_hit [OF list_all2_dropI [OF hit, of k] \<open>od_ok d\<close>, of "[]"] by simp
    moreover have "length (drop k (take ?nb ids)) = ?nb - k" using assms(4) by simp
    ultimately show ?thesis
      by (simp add: pc_lookup_def Let_def case_prod_beta iter_full_blocks_drop [OF pos] flip: assms(2))
  qed
  with ins show ?thesis by auto
qed

theorem prefix_cache_insert_lookup_witness:
  "\<exists>c'. pc_insert sum_hash [1, 2, 3, 4, 5] [7, 8] example_prefix_cache = (Inr (), c') \<and>
     fst (pc_lookup sum_hash [1, 2, 3, 4, 5] c') = (4, [7, 8]) \<and>
     fst (pc_lookup sum_hash [3, 4, 5] c') = (2, [8])"
proof -
  have "distinct (map (hash_token_block sum_hash) (iter_full_blocks 2 [1, 2, 3, 4, 5]))" by code_simp
  with prefix_cache_insert_lookup [of sum_hash "[]" example_prefix_cache 2 "[1, 2, 3, 4, 5]" "[7, 8]"]
    prefix_cache_init_ok [OF example_prefix_cache_init, of sum_hash]
  obtain c' where "pc_insert sum_hash [1, 2, 3, 4, 5] [7, 8] example_prefix_cache = (Inr (), c')"
    and all: "\<forall>k. fst (pc_lookup sum_hash (drop (k * 2) [1, 2, 3, 4, 5]) c') =
           (int (Suc (Suc 0) - k) * 2, drop k [7, 8])"
    by auto
  with spec [OF all, of 0] spec [OF all, of 1] show ?thesis by auto
qed

end
