(* ===== verification/Generation.thy ===== *)
theory Generation
  imports KV_Manager Requests
begin

text \<open>
  \<^verbatim>\<open>src/moe_infinity/engine/generation_loop.py\<close>: \<^verbatim>\<open>GenerationEngine\<close>, which
  generates the tokens of one request over the KV cache manager, and the
  records of \<^verbatim>\<open>src/moe_infinity/runtime/attention_types.py\<close> it passes to the
  model. The model's forward pass and the tensor library are parameters: a
  tensor is a list of rows, a logit is a real number or \<open>None\<close> for minus
  infinity, and a parameter that may answer differently each time is indexed
  by the number of forward passes made so far. The calls of the forward pass
  are recorded in a log beside the manager, so that what the model is told can
  be stated.
\<close>

section \<open>Data\<close>

record kv_spec =
  spec_num_kv_heads :: int
  spec_head_dim :: int
  spec_dtype_size :: int
  spec_block_size :: int

definition page_size_bytes :: "kv_spec \<Rightarrow> int" where
  "page_size_bytes s = spec_block_size s * spec_num_kv_heads s * spec_head_dim s * spec_dtype_size s * 2"

record attention_metadata =
  am_block_tables :: "nat list list"
  am_seq_lens :: "int list"
  am_max_seq_len :: int
  am_num_prefill_tokens :: int
  am_num_decode_tokens :: int
  am_slot_mapping :: "int list"
  am_is_prefill :: bool

type_synonym logits = "real option list"

record generation_result =
  gr_request_id :: string
  gr_prompt_token_ids :: "int list"
  gr_output_token_ids :: "int list"
  gr_finish_reason :: seq_status

record torch_lib =
  tl_argmax :: "logits \<Rightarrow> nat"
  tl_topk :: "logits \<Rightarrow> nat \<Rightarrow> nat list"
  tl_sort_descending :: "logits \<Rightarrow> nat list"
  tl_softmax :: "logits \<Rightarrow> real list"
  tl_multinomial :: "nat \<Rightarrow> real list \<Rightarrow> nat"
  tl_randn :: "nat \<Rightarrow> nat \<Rightarrow> int \<Rightarrow> logits list"

record generation_engine =
  ge_kv_spec :: kv_spec
  ge_vocab_size :: int
  ge_eos_token_id :: int
  ge_model_forward :: "(nat \<Rightarrow> int list \<Rightarrow> attention_metadata \<Rightarrow> logits list result) option"
  ge_max_seq_length :: "int option"
  ge_torch :: torch_lib

type_synonym call_log = "(int list \<times> attention_metadata) list"
type_synonym gen_state = "kv_mgr \<times> call_log"

section \<open>Sampling\<close>

text \<open>
  \<^verbatim>\<open>torch.full_like(row, -inf)\<close> followed by an assignment at the given indices.
\<close>

definition scatter_row :: "nat \<Rightarrow> (nat \<times> real option) list \<Rightarrow> logits" where
  "scatter_row n ps = fold (\<lambda>(j, v) row. row[j := v]) ps (replicate n None)"

fun cumsum :: "real \<Rightarrow> real list \<Rightarrow> real list" where
  "cumsum acc [] = []"
| "cumsum acc (p # ps) = (acc + p) # cumsum (acc + p) ps"

definition keep_top_k :: "torch_lib \<Rightarrow> int \<Rightarrow> logits \<Rightarrow> logits" where
  "keep_top_k lib k row =
     (let idx = tl_topk lib row (min (nat k) (length row))
      in scatter_row (length row) (map (\<lambda>j. (j, row ! j)) idx))"

definition keep_top_p :: "torch_lib \<Rightarrow> real \<Rightarrow> logits \<Rightarrow> logits" where
  "keep_top_p lib p row =
     (let idx = tl_sort_descending lib row;
          sorted_logits = map (\<lambda>j. row ! j) idx;
          cumulative = cumsum 0 (tl_softmax lib sorted_logits);
          remove_mask = (map (\<lambda>c. c > p) cumulative)[0 := False];
          filtered_sorted = map (\<lambda>(l, r). if r then None else l) (zip sorted_logits remove_mask)
      in scatter_row (length row) (zip idx filtered_sorted))"

definition sample_token ::
  "torch_lib \<Rightarrow> nat \<Rightarrow> logits list \<Rightarrow> sampling_params \<Rightarrow> int result" where
  "sample_token lib k rows params =
     (if rows = [] then Inl IndexError
      else if temperature params < 0 then Inl ValueError
      else if temperature params = 0 then Inr (int (tl_argmax lib (last rows)))
      else
        (let l0 = last rows;
             l1 = (if temperature params \<noteq> 1
                   then map (map_option (\<lambda>x. x / of_rat (temperature params))) l0 else l0);
             l2 = (if top_k params > 0 then keep_top_k lib (top_k params) l1 else l1);
             l3 = (if top_p params < 1 then keep_top_p lib (of_rat (top_p params)) l2 else l2)
         in Inr (int (tl_multinomial lib k (tl_softmax lib l3)))))"

section \<open>Slots\<close>

text \<open>Subscription of a list by a Python integer, which counts from the end when negative.\<close>

definition py_subscript :: "'a list \<Rightarrow> int \<Rightarrow> 'a result" where
  "py_subscript xs i =
     (let j = (if i < 0 then i + int (length xs) else i)
      in if 0 \<le> j \<and> j < int (length xs) then Inr (xs ! nat j) else Inl IndexError)"

fun slot_loop :: "int \<Rightarrow> nat list \<Rightarrow> int list \<Rightarrow> int list \<Rightarrow> int list result" where
  "slot_loop block_size block_table [] slots = Inr slots"
| "slot_loop block_size block_table (token_idx # is) slots =
     (if block_size = 0 then Inl ZeroDivisionError
      else
        (let block_idx = token_idx div block_size; token_offset = token_idx mod block_size
         in if block_idx < int (length block_table)
            then (case py_subscript block_table block_idx of
                    Inl e \<Rightarrow> Inl e
                  | Inr b \<Rightarrow> slot_loop block_size block_table is (slots @ [int b * block_size + token_offset]))
            else slot_loop block_size block_table is slots))"

definition compute_slot_mapping :: "int \<Rightarrow> nat list \<Rightarrow> int \<Rightarrow> int list result" where
  "compute_slot_mapping block_size block_table num_tokens =
     slot_loop block_size block_table [0..num_tokens - 1] []"

section \<open>Generation\<close>

definition run_forward ::
  "generation_engine \<Rightarrow> int list \<Rightarrow> attention_metadata \<Rightarrow> gen_state \<Rightarrow> (gen_state, logits list) outcome" where
  "run_forward g token_ids meta s =
     (let k = length (snd s); s1 = (fst s, snd s @ [(token_ids, meta)])
      in case ge_model_forward g of
           Some f \<Rightarrow> (f k token_ids meta, s1)
         | None \<Rightarrow> (Inr (tl_randn (ge_torch g) k (length token_ids) (ge_vocab_size g)), s1))"

definition forward_and_sample ::
  "generation_engine \<Rightarrow> sampling_params \<Rightarrow> int list \<Rightarrow> attention_metadata \<Rightarrow> gen_state
   \<Rightarrow> (gen_state, int) outcome" where
  "forward_and_sample g sp token_ids meta s =
     andthen (run_forward g token_ids meta s) (\<lambda>rows s1.
       (sample_token (ge_torch g) (length (snd s1)) rows sp, s1))"

definition prefill_meta :: "nat list \<Rightarrow> int \<Rightarrow> int list \<Rightarrow> attention_metadata" where
  "prefill_meta block_table num_prompt_tokens slot_mapping =
     \<lparr>am_block_tables = [block_table], am_seq_lens = [num_prompt_tokens],
      am_max_seq_len = num_prompt_tokens, am_num_prefill_tokens = num_prompt_tokens,
      am_num_decode_tokens = 0, am_slot_mapping = slot_mapping, am_is_prefill = True\<rparr>"

definition decode_meta :: "nat list \<Rightarrow> int \<Rightarrow> int list \<Rightarrow> attention_metadata" where
  "decode_meta block_table current_seq_len decode_slot =
     \<lparr>am_block_tables = [block_table], am_seq_lens = [current_seq_len],
      am_max_seq_len = current_seq_len, am_num_prefill_tokens = 0,
      am_num_decode_tokens = 1, am_slot_mapping = decode_slot, am_is_prefill = False\<rparr>"

definition decode_once ::
  "generation_engine \<Rightarrow> sampling_params \<Rightarrow> nat list \<Rightarrow> int \<Rightarrow> int list \<Rightarrow> gen_state
   \<Rightarrow> (gen_state, int) outcome" where
  "decode_once g sp block_table current_seq_len output_ids s =
     (case compute_slot_mapping (spec_block_size (ge_kv_spec g)) block_table current_seq_len of
        Inl e \<Rightarrow> (Inl e, s)
      | Inr slots \<Rightarrow>
          forward_and_sample g sp [last output_ids]
            (decode_meta block_table current_seq_len (drop (length slots - 1) slots)) s)"

fun generation_loop ::
  "generation_engine \<Rightarrow> sampling_params \<Rightarrow> string \<Rightarrow> int \<Rightarrow> nat \<Rightarrow> nat list \<Rightarrow> int list \<Rightarrow> gen_state
   \<Rightarrow> (gen_state, int list \<times> seq_status) outcome" where
  "generation_loop g sp rid n 0 block_table output_ids s = (Inr (output_ids, FINISHED_LENGTH), s)"
| "generation_loop g sp rid n (Suc r) block_table output_ids s =
     (if last output_ids = ge_eos_token_id g then (Inr (output_ids, FINISHED_STOPPED), s)
      else
        (let current_seq_len = n + int (length output_ids);
             full = current_seq_len > int (length block_table) * spec_block_size (ge_kv_spec g);
             (ok, m) = (if full then append_token_block rid (fst s) else (True, fst s));
             table = (if full then get_block_table rid m else block_table)
         in if \<not> ok then (Inr (output_ids, FINISHED_LENGTH), (m, snd s))
            else andthen (decode_once g sp table current_seq_len output_ids (m, snd s)) (\<lambda>token s1.
                   generation_loop g sp rid n r table (output_ids @ [token]) s1)))"

definition generate_body ::
  "generation_engine \<Rightarrow> sampling_params \<Rightarrow> string \<Rightarrow> int list \<Rightarrow> gen_state
   \<Rightarrow> (gen_state, int list \<times> seq_status) outcome" where
  "generate_body g sp rid prompt s =
     (let block_table = get_block_table rid (fst s); n = int (length prompt)
      in case compute_slot_mapping (spec_block_size (ge_kv_spec g)) block_table n of
           Inl e \<Rightarrow> (Inl e, s)
         | Inr slots \<Rightarrow>
             andthen (run_forward g prompt (prefill_meta block_table n slots) s) (\<lambda>rows s1.
               if max_tokens sp \<le> 0 then (Inr ([], FINISHED_LENGTH), s1)
               else andthen (sample_token (ge_torch g) (length (snd s1))
                        (drop (length rows - 1) rows) sp, s1) (\<lambda>token s2.
                 andthen (generation_loop g sp rid n (nat (max_tokens sp - 1)) block_table [token] s2)
                   (\<lambda>(output_ids, finish_reason) s3.
                      (Inr (output_ids,
                        if output_ids \<noteq> [] \<and> last output_ids = ge_eos_token_id g
                        then FINISHED_STOPPED else finish_reason), s3)))))"

text \<open>\<^verbatim>\<open>try: ... finally: free_sequence(rid)\<close>: an exception of the cleanup replaces the outcome.\<close>

definition finally_free :: "string \<Rightarrow> (gen_state, 'a) outcome \<Rightarrow> (gen_state, 'a) outcome" where
  "finally_free rid r =
     (case r of (v, (m, calls)) \<Rightarrow>
        (case free_sequence rid m of
           (Inl e, m1) \<Rightarrow> (Inl e, (m1, calls))
         | (Inr _, m1) \<Rightarrow> (v, (m1, calls))))"

definition generate ::
  "generation_engine \<Rightarrow> int list \<Rightarrow> sampling_params option \<Rightarrow> string option \<Rightarrow> string \<Rightarrow> gen_state
   \<Rightarrow> (gen_state, generation_result) outcome" where
  "generate g prompt sampling_opt rid_opt uuid s =
     (if prompt = [] then (Inl ValueError, s)
      else
        (let rid = (case rid_opt of Some r \<Rightarrow> if r \<noteq> [] then r else uuid | None \<Rightarrow> uuid);
             sp = (case sampling_opt of Some p \<Rightarrow> p | None \<Rightarrow> default_sampling);
             n = int (length prompt)
         in if (case ge_max_seq_length g of None \<Rightarrow> False | Some limit \<Rightarrow> n > limit)
            then (Inl PromptTooLongError, s)
            else
              (case allocate_blocks_for_sequence rid n (fst s) of
                 (Inl e, m) \<Rightarrow> (Inl e, (m, snd s))
               | (Inr False, m) \<Rightarrow> (Inl KVCacheAllocationError, (m, snd s))
               | (Inr True, m) \<Rightarrow>
                   andthen (finally_free rid (generate_body g sp rid prompt (m, snd s)))
                     (\<lambda>(output_ids, finish_reason) s1.
                        (Inr \<lparr>gr_request_id = rid, gr_prompt_token_ids = prompt,
                              gr_output_token_ids = output_ids, gr_finish_reason = finish_reason\<rparr>, s1)))))"

section \<open>Slots of a sequence\<close>

text \<open>The slot of the token at a position: its offset in the block that holds it.\<close>

definition slot_of :: "int \<Rightarrow> nat list \<Rightarrow> nat \<Rightarrow> int" where
  "slot_of bs table i = int (table ! (i div nat bs)) * bs + int i mod bs"

lemma block_index_less:
  assumes "0 < bs" and "int i < int n * bs"
  shows "i div nat bs < n" and "int i div bs < int n"
proof -
  from assms(1) obtain b where b: "bs = int b" by (metis nonneg_int_cases less_imp_le)
  with assms(2) have "i < n * b" by (metis of_nat_less_iff of_nat_mult)
  then show "i div nat bs < n" using b by (simp add: less_mult_imp_div_less)
  then show "int i div bs < int n" using b by (simp flip: zdiv_int)
qed

lemma slot_of_append:
  assumes "0 < bs" and "int i < int (length table) * bs"
  shows "slot_of bs (table @ bl) i = slot_of bs table i"
  using block_index_less(1) [OF assms] by (simp add: slot_of_def nth_append)

lemma slot_of_inj:
  assumes bs: "0 < bs" and "distinct table"
    and "int i < int (length table) * bs" and "int j < int (length table) * bs"
    and eq: "slot_of bs table i = slot_of bs table j"
  shows "i = j"
proof -
  have lt: "i div nat bs < length table" "j div nat bs < length table"
    using assms block_index_less(1) by simp_all
  have "slot_of bs table k div bs = int (table ! (k div nat bs))" for k
    using bs by (simp add: slot_of_def)
  with eq have "table ! (i div nat bs) = table ! (j div nat bs)" by (metis of_nat_eq_iff)
  with lt assms(2) have "i div nat bs = j div nat bs" by (simp add: nth_eq_iff_index_eq)
  moreover have "int i mod bs = int j mod bs"
    using eq calculation by (simp add: slot_of_def)
  then have "i mod nat bs = j mod nat bs"
    using bs by (metis nat_int nat_mod_distrib of_nat_0_le_iff order_less_imp_le)
  ultimately show ?thesis by (metis mult_div_mod_eq)
qed

lemma slot_loop_in_range:
  assumes "0 < bs" and "\<forall>i \<in> set is. int i < int (length table) * bs"
  shows "slot_loop bs table (map int is) slots = Inr (slots @ map (slot_of bs table) is)"
  using assms(2)
proof (induction "is" arbitrary: slots)
  case (Cons i "is")
  from Cons.prems assms(1) have lt: "int i div bs < int (length table)"
    by (simp add: block_index_less(2))
  moreover have pos: "0 \<le> int i div bs" using assms(1) by (simp add: pos_imp_zdiv_nonneg_iff)
  moreover have "nat (int i div bs) = i div nat bs" using assms(1) by (simp add: nat_div_distrib)
  ultimately show ?case using Cons assms(1) by (simp add: py_subscript_def slot_of_def Let_def)
qed simp

lemma compute_slot_mapping_eq:
  assumes "0 < bs" and "int n \<le> int (length table) * bs"
  shows "compute_slot_mapping bs table (int n) = Inr (map (slot_of bs table) [0..<n])"
proof -
  have "[0..int n - 1] = map int [0..<n]" by (rule nth_equalityI) simp_all
  with slot_loop_in_range [OF assms(1), of "[0..<n]" table "[]"] assms(2) show ?thesis
    by (simp add: compute_slot_mapping_def)
qed

section \<open>The blocks of the running sequence\<close>

definition free_for :: "(string, nat list) odict \<Rightarrow> nat \<Rightarrow> nat set" where
  "free_for D T = {b. b < T \<and> b \<notin># table_refs D}"

lemma free_list_set:
  assumes "mgr_inv m"
  shows "set (free_list (km_gpu m)) = free_for (km_seq m) (total_blocks (km_gpu m))"
proof -
  from assms have own: "gpu_owned m {#}" by (simp add: mgr_inv_def)
  from gpu_owned_ok [OF own]
  have "b \<in> set (free_list (km_gpu m)) \<longleftrightarrow> b < total_blocks (km_gpu m) \<and> ref_cnt (bp_heap (km_gpu m) b) = 0" for b
    by (simp add: pool_ok_def)
  with own show ?thesis by (auto simp: free_for_def gpu_owned_def not_in_iff)
qed

lemma free_list_distinct: "mgr_inv m \<Longrightarrow> distinct (free_list (km_gpu m))"
  using gpu_owned_ok [of m "{#}"] fq.rep_distinct by (auto simp: mgr_inv_def pool_ok_def)

lemma num_free_card:
  assumes "mgr_inv m"
  shows "num_free_gpu_blocks m = int (card (free_for (km_seq m) (total_blocks (km_gpu m))))"
proof -
  from assms have ok: "pool_ok (km_gpu m) (free_list (km_gpu m))"
    using gpu_owned_ok by (auto simp: mgr_inv_def)
  have "num_free_gpu_blocks m = int (length (free_list (km_gpu m)))"
    using ok fq.rep_len by (simp add: pool_ok_def num_free_gpu_blocks_def num_free_blocks_def)
  then show ?thesis
    using free_list_distinct [OF assms] by (simp add: distinct_card flip: free_list_set [OF assms])
qed

text \<open>
  The manager while a generation runs: the sequence holds \<open>table\<close>, distinct
  blocks that were free before, and the tables \<open>D\<close> of the others are as they were.
\<close>

definition gen_kv ::
  "string \<Rightarrow> (string, nat list) odict \<Rightarrow> nat \<Rightarrow> nat list \<Rightarrow> kv_mgr \<Rightarrow> bool" where
  "gen_kv rid D T table m \<longleftrightarrow>
     mgr_inv m \<and> get_block_table rid m = table \<and> distinct table \<and> set table \<subseteq> free_for D T \<and>
     AList.delete rid (km_seq m) = D \<and> total_blocks (km_gpu m) = T"

lemma table_refs_split:
  "od_ok (km_seq m) \<Longrightarrow>
   table_refs (km_seq m) = mset (get_block_table rid m) + table_refs (AList.delete rid (km_seq m))"
  by (cases "map_of (km_seq m) rid")
    (simp_all add: get_block_table_def seq_blocks_def delete_absent table_refs_delete
      flip: map_of_eq_None_iff)

lemma gen_kv_free:
  assumes "gen_kv rid D T table m"
  shows "set (free_list (km_gpu m)) = free_for D T - set table"
proof -
  from assms have "od_ok (km_seq m)" by (simp add: gen_kv_def mgr_inv_def gpu_owned_def)
  with assms show ?thesis
    by (auto simp: gen_kv_def free_list_set free_for_def table_refs_split [where rid = rid])
qed

lemma gen_kv_append:
  assumes kv: "gen_kv rid D T table m" and r: "append_token_block rid m = (r, m')"
  shows "if r then \<exists>b. get_block_table rid m' = table @ [b] \<and> gen_kv rid D T (table @ [b]) m'
         else m' = m \<and> free_for D T \<subseteq> set table"
proof -
  from kv have inv: "mgr_inv m" by (simp add: gen_kv_def)
  note ap = append_token_block_inv [OF inv r] and fr = gen_kv_free [OF kv]
  show ?thesis
  proof (cases r)
    case True
    with ap have "hd (free_list (km_gpu m)) \<in> free_for D T - set table" unfolding fr [symmetric] by simp
    with True ap kv show ?thesis by (auto simp: gen_kv_def gpu_frame_def)
  next
    case False
    with ap fr show ?thesis by auto
  qed
qed

lemma gen_kv_alloc:
  assumes "mgr_inv m" and "map_of (km_seq m) rid = None" and "0 < km_block_size m"
    and "allocate_blocks_for_sequence rid n m = (r, m')"
  shows "case r of
      Inl e \<Rightarrow> False
    | Inr False \<Rightarrow> mgr_inv m' \<and> km_seq m' = km_seq m \<and> total_blocks (km_gpu m') = total_blocks (km_gpu m)
    | Inr True \<Rightarrow> \<exists>table. gen_kv rid (km_seq m) (total_blocks (km_gpu m)) table m' \<and>
        n \<le> int (length table) * km_block_size m"
proof -
  let ?k = "nat (ceil_div n (km_block_size m))"
  from assms(3) have "km_block_size m \<noteq> 0" by simp
  from allocate_for_sequence_inv [OF assms(1,2) this, of n] assms(4) obtain ok where r: "r = Inr ok"
    and m': "mgr_inv m'" "gpu_frame m' = gpu_frame m" "AList.delete rid (km_seq m') = km_seq m"
    and ok: "if ok then get_block_table rid m' = take ?k (free_list (km_gpu m)) \<and>
         ?k \<le> length (free_list (km_gpu m))
       else length (free_list (km_gpu m)) < ?k \<and> km_seq m' = km_seq m"
    by (elim exE conjE) (simp only: prod.inject, blast)
  have n: "n \<le> int ?k * km_block_size m"
  proof (cases "0 \<le> ceil_div n (km_block_size m)")
    case True
    then show ?thesis using ceil_div_bounds(1) [OF assms(3), of n] by simp
  next
    case False
    then have "ceil_div n (km_block_size m) * km_block_size m \<le> 0"
      using assms(3) by (simp add: mult_le_0_iff)
    with False show ?thesis using ceil_div_bounds(1) [OF assms(3), of n] by simp
  qed
  show ?thesis
  proof (cases ok)
    case True
    let ?t = "take ?k (free_list (km_gpu m))"
    have "set ?t \<subseteq> free_for (km_seq m) (total_blocks (km_gpu m))"
      using set_take_subset [of ?k "free_list (km_gpu m)"] by (simp add: free_list_set [OF assms(1)])
    with True m' ok free_list_distinct [OF assms(1)]
    have "gen_kv rid (km_seq m) (total_blocks (km_gpu m)) ?t m'"
      by (simp add: gen_kv_def gpu_frame_def)
    moreover have "length ?t = ?k" using ok True by simp
    then have "n \<le> int (length ?t) * km_block_size m" using n by (simp only:)
    ultimately show ?thesis using r True by auto
  next
    case False
    with r m' ok show ?thesis by (simp add: gpu_frame_def)
  qed
qed

section \<open>The calls of the model\<close>

text \<open>
  Token \<open>i\<close> of all the tokens passed to the model so far was given slot \<open>i\<close> of
  the sequence.
\<close>

definition gen_calls :: "int \<Rightarrow> nat list \<Rightarrow> call_log \<Rightarrow> bool" where
  "gen_calls bs table calls \<longleftrightarrow>
     (let n = length (concat (map fst calls))
      in int n \<le> int (length table) * bs \<and>
         concat (map (am_slot_mapping \<circ> snd) calls) = map (slot_of bs table) [0..<n])"

lemma gen_calls_extend:
  assumes "0 < bs" and "gen_calls bs table calls"
  shows "gen_calls bs (table @ bl) calls"
proof -
  let ?n = "length (concat (map fst calls))"
  from assms(2) have n: "int ?n \<le> int (length table) * bs" by (simp add: gen_calls_def Let_def)
  also have "\<dots> \<le> int (length (table @ bl)) * bs" using assms(1) by (simp add: distrib_right)
  finally have "int ?n \<le> int (length (table @ bl)) * bs" .
  moreover have "map (slot_of bs (table @ bl)) [0..<?n] = map (slot_of bs table) [0..<?n]"
    using n assms(1) by (auto intro!: map_cong slot_of_append)
  ultimately show ?thesis using assms(2) by (simp only: gen_calls_def Let_def)
qed

lemma gen_calls_snoc:
  assumes "gen_calls bs table calls" and "n = length (concat (map fst calls))"
    and "int (n + length toks) \<le> int (length table) * bs"
    and "am_slot_mapping meta = map (slot_of bs table) [n..<n + length toks]"
  shows "gen_calls bs table (calls @ [(toks, meta)])"
proof -
  have "map (slot_of bs table) [0..<n + length toks] =
      map (slot_of bs table) [0..<n] @ map (slot_of bs table) [n..<n + length toks]"
    by (simp only: upt_add_eq_append [OF le0] map_append)
  moreover have "concat (map (am_slot_mapping \<circ> snd) calls) = map (slot_of bs table) [0..<n]"
    using assms(1) unfolding gen_calls_def Let_def assms(2) by (rule conjunct2)
  ultimately have "concat (map (am_slot_mapping \<circ> snd) (calls @ [(toks, meta)])) =
      map (slot_of bs table) [0..<n + length toks]"
    using assms(4) by simp
  moreover have "length (concat (map fst (calls @ [(toks, meta)]))) = n + length toks"
    by (simp add: assms(2))
  ultimately show ?thesis using assms(3) by (simp only: gen_calls_def Let_def)
qed

lemma run_forward_log:
  "\<exists>r. run_forward g toks meta s = (r, (fst s, snd s @ [(toks, meta)]))"
  by (simp add: run_forward_def Let_def split: option.splits)

lemma decode_once_calls:
  assumes bs: "bs = spec_block_size (ge_kv_spec g)" "0 < bs"
    and calls: "gen_calls bs table (snd s)"
    and len: "n = Suc (length (concat (map fst (snd s))))" "int n \<le> int (length table) * bs"
  shows "\<exists>r s'. decode_once g sp table (int n) out s = (r, s') \<and> fst s' = fst s \<and>
    gen_calls bs table (snd s') \<and> concat (map fst (snd s')) = concat (map fst (snd s)) @ [last out]"
proof -
  let ?slots = "map (slot_of bs table) [0..<n]"
  let ?meta = "decode_meta table (int n) (drop (length ?slots - 1) ?slots)"
  have slots: "compute_slot_mapping bs table (int n) = Inr ?slots"
    by (rule compute_slot_mapping_eq [OF bs(2) len(2)])
  obtain r where r: "run_forward g [last out] ?meta s = (r, (fst s, snd s @ [([last out], ?meta)]))"
    using run_forward_log by blast
  have "drop (length ?slots - 1) ?slots = [slot_of bs table (n - 1)]" using len(1) by (simp add: drop_map)
  then have "gen_calls bs table (snd s @ [([last out], ?meta)])"
    using len by (intro gen_calls_snoc [OF calls refl]) (simp_all add: decode_meta_def)
  with slots r bs(1) show ?thesis
    by (cases r) (simp_all add: decode_once_def forward_and_sample_def)
qed

section \<open>The generation loop\<close>

text \<open>
  What a run of the loop leaves behind: the manager and the log stay consistent
  for some table, and a regular result continues the tokens \<open>out\<close> by at most
  \<open>r\<close>, stops behind the first end token, and is short only when the pool is
  exhausted.
\<close>

definition gen_done ::
  "generation_engine \<Rightarrow> string \<Rightarrow> (string, nat list) odict \<Rightarrow> nat \<Rightarrow> int list \<Rightarrow> nat
   \<Rightarrow> (gen_state, int list \<times> seq_status) outcome \<Rightarrow> bool" where
  "gen_done g rid D T prompt limit res \<longleftrightarrow>
     (\<exists>table. gen_kv rid D T table (fst (snd res)) \<and>
        gen_calls (spec_block_size (ge_kv_spec g)) table (snd (snd res)) \<and>
        (case fst res of
           Inl e \<Rightarrow> True
         | Inr (out, reason) \<Rightarrow>
             concat (map fst (snd (snd res))) = prompt @ butlast out \<and>
             length out \<le> limit \<and> ge_eos_token_id g \<notin> set (butlast out) \<and>
             reason \<in> {FINISHED_STOPPED, FINISHED_LENGTH} \<and>
             (reason = FINISHED_STOPPED \<longrightarrow> out \<noteq> [] \<and> last out = ge_eos_token_id g) \<and>
             (length out < limit \<longrightarrow> out \<noteq> [] \<and>
                (last out = ge_eos_token_id g \<or>
                 free_for D T \<subseteq> set table \<and>
                 int (length prompt + length out) > int (length table) * spec_block_size (ge_kv_spec g)))))"

lemma gen_done_error:
  "gen_kv rid D T table (fst s) \<Longrightarrow> gen_calls (spec_block_size (ge_kv_spec g)) table (snd s) \<Longrightarrow>
   gen_done g rid D T prompt limit (Inl e, s)"
  by (auto simp: gen_done_def)

lemma grown_table:
  assumes "gen_kv rid D T table m" and bs: "bs = spec_block_size (ge_kv_spec g)" "0 < bs"
    and calls: "gen_calls bs table calls" and n: "n = Suc (length (concat (map fst calls)))"
    and full: "full \<longleftrightarrow> int n > int (length table) * bs"
    and r: "(ok, m') = (if full then append_token_block rid m else (True, m))"
    and t: "t' = (if full then get_block_table rid m' else table)"
  shows "if ok then gen_kv rid D T t' m' \<and> gen_calls bs t' calls \<and> int n \<le> int (length t') * bs
         else m' = m \<and> full \<and> free_for D T \<subseteq> set table"
proof (cases full)
  case False
  with assms show ?thesis by simp
next
  case True
  with r have a: "append_token_block rid m = (ok, m')" by simp
  from calls n have le: "int n \<le> int (length table) * bs + 1" by (simp add: gen_calls_def Let_def)
  show ?thesis
  proof (cases ok)
    case False
    with True gen_kv_append [OF assms(1) a] show ?thesis by simp
  next
    case ok: True
    with gen_kv_append [OF assms(1) a] True t obtain b
      where t': "t' = table @ [b]" "gen_kv rid D T t' m'" by auto
    moreover have "int n \<le> int (length t') * bs" using le bs(2) t' by (simp add: distrib_right)
    ultimately show ?thesis using ok gen_calls_extend [OF bs(2) calls] by simp
  qed
qed

lemma generation_loop_done:
  assumes "bs = spec_block_size (ge_kv_spec g)" and "0 < bs"
    and "gen_kv rid D T table (fst s)" and "gen_calls bs table (snd s)"
    and "concat (map fst (snd s)) = prompt @ butlast out" and "out \<noteq> []"
    and "ge_eos_token_id g \<notin> set (butlast out)"
  shows "gen_done g rid D T prompt (length out + r)
           (generation_loop g sp rid (int (length prompt)) r table out s)"
  using assms(3-7)
proof (induction r arbitrary: table out s)
  case 0
  with assms(1) show ?case by (auto simp: gen_done_def)
next
  case (Suc r)
  note bs = assms(1,2) and kv = Suc.prems(1) and calls = Suc.prems(2) and toks = Suc.prems(3)
  show ?case
  proof (cases "last out = ge_eos_token_id g")
    case True
    with Suc.prems bs show ?thesis by (auto simp: gen_done_def)
  next
    case False
    let ?n = "length prompt + length out"
    have n: "?n = Suc (length (concat (map fst (snd s))))"
      using toks Suc.prems(4) by (cases out) simp_all
    define full where "full = (int ?n > int (length table) * bs)"
    obtain ok m where m: "(ok, m) = (if full then append_token_block rid (fst s) else (True, fst s))"
      by (metis surj_pair)
    define t where "t = (if full then get_block_table rid m else table)"
    note grown = grown_table [OF kv bs calls n full_def m t_def]
    have step: "generation_loop g sp rid (int (length prompt)) (Suc r) table out s =
      (if \<not> ok then (Inr (out, FINISHED_LENGTH), (m, snd s))
       else andthen (decode_once g sp t (int ?n) out (m, snd s)) (\<lambda>token s1.
              generation_loop g sp rid (int (length prompt)) r t (out @ [token]) s1))"
    proof (cases full)
      case True
      with m have "append_token_block rid (fst s) = (ok, m)" by simp
      with True False show ?thesis by (simp add: t_def Let_def full_def bs(1))
    next
      case nofull: False
      with m False show ?thesis by (simp add: t_def Let_def full_def bs(1))
    qed
    show ?thesis
    proof (cases ok)
      case False
      with grown Suc.prems bs \<open>last out \<noteq> _\<close> show ?thesis
        unfolding step by (auto simp: gen_done_def full_def intro!: exI [of _ table])
    next
      case True
      with grown have t: "gen_kv rid D T t m" "gen_calls bs t (snd (m, snd s))" "int ?n \<le> int (length t) * bs"
        by simp_all
      from decode_once_calls [OF bs t(2) _ t(3)] n obtain res s1
        where d: "decode_once g sp t (int ?n) out (m, snd s) = (res, s1)" "fst s1 = m"
          "gen_calls bs t (snd s1)" "concat (map fst (snd s1)) = concat (map fst (snd s)) @ [last out]"
        by (metis fst_conv snd_conv)
      show ?thesis
      proof (cases res)
        case (Inl e)
        with True d t show ?thesis unfolding step by (simp add: gen_done_error bs)
      next
        case (Inr token)
        have "concat (map fst (snd s1)) = prompt @ butlast (out @ [token])"
          using d(4) toks Suc.prems(4) by simp
        moreover have "ge_eos_token_id g \<notin> set (butlast (out @ [token]))"
          using Suc.prems(4,5) False by (metis butlast_snoc append_butlast_last_id set_append Un_iff
              empty_iff insert_iff list.set)
        ultimately have "gen_done g rid D T prompt (length (out @ [token]) + r)
            (generation_loop g sp rid (int (length prompt)) r t (out @ [token]) s1)"
          using d t by (intro Suc.IH) simp_all
        with True d(1) Inr show ?thesis unfolding step by simp
      qed
    qed
  qed
qed

lemma gen_done_reason:
  assumes "gen_done g rid D T prompt limit res"
  shows "gen_done g rid D T prompt limit (andthen res (\<lambda>(out, reason) s.
    (Inr (out, if out \<noteq> [] \<and> last out = ge_eos_token_id g then FINISHED_STOPPED else reason), s)))"
proof (cases "fst res")
  case (Inl e)
  with assms show ?thesis by (cases res) simp
next
  case (Inr o_r)
  then obtain out reason s where res: "res = (Inr (out, reason), s)" by (cases res; cases o_r) auto
  show ?thesis using assms unfolding gen_done_def res by simp blast
qed

lemma generate_body_done:
  assumes bs: "bs = spec_block_size (ge_kv_spec g)" "0 < bs"
    and kv: "gen_kv rid D T table m" and len: "int (length prompt) \<le> int (length table) * bs"
  shows "gen_done g rid D T prompt (nat (max_tokens sp)) (generate_body g sp rid prompt (m, []))"
proof -
  let ?n = "length prompt" and ?meta = "prefill_meta table (int (length prompt))
    (map (slot_of bs table) [0..<length prompt])"
  from kv have table: "get_block_table rid m = table" by (simp add: gen_kv_def)
  have slots: "compute_slot_mapping bs table (int ?n) = Inr (map (slot_of bs table) [0..<?n])"
    by (rule compute_slot_mapping_eq [OF bs(2) len])
  obtain r where r: "run_forward g prompt ?meta (m, []) = (r, (m, [(prompt, ?meta)]))"
    using run_forward_log [of g prompt ?meta "(m, [])"] by auto
  have calls: "gen_calls bs table [(prompt, ?meta)]"
    using gen_calls_snoc [of bs table "[]" 0 prompt ?meta] len
    by (simp add: gen_calls_def prefill_meta_def)
  have body: "generate_body g sp rid prompt (m, []) =
    andthen (r, (m, [(prompt, ?meta)])) (\<lambda>rows s1.
      if max_tokens sp \<le> 0 then (Inr ([], FINISHED_LENGTH), s1)
      else andthen (sample_token (ge_torch g) (length (snd s1)) (drop (length rows - 1) rows) sp, s1) (\<lambda>token s2.
        andthen (generation_loop g sp rid (int ?n) (nat (max_tokens sp - 1)) table [token] s2)
          (\<lambda>(out, reason) s3. (Inr (out, if out \<noteq> [] \<and> last out = ge_eos_token_id g
             then FINISHED_STOPPED else reason), s3))))"
    using slots r table bs(1) by (simp add: generate_body_def Let_def)
  show ?thesis
  proof (cases "\<exists>rows token. r = Inr rows \<and> 0 < max_tokens sp \<and>
      sample_token (ge_torch g) 1 (drop (length rows - 1) rows) sp = Inr token")
    case True
    then obtain rows token where r: "r = Inr rows" and pos: "0 < max_tokens sp"
      and token: "sample_token (ge_torch g) 1 (drop (length rows - 1) rows) sp = Inr token" by blast
    have limit: "length [token] + nat (max_tokens sp - 1) = nat (max_tokens sp)" using pos by simp
    have "gen_done g rid D T prompt (nat (max_tokens sp))
        (generation_loop g sp rid (int ?n) (nat (max_tokens sp - 1)) table [token] (m, [(prompt, ?meta)]))"
      unfolding limit [symmetric]
      by (rule generation_loop_done [OF bs]) (use kv calls in \<open>simp_all\<close>)
    from gen_done_reason [OF this] show ?thesis using r pos token unfolding body by simp
  next
    case False
    show ?thesis
    proof (cases "\<exists>rows. r = Inr rows \<and> max_tokens sp \<le> 0")
      case True
      with kv calls bs(1) show ?thesis unfolding body by (auto simp: gen_done_def)
    next
      case nomax: False
      have "\<exists>e. generate_body g sp rid prompt (m, []) = (Inl e, (m, [(prompt, ?meta)]))"
      proof (cases r)
        case (Inr rows)
        with False nomax obtain e
          where "sample_token (ge_torch g) 1 (drop (length rows - 1) rows) sp = Inl e"
          by (cases "sample_token (ge_torch g) 1 (drop (length rows - 1) rows) sp") auto
        with Inr nomax show ?thesis unfolding body by simp
      qed (simp add: body)
      with kv calls show ?thesis unfolding bs(1) by (elim exE) (simp add: gen_done_error)
    qed
  qed
qed

text \<open>The cleanup after a generation and what the caller sees of it.\<close>

lemma generate_body_stopped:
  assumes "generate_body g sp rid prompt s = (Inr (out, reason), s')"
    and "out \<noteq> []" and "last out = ge_eos_token_id g"
  shows "reason = FINISHED_STOPPED"
  using assms by (auto simp: generate_body_def Let_def andthen_Inr_iff split: sum.splits if_splits)

lemma finally_free_kv:
  assumes "gen_kv rid D T table (fst (snd res))" and "rid \<notin> fst ` set D"
  shows "\<exists>m'. finally_free rid res = (fst res, (m', snd (snd res))) \<and> mgr_inv m' \<and>
    km_seq m' = D \<and> total_blocks (km_gpu m') = T"
proof -
  obtain v m calls where res: "res = (v, (m, calls))" by (cases res) auto
  with assms have "mgr_inv m" by (simp add: gen_kv_def)
  from free_sequence_inv [OF this, of rid] res assms show ?thesis
    by (auto simp: finally_free_def gen_kv_def)
qed

lemma generate_cases:
  assumes inv: "mgr_inv m" and new: "map_of (km_seq m) rid = None" and "rid \<noteq> []"
    and bs: "km_block_size m = spec_block_size (ge_kv_spec g)" "0 < km_block_size m"
    and sp: "sp = (case sampling_opt of Some p \<Rightarrow> p | None \<Rightarrow> default_sampling)"
  shows "\<exists>r m' calls. generate g prompt sampling_opt (Some rid) uuid (m, []) = (r, (m', calls)) \<and>
    mgr_inv m' \<and> km_seq m' = km_seq m \<and> total_blocks (km_gpu m') = total_blocks (km_gpu m) \<and>
    (calls = [] \<and> isl r \<or>
     (\<exists>s. snd s = calls \<and>
        (case r of
           Inl e \<Rightarrow> gen_done g rid (km_seq m) (total_blocks (km_gpu m)) prompt (nat (max_tokens sp)) (Inl e, s)
         | Inr res \<Rightarrow>
             (let out = gr_output_token_ids res; reason = gr_finish_reason res in
              (out \<noteq> [] \<longrightarrow> last out = ge_eos_token_id g \<longrightarrow> reason = FINISHED_STOPPED) \<and>
              gen_done g rid (km_seq m) (total_blocks (km_gpu m)) prompt (nat (max_tokens sp))
                (Inr (out, reason), s)))))"
proof (cases "prompt = [] \<or> (\<exists>l. ge_max_seq_length g = Some l \<and> int (length prompt) > l)")
  case True
  with inv \<open>rid \<noteq> []\<close> show ?thesis by (auto simp: generate_def Let_def split: option.splits)
next
  case False
  obtain a m1 where a: "allocate_blocks_for_sequence rid (int (length prompt)) m = (a, m1)" by fastforce
  note al = gen_kv_alloc [OF inv new bs(2) a]
  have gen: "generate g prompt sampling_opt (Some rid) uuid (m, []) =
    (case (a, m1) of
       (Inl e, m) \<Rightarrow> (Inl e, (m, []))
     | (Inr False, m) \<Rightarrow> (Inl KVCacheAllocationError, (m, []))
     | (Inr True, m) \<Rightarrow> andthen (finally_free rid (generate_body g sp rid prompt (m, [])))
         (\<lambda>(out, reason) s1. (Inr \<lparr>gr_request_id = rid, gr_prompt_token_ids = prompt,
              gr_output_token_ids = out, gr_finish_reason = reason\<rparr>, s1)))"
    using False \<open>rid \<noteq> []\<close> a sp
    by (auto simp: generate_def Let_def split: option.splits sum.splits bool.splits)
  show ?thesis
  proof (cases "a = Inr True")
    case True
    with al obtain table where kv: "gen_kv rid (km_seq m) (total_blocks (km_gpu m)) table m1"
      and "int (length prompt) \<le> int (length table) * km_block_size m" by auto
    with generate_body_done [OF bs] have d: "gen_done g rid (km_seq m) (total_blocks (km_gpu m)) prompt (nat (max_tokens sp))
        (generate_body g sp rid prompt (m1, []))" by simp
    obtain v s where body: "generate_body g sp rid prompt (m1, []) = (v, s)" by (meson surj_pair)
    from d body obtain t where "gen_kv rid (km_seq m) (total_blocks (km_gpu m)) t (fst (snd (v, s)))"
      by (auto simp: gen_done_def)
    from finally_free_kv [OF this] new obtain m'
      where "finally_free rid (v, s) = (v, (m', snd s))" "mgr_inv m'" "km_seq m' = km_seq m"
        "total_blocks (km_gpu m') = total_blocks (km_gpu m)"
      by (auto simp: map_of_eq_None_iff)
    with True body d generate_body_stopped [of g sp rid prompt "(m1, [])"] show ?thesis unfolding gen
      by (cases v; cases s) auto
  next
    case False
    with al obtain "a = Inr False" "mgr_inv m1" "km_seq m1 = km_seq m"
      "total_blocks (km_gpu m1) = total_blocks (km_gpu m)"
      by (cases a) (auto split: bool.splits)
    then show ?thesis unfolding gen by auto
  qed
qed

section \<open>Properties\<close>

text \<open>
  C12: However a generation ends (an empty or too long prompt, too few blocks, a
  failing forward pass or sampler, the end token, the token limit or an
  exhausted pool), the manager's invariant holds afterwards, the block tables of
  all other sequences are as before, and as many GPU blocks are free as before:
  a generation never leaks a block.
\<close>

theorem generate_restores_cache:
  assumes "mgr_inv m" and "map_of (km_seq m) rid = None" and "rid \<noteq> []"
    and "km_block_size m = spec_block_size (ge_kv_spec g)" and "0 < km_block_size m"
    and "generate g prompt sampling_opt (Some rid) uuid (m, []) = (r, (m', calls))"
  shows "mgr_inv m' \<and> km_seq m' = km_seq m \<and> num_free_gpu_blocks m' = num_free_gpu_blocks m"
proof -
  from generate_cases [OF assms(1-5) refl, of prompt sampling_opt uuid] assms(6)
  have "mgr_inv m'" "km_seq m' = km_seq m" "total_blocks (km_gpu m') = total_blocks (km_gpu m)"
    by (auto simp del: isl_def)
  with assms(1) show ?thesis by (simp add: num_free_card)
qed

definition example_engine :: generation_engine where
  "example_engine =
     \<lparr>ge_kv_spec = \<lparr>spec_num_kv_heads = 1, spec_head_dim = 1, spec_dtype_size = 2, spec_block_size = 2\<rparr>,
      ge_vocab_size = 8, ge_eos_token_id = 2,
      ge_model_forward = Some (\<lambda>k toks meta. Inr [replicate (Suc k) None]),
      ge_max_seq_length = Some 16,
      ge_torch = \<lparr>tl_argmax = length, tl_topk = (\<lambda>row k. [0..<k]), tl_sort_descending = (\<lambda>row. [0..<length row]),
        tl_softmax = map (\<lambda>_. 0), tl_multinomial = (\<lambda>k ps. 0), tl_randn = (\<lambda>k n v. [])\<rparr>\<rparr>"

definition greedy_params :: sampling_params where
  "greedy_params = default_sampling\<lparr>temperature := 0, max_tokens := 5\<rparr>"

theorem generate_restores_cache_witness:
  "\<exists>r m' calls. generate example_engine [5, 6, 7] None (Some ''r'') [] (kv_mgr_init 2 0 2, []) = (r, (m', calls)) \<and>
     mgr_inv m' \<and> num_free_gpu_blocks m' = num_free_gpu_blocks (kv_mgr_init 2 0 2)"
proof -
  obtain r m' calls where gen:
    "generate example_engine [5, 6, 7] None (Some ''r'') [] (kv_mgr_init 2 0 2, []) = (r, (m', calls))"
    by (metis surj_pair)
  from generate_restores_cache [OF mgr_inv_init _ _ _ _ this] gen show ?thesis
    by (simp add: kv_mgr_init_def example_engine_def)
qed

lemma generate_result_parts:
  assumes "mgr_inv m" and "map_of (km_seq m) rid = None" and "rid \<noteq> []"
    and "km_block_size m = bs" and "bs = spec_block_size (ge_kv_spec g)" and "0 < bs"
    and "generate g prompt (Some sp) (Some rid) uuid (m, []) = (Inr res, (m', calls))"
    and "out = gr_output_token_ids res"
  shows "\<exists>table. distinct table \<and> set table \<subseteq> set (free_list (km_gpu m)) \<and>
      concat (map fst calls) = prompt @ butlast out \<and>
      concat (map (am_slot_mapping \<circ> snd) calls) =
        map (slot_of bs table) [0..<length (prompt @ butlast out)] \<and>
      distinct (concat (map (am_slot_mapping \<circ> snd) calls))"
    and "length out \<le> nat (max_tokens sp)" and "ge_eos_token_id g \<notin> set (butlast out)"
    and "gr_finish_reason res =
      (if out \<noteq> [] \<and> last out = ge_eos_token_id g then FINISHED_STOPPED else FINISHED_LENGTH)"
    and "length out < nat (max_tokens sp) \<Longrightarrow> last out \<noteq> ge_eos_token_id g \<Longrightarrow>
      num_free_gpu_blocks m * bs < int (length prompt + length out)"
proof -
  from generate_cases [OF assms(1-3) _ _ refl, of g prompt "Some sp" uuid] assms(4-7)
  obtain s where calls: "snd s = calls"
    and stopped: "out \<noteq> [] \<longrightarrow> last out = ge_eos_token_id g \<longrightarrow> gr_finish_reason res = FINISHED_STOPPED"
    and fin: "gen_done g rid (km_seq m) (total_blocks (km_gpu m)) prompt (nat (max_tokens sp))
      (Inr (out, gr_finish_reason res), s)"
    by (auto simp: assms(8) Let_def)
  then obtain table where kv: "gen_kv rid (km_seq m) (total_blocks (km_gpu m)) table (fst s)"
    and c: "gen_calls bs table calls"
    and d: "concat (map fst calls) = prompt @ butlast out"
      "length out \<le> nat (max_tokens sp)" "ge_eos_token_id g \<notin> set (butlast out)"
      "gr_finish_reason res \<in> {FINISHED_STOPPED, FINISHED_LENGTH}"
      "gr_finish_reason res = FINISHED_STOPPED \<longrightarrow> out \<noteq> [] \<and> last out = ge_eos_token_id g"
      "length out < nat (max_tokens sp) \<longrightarrow> out \<noteq> [] \<and> (last out = ge_eos_token_id g \<or>
         free_for (km_seq m) (total_blocks (km_gpu m)) \<subseteq> set table \<and>
         int (length prompt + length out) > int (length table) * bs)"
    unfolding gen_done_def assms(5) by auto
  from kv have table: "distinct table" "set table \<subseteq> set (free_list (km_gpu m))"
    by (simp_all add: gen_kv_def free_list_set [OF assms(1)])
  from c d(1) have slots: "concat (map (am_slot_mapping \<circ> snd) calls) =
      map (slot_of bs table) [0..<length (prompt @ butlast out)]"
    and le: "int (length (prompt @ butlast out)) \<le> int (length table) * bs"
    by (simp_all add: gen_calls_def Let_def)
  have "inj_on (slot_of bs table) (set [0..<length (prompt @ butlast out)])"
    using le by (intro inj_onI slot_of_inj [OF assms(6) table(1)]) auto
  then have "distinct (concat (map (am_slot_mapping \<circ> snd) calls))"
    unfolding slots by (simp add: distinct_map)
  with table slots d(1) show "\<exists>table. distinct table \<and> set table \<subseteq> set (free_list (km_gpu m)) \<and>
      concat (map fst calls) = prompt @ butlast out \<and>
      concat (map (am_slot_mapping \<circ> snd) calls) =
        map (slot_of bs table) [0..<length (prompt @ butlast out)] \<and>
      distinct (concat (map (am_slot_mapping \<circ> snd) calls))" by blast
  show "length out \<le> nat (max_tokens sp)" and "ge_eos_token_id g \<notin> set (butlast out)"
    by (rule d(2), rule d(3))
  show "gr_finish_reason res =
      (if out \<noteq> [] \<and> last out = ge_eos_token_id g then FINISHED_STOPPED else FINISHED_LENGTH)"
    using d(4,5) stopped by auto
  assume "length out < nat (max_tokens sp)" and "last out \<noteq> ge_eos_token_id g"
  with d(6) have F: "free_for (km_seq m) (total_blocks (km_gpu m)) \<subseteq> set table"
    and lt: "int (length table) * bs < int (length prompt + length out)" by auto
  have "card (free_for (km_seq m) (total_blocks (km_gpu m))) \<le> length table"
    using card_mono [OF _ F] card_length [of table] by simp
  then have "num_free_gpu_blocks m * bs \<le> int (length table) * bs"
    using assms(6) by (simp add: num_free_card [OF assms(1)])
  with lt show "num_free_gpu_blocks m * bs < int (length prompt + length out)" by simp
qed

text \<open>
  C13: A generation that returns has passed the prompt and every generated token
  but the last to the model, the \<open>i\<close>-th token of them for the \<open>i\<close>-th slot of a
  table of distinct blocks that were all free before, so no two tokens share a
  slot and no other sequence is overwritten. The output has at most
  \<^verbatim>\<open>max_tokens\<close> tokens, contains the end token at most as its last token, and
  is reported as stopped exactly then. It is shorter than \<^verbatim>\<open>max_tokens\<close> without
  an end token only when all blocks that were free are full.
\<close>

theorem generate_result:
  assumes "mgr_inv m" and "map_of (km_seq m) rid = None" and "rid \<noteq> []"
    and "km_block_size m = bs" and "bs = spec_block_size (ge_kv_spec g)" and "0 < bs"
    and "generate g prompt (Some sp) (Some rid) uuid (m, []) = (Inr res, (m', calls))"
    and "out = gr_output_token_ids res"
  shows "(\<exists>table. distinct table \<and> set table \<subseteq> set (free_list (km_gpu m)) \<and>
      concat (map fst calls) = prompt @ butlast out \<and>
      concat (map (am_slot_mapping \<circ> snd) calls) =
        map (slot_of bs table) [0..<length (prompt @ butlast out)] \<and>
      distinct (concat (map (am_slot_mapping \<circ> snd) calls))) \<and>
    length out \<le> nat (max_tokens sp) \<and> ge_eos_token_id g \<notin> set (butlast out) \<and>
    gr_finish_reason res =
      (if out \<noteq> [] \<and> last out = ge_eos_token_id g then FINISHED_STOPPED else FINISHED_LENGTH) \<and>
    (length out < nat (max_tokens sp) \<longrightarrow> last out \<noteq> ge_eos_token_id g \<longrightarrow>
      num_free_gpu_blocks m * bs < int (length prompt + length out))"
  by (intro conjI impI) (fact generate_result_parts [OF assms])+

lemma example_generation:
  "\<exists>res m' calls. generate example_engine [5, 6, 7] (Some greedy_params) (Some ''r'') [] (kv_mgr_init 2 0 2, [])
     = (Inr res, (m', calls)) \<and> gr_output_token_ids res = [1, 2]"
proof -
  let ?g = "generate example_engine [5, 6, 7] (Some greedy_params) (Some ''r'') [] (kv_mgr_init 2 0 2, [])"
  have "map_sum id gr_output_token_ids (fst ?g) = Inr [1, 2]" by code_simp
  then show ?thesis by (cases ?g; cases "fst ?g") auto
qed

theorem generate_result_witness:
  "\<exists>res m' calls. generate example_engine [5, 6, 7] (Some greedy_params) (Some ''r'') [] (kv_mgr_init 2 0 2, [])
     = (Inr res, (m', calls)) \<and> concat (map fst calls) = [5, 6, 7, 1] \<and>
     distinct (concat (map (am_slot_mapping \<circ> snd) calls)) \<and> gr_finish_reason res = FINISHED_STOPPED"
proof -
  from example_generation obtain res m' calls where gen:
    "generate example_engine [5, 6, 7] (Some greedy_params) (Some ''r'') [] (kv_mgr_init 2 0 2, []) =
       (Inr res, (m', calls))" and out: "gr_output_token_ids res = [1, 2]" by blast
  have m: "map_of (km_seq (kv_mgr_init 2 0 2)) ''r'' = None" "km_block_size (kv_mgr_init 2 0 2) = 2"
    "2 = spec_block_size (ge_kv_spec example_engine)" "ge_eos_token_id example_engine = 2"
    by (simp_all add: kv_mgr_init_def example_engine_def)
  note res = generate_result [OF mgr_inv_init m(1) _ m(2,3) _ gen refl]
  from res gen out m(4) show ?thesis by auto
qed

end
