(* ===== verification/Expert_Prefetch.thy ===== *)
theory Expert_Prefetch
  imports Prelude Complex_Main
begin

text \<open>
  The expert side: \<^verbatim>\<open>src/moe_infinity/memory/expert_tracer.py\<close> counts which experts a
  sequence activates, \<^verbatim>\<open>expert_predictor.py\<close> predicts the experts of the layers
  to come, \<^verbatim>\<open>expert_prefetcher.py\<close> asks the native engine to fetch them, and
  \<^verbatim>\<open>src/moe_infinity/distributed/expert_executor.py\<close> dispatches the experts of a layer
  and triggers speculative fetches. Arrays of two dimensions are lists of rows
  of reals. The calls of the native engine are recorded in a log. The search for
  the most similar trace and the selection of the largest router logits are
  parameters; layer numbers are natural numbers.
\<close>

section \<open>Arrays\<close>

text \<open>An index of an array of length \<open>n\<close>; a negative one counts from the end.\<close>

definition np_pos :: "nat \<Rightarrow> int \<Rightarrow> nat option" where
  "np_pos n i =
     (let j = (if i < 0 then i + int n else i)
      in if 0 \<le> j \<and> j < int n then Some (nat j) else None)"

definition mat_get :: "real list list \<Rightarrow> nat \<Rightarrow> nat \<Rightarrow> real result" where
  "mat_get M i j = (if i < length M \<and> j < length (M ! i) then Inr (M ! i ! j) else Inl IndexError)"

definition mat_incr :: "nat \<Rightarrow> int \<Rightarrow> nat \<Rightarrow> real list list \<Rightarrow> real list list result" where
  "mat_incr layer key c M =
     (if layer < length M
      then (case np_pos (length (M ! layer)) key of
              None \<Rightarrow> Inl IndexError
            | Some j \<Rightarrow> Inr (M[layer := (M ! layer)[j := M ! layer ! j + real c]]))
      else Inl IndexError)"

section \<open>The tracer\<close>

record trace_entry =
  te_matrix :: "real list list"
  te_access :: int
  te_num_new_tokens :: nat

record tracer =
  tr_num_layers :: nat
  tr_num_experts :: nat
  tr_num_encoder_layers :: nat
  tr_capacity :: nat
  tr_trace :: "(string, trace_entry) odict"
  tr_collection :: "real list list list"
  tr_access :: "real list"
  tr_persistent :: "nat option"

definition zeros :: "nat \<Rightarrow> nat \<Rightarrow> real list list" where
  "zeros n k = replicate n (replicate k 0)"

definition tracer_init :: "nat \<Rightarrow> nat \<Rightarrow> nat \<Rightarrow> nat \<Rightarrow> tracer" where
  "tracer_init capacity num_layers num_experts num_encoder_layers =
     \<lparr>tr_num_layers = num_layers, tr_num_experts = num_experts,
      tr_num_encoder_layers = num_encoder_layers, tr_capacity = capacity, tr_trace = [],
      tr_collection = replicate capacity (zeros num_layers num_experts),
      tr_access = replicate capacity 0, tr_persistent = None\<rparr>"

definition load_trace :: "real list list list \<Rightarrow> tracer \<Rightarrow> (tracer, unit) outcome" where
  "load_trace loaded t =
     (let t1 = t\<lparr>tr_collection := loaded, tr_persistent := Some (length loaded)\<rparr>
      in if length loaded \<le> tr_capacity t then (Inr (), t1) else (Inl AssertionError, t1))"

definition create_entry :: "string \<Rightarrow> tracer \<Rightarrow> string \<times> tracer" where
  "create_entry uuid t =
     (uuid, t\<lparr>tr_trace := AList.update uuid
        \<lparr>te_matrix = zeros (tr_num_layers t) (tr_num_experts t), te_access = 0, te_num_new_tokens = 0\<rparr>
        (tr_trace t)\<rparr>)"

text \<open>\<^verbatim>\<open>np.argwhere(trace_sum == 0)[0][0]\<close> and \<^verbatim>\<open>np.argmin\<close>: the first index of a zero, of a least value.\<close>

fun first_zero :: "real list \<Rightarrow> nat option" where
  "first_zero [] = None"
| "first_zero (x # xs) = (if x = 0 then Some 0 else map_option Suc (first_zero xs))"

fun argmin :: "real list \<Rightarrow> nat option" where
  "argmin [] = None"
| "argmin (x # xs) =
     (case argmin xs of None \<Rightarrow> Some 0 | Some j \<Rightarrow> if xs ! j < x then Some (Suc j) else Some 0)"

definition store_trace :: "nat \<Rightarrow> string \<Rightarrow> tracer \<Rightarrow> (tracer, unit) outcome" where
  "store_trace idx seq_id t =
     (case map_of (tr_trace t) seq_id of
        None \<Rightarrow> (Inl KeyError, t)
      | Some e \<Rightarrow>
          (Inr (), t\<lparr>tr_collection := (tr_collection t)[idx := te_matrix e],
                     tr_access := (tr_access t)[idx := 1]\<rparr>))"

definition finish_entry :: "string \<Rightarrow> tracer \<Rightarrow> (tracer, unit) outcome" where
  "finish_entry seq_id t =
     (case first_zero (map (\<lambda>M. sum_list (map sum_list M)) (tr_collection t)) of
        Some idx \<Rightarrow> store_trace idx seq_id t
      | None \<Rightarrow>
          (case tr_persistent t of
             None \<Rightarrow> (Inl AttributeError, t)
           | Some p \<Rightarrow>
               (case argmin (replicate (min p (length (tr_access t))) 1000000000 @ drop p (tr_access t)) of
                  None \<Rightarrow> (Inl ValueError, t)
                | Some idx \<Rightarrow> store_trace idx seq_id t)))"

definition counter_add :: "'k \<Rightarrow> ('k, nat) odict \<Rightarrow> ('k, nat) odict" where
  "counter_add k d = AList.update k (case map_of d k of None \<Rightarrow> 1 | Some c \<Rightarrow> Suc c) d"

definition counter :: "'k list \<Rightarrow> ('k, nat) odict" where
  "counter xs = fold counter_add xs []"

definition bump :: "string \<Rightarrow> nat \<Rightarrow> int \<times> nat \<Rightarrow> tracer \<Rightarrow> (tracer, unit) outcome" where
  "bump seq_id layer_idx kc t =
     (case map_of (tr_trace t) seq_id of
        None \<Rightarrow> (Inl KeyError, t)
      | Some e \<Rightarrow>
          (case mat_incr layer_idx (fst kc) (snd kc) (te_matrix e) of
             Inl err \<Rightarrow> (Inl err, t)
           | Inr M \<Rightarrow> (Inr (), t\<lparr>tr_trace := AList.update seq_id (e\<lparr>te_matrix := M\<rparr>) (tr_trace t)\<rparr>)))"

definition update_entry :: "string \<Rightarrow> int list \<Rightarrow> nat \<Rightarrow> tracer \<Rightarrow> (tracer, unit) outcome" where
  "update_entry seq_id expert_list layer_idx t =
     andthen (for_each (bump seq_id layer_idx) (counter expert_list) t) (\<lambda>_ t1.
       if int layer_idx = int (tr_num_layers t1) - 1
       then (case map_of (tr_trace t1) seq_id of
               None \<Rightarrow> (Inl KeyError, t1)
             | Some e \<Rightarrow>
                 (Inr (), t1\<lparr>tr_trace := AList.update seq_id
                    (e\<lparr>te_num_new_tokens := Suc (te_num_new_tokens e)\<rparr>) (tr_trace t1)\<rparr>))
       else (Inr (), t1))"

definition get_entry :: "string \<Rightarrow> tracer \<Rightarrow> trace_entry result" where
  "get_entry seq_id t = (case map_of (tr_trace t) seq_id of None \<Rightarrow> Inl KeyError | Some e \<Rightarrow> Inr e)"

definition get_entry_decoder :: "string \<Rightarrow> tracer \<Rightarrow> trace_entry result" where
  "get_entry_decoder seq_id t =
     (case get_entry seq_id t of
        Inl e \<Rightarrow> Inl e
      | Inr entry \<Rightarrow>
          (let k = tr_num_encoder_layers t; M = te_matrix entry
           in Inr (entry\<lparr>te_matrix := map (map (\<lambda>_. 0)) (take k M) @ drop k M\<rparr>)))"

text \<open>
  The index of the most similar trace is the parameter \<open>closest\<close>; the array it
  names leaves the device as a copy.
\<close>

type_synonym closest_fun = "real list list list \<Rightarrow> real list list \<Rightarrow> nat \<Rightarrow> nat"

definition find_most_similar ::
  "closest_fun \<Rightarrow> real list list \<Rightarrow> nat \<Rightarrow> tracer \<Rightarrow> (tracer, real list list) outcome" where
  "find_most_similar closest matrix layer_idx t =
     (let min_idx = closest (tr_collection t) matrix layer_idx
      in if min_idx < length (tr_access t) \<and> min_idx < length (tr_collection t)
         then (Inr (tr_collection t ! min_idx),
               t\<lparr>tr_access := (tr_access t)[min_idx := tr_access t ! min_idx + 1]\<rparr>)
         else (Inl IndexError, t))"

section \<open>The predictor\<close>

definition layer_decay :: "nat \<Rightarrow> nat \<Rightarrow> nat \<Rightarrow> real" where
  "layer_decay x l L = - 1 / (real L + 1) * (real x - real l) + 1"

definition decay_matrix :: "nat \<Rightarrow> nat \<Rightarrow> real list list \<Rightarrow> real list list" where
  "decay_matrix layer_idx num_layers M =
     map (\<lambda>l. if l < layer_idx then map (\<lambda>_. 0) (M ! l)
              else if l < num_layers
              then map (\<lambda>x. (x + 1 / 100000000) * layer_decay l layer_idx num_layers) (M ! l)
              else M ! l) [0..<length M]"

definition predict ::
  "closest_fun \<Rightarrow> string \<Rightarrow> int list \<Rightarrow> nat \<Rightarrow> tracer option \<Rightarrow> (tracer option, real list list) outcome" where
  "predict closest seq_id expert_list layer_idx tr =
     (case tr of
        None \<Rightarrow> (Inl RuntimeError, None)
      | Some t \<Rightarrow>
          apsnd Some
            (andthen (update_entry seq_id expert_list layer_idx t) (\<lambda>_ t1.
              case get_entry seq_id t1 of
                Inl e \<Rightarrow> (Inl e, t1)
              | Inr current \<Rightarrow>
                  andthen (find_most_similar closest (te_matrix current) layer_idx t1) (\<lambda>M t2.
                    if tr_num_layers t2 \<le> max layer_idx (length M)
                    then (Inr (decay_matrix layer_idx (tr_num_layers t2) M), t2)
                    else (Inl IndexError, t2)))))"

section \<open>The prefetcher\<close>

datatype engine_call =
    ReplaceCandidates "int list"
  | EnqueuePrefetch int int

record prefetcher =
  pf_num_layers :: nat
  pf_num_experts :: nat
  pf_engine :: "(int \<Rightarrow> int) option"
  pf_tensor_map :: "nat \<times> int \<rightharpoonup> int"
  pf_last_prediction :: "int set"
  pf_calls :: "engine_call list"

definition prefetcher_init :: "nat \<Rightarrow> nat \<Rightarrow> prefetcher" where
  "prefetcher_init num_layers num_experts =
     \<lparr>pf_num_layers = num_layers, pf_num_experts = num_experts, pf_engine = None,
      pf_tensor_map = Map.empty, pf_last_prediction = {}, pf_calls = []\<rparr>"

definition set_archer_engine :: "(int \<Rightarrow> int) \<Rightarrow> prefetcher \<Rightarrow> prefetcher" where
  "set_archer_engine device p = p\<lparr>pf_engine := Some device\<rparr>"

fun tensor_ids_of :: "prefetcher \<Rightarrow> nat \<Rightarrow> int list \<Rightarrow> int list result" where
  "tensor_ids_of p layer [] = Inr []"
| "tensor_ids_of p layer (j # js) =
     (case pf_tensor_map p (layer, j) of
        None \<Rightarrow> Inl KeyError
      | Some t \<Rightarrow> (case tensor_ids_of p layer js of Inl e \<Rightarrow> Inl e | Inr ts \<Rightarrow> Inr (t # ts)))"

definition enqueue_all :: "(int \<Rightarrow> int) \<Rightarrow> int list \<Rightarrow> prefetcher \<Rightarrow> prefetcher" where
  "enqueue_all device ts p = p\<lparr>pf_calls := pf_calls p @ map (\<lambda>t. EnqueuePrefetch t (device t)) ts\<rparr>"

definition prefetch_experts_list :: "nat \<Rightarrow> int list \<Rightarrow> prefetcher \<Rightarrow> (prefetcher, unit) outcome" where
  "prefetch_experts_list layer_id expert_list p =
     (case pf_engine p of
        None \<Rightarrow> (Inr (), p)
      | Some device \<Rightarrow>
          (case tensor_ids_of p layer_id expert_list of
             Inl e \<Rightarrow> (Inl e, p)
           | Inr tensor_ids \<Rightarrow> (Inr (), enqueue_all device tensor_ids p)))"

definition fetch_experts_lock_cache :: "nat \<Rightarrow> int list \<Rightarrow> prefetcher \<Rightarrow> (prefetcher, unit) outcome" where
  "fetch_experts_lock_cache layer_id expert_list p =
     (case pf_engine p of
        None \<Rightarrow> (Inr (), p)
      | Some device \<Rightarrow>
          (case tensor_ids_of p layer_id expert_list of
             Inl e \<Rightarrow> (Inl e, p)
           | Inr tensor_ids \<Rightarrow> (Inr (), p\<lparr>pf_calls := pf_calls p @ [ReplaceCandidates tensor_ids]\<rparr>)))"

fun collect_candidates ::
  "prefetcher \<Rightarrow> real list list \<Rightarrow> (nat \<times> nat) list \<Rightarrow> (int \<times> real) list \<Rightarrow> (int \<times> real) list result" where
  "collect_candidates p M [] acc = Inr acc"
| "collect_candidates p M ((i, j) # ps) acc =
     (case mat_get M i j of
        Inl e \<Rightarrow> Inl e
      | Inr x \<Rightarrow>
          if x > 0
          then (case pf_tensor_map p (i, int j) of
                  None \<Rightarrow> Inl KeyError
                | Some t \<Rightarrow> collect_candidates p M ps (acc @ [(t, x)]))
          else collect_candidates p M ps acc)"

definition expert_grid :: "nat \<Rightarrow> nat \<Rightarrow> nat \<Rightarrow> (nat \<times> nat) list" where
  "expert_grid layer num_layers num_experts = List.product [layer..<num_layers] [0..<num_experts]"

definition prefetch_experts :: "nat \<Rightarrow> real list list \<Rightarrow> prefetcher \<Rightarrow> (prefetcher, unit) outcome" where
  "prefetch_experts layer_id M p =
     (case pf_engine p of
        None \<Rightarrow> (Inr (), p)
      | Some device \<Rightarrow>
          (case collect_candidates p M (expert_grid layer_id (pf_num_layers p) (pf_num_experts p)) [] of
             Inl e \<Rightarrow> (Inl e, p)
           | Inr expert_list \<Rightarrow>
               (let tensor_ids = map fst (sort_key (\<lambda>x. - snd x) expert_list)
                in if \<not> distinct tensor_ids then (Inl AssertionError, p)
                   else (Inr (), enqueue_all device tensor_ids
                          (p\<lparr>pf_calls := pf_calls p @ [ReplaceCandidates tensor_ids]\<rparr>)))))"

text \<open>
  \<open>topk logits n\<close> stands for the indices of the \<open>n\<close> largest mean logits.
\<close>

definition speculative_prefetch ::
  "('l \<Rightarrow> nat \<Rightarrow> int list) \<Rightarrow> nat \<Rightarrow> 'l option \<Rightarrow> prefetcher \<Rightarrow> (prefetcher, unit) outcome" where
  "speculative_prefetch topk layer_idx router_logits p =
     (let next_layer = layer_idx + 1
      in if next_layer \<ge> pf_num_layers p then (Inr (), p)
         else case router_logits of
                None \<Rightarrow> (Inr (), p)
              | Some logits \<Rightarrow>
                  (let topk_indices = topk logits (min 2 (pf_num_experts p))
                   in andthen (prefetch_experts_list next_layer topk_indices p) (\<lambda>_ p1.
                        (Inr (), p1\<lparr>pf_last_prediction := set topk_indices\<rparr>))))"

definition correct_prefetch ::
  "nat \<Rightarrow> int list \<Rightarrow> int set option \<Rightarrow> prefetcher \<Rightarrow> (prefetcher, unit) outcome" where
  "correct_prefetch layer_idx actual_expert_ids predicted_expert_ids p =
     (if layer_idx \<ge> pf_num_layers p then (Inr (), p\<lparr>pf_last_prediction := {}\<rparr>)
      else
        (let predicted = (case predicted_expert_ids of None \<Rightarrow> pf_last_prediction p | Some s \<Rightarrow> s);
             missed = filter (\<lambda>e. e \<notin> predicted) actual_expert_ids
         in andthen (if missed \<noteq> [] then prefetch_experts_list layer_idx missed p else (Inr (), p)) (\<lambda>_ p1.
              (Inr (), p1\<lparr>pf_last_prediction := {}\<rparr>))))"

section \<open>Dispatch of a layer\<close>

datatype dispatcher_call =
    SetExpectedQueue nat
  | EnqueueExpert nat int int
  | NotifyFetchStart
  | WaitExpert

record 'l executor =
  xe_overlap :: bool
  xe_prefetcher :: "prefetcher option"
  xe_pending :: "(nat \<times> int list \<times> 'l option) option"
  xe_calls :: "dispatcher_call list"

definition routed_experts :: "bool list list \<Rightarrow> nat \<Rightarrow> int list" where
  "routed_experts router_mask num_expert =
     map int (filter (\<lambda>e. \<exists>row \<in> set router_mask. row ! e) [0..<num_expert])"

definition trigger_speculative_prefetch ::
  "('l \<Rightarrow> nat \<Rightarrow> int list) \<Rightarrow> nat \<Rightarrow> 'l option \<Rightarrow> 'l executor \<Rightarrow> ('l executor, unit) outcome" where
  "trigger_speculative_prefetch topk layer_id logits x =
     (case xe_prefetcher x of
        None \<Rightarrow> (Inr (), x)
      | Some p \<Rightarrow> apsnd (\<lambda>p1. x\<lparr>xe_prefetcher := Some p1\<rparr>) (speculative_prefetch topk layer_id logits p))"

definition dispatch_local ::
  "('l \<Rightarrow> nat \<Rightarrow> int list) \<Rightarrow> nat \<Rightarrow> nat \<Rightarrow> bool list list \<Rightarrow> nat \<Rightarrow> 'l option \<Rightarrow> 'l executor
   \<Rightarrow> ('l executor, unit) outcome" where
  "dispatch_local topk total_gpus layer_id router_mask num_expert router_logits x =
     (let expert_list = routed_experts router_mask num_expert;
          x1 = x\<lparr>xe_calls := xe_calls x @ [SetExpectedQueue (length expert_list)]\<rparr>
      in if total_gpus = 0 \<and> expert_list \<noteq> [] then (Inl ZeroDivisionError, x1)
         else
           (let x2 = x1\<lparr>xe_calls := xe_calls x1 @
                     map (\<lambda>e. EnqueueExpert layer_id e (e mod int total_gpus)) expert_list @ [NotifyFetchStart]\<rparr>
            in if xe_overlap x2 \<and> xe_prefetcher x2 \<noteq> None \<and> router_logits \<noteq> None
               then andthen (trigger_speculative_prefetch topk layer_id router_logits x2) (\<lambda>_ x3.
                      (Inr (), x3\<lparr>xe_pending := Some (layer_id, expert_list, None)\<rparr>))
               else (Inr (), x2\<lparr>xe_pending := Some (layer_id, expert_list, router_logits)\<rparr>)))"

definition wait_dispatch_local ::
  "('l \<Rightarrow> nat \<Rightarrow> int list) \<Rightarrow> 'l executor \<Rightarrow> ('l executor, unit) outcome" where
  "wait_dispatch_local topk x =
     (let x1 = x\<lparr>xe_calls := xe_calls x @ [WaitExpert]\<rparr>
      in case xe_pending x1 of
           None \<Rightarrow> (Inr (), x1)
         | Some (layer_id, expert_list, logits) \<Rightarrow>
             (let x2 = x1\<lparr>xe_pending := None\<rparr>
              in andthen
                   (case xe_prefetcher x2 of
                      None \<Rightarrow> (Inr (), x2)
                    | Some p \<Rightarrow> apsnd (\<lambda>p1. x2\<lparr>xe_prefetcher := Some p1\<rparr>)
                                  (correct_prefetch (layer_id + 1) expert_list None p))
                   (\<lambda>_ x3. case logits of
                             None \<Rightarrow> (Inr (), x3)
                           | Some l \<Rightarrow> trigger_speculative_prefetch topk layer_id (Some l) x3)))"

section \<open>Counting\<close>

lemma map_of_counter:
  "map_of (fold counter_add xs d) k =
     (let n = (case map_of d k of None \<Rightarrow> 0 | Some c \<Rightarrow> c) + count_list xs k
      in if k \<in> set xs \<or> map_of d k \<noteq> None then Some n else None)"
  by (induction xs arbitrary: d) (auto simp: counter_add_def Let_def split: option.splits)

lemma od_ok_counter: "od_ok d \<Longrightarrow> od_ok (fold counter_add xs d)"
  by (induction xs arbitrary: d) (simp_all add: counter_add_def)

lemma od_ok_counter_items: "od_ok (counter xs)"
  by (simp add: counter_def od_ok_counter)

lemma counter_items:
  "(k, c) \<in> set (counter xs) \<longleftrightarrow> k \<in> set xs \<and> c = count_list xs k"
proof -
  have "(k, c) \<in> set (counter xs) \<longleftrightarrow> map_of (counter xs) k = Some c"
    using od_ok_counter_items [of xs] by simp
  also have "\<dots> \<longleftrightarrow> k \<in> set xs \<and> c = count_list xs k"
    unfolding counter_def map_of_counter by (auto simp: Let_def)
  finally show ?thesis .
qed

definition entry_ok :: "tracer \<Rightarrow> string \<Rightarrow> bool" where
  "entry_ok t seq_id \<longleftrightarrow> (\<exists>e. map_of (tr_trace t) seq_id = Some e \<and>
     length (te_matrix e) = tr_num_layers t \<and> (\<forall>row \<in> set (te_matrix e). length row = tr_num_experts t))"

definition matrix_of :: "tracer \<Rightarrow> string \<Rightarrow> real list list" where
  "matrix_of t seq_id = (case map_of (tr_trace t) seq_id of None \<Rightarrow> [] | Some e \<Rightarrow> te_matrix e)"

lemma bump_ok:
  assumes "entry_ok t sid" and "layer < tr_num_layers t" and "0 \<le> k" and "k < int (tr_num_experts t)"
  shows "\<exists>t'. bump sid layer (k, c) t = (Inr (), t') \<and> entry_ok t' sid \<and>
    tracer.truncate t' = tracer.truncate (t\<lparr>tr_trace := tr_trace t'\<rparr>) \<and>
    matrix_of t' sid = (matrix_of t sid)[layer := (matrix_of t sid ! layer)[nat k :=
       matrix_of t sid ! layer ! nat k + real c]]"
proof -
  from assms(1) obtain e where e: "map_of (tr_trace t) sid = Some e"
    and len: "length (te_matrix e) = tr_num_layers t" "\<forall>row \<in> set (te_matrix e). length row = tr_num_experts t"
    by (auto simp: entry_ok_def)
  have row: "length (te_matrix e ! layer) = tr_num_experts t" using len assms(2) by simp
  let ?M = "(te_matrix e)[layer := (te_matrix e ! layer)[nat k := te_matrix e ! layer ! nat k + real c]]"
  have "mat_incr layer k c (te_matrix e) = Inr ?M"
    using assms(2-4) len(1) row by (simp add: mat_incr_def np_pos_def)
  moreover have "\<forall>r \<in> set ?M. length r = tr_num_experts t"
    using len(2) row by (auto dest!: set_update_subset_insert [THEN subsetD])
  ultimately show ?thesis using e len(1)
    by (simp add: bump_def entry_ok_def matrix_of_def tracer.defs)
qed

text \<open>What the items of a counter add up to for one expert.\<close>

definition item_sum :: "(int \<times> nat) list \<Rightarrow> nat \<Rightarrow> real" where
  "item_sum kcs j = sum_list (map (\<lambda>kc. if fst kc = int j then real (snd kc) else 0) kcs)"

lemma item_sum_simps [simp]:
  "item_sum [] j = 0" "item_sum ((k, c) # kcs) j = (if k = int j then real c else 0) + item_sum kcs j"
  by (simp_all add: item_sum_def)

lemma item_sum_lookup:
  "od_ok kcs \<Longrightarrow> item_sum kcs j = (case map_of kcs (int j) of None \<Rightarrow> 0 | Some c \<Rightarrow> real c)"
proof (induction kcs)
  case (Cons kc kcs)
  then have "fst kc = int j \<Longrightarrow> item_sum kcs j = 0"
    by (simp add: map_of_eq_None_iff [THEN iffD2])
  with Cons show ?case by (cases kc) auto
qed simp

lemma item_sum_counter: "item_sum (counter xs) j = real (count_list xs (int j))"
proof -
  have "item_sum (counter xs) j =
      (case map_of (counter xs) (int j) of None \<Rightarrow> 0 | Some c \<Rightarrow> real c)"
    by (rule item_sum_lookup [OF od_ok_counter_items])
  then show ?thesis by (simp add: counter_def map_of_counter count_list_0_iff)
qed

definition counted :: "tracer \<Rightarrow> string \<Rightarrow> nat \<Rightarrow> (nat \<Rightarrow> real) \<Rightarrow> tracer \<Rightarrow> bool" where
  "counted t sid layer f t' \<longleftrightarrow> entry_ok t' sid \<and>
     tr_num_layers t' = tr_num_layers t \<and> tr_num_experts t' = tr_num_experts t \<and>
     tr_collection t' = tr_collection t \<and> tr_access t' = tr_access t \<and>
     (\<forall>i < tr_num_layers t. \<forall>j < tr_num_experts t.
        matrix_of t' sid ! i ! j = matrix_of t sid ! i ! j + (if i = layer then f j else 0))"

lemma entry_ok_shape:
  assumes "entry_ok t sid"
  shows "length (matrix_of t sid) = tr_num_layers t"
    and "i < tr_num_layers t \<Longrightarrow> length (matrix_of t sid ! i) = tr_num_experts t"
  using assms by (auto simp: entry_ok_def matrix_of_def)

lemma bump_counted:
  assumes "entry_ok t0 sid" and "layer < tr_num_layers t0"
    and "counted t0 sid layer f t" and "0 \<le> k" and "k < int (tr_num_experts t0)"
  shows "\<exists>t'. bump sid layer (k, c) t = (Inr (), t') \<and>
    counted t0 sid layer (\<lambda>j. f j + (if k = int j then real c else 0)) t'"
proof -
  from assms have "entry_ok t sid" "layer < tr_num_layers t" "k < int (tr_num_experts t)"
    by (simp_all add: counted_def)
  from bump_ok [OF this(1,2) assms(4) this(3), of c] obtain t' where t': "bump sid layer (k, c) t = (Inr (), t')"
    "entry_ok t' sid" "tracer.truncate t' = tracer.truncate (t\<lparr>tr_trace := tr_trace t'\<rparr>)"
    "matrix_of t' sid = (matrix_of t sid)[layer := (matrix_of t sid ! layer)[nat k :=
       matrix_of t sid ! layer ! nat k + real c]]" by blast
  from t'(3) have "tr_num_layers t' = tr_num_layers t" "tr_num_experts t' = tr_num_experts t"
    "tr_collection t' = tr_collection t" "tr_access t' = tr_access t" by (simp_all add: tracer.defs)
  with t' assms entry_ok_shape [OF \<open>entry_ok t sid\<close>] show ?thesis
    by (auto simp: counted_def nth_list_update)
qed

lemma bump_all_counted:
  assumes "entry_ok t sid" and "layer < tr_num_layers t"
    and "\<forall>kc \<in> set kcs. 0 \<le> fst kc \<and> fst kc < int (tr_num_experts t)"
    and "counted t sid layer f t1"
  shows "\<exists>t'. for_each (bump sid layer) kcs t1 = (Inr (), t') \<and>
    counted t sid layer (\<lambda>j. f j + item_sum kcs j) t'"
  using assms(3,4)
proof (induction kcs arbitrary: f t1)
  case (Cons kc kcs)
  obtain k c where kc: "kc = (k, c)" by fastforce
  with Cons.prems obtain t2 where t2: "bump sid layer (k, c) t1 = (Inr (), t2)"
    "counted t sid layer (\<lambda>j. f j + (if k = int j then real c else 0)) t2"
    using bump_counted [OF assms(1,2) Cons.prems(2), of k c] by auto
  from Cons.IH [OF _ t2(2)] Cons.prems(1) t2(1) kc show ?case by (simp add: add.assoc)
qed simp

lemma update_entry_counts:
  assumes "entry_ok t sid" and "layer < tr_num_layers t"
    and "\<forall>k \<in> set experts. 0 \<le> k \<and> k < int (tr_num_experts t)"
  shows "\<exists>t'. update_entry sid experts layer t = (Inr (), t') \<and>
    counted t sid layer (\<lambda>j. real (count_list experts (int j))) t'"
proof -
  have "counted t sid layer (\<lambda>j. 0) t" using assms(1) by (simp add: counted_def)
  moreover have "\<forall>kc \<in> set (counter experts). 0 \<le> fst kc \<and> fst kc < int (tr_num_experts t)"
    using assms(3) by (auto simp: counter_items)
  ultimately obtain t1 where t1: "for_each (bump sid layer) (counter experts) t = (Inr (), t1)"
    "counted t sid layer (\<lambda>j. real (count_list experts (int j))) t1"
    using bump_all_counted [OF assms(1,2)] by (force simp: item_sum_counter)
  then obtain e where e: "map_of (tr_trace t1) sid = Some e" by (auto simp: counted_def entry_ok_def)
  let ?t2 = "t1\<lparr>tr_trace := AList.update sid (e\<lparr>te_num_new_tokens := Suc (te_num_new_tokens e)\<rparr>) (tr_trace t1)\<rparr>"
  have "counted t sid layer (\<lambda>j. real (count_list experts (int j))) ?t2"
    using t1(2) e by (auto simp: counted_def entry_ok_def matrix_of_def)
  with t1 e show ?thesis by (simp add: update_entry_def)
qed

section \<open>Prediction and prefetching\<close>

text \<open>The shape of an array: \<open>n\<close> rows of \<open>k\<close> numbers, none negative.\<close>

definition trace_shape :: "nat \<Rightarrow> nat \<Rightarrow> real list list \<Rightarrow> bool" where
  "trace_shape n k M \<longleftrightarrow> length M = n \<and> (\<forall>row \<in> set M. length row = k \<and> (\<forall>x \<in> set row. 0 \<le> x))"

lemma layer_decay_pos: "l < L \<Longrightarrow> 0 < layer_decay l layer L"
proof -
  assume "l < L"
  then have "real l - real layer < real L + 1" by simp
  then have "(real l - real layer) / (real L + 1) < 1" by (simp add: divide_less_eq)
  then show ?thesis by (simp add: layer_decay_def)
qed

lemma decay_matrix_pos:
  assumes "trace_shape L k M" and "layer \<le> i" and "i < L" and "j < k"
  shows "mat_get (decay_matrix layer L M) i j =
      Inr ((M ! i ! j + 1 / 100000000) * layer_decay i layer L)"
    and "0 < decay_matrix layer L M ! i ! j"
proof -
  from assms(1,3) have row: "M ! i \<in> set M" "length M = L" by (simp_all add: trace_shape_def)
  with assms(1,4) have "length (M ! i) = k" "0 \<le> M ! i ! j" by (auto simp: trace_shape_def)
  with assms(2-4) row(2) layer_decay_pos [OF assms(3), of layer]
  show "mat_get (decay_matrix layer L M) i j =
      Inr ((M ! i ! j + 1 / 100000000) * layer_decay i layer L)"
    and "0 < decay_matrix layer L M ! i ! j"
    by (simp_all add: mat_get_def decay_matrix_def)
qed

lemma collect_all:
  assumes "\<forall>(i, j) \<in> set ps. (\<exists>x. mat_get M i j = Inr x \<and> 0 < x) \<and> pf_tensor_map p (i, int j) \<noteq> None"
  shows "collect_candidates p M ps acc =
    Inr (acc @ map (\<lambda>(i, j). (the (pf_tensor_map p (i, int j)), projr (mat_get M i j))) ps)"
  using assms by (induction p M ps acc rule: collect_candidates.induct) auto

lemma predict_ok:
  assumes "entry_ok t sid" and "layer < tr_num_layers t"
    and "\<forall>k \<in> set experts. 0 \<le> k \<and> k < int (tr_num_experts t)"
    and "\<And>M. closest (tr_collection t) M layer < min (length (tr_collection t)) (length (tr_access t))"
    and "\<forall>M \<in> set (tr_collection t). trace_shape (tr_num_layers t) (tr_num_experts t) M"
  shows "\<exists>M t'. predict closest sid experts layer (Some t) =
      (Inr (decay_matrix layer (tr_num_layers t) M), Some t') \<and>
      M \<in> set (tr_collection t) \<and> counted t sid layer (\<lambda>j. real (count_list experts (int j)))
        (t'\<lparr>tr_access := tr_access t\<rparr>)"
proof -
  from update_entry_counts [OF assms(1-3)] obtain t1
    where t1: "update_entry sid experts layer t = (Inr (), t1)"
      "counted t sid layer (\<lambda>j. real (count_list experts (int j))) t1" by blast
  then obtain e where e: "map_of (tr_trace t1) sid = Some e" by (auto simp: counted_def entry_ok_def)
  define k where "k = closest (tr_collection t) (te_matrix e) layer"
  define t2 where "t2 = t1\<lparr>tr_access := (tr_access t1)[k := tr_access t1 ! k + 1]\<rparr>"
  have same: "tr_collection t1 = tr_collection t" "tr_access t1 = tr_access t" "tr_num_layers t1 = tr_num_layers t"
    using t1(2) by (simp_all add: counted_def)
  have k: "k < length (tr_collection t)" "k < length (tr_access t)"
    using assms(4) [of "te_matrix e"] by (simp_all add: k_def)
  have "find_most_similar closest (te_matrix e) layer t1 = (Inr (tr_collection t ! k), t2)"
    using k same by (simp add: find_most_similar_def k_def t2_def Let_def)
  moreover have M: "tr_collection t ! k \<in> set (tr_collection t)" using k by simp
  moreover have "length (tr_collection t ! k) = tr_num_layers t" using assms(5) M by (auto simp: trace_shape_def)
  moreover have "counted t sid layer (\<lambda>j. real (count_list experts (int j))) (t2\<lparr>tr_access := tr_access t\<rparr>)"
    using t1(2) by (auto simp: counted_def t2_def entry_ok_def matrix_of_def)
  ultimately show ?thesis using t1(1) e same
    by (intro exI [of _ "tr_collection t ! k"] exI [of _ t2])
      (simp add: predict_def get_entry_def t2_def)
qed

definition prefetch_scope :: "prefetcher \<Rightarrow> nat \<Rightarrow> (nat \<times> nat) set" where
  "prefetch_scope p layer = {layer..<pf_num_layers p} \<times> {0..<pf_num_experts p}"

lemma prefetch_all:
  assumes "pf_engine p = Some device"
    and scope: "\<forall>(i, j) \<in> prefetch_scope p layer. (\<exists>x. mat_get M i j = Inr x \<and> 0 < x) \<and>
          pf_tensor_map p (i, int j) \<noteq> None"
    and inj: "inj_on (\<lambda>(i, j). the (pf_tensor_map p (i, int j))) (prefetch_scope p layer)"
  shows "\<exists>ts. prefetch_experts layer M p = (Inr (), p\<lparr>pf_calls := pf_calls p @ ReplaceCandidates (map fst ts) #
        map (\<lambda>t. EnqueuePrefetch t (device t)) (map fst ts)\<rparr>) \<and>
      distinct (map fst ts) \<and> sorted_wrt (\<lambda>a b. snd a \<ge> snd b) ts \<and>
      set ts = (\<lambda>(i, j). (the (pf_tensor_map p (i, int j)), projr (mat_get M i j))) ` prefetch_scope p layer"
proof -
  let ?grid = "expert_grid layer (pf_num_layers p) (pf_num_experts p)"
  let ?c = "\<lambda>(i, j). (the (pf_tensor_map p (i, int j)), projr (mat_get M i j))"
  define ts where "ts = sort_key (\<lambda>x. - snd x) (map ?c ?grid)"
  have grid: "set ?grid = prefetch_scope p layer" "distinct ?grid"
    by (auto simp: expert_grid_def prefetch_scope_def distinct_product)
  have "collect_candidates p M ?grid [] = Inr (map ?c ?grid)"
    using collect_all [of ?grid M p "[]"] scope by (simp add: grid)
  moreover have "mset (map fst ts) = mset (map (fst \<circ> ?c) ?grid)"
    by (simp add: ts_def multiset.map_comp)
  then have dist: "distinct (map fst ts)"
  proof (rule mset_eq_imp_distinct_iff [THEN iffD2])
    show "distinct (map (fst \<circ> ?c) ?grid)"
      using inj grid by (simp add: distinct_map comp_def case_prod_beta')
  qed
  moreover have "sorted (map (\<lambda>x. - snd x) ts)" by (simp add: ts_def)
  then have "sorted_wrt (\<lambda>a b. snd a \<ge> snd b) ts" by (simp add: sorted_map)
  moreover have "set ts = ?c ` prefetch_scope p layer" by (simp add: ts_def grid)
  ultimately show ?thesis using assms(1)
    by (intro exI [of _ ts]) (simp add: prefetch_experts_def enqueue_all_def ts_def [symmetric])
qed

section \<open>Properties\<close>

text \<open>
  C27: A prediction for a traced sequence adds the activations of the layer to its
  counts and succeeds, and prefetching with it asks the engine for every expert
  of the current and all later layers, each exactly once, the higher score first:
  the small constant added to the counts makes every score positive, so the test
  for a positive score excludes nothing.
\<close>

theorem predicted_prefetch_complete:
  assumes "entry_ok t sid" and "layer < tr_num_layers t"
    and "\<forall>k \<in> set experts. 0 \<le> k \<and> k < int (tr_num_experts t)"
    and "\<And>M. closest (tr_collection t) M layer < min (length (tr_collection t)) (length (tr_access t))"
    and "\<forall>M \<in> set (tr_collection t). trace_shape (tr_num_layers t) (tr_num_experts t) M"
    and "pf_num_layers p = tr_num_layers t" and "pf_num_experts p = tr_num_experts t"
    and "pf_engine p = Some device"
    and "\<forall>(i, j) \<in> prefetch_scope p layer. pf_tensor_map p (i, int j) = Some (tensor i j)"
    and "inj_on (\<lambda>(i, j). tensor i j) (prefetch_scope p layer)"
  shows "\<exists>M t' ts. predict closest sid experts layer (Some t) = (Inr M, Some t') \<and>
    (\<forall>i < tr_num_layers t. \<forall>j < tr_num_experts t. matrix_of t' sid ! i ! j =
       matrix_of t sid ! i ! j + (if i = layer then real (count_list experts (int j)) else 0)) \<and>
    prefetch_experts layer M p = (Inr (), p\<lparr>pf_calls := pf_calls p @
       ReplaceCandidates (map fst ts) # map (\<lambda>t. EnqueuePrefetch t (device t)) (map fst ts)\<rparr>) \<and>
    distinct (map fst ts) \<and> sorted_wrt (\<lambda>a b. snd a \<ge> snd b) ts \<and>
    set ts = {(tensor i j, M ! i ! j) |i j. layer \<le> i \<and> i < tr_num_layers t \<and> j < tr_num_experts t}"
proof -
  let ?L = "tr_num_layers t"
  from predict_ok [where closest = closest, OF assms(1-5)] obtain N t' where
    pred: "predict closest sid experts layer (Some t) = (Inr (decay_matrix layer ?L N), Some t')"
    and N: "N \<in> set (tr_collection t)"
    and cnt: "counted t sid layer (\<lambda>j. real (count_list experts (int j))) (t'\<lparr>tr_access := tr_access t\<rparr>)"
    by blast
  let ?M = "decay_matrix layer ?L N"
  from N assms(5) have shape: "trace_shape ?L (tr_num_experts t) N" by blast
  have get: "mat_get ?M i j = Inr (?M ! i ! j) \<and> 0 < ?M ! i ! j" if "(i, j) \<in> prefetch_scope p layer" for i j
    using that decay_matrix_pos [OF shape, of layer i j] assms(6,7)
    by (auto simp: prefetch_scope_def mat_get_def split: if_splits)
  have scope: "\<forall>(i, j) \<in> prefetch_scope p layer. (\<exists>x. mat_get ?M i j = Inr x \<and> 0 < x) \<and>
      pf_tensor_map p (i, int j) \<noteq> None"
    using get assms(9) by fastforce
  have "inj_on (\<lambda>(i, j). the (pf_tensor_map p (i, int j))) (prefetch_scope p layer)"
    using assms(10)
    by (rule inj_on_cong [THEN iffD2, rotated]) (use assms(9) in auto)
  from prefetch_all [OF assms(8) scope this] obtain ts where
    ts: "prefetch_experts layer ?M p = (Inr (), p\<lparr>pf_calls := pf_calls p @
        ReplaceCandidates (map fst ts) # map (\<lambda>t. EnqueuePrefetch t (device t)) (map fst ts)\<rparr>)"
      "distinct (map fst ts)" "sorted_wrt (\<lambda>a b. snd a \<ge> snd b) ts"
    and set: "set ts = (\<lambda>(i, j). (the (pf_tensor_map p (i, int j)), projr (mat_get ?M i j))) ` prefetch_scope p layer"
    by blast
  have "set ts = (\<lambda>(i, j). (tensor i j, ?M ! i ! j)) ` prefetch_scope p layer"
    unfolding set using get assms(9) by (intro image_cong) auto
  also have "\<dots> = {(tensor i j, ?M ! i ! j) |i j. layer \<le> i \<and> i < ?L \<and> j < tr_num_experts t}"
    using assms(6,7) by (auto simp: prefetch_scope_def) blast
  finally show ?thesis using pred cnt ts
    by (intro exI [of _ ?M] exI [of _ t'] exI [of _ ts]) (simp add: counted_def matrix_of_def)
qed

definition example_tracer :: tracer where
  "example_tracer = snd (create_entry ''s'' (tracer_init 2 2 2 0))"

definition example_prefetcher :: prefetcher where
  "example_prefetcher = (prefetcher_init 2 2)
     \<lparr>pf_engine := Some (\<lambda>t. t mod 2), pf_tensor_map := (\<lambda>(i, j). Some (2 * int i + j))\<rparr>"

theorem predicted_prefetch_complete_witness:
  "\<exists>M t' ts. predict (\<lambda>C M l. 0) ''s'' [1, 1] 0 (Some example_tracer) = (Inr M, Some t') \<and>
     matrix_of t' ''s'' ! 0 ! 1 = 2 \<and>
     set ts = {(2 * int i + int j, M ! i ! j) |i j. 0 \<le> i \<and> i < 2 \<and> j < 2} \<and>
     fst (prefetch_experts 0 M example_prefetcher) = Inr ()"
proof -
  have t: "entry_ok example_tracer ''s''" "tr_num_layers example_tracer = 2" "tr_num_experts example_tracer = 2"
    "length (tr_collection example_tracer) = 2" "length (tr_access example_tracer) = 2"
    "\<forall>M \<in> set (tr_collection example_tracer). trace_shape 2 2 M" "matrix_of example_tracer ''s'' ! 0 ! 1 = 0"
    by (auto simp: example_tracer_def create_entry_def tracer_init_def entry_ok_def matrix_of_def zeros_def
        trace_shape_def)
  have inj: "inj_on (\<lambda>(i, j). 2 * int i + int j) (prefetch_scope example_prefetcher 0)"
    by (auto simp: inj_on_def prefetch_scope_def example_prefetcher_def prefetcher_init_def) presburger+
  have p: "pf_num_layers example_prefetcher = 2" "pf_num_experts example_prefetcher = 2"
    "pf_engine example_prefetcher = Some (\<lambda>t. t mod 2)"
    "\<forall>(i, j) \<in> prefetch_scope example_prefetcher 0.
       pf_tensor_map example_prefetcher (i, int j) = Some (2 * int i + int j)"
    by (simp_all add: example_prefetcher_def prefetcher_init_def)
  from predicted_prefetch_complete [where closest = "\<lambda>C M l. 0" and tensor = "\<lambda>i j. 2 * int i + int j",
      OF t(1) _ _ _ _ _ _ p(3,4) inj, of "[1, 1]"] t p
  obtain M t' ts where r: "predict (\<lambda>C M l. 0) ''s'' [1, 1] 0 (Some example_tracer) = (Inr M, Some t')"
    "\<forall>i < 2. \<forall>j < 2. matrix_of t' ''s'' ! i ! j = matrix_of example_tracer ''s'' ! i ! j +
       (if i = 0 then real (count_list [1, 1] (int j)) else 0)"
    "fst (prefetch_experts 0 M example_prefetcher) = Inr ()"
    "set ts = {(2 * int i + int j, M ! i ! j) |i j. 0 \<le> i \<and> i < 2 \<and> j < 2}"
    by auto
  from r(2) t(7) have "matrix_of t' ''s'' ! 0 ! 1 = 2" by (auto dest!: spec [of _ 0] spec [of _ 1])
  with r(1,3,4) show ?thesis by blast
qed

lemma tensor_ids_total:
  "\<forall>j \<in> set js. pf_tensor_map p (layer, j) = Some (tensor j) \<Longrightarrow> tensor_ids_of p layer js = Inr (map tensor js)"
  by (induction js) auto

lemma prefetch_list_calls:
  assumes "pf_engine p = Some device" and "\<forall>j \<in> set js. pf_tensor_map p (layer, j) = Some (tensor j)"
  shows "prefetch_experts_list layer js p =
    (Inr (), p\<lparr>pf_calls := pf_calls p @ map (\<lambda>j. EnqueuePrefetch (tensor j) (device (tensor j))) js\<rparr>)"
  using assms(1) tensor_ids_total [OF assms(2)]
  by (simp add: prefetch_experts_list_def enqueue_all_def comp_def)

text \<open>
  With overlapped speculation, dispatching layer \<open>l\<close> and waiting for it
  requests for layer \<open>l + 1\<close> first the predicted experts and then those experts of
  layer \<open>l\<close> that were not predicted for layer \<open>l + 1\<close>, and it forgets the prediction:
  the prediction for a layer is compared with the experts of the layer before, and
  never with the experts of the layer it was made for.
\<close>

theorem speculation_corrected_with_wrong_layer:
  assumes "xe_overlap x" and "xe_prefetcher x = Some p" and "pf_engine p = Some device"
    and "layer + 1 < pf_num_layers p" and "0 < gpus"
    and "\<forall>e \<in> set (topk logits (min 2 (pf_num_experts p))) \<union> set (routed_experts router_mask n).
           pf_tensor_map p (layer + 1, e) = Some (tensor e)"
  shows "\<exists>x1 x2 p2. dispatch_local topk gpus layer router_mask n (Some logits) x = (Inr (), x1) \<and>
    wait_dispatch_local topk x1 = (Inr (), x2) \<and> xe_prefetcher x2 = Some p2 \<and> xe_pending x2 = None \<and>
    pf_last_prediction p2 = {} \<and>
    pf_calls p2 = pf_calls p @ map (\<lambda>e. EnqueuePrefetch (tensor e) (device (tensor e)))
      (topk logits (min 2 (pf_num_experts p)) @
       filter (\<lambda>e. e \<notin> set (topk logits (min 2 (pf_num_experts p)))) (routed_experts router_mask n))"
proof -
  let ?top = "topk logits (min 2 (pf_num_experts p))"
  let ?missed = "filter (\<lambda>e. e \<notin> set ?top) (routed_experts router_mask n)"
  let ?enq = "map (\<lambda>e. EnqueuePrefetch (tensor e) (device (tensor e)))"
  define p1 where "p1 = p\<lparr>pf_calls := pf_calls p @ ?enq ?top, pf_last_prediction := set ?top\<rparr>"
  have spec: "speculative_prefetch topk layer (Some logits) p = (Inr (), p1)"
    using assms(3,4,6) prefetch_list_calls [of p device ?top "Suc layer" tensor]
    by (simp add: speculative_prefetch_def Let_def p1_def)
  have corr: "correct_prefetch (layer + 1) (routed_experts router_mask n) None p1 =
      (Inr (), p1\<lparr>pf_calls := pf_calls p1 @ ?enq ?missed, pf_last_prediction := {}\<rparr>)"
    using assms(3,4,6) prefetch_list_calls [of p1 device ?missed "Suc layer" tensor]
    by (auto simp: correct_prefetch_def Let_def p1_def)
  define x1 where "x1 = x\<lparr>xe_calls := xe_calls x @ [SetExpectedQueue (length (routed_experts router_mask n))] @
      map (\<lambda>e. EnqueueExpert layer e (e mod int gpus)) (routed_experts router_mask n) @ [NotifyFetchStart],
      xe_prefetcher := Some p1, xe_pending := Some (layer, routed_experts router_mask n, None)\<rparr>"
  have "dispatch_local topk gpus layer router_mask n (Some logits) x = (Inr (), x1)"
    using assms(1,2,5) spec
    by (simp add: dispatch_local_def trigger_speculative_prefetch_def Let_def x1_def)
  moreover have "wait_dispatch_local topk x1 = (Inr (), x1\<lparr>xe_calls := xe_calls x1 @ [WaitExpert], xe_pending := None,
      xe_prefetcher := Some (p1\<lparr>pf_calls := pf_calls p1 @ ?enq ?missed, pf_last_prediction := {}\<rparr>)\<rparr>)"
    using corr by (simp add: wait_dispatch_local_def x1_def)
  ultimately show ?thesis by (simp add: p1_def)
qed

definition example_executor :: "unit executor" where
  "example_executor = \<lparr>xe_overlap = True, xe_prefetcher = Some example_prefetcher, xe_pending = None, xe_calls = []\<rparr>"

theorem speculation_corrected_with_wrong_layer_witness:
  "\<exists>x1 x2 p2. dispatch_local (\<lambda>l k. [0]) 1 0 [[False, True]] 2 (Some ()) example_executor = (Inr (), x1) \<and>
     wait_dispatch_local (\<lambda>l k. [0]) x1 = (Inr (), x2) \<and> xe_prefetcher x2 = Some p2 \<and>
     pf_last_prediction p2 = {} \<and> pf_calls p2 = [EnqueuePrefetch 2 0, EnqueuePrefetch 3 1]"
proof -
  have x: "xe_overlap example_executor" "xe_prefetcher example_executor = Some example_prefetcher"
    "pf_engine example_prefetcher = Some (\<lambda>t. t mod 2)" "0 + 1 < pf_num_layers example_prefetcher"
    "pf_num_experts example_prefetcher = 2" "pf_calls example_prefetcher = []"
    by (simp_all add: example_executor_def example_prefetcher_def prefetcher_init_def)
  have routed: "routed_experts [[False, True]] 2 = [1]" by code_simp
  have "\<forall>e \<in> set [0] \<union> set (routed_experts [[False, True]] 2).
      pf_tensor_map example_prefetcher (0 + 1, e) = Some (2 + e)"
    by (simp add: example_prefetcher_def)
  from speculation_corrected_with_wrong_layer [where topk = "\<lambda>l k. [0]", OF x(1-4) _ this, of 1 "()"]
  show ?thesis by (auto simp: routed x)
qed

end
