(* ===== verification/Expert_Batch.thy ===== *)
theory Expert_Batch
  imports Expert_Prefetch "HOL-Library.Product_Lexorder"
begin

text \<open>
  \<^verbatim>\<open>src/moe_infinity/serving/expert_prefetch_coordinator.py\<close>, which merges the
  expert activations of the running sequences into one list of experts to load,
  and \<^verbatim>\<open>src/moe_infinity/serving/expert_batch.py\<close>, which routes the tokens of a packed
  batch to experts and splits the result into sequences. A set of experts is a
  list without repetitions; a tensor of rank two is a list of rows, so the checks
  of the rank have no counterpart. Softmax, top-k selection and the experts are
  parameters.
\<close>

section \<open>The coordinator\<close>

record coordinator =
  ec_num_layers :: int
  ec_num_experts :: int
  ec_activations :: "(int, (int, int list) odict) odict"
  ec_total_requested :: nat
  ec_unique_loads :: nat
  ec_deduplicated :: nat
  ec_num_queries :: nat

definition prefetch_coordinator_init :: "int \<Rightarrow> int \<Rightarrow> coordinator result" where
  "prefetch_coordinator_init num_layers num_experts =
     (if num_layers \<le> 0 then Inl ValueError
      else if num_experts \<le> 0 then Inl ValueError
      else Inr \<lparr>ec_num_layers = num_layers, ec_num_experts = num_experts, ec_activations = [],
               ec_total_requested = 0, ec_unique_loads = 0, ec_deduplicated = 0, ec_num_queries = 0\<rparr>)"

definition valid_layer_id :: "int \<Rightarrow> coordinator \<Rightarrow> bool" where
  "valid_layer_id layer_id c \<longleftrightarrow> 0 \<le> layer_id \<and> layer_id < ec_num_layers c"

definition valid_expert_id :: "int \<Rightarrow> coordinator \<Rightarrow> bool" where
  "valid_expert_id expert_id c \<longleftrightarrow> 0 \<le> expert_id \<and> expert_id < ec_num_experts c"

definition setdefault :: "'k \<Rightarrow> 'v \<Rightarrow> ('k, 'v) odict \<Rightarrow> ('k, 'v) odict" where
  "setdefault k v d = (if od_mem k d then d else AList.update k v d)"

definition od_get :: "'k \<Rightarrow> 'v \<Rightarrow> ('k, 'v) odict \<Rightarrow> 'v" where
  "od_get k v d = (case map_of d k of None \<Rightarrow> v | Some x \<Rightarrow> x)"

definition add_activation :: "int \<Rightarrow> int \<Rightarrow> int \<Rightarrow> coordinator \<Rightarrow> (coordinator, unit) outcome" where
  "add_activation seq_id layer_id expert_id c =
     (if \<not> valid_expert_id expert_id c then (Inl ValueError, c)
      else
        (let layers = od_get seq_id [] (ec_activations c);
             experts = od_get layer_id [] layers;
             layers1 = AList.update layer_id
               (if expert_id \<in> set experts then experts else experts @ [expert_id]) layers
         in (Inr (), c\<lparr>ec_activations := AList.update seq_id layers1 (ec_activations c)\<rparr>)))"

definition update_sequence_activations ::
  "int \<Rightarrow> int \<Rightarrow> int list \<Rightarrow> coordinator \<Rightarrow> (coordinator, unit) outcome" where
  "update_sequence_activations seq_id layer_id activated_expert_ids c =
     (if \<not> valid_layer_id layer_id c then (Inl ValueError, c)
      else
        (let acts = setdefault seq_id [] (ec_activations c);
             acts1 = AList.update seq_id (setdefault layer_id [] (od_get seq_id [] acts)) acts
         in for_each (add_activation seq_id layer_id) activated_expert_ids (c\<lparr>ec_activations := acts1\<rparr>)))"

definition clear_sequence :: "int \<Rightarrow> coordinator \<Rightarrow> coordinator" where
  "clear_sequence seq_id c = c\<lparr>ec_activations := AList.delete seq_id (ec_activations c)\<rparr>"

fun count_support ::
  "int \<Rightarrow> (int, int list) odict list \<Rightarrow> nat \<Rightarrow> (int \<times> int, nat) odict \<Rightarrow> nat \<times> (int \<times> int, nat) odict" where
  "count_support layer [] requested support = (requested, support)"
| "count_support layer (sequence_layers # rest) requested support =
     (case map_of sequence_layers layer of
        None \<Rightarrow> count_support layer rest requested support
      | Some activated \<Rightarrow>
          count_support layer rest (requested + length activated)
            (fold (\<lambda>e. counter_add (layer, e)) activated support))"

definition get_priority_experts ::
  "int \<Rightarrow> int \<Rightarrow> coordinator \<Rightarrow> (coordinator, (int \<times> int) list) outcome" where
  "get_priority_experts next_layer_id max_experts c =
     (if \<not> valid_layer_id next_layer_id c then (Inl ValueError, c)
      else if max_experts \<le> 0 then (Inl ValueError, c)
      else
        (let (total_requested, support_count) =
               count_support next_layer_id (map snd (ec_activations c)) 0 [];
             prioritized = sort_key (\<lambda>item. (- int (snd item), fst (fst item), snd (fst item))) support_count;
             deduped = map fst (take (nat max_experts) prioritized);
             unique_loads = length support_count
         in (Inr deduped,
             c\<lparr>ec_total_requested := ec_total_requested c + total_requested,
               ec_unique_loads := ec_unique_loads c + unique_loads,
               ec_deduplicated := ec_deduplicated c + (total_requested - unique_loads),
               ec_num_queries := Suc (ec_num_queries c)\<rparr>)))"

definition dedup_ratio :: "coordinator \<Rightarrow> real" where
  "dedup_ratio c =
     (if ec_total_requested c > 0 then real (ec_deduplicated c) / real (ec_total_requested c) else 0)"

section \<open>Routing and dispatch\<close>

fun nondecreasing :: "int list \<Rightarrow> bool" where
  "nondecreasing (x # y # zs) \<longleftrightarrow> \<not> y < x \<and> nondecreasing (y # zs)"
| "nondecreasing _ \<longleftrightarrow> True"

definition validate_token_offsets :: "int list \<Rightarrow> int \<Rightarrow> unit result" where
  "validate_token_offsets token_offsets total_tokens =
     (if token_offsets = [] then Inl ValueError
      else if hd token_offsets \<noteq> 0 then Inl ValueError
      else if last token_offsets \<noteq> total_tokens then Inl ValueError
      else if \<not> nondecreasing token_offsets then Inl ValueError
      else Inr ())"

definition validate_split_inputs :: "int list \<Rightarrow> int list \<Rightarrow> int \<Rightarrow> unit result" where
  "validate_split_inputs token_offsets seq_lengths total_tokens =
     (case validate_token_offsets token_offsets total_tokens of
        Inl e \<Rightarrow> Inl e
      | Inr _ \<Rightarrow> if length token_offsets \<noteq> length seq_lengths + 1 then Inl ValueError else Inr ())"

fun split_loop :: "'r list \<Rightarrow> int list \<Rightarrow> nat \<Rightarrow> int list \<Rightarrow> 'r list list \<Rightarrow> 'r list list result" where
  "split_loop output token_offsets seq_idx [] parts = Inr parts"
| "split_loop output token_offsets seq_idx (seq_len # rest) parts =
     (let start = token_offsets ! seq_idx; stop = token_offsets ! (seq_idx + 1)
      in if stop - start \<noteq> seq_len then Inl ValueError
         else split_loop output token_offsets (Suc seq_idx) rest
                (parts @ [take (nat stop - nat start) (drop (nat start) output)]))"

definition split_output :: "'r list \<Rightarrow> int list \<Rightarrow> int list \<Rightarrow> 'r list list result" where
  "split_output output token_offsets seq_lengths =
     (case validate_split_inputs token_offsets seq_lengths (int (length output)) of
        Inl e \<Rightarrow> Inl e
      | Inr _ \<Rightarrow> split_loop output token_offsets 0 seq_lengths [])"

text \<open>\<open>rl_cast\<close> is the conversion of a weight from 32 bits to the output type; sums and quotients are exact.\<close>

record routing_lib =
  rl_softmax :: "real list \<Rightarrow> real list"
  rl_topk :: "real list \<Rightarrow> nat \<Rightarrow> nat list"
  rl_cast :: "real \<Rightarrow> real"

definition route_row :: "routing_lib \<Rightarrow> nat \<Rightarrow> real list \<Rightarrow> bool list \<times> real list" where
  "route_row lib top_k row =
     (let routing_weights = rl_softmax lib row;
          selected = rl_topk lib routing_weights top_k;
          topk_weights = map (\<lambda>e. routing_weights ! e) selected;
          normalised = map (\<lambda>w. rl_cast lib (w / sum_list topk_weights)) topk_weights
      in (map (\<lambda>e. e \<in> set selected) [0..<length row],
          map (\<lambda>e. sum_list (map (\<lambda>(s, w). if s = e then w else 0) (zip selected normalised)))
            [0..<length row]))"

definition build_routing :: "routing_lib \<Rightarrow> real list list \<Rightarrow> nat \<Rightarrow> bool list list \<times> real list list" where
  "build_routing lib router_logits top_k =
     (map (fst \<circ> route_row lib top_k) router_logits, map (snd \<circ> route_row lib top_k) router_logits)"

definition same_shape :: "'a list list \<Rightarrow> 'b list list \<Rightarrow> bool" where
  "same_shape X Y \<longleftrightarrow> map length X = map length Y"

definition dispatch_batch ::
  "routing_lib \<Rightarrow> (int \<Rightarrow> real list list \<Rightarrow> bool list list \<Rightarrow> real list list \<Rightarrow> real list list) \<Rightarrow> int
   \<Rightarrow> real list list \<Rightarrow> nat \<Rightarrow> real list list \<Rightarrow> int \<Rightarrow> int list \<Rightarrow> real list list result" where
  "dispatch_batch lib experts layer_id hidden_states num_experts router_logits top_k token_offsets =
     (let total_tokens = length hidden_states
      in if length router_logits \<noteq> total_tokens then Inl ValueError
         else case validate_token_offsets token_offsets (int total_tokens) of
                Inl e \<Rightarrow> Inl e
              | Inr _ \<Rightarrow>
                  if \<not> (1 \<le> top_k \<and> top_k \<le> int num_experts) then Inl ValueError
                  else
                    (let (router_mask, router_weights) = build_routing lib router_logits (nat top_k);
                         output = experts layer_id hidden_states router_mask router_weights
                     in if \<not> same_shape output hidden_states then Inl ValueError else Inr output))"

section \<open>Support of experts\<close>

text \<open>In how many sequences an expert of a layer is active.\<close>

definition layer_experts :: "int \<Rightarrow> (int, int list) odict \<Rightarrow> int list" where
  "layer_experts layer v = od_get layer [] v"

definition support :: "coordinator \<Rightarrow> int \<Rightarrow> int \<Rightarrow> nat" where
  "support c layer e = length (filter (\<lambda>v. e \<in> set (layer_experts layer v)) (map snd (ec_activations c)))"

definition coordinator_ok :: "coordinator \<Rightarrow> bool" where
  "coordinator_ok c \<longleftrightarrow> ec_total_requested c = ec_unique_loads c + ec_deduplicated c \<and>
     (\<forall>v \<in> set (map snd (ec_activations c)). \<forall>layer.
        distinct (layer_experts layer v) \<and> (\<forall>e \<in> set (layer_experts layer v). valid_expert_id e c))"

lemma fold_counter_map:
  "fold (\<lambda>e. counter_add (layer, e)) es d = fold counter_add (map (Pair layer) es) d"
  by (induction es arbitrary: d) simp_all

lemma count_support_eq:
  "count_support layer vs n d =
     (n + length (concat (map (layer_experts layer) vs)),
      fold counter_add (map (Pair layer) (concat (map (layer_experts layer) vs))) d)"
  by (induction vs arbitrary: n d)
    (auto simp: layer_experts_def od_get_def fold_counter_map fold_append split: option.splits)

lemma length_counter_le: "length (fold counter_add xs d) \<le> length d + length xs"
proof (induction xs arbitrary: d)
  case (Cons x xs)
  have "length (counter_add x d) \<le> Suc (length d)" by (simp add: counter_add_def length_update)
  with Cons [of "counter_add x d"] show ?case by simp
qed simp

lemma count_list_distinct: "distinct xs \<Longrightarrow> count_list xs x = (if x \<in> set xs then 1 else 0)"
  by (induction xs) (auto simp: count_list_0_iff)

lemma support_count:
  assumes "\<forall>v \<in> set vs. distinct (layer_experts layer v)"
  shows "count_list (map (Pair layer) (concat (map (layer_experts layer) vs))) (layer, e) =
    length (filter (\<lambda>v. e \<in> set (layer_experts layer v)) vs)"
proof -
  have "count_list (map (Pair layer) xs) (layer, e) = count_list xs e" for xs
    by (induction xs) auto
  then show ?thesis using assms
    by (induction vs) (auto simp: count_list_distinct)
qed

text \<open>The reference: all experts of the layer, the most supported first, ties by number.\<close>

definition priority_reference :: "int \<Rightarrow> coordinator \<Rightarrow> (int \<times> int) list" where
  "priority_reference layer c =
     map (Pair layer) (sort_key (\<lambda>e. (- int (support c layer e), e))
       (filter (\<lambda>e. 0 < support c layer e) [0..ec_num_experts c - 1]))"

lemma support_items:
  assumes "coordinator_ok c"
  shows "((l, e), n) \<in> set (snd (count_support layer (map snd (ec_activations c)) 0 [])) \<longleftrightarrow>
    l = layer \<and> n = support c layer e \<and> 0 < n"
proof -
  let ?vs = "map snd (ec_activations c)"
  let ?xs = "map (Pair layer) (concat (map (layer_experts layer) ?vs))"
  have "\<forall>v \<in> set ?vs. distinct (layer_experts layer v)"
    using assms unfolding coordinator_ok_def by blast
  from support_count [OF this, of e] have n: "count_list ?xs (layer, e) = support c layer e"
    by (simp add: support_def)
  have "snd (count_support layer ?vs 0 []) = counter ?xs" by (simp add: count_support_eq counter_def)
  moreover have "((l, e), n) \<in> set (counter ?xs) \<longleftrightarrow> (l, e) \<in> set ?xs \<and> n = count_list ?xs (l, e)"
    by (rule counter_items)
  moreover have "(l, e) \<in> set ?xs \<longleftrightarrow> l = layer \<and> 0 < count_list ?xs (layer, e)"
    using count_list_0_iff [of ?xs "(layer, e)"] by auto
  ultimately show ?thesis using n by metis
qed

lemma support_valid:
  assumes "coordinator_ok c" and "0 < support c layer e"
  shows "0 \<le> e \<and> e < ec_num_experts c"
proof -
  from assms(2) obtain v where v: "v \<in> set (map snd (ec_activations c))" and e: "e \<in> set (layer_experts layer v)"
    by (auto simp: support_def filter_empty_conv)
  from assms(1) v have "\<forall>e \<in> set (layer_experts layer v). valid_expert_id e c"
    unfolding coordinator_ok_def by blast
  with e show ?thesis by (simp add: valid_expert_id_def)
qed

lemma prioritized_eq:
  assumes "coordinator_ok c"
  shows "map fst (sort_key (\<lambda>item. (- int (snd item), fst (fst item), snd (fst item)))
      (snd (count_support layer (map snd (ec_activations c)) 0 []))) = priority_reference layer c"
proof -
  let ?S = "snd (count_support layer (map snd (ec_activations c)) 0 [])"
  let ?key = "\<lambda>item :: (int \<times> int) \<times> nat. (- int (snd item), fst (fst item), snd (fst item))"
  define es where "es = sort_key (\<lambda>e. (- int (support c layer e), e))
    (filter (\<lambda>e. 0 < support c layer e) [0..ec_num_experts c - 1])"
  let ?T = "map (\<lambda>e. ((layer, e), support c layer e)) es"
  have "distinct ?S"
    using od_ok_counter_items by (auto simp: count_support_eq counter_def distinct_map)
  moreover have "distinct ?T" by (simp add: es_def distinct_map inj_on_def)
  moreover have "set ?T = set ?S"
  proof (rule set_eqI)
    fix x :: "(int \<times> int) \<times> nat"
    obtain l e n where x: "x = ((l, e), n)" by (metis surj_pair)
    have "x \<in> set ?T \<longleftrightarrow> l = layer \<and> n = support c layer e \<and> 0 < n \<and> 0 \<le> e \<and> e < ec_num_experts c"
      unfolding x by (auto simp: es_def)
    then show "x \<in> set ?T \<longleftrightarrow> x \<in> set ?S"
      unfolding x using support_items [OF assms, of l e n layer] support_valid [OF assms, of layer e] by auto
  qed
  ultimately have "mset ?S = mset ?T" by (simp only: set_eq_iff_mset_eq_distinct)
  moreover have "inj_on ?key (set ?S)" by (auto simp: inj_on_def)
  moreover have "sorted (map ?key ?T)"
  proof -
    have "sorted (map (\<lambda>e. (- int (support c layer e), e)) es)" by (simp add: es_def)
    then show ?thesis
      by (auto simp: sorted_map comp_def less_eq_prod_def elim: sorted_wrt_mono_rel [rotated])
  qed
  ultimately have "sort_key ?key ?S = ?T" by (rule sort_key_inj_key_eq)
  then show ?thesis by (simp add: priority_reference_def es_def comp_def)
qed

section \<open>The invariant\<close>

definition layers_ok :: "int \<Rightarrow> (int, int list) odict \<Rightarrow> bool" where
  "layers_ok n v \<longleftrightarrow> (\<forall>layer. distinct (layer_experts layer v) \<and>
     (\<forall>e \<in> set (layer_experts layer v). 0 \<le> e \<and> e < n))"

lemma coordinator_ok_iff:
  "coordinator_ok c \<longleftrightarrow> ec_total_requested c = ec_unique_loads c + ec_deduplicated c \<and>
     (\<forall>v \<in> snd ` set (ec_activations c). layers_ok (ec_num_experts c) v)"
  by (simp add: coordinator_ok_def layers_ok_def valid_expert_id_def)

lemma values_update: "snd ` set (AList.update k v d) \<subseteq> insert v (snd ` set d)"
  by (induction d) auto

lemma layers_ok_Nil [simp]: "layers_ok n []"
  by (simp add: layers_ok_def layer_experts_def od_get_def)

lemma layers_ok_setdefault: "layers_ok n v \<Longrightarrow> layers_ok n (setdefault layer [] v)"
  by (auto simp: layers_ok_def layer_experts_def od_get_def setdefault_def split: if_splits option.splits)

lemma layers_ok_add:
  "layers_ok n v \<Longrightarrow> 0 \<le> e \<Longrightarrow> e < n \<Longrightarrow>
   layers_ok n (AList.update layer (if e \<in> set (od_get layer [] v) then od_get layer [] v
     else od_get layer [] v @ [e]) v)"
  by (auto simp: layers_ok_def layer_experts_def od_get_def split: option.splits)

lemma layers_ok_get:
  "\<forall>v \<in> snd ` set d. layers_ok n v \<Longrightarrow> layers_ok n (od_get k [] d)"
  by (cases "map_of d k") (force simp: od_get_def dest: map_of_SomeD)+

lemma activations_ok_update:
  "\<forall>v \<in> snd ` set d. layers_ok n v \<Longrightarrow> layers_ok n w \<Longrightarrow> \<forall>v \<in> snd ` set (AList.update k w d). layers_ok n v"
  using values_update [of k w d] by blast

lemma setdefault_ok:
  assumes "\<forall>v \<in> snd ` set d. layers_ok n v"
  shows "\<forall>v \<in> snd ` set (setdefault k [] d). layers_ok n v"
proof (cases "od_mem k d")
  case True
  then show ?thesis unfolding setdefault_def using assms by (simp only: if_True)
next
  case False
  then show ?thesis
    unfolding setdefault_def using activations_ok_update [OF assms layers_ok_Nil, of k] by (simp only: if_False)
qed

lemma coordinator_ok_update:
  assumes "coordinator_ok c" and "\<forall>v \<in> snd ` set acts. layers_ok (ec_num_experts c) v"
    and "layers_ok (ec_num_experts c) w"
  shows "coordinator_ok (c\<lparr>ec_activations := AList.update sid w acts\<rparr>)"
  using assms(1) activations_ok_update [OF assms(2,3), of sid] by (simp add: coordinator_ok_iff)

lemma add_activation_ok:
  assumes "coordinator_ok c"
  shows "coordinator_ok (snd (add_activation sid layer e c))"
proof (cases "valid_expert_id e c")
  case True
  have acts: "\<forall>v \<in> snd ` set (ec_activations c). layers_ok (ec_num_experts c) v"
    using assms by (simp add: coordinator_ok_iff)
  from layers_ok_add [OF layers_ok_get [OF acts, of sid], of e layer] True
  have "layers_ok (ec_num_experts c) (AList.update layer
      (let experts = od_get layer [] (od_get sid [] (ec_activations c))
       in if e \<in> set experts then experts else experts @ [e]) (od_get sid [] (ec_activations c)))"
    by (simp add: valid_expert_id_def Let_def)
  from coordinator_ok_update [OF assms acts this, of sid] True show ?thesis
    by (simp add: add_activation_def Let_def)
next
  case False
  with assms show ?thesis by (simp add: add_activation_def)
qed

lemma for_each_ok:
  assumes "\<And>x s. P s \<Longrightarrow> P (snd (f x s))" and "P s"
  shows "P (snd (for_each f xs s))"
  using assms(2)
proof (induction xs arbitrary: s)
  case (Cons x xs)
  from assms(1) [OF Cons.prems, of x] Cons.IH show ?case by (auto split: prod.splits sum.splits)
qed simp

lemma update_activations_ok:
  assumes "coordinator_ok c"
  shows "coordinator_ok (snd (update_sequence_activations sid layer es c))"
proof -
  let ?acts = "setdefault sid [] (ec_activations c)"
  let ?c = "c\<lparr>ec_activations := AList.update sid (setdefault layer [] (od_get sid [] ?acts)) ?acts\<rparr>"
  have "\<forall>v \<in> snd ` set (ec_activations c). layers_ok (ec_num_experts c) v"
    using assms by (simp add: coordinator_ok_iff)
  then have acts: "\<forall>v \<in> snd ` set ?acts. layers_ok (ec_num_experts c) v"
    by (rule setdefault_ok)
  have "coordinator_ok ?c"
    by (rule coordinator_ok_update [OF assms acts layers_ok_setdefault [OF layers_ok_get [OF acts]]])
  then have "coordinator_ok (snd (for_each (add_activation sid layer) es ?c))"
    by (rule for_each_ok [where P = coordinator_ok, rotated]) (rule add_activation_ok)
  with assms show ?thesis by (simp add: update_sequence_activations_def Let_def)
qed

lemma get_priority_experts_eq:
  assumes "coordinator_ok c" and "valid_layer_id layer c" and "0 < k"
  shows "\<exists>c'. get_priority_experts layer k c = (Inr (take (nat k) (priority_reference layer c)), c') \<and>
    coordinator_ok c' \<and> ec_activations c' = ec_activations c \<and>
    ec_unique_loads c' = ec_unique_loads c + length (priority_reference layer c)"
proof -
  let ?r = "count_support layer (map snd (ec_activations c)) 0 []"
  have "length (snd ?r) \<le> fst ?r"
    using length_counter_le [where d = "[]" and
        xs = "map (Pair layer) (concat (map (layer_experts layer) (map snd (ec_activations c))))"]
    by (simp add: count_support_eq)
  moreover have "length (snd ?r) = length (priority_reference layer c)"
    using arg_cong [OF prioritized_eq [OF assms(1), of layer], of length] by simp
  ultimately show ?thesis
    using assms prioritized_eq [OF assms(1), of layer]
    by (cases ?r) (simp add: get_priority_experts_def coordinator_ok_iff Let_def flip: take_map)
qed

inductive ec_reach :: "int \<Rightarrow> int \<Rightarrow> coordinator \<Rightarrow> bool" for num_layers num_experts where
  ec_init: "prefetch_coordinator_init num_layers num_experts = Inr c \<Longrightarrow> ec_reach num_layers num_experts c"
| ec_update: "ec_reach num_layers num_experts c \<Longrightarrow>
    ec_reach num_layers num_experts (snd (update_sequence_activations sid layer es c))"
| ec_query: "ec_reach num_layers num_experts c \<Longrightarrow>
    ec_reach num_layers num_experts (snd (get_priority_experts layer k c))"
| ec_clear: "ec_reach num_layers num_experts c \<Longrightarrow> ec_reach num_layers num_experts (clear_sequence sid c)"

lemma get_priority_experts_ok:
  assumes "coordinator_ok c"
  shows "coordinator_ok (snd (get_priority_experts layer k c))"
proof (cases "valid_layer_id layer c \<and> 0 < k")
  case True
  with get_priority_experts_eq [OF assms, of layer k] show ?thesis by auto
next
  case False
  with assms show ?thesis by (auto simp: get_priority_experts_def)
qed

lemma ec_reach_ok: "ec_reach L E c \<Longrightarrow> coordinator_ok c"
proof (induction rule: ec_reach.induct)
  case (ec_init c)
  then show ?case by (auto simp: prefetch_coordinator_init_def coordinator_ok_iff split: if_splits)
next
  case (ec_clear c sid)
  then show ?case by (auto simp: coordinator_ok_iff clear_sequence_def delete_eq_filter)
qed (simp_all add: update_activations_ok get_priority_experts_ok)

section \<open>Properties\<close>

text \<open>
  C28: However sequences report their activations, are queried and cleared, and
  whatever calls fail, a query with a valid layer and limit returns the first
  \<^verbatim>\<open>max_experts\<close> of the experts active in that layer, ordered by the number of
  sequences that need them and then by number, each once, and the requested loads
  are exactly the unique and the deduplicated ones together.
\<close>

theorem priority_experts_reference:
  assumes "ec_reach L E c" and "valid_layer_id layer c" and "0 < k"
  shows "\<exists>c'. get_priority_experts layer k c = (Inr (take (nat k) (priority_reference layer c)), c') \<and>
    ec_total_requested c' = ec_unique_loads c' + ec_deduplicated c' \<and>
    ec_unique_loads c' = ec_unique_loads c + card {e. 0 < support c layer e}"
proof -
  note ok = ec_reach_ok [OF assms(1)]
  have "{e. 0 < support c layer e} = set (filter (\<lambda>e. 0 < support c layer e) [0..ec_num_experts c - 1])"
    using support_valid [OF ok, of layer] by fastforce
  then have "card {e. 0 < support c layer e} = length (priority_reference layer c)"
    unfolding priority_reference_def by (simp only: length_map length_sort distinct_card distinct_filter distinct_upto)
  with get_priority_experts_eq [OF ok assms(2,3)] show ?thesis by (auto simp: coordinator_ok_iff)
qed

definition example_coordinator :: coordinator where
  "example_coordinator = snd (update_sequence_activations 8 1 [3, 3]
     (snd (update_sequence_activations 7 1 [3, 0] (projr (prefetch_coordinator_init 2 4)))))"

lemma example_coordinator_reach: "ec_reach 2 4 example_coordinator"
proof -
  have "prefetch_coordinator_init 2 4 = Inr (projr (prefetch_coordinator_init 2 4))" by (simp add: prefetch_coordinator_init_def)
  from ec_init [OF this] show ?thesis unfolding example_coordinator_def by (intro ec_update)
qed

theorem priority_experts_reference_witness:
  "\<exists>c'. get_priority_experts 1 1 example_coordinator = (Inr [(1, 3)], c') \<and>
     ec_total_requested c' = ec_unique_loads c' + ec_deduplicated c'"
proof -
  have "valid_layer_id 1 example_coordinator" by code_simp
  from priority_experts_reference [OF example_coordinator_reach this, of 1] obtain c' where
    c': "get_priority_experts 1 1 example_coordinator = (Inr (take 1 (priority_reference 1 example_coordinator)), c')"
    "ec_total_requested c' = ec_unique_loads c' + ec_deduplicated c'" by auto
  moreover have "take 1 (priority_reference 1 example_coordinator) = [(1, 3)]" by code_simp
  ultimately show ?thesis by simp
qed

section \<open>Splitting and routing\<close>

lemma nondecreasing_sorted: "nondecreasing xs \<longleftrightarrow> sorted xs"
  by (induction xs rule: nondecreasing.induct) (auto simp: not_less intro: order_trans)

lemma split_loop_parts:
  assumes offs: "nondecreasing offs" "0 \<le> hd offs" "last offs = int (length output)"
    and "length offs = k + length lens + 1" and "split_loop output offs k lens parts = Inr res"
  shows "concat res = concat parts @ drop (nat (offs ! k)) output \<and>
    map (int \<circ> length) res = map (int \<circ> length) parts @ lens"
  using assms(4,5)
proof (induction lens arbitrary: k parts)
  case Nil
  then have "offs ! k = last offs" by (subst last_conv_nth) auto
  with Nil offs(3) show ?case by simp
next
  case (Cons n lens)
  let ?a = "offs ! k" and ?b = "offs ! (k + 1)"
  let ?part = "take (nat ?b - nat ?a) (drop (nat ?a) output)"
  from Cons.prems have n: "?b - ?a = n"
    and loop: "split_loop output offs (Suc k) lens (parts @ [?part]) = Inr res"
    by (auto simp: Let_def split: if_splits)
  have "0 \<le> offs ! 0" using offs(2) Cons.prems(1) by (cases offs) simp_all
  moreover have "offs ! 0 \<le> ?a" "?a \<le> ?b" using offs(1) Cons.prems(1) by (auto simp: nondecreasing_sorted sorted_iff_nth_mono)
  moreover have "last offs = offs ! (length offs - 1)" using Cons.prems(1) by (intro last_conv_nth) auto
  then have "?b \<le> int (length output)"
    using offs(1,3) Cons.prems(1) by (simp add: nondecreasing_sorted sorted_iff_nth_mono)
  ultimately have le: "0 \<le> ?a" "?a \<le> ?b" "?b \<le> int (length output)" by linarith+
  have "?part @ drop (nat ?b) output = drop (nat ?a) output"
  proof -
    have "drop (nat ?b) output = drop (nat ?b - nat ?a) (drop (nat ?a) output)" using le by simp
    then show ?thesis by (simp only: append_take_drop_id)
  qed
  moreover have "int (length ?part) = n" using le n by simp
  ultimately show ?case using Cons.IH [OF _ loop] Cons.prems(1) by simp
qed

lemma split_loop_total:
  "(\<exists>res. split_loop output offs k lens parts = Inr res) \<longleftrightarrow>
   (\<forall>i < length lens. offs ! (k + i + 1) - offs ! (k + i) = lens ! i)"
proof (induction lens arbitrary: k parts)
  case (Cons n lens)
  show ?case
    by (simp add: Let_def Cons.IH All_less_Suc2 split: if_split)
qed simp

lemma split_unique:
  assumes "concat xs = concat ys" and "map (int \<circ> length) xs = map (int \<circ> length) ys"
  shows "xs = ys"
proof -
  from assms(2) have len: "length xs = length ys" by (rule map_eq_imp_length_eq)
  have "\<forall>(x, y) \<in> set (zip xs ys). length x = length y"
    using assms(2) by (auto simp: in_set_zip list_eq_iff_nth_eq)
  from concat_injective [OF assms(1) len this] show ?thesis .
qed

text \<open>
  Splitting a packed output gives, when it succeeds, one part per sequence
  with the given length, and the parts in order are the output; it succeeds
  exactly when the offsets start at 0, end at the number of tokens, do not
  decrease and differ by the lengths.
\<close>

theorem split_output_partition:
  "split_output output offs lens = Inr parts \<longleftrightarrow>
     offs \<noteq> [] \<and> hd offs = 0 \<and> last offs = int (length output) \<and> sorted offs \<and>
     length offs = length lens + 1 \<and> (\<forall>i < length lens. offs ! (i + 1) - offs ! i = lens ! i) \<and>
     concat parts = output \<and> map (int \<circ> length) parts = lens"
proof -
  let ?valid = "offs \<noteq> [] \<and> hd offs = 0 \<and> last offs = int (length output) \<and> sorted offs \<and>
     length offs = length lens + 1"
  have split: "split_output output offs lens = Inr parts \<longleftrightarrow> ?valid \<and> split_loop output offs 0 lens [] = Inr parts"
    by (auto simp: split_output_def validate_split_inputs_def validate_token_offsets_def nondecreasing_sorted)
  have parts: "concat res = output \<and> map (int \<circ> length) res = lens"
    if ?valid "split_loop output offs 0 lens [] = Inr res" for res
    using that split_loop_parts [of offs "output" 0 lens "[]" res] by (cases offs) (auto simp: nondecreasing_sorted)
  show ?thesis
  proof (cases ?valid)
    case False
    with split show ?thesis by blast
  next
    case True
    note tot = split_loop_total [of "output" offs 0 lens "[]"]
    show ?thesis
    proof
      assume "split_output output offs lens = Inr parts"
      with split parts tot True show "offs \<noteq> [] \<and> hd offs = 0 \<and> last offs = int (length output) \<and> sorted offs \<and>
        length offs = length lens + 1 \<and> (\<forall>i < length lens. offs ! (i + 1) - offs ! i = lens ! i) \<and>
        concat parts = output \<and> map (int \<circ> length) parts = lens" by auto
    next
      assume r: "offs \<noteq> [] \<and> hd offs = 0 \<and> last offs = int (length output) \<and> sorted offs \<and>
        length offs = length lens + 1 \<and> (\<forall>i < length lens. offs ! (i + 1) - offs ! i = lens ! i) \<and>
        concat parts = output \<and> map (int \<circ> length) parts = lens"
      with tot obtain res where res: "split_loop output offs 0 lens [] = Inr res" by auto
      from parts [OF True this] r have "res = parts" by (intro split_unique) simp_all
      with res split True show "split_output output offs lens = Inr parts" by simp
    qed
  qed
qed

theorem split_output_partition_witness:
  "split_output [10 :: int, 20, 30] [0, 1, 3] [1, 2] = Inr [[10], [20, 30]]"
  using split_output_partition [of "[10, 20, 30]" "[0, 1, 3]" "[1, 2]" "[[10], [20, 30]]"]
  by (simp add: All_less_Suc)

text \<open>\<^verbatim>\<open>scatter_add_\<close> of weights at selected places.\<close>

definition scattered :: "nat list \<Rightarrow> real list \<Rightarrow> nat \<Rightarrow> real" where
  "scattered sel ws e = sum_list (map (\<lambda>(s, w). if s = e then w else 0) (zip sel ws))"

lemma scattered_simps [simp]:
  "scattered [] ws e = 0"
  "scattered (s # sel) (w # ws) e = (if s = e then w else 0) + scattered sel ws e"
  by (simp_all add: scattered_def)

lemma scattered_total:
  assumes "length sel = length ws" and "set sel \<subseteq> {..<n}"
  shows "sum_list (map (scattered sel ws) [0..<n]) = sum_list ws"
  using assms
proof (induction sel ws rule: list_induct2)
  case (Cons s sel w ws)
  have "sum_list (map (\<lambda>e. if s = e then w else 0) [0..<n]) = w"
    using Cons.prems by (simp add: interv_sum_list_conv_sum_set_nat)
  with Cons show ?case by (simp add: sum_list_addf)
qed (simp add: interv_sum_list_conv_sum_set_nat)

lemma scattered_at:
  assumes "distinct sel"
  shows "scattered sel (map f sel) e = (if e \<in> set sel then f e else 0)"
  using assms by (induction sel) auto

text \<open>
  C38: For a top-k selection of different existing experts whose probabilities do not
  add up to zero, the routing of a token marks exactly the selected experts; the
  weight of a selected expert is its share of the probabilities of the selected
  ones, converted to the output type, and that of every other expert is zero. If the
  output type holds these shares without loss, the weights add up to one; in a
  smaller type each is only the converted share.
\<close>

theorem routing_weights_normalised:
  assumes "length (rl_softmax lib row) = length row"
    and "sel = rl_topk lib (rl_softmax lib row) k" and "distinct sel" and "set sel \<subseteq> {..<length row}"
    and "denom = (\<Sum>e \<in> set sel. rl_softmax lib row ! e)" and "denom \<noteq> 0"
    and "route_row lib k row = (router_mask, weights)"
  shows "length router_mask = length row \<and> length weights = length row \<and>
    (\<forall>e < length row. (router_mask ! e \<longleftrightarrow> e \<in> set sel) \<and>
       weights ! e = (if e \<in> set sel then rl_cast lib (rl_softmax lib row ! e / denom) else 0)) \<and>
    ((\<forall>e \<in> set sel. rl_cast lib (rl_softmax lib row ! e / denom) = rl_softmax lib row ! e / denom) \<longrightarrow>
       sum_list weights = 1)"
proof -
  let ?p = "rl_softmax lib row"
  let ?f = "\<lambda>e. rl_cast lib (?p ! e / denom)"
  have tot: "sum_list (map ((!) ?p) sel) = denom" using assms(3,5) by (simp add: sum_list_distinct_conv_sum_set)
  have w: "router_mask = map (\<lambda>e. e \<in> set sel) [0..<length row]" "weights = map (scattered sel (map ?f sel)) [0..<length row]"
    using assms(2,7) tot by (simp_all add: route_row_def Let_def scattered_def [abs_def] comp_def)
  have "sum_list weights = 1" if "\<forall>e \<in> set sel. ?f e = ?p ! e / denom"
  proof -
    have "sum_list weights = sum_list (map ?f sel)"
      unfolding w(2) by (rule scattered_total) (use assms(4) in simp_all)
    also have "\<dots> = (\<Sum>e \<in> set sel. ?p ! e / denom)" using assms(3) that by (simp add: sum_list_distinct_conv_sum_set)
    also have "\<dots> = 1" using assms(5,6) by (simp add: sum_divide_distrib [symmetric])
    finally show ?thesis .
  qed
  then show ?thesis using scattered_at [OF assms(3), of ?f] by (simp add: w)
qed

definition example_lib :: routing_lib where
  "example_lib = \<lparr>rl_softmax = map (\<lambda>x. 1 / 3), rl_topk = (\<lambda>ps k. [1..<Suc k]), rl_cast = id\<rparr>"

theorem routing_weights_normalised_witness:
  "sum_list (snd (route_row example_lib 2 [5, 6, 7])) = 1 \<and> snd (route_row example_lib 2 [5, 6, 7]) ! 0 = 0"
proof -
  have "rl_topk example_lib (rl_softmax example_lib [5, 6, 7]) 2 = [1, 2]"
    by (simp add: example_lib_def upt_rec numeral_2_eq_2)
  with routing_weights_normalised [of example_lib "[5, 6, 7]" "[1, 2]" 2 "2 / 3"
      "fst (route_row example_lib 2 [5, 6, 7])" "snd (route_row example_lib 2 [5, 6, 7])"]
  show ?thesis by (auto simp: example_lib_def)
qed

end
