(* ===== verification/Resilience.thy ===== *)
theory Resilience
  imports Prelude Complex_Main
begin

text \<open>
  What guards the server: \<^verbatim>\<open>src/moe_infinity/serving/contextpilot_circuit_breaker.py\<close>,
  \<^verbatim>\<open>health.py\<close>, \<^verbatim>\<open>watchdog.py\<close>, \<^verbatim>\<open>eviction_sync.py\<close> and \<^verbatim>\<open>validation.py\<close>. Every method holds
  its lock throughout and is one step. A reading of \<^verbatim>\<open>time.monotonic()\<close> is an
  argument; floating point numbers are reals.
\<close>

section \<open>The circuit breaker\<close>

datatype breaker_state = Closed | Open | HalfOpen

record breaker =
  cb_error_threshold :: real
  cb_latency_threshold :: real
  cb_window_size :: nat
  cb_cooldown :: real
  cb_state :: breaker_state
  cb_opened_at :: "real option"
  cb_requests :: "bool list"
  cb_latencies :: "real list"

definition breaker_init :: "real \<Rightarrow> real \<Rightarrow> int \<Rightarrow> real \<Rightarrow> breaker" where
  "breaker_init error_rate_threshold latency_threshold_ms window_size cooldown_seconds =
     \<lparr>cb_error_threshold = error_rate_threshold, cb_latency_threshold = latency_threshold_ms,
      cb_window_size = nat (max 1 window_size), cb_cooldown = max 0 cooldown_seconds,
      cb_state = Closed, cb_opened_at = None, cb_requests = [], cb_latencies = []\<rparr>"

text \<open>\<^verbatim>\<open>append\<close> to a \<^verbatim>\<open>deque\<close> of bounded length drops from the front.\<close>

definition deque_append :: "nat \<Rightarrow> 'a \<Rightarrow> 'a list \<Rightarrow> 'a list" where
  "deque_append maxlen x xs = drop (Suc (length xs) - maxlen) (xs @ [x])"

definition open_locked :: "real \<Rightarrow> breaker \<Rightarrow> breaker" where
  "open_locked now b = b\<lparr>cb_state := Open, cb_opened_at := Some now\<rparr>"

definition close_locked :: "breaker \<Rightarrow> breaker" where
  "close_locked b = b\<lparr>cb_state := Closed, cb_opened_at := None, cb_requests := [], cb_latencies := []\<rparr>"

definition refresh_state :: "real \<Rightarrow> breaker \<Rightarrow> breaker" where
  "refresh_state now b =
     (if cb_state b \<noteq> Open then b
      else case cb_opened_at b of
             None \<Rightarrow> b
           | Some t \<Rightarrow> if now - t \<ge> cb_cooldown b then b\<lparr>cb_state := HalfOpen\<rparr> else b)"

definition compute_p99 :: "real list \<Rightarrow> real" where
  "compute_p99 values =
     (if values = [] then 0
      else (let ordered = sort values; index = max 0 (\<lceil>99 / 100 * real (length ordered)\<rceil> - 1)
            in ordered ! nat index))"

definition evaluate_closed :: "real \<Rightarrow> breaker \<Rightarrow> breaker" where
  "evaluate_closed now b =
     (if cb_state b \<noteq> Closed then b
      else if cb_requests b \<noteq> [] \<and>
              real (length (filter Not (cb_requests b))) / real (length (cb_requests b)) > cb_error_threshold b
      then open_locked now b
      else if length (cb_latencies b) = 10 \<and> compute_p99 (cb_latencies b) > cb_latency_threshold b
      then open_locked now b
      else b)"

text \<open>The first time is that of the refresh, the second that of an opening.\<close>

definition record_success :: "real \<Rightarrow> real \<Rightarrow> real \<Rightarrow> breaker \<Rightarrow> breaker" where
  "record_success now now' latency_ms b0 =
     (let b = refresh_state now b0
      in if cb_state b = HalfOpen then close_locked b
         else evaluate_closed now'
                (b\<lparr>cb_requests := deque_append (cb_window_size b) True (cb_requests b),
                   cb_latencies := deque_append 10 latency_ms (cb_latencies b)\<rparr>))"

definition record_failure :: "real \<Rightarrow> real \<Rightarrow> breaker \<Rightarrow> breaker" where
  "record_failure now now' b0 =
     (let b = refresh_state now b0
      in if cb_state b = HalfOpen then open_locked now' b
         else evaluate_closed now'
                (b\<lparr>cb_requests := deque_append (cb_window_size b) False (cb_requests b)\<rparr>))"

definition is_open :: "real \<Rightarrow> breaker \<Rightarrow> bool \<times> breaker" where
  "is_open now b = (let b1 = refresh_state now b in (cb_state b1 = Open, b1))"

definition get_state :: "real \<Rightarrow> breaker \<Rightarrow> breaker_state \<times> breaker" where
  "get_state now b = (let b1 = refresh_state now b in (cb_state b1, b1))"

section \<open>Health and watchdogs\<close>

datatype health_state = STARTING | HEALTHY | UNHEALTHY

record server_health =
  hs_state :: health_state
  hs_reason :: "string option"

definition health_init :: server_health where
  "health_init = \<lparr>hs_state = STARTING, hs_reason = None\<rparr>"

definition set_healthy :: "server_health \<Rightarrow> server_health" where
  "set_healthy h = \<lparr>hs_state = HEALTHY, hs_reason = None\<rparr>"

definition set_unhealthy :: "string \<Rightarrow> server_health \<Rightarrow> server_health" where
  "set_unhealthy reason h = \<lparr>hs_state = UNHEALTHY, hs_reason = Some reason\<rparr>"

definition set_starting :: "server_health \<Rightarrow> server_health" where
  "set_starting h = \<lparr>hs_state = STARTING, hs_reason = None\<rparr>"

definition is_healthy :: "server_health \<Rightarrow> bool" where
  "is_healthy h \<longleftrightarrow> hs_state h = HEALTHY"

definition watchdog_config_ok :: "real option \<Rightarrow> real option \<Rightarrow> unit result" where
  "watchdog_config_ok startup_timeout decode_step_timeout =
     (if (case startup_timeout of None \<Rightarrow> False | Some t \<Rightarrow> t \<le> 0) then Inl ValueError
      else if (case decode_step_timeout of None \<Rightarrow> False | Some t \<Rightarrow> t \<le> 0) then Inl ValueError
      else Inr ())"

text \<open>The decode watchdog: its thread polls while the engine feeds and (de)activates it.\<close>

record decode_watchdog =
  dw_timeout :: "real option"
  dw_active :: bool
  dw_stopped :: bool
  dw_last_feed :: real
  dw_health :: server_health

definition dw_init :: "real \<Rightarrow> real option \<Rightarrow> server_health \<Rightarrow> decode_watchdog" where
  "dw_init now timeout h =
     \<lparr>dw_timeout = timeout, dw_active = False, dw_stopped = False, dw_last_feed = now, dw_health = h\<rparr>"

definition dw_feed :: "real \<Rightarrow> decode_watchdog \<Rightarrow> decode_watchdog" where
  "dw_feed now w = w\<lparr>dw_last_feed := now\<rparr>"

definition dw_activate :: "real \<Rightarrow> decode_watchdog \<Rightarrow> decode_watchdog" where
  "dw_activate now w = w\<lparr>dw_last_feed := now, dw_active := True\<rparr>"

definition dw_deactivate :: "decode_watchdog \<Rightarrow> decode_watchdog" where
  "dw_deactivate w = w\<lparr>dw_active := False\<rparr>"

definition dw_stop :: "decode_watchdog \<Rightarrow> decode_watchdog" where
  "dw_stop w = w\<lparr>dw_stopped := True\<rparr>"

text \<open>One turn of the loop of the thread; the formatted reason is the argument \<open>msg\<close>.\<close>

definition dw_poll :: "real \<Rightarrow> (real \<Rightarrow> string) \<Rightarrow> decode_watchdog \<Rightarrow> decode_watchdog" where
  "dw_poll now msg w =
     (case dw_timeout w of
        None \<Rightarrow> w
      | Some timeout \<Rightarrow>
          if dw_stopped w then w
          else if dw_active w \<and> now - dw_last_feed w > timeout
          then w\<lparr>dw_health := set_unhealthy (msg (now - dw_last_feed w)) (dw_health w)\<rparr>
          else w)"

section \<open>Eviction notifications\<close>

datatype eviction_event = COMPLETED | ABORTED | FREED | SWAPPED_OUT

record eviction_sync =
  es_middleware :: bool
  es_evicted :: "string set"
  es_incoming :: nat
  es_removed :: nat
  es_not_found :: nat
  es_events :: "eviction_event \<Rightarrow> nat"
  es_notified :: "string list"

definition eviction_sync_init :: "bool \<Rightarrow> eviction_sync" where
  "eviction_sync_init has_middleware =
     \<lparr>es_middleware = has_middleware, es_evicted = {}, es_incoming = 0, es_removed = 0,
      es_not_found = 0, es_events = (\<lambda>_. 0), es_notified = []\<rparr>"

definition evict_request :: "string \<Rightarrow> eviction_sync \<Rightarrow> eviction_sync" where
  "evict_request rid s =
     (let s1 = s\<lparr>es_incoming := Suc (es_incoming s)\<rparr>
      in if rid \<in> es_evicted s1 then s1\<lparr>es_not_found := Suc (es_not_found s1)\<rparr>
         else (let s2 = s1\<lparr>es_evicted := insert rid (es_evicted s1)\<rparr>
               in if es_middleware s2
                  then s2\<lparr>es_removed := Suc (es_removed s2), es_notified := es_notified s2 @ [rid]\<rparr>
                  else s2))"

definition handle_event :: "string \<Rightarrow> eviction_event \<Rightarrow> eviction_sync \<Rightarrow> eviction_sync" where
  "handle_event rid event s =
     (let s1 = s\<lparr>es_events := (es_events s)(event := Suc (es_events s event))\<rparr>
      in if event \<noteq> SWAPPED_OUT then evict_request rid s1 else s1)"

section \<open>Validation of requests\<close>

definition validate_context_length :: "int \<Rightarrow> int \<Rightarrow> int \<Rightarrow> unit result" where
  "validate_context_length prompt_tokens max_tokens max_seq_length =
     (if prompt_tokens + max_tokens > max_seq_length then Inl ContextLengthExceededError else Inr ())"

definition validate_required_params :: "int option \<Rightarrow> unit result" where
  "validate_required_params max_tokens = (if max_tokens = None then Inl InvalidRequestError else Inr ())"

definition violates :: "('a \<Rightarrow> bool) \<Rightarrow> 'a option \<Rightarrow> bool" where
  "violates P x \<longleftrightarrow> (case x of None \<Rightarrow> False | Some v \<Rightarrow> \<not> P v)"

definition validate_sampling_params ::
  "real option \<Rightarrow> real option \<Rightarrow> int option \<Rightarrow> int option \<Rightarrow> unit result" where
  "validate_sampling_params temperature top_p top_k max_tokens =
     (if violates (\<lambda>t. 0 \<le> t \<and> t \<le> 2) temperature then Inl InvalidRequestError
      else if violates (\<lambda>p. 0 < p \<and> p \<le> 1) top_p then Inl InvalidRequestError
      else if violates (\<lambda>k. \<not> k \<le> 0) top_k then Inl InvalidRequestError
      else if violates (\<lambda>n. \<not> n \<le> 0) max_tokens then Inl InvalidRequestError
      else Inr ())"

section \<open>The breaker's invariant\<close>

definition tripped :: "breaker \<Rightarrow> bool" where
  "tripped b \<longleftrightarrow>
     cb_requests b \<noteq> [] \<and>
       real (length (filter Not (cb_requests b))) > cb_error_threshold b * real (length (cb_requests b)) \<or>
     length (cb_latencies b) = 10 \<and> (\<exists>x \<in> set (cb_latencies b). x > cb_latency_threshold b)"

lemma p99_ten:
  assumes "length xs = 10"
  shows "compute_p99 xs > y \<longleftrightarrow> (\<exists>x \<in> set xs. x > y)"
proof -
  have "\<lceil>99 / 100 * real (length (sort xs))\<rceil> = 10" using assms by (simp add: ceiling_unique)
  then have p: "compute_p99 xs = sort xs ! 9" using assms by (auto simp: compute_p99_def Let_def)
  have "x \<le> sort xs ! 9" if "x \<in> set xs" for x
  proof -
    from that have "x \<in> set (sort xs)" by simp
    then obtain i where "i < 10" "x = sort xs ! i" using assms by (metis in_set_conv_nth length_sort)
    then show ?thesis using assms by (auto intro!: sorted_nth_mono)
  qed
  moreover have "sort xs ! 9 \<in> set xs" using assms nth_mem [of 9 "sort xs"] by simp
  ultimately show ?thesis unfolding p by (metis less_le_trans)
qed

lemma evaluate_closed_eq:
  "evaluate_closed now b = (if cb_state b = Closed \<and> tripped b then open_locked now b else b)"
  by (cases "cb_requests b = []"; cases "length (cb_latencies b) = 10")
    (auto simp: evaluate_closed_def tripped_def p99_ten less_divide_eq)

definition cb_ok :: "breaker \<Rightarrow> bool" where
  "cb_ok b \<longleftrightarrow> 0 < cb_window_size b \<and> 0 \<le> cb_cooldown b \<and>
     length (cb_requests b) \<le> cb_window_size b \<and> length (cb_latencies b) \<le> 10 \<and>
     (cb_state b = Closed \<longrightarrow> \<not> tripped b) \<and> (cb_state b = Closed \<longleftrightarrow> cb_opened_at b = None)"

lemma deque_append_length [simp]:
  "length xs \<le> n \<Longrightarrow> length (deque_append n x xs) \<le> n"
  by (simp add: deque_append_def)

lemma refresh_ok: "cb_ok b \<Longrightarrow> cb_ok (refresh_state now b)"
  by (auto simp: refresh_state_def cb_ok_def tripped_def split: option.splits)

lemma evaluate_ok:
  assumes "cb_ok b" and "cb_state b \<noteq> HalfOpen" and "length rs \<le> cb_window_size b" and "length ls \<le> 10"
  shows "cb_ok (evaluate_closed now (b\<lparr>cb_requests := rs, cb_latencies := ls\<rparr>))"
  using assms by (auto simp: evaluate_closed_eq cb_ok_def open_locked_def)

lemma record_success_ok:
  assumes "cb_ok b"
  shows "cb_ok (record_success now now' lat b)"
proof -
  note r = refresh_ok [OF assms, of now]
  then have "cb_ok (close_locked (refresh_state now b))" by (auto simp: cb_ok_def close_locked_def tripped_def)
  moreover have "cb_state (refresh_state now b) \<noteq> HalfOpen \<Longrightarrow> cb_ok (record_success now now' lat b)"
    using evaluate_ok [OF r] r by (simp add: record_success_def Let_def cb_ok_def [of "refresh_state now b"])
  ultimately show ?thesis by (auto simp: record_success_def Let_def)
qed

lemma record_failure_ok:
  assumes "cb_ok b"
  shows "cb_ok (record_failure now now' b)"
proof -
  note r = refresh_ok [OF assms, of now]
  then have "cb_ok (open_locked now' (refresh_state now b))" by (auto simp: cb_ok_def open_locked_def)
  moreover have "cb_state (refresh_state now b) \<noteq> HalfOpen \<Longrightarrow> cb_ok (record_failure now now' b)"
    using evaluate_ok [OF r _ _, of "deque_append (cb_window_size (refresh_state now b)) False
        (cb_requests (refresh_state now b))" "cb_latencies (refresh_state now b)" now'] r
    by (simp add: record_failure_def Let_def cb_ok_def [of "refresh_state now b"])
  ultimately show ?thesis by (auto simp: record_failure_def Let_def)
qed

inductive cb_reach :: "breaker \<Rightarrow> bool" where
  cb_init: "cb_reach (breaker_init e l w c)"
| cb_success: "cb_reach b \<Longrightarrow> cb_reach (record_success now now' lat b)"
| cb_failure: "cb_reach b \<Longrightarrow> cb_reach (record_failure now now' b)"
| cb_query: "cb_reach b \<Longrightarrow> cb_reach (snd (get_state now b))"

lemma cb_reach_ok: "cb_reach b \<Longrightarrow> cb_ok b"
proof (induction rule: cb_reach.induct)
  case (cb_init e l w c)
  then show ?case by (simp add: cb_ok_def breaker_init_def tripped_def)
qed (simp_all add: record_success_ok record_failure_ok refresh_ok get_state_def Let_def)

section \<open>Properties\<close>

lemma cooling_frame:
  assumes "cb_state b = Open" and "cb_opened_at b = Some t" and "now < t + cb_cooldown b"
  shows "refresh_state now b = b"
  using assms by (simp add: refresh_state_def)

lemma cooled_half_open:
  assumes "cb_state b = Open" and "cb_opened_at b = Some t" and "t + cb_cooldown b \<le> now"
  shows "refresh_state now b = b\<lparr>cb_state := HalfOpen\<rparr>"
  using assms by (simp add: refresh_state_def)

text \<open>The windows after an outcome was recorded.\<close>

definition noted_success :: "real \<Rightarrow> breaker \<Rightarrow> breaker" where
  "noted_success lat b = b\<lparr>cb_requests := deque_append (cb_window_size b) True (cb_requests b),
     cb_latencies := deque_append 10 lat (cb_latencies b)\<rparr>"

definition noted_failure :: "breaker \<Rightarrow> breaker" where
  "noted_failure b = b\<lparr>cb_requests := deque_append (cb_window_size b) False (cb_requests b)\<rparr>"

lemma noted_simps [simp]:
  "cb_state (noted_success lat b) = cb_state b" "cb_opened_at (noted_success lat b) = cb_opened_at b"
  "cb_state (noted_failure b) = cb_state b" "cb_opened_at (noted_failure b) = cb_opened_at b"
  by (simp_all add: noted_success_def noted_failure_def)

lemma record_eq:
  assumes "refresh_state now b = b1"
  shows "record_success now now' lat b =
      (if cb_state b1 = HalfOpen then close_locked b1
       else if cb_state b1 = Closed \<and> tripped (noted_success lat b1) then open_locked now' (noted_success lat b1)
       else noted_success lat b1)"
    and "record_failure now now' b =
      (if cb_state b1 = HalfOpen then open_locked now' b1
       else if cb_state b1 = Closed \<and> tripped (noted_failure b1) then open_locked now' (noted_failure b1)
       else noted_failure b1)"
  using assms
  by (simp_all add: record_success_def record_failure_def evaluate_closed_eq noted_success_def noted_failure_def Let_def)

lemma few_failures_trip:
  assumes "length (cb_requests b) < cb_window_size b" and "cb_error_threshold b * real (Suc (length (cb_requests b))) < 1"
  shows "tripped (noted_failure b)"
  using assms by (simp add: noted_failure_def deque_append_def tripped_def algebra_simps)

text \<open>
  C36: In every reachable state of the breaker. While it is closed, it is not
  out of bounds: the error rate of its window is within the threshold, and ten
  recorded latencies contain none above theirs. It then opens, on a success as on
  a failure, exactly when the windows with the new outcome are out of bounds,
  and otherwise only records it; in particular a single failure opens it while the
  window holds fewer than \<open>1 / threshold\<close> outcomes. Once open at time \<open>t\<close> it stays
  open, whatever is recorded, until the cool-down has passed; after that, and
  whenever it is half open, the next success closes it with empty windows and the
  next failure opens it anew.
\<close>

theorem circuit_breaker_contract:
  assumes "cb_reach b"
  shows "(cb_state b = Closed \<longrightarrow> \<not> tripped b \<and> \<not> fst (is_open now b) \<and>
      record_success now now' lat b =
        (if tripped (noted_success lat b) then open_locked now' (noted_success lat b) else noted_success lat b) \<and>
      record_failure now now' b =
        (if tripped (noted_failure b) then open_locked now' (noted_failure b) else noted_failure b) \<and>
      (length (cb_requests b) < cb_window_size b \<and>
       cb_error_threshold b * real (Suc (length (cb_requests b))) < 1 \<longrightarrow>
         cb_state (record_failure now now' b) = Open)) \<and>
    (cb_state b = HalfOpen \<longrightarrow> \<not> fst (is_open now b) \<and>
      record_success now now' lat b = close_locked b \<and> record_failure now now' b = open_locked now' b) \<and>
    (cb_state b = Open \<longrightarrow> (\<exists>t. cb_opened_at b = Some t \<and>
      (now < t + cb_cooldown b \<longrightarrow> fst (is_open now b) \<and>
         record_success now now' lat b = noted_success lat b \<and> record_failure now now' b = noted_failure b \<and>
         cb_state (record_success now now' lat b) = Open \<and> cb_opened_at (record_success now now' lat b) = Some t \<and>
         cb_state (record_failure now now' b) = Open \<and> cb_opened_at (record_failure now now' b) = Some t) \<and>
      (t + cb_cooldown b \<le> now \<longrightarrow> fst (get_state now b) = HalfOpen \<and>
         record_success now now' lat b = close_locked b \<and>
         cb_state (record_failure now now' b) = Open \<and>
         cb_opened_at (record_failure now now' b) = Some now')))"
proof (cases "cb_state b")
  case Closed
  then have "refresh_state now b = b" by (simp add: refresh_state_def)
  with Closed cb_reach_ok [OF assms] few_failures_trip [of b] record_eq [OF this] show ?thesis
    by (auto simp: cb_ok_def is_open_def open_locked_def)
next
  case HalfOpen
  then have "refresh_state now b = b" by (simp add: refresh_state_def)
  with HalfOpen record_eq [OF this] show ?thesis by (simp add: is_open_def)
next
  case Open
  with cb_reach_ok [OF assms] obtain t where t: "cb_opened_at b = Some t" by (auto simp: cb_ok_def)
  show ?thesis
  proof (cases "now < t + cb_cooldown b")
    case True
    with Open t record_eq [OF cooling_frame [OF Open t True]] cooling_frame [OF Open t True] show ?thesis
      by (simp add: is_open_def)
  next
    case False
    then have "refresh_state now b = b\<lparr>cb_state := HalfOpen\<rparr>" using cooled_half_open [OF Open t] by simp
    with Open t False record_eq [OF this] show ?thesis
      by (simp add: get_state_def close_locked_def open_locked_def)
  qed
qed

theorem circuit_breaker_contract_witness:
  "cb_state (record_failure 0 0 (breaker_init (1 / 100) 500 100 60)) = Open"
proof -
  let ?b = "breaker_init (1 / 100) 500 100 60"
  have "cb_state ?b = Closed" "length (cb_requests ?b) < cb_window_size ?b"
    "cb_error_threshold ?b * real (Suc (length (cb_requests ?b))) < 1" by (simp_all add: breaker_init_def)
  with circuit_breaker_contract [OF cb_init [of "1 / 100" 500 100 60], of 0 0 0] show ?thesis by blast
qed

text \<open>A watchdog that is fed in time leaves the health alone, and a late one reports it.\<close>

lemma dw_poll_fed:
  "now - dw_last_feed w \<le> timeout \<Longrightarrow> dw_timeout w = Some timeout \<Longrightarrow> dw_poll now msg w = w"
  by (simp add: dw_poll_def)

lemma dw_poll_late:
  assumes "dw_timeout w = Some timeout" and "dw_active w" and "\<not> dw_stopped w"
    and "timeout < now - dw_last_feed w"
  shows "\<not> is_healthy (dw_health (dw_poll now msg w))"
  using assms by (simp add: dw_poll_def is_healthy_def set_unhealthy_def)

lemma validate_sampling_params_ok:
  "validate_sampling_params t p k n = Inr () \<longleftrightarrow>
     pred_option (\<lambda>x. 0 \<le> x \<and> x \<le> 2) t \<and> pred_option (\<lambda>x. 0 < x \<and> x \<le> 1) p \<and>
     pred_option (\<lambda>x. 0 < x) k \<and> pred_option (\<lambda>x. 0 < x) n"
  by (auto simp: validate_sampling_params_def violates_def split: option.splits)

section \<open>Eviction notifications\<close>

definition terminal_rids :: "(string \<times> eviction_event) list \<Rightarrow> string list" where
  "terminal_rids evs = map fst (filter (\<lambda>(rid, ev). ev \<noteq> SWAPPED_OUT) evs)"

definition first_seen :: "'a list \<Rightarrow> 'a list" where
  "first_seen xs = rev (remdups (rev xs))"

lemma first_seen_snoc:
  "first_seen [] = []"
  "first_seen (xs @ [x]) = (if x \<in> set xs then first_seen xs else first_seen xs @ [x])"
  by (simp_all add: first_seen_def)

lemma set_first_seen [simp]: "set (first_seen xs) = set xs"
  by (simp add: first_seen_def)

definition es_ok :: "bool \<Rightarrow> (string \<times> eviction_event) list \<Rightarrow> eviction_sync \<Rightarrow> bool" where
  "es_ok mw evs s \<longleftrightarrow> es_middleware s = mw \<and> es_evicted s = set (terminal_rids evs) \<and>
     es_notified s = (if mw then first_seen (terminal_rids evs) else []) \<and>
     es_incoming s = length (terminal_rids evs) \<and> es_removed s = length (es_notified s) \<and>
     es_not_found s + length (first_seen (terminal_rids evs)) = es_incoming s \<and>
     (\<forall>ev. es_events s ev = length (filter (\<lambda>p. snd p = ev) evs))"

lemma es_ok_step:
  assumes "es_ok mw evs s"
  shows "es_ok mw (evs @ [(rid, ev)]) (handle_event rid ev s)"
proof (cases "ev = SWAPPED_OUT")
  case True
  with assms show ?thesis by (simp add: es_ok_def handle_event_def terminal_rids_def)
next
  case False
  then have "terminal_rids (evs @ [(rid, ev)]) = terminal_rids evs @ [rid]" by (simp add: terminal_rids_def)
  with False assms show ?thesis
    by (simp add: es_ok_def handle_event_def evict_request_def first_seen_snoc Let_def insert_absorb)
qed

lemma es_ok_run:
  "es_ok mw evs (fold (\<lambda>(rid, ev). handle_event rid ev) evs (eviction_sync_init mw))"
proof (induction evs rule: rev_induct)
  case Nil
  then show ?case by (simp add: es_ok_def eviction_sync_init_def terminal_rids_def first_seen_def)
next
  case (snoc p evs)
  then show ?case by (cases p) (simp add: es_ok_step)
qed

text \<open>
  However completion, abort, deallocation and swapping of requests are
  reported, the middleware is told about a request exactly once, at its first
  event that is not a swap, in that order; without middleware it is never told;
  and every such event is counted once, as a removal or as not found.
\<close>

theorem eviction_notifies_once:
  "let s = fold (\<lambda>(rid, ev). handle_event rid ev) evs (eviction_sync_init has_middleware)
   in es_notified s = (if has_middleware then first_seen (terminal_rids evs) else []) \<and>
      distinct (es_notified s) \<and>
      es_incoming s = length (terminal_rids evs) \<and> es_removed s = length (es_notified s) \<and>
      es_not_found s + length (first_seen (terminal_rids evs)) = es_incoming s \<and>
      (\<forall>ev. es_events s ev = length (filter (\<lambda>p. snd p = ev) evs))"
  using es_ok_run [of has_middleware evs] by (simp add: es_ok_def Let_def first_seen_def)

end
