(* ===== verification/Streaming.thy ===== *)
theory Streaming
  imports Prelude
begin

text \<open>
  \<^verbatim>\<open>src/moe_infinity/serving/stream.py\<close>: the stream of server-sent events of a
  request. A producer pushes tokens, a consumer iterates a generator; the two
  threads meet in a queue under a condition variable. A step of the consumer is
  one critical section; the three critical sections of \<^verbatim>\<open>push_token\<close> (looking the
  stream up, formatting the chunk, appending it) are one step, so a run
  interleaves whole pushes with steps of the consumer. What is left out by that is
  a push that looked the stream up before the consumer ended it and appends
  afterwards: its event is lost, where the model raises \<open>KeyError\<close>. The rendering
  of a chunk as JSON, the random stream id and the clock are parameters.
\<close>

section \<open>Events\<close>

definition format_sse_event :: "string \<Rightarrow> string" where
  "format_sse_event data = ''data: '' @ data @ [CHR 0x0A, CHR 0x0A]"

definition format_done_event :: string where
  "format_done_event = ''data: [DONE]'' @ [CHR 0x0A, CHR 0x0A]"

record stream_chunk =
  chunk_id :: string
  chunk_model :: string
  chunk_created :: int
  chunk_content :: "string option"
  chunk_finish_reason :: "string option"

record stream_state =
  st_stream_id :: string
  st_model :: string
  st_created :: int
  st_queue :: "string list"
  st_finished :: bool

text \<open>
  A generator is an object of its own: not started, suspended in its loop, or
  ended. Its first step looks the stream up; every end removes the entry.
\<close>

datatype gen_phase = GenFresh | GenRunning | GenEnded

record stream_manager =
  sm_streams :: "(string, stream_state) odict"

datatype next_result = Yielded string | Waiting | Stopped | Raised py_error

section \<open>Operations\<close>

definition create_stream ::
  "string \<Rightarrow> int \<Rightarrow> string \<Rightarrow> string \<Rightarrow> stream_manager \<Rightarrow> (stream_manager, unit) outcome" where
  "create_stream uuid now rid model m =
     (if od_mem rid (sm_streams m) then (Inl ValueError, m)
      else (Inr (), m\<lparr>sm_streams := AList.update rid
              \<lparr>st_stream_id = ''chatcmpl-'' @ uuid, st_model = model, st_created = now,
               st_queue = [], st_finished = False\<rparr> (sm_streams m)\<rparr>))"

definition require_stream :: "string \<Rightarrow> stream_manager \<Rightarrow> stream_state result" where
  "require_stream rid m = (case map_of (sm_streams m) rid of None \<Rightarrow> Inl KeyError | Some s \<Rightarrow> Inr s)"

definition format_completion_chunk ::
  "(stream_chunk \<Rightarrow> string) \<Rightarrow> string \<Rightarrow> int \<Rightarrow> string \<Rightarrow> string \<Rightarrow> string \<Rightarrow> string option \<Rightarrow> stream_manager
   \<Rightarrow> string" where
  "format_completion_chunk dumps uuid now rid token_text model finish_reason m =
     (let s = map_of (sm_streams m) rid;
          chunk = \<lparr>chunk_id = (case s of None \<Rightarrow> ''chatcmpl-'' @ uuid | Some x \<Rightarrow> st_stream_id x),
                   chunk_model = model,
                   chunk_created = (case s of None \<Rightarrow> now | Some x \<Rightarrow> st_created x),
                   chunk_content = (if token_text \<noteq> [] then Some token_text else None),
                   chunk_finish_reason = finish_reason\<rparr>
      in format_sse_event (dumps chunk))"

definition push_token ::
  "(stream_chunk \<Rightarrow> string) \<Rightarrow> string \<Rightarrow> int \<Rightarrow> string \<Rightarrow> string \<Rightarrow> bool \<Rightarrow> string option \<Rightarrow> stream_manager
   \<Rightarrow> (stream_manager, unit) outcome" where
  "push_token dumps uuid now rid token_text finished finish_reason m =
     (case require_stream rid m of
        Inl e \<Rightarrow> (Inl e, m)
      | Inr s \<Rightarrow>
          (let reason = (if finished \<and> finish_reason = None then Some ''stop'' else finish_reason);
               chunk = format_completion_chunk dumps uuid now rid token_text (st_model s) reason m;
               s1 = s\<lparr>st_queue := st_queue s @ [chunk]\<rparr>;
               s2 = (if finished then s1\<lparr>st_queue := st_queue s1 @ [format_done_event], st_finished := True\<rparr>
                     else s1)
           in (Inr (), m\<lparr>sm_streams := AList.update rid s2 (sm_streams m)\<rparr>)))"

text \<open>
  \<^verbatim>\<open>next\<close> on the generator of a stream: \<open>Waiting\<close> when the thread sleeps on the
  condition. Closing a suspended generator runs its \<^verbatim>\<open>finally\<close> clause.
\<close>

definition remove_stream :: "string \<Rightarrow> stream_manager \<Rightarrow> stream_manager" where
  "remove_stream rid m = m\<lparr>sm_streams := AList.delete rid (sm_streams m)\<rparr>"

definition gen_next :: "string \<Rightarrow> gen_phase \<times> stream_manager \<Rightarrow> next_result \<times> gen_phase \<times> stream_manager" where
  "gen_next rid pm =
     (case pm of (ph, m) \<Rightarrow>
        if ph = GenEnded then (Stopped, GenEnded, m)
        else case require_stream rid m of
               Inl e \<Rightarrow> (Raised e, GenEnded, m)
             | Inr s \<Rightarrow>
                 (case st_queue s of
                    [] \<Rightarrow> if st_finished s then (Stopped, GenEnded, remove_stream rid m)
                          else (Waiting, GenRunning, m)
                  | event # queue \<Rightarrow>
                      (Yielded event, GenRunning,
                       m\<lparr>sm_streams := AList.update rid (s\<lparr>st_queue := queue\<rparr>) (sm_streams m)\<rparr>)))"

definition gen_close :: "string \<Rightarrow> gen_phase \<times> stream_manager \<Rightarrow> gen_phase \<times> stream_manager" where
  "gen_close rid pm =
     (case pm of (ph, m) \<Rightarrow> if ph = GenRunning then (GenEnded, remove_stream rid m) else (GenEnded, m))"

section \<open>Runs of one stream\<close>

datatype stream_op = Push string bool "string option" | Next

text \<open>The events a push stands for, given the identity of the stream.\<close>

definition chunk_events ::
  "(stream_chunk \<Rightarrow> string) \<Rightarrow> stream_state \<Rightarrow> string \<Rightarrow> bool \<Rightarrow> string option \<Rightarrow> string list" where
  "chunk_events dumps s text fin reason =
     format_sse_event (dumps
       \<lparr>chunk_id = st_stream_id s, chunk_model = st_model s, chunk_created = st_created s,
        chunk_content = (if text = [] then None else Some text),
        chunk_finish_reason = (if fin \<and> reason = None then Some ''stop'' else reason)\<rparr>) #
     (if fin then [format_done_event] else [])"

type_synonym stream_run = "gen_phase \<times> stream_manager \<times> string list \<times> string list"

fun stream_step ::
  "(stream_chunk \<Rightarrow> string) \<Rightarrow> string \<Rightarrow> stream_state \<Rightarrow> stream_op \<Rightarrow> stream_run \<Rightarrow> stream_run" where
  "stream_step dumps rid s0 (Push text fin reason) (ph, m, delivered, pushed) =
     (case push_token dumps [] 0 rid text fin reason m of
        (Inl _, m1) \<Rightarrow> (ph, m1, delivered, pushed)
      | (Inr _, m1) \<Rightarrow> (ph, m1, delivered, pushed @ chunk_events dumps s0 text fin reason))"
| "stream_step dumps rid s0 Next (ph, m, delivered, pushed) =
     (case gen_next rid (ph, m) of
        (Yielded e, ph1, m1) \<Rightarrow> (ph1, m1, delivered @ [e], pushed)
      | (_, ph1, m1) \<Rightarrow> (ph1, m1, delivered, pushed))"

definition same_stream :: "stream_state \<Rightarrow> stream_state \<Rightarrow> bool" where
  "same_stream s0 s \<longleftrightarrow> st_stream_id s = st_stream_id s0 \<and> st_model s = st_model s0 \<and> st_created s = st_created s0"

definition run_ok :: "string \<Rightarrow> stream_state \<Rightarrow> (string \<Rightarrow> stream_state option) \<Rightarrow> stream_run \<Rightarrow> bool" where
  "run_ok rid s0 others r = (case r of (ph, m, delivered, pushed) \<Rightarrow>
     od_ok (sm_streams m) \<and> (map_of (sm_streams m))(rid := None) = others \<and>
     (if ph = GenEnded
      then map_of (sm_streams m) rid = None \<and> delivered = pushed \<and> format_done_event \<in> set pushed
      else \<exists>s. map_of (sm_streams m) rid = Some s \<and> same_stream s0 s \<and> delivered @ st_queue s = pushed \<and>
             (st_finished s \<longrightarrow> format_done_event \<in> set pushed)))"

lemma push_step_ok:
  assumes "run_ok rid s0 others (ph, m, d, p)"
  shows "run_ok rid s0 others (stream_step dumps rid s0 (Push text fin reason) (ph, m, d, p))"
proof (cases "ph = GenEnded")
  case True
  with assms show ?thesis by (simp add: run_ok_def push_token_def require_stream_def)
next
  case False
  with assms obtain s where s: "map_of (sm_streams m) rid = Some s" "same_stream s0 s" "d @ st_queue s = p"
    "st_finished s \<longrightarrow> format_done_event \<in> set p" by (auto simp: run_ok_def)
  define s' where "s' = s\<lparr>st_queue := st_queue s @ chunk_events dumps s0 text fin reason,
    st_finished := st_finished s \<or> fin\<rparr>"
  have push: "push_token dumps [] 0 rid text fin reason m = (Inr (), m\<lparr>sm_streams := AList.update rid s' (sm_streams m)\<rparr>)"
    using s(1,2)
    by (auto simp: push_token_def require_stream_def format_completion_chunk_def chunk_events_def
        same_stream_def Let_def s'_def)
  have "same_stream s0 s'" "d @ st_queue s' = p @ chunk_events dumps s0 text fin reason"
    "st_finished s' \<longrightarrow> format_done_event \<in> set (p @ chunk_events dumps s0 text fin reason)"
    using s(2-4) by (auto simp: s'_def same_stream_def chunk_events_def)
  with assms False push show ?thesis by (auto simp: run_ok_def)
qed

lemma next_step_ok:
  assumes "run_ok rid s0 others (ph, m, d, p)"
  shows "run_ok rid s0 others (stream_step dumps rid s0 Next (ph, m, d, p))"
proof (cases "ph = GenEnded")
  case True
  with assms show ?thesis by (simp add: gen_next_def)
next
  case False
  with assms obtain s where s: "map_of (sm_streams m) rid = Some s" "same_stream s0 s" "d @ st_queue s = p"
    "st_finished s \<longrightarrow> format_done_event \<in> set p" by (auto simp: run_ok_def)
  show ?thesis
  proof (cases "st_queue s")
    case Nil
    with s False assms show ?thesis
      by (auto simp: gen_next_def require_stream_def remove_stream_def run_ok_def)
  next
    case (Cons e q)
    with s False assms show ?thesis
      by (auto simp: gen_next_def require_stream_def run_ok_def same_stream_def)
  qed
qed

lemma run_step_ok: "run_ok rid s0 others r \<Longrightarrow> run_ok rid s0 others (stream_step dumps rid s0 op r)"
  by (cases op; cases r) (simp_all only: push_step_ok next_step_ok)

lemma run_fold_ok: "run_ok rid s0 others r \<Longrightarrow> run_ok rid s0 others (fold (stream_step dumps rid s0) ops r)"
  by (induction ops arbitrary: r) (simp_all add: run_step_ok)

lemma create_run_ok:
  assumes "od_ok (sm_streams m)" and "create_stream uuid now rid model m = (Inr (), m1)"
  shows "run_ok rid \<lparr>st_stream_id = ''chatcmpl-'' @ uuid, st_model = model, st_created = now,
      st_queue = [], st_finished = False\<rparr> (map_of (sm_streams m)) (GenFresh, m1, [], [])"
proof -
  from assms(2) have "map_of (sm_streams m) rid = None"
    by (auto simp: create_stream_def od_mem_def split: if_splits)
  then have "(map_of (sm_streams m))(rid := None) = map_of (sm_streams m)" by (rule fun_upd_idem)
  with assms show ?thesis
    by (auto simp: create_stream_def run_ok_def same_stream_def split: if_splits)
qed

text \<open>Once finished, the generator needs one more step than there are queued events.\<close>

lemma drain_stops:
  assumes "run_ok rid s0 others (ph, m, d, p)" and "ph \<noteq> GenEnded"
    and "map_of (sm_streams m) rid = Some s" and "st_finished s"
  shows "\<exists>m'. fold (stream_step dumps rid s0) (replicate (Suc (length (st_queue s))) Next) (ph, m, d, p) =
    (GenEnded, m', p, p)"
  using assms
proof (induction "st_queue s" arbitrary: s ph m d)
  case Nil
  then have "d = p" by (auto simp: run_ok_def)
  with Nil show ?case by (simp add: gen_next_def require_stream_def)
next
  case (Cons e q)
  let ?s = "s\<lparr>st_queue := q\<rparr>" and ?m = "m\<lparr>sm_streams := AList.update rid (s\<lparr>st_queue := q\<rparr>) (sm_streams m)\<rparr>"
  from Cons.hyps(2) have queue: "st_queue s = e # q" by simp
  have step: "stream_step dumps rid s0 Next (ph, m, d, p) = (GenRunning, ?m, d @ [e], p)"
    using Cons.prems(2,3) queue by (simp add: gen_next_def require_stream_def)
  have ok: "run_ok rid s0 others (GenRunning, ?m, d @ [e], p)"
    using next_step_ok [OF Cons.prems(1), of dumps] unfolding step .
  have "map_of (sm_streams ?m) rid = Some ?s" "q = st_queue ?s" "st_finished ?s"
    using Cons.prems(4) by simp_all
  from Cons.hyps(1) [OF this(2) ok _ this(1,3)]
  have "\<exists>m'. fold (stream_step dumps rid s0) (replicate (Suc (length q)) Next) (GenRunning, ?m, d @ [e], p) =
      (GenEnded, m', p, p)" unfolding \<open>q = st_queue ?s\<close> [symmetric] by blast
  then show ?case
    by (simp only: queue list.size add_Suc_right add_0_right replicate.simps(2) fold_simps step)
qed

text \<open>
  The events of the pushes of a run, whether it contains a finishing push, and
  the protocol of the producer: nothing is pushed after the finishing push.
\<close>

definition run_events :: "(stream_chunk \<Rightarrow> string) \<Rightarrow> stream_state \<Rightarrow> stream_op list \<Rightarrow> string list" where
  "run_events dumps s0 ops =
     concat (map (\<lambda>op. case op of Push text fin reason \<Rightarrow> chunk_events dumps s0 text fin reason | Next \<Rightarrow> []) ops)"

definition finishes :: "stream_op list \<Rightarrow> bool" where
  "finishes ops = list_ex (\<lambda>op. case op of Push _ fin _ \<Rightarrow> fin | Next \<Rightarrow> False) ops"

fun closes_once :: "stream_op list \<Rightarrow> bool" where
  "closes_once [] = True"
| "closes_once (Next # ops) = closes_once ops"
| "closes_once (Push _ fin _ # ops) = (if fin then list_all (\<lambda>op. op = Next) ops else closes_once ops)"

lemma run_events_simps [simp]:
  "run_events dumps s0 [] = []"
  "run_events dumps s0 (xs @ ys) = run_events dumps s0 xs @ run_events dumps s0 ys"
  "run_events dumps s0 (Next # xs) = run_events dumps s0 xs"
  "run_events dumps s0 (Push t f r # xs) = chunk_events dumps s0 t f r @ run_events dumps s0 xs"
  by (simp_all add: run_events_def)

lemma finishes_simps [simp]:
  "\<not> finishes []"
  "finishes (xs @ ys) \<longleftrightarrow> finishes xs \<or> finishes ys"
  "finishes (Next # xs) \<longleftrightarrow> finishes xs"
  "finishes (Push t f r # xs) \<longleftrightarrow> f \<or> finishes xs"
  by (simp_all add: finishes_def)

lemma only_next:
  "list_all (\<lambda>op. op = Next) ops \<Longrightarrow> run_events dumps s0 ops = [] \<and> \<not> finishes ops"
  by (induction ops) auto

lemma closes_once_rest:
  "closes_once (xs @ ys) \<Longrightarrow> finishes xs \<Longrightarrow> run_events dumps s0 ys = []"
  by (induction xs rule: closes_once.induct) (auto simp: only_next split: if_splits)

lemma closes_once_last:
  "closes_once ops \<Longrightarrow> finishes ops \<Longrightarrow> \<exists>es. run_events dumps s0 ops = es @ [format_done_event]"
proof (induction ops rule: closes_once.induct)
  case (3 t fin r ops)
  show ?case
  proof (cases fin)
    case True
    with 3 show ?thesis by (simp add: chunk_events_def only_next)
  next
    case False
    with 3 obtain es where "run_events dumps s0 ops = es @ [format_done_event]" by auto
    then show ?thesis by simp
  qed
qed auto

definition run_done :: "(stream_chunk \<Rightarrow> string) \<Rightarrow> string \<Rightarrow> stream_state \<Rightarrow> stream_op list \<Rightarrow> stream_run \<Rightarrow> bool" where
  "run_done dumps rid s0 ops r = (case r of (ph, m, delivered, pushed) \<Rightarrow>
     if ph = GenEnded
     then \<exists>xs ys. ops = xs @ ys \<and> pushed = run_events dumps s0 xs \<and> finishes xs
     else pushed = run_events dumps s0 ops \<and>
       (\<forall>s. map_of (sm_streams m) rid = Some s \<longrightarrow> st_finished s = finishes ops))"

lemma run_done_step:
  assumes "run_ok rid s0 others r" and "run_done dumps rid s0 ops r"
  shows "run_done dumps rid s0 (ops @ [op]) (stream_step dumps rid s0 op r)"
proof -
  obtain ph m d p where r: "r = (ph, m, d, p)" by (cases r)
  show ?thesis
  proof (cases "ph = GenEnded")
    case True
    with assms have "map_of (sm_streams m) rid = None" by (simp add: run_ok_def r)
    moreover from assms True obtain xs ys where "ops = xs @ ys" "p = run_events dumps s0 xs" "finishes xs"
      by (auto simp: run_done_def r)
    then have "\<exists>xs ys. ops @ [op] = xs @ ys \<and> p = run_events dumps s0 xs \<and> finishes xs" by (metis append_assoc)
    ultimately show ?thesis using True
      by (cases op) (auto simp: run_done_def r gen_next_def push_token_def require_stream_def)
  next
    case False
    with assms obtain s where s: "map_of (sm_streams m) rid = Some s" "p = run_events dumps s0 ops"
      "st_finished s = finishes ops" by (auto simp: run_ok_def run_done_def r)
    show ?thesis
    proof (cases op)
      case (Push t f x)
      with s False show ?thesis
        by (auto simp: run_done_def r push_token_def require_stream_def Let_def)
    next
      case Next
      have "\<exists>xs ys. ops @ [Next] = xs @ ys \<and> p = run_events dumps s0 xs \<and> finishes xs" if "finishes ops"
        using that s(2) by blast
      with Next s False show ?thesis
        by (cases "st_queue s") (auto simp: run_done_def r gen_next_def require_stream_def)
    qed
  qed
qed

lemma run_done_fold:
  assumes "run_ok rid s0 others r" and "run_done dumps rid s0 [] r"
  shows "run_done dumps rid s0 ops (fold (stream_step dumps rid s0) ops r)"
proof (induction ops rule: rev_induct)
  case (snoc op ops)
  from run_done_step [OF run_fold_ok [OF assms(1)] snoc] show ?case by simp
qed (use assms(2) in simp)

section \<open>Properties\<close>

text \<open>
  C34: After a stream has been created, however the pushes of its producer and
  the steps of its consumer interleave, what the consumer has received followed
  by what is queued is exactly what was pushed, in order; other streams are
  untouched. The generator ends only after a finishing push and only when all
  that was pushed until then has been received, and the stream is then gone from
  the table. Until then, as soon as a finishing push was made, the consumer does
  not block: draining the queue and one more step end the generator. If the
  producer pushes nothing after its finishing push, every push counts and the
  last event of the stream is the end marker.
\<close>

theorem stream_delivers_in_order:
  assumes "od_ok (sm_streams m)" and "create_stream uuid now rid model m = (Inr (), m1)"
    and "s0 = \<lparr>st_stream_id = ''chatcmpl-'' @ uuid, st_model = model, st_created = now,
                st_queue = [], st_finished = False\<rparr>"
    and "fold (stream_step dumps rid s0) ops (GenFresh, m1, [], []) = (ph, m2, delivered, pushed)"
  shows "(\<forall>r. r \<noteq> rid \<longrightarrow> map_of (sm_streams m2) r = map_of (sm_streams m) r) \<and>
    (if ph = GenEnded
     then map_of (sm_streams m2) rid = None \<and> delivered = pushed \<and>
       (\<exists>xs ys. ops = xs @ ys \<and> pushed = run_events dumps s0 xs \<and> finishes xs)
     else \<exists>s. map_of (sm_streams m2) rid = Some s \<and> delivered @ st_queue s = pushed \<and>
       pushed = run_events dumps s0 ops \<and>
       (finishes ops \<longrightarrow> (\<exists>m3. fold (stream_step dumps rid s0)
          (replicate (Suc (length (st_queue s))) Next) (ph, m2, delivered, pushed) =
          (GenEnded, m3, pushed, pushed)))) \<and>
    (closes_once ops \<longrightarrow> pushed = run_events dumps s0 ops \<and>
       (finishes ops \<longrightarrow> (\<exists>es. pushed = es @ [format_done_event])))"
proof -
  note c = create_run_ok [OF assms(1,2), folded assms(3)]
  have ok: "run_ok rid s0 (map_of (sm_streams m)) (ph, m2, delivered, pushed)"
    using run_fold_ok [OF c, of dumps ops] assms(4) by simp
  have "run_done dumps rid s0 [] (GenFresh, m1, [], [])"
    using assms(2) by (auto simp: run_done_def create_stream_def split: if_splits)
  from run_done_fold [OF c this, of ops] have rd: "run_done dumps rid s0 ops (ph, m2, delivered, pushed)"
    unfolding assms(4) .
  have ended: "\<exists>xs ys. ops = xs @ ys \<and> pushed = run_events dumps s0 xs \<and> finishes xs" if "ph = GenEnded"
    using rd that by (simp add: run_done_def)
  have "(map_of (sm_streams m2))(rid := None) = map_of (sm_streams m)" using ok by (simp add: run_ok_def)
  then have "\<forall>r. r \<noteq> rid \<longrightarrow> map_of (sm_streams m2) r = map_of (sm_streams m) r"
    by (metis fun_upd_other)
  moreover have "\<exists>s. map_of (sm_streams m2) rid = Some s \<and> delivered @ st_queue s = pushed \<and>
       pushed = run_events dumps s0 ops \<and> st_finished s = finishes ops" if "ph \<noteq> GenEnded"
    using ok rd that by (auto simp: run_ok_def run_done_def)
  moreover have "pushed = run_events dumps s0 ops" if "closes_once ops"
    using ended closes_once_rest [of _ _ dumps s0] that rd
    by (cases "ph = GenEnded") (fastforce, simp add: run_done_def)
  moreover have "ph = GenEnded \<Longrightarrow> map_of (sm_streams m2) rid = None \<and> delivered = pushed"
    using ok by (simp add: run_ok_def)
  ultimately show ?thesis using drain_stops [OF ok, of _ dumps] ended closes_once_last [of ops dumps s0]
    by (cases "ph = GenEnded") (simp, metis+)
qed

theorem stream_delivers_in_order_witness:
  "\<exists>m2 pushed. fold (stream_step chunk_id ''r'' \<lparr>st_stream_id = ''chatcmpl-u'', st_model = ''m'', st_created = 5,
       st_queue = [], st_finished = False\<rparr>) [Push ''hi'' True None, Next, Next, Next]
     (GenFresh, snd (create_stream ''u'' 5 ''r'' ''m'' \<lparr>sm_streams = []\<rparr>), [], []) = (GenEnded, m2, pushed, pushed) \<and>
     format_done_event \<in> set pushed"
proof -
  let ?s0 = "\<lparr>st_stream_id = ''chatcmpl-u'', st_model = ''m'', st_created = 5, st_queue = [], st_finished = False\<rparr>"
  let ?m1 = "snd (create_stream ''u'' 5 ''r'' ''m'' \<lparr>sm_streams = []\<rparr>)"
  obtain ph m2 d p where run: "fold (stream_step chunk_id ''r'' ?s0) [Push ''hi'' True None, Next, Next, Next]
      (GenFresh, ?m1, [], []) = (ph, m2, d, p)" by (metis surj_pair)
  have "create_stream ''u'' 5 ''r'' ''m'' \<lparr>sm_streams = []\<rparr> = (Inr (), ?m1)"
    by (simp add: create_stream_def od_mem_def)
  from stream_delivers_in_order [OF _ this _ run] have "ph = GenEnded \<Longrightarrow> d = p \<and> format_done_event \<in> set d"
    by fastforce
  moreover have "fst (fold (stream_step chunk_id ''r'' ?s0) [Push ''hi'' True None, Next, Next, Next]
      (GenFresh, ?m1, [], [])) = GenEnded" by code_simp
  with run have "ph = GenEnded" by simp
  ultimately show ?thesis using run by blast
qed

end
