(* ===== verification/Model_Runner.thy ===== *)
theory Model_Runner
  imports Serving_Engine Generation Expert_Prefetch
begin

text \<open>
  \<^verbatim>\<open>src/moe_infinity/serving/model_runner.py\<close>: \<^verbatim>\<open>ModelRunner\<close>, which turns a packed
  batch into the padded inputs of the model, runs the forward pass under the
  context of the paged attention classes, and packs the logits again; and
  \<^verbatim>\<open>serving/cuda_graph.py\<close>: \<^verbatim>\<open>CudaGraphRunner\<close>, which captures and replays decode
  batches. What the runner reads from the model and the engine by \<^verbatim>\<open>getattr\<close> is
  the content of the records below, \<open>None\<close> when the attribute is missing or of
  another type. The forward pass is a parameter, indexed by the number of
  calls made so far; the calls are recorded in a log. A row of logits is of any
  type.
\<close>

section \<open>The objects the runner is given\<close>

text \<open>A class object: its identity, its name and which of the two class methods it has.\<close>

record py_class =
  cls_ref :: nat
  cls_name :: string
  cls_sets :: bool
  cls_clears :: bool

record attn_backend =
  bk_ref :: nat
  bk_spec_block_size :: "int option"

record runner_engine =
  re_tracer :: "tracer option"
  re_expert_layers :: "string list option list"
  re_generates_ids :: bool
  re_request_id :: "int option"
  re_kv_block_size :: "int option"
  re_backend_getter :: "attn_backend option option"
  re_backend_attrs :: "attn_backend option list"

record rt_attention_metadata =
  rt_block_tables :: "int list list"
  rt_seq_lens :: "int list"
  rt_max_seq_len :: int
  rt_num_prefill_tokens :: int
  rt_num_decode_tokens :: int
  rt_slot_mapping :: "int list"
  rt_is_prefill :: bool

type_synonym paged_context = "py_class \<rightharpoonup> attn_backend \<times> rt_attention_metadata"

record model_inputs =
  mi_input_ids :: "int list list"
  mi_position_ids :: "int list list"
  mi_attention_mask :: "int list list"

record forward_call =
  fc_inputs :: model_inputs
  fc_past :: "nat option"
  fc_context :: paged_context

datatype 'r tensor = Rank2 "'r list" | Rank3 "'r list list" | OtherRank nat
datatype 'r pyobj = TensorObj "'r tensor" | NotTensor

record 'r model_output =
  mo_logits :: "'r pyobj option"
  mo_items :: "(string \<rightharpoonup> 'r pyobj) option"
  mo_tuple :: "'r pyobj list option"

record 'r runner_model =
  md_modules :: "py_class list option"
  md_config_vocab_size :: "int option"
  md_vocab_size :: "int option"
  md_forward :: "(nat \<Rightarrow> forward_call \<Rightarrow> 'r model_output result) option"

record runner_state =
  rs_engine :: runner_engine
  rs_seq_id_list :: "string list"
  rs_context :: paged_context
  rs_calls :: "forward_call list"

record torch_device =
  dev_type :: string
  dev_index :: "int option"

definition resolve_device :: "bool \<Rightarrow> torch_device option \<Rightarrow> torch_device" where
  "resolve_device cuda_available device =
     (case device of
        None \<Rightarrow> \<lparr>dev_type = (if cuda_available then ''cuda'' else ''cpu''), dev_index = None\<rparr>
      | Some d \<Rightarrow> if dev_type d = ''cuda'' \<and> \<not> cuda_available
                 then \<lparr>dev_type = ''cpu'', dev_index = None\<rparr> else d)"

section \<open>Inputs\<close>

definition rbind_nth :: "'a list \<Rightarrow> nat \<Rightarrow> ('a \<Rightarrow> 'b result) \<Rightarrow> 'b result" where
  "rbind_nth xs i f = (if i < length xs then f (xs ! i) else Inl IndexError)"

text \<open>\<^verbatim>\<open>tensor[i, :n] = xs\<close> for a list of \<open>n\<close> numbers.\<close>

definition put_prefix :: "nat \<Rightarrow> 'a list \<Rightarrow> 'a list list \<Rightarrow> 'a list list" where
  "put_prefix i xs M = M[i := xs @ drop (length xs) (M ! i)]"

fun fill_inputs :: "batch_metadata \<Rightarrow> nat list \<Rightarrow> model_inputs \<Rightarrow> model_inputs result" where
  "fill_inputs b [] mi = Inr mi"
| "fill_inputs b (i # is) mi =
     rbind_nth (token_offsets b) i (\<lambda>start.
     rbind_nth (token_offsets b) (i + 1) (\<lambda>end_pos.
     rbind_nth (seq_lengths b) i (\<lambda>seq_len.
       let seq_tokens = slice start end_pos (input_token_ids b)
       in if length seq_tokens \<noteq> seq_len then Inl ValueError
          else if seq_len = 0 then fill_inputs b is mi
          else rbind_nth (context_lengths b) i (\<lambda>context_len.
                 fill_inputs b is
                   \<lparr>mi_input_ids = put_prefix i seq_tokens (mi_input_ids mi),
                    mi_position_ids =
                      put_prefix i [context_len..context_len + int seq_len - 1] (mi_position_ids mi),
                    mi_attention_mask = put_prefix i (replicate seq_len 1) (mi_attention_mask mi)\<rparr>))))"

definition prepare_inputs :: "batch_metadata \<Rightarrow> model_inputs result" where
  "prepare_inputs b =
     (let num_seqs = length (seq_ids b);
          max_seq_len = foldr max (seq_lengths b) 0;
          z = replicate num_seqs (replicate max_seq_len 0)
      in fill_inputs b [0..<num_seqs] \<lparr>mi_input_ids = z, mi_position_ids = z, mi_attention_mask = z\<rparr>)"

section \<open>Attention metadata\<close>

fun token_slots :: "int \<Rightarrow> int list \<Rightarrow> int list \<Rightarrow> int list \<Rightarrow> int list result" where
  "token_slots block_size block_table [] slots = Inr slots"
| "token_slots block_size block_table (token_pos # ps) slots =
     (let block_idx = token_pos div block_size; token_offset = token_pos mod block_size
      in if block_idx \<ge> int (length block_table) then Inl ValueError
         else case py_subscript block_table block_idx of
                Inl e \<Rightarrow> Inl e
              | Inr blk \<Rightarrow> token_slots block_size block_table ps (slots @ [blk * block_size + token_offset]))"

fun slot_mapping_loop :: "batch_metadata \<Rightarrow> int \<Rightarrow> (nat \<times> nat) list \<Rightarrow> int list \<Rightarrow> int list result" where
  "slot_mapping_loop b block_size [] slots = Inr slots"
| "slot_mapping_loop b block_size ((i, seq_len) # ps) slots =
     rbind_nth (block_tables b) i (\<lambda>block_table.
     rbind_nth (context_lengths b) i (\<lambda>context_len.
       case token_slots block_size block_table [context_len..context_len + int seq_len - 1] slots of
         Inl e \<Rightarrow> Inl e
       | Inr slots1 \<Rightarrow> slot_mapping_loop b block_size ps slots1))"

definition build_slot_mapping :: "batch_metadata \<Rightarrow> int \<Rightarrow> int list result" where
  "build_slot_mapping b block_size =
     slot_mapping_loop b block_size (zip [0..<length (seq_lengths b)] (seq_lengths b)) []"

definition get_attention_backend :: "runner_engine \<Rightarrow> attn_backend option" where
  "get_attention_backend e =
     (case re_backend_getter e of
        Some (Some bk) \<Rightarrow> Some bk
      | _ \<Rightarrow> (case filter (\<lambda>a. a \<noteq> None) (re_backend_attrs e) of [] \<Rightarrow> None | a # _ \<Rightarrow> a))"

definition positive_int :: "int option \<Rightarrow> int option" where
  "positive_int x = (case x of Some n \<Rightarrow> if n > 0 then Some n else None | None \<Rightarrow> None)"

definition resolve_block_size :: "runner_engine \<Rightarrow> int" where
  "resolve_block_size e =
     (case positive_int (re_kv_block_size e) of
        Some n \<Rightarrow> n
      | None \<Rightarrow>
          (case positive_int (Option.bind (get_attention_backend e) bk_spec_block_size) of
             Some n \<Rightarrow> n
           | None \<Rightarrow> 1))"

definition build_runtime_attention_metadata :: "runner_engine \<Rightarrow> batch_metadata \<Rightarrow> rt_attention_metadata result" where
  "build_runtime_attention_metadata e b =
     (let block_size = resolve_block_size e;
          max_blocks = foldr max (map length (block_tables b)) 0;
          tables = map (\<lambda>row. row @ replicate (max_blocks - length row) 0) (block_tables b);
          seq_lens_values = map (\<lambda>(c, n). c + int n) (zip (context_lengths b) (seq_lengths b))
      in case build_slot_mapping b block_size of
           Inl err \<Rightarrow> Inl err
         | Inr slots \<Rightarrow>
             (let prefill = sum_list (map (int \<circ> fst) (filter snd (zip (seq_lengths b) (is_prefill b))))
              in Inr \<lparr>rt_block_tables = tables, rt_seq_lens = seq_lens_values,
                      rt_max_seq_len = (if seq_lens_values = [] then 0 else Max (set seq_lens_values)),
                      rt_num_prefill_tokens = prefill,
                      rt_num_decode_tokens = int (total_tokens b) - prefill,
                      rt_slot_mapping = slots,
                      rt_is_prefill = (is_prefill b \<noteq> [] \<and> list_all (\<lambda>x. x) (is_prefill b))\<rparr>))"

section \<open>Model and engine attributes\<close>

definition paged_class_names :: "string list" where
  "paged_class_names = [''DeepseekV2PagedAttention'', ''DeepseekV3PagedAttention'']"

fun collect_paged_classes :: "py_class list \<Rightarrow> py_class list \<Rightarrow> py_class list" where
  "collect_paged_classes [] classes = classes"
| "collect_paged_classes (c # cs) classes =
     (if c \<in> set classes then collect_paged_classes cs classes
      else if cls_name c \<notin> set paged_class_names then collect_paged_classes cs classes
      else if \<not> cls_sets c \<or> \<not> cls_clears c then collect_paged_classes cs classes
      else collect_paged_classes cs (classes @ [c]))"

definition get_paged_attention_classes :: "'r runner_model \<Rightarrow> py_class list" where
  "get_paged_attention_classes m =
     (case md_modules m of None \<Rightarrow> [] | Some cs \<Rightarrow> collect_paged_classes cs [])"

definition resolve_vocab_size :: "'r runner_model \<Rightarrow> int result" where
  "resolve_vocab_size m =
     (case md_config_vocab_size m of
        Some n \<Rightarrow> Inr n
      | None \<Rightarrow> (case md_vocab_size m of Some n \<Rightarrow> Inr n | None \<Rightarrow> Inl ValueError))"

definition empty_logits :: "'r runner_model \<Rightarrow> 'r list result" where
  "empty_logits m = map_sum id (\<lambda>_. []) (resolve_vocab_size m)"

definition extract_logits :: "'r model_output \<Rightarrow> 'r tensor result" where
  "extract_logits out =
     (let l0 = mo_logits out;
          l1 = (case l0 of
                  Some x \<Rightarrow> Some x
                | None \<Rightarrow> (case mo_items out of Some d \<Rightarrow> d ''logits'' | None \<Rightarrow> None));
          l2 = (case l1 of
                  Some x \<Rightarrow> Some x
                | None \<Rightarrow> (case mo_tuple out of Some (x # _) \<Rightarrow> Some x | _ \<Rightarrow> None))
      in case l2 of Some (TensorObj t) \<Rightarrow> Inr t | _ \<Rightarrow> Inl ValueError)"

text \<open>One \<^verbatim>\<open>create_entry\<close> of the tracer per sequence, with the identifiers drawn.\<close>

fun create_entries :: "string list \<Rightarrow> tracer \<Rightarrow> string list \<times> tracer" where
  "create_entries [] t = ([], t)"
| "create_entries (u # us) t =
     (case create_entry u t of (sid, t1) \<Rightarrow> case create_entries us t1 of (sids, t2) \<Rightarrow> (sid # sids, t2))"

definition configure_expert_tracing :: "(nat \<Rightarrow> string) \<Rightarrow> nat \<Rightarrow> runner_state \<Rightarrow> runner_state" where
  "configure_expert_tracing uuid num_sequences s =
     (let e = rs_engine s;
          (ids, tracer') =
            (case re_tracer e of
               None \<Rightarrow> ([], None)
             | Some t \<Rightarrow> if num_sequences = 0 then ([], Some t)
                        else apsnd Some (create_entries (map uuid [0..<num_sequences]) t))
      in s\<lparr>rs_seq_id_list := ids,
           rs_engine := e\<lparr>re_tracer := tracer',
             re_expert_layers := map (map_option (\<lambda>_. ids)) (re_expert_layers e)\<rparr>\<rparr>)"

text \<open>
  \<^verbatim>\<open>OffloadEngine._generate_request_id\<close> returns \<^verbatim>\<open>request_id\<close> and adds one to it;
  the fallback for an engine without that method does the same if it can.
\<close>

definition advance_request_id :: "runner_state \<Rightarrow> (runner_state, unit) outcome" where
  "advance_request_id s =
     (let e = rs_engine s
      in case re_request_id e of
           Some n \<Rightarrow> (Inr (), s\<lparr>rs_engine := e\<lparr>re_request_id := Some (n + 1)\<rparr>\<rparr>)
         | None \<Rightarrow> if re_generates_ids e then (Inl AttributeError, s) else (Inr (), s))"

section \<open>Execution\<close>

definition set_paged_context :: "attn_backend \<Rightarrow> rt_attention_metadata \<Rightarrow> py_class list \<Rightarrow> runner_state \<Rightarrow> runner_state" where
  "set_paged_context bk meta cs s = s\<lparr>rs_context := fold (\<lambda>c ctx. ctx(c \<mapsto> (bk, meta))) cs (rs_context s)\<rparr>"

definition clear_paged_context :: "py_class list \<Rightarrow> runner_state \<Rightarrow> runner_state" where
  "clear_paged_context cs s = s\<lparr>rs_context := fold (\<lambda>c ctx. ctx(c := None)) cs (rs_context s)\<rparr>"

definition call_forward ::
  "(nat \<Rightarrow> forward_call \<Rightarrow> 'r model_output result) \<Rightarrow> model_inputs \<Rightarrow> nat option \<Rightarrow> runner_state
   \<Rightarrow> (runner_state, 'r model_output) outcome" where
  "call_forward forward mi past s =
     (let c = \<lparr>fc_inputs = mi, fc_past = past, fc_context = rs_context s\<rparr>
      in (forward (length (rs_calls s)) c, s\<lparr>rs_calls := rs_calls s @ [c]\<rparr>))"

definition run_model ::
  "'r runner_model \<Rightarrow> (nat \<Rightarrow> forward_call \<Rightarrow> 'r model_output result) \<Rightarrow> batch_metadata \<Rightarrow> model_inputs
   \<Rightarrow> nat option \<Rightarrow> runner_state \<Rightarrow> (runner_state, 'r model_output) outcome" where
  "run_model m forward b mi past s =
     (let classes = get_paged_attention_classes m
      in case get_attention_backend (rs_engine s) of
           None \<Rightarrow> call_forward forward mi past s
         | Some bk \<Rightarrow>
             if classes = [] then call_forward forward mi past s
             else (case build_runtime_attention_metadata (rs_engine s) b of
                     Inl e \<Rightarrow> (Inl e, s)
                   | Inr meta \<Rightarrow> apsnd (clear_paged_context classes)
                                 (call_forward forward mi past (set_paged_context bk meta classes s))))"

text \<open>\<^verbatim>\<open>logits[token_mask]\<close>: the rows of a rank-3 tensor where the mask is set, in order.\<close>

definition select_mask :: "int list list \<Rightarrow> 'r list list \<Rightarrow> 'r list result" where
  "select_mask msk rows =
     (if map length rows = map length msk
      then Inr (concat (map (\<lambda>(ms, rs). map snd (filter (\<lambda>(x, _). x \<noteq> 0) (zip ms rs))) (zip msk rows)))
      else Inl IndexError)"

definition pack_logits :: "batch_metadata \<Rightarrow> model_inputs \<Rightarrow> 'r tensor \<Rightarrow> 'r list result" where
  "pack_logits b mi t =
     (case (case t of
              Rank3 rows \<Rightarrow> select_mask (mi_attention_mask mi) rows
            | Rank2 rows \<Rightarrow> Inr rows
            | OtherRank _ \<Rightarrow> Inl ValueError) of
        Inl e \<Rightarrow> Inl e
      | Inr rows \<Rightarrow> if length rows \<noteq> total_tokens b then Inl ValueError else Inr rows)"

definition runner_execute ::
  "'r runner_model \<Rightarrow> (nat \<Rightarrow> string) \<Rightarrow> batch_metadata \<Rightarrow> nat option \<Rightarrow> runner_state
   \<Rightarrow> (runner_state, 'r list) outcome" where
  "runner_execute m uuid b past s0 =
     andthen (advance_request_id (configure_expert_tracing uuid (length (seq_ids b)) s0)) (\<lambda>_ s.
       if total_tokens b = 0 then (empty_logits m, s)
       else case prepare_inputs b of
              Inl e \<Rightarrow> (Inl e, s)
            | Inr mi \<Rightarrow>
                (case md_forward m of
                   None \<Rightarrow> (Inl ValueError, s)
                 | Some forward \<Rightarrow>
                     andthen (run_model m forward b mi past s) (\<lambda>out s1.
                       case extract_logits out of
                         Inl e \<Rightarrow> (Inl e, s1)
                       | Inr t \<Rightarrow> (pack_logits b mi t, s1))))"

section \<open>Padded inputs\<close>

definition batch_width :: "seq_view list \<Rightarrow> nat" where
  "batch_width vs = foldr max (map (length \<circ> v_tokens) vs) 0"

definition padded :: "nat \<Rightarrow> int list \<Rightarrow> int list" where
  "padded w xs = xs @ replicate (w - length xs) 0"

definition view_positions :: "seq_view \<Rightarrow> int list" where
  "view_positions v = [v_context v..v_context v + int (length (v_tokens v)) - 1]"

definition inputs_of :: "seq_view list \<Rightarrow> model_inputs" where
  "inputs_of vs =
     (let rows = (\<lambda>f. map (padded (batch_width vs) \<circ> f) vs)
      in \<lparr>mi_input_ids = rows v_tokens, mi_position_ids = rows view_positions,
          mi_attention_mask = rows (\<lambda>v. replicate (length (v_tokens v)) 1)\<rparr>)"

lemma length_view_positions [simp]: "length (view_positions v) = length (v_tokens v)"
  by (simp add: view_positions_def)

lemma le_foldr_max: "x \<in> set xs \<Longrightarrow> x \<le> foldr max xs (0::nat)"
  by (induction xs) auto

lemma length_padded: "length xs \<le> w \<Longrightarrow> length (padded w xs) = w"
  by (simp add: padded_def)

text \<open>The rows of a matrix of which the first \<open>k\<close> have been filled.\<close>

definition filled :: "nat \<Rightarrow> nat \<Rightarrow> (seq_view \<Rightarrow> int list) \<Rightarrow> seq_view list \<Rightarrow> int list list" where
  "filled w k f vs = map (padded w \<circ> f) (take k vs) @ replicate (length vs - k) (replicate w 0)"

lemma put_prefix_filled:
  assumes "k < length vs"
  shows "put_prefix k (f (vs ! k)) (filled w k f vs) = filled w (Suc k) f vs"
proof -
  have "filled w k f vs ! k = replicate w 0"
    using assms by (simp add: filled_def nth_append)
  moreover have "(filled w k f vs)[k := x] = filled w k f (take k vs) @ x # replicate (length vs - Suc k) (replicate w 0)" for x
    using assms by (simp add: filled_def list_update_append min_def Suc_diff_Suc [symmetric])
  ultimately show ?thesis
    using assms by (simp add: put_prefix_def filled_def padded_def take_Suc_conv_app_nth min_def)
qed

lemma put_prefix_Nil [simp]: "put_prefix k [] M = M"
  by (simp add: put_prefix_def)

lemma batch_of_tokens:
  assumes "k < length vs"
  shows "slice (token_offsets (batch_of vs) ! k) (token_offsets (batch_of vs) ! Suc k)
    (input_token_ids (batch_of vs)) = v_tokens (vs ! k)"
  using assms slice_concat [of k "map v_tokens vs"] by (simp add: batch_of_def offsets_from_nth comp_def)

lemma batch_of_fields [simp]:
  "length (token_offsets (batch_of vs)) = Suc (length vs)"
  "seq_lengths (batch_of vs) = map (length \<circ> v_tokens) vs"
  "context_lengths (batch_of vs) = map v_context vs"
  "block_tables (batch_of vs) = map v_blocks vs"
  "seq_ids (batch_of vs) = map v_id vs"
  "is_prefill (batch_of vs) = map v_prefill vs"
  "total_tokens (batch_of vs) = num_tokens vs"
  by (simp_all add: batch_of_def total_tokens_def length_concat comp_def num_tokens_def)

lemma fill_inputs_from:
  assumes "k \<le> length vs"
  shows "fill_inputs (batch_of vs) [k..<length vs]
      \<lparr>mi_input_ids = filled w k v_tokens vs, mi_position_ids = filled w k view_positions vs,
       mi_attention_mask = filled w k (\<lambda>v. replicate (length (v_tokens v)) 1) vs\<rparr> =
    Inr \<lparr>mi_input_ids = filled w (length vs) v_tokens vs, mi_position_ids = filled w (length vs) view_positions vs,
       mi_attention_mask = filled w (length vs) (\<lambda>v. replicate (length (v_tokens v)) 1) vs\<rparr>"
  using assms
proof (induction rule: inc_induct)
  case (step k)
  have put: "filled w (Suc k) f vs = put_prefix k (f (vs ! k)) (filled w k f vs)" for f
    using put_prefix_filled [OF step.hyps(2)] by simp
  have pos: "[v_context (vs ! k)..v_context (vs ! k) + int (length (v_tokens (vs ! k))) - 1] =
      view_positions (vs ! k)" by (simp add: view_positions_def)
  have "view_positions (vs ! k) = []" if "v_tokens (vs ! k) = []"
    using that by (simp add: view_positions_def)
  with step pos show ?case
    by (cases "v_tokens (vs ! k) = []")
      (simp_all add: upt_conv_Cons rbind_nth_def batch_of_tokens put)
qed simp

lemma prepare_inputs_of: "prepare_inputs (batch_of vs) = Inr (inputs_of vs)"
proof -
  have zero: "filled w 0 f vs = replicate (length vs) (replicate w 0)" for w f by (simp add: filled_def)
  have all: "filled w (length vs) f vs = map (padded w \<circ> f) vs" for w f by (simp add: filled_def)
  show ?thesis
    using fill_inputs_from [of 0 vs "batch_width vs"]
    by (simp add: prepare_inputs_def inputs_of_def Let_def zero all batch_width_def)
qed

section \<open>Packed outputs\<close>

lemma inputs_of_lengths:
  "map length (mi_input_ids (inputs_of vs)) = replicate (length vs) (batch_width vs)"
  "map length (mi_attention_mask (inputs_of vs)) = replicate (length vs) (batch_width vs)"
proof -
  have le: "length (v_tokens v) \<le> batch_width vs" if "v \<in> set vs" for v
    unfolding batch_width_def using that by (intro le_foldr_max) simp
  have "map (length \<circ> (padded (batch_width vs) \<circ> f)) vs = map (\<lambda>_. batch_width vs) vs"
    if "\<And>v. length (f v) = length (v_tokens v)" for f
    using le that by (simp add: length_padded)
  then show "map length (mi_input_ids (inputs_of vs)) = replicate (length vs) (batch_width vs)"
    and "map length (mi_attention_mask (inputs_of vs)) = replicate (length vs) (batch_width vs)"
    by (simp_all only: inputs_of_def Let_def model_inputs.simps map_map length_replicate map_replicate_const)
qed

lemma select_row:
  assumes "length r = w" and "n \<le> w"
  shows "map snd (filter (\<lambda>(x, _). x \<noteq> 0) (zip (padded w (replicate n (1::int))) r)) = take n r"
proof -
  have "zip (padded w (replicate n 1)) r = zip (replicate n 1) (take n r) @ zip (replicate (w - n) (0::int)) (drop n r)"
    using assms by (simp add: padded_def zip_append1)
  moreover have "filter (\<lambda>(x, _). x \<noteq> 0) (zip (replicate n (1::int)) (take n r)) = zip (replicate n 1) (take n r)"
    by (auto simp: filter_id_conv dest!: set_zip_leftD)
  moreover have "filter (\<lambda>(x, _). x \<noteq> 0) (zip (replicate (w - n) (0::int)) (drop n r)) = []"
    by (auto simp: filter_empty_conv dest!: set_zip_leftD)
  ultimately show ?thesis using assms by simp
qed

definition real_rows :: "seq_view list \<Rightarrow> 'r list list \<Rightarrow> 'r list list" where
  "real_rows vs rows = map (\<lambda>(v, r). take (length (v_tokens v)) r) (zip vs rows)"

lemma select_mask_of:
  assumes "map length rows = map length (mi_input_ids (inputs_of vs))"
  shows "select_mask (mi_attention_mask (inputs_of vs)) rows = Inr (concat (real_rows vs rows))"
proof -
  let ?w = "batch_width vs"
  let ?m = "\<lambda>v. padded ?w (replicate (length (v_tokens v)) (1::int))"
  have len: "length rows = length vs" and w: "r \<in> set rows \<Longrightarrow> length r = ?w" for r
    using assms unfolding inputs_of_lengths by (metis length_map length_replicate, metis image_eqI in_set_replicate set_map)
  have msk: "mi_attention_mask (inputs_of vs) = map ?m vs" by (simp add: inputs_of_def comp_def)
  have "map (\<lambda>(ms, rs). map snd (filter (\<lambda>(x, _). x \<noteq> 0) (zip ms rs))) (zip (map ?m vs) rows) = real_rows vs rows"
    unfolding real_rows_def
  proof (rule nth_equalityI)
    fix i assume "i < length (map (\<lambda>(ms, rs). map snd (filter (\<lambda>(x, _). x \<noteq> 0) (zip ms rs))) (zip (map ?m vs) rows))"
    then have i: "i < length vs" "i < length rows" by simp_all
    then have "length (v_tokens (vs ! i)) \<le> ?w" unfolding batch_width_def by (intro le_foldr_max) auto
    with i w show "map (\<lambda>(ms, rs). map snd (filter (\<lambda>(x, _). x \<noteq> 0) (zip ms rs))) (zip (map ?m vs) rows) ! i =
        map (\<lambda>(v, r). take (length (v_tokens v)) r) (zip vs rows) ! i"
      by (simp add: select_row)
  qed simp
  then show ?thesis using assms unfolding select_mask_def inputs_of_lengths msk [symmetric] by simp
qed

lemma real_rows_lengths:
  assumes "map length rows = map length (mi_input_ids (inputs_of vs))"
  shows "map length (real_rows vs rows) = map (length \<circ> v_tokens) vs"
proof (rule nth_equalityI)
  have len: "length rows = length vs" using assms unfolding inputs_of_lengths by (metis length_map length_replicate)
  then show "length (map length (real_rows vs rows)) = length (map (length \<circ> v_tokens) vs)" by (simp add: real_rows_def)
  fix i assume "i < length (map length (real_rows vs rows))"
  then have i: "i < length vs" "i < length rows" by (simp_all add: real_rows_def)
  then have "length (rows ! i) = batch_width vs" using assms unfolding inputs_of_lengths by (metis nth_map nth_replicate)
  moreover have "length (v_tokens (vs ! i)) \<le> batch_width vs"
    using i unfolding batch_width_def by (intro le_foldr_max) auto
  ultimately show "map length (real_rows vs rows) ! i = map (length \<circ> v_tokens) vs ! i"
    using i by (simp add: real_rows_def)
qed

lemma concat_nth_offset:
  "i < length xss \<Longrightarrow> j < length (xss ! i) \<Longrightarrow>
   concat xss ! (sum_list (take i (map length xss)) + j) = xss ! i ! j \<and>
   sum_list (take i (map length xss)) + j < length (concat xss)"
proof (induction xss arbitrary: i)
  case (Cons xs xss)
  then show ?case by (cases i) (auto simp: nth_append)
qed simp

lemma pack_logits_of:
  assumes "map length rows = map length (mi_input_ids (inputs_of vs))"
  shows "pack_logits (batch_of vs) (inputs_of vs) (Rank3 rows) = Inr (concat (real_rows vs rows))"
  using select_mask_of [OF assms] real_rows_lengths [OF assms]
  by (simp add: pack_logits_def length_concat comp_def num_tokens_def)

section \<open>Contexts\<close>

lemma fold_set_context: "fold (\<lambda>c ctx. ctx(c \<mapsto> x)) cs ctx = (\<lambda>c. if c \<in> set cs then Some x else ctx c)"
  by (induction cs arbitrary: ctx) auto

lemma fold_clear_context: "fold (\<lambda>c ctx. ctx(c := None)) cs ctx = (\<lambda>c. if c \<in> set cs then None else ctx c)"
  by (induction cs arbitrary: ctx) auto

lemma collect_paged_set:
  "set (collect_paged_classes cs acc) = set acc \<union>
     {c \<in> set cs. cls_name c \<in> set paged_class_names \<and> cls_sets c \<and> cls_clears c}"
  by (induction cs acc rule: collect_paged_classes.induct) auto

lemma engine_reads_cong:
  assumes "re_backend_getter e = re_backend_getter e'" and "re_backend_attrs e = re_backend_attrs e'"
    and "re_kv_block_size e = re_kv_block_size e'"
  shows "get_attention_backend e = get_attention_backend e'" and "resolve_block_size e = resolve_block_size e'"
  by (simp_all only: get_attention_backend_def resolve_block_size_def assms)

lemma advance_request_id_frame:
  "rs_context (snd (advance_request_id s)) = rs_context s"
  "rs_calls (snd (advance_request_id s)) = rs_calls s"
  "get_attention_backend (rs_engine (snd (advance_request_id s))) = get_attention_backend (rs_engine s)"
  "resolve_block_size (rs_engine (snd (advance_request_id s))) = resolve_block_size (rs_engine s)"
  by (simp_all add: advance_request_id_def Let_def get_attention_backend_def resolve_block_size_def
      split: option.splits)

lemma configure_expert_tracing_frame [simp]:
  "rs_context (configure_expert_tracing u n s) = rs_context s"
  "rs_calls (configure_expert_tracing u n s) = rs_calls s"
  "get_attention_backend (rs_engine (configure_expert_tracing u n s)) = get_attention_backend (rs_engine s)"
  "resolve_block_size (rs_engine (configure_expert_tracing u n s)) = resolve_block_size (rs_engine s)"
  "re_request_id (rs_engine (configure_expert_tracing u n s)) = re_request_id (rs_engine s)"
  "re_generates_ids (rs_engine (configure_expert_tracing u n s)) = re_generates_ids (rs_engine s)"
  by (simp_all add: configure_expert_tracing_def Let_def case_prod_unfold)
    (rule engine_reads_cong; simp)+

text \<open>
  The attributes a run starts from: what the context of the paged attention
  classes is while the model runs.
\<close>

definition run_context :: "'r runner_model \<Rightarrow> runner_engine \<Rightarrow> batch_metadata \<Rightarrow> paged_context \<Rightarrow> paged_context result" where
  "run_context m e b ctx =
     (case get_attention_backend e of
        None \<Rightarrow> Inr ctx
      | Some bk \<Rightarrow>
          if get_paged_attention_classes m = [] then Inr ctx
          else map_sum id (\<lambda>meta c. if c \<in> set (get_paged_attention_classes m) then Some (bk, meta) else ctx c)
                 (build_runtime_attention_metadata e b))"

lemma run_model_eq:
  "run_model m fwd b mi past s =
     (case run_context m (rs_engine s) b (rs_context s) of
        Inl e \<Rightarrow> (Inl e, s)
      | Inr ctx \<Rightarrow>
          (let c = \<lparr>fc_inputs = mi, fc_past = past, fc_context = ctx\<rparr>
           in (fwd (length (rs_calls s)) c,
               s\<lparr>rs_calls := rs_calls s @ [c],
                 rs_context := (\<lambda>c. if get_attention_backend (rs_engine s) \<noteq> None \<and>
                   c \<in> set (get_paged_attention_classes m) then None else rs_context s c)\<rparr>)))"
  by (auto simp: run_model_def run_context_def call_forward_def Let_def clear_paged_context_def set_paged_context_def
      fold_set_context fold_clear_context cong: if_cong split: option.splits sum.splits)

lemma build_metadata_cong:
  "resolve_block_size e = resolve_block_size e' \<Longrightarrow>
   build_runtime_attention_metadata e b = build_runtime_attention_metadata e' b"
  by (simp add: build_runtime_attention_metadata_def)

lemma run_context_cong:
  assumes "resolve_block_size e = resolve_block_size e'" and "get_attention_backend e = get_attention_backend e'"
  shows "run_context m e b ctx = run_context m e' b ctx"
  by (simp only: run_context_def assms(2) build_metadata_cong [OF assms(1)])

lemma advance_ok:
  assumes "re_request_id (rs_engine s) \<noteq> None \<or> \<not> re_generates_ids (rs_engine s)"
  shows "\<exists>s1. advance_request_id (configure_expert_tracing u n s) = (Inr (), s1) \<and>
    rs_context s1 = rs_context s \<and> rs_calls s1 = rs_calls s \<and>
    get_attention_backend (rs_engine s1) = get_attention_backend (rs_engine s) \<and>
    (\<forall>m b ctx. run_context m (rs_engine s1) b ctx = run_context m (rs_engine s) b ctx)"
proof -
  let ?s0 = "configure_expert_tracing u n s"
  obtain s1 where s1: "advance_request_id ?s0 = (Inr (), s1)"
    using assms by (cases "re_request_id (rs_engine s)") (simp_all add: advance_request_id_def Let_def)
  with advance_request_id_frame [of ?s0] have "rs_context s1 = rs_context s" "rs_calls s1 = rs_calls s"
      "get_attention_backend (rs_engine s1) = get_attention_backend (rs_engine s)"
      "resolve_block_size (rs_engine s1) = resolve_block_size (rs_engine s)" by simp_all
  with run_context_cong s1 show ?thesis by metis
qed

section \<open>Slots\<close>

definition view_slot :: "int \<Rightarrow> int list \<Rightarrow> int \<Rightarrow> int" where
  "view_slot bs bt p = bt ! nat (p div bs) * bs + p mod bs"

definition covered :: "int \<Rightarrow> seq_view \<Rightarrow> bool" where
  "covered bs v \<longleftrightarrow> v_tokens v = [] \<or> v_context v + int (length (v_tokens v)) \<le> int (length (v_blocks v)) * bs"

lemma div_less_length:
  assumes "0 < (bs::int)"
  shows "p div bs < n \<longleftrightarrow> p < n * bs"
proof -
  have eq: "p div bs * bs + p mod bs = p" and m: "0 \<le> p mod bs" "p mod bs < bs" using assms by simp_all
  show ?thesis
  proof
    assume "p div bs < n"
    then have "(p div bs + 1) * bs \<le> n * bs" using assms by (intro mult_right_mono) simp_all
    with eq m show "p < n * bs" unfolding distrib_right by linarith
  next
    assume "p < n * bs"
    with eq m have "p div bs * bs < n * bs" by linarith
    then show "p div bs < n" using assms by (simp add: mult_less_cancel_right)
  qed
qed

lemma token_slots_eq:
  assumes bs: "0 < bs" and "\<forall>p \<in> set ps. 0 \<le> p"
  shows "token_slots bs bt ps acc =
    (if \<forall>p \<in> set ps. p < int (length bt) * bs then Inr (acc @ map (view_slot bs bt) ps) else Inl ValueError)"
  using assms(2)
proof (induction ps arbitrary: acc)
  case (Cons p ps)
  show ?case
  proof (cases "p < int (length bt) * bs")
    case True
    with bs have lt: "p div bs < int (length bt)" by (simp add: div_less_length)
    have "0 \<le> p div bs" using Cons.prems bs by (simp add: pos_imp_zdiv_nonneg_iff)
    with lt have "py_subscript bt (p div bs) = Inr (bt ! nat (p div bs))" by (simp add: py_subscript_def)
    with lt True Cons show ?thesis by (simp add: Let_def view_slot_def)
  next
    case False
    with bs have "\<not> p div bs < int (length bt)" by (simp add: div_less_length)
    with False show ?thesis by auto
  qed
qed simp

lemma view_slots:
  assumes "0 < bs" and "0 \<le> v_context v"
  shows "token_slots bs (v_blocks v) (view_positions v) acc =
    (if covered bs v then Inr (acc @ map (view_slot bs (v_blocks v)) (view_positions v)) else Inl ValueError)"
proof -
  have "(\<forall>p \<in> set (view_positions v). p < int (length (v_blocks v)) * bs) \<longleftrightarrow> covered bs v"
  proof (cases "v_tokens v = []")
    case False
    then have last: "v_context v + int (length (v_tokens v)) - 1 \<in> set (view_positions v)"
      by (cases "v_tokens v") (simp_all add: view_positions_def)
    show ?thesis
    proof
      assume "\<forall>p \<in> set (view_positions v). p < int (length (v_blocks v)) * bs"
      with last have "v_context v + int (length (v_tokens v)) - 1 < int (length (v_blocks v)) * bs" by blast
      then show "covered bs v" by (simp add: covered_def)
    qed (use False in \<open>auto simp: covered_def view_positions_def\<close>)
  qed (simp add: covered_def view_positions_def)
  moreover have "\<forall>p \<in> set (view_positions v). 0 \<le> p" using assms(2) by (simp add: view_positions_def)
  ultimately show ?thesis using token_slots_eq [OF assms(1)] by simp
qed

definition view_slots_of :: "int \<Rightarrow> seq_view \<Rightarrow> int list" where
  "view_slots_of bs v = map (view_slot bs (v_blocks v)) (view_positions v)"

lemma slot_mapping_from:
  assumes bs: "0 < bs" and pos: "\<forall>v \<in> set vs. 0 \<le> v_context v" and "k \<le> length vs"
  shows "slot_mapping_loop (batch_of vs) bs (map (\<lambda>i. (i, length (v_tokens (vs ! i)))) [k..<length vs]) acc =
    (if \<forall>v \<in> set (drop k vs). covered bs v then Inr (acc @ concat (map (view_slots_of bs) (drop k vs)))
     else Inl ValueError)"
  using assms(3)
proof (induction arbitrary: acc rule: inc_induct)
  case (step k)
  from step.hyps have v: "vs ! k \<in> set vs" by simp
  have d: "drop k vs = vs ! k # drop (Suc k) vs" using step.hyps(2) by (rule Cons_nth_drop_Suc [symmetric])
  have p: "[v_context (vs ! k)..v_context (vs ! k) + int (length (v_tokens (vs ! k))) - 1] = view_positions (vs ! k)"
    by (simp add: view_positions_def)
  show ?case
    using step view_slots [OF bs, of "vs ! k" acc] pos v
    by (simp add: upt_conv_Cons rbind_nth_def d p view_slots_of_def)
qed simp

lemma build_slot_mapping_of:
  assumes "0 < bs" and "\<forall>v \<in> set vs. 0 \<le> v_context v"
  shows "build_slot_mapping (batch_of vs) bs =
    (if \<forall>v \<in> set vs. covered bs v then Inr (concat (map (view_slots_of bs) vs)) else Inl ValueError)"
proof -
  have "zip [0..<length vs] (map (length \<circ> v_tokens) vs) = map (\<lambda>i. (i, length (v_tokens (vs ! i)))) [0..<length vs]"
    by (rule nth_equalityI) simp_all
  with slot_mapping_from [OF assms, of 0 "[]"] show ?thesis by (simp add: build_slot_mapping_def)
qed

lemma view_slot_block:
  assumes "0 < bs"
  shows "view_slot bs bt p div bs = bt ! nat (p div bs)" and "view_slot bs bt p mod bs = p mod bs"
  using assms by (simp_all add: view_slot_def)

lemma view_slots_of_blocks:
  assumes "0 < bs" and "0 \<le> v_context v" and "covered bs v" and "x \<in> set (view_slots_of bs v)"
  shows "x div bs \<in> set (v_blocks v)"
proof -
  from assms(4) obtain p where p: "x = view_slot bs (v_blocks v) p" "p \<in> set (view_positions v)"
    by (auto simp: view_slots_of_def)
  with assms have "0 \<le> p" "p < int (length (v_blocks v)) * bs"
    by (auto simp: view_positions_def covered_def)
  with assms(1) have "nat (p div bs) < length (v_blocks v)"
    by (simp add: div_less_length [symmetric] pos_imp_zdiv_nonneg_iff nat_less_iff)
  with p view_slot_block(1) [OF assms(1)] show ?thesis by simp
qed

lemma distinct_view_slots:
  assumes bs: "0 < bs" and "0 \<le> v_context v" and "covered bs v" and "distinct (v_blocks v)"
  shows "distinct (view_slots_of bs v)"
proof -
  have "inj_on (view_slot bs (v_blocks v)) (set (view_positions v))"
  proof (rule inj_onI)
    fix p q assume pq: "p \<in> set (view_positions v)" "q \<in> set (view_positions v)"
      and eq: "view_slot bs (v_blocks v) p = view_slot bs (v_blocks v) q"
    with assms have "0 \<le> p" "p < int (length (v_blocks v)) * bs" "0 \<le> q" "q < int (length (v_blocks v)) * bs"
      by (auto simp: view_positions_def covered_def)
    with bs have "nat (p div bs) < length (v_blocks v)" "nat (q div bs) < length (v_blocks v)"
        "0 \<le> p div bs" "0 \<le> q div bs"
      by (simp_all add: div_less_length [symmetric] pos_imp_zdiv_nonneg_iff nat_less_iff)
    moreover have "v_blocks v ! nat (p div bs) = v_blocks v ! nat (q div bs)" and m: "p mod bs = q mod bs"
      using eq view_slot_block [OF bs] by metis+
    ultimately have "p div bs = q div bs" using assms(4) by (simp add: nth_eq_iff_index_eq)
    with m show "p = q" by (metis mult_div_mod_eq)
  qed
  then show ?thesis by (simp add: view_slots_of_def distinct_map view_positions_def)
qed

lemma distinct_batch_slots:
  assumes bs: "0 < bs" and "\<forall>v \<in> set vs. 0 \<le> v_context v \<and> covered bs v"
    and "distinct (concat (map v_blocks vs))"
  shows "distinct (concat (map (view_slots_of bs) vs))"
  using assms(2,3)
proof (induction vs)
  case (Cons v vs)
  have "set (view_slots_of bs v) \<inter> set (concat (map (view_slots_of bs) vs)) = {}"
  proof (rule ccontr)
    assume "\<not> ?thesis"
    then obtain x u where x: "x \<in> set (view_slots_of bs v)" "u \<in> set vs" "x \<in> set (view_slots_of bs u)" by auto
    with Cons.prems have "x div bs \<in> set (v_blocks v)" "x div bs \<in> set (v_blocks u)"
      by (auto intro: view_slots_of_blocks [OF bs])
    with x(2) Cons.prems(2) show False by auto
  qed
  with Cons distinct_view_slots [OF bs] show ?case by simp
qed simp

section \<open>Batches of the scheduler\<close>

lemma tables_disjoint:
  assumes "distinct (concat (map (f \<circ> snd) d))" and "map_of d i = Some t"
  shows "distinct (f t) \<and> (\<forall>j u. map_of d j = Some u \<longrightarrow> i \<noteq> j \<longrightarrow> set (f t) \<inter> set (f u) = {})"
  using assms
proof (induction d)
  case (Cons p d)
  have mem: "set (f u) \<subseteq> set (concat (map (f \<circ> snd) d))" if "map_of d k = Some u" for k u
    using that by (force dest: map_of_SomeD)
  from Cons.prems(1) have dis: "set (f (snd p)) \<inter> set (concat (map (f \<circ> snd) d)) = {}" "distinct (f (snd p))"
    and d: "distinct (concat (map (f \<circ> snd) d))" by (auto simp: comp_def)
  show ?case
  proof (cases "fst p = i")
    case True
    with Cons.prems have "t = snd p" by simp
    with dis mem True show ?thesis by (fastforce split: if_splits)
  next
    case False
    with Cons.prems have t: "map_of d i = Some t" by simp
    from Cons.IH [OF d t] dis mem [OF t] show ?thesis by (fastforce split: if_splits)
  qed
qed simp

lemma map_result_all: "map_result f xs = Inr ys \<Longrightarrow> (\<And>x y. f x = Inr y \<Longrightarrow> P y) \<Longrightarrow> \<forall>y \<in> set ys. P y"
  by (induction xs arbitrary: ys) (auto split: sum.splits)

lemma scheduler_output_views:
  assumes "from_scheduler_output out objs kv = Inr b"
  shows "\<exists>vs. b = batch_of vs \<and> map v_id vs = prefill_seq_ids out @ decode_seq_ids out \<and>
    (\<forall>v \<in> set vs. pk_get_block_table (v_id v) kv = Inr (v_blocks v))"
proof -
  from assms obtain ps ds where
    v: "map_result (prefill_view objs kv) (prefill_seq_ids out) = Inr ps"
       "map_result (decode_view objs kv) (decode_seq_ids out) = Inr ds" and b: "b = batch_of (ps @ ds)"
    by (auto simp: from_scheduler_output_def check_batch_of split: sum.splits)
  let ?ok = "\<lambda>v. pk_get_block_table (v_id v) kv = Inr (v_blocks v)"
  have p: "v_id v = sid \<and> ?ok v" if "prefill_view objs kv sid = Inr v" for sid v
    using that by (auto simp: prefill_view_def split: option.splits sum.splits)
  have d: "v_id v = sid \<and> ?ok v" if "decode_view objs kv sid = Inr v" for sid v
    using that by (auto simp: decode_view_def Let_def split: option.splits sum.splits)
  have "map v_id ps = prefill_seq_ids out" by (rule map_result_ids [OF v(1)]) (simp add: p)
  moreover have "map v_id ds = decode_seq_ids out" by (rule map_result_ids [OF v(2)]) (simp add: d)
  moreover have "\<forall>v \<in> set ps. ?ok v" by (rule map_result_all [OF v(1)]) (use p in blast)
  moreover have "\<forall>v \<in> set ds. ?ok v" by (rule map_result_all [OF v(2)]) (use d in blast)
  ultimately show ?thesis using b by (intro exI [of _ "ps @ ds"]) auto
qed

lemma views_blocks_distinct:
  assumes "pk_ok E kv" and "distinct (map v_id vs)"
    and "\<forall>v \<in> set vs. pk_get_block_table (v_id v) kv = Inr (v_blocks v)"
  shows "distinct (concat (map v_blocks vs))"
  using assms(2,3)
proof (induction vs)
  case (Cons v vs)
  have tab: "distinct (concat (map (bt_ids \<circ> snd) (pk_tables kv)))"
    using assms(1) unfolding pk_ok_def held_concat by (metis own_distinct)
  have look: "\<exists>t. map_of (pk_tables kv) (v_id u) = Some t \<and> bt_ids t = v_blocks u" if "u \<in> set (v # vs)" for u
    using Cons.prems(2) that by (fastforce simp: pk_get_block_table_def split: option.splits)
  from look obtain t where t: "map_of (pk_tables kv) (v_id v) = Some t" "bt_ids t = v_blocks v" by auto
  note dis = tables_disjoint [OF tab t(1)]
  have "set (v_blocks v) \<inter> set (v_blocks u) = {}" if "u \<in> set vs" for u
  proof -
    from look that obtain t' where "map_of (pk_tables kv) (v_id u) = Some t'" "bt_ids t' = v_blocks u" by auto
    moreover have "v_id v \<noteq> v_id u" using Cons.prems(1) that by (auto simp: image_iff)
    ultimately show ?thesis using dis t(2) by metis
  qed
  with Cons dis t(2) show ?case by auto
qed simp

section \<open>Properties of the runner\<close>

lemma inputs_of_nth:
  assumes "i < length vs" and "j < length (v_tokens (vs ! i))"
  shows "mi_input_ids (inputs_of vs) ! i ! j = v_tokens (vs ! i) ! j"
    and "mi_position_ids (inputs_of vs) ! i ! j = v_context (vs ! i) + int j"
  using assms by (simp_all add: inputs_of_def padded_def nth_append view_positions_def)

lemma batch_of_token:
  assumes "i < length vs" and "j < length (v_tokens (vs ! i))"
  shows "input_token_ids (batch_of vs) ! (token_offsets (batch_of vs) ! i + j) = v_tokens (vs ! i) ! j"
  using assms concat_nth_offset [of i "map v_tokens vs" j]
  by (simp add: batch_of_def offsets_from_nth comp_def)

lemma batch_of_offset:
  "i \<le> length vs \<Longrightarrow> token_offsets (batch_of vs) ! i = sum_list (take i (map (length \<circ> v_tokens) vs))"
  by (simp add: batch_of_def offsets_from_nth)

lemma real_rows_nth:
  assumes "map length rows = map length (mi_input_ids (inputs_of vs))"
    and "i < length vs" and "j < length (v_tokens (vs ! i))"
  shows "concat (real_rows vs rows) ! (token_offsets (batch_of vs) ! i + j) = rows ! i ! j"
proof -
  have len: "length rows = length vs"
    using assms(1) unfolding inputs_of_lengths by (metis length_map length_replicate)
  note rl = real_rows_lengths [OF assms(1)]
  then have "length (real_rows vs rows ! i) = length (v_tokens (vs ! i))" "i < length (real_rows vs rows)"
    using assms(2) len by (metis comp_apply length_map nth_map, simp add: real_rows_def)
  with concat_nth_offset [of i "real_rows vs rows" j] assms(2,3)
  have "concat (real_rows vs rows) ! (token_offsets (batch_of vs) ! i + j) = real_rows vs rows ! i ! j"
    unfolding rl by (simp add: batch_of_offset)
  also have "\<dots> = rows ! i ! j" using assms(2,3) len by (simp add: real_rows_def)
  finally show ?thesis .
qed

text \<open>
  C15: A model that returns one row of logits per position of its padded input is run
  once, and the packed rows that come back are aligned with the packed tokens:
  the row of the \<open>j\<close>-th new token of the \<open>i\<close>-th sequence is what the model
  returned at \<open>(i, j)\<close>, where it was given that very token at the position
  \<open>context_length + j\<close>; padding contributes no row.
\<close>

theorem runner_execute_aligned:
  assumes "check_batch b = Inr b" and "0 < total_tokens b" and "md_forward m = Some fwd"
    and "\<And>k c. \<exists>out. fwd k c = Inr out \<and> extract_logits out = Inr (Rank3 (L k c))"
    and "\<And>k c. map length (L k c) = map length (mi_input_ids (fc_inputs c))"
    and "re_request_id (rs_engine s) \<noteq> None \<or> \<not> re_generates_ids (rs_engine s)"
    and "run_context m (rs_engine s) b (rs_context s) = Inr ctx"
  shows "\<exists>c rows s'. runner_execute m uuid b past s = (Inr rows, s') \<and> rs_calls s' = rs_calls s @ [c] \<and>
    length rows = total_tokens b \<and>
    (\<forall>i < length (seq_ids b). \<forall>j < seq_lengths b ! i.
       rows ! (token_offsets b ! i + j) = L (length (rs_calls s)) c ! i ! j \<and>
       mi_input_ids (fc_inputs c) ! i ! j = input_token_ids b ! (token_offsets b ! i + j) \<and>
       mi_position_ids (fc_inputs c) ! i ! j = context_lengths b ! i + int j)"
proof -
  obtain vs where b: "b = batch_of vs" using batch_of_views(1) [OF assms(1)] by metis
  from advance_ok [OF assms(6)] obtain s1 where
    s1: "advance_request_id (configure_expert_tracing uuid (length (seq_ids b)) s) = (Inr (), s1)"
      "rs_context s1 = rs_context s" "rs_calls s1 = rs_calls s"
      "run_context m (rs_engine s1) b (rs_context s1) = Inr ctx" using assms(7) by metis
  define c where "c = \<lparr>fc_inputs = inputs_of vs, fc_past = past, fc_context = ctx\<rparr>"
  define rows where "rows = L (length (rs_calls s)) c"
  have len: "map length rows = map length (mi_input_ids (inputs_of vs))"
    unfolding rows_def assms(5) by (simp add: c_def)
  obtain out where out: "fwd (length (rs_calls s)) c = Inr out" "extract_logits out = Inr (Rank3 rows)"
    using assms(4) rows_def by blast
  obtain s' where run: "run_model m fwd b (inputs_of vs) past s1 = (Inr out, s')" "rs_calls s' = rs_calls s @ [c]"
    using s1 out(1) by (simp add: run_model_eq c_def Let_def)
  have "runner_execute m uuid b past s = (pack_logits b (inputs_of vs) (Rank3 rows), s')"
    using s1(1) assms(2,3) run(1) out(2) by (simp add: runner_execute_def b prepare_inputs_of)
  then have ex: "runner_execute m uuid b past s = (Inr (concat (real_rows vs rows)), s')"
    using pack_logits_of [OF len] b by simp
  have "length (concat (real_rows vs rows)) = total_tokens b"
    using real_rows_lengths [OF len] by (simp add: b length_concat num_tokens_def)
  moreover have "concat (real_rows vs rows) ! (token_offsets b ! i + j) = rows ! i ! j \<and>
      mi_input_ids (fc_inputs c) ! i ! j = input_token_ids b ! (token_offsets b ! i + j) \<and>
      mi_position_ids (fc_inputs c) ! i ! j = context_lengths b ! i + int j"
    if "i < length (seq_ids b)" "j < seq_lengths b ! i" for i j
    using that real_rows_nth [OF len, of i j] inputs_of_nth [of i vs j] batch_of_token [of i vs j]
    by (simp add: b c_def)
  ultimately show ?thesis using ex run(2) rows_def by blast
qed

definition example_batch :: batch_metadata where
  "example_batch = batch_of
     [\<lparr>v_id = 1, v_tokens = [5, 6], v_context = 0, v_prefill = True, v_blocks = [3], v_params = default_sampling_params\<rparr>,
      \<lparr>v_id = 2, v_tokens = [9], v_context = 4, v_prefill = False, v_blocks = [0, 2, 1], v_params = default_sampling_params\<rparr>]"

text \<open>A model that answers with the token and the position it was given.\<close>

definition echo_rows :: "nat \<Rightarrow> forward_call \<Rightarrow> (int \<times> int) list list" where
  "echo_rows k c = map (\<lambda>xs. map (\<lambda>x. (x, 0)) xs) (mi_input_ids (fc_inputs c))"

definition echo_model :: "(int \<times> int) runner_model" where
  "echo_model = \<lparr>md_modules = Some [\<lparr>cls_ref = 0, cls_name = ''DeepseekV3PagedAttention'', cls_sets = True, cls_clears = True\<rparr>],
     md_config_vocab_size = Some 10, md_vocab_size = None,
     md_forward = Some (\<lambda>k c. Inr \<lparr>mo_logits = Some (TensorObj (Rank3 (echo_rows k c))), mo_items = None, mo_tuple = None\<rparr>)\<rparr>"

definition example_runner :: runner_state where
  "example_runner = \<lparr>rs_engine = \<lparr>re_tracer = None, re_expert_layers = [Some []], re_generates_ids = True,
       re_request_id = Some 0, re_kv_block_size = Some 2,
       re_backend_getter = Some (Some \<lparr>bk_ref = 0, bk_spec_block_size = Some 2\<rparr>), re_backend_attrs = []\<rparr>,
     rs_seq_id_list = [], rs_context = Map.empty, rs_calls = []\<rparr>"

lemma example_run_context:
  "\<exists>ctx. run_context echo_model (rs_engine example_runner) example_batch (rs_context example_runner) = Inr ctx"
  by (simp add: run_context_def example_runner_def example_batch_def batch_of_def echo_model_def
      get_attention_backend_def get_paged_attention_classes_def paged_class_names_def
      build_runtime_attention_metadata_def resolve_block_size_def positive_int_def build_slot_mapping_def
      rbind_nth_def py_subscript_def upto_rec1)

theorem runner_execute_aligned_witness:
  "\<exists>rows s'. runner_execute echo_model (\<lambda>_. []) example_batch None example_runner = (Inr rows, s') \<and>
     length rows = 3"
proof -
  have b: "check_batch example_batch = Inr example_batch" unfolding example_batch_def by (rule check_batch_of)
  obtain ctx where ctx: "run_context echo_model (rs_engine example_runner) example_batch (rs_context example_runner) = Inr ctx"
    using example_run_context ..
  have t: "0 < total_tokens example_batch" by (simp add: example_batch_def)
  let ?fwd = "\<lambda>k c. Inr \<lparr>mo_logits = Some (TensorObj (Rank3 (echo_rows k c))), mo_items = None, mo_tuple = None\<rparr>"
  have "\<exists>c rows s'. runner_execute echo_model (\<lambda>_. []) example_batch None example_runner = (Inr rows, s') \<and>
      length rows = total_tokens example_batch"
    using runner_execute_aligned [OF b t, of echo_model ?fwd echo_rows example_runner ctx "\<lambda>_. []" None] ctx
    by (auto simp: echo_model_def extract_logits_def echo_rows_def example_runner_def comp_def)
  then show ?thesis by (simp add: example_batch_def numeral_3_eq_3)
qed

text \<open>
  C14: In every state the serving scheduler can reach, the batch built from what it
  scheduled gives every token a slot of its own in a block of its own sequence,
  at the offset of its position, if the block tables are long enough; the
  attention of one sequence never overwrites the pages of another. If a table
  is too short the runner raises \<^verbatim>\<open>ValueError\<close>.
\<close>

theorem scheduled_slots_exclusive:
  assumes "sv_reach s" and "sv_schedule cp s = (Inr out, s')"
    and "from_scheduler_output out objs (sv_kv s') = Inr b"
    and "0 < bs" and "\<forall>c \<in> set (context_lengths b). 0 \<le> c"
  shows "if \<forall>i < length (seq_ids b). seq_lengths b ! i = 0 \<or>
           context_lengths b ! i + int (seq_lengths b ! i) \<le> int (length (block_tables b ! i)) * bs
     then \<exists>slots. build_slot_mapping b bs = Inr slots \<and> length slots = total_tokens b \<and> distinct slots \<and>
       (\<forall>i < length (seq_ids b). \<forall>j < seq_lengths b ! i.
          slots ! (token_offsets b ! i + j) div bs \<in> set (block_tables b ! i) \<and>
          slots ! (token_offsets b ! i + j) mod bs = (context_lengths b ! i + int j) mod bs)
     else build_slot_mapping b bs = Inl ValueError"
proof -
  from schedule_spec [OF sv_reach_ok [OF assms(1)], of cp] assms(2)
  have s': "sv_ok {#} s'" "batch_ok s' out" by auto
  from scheduler_output_views [OF assms(3)] obtain vs where
    b: "b = batch_of vs" and ids: "map v_id vs = prefill_seq_ids out @ decode_seq_ids out"
    and tab: "\<forall>v \<in> set vs. pk_get_block_table (v_id v) (sv_kv s') = Inr (v_blocks v)" by blast
  have dis: "distinct (concat (map v_blocks vs))"
    using s' ids by (intro views_blocks_distinct [OF _ _ tab, of "{#}"]) (auto simp: sv_ok_def batch_ok_def)
  have pos: "\<forall>v \<in> set vs. 0 \<le> v_context v" using assms(5) by (simp add: b)
  have cov: "(\<forall>i < length (seq_ids b). seq_lengths b ! i = 0 \<or>
      context_lengths b ! i + int (seq_lengths b ! i) \<le> int (length (block_tables b ! i)) * bs) \<longleftrightarrow>
      (\<forall>v \<in> set vs. covered bs v)"
    by (auto simp: b covered_def all_set_conv_all_nth)
  show ?thesis
  proof (cases "\<forall>v \<in> set vs. covered bs v")
    case True
    let ?sl = "map (view_slots_of bs) vs"
    have len: "map length ?sl = map (length \<circ> v_tokens) vs" by (simp add: view_slots_of_def)
    have "concat ?sl ! (token_offsets b ! i + j) = view_slot bs (v_blocks (vs ! i)) (v_context (vs ! i) + int j)"
      and "view_slot bs (v_blocks (vs ! i)) (v_context (vs ! i) + int j) \<in> set (view_slots_of bs (vs ! i))"
      if "i < length vs" "j < length (v_tokens (vs ! i))" for i j
      using that concat_nth_offset [of i ?sl j] unfolding len
      by (simp_all add: b batch_of_offset view_slots_of_def view_positions_def)
    then have "concat ?sl ! (token_offsets b ! i + j) div bs \<in> set (block_tables b ! i) \<and>
        concat ?sl ! (token_offsets b ! i + j) mod bs = (context_lengths b ! i + int j) mod bs"
      if "i < length (seq_ids b)" "j < seq_lengths b ! i" for i j
      using that True pos view_slots_of_blocks [OF assms(4)] view_slot_block(2) [OF assms(4)] by (simp add: b)
    moreover have "length (concat ?sl) = total_tokens b"
      by (simp add: b length_concat len num_tokens_def del: map_map)
    moreover have "distinct (concat ?sl)" using distinct_batch_slots [OF assms(4) _ dis] pos True by blast
    ultimately show ?thesis
      using build_slot_mapping_of [OF assms(4) pos] True cov by (auto simp: b)
  qed (use build_slot_mapping_of [OF assms(4) pos] cov in \<open>auto simp: b\<close>)
qed

text \<open>One request with a prompt of one token, over blocks of two tokens: before and after its prefill.\<close>

definition one_request :: "nat serving_scheduler" where
  "one_request = snd (sv_add_request ''b'' [example_seq 2 [9]] example_init)"

definition after_prefill :: "nat serving_scheduler" where
  "after_prefill =
     (let s = snd (sv_schedule None one_request)
      in snd (update_after_step [] [2] (s\<lparr>sv_heap := (sv_heap s)(2 := snd (append_output_token 7 (sv_heap s 2)))\<rparr>)))"

definition heap_dict :: "'d serving_scheduler \<Rightarrow> sequence_dict" where
  "heap_dict s = (\<lambda>i. Some (sv_heap s i))"

lemma one_request_reach: "sv_reach one_request"
proof -
  have "sv_reach example_init"
    by (rule sv_reach.init [OF example_kv_init, of "\<lambda>i. example_seq i []" 8 64]) (simp add: sv_init_def example_init_def)
  then show ?thesis unfolding one_request_def
    by (rule sv_reach.add [where r = "fst (sv_add_request ''b'' [example_seq 2 [9]] example_init)"]) auto
qed

theorem scheduled_slots_exclusive_witness:
  "\<exists>b slots. from_scheduler_output (projr (fst (sv_schedule None one_request)))
       (heap_dict one_request) (sv_kv (snd (sv_schedule None one_request))) = Inr b \<and>
     build_slot_mapping b 2 = Inr slots \<and> length slots = 1 \<and> distinct slots"
proof -
  let ?out = "projr (fst (sv_schedule None one_request))" and ?s = "snd (sv_schedule None one_request)"
  let ?b = "projr (from_scheduler_output ?out (heap_dict one_request) (sv_kv ?s))"
  have "\<not> isl (fst (sv_schedule None one_request))" by code_simp
  then have e: "sv_schedule None one_request = (Inr ?out, ?s)" by (simp add: prod_eq_iff)
  have "\<not> isl (from_scheduler_output ?out (heap_dict one_request) (sv_kv ?s))" by code_simp
  then have b: "from_scheduler_output ?out (heap_dict one_request) (sv_kv ?s) = Inr ?b" by simp
  have c: "\<forall>c \<in> set (context_lengths ?b). 0 \<le> c" by code_simp
  have l: "\<forall>i < length (seq_ids ?b). seq_lengths ?b ! i = 0 \<or>
      context_lengths ?b ! i + int (seq_lengths ?b ! i) \<le> int (length (block_tables ?b ! i)) * 2" by code_simp
  have "total_tokens ?b = 1" by code_simp
  with scheduled_slots_exclusive [OF one_request_reach e b _ c, of 2] l b show ?thesis by auto
qed

text \<open>
  C39: \<^verbatim>\<open>append_output_token\<close> counts the token it appends as computed although the model
  has not seen it yet, so the next decode step runs that token one position too
  far: the token at index \<open>n - 1\<close> gets position \<open>n\<close> and the slot of position \<open>n\<close>,
  position \<open>n - 1\<close> is never written, and when the \<open>n\<close> tokens fill the block table
  exactly the runner raises \<^verbatim>\<open>ValueError\<close> because there is no such slot.
\<close>

theorem decode_position_off_by_one:
  assumes "append_output_token tok q = (Inr (), q')" and "objs sid = Some q'"
    and "pk_get_block_table sid kv = Inr bt" and "0 < bs" and "n = int (length (total_token_ids q'))"
  shows "\<exists>v mi. decode_view objs kv sid = Inr v \<and> prepare_inputs (batch_of [v]) = Inr mi \<and>
    mi_input_ids mi = [[total_token_ids q' ! nat (n - 1)]] \<and> mi_position_ids mi = [[n]] \<and>
    (int (length bt) * bs = n \<longrightarrow> build_slot_mapping (batch_of [v]) bs = Inl ValueError)"
proof -
  have q': "sequence_data.output_token_ids q' = sequence_data.output_token_ids q @ [tok]" "num_computed_tokens q' = n"
    "total_token_ids q' = sequence_data.prompt_token_ids q' @ sequence_data.output_token_ids q @ [tok]"
    using assms(1,5) by (auto simp: append_output_token_def Let_def total_token_ids_def split: if_splits)
  define v where "v = \<lparr>v_id = sid, v_tokens = [tok], v_context = n, v_prefill = False, v_blocks = bt,
      v_params = seq_sampling_params q'\<rparr>"
  have n: "n = int (length (sequence_data.prompt_token_ids q') + length (sequence_data.output_token_ids q)) + 1" using assms(5) q'(3) by simp
  then have "nat (n - 1) = length (sequence_data.prompt_token_ids q' @ sequence_data.output_token_ids q)" by simp
  then have tok: "total_token_ids q' ! nat (n - 1) = tok"
    using nth_append_length [of "sequence_data.prompt_token_ids q' @ sequence_data.output_token_ids q" tok "[]"]
    by (simp only: q'(3) append_assoc)
  have "decode_view objs kv sid = Inr v"
    using assms(2,3) q'(2,3) by (simp add: decode_view_def slice_from_def v_def)
  moreover have "prepare_inputs (batch_of [v]) = Inr (inputs_of [v])" by (rule prepare_inputs_of)
  moreover have "mi_input_ids (inputs_of [v]) = [[tok]]" "mi_position_ids (inputs_of [v]) = [[n]]"
    by (simp_all add: inputs_of_def padded_def batch_width_def view_positions_def v_def)
  moreover have "build_slot_mapping (batch_of [v]) bs = Inl ValueError" if "int (length bt) * bs = n"
    using build_slot_mapping_of [OF assms(4), of "[v]"] that n by (simp add: v_def covered_def)
  ultimately show ?thesis using tok by auto
qed

theorem decode_position_off_by_one_witness:
  "sv_reach after_prefill \<and>
   (let s = snd (sv_schedule None after_prefill)
    in decode_seq_ids (projr (fst (sv_schedule None after_prefill))) = [2] \<and>
       (\<exists>v. decode_view (heap_dict s) (sv_kv s) 2 = Inr v \<and> build_slot_mapping (batch_of [v]) 2 = Inl ValueError))"
proof -
  define s0 where "s0 = snd (sv_schedule None one_request)"
  define q where "q = sv_heap s0 2"
  define s1 where "s1 = s0\<lparr>sv_heap := (sv_heap s0)(2 := snd (append_output_token 7 q))\<rparr>"
  have r0: "sv_reach s0" unfolding s0_def
    by (rule sv_reach.schedule [OF one_request_reach]) (rule prod.collapse [symmetric])
  then have r1: "sv_reach s1" unfolding s1_def q_def
    by (rule sv_reach.token) (rule prod.collapse [symmetric])
  have "fst (update_after_step [] [2] s1) = Inr ()" unfolding s1_def q_def s0_def by code_simp
  then have "update_after_step [] [2] s1 = (Inr (), after_prefill)"
    unfolding after_prefill_def Let_def s1_def q_def s0_def by (metis prod.collapse)
  then have reach: "sv_reach after_prefill" by (intro sv_reach.update [OF r1, of "[]" "[2]"]) simp_all
  let ?s = "snd (sv_schedule None after_prefill)"
  let ?q = "sv_heap ?s 2"
  have a: "append_output_token 7 (?q\<lparr>sequence_data.output_token_ids := []\<rparr>) = (Inr (), ?q)" by code_simp
  have h: "heap_dict ?s 2 = Some ?q" by (simp add: heap_dict_def)
  have t: "pk_get_block_table 2 (sv_kv ?s) = Inr [0]" by code_simp
  have "int (length (total_token_ids ?q)) = 2" by code_simp
  then have "\<exists>v. decode_view (heap_dict ?s) (sv_kv ?s) 2 = Inr v \<and> build_slot_mapping (batch_of [v]) 2 = Inl ValueError"
    using decode_position_off_by_one [OF a, of "heap_dict ?s" 2 "sv_kv ?s" "[0]" 2 2] h t by auto
  moreover have "decode_seq_ids (projr (fst (sv_schedule None after_prefill))) = [2]" by code_simp
  ultimately show ?thesis using reach by (simp add: Let_def)
qed

lemma runner_execute_cases:
  assumes "s1 = snd (advance_request_id (configure_expert_tracing uuid (length (seq_ids b)) s))"
  shows "snd (runner_execute m uuid b past s) = s1 \<or>
    (\<exists>fwd mi. snd (runner_execute m uuid b past s) = snd (run_model m fwd b mi past s1))"
proof -
  obtain r where adv: "advance_request_id (configure_expert_tracing uuid (length (seq_ids b)) s) = (r, s1)"
    using assms by (metis prod.collapse)
  have run: "snd (andthen x (\<lambda>out s1. case extract_logits out of Inl e \<Rightarrow> (Inl e, s1) | Inr t \<Rightarrow> (pack_logits b mi t, s1))) = snd x"
    for x :: "(runner_state, 'a model_output) outcome" and mi
    by (rule andthen_frame [of id, simplified]) (simp split: sum.splits)
  show ?thesis
  proof (cases "isl r \<or> total_tokens b = 0 \<or> isl (prepare_inputs b) \<or> md_forward m = None")
    case True
    then show ?thesis using adv
      by (cases r; cases "prepare_inputs b") (auto simp: runner_execute_def)
  next
    case False
    then obtain mi fwd where "r = Inr ()" "prepare_inputs b = Inr mi" "md_forward m = Some fwd" "total_tokens b \<noteq> 0"
      by (cases r; cases "prepare_inputs b") auto
    then have "snd (runner_execute m uuid b past s) = snd (run_model m fwd b mi past s1)"
      using adv by (simp add: runner_execute_def run)
    then show ?thesis by blast
  qed
qed

text \<open>
  Whatever raises on the way, after a run no paged attention class is left with
  a context; the model is called at most once, and while it runs every paged
  attention class has the same context, the backend with the metadata of this
  batch.
\<close>

theorem paged_context_scoped:
  assumes "rs_context s = Map.empty" and "s' = snd (runner_execute m uuid b past s)"
  shows "rs_context s' = Map.empty \<and>
    (rs_calls s' = rs_calls s \<or> (\<exists>c. rs_calls s' = rs_calls s @ [c] \<and>
       (\<forall>bk. get_attention_backend (rs_engine s) = Some bk \<longrightarrow>
          (\<exists>meta. \<forall>k. fc_context c k =
             (if k \<in> set (get_paged_attention_classes m) then Some (bk, meta) else None)))))"
proof -
  let ?s0 = "configure_expert_tracing uuid (length (seq_ids b)) s"
  define s1 where "s1 = snd (advance_request_id ?s0)"
  note fr = advance_request_id_frame [of ?s0, folded s1_def]
  from runner_execute_cases [OF s1_def, of m past] consider "s' = s1"
    | fwd mi where "s' = snd (run_model m fwd b mi past s1)"
    unfolding assms(2) by blast
  then show ?thesis
  proof cases
    case 1
    then show ?thesis using fr assms(1) by simp
  next
    case (2 fwd mi)
    then show ?thesis using fr assms(1)
      by (cases "build_runtime_attention_metadata (rs_engine s1) b")
        (auto simp: run_model_eq run_context_def Let_def split: option.splits if_splits)
  qed
qed

theorem paged_context_scoped_witness:
  "rs_context (snd (runner_execute echo_model (\<lambda>_. []) example_batch None example_runner)) = Map.empty"
proof -
  have "rs_context example_runner = Map.empty" by (simp add: example_runner_def)
  from paged_context_scoped [OF this refl] show ?thesis ..
qed

text \<open>
  The runner recognises paged attention by the names of two Deepseek classes
  that the repository does not have. For a model whose attention is the
  repository's only paged class, \<^verbatim>\<open>Qwen3PagedAttention\<close>, it finds none: the model
  is run without any context, so what it is told does not depend on the block
  tables, and the cached keys and values of a decoding sequence are never used.
\<close>

theorem qwen_attention_unrecognised:
  fixes m :: "'r runner_model"
  assumes "md_modules m = Some cs" and "\<forall>c \<in> set cs. cls_name c \<notin> {''DeepseekV2PagedAttention'', ''DeepseekV3PagedAttention''}"
  shows "get_paged_attention_classes m = [] \<and>
    runner_execute m uuid (b\<lparr>block_tables := bt\<rparr>) past s = runner_execute m uuid b past s"
proof -
  have "set (get_paged_attention_classes m) = {}"
    using assms by (auto simp: get_paged_attention_classes_def collect_paged_set paged_class_names_def)
  then have none: "get_paged_attention_classes m = []" by simp
  have f: "fill_inputs (b\<lparr>block_tables := bt\<rparr>) is mi = fill_inputs b is mi" for "is" mi
    by (induction "is" arbitrary: mi) (simp_all add: rbind_nth_def Let_def)
  then have "prepare_inputs (b\<lparr>block_tables := bt\<rparr>) = prepare_inputs b" by (simp add: prepare_inputs_def)
  moreover have "run_model m fwd (b\<lparr>block_tables := bt\<rparr>) mi past s1 = run_model m fwd b mi past s1" for fwd mi s1
    by (simp add: run_model_def none split: option.splits)
  moreover have tt: "total_tokens (b\<lparr>block_tables := bt\<rparr>) = total_tokens b" by (simp add: total_tokens_def)
  moreover have "pack_logits (b\<lparr>block_tables := bt\<rparr>) = (pack_logits b :: _ \<Rightarrow> 'r tensor \<Rightarrow> _)"
    by (rule ext)+ (simp only: pack_logits_def tt)
  moreover have "length (seq_ids (b\<lparr>block_tables := bt\<rparr>)) = length (seq_ids b)" by simp
  ultimately show ?thesis using none by (simp only: runner_execute_def simp_thms)
qed

definition qwen_model :: "(int \<times> int) runner_model" where
  "qwen_model = echo_model\<lparr>md_modules :=
     Some [\<lparr>cls_ref = 1, cls_name = ''Qwen3PagedAttention'', cls_sets = True, cls_clears = True\<rparr>]\<rparr>"

theorem qwen_attention_unrecognised_witness:
  "get_paged_attention_classes qwen_model = [] \<and>
   runner_execute qwen_model (\<lambda>_. []) (example_batch\<lparr>block_tables := [[], []]\<rparr>) None example_runner =
     runner_execute qwen_model (\<lambda>_. []) example_batch None example_runner"
  by (rule qwen_attention_unrecognised
      [of _ "[\<lparr>cls_ref = 1, cls_name = ''Qwen3PagedAttention'', cls_sets = True, cls_clears = True\<rparr>]"])
    (simp_all add: qwen_model_def)

end
