(* ===== verification/Cuda_Graph.thy ===== *)
theory Cuda_Graph
  imports Model_Runner
begin

text \<open>
  \<^verbatim>\<open>src/moe_infinity/serving/cuda_graph.py\<close>: \<^verbatim>\<open>CudaGraphRunner\<close>, which records the forward
  pass of a decode batch once and replays it for later batches of the same
  size. CUDA graphs themselves are a parameter: \<open>gl_record k inputs\<close> is the graph
  recorded while the \<open>k\<close>-th forward pass runs on the static buffers, or the
  error that ends the recording, and \<open>gl_replay g inputs\<close> is what a replay leaves
  in the static logits when the static buffers hold \<open>inputs\<close>. Each method holds
  the lock while it changes state, so it is one step. The buffers of a captured
  graph and the inputs copied into them have the same shape, one column for as
  many rows as the batch has sequences, so the copies do not fail.
\<close>

section \<open>State\<close>

record ('g, 'r) graph_lib =
  gl_record :: "nat \<Rightarrow> model_inputs \<Rightarrow> 'g result"
  gl_replay :: "'g \<Rightarrow> model_inputs \<Rightarrow> 'r list"

record ('g, 'r) captured_graph =
  cap_graph :: 'g
  cap_inputs :: model_inputs
  cap_logits :: "'r list"

record ('g, 'r) graph_runner =
  cg_runner :: runner_state
  cg_device :: torch_device
  cg_max_batch_sizes :: "int list"
  cg_graphs :: "nat \<rightharpoonup> ('g, 'r) captured_graph"
  cg_warmed :: "nat set"
  cg_disabled :: bool

definition graph_runner_init ::
  "string option \<Rightarrow> torch_device \<Rightarrow> runner_state \<Rightarrow> int list \<Rightarrow> ('g, 'r) graph_runner" where
  "graph_runner_init env_flag device r max_batch_sizes =
     \<lparr>cg_runner = r, cg_device = device,
      cg_max_batch_sizes = sort (remdups (filter (\<lambda>n. n > 0) max_batch_sizes)),
      cg_graphs = Map.empty, cg_warmed = {}, cg_disabled = (env_flag = Some ''1'')\<rparr>"

section \<open>Checks\<close>

definition is_decode_batch :: "batch_metadata \<Rightarrow> bool" where
  "is_decode_batch b \<longleftrightarrow>
     \<not> (seq_ids b = [] \<or> total_tokens b = 0) \<and> \<not> list_ex (\<lambda>p. p) (is_prefill b) \<and>
     \<not> list_ex (\<lambda>n. n \<noteq> 1) (seq_lengths b) \<and> total_tokens b = length (seq_ids b)"

definition is_cuda_device :: "bool \<Rightarrow> ('g, 'r) graph_runner \<Rightarrow> bool" where
  "is_cuda_device cuda c \<longleftrightarrow> dev_type (cg_device c) = ''cuda'' \<and> cuda"

definition graphs_enabled :: "bool \<Rightarrow> ('g, 'r) graph_runner \<Rightarrow> bool" where
  "graphs_enabled cuda c \<longleftrightarrow> \<not> cg_disabled c \<and> is_cuda_device cuda c"

definition validate_batch_for_graph :: "bool \<Rightarrow> batch_metadata \<Rightarrow> ('g, 'r) graph_runner \<Rightarrow> nat result" where
  "validate_batch_for_graph cuda b c =
     (let batch_size = length (seq_ids b)
      in if \<not> is_cuda_device cuda c then Inl RuntimeError
         else if batch_size = 0 \<or> total_tokens b = 0 then Inl ValueError
         else if int batch_size \<notin> set (cg_max_batch_sizes c) then Inl ValueError
         else if \<not> is_decode_batch b then Inl ValueError
         else Inr batch_size)"

definition is_compatible :: "bool \<Rightarrow> batch_metadata \<Rightarrow> ('g, 'r) graph_runner \<Rightarrow> bool" where
  "is_compatible cuda b c \<longleftrightarrow>
     graphs_enabled cuda c \<and> 0 < length (seq_ids b) \<and> is_decode_batch b \<and>
     length (seq_ids b) \<in> dom (cg_graphs c)"

section \<open>Forward passes\<close>

definition decode_logits :: "nat \<Rightarrow> 'r tensor \<Rightarrow> 'r list result" where
  "decode_logits batch_size t =
     (case t of
        Rank3 rows \<Rightarrow> if length rows \<noteq> batch_size \<or> \<not> list_all (\<lambda>r. length r = 1) rows then Inl ValueError
                      else Inr (map hd rows)
      | Rank2 rows \<Rightarrow> if length rows \<noteq> batch_size then Inl ValueError else Inr rows
      | OtherRank _ \<Rightarrow> Inl ValueError)"

definition on_runner ::
  "(runner_state, 'a) outcome \<Rightarrow> ('g, 'r) graph_runner \<Rightarrow> (('g, 'r) graph_runner, 'a) outcome" where
  "on_runner x c = apsnd (\<lambda>r. c\<lparr>cg_runner := r\<rparr>) x"

definition forward_decode ::
  "'r runner_model \<Rightarrow> model_inputs \<Rightarrow> ('g, 'r) graph_runner \<Rightarrow> (('g, 'r) graph_runner, 'r list) outcome" where
  "forward_decode m mi c =
     (case md_forward m of
        None \<Rightarrow> (Inl ValueError, c)
      | Some forward \<Rightarrow>
          andthen (on_runner (call_forward forward mi None (cg_runner c)) c) (\<lambda>out c1.
            case extract_logits out of
              Inl e \<Rightarrow> (Inl e, c1)
            | Inr t \<Rightarrow> (decode_logits (length (mi_input_ids mi)) t, c1)))"

text \<open>\<^verbatim>\<open>prepare_inputs\<close> of the runner followed by a forward pass, which both warm-up and capture start with.\<close>

definition prepare_and_forward ::
  "'r runner_model \<Rightarrow> batch_metadata \<Rightarrow> ('g, 'r) graph_runner \<Rightarrow> (('g, 'r) graph_runner, model_inputs) outcome" where
  "prepare_and_forward m b c =
     (case prepare_inputs b of
        Inl e \<Rightarrow> (Inl e, c)
      | Inr mi \<Rightarrow> andthen (forward_decode m mi c) (\<lambda>_ c1. (Inr mi, c1)))"

section \<open>Operations\<close>

definition warmup ::
  "bool \<Rightarrow> 'r runner_model \<Rightarrow> batch_metadata \<Rightarrow> int \<Rightarrow> ('g, 'r) graph_runner \<Rightarrow> (('g, 'r) graph_runner, unit) outcome" where
  "warmup cuda m b num_iters c =
     (if \<not> graphs_enabled cuda c then (Inr (), c)
      else if num_iters < 1 then (Inl ValueError, c)
      else case validate_batch_for_graph cuda b c of
             Inl e \<Rightarrow> (Inl e, c)
           | Inr batch_size \<Rightarrow>
               andthen (for_each (\<lambda>_ c. andthen (prepare_and_forward m b c) (\<lambda>_ c1. (Inr (), c1)))
                          [0..<nat num_iters] c)
                 (\<lambda>_ c1. (Inr (), c1\<lparr>cg_warmed := insert batch_size (cg_warmed c1)\<rparr>)))"

definition capture ::
  "('g, 'r) graph_lib \<Rightarrow> bool \<Rightarrow> 'r list \<Rightarrow> 'r runner_model \<Rightarrow> batch_metadata \<Rightarrow> ('g, 'r) graph_runner
   \<Rightarrow> (('g, 'r) graph_runner, unit) outcome" where
  "capture lib cuda junk m b c =
     (if \<not> graphs_enabled cuda c then (Inr (), c)
      else case validate_batch_for_graph cuda b c of
             Inl e \<Rightarrow> (Inl e, c)
           | Inr batch_size \<Rightarrow>
               if batch_size \<notin> cg_warmed c then (Inl RuntimeError, c)
               else
                 andthen (prepare_and_forward m b c) (\<lambda>mi c1.
                 andthen (forward_decode m mi c1) (\<lambda>_ c2.
                   case gl_record lib (length (rs_calls (cg_runner c1))) mi of
                     Inl e \<Rightarrow> (Inl e, c2)
                   | Inr g \<Rightarrow> (Inr (), c2\<lparr>cg_graphs := (cg_graphs c2)(batch_size \<mapsto>
                         \<lparr>cap_graph = g, cap_inputs = mi, cap_logits = junk\<rparr>)\<rparr>))))"

definition replay ::
  "('g, 'r) graph_lib \<Rightarrow> bool \<Rightarrow> 'r runner_model \<Rightarrow> batch_metadata \<Rightarrow> ('g, 'r) graph_runner
   \<Rightarrow> (('g, 'r) graph_runner, 'r list) outcome" where
  "replay lib cuda m b c =
     (if length (seq_ids b) = 0 \<or> total_tokens b = 0 then (empty_logits m, c)
      else if \<not> graphs_enabled cuda c then (Inl RuntimeError, c)
      else case validate_batch_for_graph cuda b c of
             Inl e \<Rightarrow> (Inl e, c)
           | Inr batch_size \<Rightarrow>
               (case cg_graphs c batch_size of
                  None \<Rightarrow> (Inl RuntimeError, c)
                | Some g \<Rightarrow>
                    (case prepare_inputs b of
                       Inl e \<Rightarrow> (Inl e, c)
                     | Inr mi \<Rightarrow>
                         (let logits = gl_replay lib (cap_graph g) mi
                          in (Inr logits, c\<lparr>cg_graphs := (cg_graphs c)(batch_size \<mapsto>
                                g\<lparr>cap_inputs := mi, cap_logits := logits\<rparr>)\<rparr>)))))"

definition invalidate :: "('g, 'r) graph_runner \<Rightarrow> ('g, 'r) graph_runner" where
  "invalidate c = c\<lparr>cg_graphs := Map.empty, cg_warmed := {}\<rparr>"

section \<open>Reachable runners\<close>

inductive cg_reach ::
  "('g, 'r) graph_lib \<Rightarrow> bool \<Rightarrow> 'r runner_model \<Rightarrow> ('g, 'r) graph_runner \<Rightarrow> bool"
  for lib cuda m where
  cg_init: "cg_reach lib cuda m (graph_runner_init flag device r sizes)"
| cg_warmup: "cg_reach lib cuda m c \<Longrightarrow> check_batch b = Inr b \<Longrightarrow> cg_reach lib cuda m (snd (warmup cuda m b n c))"
| cg_capture: "cg_reach lib cuda m c \<Longrightarrow> check_batch b = Inr b \<Longrightarrow> cg_reach lib cuda m (snd (capture lib cuda junk m b c))"
| cg_replay: "cg_reach lib cuda m c \<Longrightarrow> check_batch b = Inr b \<Longrightarrow> cg_reach lib cuda m (snd (replay lib cuda m b c))"
| cg_invalidate: "cg_reach lib cuda m c \<Longrightarrow> cg_reach lib cuda m (invalidate c)"
| cg_other: "cg_reach lib cuda m c \<Longrightarrow> cg_reach lib cuda m (c\<lparr>cg_runner := r\<rparr>)"

text \<open>The inputs of a decode batch: one column, everything attended to.\<close>

definition one_column :: "nat \<Rightarrow> model_inputs \<Rightarrow> bool" where
  "one_column n mi \<longleftrightarrow>
     map length (mi_input_ids mi) = replicate n 1 \<and> map length (mi_position_ids mi) = replicate n 1 \<and>
     mi_attention_mask mi = replicate n [1]"

definition cg_ok :: "('g, 'r) graph_lib \<Rightarrow> ('g, 'r) graph_runner \<Rightarrow> bool" where
  "cg_ok lib c \<longleftrightarrow>
     (\<forall>n g. cg_graphs c n = Some g \<longrightarrow>
        n \<in> cg_warmed c \<and> int n \<in> set (cg_max_batch_sizes c) \<and> one_column n (cap_inputs g) \<and>
        (\<exists>k mi. one_column n mi \<and> gl_record lib k mi = Inr (cap_graph g)))"

lemma decode_inputs:
  assumes "check_batch b = Inr b" and "is_decode_batch b"
  shows "\<exists>mi. prepare_inputs b = Inr mi \<and> one_column (length (seq_ids b)) mi"
proof -
  obtain vs where b: "b = batch_of vs" using batch_of_views(1) [OF assms(1)] by metis
  have one: "length (v_tokens v) = 1" if "v \<in> set vs" for v
    using assms(2) that by (force simp: is_decode_batch_def b list_ex_iff)
  have ne: "vs \<noteq> []" using assms(2) by (auto simp: is_decode_batch_def b)
  have "foldr max (map (length \<circ> v_tokens) vs) 0 = 1"
    using one ne
  proof (induction vs)
    case (Cons v vs)
    then show ?case by (cases "vs = []") auto
  qed simp
  then have w: "batch_width vs = 1" by (simp add: batch_width_def)
  have "one_column (length vs) (inputs_of vs)"
    using one by (auto simp: one_column_def inputs_of_def w padded_def map_replicate_const [of _ vs, symmetric])
  then show ?thesis using prepare_inputs_of [of vs] b by auto
qed

text \<open>A forward pass changes the runner's log and nothing else of the graph runner.\<close>

definition only_runner :: "('g, 'r) graph_runner \<Rightarrow> ('g, 'r) graph_runner \<Rightarrow> bool" where
  "only_runner c c' \<longleftrightarrow> (\<exists>r. c' = c\<lparr>cg_runner := r\<rparr>)"

lemma only_runner_refl [simp]: "only_runner c c"
  by (metis graph_runner.surjective graph_runner.update_convs(1) only_runner_def old.unit.exhaust)

lemma only_runner_trans: "only_runner a b \<Longrightarrow> only_runner b c \<Longrightarrow> only_runner a c"
  by (auto simp: only_runner_def)

lemma only_runner_fields:
  "only_runner c c' \<Longrightarrow> cg_graphs c' = cg_graphs c \<and> cg_warmed c' = cg_warmed c \<and>
     cg_max_batch_sizes c' = cg_max_batch_sizes c"
  by (auto simp: only_runner_def)

lemma only_runner_andthen:
  "only_runner c (snd x) \<Longrightarrow> (\<And>a c1. only_runner c c1 \<Longrightarrow> only_runner c (snd (f a c1))) \<Longrightarrow>
   only_runner c (snd (andthen x f))"
  by (auto simp: andthen_def split: prod.splits sum.splits)

lemma forward_decode_frame: "only_runner c (snd (forward_decode m mi c))"
proof (cases "md_forward m")
  case (Some forward)
  have "only_runner c (snd (on_runner (call_forward forward mi None (cg_runner c)) c))"
    by (auto simp: only_runner_def on_runner_def)
  with Some show ?thesis
    by (auto simp: forward_decode_def intro!: only_runner_andthen split: sum.splits)
qed (simp add: forward_decode_def)

lemma prepare_and_forward_frame: "only_runner c (snd (prepare_and_forward m b c))"
  by (auto simp: prepare_and_forward_def intro!: only_runner_andthen forward_decode_frame split: sum.splits)

lemma prepare_and_forward_inputs:
  "prepare_and_forward m b c = (Inr mi, c1) \<Longrightarrow> prepare_inputs b = Inr mi"
  by (auto simp: prepare_and_forward_def andthen_Inr_iff split: sum.splits)

lemma cg_ok_only_runner: "only_runner c c' \<Longrightarrow> cg_ok lib c \<Longrightarrow> cg_ok lib c'"
  by (auto simp: cg_ok_def dest: only_runner_fields)

lemma cg_ok_warmed: "cg_ok lib c \<Longrightarrow> cg_ok lib (c\<lparr>cg_warmed := insert n (cg_warmed c)\<rparr>)"
  by (auto simp: cg_ok_def)

lemma warmup_ok:
  assumes "cg_ok lib c"
  shows "cg_ok lib (snd (warmup cuda m b n c))"
proof -
  let ?f = "\<lambda>(_ :: nat) c. andthen (prepare_and_forward m b c) (\<lambda>_ c1. (Inr (), c1))"
  have step: "only_runner c (snd (?f i c))" for i c
    by (rule only_runner_andthen) (simp_all add: prepare_and_forward_frame)
  have "only_runner c (snd (for_each ?f xs c))" for xs c
  proof (induction xs arbitrary: c)
    case (Cons x xs)
    obtain r c1 where "?f x c = (r, c1)" by (metis surj_pair)
    with step [of c] Cons show ?case by (cases r) (auto intro: only_runner_trans)
  qed simp
  then have "cg_ok lib (snd (for_each ?f xs c))" for xs using assms cg_ok_only_runner by blast
  moreover obtain r c1 where "for_each ?f [0..<nat n] c = (r, c1)" by (metis surj_pair)
  ultimately show ?thesis using assms cg_ok_warmed [of lib c1]
    by (cases r) (auto simp: warmup_def split: sum.splits dest: meta_spec [of _ "[0..<nat n]"])
qed

lemma validate_ok:
  "validate_batch_for_graph cuda b c = Inr n \<Longrightarrow>
   n = length (seq_ids b) \<and> int n \<in> set (cg_max_batch_sizes c) \<and> is_decode_batch b"
  by (auto simp: validate_batch_for_graph_def Let_def split: if_splits)

lemma cg_ok_put:
  assumes "cg_ok lib c" and "n \<in> cg_warmed c" and "int n \<in> set (cg_max_batch_sizes c)"
    and "one_column n (cap_inputs g)" and "\<exists>k mi. one_column n mi \<and> gl_record lib k mi = Inr (cap_graph g)"
  shows "cg_ok lib (c\<lparr>cg_graphs := (cg_graphs c)(n \<mapsto> g)\<rparr>)"
  using assms by (auto simp: cg_ok_def)

lemma capture_ok:
  assumes ok: "cg_ok lib c" and "check_batch b = Inr b"
  shows "cg_ok lib (snd (capture lib cuda junk m b c))"
proof (cases "\<exists>n. graphs_enabled cuda c \<and> validate_batch_for_graph cuda b c = Inr n \<and> n \<in> cg_warmed c")
  case True
  then obtain n where n: "graphs_enabled cuda c" "validate_batch_for_graph cuda b c = Inr n" "n \<in> cg_warmed c" by blast
  note v = validate_ok [OF n(2)]
  obtain r1 c1 where p: "prepare_and_forward m b c = (r1, c1)" by (metis surj_pair)
  then have c1: "only_runner c c1" using prepare_and_forward_frame [of c m b] by simp
  show ?thesis
  proof (cases r1)
    case (Inl e)
    with n p c1 ok show ?thesis by (simp add: capture_def cg_ok_only_runner)
  next
    case (Inr mi)
    obtain r2 c2 where f: "forward_decode m mi c1 = (r2, c2)" by (metis surj_pair)
    then have c2: "only_runner c c2" using forward_decode_frame [of c1 m mi] c1 only_runner_trans by auto
    then have ok2: "cg_ok lib c2" using ok cg_ok_only_runner by blast
    have mi: "one_column n mi"
      using decode_inputs [OF assms(2)] v prepare_and_forward_inputs p Inr by (metis Inr_inject)
    have "cg_ok lib (c2\<lparr>cg_graphs := (cg_graphs c2)(n \<mapsto> \<lparr>cap_graph = g, cap_inputs = mi, cap_logits = junk\<rparr>)\<rparr>)"
      if "gl_record lib k mi = Inr g" for k g
      using that mi v n(3) only_runner_fields [OF c2] by (intro cg_ok_put [OF ok2]) auto
    with n p f Inr ok2 show ?thesis by (cases r2) (auto simp: capture_def split: sum.splits)
  qed
qed (use ok in \<open>auto simp: capture_def split: sum.splits\<close>)

lemma replay_ok:
  assumes ok: "cg_ok lib c" and "check_batch b = Inr b"
  shows "cg_ok lib (snd (replay lib cuda m b c))"
proof -
  have "cg_ok lib (c\<lparr>cg_graphs := (cg_graphs c)(n \<mapsto> g\<lparr>cap_inputs := mi, cap_logits := l\<rparr>)\<rparr>)"
    if n: "validate_batch_for_graph cuda b c = Inr n" "cg_graphs c n = Some g" "prepare_inputs b = Inr mi" for n g mi l
  proof (rule cg_ok_put [OF ok])
    have "one_column n mi" using decode_inputs [OF assms(2)] validate_ok [OF n(1)] n(3) by auto
    then show "one_column n (cap_inputs (g\<lparr>cap_inputs := mi, cap_logits := l\<rparr>))" by simp
  qed (use ok n in \<open>auto simp: cg_ok_def\<close>)
  then show ?thesis using ok by (auto simp: replay_def Let_def split: sum.splits option.splits)
qed

lemma cg_reach_ok: "cg_reach lib cuda m c \<Longrightarrow> cg_ok lib c"
proof (induction rule: cg_reach.induct)
  case (cg_init flag device r sizes)
  show ?case by (simp add: graph_runner_init_def cg_ok_def)
next
  case (cg_invalidate c)
  show ?case by (simp add: invalidate_def cg_ok_def)
next
  case (cg_other c r)
  have "only_runner c (c\<lparr>cg_runner := r\<rparr>)" unfolding only_runner_def by blast
  from cg_ok_only_runner [OF this cg_other.IH] show ?case .
qed (simp_all add: warmup_ok capture_ok replay_ok)

section \<open>Replay and eager execution\<close>

text \<open>On inputs of one column, packing by the mask and taking the first column agree.\<close>

lemma pack_one_column:
  assumes "one_column (length (seq_ids b)) mi" and "total_tokens b = length (seq_ids b)"
    and "decode_logits (length (seq_ids b)) t = Inr rows"
  shows "pack_logits b mi t = Inr rows"
proof (cases t)
  case (Rank3 ls)
  let ?n = "length (seq_ids b)"
  from assms(3) Rank3 have ls: "length ls = ?n" "\<forall>r \<in> set ls. length r = 1" "rows = map hd ls"
    by (auto simp: decode_logits_def list_all_iff split: if_splits)
  have len: "map length ls = map length (replicate ?n [1::int])"
    using ls by (auto simp: map_replicate_const [symmetric] intro!: nth_equalityI)
  have cc: "concat (map (\<lambda>(ms, rs). map snd (filter (\<lambda>(x, _). x \<noteq> 0) (zip ms rs))) (zip (replicate k [1::int]) xs)) = map hd xs"
    if "length xs = k" "\<forall>r \<in> set xs. length r = 1" for k and xs :: "'a list list"
    using that
  proof (induction xs arbitrary: k)
    case (Cons x xs)
    then obtain y where "x = [y]" by (auto simp: length_Suc_conv)
    with Cons show ?case by (cases k) auto
  qed simp
  have "select_mask (mi_attention_mask mi) ls = Inr (map hd ls)"
    using len cc [OF ls(1,2)] assms(1) by (simp add: select_mask_def one_column_def)
  with ls assms(2) Rank3 show ?thesis by (simp add: pack_logits_def)
qed (use assms in \<open>auto simp: decode_logits_def pack_logits_def split: if_splits\<close>)

text \<open>
  Under what a CUDA graph promises, that replaying a recorded graph recomputes
  the recorded pass on the inputs now in the static buffers, and for a model
  without paged attention whose forward pass depends on its inputs only, the
  logits of a replay are those of \<^verbatim>\<open>ModelRunner.execute\<close> on the same batch.
\<close>

theorem graph_replay_equals_execute:
  fixes c :: "('g, 'r) graph_runner"
  assumes "cg_reach lib cuda m c" and "check_batch b = Inr b" and "is_compatible cuda b c"
    and "md_forward m = Some (\<lambda>k call. F (fc_inputs call))" and "get_paged_attention_classes m = []"
    and "\<And>mi. \<exists>out t rows. F mi = Inr out \<and> extract_logits out = Inr t \<and>
           decode_logits (length (mi_input_ids mi)) t = Inr rows"
    and replays: "\<And>k mi g mi' out t. gl_record lib k mi = Inr g \<Longrightarrow>
           length (mi_input_ids mi') = length (mi_input_ids mi) \<Longrightarrow> F mi' = Inr out \<Longrightarrow> extract_logits out = Inr t \<Longrightarrow>
           decode_logits (length (mi_input_ids mi')) t = Inr (gl_replay lib g mi')"
    and "re_request_id (rs_engine s) \<noteq> None \<or> \<not> re_generates_ids (rs_engine s)"
  shows "\<exists>rows. fst (replay lib cuda m b c) = Inr rows \<and> fst (runner_execute m uuid b None s) = Inr rows \<and>
    length rows = length (seq_ids b) \<and> \<not> is_compatible cuda b (invalidate c)"
proof -
  let ?n = "length (seq_ids b)"
  from assms(3) obtain g where dec: "is_decode_batch b" "graphs_enabled cuda c" "0 < ?n" and g: "cg_graphs c ?n = Some g"
    by (auto simp: is_compatible_def)
  from cg_reach_ok [OF assms(1)] g have size: "int ?n \<in> set (cg_max_batch_sizes c)"
    and rec: "\<exists>k mi. one_column ?n mi \<and> gl_record lib k mi = Inr (cap_graph g)" by (auto simp: cg_ok_def)
  from decode_inputs [OF assms(2) dec(1)] obtain mi where mi: "prepare_inputs b = Inr mi" "one_column ?n mi" by blast
  have len: "length (mi_input_ids mi') = ?n" if "one_column ?n mi'" for mi'
    using that unfolding one_column_def by (metis length_map length_replicate)
  obtain out t where F: "F mi = Inr out" "extract_logits out = Inr t" using assms(6) by blast
  let ?rows = "gl_replay lib (cap_graph g) mi"
  have rows: "decode_logits ?n t = Inr ?rows" using rec replays [OF _ _ F] len mi(2) by metis
  have tot: "total_tokens b = ?n" "total_tokens b \<noteq> 0" using dec by (auto simp: is_decode_batch_def)
  have "validate_batch_for_graph cuda b c = Inr ?n"
    using dec size tot by (simp add: validate_batch_for_graph_def graphs_enabled_def)
  then have "fst (replay lib cuda m b c) = Inr ?rows" using dec tot g mi(1) by (simp add: replay_def Let_def)
  moreover obtain s1 where s1: "advance_request_id (configure_expert_tracing uuid ?n s) = (Inr (), s1)"
    using advance_ok [OF assms(8)] by blast
  have "fst (runner_execute m uuid b None s) = pack_logits b mi t"
    using s1 tot(2) mi(1) assms(4,5) F
    by (simp add: runner_execute_def run_model_eq run_context_def Let_def split: option.splits)
  then have "fst (runner_execute m uuid b None s) = Inr ?rows" using pack_one_column [OF mi(2) tot(1) rows] by simp
  moreover have "length ?rows = ?n"
    using rows by (auto simp: decode_logits_def split: tensor.splits if_splits dest!: sym [of "map hd _"])
  moreover have "\<not> is_compatible cuda b (invalidate c)" by (simp add: is_compatible_def invalidate_def)
  ultimately show ?thesis by blast
qed

text \<open>A model that returns the token of each row, and the graphs recorded from it.\<close>

definition token_model :: "int runner_model" where
  "token_model = \<lparr>md_modules = None, md_config_vocab_size = Some 10, md_vocab_size = None,
     md_forward = Some (\<lambda>k call. Inr \<lparr>mo_logits = Some (TensorObj (Rank2 (map hd (mi_input_ids (fc_inputs call))))),
       mo_items = None, mo_tuple = None\<rparr>)\<rparr>"

definition token_graphs :: "(unit, int) graph_lib" where
  "token_graphs = \<lparr>gl_record = (\<lambda>_ _. Inr ()), gl_replay = (\<lambda>_ mi. map hd (mi_input_ids mi))\<rparr>"

definition decode_example :: "int \<Rightarrow> int \<Rightarrow> batch_metadata" where
  "decode_example x y = batch_of
     [\<lparr>v_id = 1, v_tokens = [x], v_context = 4, v_prefill = False, v_blocks = [3, 0, 1], v_params = default_sampling_params\<rparr>,
      \<lparr>v_id = 2, v_tokens = [y], v_context = 1, v_prefill = False, v_blocks = [2], v_params = default_sampling_params\<rparr>]"

definition captured_example :: "(unit, int) graph_runner" where
  "captured_example = snd (capture token_graphs True [] token_model (decode_example 5 6)
     (snd (warmup True token_model (decode_example 5 6) 3
        (graph_runner_init None \<lparr>dev_type = ''cuda'', dev_index = None\<rparr> example_runner [4, 2, 2, 0]))))"

theorem graph_replay_equals_execute_witness:
  "fst (replay token_graphs True token_model (decode_example 8 9) captured_example) = Inr [8, 9] \<and>
   fst (runner_execute token_model (\<lambda>_. []) (decode_example 8 9) None example_runner) = Inr [8, 9]"
proof -
  have ok: "check_batch (decode_example x y) = Inr (decode_example x y)" for x y
    unfolding decode_example_def by (rule check_batch_of)
  have reach: "cg_reach token_graphs True token_model captured_example"
    unfolding captured_example_def by (intro cg_capture cg_warmup cg_init ok)
  have comp: "is_compatible True (decode_example 8 9) captured_example" by code_simp
  let ?F = "\<lambda>mi. Inr \<lparr>mo_logits = Some (TensorObj (Rank2 (map hd (mi_input_ids mi)))), mo_items = None, mo_tuple = None\<rparr>"
  have rp: "fst (replay token_graphs True token_model (decode_example 8 9) captured_example) = Inr [8, 9]" by code_simp
  have "\<exists>rows. fst (replay token_graphs True token_model (decode_example 8 9) captured_example) = Inr rows \<and>
      fst (runner_execute token_model (\<lambda>_. []) (decode_example 8 9) None example_runner) = Inr rows \<and>
      length rows = length (seq_ids (decode_example 8 9)) \<and> \<not> is_compatible True (decode_example 8 9) (invalidate captured_example)"
    by (rule graph_replay_equals_execute [OF reach ok comp, of ?F])
      (simp_all add: token_model_def token_graphs_def get_paged_attention_classes_def extract_logits_def
        decode_logits_def example_runner_def, auto)
  then show ?thesis using rp by auto
qed

text \<open>
  C16: In every reachable state of the graph runner, \<^verbatim>\<open>is_compatible\<close> answers exactly
  whether \<^verbatim>\<open>replay\<close> will succeed on a batch that is not empty. A replay that succeeds
  runs the graph held for the size of the batch, which was recorded on one token
  for as many sequences, after a warm-up of that size, on the inputs prepared
  from this batch, which are left in the static buffers with the logits; one that
  does not succeed raises and changes nothing. After \<^verbatim>\<open>invalidate\<close> nothing can be replayed.
\<close>

theorem compatible_iff_replayable:
  fixes c :: "('g, 'r) graph_runner"
  assumes "cg_reach lib cuda m c" and "check_batch b = Inr b" and "seq_ids b \<noteq> []" and "total_tokens b \<noteq> 0"
  shows "(if is_compatible cuda b c
      then \<exists>g mi k mi0. cg_graphs c (length (seq_ids b)) = Some g \<and> length (seq_ids b) \<in> cg_warmed c \<and>
        one_column (length (seq_ids b)) mi0 \<and> gl_record lib k mi0 = Inr (cap_graph g) \<and>
        prepare_inputs b = Inr mi \<and> one_column (length (seq_ids b)) mi \<and>
        replay lib cuda m b c = (Inr (gl_replay lib (cap_graph g) mi), c\<lparr>cg_graphs := (cg_graphs c)
          (length (seq_ids b) \<mapsto> \<lparr>cap_graph = cap_graph g, cap_inputs = mi, cap_logits = gl_replay lib (cap_graph g) mi\<rparr>)\<rparr>)
      else \<exists>e. replay lib cuda m b c = (Inl e, c)) \<and>
    (\<exists>e. replay lib cuda m b (invalidate c) = (Inl e, invalidate c))"
proof -
  let ?n = "length (seq_ids b)"
  have refused: "\<exists>e. replay lib cuda m b c' = (Inl e, c')" if "\<not> is_compatible cuda b c'" for c' :: "('g, 'r) graph_runner"
  proof (cases "validate_batch_for_graph cuda b c'")
    case (Inr n)
    with validate_ok [OF Inr] that assms(3,4) show ?thesis by (auto simp: replay_def is_compatible_def domIff)
  qed (use assms(3,4) in \<open>auto simp: replay_def\<close>)
  have "\<not> is_compatible cuda b (invalidate c)" by (simp add: is_compatible_def invalidate_def)
  moreover have "\<exists>g mi k mi0. cg_graphs c ?n = Some g \<and> ?n \<in> cg_warmed c \<and>
        one_column ?n mi0 \<and> gl_record lib k mi0 = Inr (cap_graph g) \<and> prepare_inputs b = Inr mi \<and> one_column ?n mi \<and>
        replay lib cuda m b c = (Inr (gl_replay lib (cap_graph g) mi), c\<lparr>cg_graphs := (cg_graphs c)
          (?n \<mapsto> \<lparr>cap_graph = cap_graph g, cap_inputs = mi, cap_logits = gl_replay lib (cap_graph g) mi\<rparr>)\<rparr>)"
    if comp: "is_compatible cuda b c"
  proof -
    from comp obtain g where dec: "is_decode_batch b" "graphs_enabled cuda c" and g: "cg_graphs c ?n = Some g"
      by (auto simp: is_compatible_def)
    from cg_reach_ok [OF assms(1)] g obtain k mi0 where rec: "?n \<in> cg_warmed c" "int ?n \<in> set (cg_max_batch_sizes c)"
      "one_column ?n mi0" "gl_record lib k mi0 = Inr (cap_graph g)" unfolding cg_ok_def by blast
    from decode_inputs [OF assms(2) dec(1)] obtain mi where mi: "prepare_inputs b = Inr mi" "one_column ?n mi" by blast
    have "validate_batch_for_graph cuda b c = Inr ?n"
      using dec rec(2) assms(3,4) by (simp add: validate_batch_for_graph_def graphs_enabled_def)
    then have "replay lib cuda m b c = (Inr (gl_replay lib (cap_graph g) mi), c\<lparr>cg_graphs := (cg_graphs c)
          (?n \<mapsto> \<lparr>cap_graph = cap_graph g, cap_inputs = mi, cap_logits = gl_replay lib (cap_graph g) mi\<rparr>)\<rparr>)"
      using dec assms(3,4) g mi(1) by (cases g) (simp add: replay_def Let_def)
    with g rec mi show ?thesis by blast
  qed
  ultimately show ?thesis using refused by presburger
qed

theorem compatible_iff_replayable_witness:
  "(\<exists>rows. fst (replay token_graphs True token_model (decode_example 8 9) captured_example) = Inr rows) \<and>
   (\<exists>e. fst (replay token_graphs True token_model (decode_example 8 9) (invalidate captured_example)) = Inl e)"
proof -
  have ok: "check_batch (decode_example x y) = Inr (decode_example x y)" for x y
    unfolding decode_example_def by (rule check_batch_of)
  have reach: "cg_reach token_graphs True token_model captured_example"
    unfolding captured_example_def by (intro cg_capture cg_warmup cg_init ok)
  have comp: "is_compatible True (decode_example 8 9) captured_example" by code_simp
  have ne: "seq_ids (decode_example 8 9) \<noteq> []" "total_tokens (decode_example 8 9) \<noteq> 0" by code_simp+
  show ?thesis using compatible_iff_replayable [OF reach ok ne] comp by fastforce
qed

end
