(* ===== verification/Sampler.thy ===== *)
theory Sampler
  imports Model_Runner "HOL-Library.Option_ord"
begin

text \<open>
  \<^verbatim>\<open>src/moe_infinity/serving/sampler.py\<close>: \<^verbatim>\<open>Sampler\<close>, which draws one token per row of
  logits. A logit is a real number or \<open>None\<close> for minus infinity, which is below
  every number in the order of \<open>Option_ord\<close>. The operations of the tensor library
  are parameters; \<open>torch_ok\<close> states what its documentation says of them: the
  softmax of a largest logit is positive and that of minus infinity zero, so a
  small finite logit may underflow. Sums of probabilities are exact. A row has
  as many entries as the vocabulary, and its draw is numbered, so that
  \<^verbatim>\<open>multinomial\<close> may answer differently each time.
\<close>

section \<open>Sampling\<close>

record sampler_output =
  so_token_ids :: "nat list"
  so_token_logprobs :: "real option option list option"
  so_top_logprobs :: "(nat \<times> real option) list option list option"

definition apply_top_k :: "torch_lib \<Rightarrow> int \<Rightarrow> logits \<Rightarrow> logits" where
  "apply_top_k lib k row = (if k \<le> 0 \<or> k \<ge> int (length row) then row else keep_top_k lib k row)"

definition apply_top_p :: "torch_lib \<Rightarrow> real \<Rightarrow> logits \<Rightarrow> logits" where
  "apply_top_p lib p row =
     (if p \<ge> 1 then row
      else if p \<le> 0
      then (let keep_index = tl_argmax lib row in scatter_row (length row) [(keep_index, row ! keep_index)])
      else keep_top_p lib p row)"

definition filter_row :: "torch_lib \<Rightarrow> sv_sampling_params \<Rightarrow> logits \<Rightarrow> logits" where
  "filter_row lib params row =
     apply_top_p lib (sv_sampling_params.top_p params)
       (apply_top_k lib (sv_sampling_params.top_k params)
          (map (map_option (\<lambda>x. x / sv_sampling_params.temperature params)) row))"

text \<open>One row: the token drawn and the logits it was drawn from.\<close>

definition sample_row :: "torch_lib \<Rightarrow> nat \<Rightarrow> logits \<Rightarrow> sv_sampling_params \<Rightarrow> (nat \<times> logits) result" where
  "sample_row lib draw row params =
     (if sv_sampling_params.temperature params = 0 then Inr (tl_argmax lib row, row)
      else if sv_sampling_params.temperature params < 0 then Inl ValueError
      else (let filtered = filter_row lib params row
            in Inr (tl_multinomial lib draw (tl_softmax lib filtered), filtered)))"

definition row_logprobs ::
  "torch_lib \<Rightarrow> (logits \<Rightarrow> logits) \<Rightarrow> sv_sampling_params \<Rightarrow> nat \<times> logits
   \<Rightarrow> (real option \<times> (nat \<times> real option) list) option" where
  "row_logprobs lib log_softmax params tf =
     (if sv_sampling_params.logprobs params \<le> 0 then None
      else (let lps = log_softmax (snd tf);
                k = min (nat (sv_sampling_params.logprobs params)) (length lps)
            in Some (lps ! fst tf, map (\<lambda>j. (j, lps ! j)) (tl_topk lib lps k))))"

definition sample ::
  "torch_lib \<Rightarrow> (logits \<Rightarrow> logits) \<Rightarrow> nat \<Rightarrow> nat \<Rightarrow> logits tensor \<Rightarrow> sv_sampling_params list \<Rightarrow> sampler_output result" where
  "sample lib log_softmax draw vocab_size t params =
     (case t of
        Rank2 rows \<Rightarrow>
          if length rows \<noteq> length params then Inl ValueError
          else if vocab_size = 0 then Inl ValueError
          else
            (let requested = list_ex (\<lambda>p. sv_sampling_params.logprobs p > 0) params
             in case map_result (\<lambda>(i, row, p). sample_row lib (draw + i) row p)
                       (zip [0..<length rows] (zip rows params)) of
                  Inl e \<Rightarrow> Inl e
                | Inr tfs \<Rightarrow>
                    (let lps = map (\<lambda>(p, tf). row_logprobs lib log_softmax p tf) (zip params tfs)
                     in Inr \<lparr>so_token_ids = map fst tfs,
                             so_token_logprobs = (if requested then Some (map (map_option fst) lps) else None),
                             so_top_logprobs = (if requested then Some (map (map_option snd) lps) else None)\<rparr>))
      | _ \<Rightarrow> Inl ValueError)"

section \<open>The tensor library\<close>

definition is_max :: "logits \<Rightarrow> nat \<Rightarrow> bool" where
  "is_max row j \<longleftrightarrow> j < length row \<and> (\<forall>i < length row. row ! i \<le> row ! j)"

definition torch_ok :: "torch_lib \<Rightarrow> bool" where
  "torch_ok lib \<longleftrightarrow>
     (\<forall>row. row \<noteq> [] \<longrightarrow> is_max row (tl_argmax lib row)) \<and>
     (\<forall>row k. k \<le> length row \<longrightarrow>
        length (tl_topk lib row k) = k \<and> distinct (tl_topk lib row k) \<and> set (tl_topk lib row k) \<subseteq> {..<length row} \<and>
        (\<forall>i \<in> set (tl_topk lib row k). \<forall>j < length row. j \<notin> set (tl_topk lib row k) \<longrightarrow> row ! j \<le> row ! i)) \<and>
     (\<forall>row. mset (tl_sort_descending lib row) = mset [0..<length row] \<and>
        sorted_wrt (\<lambda>i j. row ! j \<le> row ! i) (tl_sort_descending lib row)) \<and>
     (\<forall>row. (\<exists>j < length row. row ! j \<noteq> None) \<longrightarrow> length (tl_softmax lib row) = length row \<and>
        (\<forall>j < length row. 0 \<le> tl_softmax lib row ! j \<and> (0 < tl_softmax lib row ! j \<longrightarrow> row ! j \<noteq> None) \<and>
           (is_max row j \<longrightarrow> 0 < tl_softmax lib row ! j))) \<and>
     (\<forall>k ps. (\<exists>j < length ps. 0 < ps ! j) \<and> (\<forall>j < length ps. 0 \<le> ps ! j) \<longrightarrow>
        tl_multinomial lib k ps < length ps \<and> 0 < ps ! tl_multinomial lib k ps)"

lemma torch_okD:
  assumes "torch_ok lib"
  shows "row \<noteq> [] \<Longrightarrow> is_max row (tl_argmax lib row)"
    and "k \<le> length row \<Longrightarrow> length (tl_topk lib row k) = k \<and> distinct (tl_topk lib row k) \<and>
      set (tl_topk lib row k) \<subseteq> {..<length row} \<and>
      (\<forall>i \<in> set (tl_topk lib row k). \<forall>j < length row. j \<notin> set (tl_topk lib row k) \<longrightarrow> row ! j \<le> row ! i)"
    and "mset (tl_sort_descending lib row) = mset [0..<length row]"
    and "sorted_wrt (\<lambda>i j. row ! j \<le> row ! i) (tl_sort_descending lib row)"
    and "\<exists>j < length row. row ! j \<noteq> None \<Longrightarrow> length (tl_softmax lib row) = length row \<and>
        (\<forall>j < length row. 0 \<le> tl_softmax lib row ! j \<and> (0 < tl_softmax lib row ! j \<longrightarrow> row ! j \<noteq> None) \<and>
           (is_max row j \<longrightarrow> 0 < tl_softmax lib row ! j))"
    and "\<exists>j < length ps. 0 < ps ! j \<Longrightarrow> \<forall>j < length ps. 0 \<le> ps ! j \<Longrightarrow>
        tl_multinomial lib n ps < length ps \<and> 0 < ps ! tl_multinomial lib n ps"
  using assms unfolding torch_ok_def by metis+

section \<open>Filtering keeps a largest logit\<close>

text \<open>A filtered row: entries are kept or set to minus infinity, and some largest finite entry is kept.\<close>

definition narrows :: "logits \<Rightarrow> logits \<Rightarrow> bool" where
  "narrows r' r \<longleftrightarrow> length r' = length r \<and> (\<forall>j < length r. r' ! j = r ! j \<or> r' ! j = None) \<and>
     (\<exists>j. is_max r j \<and> r' ! j = r ! j \<and> r ! j \<noteq> None)"

lemma narrows_refl:
  assumes "j < length r" and "r ! j \<noteq> None"
  shows "narrows r r"
proof -
  define m where "m = Max (set r)"
  have "m \<in> set r" using assms(1) unfolding m_def by (intro Max_in) auto
  then obtain i where i: "i < length r" "r ! i = m" by (auto simp: in_set_conv_nth)
  then have "is_max r i" by (auto simp: is_max_def m_def)
  moreover have "r ! j \<le> r ! i" using calculation assms(1) by (simp add: is_max_def)
  then have "r ! i \<noteq> None" using assms(2) by (cases "r ! i"; cases "r ! j") simp_all
  ultimately show ?thesis by (auto simp: narrows_def)
qed

lemma is_max_narrows: "narrows r' r \<Longrightarrow> is_max r' j \<Longrightarrow> r' ! j \<noteq> None \<and> r' ! j = r ! j \<and> is_max r j"
  by (auto simp: narrows_def is_max_def) (metis (full_types) less_eq_option_None_is_None not_None_eq order_trans)+

lemma narrows_trans:
  assumes "narrows r1 r2" and "narrows r2 r3"
  shows "narrows r1 r3"
proof -
  from assms(1) obtain j where "is_max r2 j" "r1 ! j = r2 ! j" "r2 ! j \<noteq> None" by (auto simp: narrows_def)
  with is_max_narrows [OF assms(2)] have "is_max r3 j \<and> r1 ! j = r3 ! j \<and> r3 ! j \<noteq> None" by metis
  moreover have "\<forall>j < length r3. r1 ! j = r3 ! j \<or> r1 ! j = None" using assms by (fastforce simp: narrows_def)
  ultimately show ?thesis using assms by (auto simp: narrows_def)
qed

lemma fold_update_row:
  "j < length r \<Longrightarrow>
   fold (\<lambda>(j, v) row. row[j := v]) ps r ! j = (case map_of (rev ps) j of None \<Rightarrow> r ! j | Some v \<Rightarrow> v)"
  by (induction ps arbitrary: r) (auto simp: map_add_def nth_list_update split: option.splits)

lemma length_fold_update: "length (fold (\<lambda>(j, v) row. row[j := v]) ps r) = length r"
  by (induction ps arbitrary: r) auto

lemma scatter_row_nth:
  assumes "distinct (map fst ps)" and "j < n"
  shows "scatter_row n ps ! j = (case map_of ps j of None \<Rightarrow> None | Some v \<Rightarrow> v)"
proof -
  have "map_of (rev ps) = map_of ps" using assms(1) by (simp add: map_of_inject_set rev_map [symmetric])
  then show ?thesis using assms(2) by (simp add: scatter_row_def fold_update_row split: option.splits)
qed

lemma length_scatter_row [simp]: "length (scatter_row n ps) = n"
  by (simp add: scatter_row_def length_fold_update)

lemma keep_top_k_narrows:
  assumes ok: "torch_ok lib" and k: "0 < k" "k < int (length r)" and some: "j < length r" "r ! j \<noteq> None"
  shows "narrows (keep_top_k lib k r) r" and "card {i. i < length r \<and> keep_top_k lib k r ! i \<noteq> None} \<le> nat k"
    and "keep_top_k lib k r ! i \<noteq> None \<Longrightarrow> i < length r \<Longrightarrow> card {j. j < length r \<and> r ! i < r ! j} < nat k"
proof -
  define idx where "idx = tl_topk lib r (nat k)"
  have t: "length idx = nat k" "distinct idx" "set idx \<subseteq> {..<length r}"
      "\<And>i j. i \<in> set idx \<Longrightarrow> j < length r \<Longrightarrow> j \<notin> set idx \<Longrightarrow> r ! j \<le> r ! i"
    using torch_okD(2) [OF ok, of "nat k" r] k unfolding idx_def by auto
  have keep: "keep_top_k lib k r = scatter_row (length r) (map (\<lambda>j. (j, r ! j)) idx)"
    using k by (simp add: keep_top_k_def idx_def min_absorb1 nat_le_iff)
  have nth: "keep_top_k lib k r ! i = (if i \<in> set idx then r ! i else None)" if "i < length r" for i
    using that t(2) unfolding keep by (subst scatter_row_nth) (simp_all add: comp_def map_of_map_restrict restrict_map_def)
  obtain m where m: "is_max r m" "r ! m \<noteq> None" using narrows_refl [OF some] by (auto simp: narrows_def)
  obtain a where a: "a \<in> set idx" using t(1) k by (cases idx) auto
  have "\<exists>i \<in> set idx. is_max r i"
  proof (cases "m \<in> set idx")
    case False
    then have "r ! m \<le> r ! a" using t(4) [OF a] m(1) by (simp add: is_max_def)
    then have "is_max r a" using m(1) a t(3) by (auto simp: is_max_def intro: order_trans)
    with a show ?thesis by blast
  qed (use m in blast)
  then obtain i0 where i0: "i0 \<in> set idx" "is_max r i0" by blast
  then have "r ! i0 = r ! m" using m(1) by (auto simp: is_max_def intro: order_antisym)
  then show "narrows (keep_top_k lib k r) r"
    using i0 m(2) nth by (auto simp: narrows_def keep is_max_def)
  have sub: "{i. i < length r \<and> keep_top_k lib k r ! i \<noteq> None} \<subseteq> set idx" using nth by (auto split: if_splits)
  then show "card {i. i < length r \<and> keep_top_k lib k r ! i \<noteq> None} \<le> nat k"
    using t(1,2) by (metis List.finite_set card_mono distinct_card)
  assume i: "keep_top_k lib k r ! i \<noteq> None" "i < length r"
  then have "i \<in> set idx" using nth by (auto split: if_splits)
  then have "{j. j < length r \<and> r ! i < r ! j} \<subseteq> set idx - {i}" using t(4) by (auto simp: not_less [symmetric])
  then have "card {j. j < length r \<and> r ! i < r ! j} \<le> card (set idx - {i})" by (simp add: card_mono)
  also have "\<dots> < nat k" using t(1,2) \<open>i \<in> set idx\<close> k by (simp add: distinct_card)
  finally show "card {j. j < length r \<and> r ! i < r ! j} < nat k" .
qed

text \<open>
  The nucleus of the code: the first token of the descending order, and every
  token up to which, itself included, the probabilities sum up to at most \<open>p\<close>.
\<close>

definition nucleus :: "torch_lib \<Rightarrow> real \<Rightarrow> logits \<Rightarrow> nat \<Rightarrow> bool" where
  "nucleus lib p r tok \<longleftrightarrow>
     (let order = tl_sort_descending lib r; probs = tl_softmax lib (map ((!) r) order)
      in \<exists>i < length r. order ! i = tok \<and> (i = 0 \<or> sum_list (take (Suc i) probs) \<le> p))"

lemma cumsum_nth:
  "i < length xs \<Longrightarrow> cumsum a xs ! i = a + sum_list (take (Suc i) xs)"
  by (induction a xs arbitrary: i rule: cumsum.induct) (auto simp: nth_Cons split: nat.splits)

lemma keep_top_p_narrows:
  assumes ok: "torch_ok lib" and some: "j < length r" "r ! j \<noteq> None"
  shows "narrows (keep_top_p lib p r) r"
    and "keep_top_p lib p r ! tok \<noteq> None \<Longrightarrow> tok < length r \<Longrightarrow> nucleus lib p r tok"
proof -
  define idx where "idx = tl_sort_descending lib r"
  define vals where "vals = map (\<lambda>(l, x). if x then None else l)
    (zip (map ((!) r) idx) ((map (\<lambda>c. c > p) (cumsum 0 (tl_softmax lib (map ((!) r) idx))))[0 := False]))"
  have perm: "mset idx = mset [0..<length r]" and desc: "sorted_wrt (\<lambda>i j. r ! j \<le> r ! i) idx"
    using torch_okD(3,4) [OF ok, of r] unfolding idx_def by blast+
  then have idx: "distinct idx" "set idx = {..<length r}" "length idx = length r"
    using mset_eq_imp_distinct_iff mset_eq_setD mset_eq_length by (fastforce simp: lessThan_atLeast0)+
  have keep: "keep_top_p lib p r = scatter_row (length r) (zip idx vals)"
    by (simp add: keep_top_p_def idx_def vals_def Let_def)
  have cl: "length (cumsum a xs) = length xs" for a xs by (induction a xs rule: cumsum.induct) auto
  have "\<exists>i < length (map ((!) r) idx). map ((!) r) idx ! i \<noteq> None"
    using some idx by (metis in_set_conv_nth lessThan_iff length_map nth_map)
  from torch_okD(5) [OF ok this] have "length (tl_softmax lib (map ((!) r) idx)) = length r" by (simp add: idx)
  note ls = this
  then have lv: "length vals = length r" by (simp add: vals_def cl idx)
  have val: "vals ! i = r ! (idx ! i) \<or> vals ! i = None" if "i < length r" for i
    using that lv idx unfolding vals_def by (simp split: if_splits)
  have pos: "0 < length r" by (rule le_less_trans [OF le0 some(1)])
  with ls idx(3) have zero: "vals ! 0 = r ! (idx ! 0)" unfolding vals_def by (simp add: cl nth_list_update)
  have at: "keep_top_p lib p r ! (idx ! i) = vals ! i" if "i < length r" for i
  proof -
    have "map_of (zip idx vals) (idx ! i) = Some (vals ! i)"
      using that idx lv by (intro map_of_zip_nth) simp_all
    moreover have "idx ! i < length r" using that idx by (metis lessThan_iff nth_mem)
    ultimately show ?thesis unfolding keep using idx lv by (subst scatter_row_nth) simp_all
  qed
  have all: "\<exists>i < length r. idx ! i = j" if "j < length r" for j
    using that idx by (metis in_set_conv_nth lessThan_iff)
  have first: "is_max r (idx ! 0)"
  proof -
    have "r ! (idx ! i) \<le> r ! (idx ! 0)" if "i < length r" for i
      using desc that idx(3) by (cases "i = 0") (auto simp: sorted_wrt_iff_nth_less)
    then show ?thesis using all idx some(1) unfolding is_max_def by (metis lessThan_iff length_pos_if_in_set nth_mem gr_implies_not0 not_gr_zero length_0_conv)
  qed
  then have "r ! (idx ! 0) \<noteq> None"
    using some by (auto simp: is_max_def) (metis less_eq_option_Some_None not_None_eq)
  moreover have "\<forall>j < length r. keep_top_p lib p r ! j = r ! j \<or> keep_top_p lib p r ! j = None"
    using all at val by metis
  ultimately show "narrows (keep_top_p lib p r) r"
    using first at [OF pos] zero unfolding narrows_def by (metis keep length_scatter_row)
  assume tok: "keep_top_p lib p r ! tok \<noteq> None" "tok < length r"
  with all at obtain i where i: "i < length r" "idx ! i = tok" "vals ! i \<noteq> None" by metis
  have "sum_list (take (Suc i) (tl_softmax lib (map ((!) r) idx))) \<le> p" if "i \<noteq> 0"
  proof (rule ccontr)
    define sm where "sm = tl_softmax lib (map ((!) r) idx)"
    assume "\<not> sum_list (take (Suc i) (tl_softmax lib (map ((!) r) idx))) \<le> p"
    then have "cumsum 0 sm ! i > p" using cumsum_nth [of i sm 0] i(1) ls by (simp add: sm_def)
    then have "((map (\<lambda>c. c > p) (cumsum 0 sm))[0 := False]) ! i" using that i(1) ls by (simp add: cl sm_def)
    with i(1) ls idx(3) have "vals ! i = None" unfolding vals_def sm_def [symmetric] by (simp add: cl sm_def)
    with i(3) show False by simp
  qed
  then have "i < length r \<and> idx ! i = tok \<and> (i = 0 \<or> sum_list (take (Suc i) (tl_softmax lib (map ((!) r) idx))) \<le> p)"
    using i(1,2) by (cases "i = 0") simp_all
  then show "nucleus lib p r tok" unfolding nucleus_def Let_def idx_def [symmetric] by (rule exI)
qed

lemma apply_top_k_narrows:
  assumes "torch_ok lib" and "j < length r" and "r ! j \<noteq> None"
  shows "narrows (apply_top_k lib k r) r"
    and "apply_top_k lib k r ! i \<noteq> None \<Longrightarrow> i < length r \<Longrightarrow> 0 < k \<Longrightarrow> card {j. j < length r \<and> r ! i < r ! j} < nat k"
proof -
  show "narrows (apply_top_k lib k r) r"
    using keep_top_k_narrows(1) [OF assms(1) _ _ assms(2,3)] narrows_refl [OF assms(2,3)] by (simp add: apply_top_k_def)
  assume i: "apply_top_k lib k r ! i \<noteq> None" "i < length r" "0 < k"
  show "card {j. j < length r \<and> r ! i < r ! j} < nat k"
  proof (cases "k < int (length r)")
    case False
    have "card {j. j < length r \<and> r ! i < r ! j} \<le> card ({..<length r} - {i})" by (rule card_mono) auto
    also have "\<dots> < nat k" using i False by auto
    finally show ?thesis .
  next
    case True
    with i keep_top_k_narrows(3) [OF assms(1) i(3) True assms(2,3), of i] show ?thesis by (simp add: apply_top_k_def)
  qed
qed

lemma apply_top_p_narrows:
  assumes ok: "torch_ok lib" and some: "j < length r" "r ! j \<noteq> None"
  shows "narrows (apply_top_p lib p r) r"
    and "p \<le> 0 \<Longrightarrow> apply_top_p lib p r ! i \<noteq> None \<Longrightarrow> i < length r \<Longrightarrow> is_max r i"
    and "0 < p \<Longrightarrow> p < 1 \<Longrightarrow> apply_top_p lib p r ! i \<noteq> None \<Longrightarrow> i < length r \<Longrightarrow> nucleus lib p r i"
proof -
  have "r \<noteq> []" using some(1) by auto
  then have a: "is_max r (tl_argmax lib r)" by (rule torch_okD(1) [OF ok])
  have nth: "scatter_row (length r) [(tl_argmax lib r, r ! tl_argmax lib r)] ! i =
      (if i = tl_argmax lib r then r ! i else None)" if "i < length r" for i
    using that by (subst scatter_row_nth) simp_all
  have "r ! j \<le> r ! tl_argmax lib r" using a some(1) by (simp add: is_max_def)
  then have fin: "r ! tl_argmax lib r \<noteq> None" using some(2) by (cases "r ! j"; cases "r ! tl_argmax lib r") simp_all
  have "narrows (scatter_row (length r) [(tl_argmax lib r, r ! tl_argmax lib r)]) r"
    using a fin nth unfolding narrows_def by (auto simp: is_max_def)
  then show "narrows (apply_top_p lib p r) r"
    using keep_top_p_narrows(1) [OF ok some] narrows_refl [OF some] by (simp add: apply_top_p_def Let_def)
  show "nucleus lib p r i" if "0 < p" "p < 1" "apply_top_p lib p r ! i \<noteq> None" "i < length r"
    using keep_top_p_narrows(2) [OF ok some, of p i] that by (simp add: apply_top_p_def)
  show "is_max r i" if "p \<le> 0" "apply_top_p lib p r ! i \<noteq> None" "i < length r"
    using that a nth by (auto simp: apply_top_p_def Let_def split: if_splits)
qed

lemma scaled_nth:
  fixes row :: logits
  assumes "0 < t" and "i < length row" and "j < length row"
  shows "map (map_option (\<lambda>x. x / t)) row ! i = None \<longleftrightarrow> row ! i = None"
    and "map (map_option (\<lambda>x. x / t)) row ! i \<le> map (map_option (\<lambda>x. x / t)) row ! j \<longleftrightarrow> row ! i \<le> row ! j"
    and "map (map_option (\<lambda>x. x / t)) row ! i < map (map_option (\<lambda>x. x / t)) row ! j \<longleftrightarrow> row ! i < row ! j"
  using assms by (cases "row ! i"; cases "row ! j"; simp add: divide_le_cancel divide_less_cancel)+

lemma sample_row_allowed:
  assumes ok: "torch_ok lib" and some: "j < length row" "row ! j \<noteq> None"
    and s: "sample_row lib n row p = Inr (tok, filtered)"
  shows "tok < length row \<and> row ! tok \<noteq> None \<and> filtered ! tok \<noteq> None \<and>
    (sv_sampling_params.temperature p \<noteq> 0 \<and> 0 < sv_sampling_params.top_p p \<and> sv_sampling_params.top_p p < 1 \<longrightarrow>
       nucleus lib (sv_sampling_params.top_p p) (apply_top_k lib (sv_sampling_params.top_k p)
         (map (map_option (\<lambda>x. x / sv_sampling_params.temperature p)) row)) tok) \<and>
    (sv_sampling_params.temperature p = 0 \<or> sv_sampling_params.top_p p \<le> 0 \<longrightarrow> is_max row tok) \<and>
    (0 < sv_sampling_params.top_k p \<longrightarrow> card {j. j < length row \<and> row ! tok < row ! j} < nat (sv_sampling_params.top_k p))"
proof (cases "sv_sampling_params.temperature p = 0")
  case True
  with s have tok: "tok = tl_argmax lib row" "filtered = row" by (auto simp: sample_row_def)
  have "row \<noteq> []" using some(1) by auto
  then have mx: "is_max row tok" unfolding tok(1) by (rule torch_okD(1) [OF ok])
  then have "row ! j \<le> row ! tok" using some(1) by (simp add: is_max_def)
  then have "row ! tok \<noteq> None" using some(2) by (cases "row ! j"; cases "row ! tok") simp_all
  moreover have none: "{j. j < length row \<and> row ! tok < row ! j} = {}" using mx by (auto simp: is_max_def leD)
  ultimately show ?thesis using mx tok(2) True unfolding none by (simp add: is_max_def)
next
  case False
  define r where "r = map (map_option (\<lambda>x. x / sv_sampling_params.temperature p)) row"
  define rk where "rk = apply_top_k lib (sv_sampling_params.top_k p) r"
  have t: "0 < sv_sampling_params.temperature p" using False s by (auto simp: sample_row_def split: if_splits)
  have fl: "filtered = apply_top_p lib (sv_sampling_params.top_p p) rk"
    and tok: "tok = tl_multinomial lib n (tl_softmax lib filtered)"
    using s t by (auto simp: sample_row_def filter_row_def r_def rk_def Let_def)
  have len: "length r = length row" by (simp add: r_def)
  have rj: "j < length r" "r ! j \<noteq> None" using some scaled_nth(1) [OF t some(1) some(1)] by (simp_all add: r_def)
  note nk = apply_top_k_narrows [OF ok rj, of "sv_sampling_params.top_k p", folded rk_def]
  from nk(1) obtain i where i: "i < length rk" "rk ! i \<noteq> None" by (auto simp: narrows_def is_max_def)
  note np = apply_top_p_narrows [OF ok i, of "sv_sampling_params.top_p p", folded fl]
  have nar: "narrows filtered r" using narrows_trans [OF np(1) nk(1)] .
  then obtain m where m: "m < length filtered" "filtered ! m \<noteq> None" by (auto simp: narrows_def is_max_def)
  then have "\<exists>j < length filtered. filtered ! j \<noteq> None" by blast
  note sm = torch_okD(5) [OF ok this]
  from narrows_refl [OF m] obtain b where "is_max filtered b" by (auto simp: narrows_def)
  then have "\<exists>b < length (tl_softmax lib filtered). 0 < tl_softmax lib filtered ! b"
    using sm by (auto simp: is_max_def)
  then have "tok < length filtered \<and> 0 < tl_softmax lib filtered ! tok"
    using torch_okD(6) [OF ok, of "tl_softmax lib filtered" n] sm unfolding tok by metis
  then have tk: "tok < length row" "filtered ! tok \<noteq> None" using sm nar len by (auto simp: narrows_def)
  then have rt: "filtered ! tok = r ! tok" "rk ! tok = r ! tok" "rk ! tok \<noteq> None"
    using nar np(1) nk(1) len by (metis narrows_def)+
  have mx: "is_max row tok" if "sv_sampling_params.top_p p \<le> 0"
  proof -
    have "is_max rk tok" using np(2) that tk nk(1) len by (simp add: narrows_def)
    then have "is_max r tok" using is_max_narrows [OF nk(1)] by blast
    then have "\<forall>i < length row. r ! i \<le> r ! tok" using len by (simp add: is_max_def)
    then show ?thesis using scaled_nth(2) [OF t _ tk(1), folded r_def] tk(1) unfolding is_max_def by blast
  qed
  have "{j. j < length row \<and> row ! tok < row ! j} = {j. j < length r \<and> r ! tok < r ! j}"
    using scaled_nth(3) [OF t tk(1)] by (auto simp: r_def)
  then have "0 < sv_sampling_params.top_k p \<Longrightarrow>
      card {j. j < length row \<and> row ! tok < row ! j} < nat (sv_sampling_params.top_k p)"
    using nk(2) [of tok] rt(3) tk(1) len by simp
  moreover have "row ! tok \<noteq> None" using rt tk scaled_nth(1) [OF t tk(1) tk(1)] by (simp add: r_def)
  moreover have "0 < sv_sampling_params.top_p p \<Longrightarrow> sv_sampling_params.top_p p < 1 \<Longrightarrow>
      nucleus lib (sv_sampling_params.top_p p) rk tok"
    using np(3) tk nk(1) len by (simp add: narrows_def)
  ultimately show ?thesis using tk mx False unfolding rk_def r_def by blast
qed

section \<open>Properties\<close>

lemma map_result_nth:
  "map_result f xs = Inr ys \<Longrightarrow> length ys = length xs \<and> (\<forall>i < length xs. f (xs ! i) = Inr (ys ! i))"
  by (induction xs arbitrary: ys) (auto simp: nth_Cons split: sum.splits nat.splits)

text \<open>
  C17: Every token the sampler returns is one its parameters allow: its logit is
  finite; with temperature zero, or \<^verbatim>\<open>top_p\<close> zero or less, it is a largest logit of
  the row; with a positive \<^verbatim>\<open>top_k\<close> fewer than \<^verbatim>\<open>top_k\<close> logits of the row are larger;
  and with \<^verbatim>\<open>top_p\<close> between zero and one it is in the nucleus of the row scaled by the
  temperature and cut to \<^verbatim>\<open>top_k\<close>: it comes first in the descending order, or the
  probabilities of that order up to it, itself included, sum up to at most \<^verbatim>\<open>top_p\<close>.
\<close>

theorem sampled_token_allowed:
  assumes "torch_ok lib" and "sample lib log_softmax draw vocab (Rank2 rows) params = Inr out"
    and "\<forall>row \<in> set rows. length row = vocab \<and> (\<exists>x. Some x \<in> set row)" and "i < length rows"
    and "tok = so_token_ids out ! i"
  shows "length (so_token_ids out) = length rows \<and> tok < vocab \<and> rows ! i ! tok \<noteq> None \<and>
    (sv_sampling_params.temperature (params ! i) = 0 \<or> sv_sampling_params.top_p (params ! i) \<le> 0 \<longrightarrow>
       (\<forall>j < vocab. rows ! i ! j \<le> rows ! i ! tok)) \<and>
    (0 < sv_sampling_params.top_k (params ! i) \<longrightarrow>
       card {j. j < vocab \<and> rows ! i ! tok < rows ! i ! j} < nat (sv_sampling_params.top_k (params ! i))) \<and>
    (sv_sampling_params.temperature (params ! i) \<noteq> 0 \<and> 0 < sv_sampling_params.top_p (params ! i) \<and>
     sv_sampling_params.top_p (params ! i) < 1 \<longrightarrow>
       nucleus lib (sv_sampling_params.top_p (params ! i)) (apply_top_k lib (sv_sampling_params.top_k (params ! i))
         (map (map_option (\<lambda>x. x / sv_sampling_params.temperature (params ! i))) (rows ! i))) tok)"
proof -
  let ?z = "zip [0..<length rows] (zip rows params)"
  from assms(2) obtain tfs where tfs: "map_result (\<lambda>(i, row, p). sample_row lib (draw + i) row p) ?z = Inr tfs"
    and out: "so_token_ids out = map fst tfs" and len: "length rows = length params"
    by (auto simp: sample_def Let_def split: if_splits sum.splits)
  note nth = map_result_nth [OF tfs]
  have lt: "length tfs = length rows" using nth len by simp
  obtain filtered where s: "sample_row lib (draw + i) (rows ! i) (params ! i) = Inr (tok, filtered)"
    using nth assms(4,5) len out lt by (cases "tfs ! i") auto
  have row: "length (rows ! i) = vocab" "\<exists>x. Some x \<in> set (rows ! i)" using assms(3,4) by auto
  then obtain j where "j < length (rows ! i)" "rows ! i ! j \<noteq> None" by (metis in_set_conv_nth option.distinct(1))
  from sample_row_allowed [OF assms(1) this s] row(1) lt out show ?thesis by (simp add: is_max_def)
qed

text \<open>A library that sorts, and draws the first token of positive probability.\<close>

definition order_desc :: "logits \<Rightarrow> nat list" where
  "order_desc row = rev (sort_key ((!) row) [0..<length row])"

definition example_torch :: torch_lib where
  "example_torch =
     \<lparr>tl_argmax = (\<lambda>row. hd (order_desc row)), tl_topk = (\<lambda>row k. take k (order_desc row)),
      tl_sort_descending = order_desc,
      tl_softmax = (\<lambda>row. let z = sum_list (map (\<lambda>l. case l of None \<Rightarrow> 0 | Some x \<Rightarrow> exp x) row)
                          in map (\<lambda>l. case l of None \<Rightarrow> 0 | Some x \<Rightarrow> exp x / z) row),
      tl_multinomial = (\<lambda>k ps. length (takeWhile (\<lambda>p. p \<le> 0) ps)), tl_randn = (\<lambda>_ _ _. [])\<rparr>"

lemma order_desc_props:
  "mset (order_desc row) = mset [0..<length row]" "set (order_desc row) = {..<length row}"
  "distinct (order_desc row)" "length (order_desc row) = length row"
  "sorted_wrt (\<lambda>i j. row ! j \<le> row ! i) (order_desc row)"
proof -
  have "sorted_wrt (\<lambda>i j. row ! i \<le> row ! j) (sort_key ((!) row) [0..<length row])"
    using sorted_sort_key [of "(!) row" "[0..<length row]"] by (simp add: sorted_map)
  then show "sorted_wrt (\<lambda>i j. row ! j \<le> row ! i) (order_desc row)" by (simp add: order_desc_def sorted_wrt_rev)
qed (auto simp: order_desc_def)

lemma example_softmax:
  assumes "j < length row" and "row ! j \<noteq> None" and "i < length row"
  shows "0 \<le> tl_softmax example_torch row ! i \<and> (0 < tl_softmax example_torch row ! i \<longleftrightarrow> row ! i \<noteq> None)"
proof -
  let ?e = "\<lambda>l :: real option. case l of None \<Rightarrow> 0 | Some x \<Rightarrow> exp x"
  have nonneg: "0 \<le> ?e l" for l by (simp split: option.splits)
  from assms obtain x where x: "row ! j = Some x" by blast
  then have "Some x \<in> set row" using assms(1) by (metis nth_mem)
  then have "exp x \<in> set (map ?e row)" by force
  then have "exp x \<le> sum_list (map ?e row)" by (intro member_le_sum_list) (auto split: option.splits)
  then have "0 < sum_list (map ?e row)" using exp_gt_zero [of x] by linarith
  then show ?thesis using assms(3) by (auto simp: example_torch_def Let_def split: option.splits)
qed

lemma example_torch_ok: "torch_ok example_torch"
proof -
  have top: "row ! j \<le> row ! i" if "i \<in> set (take k (order_desc row))" "j < length row" "j \<notin> set (take k (order_desc row))"
    for row :: logits and i j k
  proof -
    have "sorted_wrt (\<lambda>i j. row ! j \<le> row ! i) (take k (order_desc row) @ drop k (order_desc row))"
      using order_desc_props(5) by simp
    moreover have "j \<in> set (drop k (order_desc row))"
      using that order_desc_props(2) by (metis UnE append_take_drop_id lessThan_iff set_append)
    ultimately show ?thesis using that(1) by (simp only: sorted_wrt_append)
  qed
  have mx: "is_max row (hd (order_desc row))" if "row \<noteq> []" for row
  proof -
    have len: "0 < length (order_desc row)" using that order_desc_props(4) by simp
    then have hd: "hd (order_desc row) = order_desc row ! 0" by (simp add: hd_conv_nth)
    have "row ! (order_desc row ! i) \<le> row ! (order_desc row ! 0)" if "i < length row" for i
      using order_desc_props(4,5) [of row] that by (cases "i = 0") (auto simp: sorted_wrt_iff_nth_less)
    then show ?thesis unfolding is_max_def hd
      using order_desc_props(2,4) [of row] len by (metis in_set_conv_nth lessThan_iff nth_mem)
  qed
  have draw: "length (takeWhile (\<lambda>p. p \<le> 0) ps) < length ps \<and> 0 < ps ! length (takeWhile (\<lambda>p. p \<le> 0) ps)"
    if "\<exists>j < length ps. 0 < ps ! j" for ps :: "real list"
  proof -
    have "takeWhile (\<lambda>p. p \<le> 0) ps \<noteq> ps"
      using that by (metis linorder_not_less nth_mem takeWhile_eq_all_conv)
    then have "length (takeWhile (\<lambda>p. p \<le> 0) ps) < length ps"
      using takeWhile_eq_take [of "\<lambda>p. p \<le> 0" ps] length_takeWhile_le [of "\<lambda>p. p \<le> 0" ps]
      by (metis le_neq_implies_less take_all_iff order_refl)
    with nth_length_takeWhile [OF this] show ?thesis by (simp add: not_le)
  qed
  show ?thesis unfolding torch_ok_def
  proof (intro conjI allI impI)
    fix row :: logits assume "\<exists>j < length row. row ! j \<noteq> None"
    then obtain j where "j < length row" "row ! j \<noteq> None" by blast
    note sm = example_softmax [OF this]
    show "length (tl_softmax example_torch row) = length row" by (simp add: example_torch_def Let_def)
    fix i assume "i < length row"
    from sm [OF this] show "0 \<le> tl_softmax example_torch row ! i"
      and "0 < tl_softmax example_torch row ! i \<Longrightarrow> row ! i \<noteq> None" by blast+
    assume mx: "is_max row i"
    then have "row ! j \<le> row ! i" using \<open>j < length row\<close> by (simp add: is_max_def)
    then have "row ! i \<noteq> None" using \<open>row ! j \<noteq> None\<close> by (cases "row ! i"; cases "row ! j") simp_all
    with sm [OF \<open>i < length row\<close>] show "0 < tl_softmax example_torch row ! i" by blast
  qed (use order_desc_props top mx draw in \<open>auto simp: example_torch_def dest: in_set_takeD\<close>)
qed

theorem sampled_token_allowed_witness:
  "\<exists>out. sample example_torch id 0 3 (Rank2 [[Some 1, Some 5, Some 3], [None, Some 2, Some 2]])
      [default_sampling_params\<lparr>sv_sampling_params.top_k := 2\<rparr>, default_sampling_params\<lparr>sv_sampling_params.temperature := 0\<rparr>] =
      Inr out \<and> so_token_ids out ! 1 \<noteq> 0"
proof -
  let ?rows = "[[Some 1, Some 5, Some 3], [None, Some 2, Some (2::real)]]"
  let ?ps = "[default_sampling_params\<lparr>sv_sampling_params.top_k := 2\<rparr>, default_sampling_params\<lparr>sv_sampling_params.temperature := 0\<rparr>]"
  obtain out where out: "sample example_torch id 0 3 (Rank2 ?rows) ?ps = Inr out"
    by (simp add: sample_def sample_row_def Let_def default_sampling_params_def)
  have "?rows ! 1 ! (so_token_ids out ! 1) \<noteq> None"
    using sampled_token_allowed [OF example_torch_ok out, of 1 "so_token_ids out ! 1"] by auto
  then have "so_token_ids out ! 1 \<noteq> 0" by (metis nth_Cons_0 nth_Cons_Suc One_nat_def)
  with out show ?thesis by blast
qed

end
