(* ===== verification/Decimal.thy ===== *)
theory Decimal
  imports Main
begin

text \<open>
  Decimal numerals as Python prints and reads them: \<^verbatim>\<open>str(n)\<close> for a natural number,
  \<^verbatim>\<open>int(s)\<close> for a string of digits or any string, and the greedy scan of the
  digits at the start of a string. Strings are of ASCII characters.
\<close>

section \<open>Printing and reading\<close>

definition digit_char :: "nat \<Rightarrow> char" where
  "digit_char n = char_of (48 + n)"

definition is_digit :: "char \<Rightarrow> bool" where
  "is_digit c \<longleftrightarrow> 48 \<le> (of_char c :: nat) \<and> (of_char c :: nat) \<le> 57"

definition digit_val :: "char \<Rightarrow> nat" where
  "digit_val c = of_char c - 48"

fun str_nat :: "nat \<Rightarrow> string" where
  "str_nat n = (if n < 10 then [digit_char n] else str_nat (n div 10) @ [digit_char (n mod 10)])"

declare str_nat.simps [simp del]

definition digits_value :: "string \<Rightarrow> nat" where
  "digits_value ds = foldl (\<lambda>a c. 10 * a + digit_val c) 0 ds"

lemma digit_char_val [simp]: "n < 10 \<Longrightarrow> digit_val (digit_char n) = n" "n < 10 \<Longrightarrow> is_digit (digit_char n)"
  by (simp_all add: digit_char_def digit_val_def is_digit_def)

lemma str_nat_digits: "\<forall>c \<in> set (str_nat n). is_digit c"
proof (induction n rule: str_nat.induct)
  case (1 n)
  then show ?case by (subst str_nat.simps) auto
qed

lemma str_nat_not_Nil [simp]: "str_nat n \<noteq> []"
  by (subst str_nat.simps) simp

lemma digits_value_append [simp]: "digits_value (xs @ [c]) = 10 * digits_value xs + digit_val c"
  by (simp add: digits_value_def)

lemma digits_value_str_nat [simp]: "digits_value (str_nat n) = n"
proof (induction n rule: str_nat.induct)
  case (1 n)
  show ?case
  proof (cases "n < 10")
    case True
    then show ?thesis by (subst str_nat.simps) (simp add: digits_value_def)
  next
    case False
    with 1 show ?thesis by (subst str_nat.simps) simp
  qed
qed

lemma str_nat_inject [simp]: "str_nat m = str_nat n \<longleftrightarrow> m = n"
  by (metis digits_value_str_nat)

section \<open>Scanning\<close>

text \<open>\<^verbatim>\<open>\d+\<close> at the start of a string, greedily: the digits and the rest.\<close>

definition scan_digits :: "string \<Rightarrow> (string \<times> string) option" where
  "scan_digits s = (let ds = takeWhile is_digit s in if ds = [] then None else Some (ds, dropWhile is_digit s))"

lemma scan_digits_str_nat:
  assumes "r = [] \<or> \<not> is_digit (hd r)"
  shows "scan_digits (str_nat n @ r) = Some (str_nat n, r)"
proof -
  have "takeWhile is_digit r = []" "dropWhile is_digit r = r" using assms by (cases r; simp)+
  then show ?thesis using str_nat_digits [of n] by (simp add: scan_digits_def takeWhile_append2 dropWhile_append2)
qed

section \<open>Reading any string\<close>

text \<open>
  \<^verbatim>\<open>int(s)\<close>: surrounding white space, an optional sign, and digits, between which
  single underscores may stand.
\<close>

definition py_space :: "char \<Rightarrow> bool" where
  "py_space c \<longleftrightarrow> (of_char c :: nat) \<in> {9, 10, 11, 12, 13, 28, 29, 30, 31, 32}"

definition py_strip :: "string \<Rightarrow> string" where
  "py_strip s = rev (dropWhile py_space (rev (dropWhile py_space s)))"

fun underscored_digits :: "string \<Rightarrow> bool" where
  "underscored_digits [] = False"
| "underscored_digits [c] = is_digit c"
| "underscored_digits (c # d # cs) =
     (is_digit c \<and> (if d = CHR ''_'' then underscored_digits cs else underscored_digits (d # cs)))"

definition py_int_of_str :: "string \<Rightarrow> int option" where
  "py_int_of_str s =
     (let t = py_strip s;
          (neg, ds) = (case t of
             [] \<Rightarrow> (False, [])
           | c # cs \<Rightarrow> if c = CHR ''-'' then (True, cs) else if c = CHR ''+'' then (False, cs) else (False, t))
      in if underscored_digits ds
         then Some ((if neg then -1 else 1) * int (digits_value (filter (\<lambda>c. c \<noteq> CHR ''_'') ds)))
         else None)"

definition str_int :: "int \<Rightarrow> string" where
  "str_int n = (if n < 0 then CHR ''-'' # str_nat (nat (- n)) else str_nat (nat n))"

lemma is_digit_facts: "is_digit c \<Longrightarrow> \<not> py_space c \<and> c \<noteq> CHR ''_'' \<and> c \<noteq> CHR ''-'' \<and> c \<noteq> CHR ''+''"
  by (auto simp: is_digit_def py_space_def)

lemma underscored_all_digits: "ds \<noteq> [] \<Longrightarrow> \<forall>c \<in> set ds. is_digit c \<Longrightarrow> underscored_digits ds"
  by (induction ds rule: underscored_digits.induct) (auto dest: is_digit_facts)

lemma py_strip_id:
  assumes "s \<noteq> []" and "\<not> py_space (hd s)" and "\<not> py_space (last s)"
  shows "py_strip s = s"
proof -
  have "dropWhile py_space s = s" using assms by (cases s) simp_all
  moreover have "dropWhile py_space (rev s) = rev s" using assms by (cases "rev s") (simp_all add: last_rev [symmetric])
  ultimately show ?thesis by (simp add: py_strip_def)
qed

lemma py_int_of_str_int [simp]: "py_int_of_str (str_int n) = Some n"
proof -
  have ds: "\<forall>c \<in> set (str_nat k). is_digit c" for k by (rule str_nat_digits)
  then have f: "filter (\<lambda>c. c \<noteq> CHR ''_'') (str_nat k) = str_nat k" for k
    by (auto simp: filter_id_conv dest: is_digit_facts)
  have u: "underscored_digits (str_nat k)" for k using underscored_all_digits ds by simp
  have l: "\<not> py_space (last (str_nat k))" and h: "is_digit (hd (str_nat k))" for k
    using ds is_digit_facts by (metis last_in_set str_nat_not_Nil, metis hd_in_set str_nat_not_Nil)
  show ?thesis
  proof (cases "n < 0")
    case True
    have "py_strip (CHR ''-'' # str_nat k) = CHR ''-'' # str_nat k" for k
      using l by (intro py_strip_id) (simp_all add: py_space_def)
    with True u f show ?thesis by (simp add: py_int_of_str_def str_int_def)
  next
    case False
    define k where "k = nat n"
    have s: "py_strip (str_nat k) = str_nat k" using l h is_digit_facts by (intro py_strip_id) simp_all
    obtain c cs where c: "str_nat k = c # cs" by (cases "str_nat k") simp_all
    then have "c \<noteq> CHR ''-''" "c \<noteq> CHR ''+''" using h [of k] is_digit_facts by auto
    then have "py_int_of_str (str_nat k) = Some (int k)"
      using u [of k] f [of k] digits_value_str_nat [of k] s c by (simp add: py_int_of_str_def)
    then show ?thesis using False by (simp add: str_int_def k_def)
  qed
qed

end
