(* ===== verification/Context_Pilot.thy ===== *)
theory Context_Pilot
  imports Prelude Decimal Complex_Main
begin

text \<open>
  The adapters to the external context index: \<^verbatim>\<open>src/moe_infinity/serving/cp_kv_interface.py\<close>,
  which ranks requests by expected reuse of cached prefixes, and
  \<^verbatim>\<open>serving/contextpilot_middleware.py\<close>, which reorders and deduplicates the
  messages of a chat. The index package and the middleware object behind
  \<^verbatim>\<open>getattr\<close> are parameters: \<open>None\<close> stands for a method that is missing, an answer is
  an exception or a value, and each call is numbered so that answers may vary.
  Measured times are arguments.
\<close>

section \<open>Values of the middleware\<close>

datatype cp_value = CInt int | CBool bool | CFloat real | CStr string | CList "cp_value list" | COther

record cp_object =
  cpo_predict :: "(nat \<Rightarrow> string \<Rightarrow> int list \<Rightarrow> cp_value result) option"
  cpo_cached_blocks :: "(nat \<Rightarrow> string \<Rightarrow> cp_value result) option"
  cpo_allocated :: bool
  cpo_freed :: bool
  cpo_ranker :: "(nat \<Rightarrow> string list \<Rightarrow> cp_value result) option"

datatype notification = BlocksAllocated string "int list" | BlocksFreed string "int set"

record cp_kv_manager =
  ck_request_to_blocks :: "(string, int list) odict"
  ck_notified :: "notification list"

definition cp_kv_init :: cp_kv_manager where
  "cp_kv_init = \<lparr>ck_request_to_blocks = [], ck_notified = []\<rparr>"

definition clamp01 :: "real \<Rightarrow> real" where
  "clamp01 v = (if v < 0 then 0 else if v > 1 then 1 else v)"

text \<open>\<^verbatim>\<open>int(x)\<close> of a float truncates toward zero.\<close>

definition truncate :: "real \<Rightarrow> int" where
  "truncate x = (if 0 \<le> x then \<lfloor>x\<rfloor> else \<lceil>x\<rceil>)"

fun normalize_int_list :: "cp_value list \<Rightarrow> int list" where
  "normalize_int_list [] = []"
| "normalize_int_list (v # vs) =
     (case v of
        CBool b \<Rightarrow> [of_bool b]
      | CInt i \<Rightarrow> [i]
      | CFloat x \<Rightarrow> [truncate x]
      | CStr s \<Rightarrow> (case py_int_of_str s of Some i \<Rightarrow> [i] | None \<Rightarrow> [])
      | _ \<Rightarrow> []) @ normalize_int_list vs"

section \<open>The manager without an index\<close>

definition null_predict_prefix_reuse :: "string \<Rightarrow> int list \<Rightarrow> real" where
  "null_predict_prefix_reuse rid tokens = 0"

definition null_get_cp_cached_blocks :: "string \<Rightarrow> int list" where
  "null_get_cp_cached_blocks rid = []"

definition null_get_allocation_priority :: "string list \<Rightarrow> string list" where
  "null_get_allocation_priority rids = rids"

section \<open>The manager over the middleware\<close>

definition predict_prefix_reuse :: "cp_object \<Rightarrow> nat \<Rightarrow> string \<Rightarrow> int list \<Rightarrow> real" where
  "predict_prefix_reuse mw k rid tokens =
     (case cpo_predict mw of
        None \<Rightarrow> 0
      | Some predictor \<Rightarrow>
          (case predictor k rid tokens of
             Inl _ \<Rightarrow> 0
           | Inr (CInt i) \<Rightarrow> clamp01 (real_of_int i)
           | Inr (CBool b) \<Rightarrow> clamp01 (of_bool b)
           | Inr (CFloat x) \<Rightarrow> clamp01 x
           | Inr _ \<Rightarrow> 0))"

definition get_cp_cached_blocks :: "cp_object \<Rightarrow> nat \<Rightarrow> string \<Rightarrow> cp_kv_manager \<Rightarrow> int list" where
  "get_cp_cached_blocks mw k rid m =
     (let own = (case map_of (ck_request_to_blocks m) rid of None \<Rightarrow> [] | Some bs \<Rightarrow> bs)
      in case cpo_cached_blocks mw of
           None \<Rightarrow> own
         | Some getter \<Rightarrow> (case getter k rid of Inr (CList vs) \<Rightarrow> normalize_int_list vs | _ \<Rightarrow> own))"

definition notify_blocks_allocated :: "cp_object \<Rightarrow> string \<Rightarrow> int list \<Rightarrow> cp_kv_manager \<Rightarrow> cp_kv_manager" where
  "notify_blocks_allocated mw rid hashes m =
     (let m1 = m\<lparr>ck_request_to_blocks := AList.update rid hashes (ck_request_to_blocks m)\<rparr>
      in if cpo_allocated mw then m1\<lparr>ck_notified := ck_notified m1 @ [BlocksAllocated rid hashes]\<rparr> else m1)"

definition notify_blocks_freed :: "cp_object \<Rightarrow> string \<Rightarrow> int list \<Rightarrow> cp_kv_manager \<Rightarrow> cp_kv_manager" where
  "notify_blocks_freed mw rid hashes m =
     (let freed = set hashes;
          current = (case map_of (ck_request_to_blocks m) rid of None \<Rightarrow> [] | Some bs \<Rightarrow> bs);
          remaining = filter (\<lambda>h. h \<notin> freed) current;
          m1 = (if remaining \<noteq> [] then m\<lparr>ck_request_to_blocks := AList.update rid remaining (ck_request_to_blocks m)\<rparr>
                else m\<lparr>ck_request_to_blocks := AList.delete rid (ck_request_to_blocks m)\<rparr>)
      in if cpo_freed mw then m1\<lparr>ck_notified := ck_notified m1 @ [BlocksFreed rid freed]\<rparr> else m1)"

fun take_ranked :: "(cp_value \<Rightarrow> string) \<Rightarrow> string set \<Rightarrow> cp_value list \<Rightarrow> string list \<Rightarrow> string list" where
  "take_ranked py_str ids [] out = out"
| "take_ranked py_str ids (v # vs) out =
     (if py_str v \<in> ids \<and> py_str v \<notin> set out then take_ranked py_str ids vs (out @ [py_str v])
      else take_ranked py_str ids vs out)"

definition get_allocation_priority ::
  "(cp_value \<Rightarrow> string) \<Rightarrow> cp_object \<Rightarrow> nat \<Rightarrow> string list \<Rightarrow> string list" where
  "get_allocation_priority py_str mw k rids =
     (let by_score = map snd (sort_key (\<lambda>(i, rid). - predict_prefix_reuse mw (k + i) rid [])
                                (zip [0..<length rids] rids))
      in case cpo_ranker mw of
           None \<Rightarrow> by_score
         | Some ranker \<Rightarrow>
             (case ranker k rids of
                Inr (CList vs) \<Rightarrow>
                  (let out = take_ranked py_str (set rids) vs [] in out @ filter (\<lambda>r. r \<notin> set out) rids)
              | _ \<Rightarrow> by_score))"

section \<open>Messages\<close>

datatype msg_value = MStr string | MNone | MOther

type_synonym message = "(string, msg_value) odict"

definition msg_get :: "string \<Rightarrow> message \<Rightarrow> msg_value" where
  "msg_get k m = (case map_of m k of None \<Rightarrow> MNone | Some v \<Rightarrow> v)"

text \<open>What the index returns: a list of messages, some of which may not be dictionaries, something false,
  or something that can be neither copied nor reversed as a list.\<close>

datatype cp_item = Dict message | NotDict
datatype cp_reply = ReplyList "cp_item list" | ReplyFalsy | ReplyOther

record context_pilot =
  cpi_optimize :: "nat \<Rightarrow> string list \<Rightarrow> string \<Rightarrow> cp_reply result"
  cpi_deduplicate :: "(nat \<Rightarrow> message list \<Rightarrow> cp_reply result) option"

record middleware =
  mw_enabled :: bool
  mw_reorder_enabled :: bool
  mw_dedup_enabled :: bool
  mw_token_savings_total :: int
  mw_requests_processed :: int
  mw_savings_pct_total :: real
  mw_reorder_count :: int
  mw_dedup_count :: int
  mw_last_reorder_latency :: real
  mw_last_dedup_latency :: real
  mw_last_tokens_saved :: int
  mw_last_savings_pct :: real

definition middleware_init :: "bool \<Rightarrow> bool \<Rightarrow> bool \<Rightarrow> bool \<Rightarrow> middleware" where
  "middleware_init installed enabled dedup reorder =
     \<lparr>mw_enabled = (installed \<and> enabled), mw_reorder_enabled = (installed \<and> reorder),
      mw_dedup_enabled = (installed \<and> dedup), mw_token_savings_total = 0, mw_requests_processed = 0,
      mw_savings_pct_total = 0, mw_reorder_count = 0, mw_dedup_count = 0, mw_last_reorder_latency = 0,
      mw_last_dedup_latency = 0, mw_last_tokens_saved = 0, mw_last_savings_pct = 0\<rparr>"

fun extract_query_loop ::
  "(msg_value \<Rightarrow> string) \<Rightarrow> nat \<Rightarrow> message list \<Rightarrow> string \<times> nat option \<Rightarrow> string \<times> nat option" where
  "extract_query_loop py_str i [] acc = acc"
| "extract_query_loop py_str i (m # ms) acc =
     extract_query_loop py_str (i + 1) ms
       (if msg_get ''role'' m \<noteq> MStr ''user'' then acc
        else if msg_get ''content'' m = MNone then acc
        else (py_str (msg_get ''content'' m), Some i))"

definition extract_query :: "(msg_value \<Rightarrow> string) \<Rightarrow> message list \<Rightarrow> string \<times> nat option" where
  "extract_query py_str ms = extract_query_loop py_str 0 ms ([], None)"

fun collect_contexts :: "(msg_value \<Rightarrow> string) \<Rightarrow> nat option \<Rightarrow> nat \<Rightarrow> message list \<Rightarrow> string list" where
  "collect_contexts py_str q i [] = []"
| "collect_contexts py_str q i (m # ms) =
     (if msg_get ''content'' m = MNone then collect_contexts py_str q (i + 1) ms
      else if q = Some i \<and> msg_get ''role'' m = MStr ''user'' then collect_contexts py_str q (i + 1) ms
      else py_str (msg_get ''content'' m) # collect_contexts py_str q (i + 1) ms)"

text \<open>\<^verbatim>\<open>[dict(message) for message in items]\<close>.\<close>

fun copy_items :: "cp_item list \<Rightarrow> message list result" where
  "copy_items [] = Inr []"
| "copy_items (NotDict # xs) = Inl TypeError"
| "copy_items (Dict m # xs) = map_sum id ((#) m) (copy_items xs)"

text \<open>A call of \<^verbatim>\<open>optimize\<close>, repeated with keyword arguments if it raises \<^verbatim>\<open>TypeError\<close>.\<close>

definition call_optimize :: "context_pilot \<Rightarrow> nat \<Rightarrow> string list \<Rightarrow> string \<Rightarrow> (bool \<times> py_error) + cp_reply" where
  "call_optimize cp k docs query =
     (case cpi_optimize cp k docs query of
        Inr r \<Rightarrow> Inr r
      | Inl e \<Rightarrow>
          if e = TypeError then map_sum (Pair True) id (cpi_optimize cp (k + 1) docs query) else Inl (False, e))"

definition reorder_messages ::
  "(msg_value \<Rightarrow> string) \<Rightarrow> context_pilot \<Rightarrow> nat \<Rightarrow> message list \<Rightarrow> message list result" where
  "reorder_messages py_str cp k ms =
     (let (query, q) = extract_query py_str ms
      in case call_optimize cp k (collect_contexts py_str q 0 ms) query of
           Inl (retried, e) \<Rightarrow> if \<not> retried \<and> e \<in> {ValueError, IndexError} then Inr ms else Inl e
         | Inr (ReplyList xs) \<Rightarrow> copy_items xs
         | Inr _ \<Rightarrow> Inr ms)"

definition estimated_tokens :: "message \<Rightarrow> int" where
  "estimated_tokens m = (case msg_get ''content'' m of MStr c \<Rightarrow> int (length c) div 4 | _ \<Rightarrow> 0)"

definition savings_pct :: "int \<Rightarrow> int \<Rightarrow> real" where
  "savings_pct saved original = (if original > 0 then real_of_int saved / real_of_int original * 100 else 0)"

definition estimate_tokens_saved :: "message list \<Rightarrow> message list \<Rightarrow> int \<times> real" where
  "estimate_tokens_saved before after =
     (let b = sum_list (map estimated_tokens before); a = sum_list (map estimated_tokens after);
          saved = max 0 (b - a)
      in (saved, savings_pct saved b))"

definition dedup_marker :: "nat \<Rightarrow> string" where
  "dedup_marker i = ''[Deduplicated content; same as message #'' @ str_nat i @ '']''"

fun dedup_loop ::
  "nat \<Rightarrow> message list \<Rightarrow> (string \<rightharpoonup> nat) \<Rightarrow> message list \<Rightarrow> int \<Rightarrow> int \<Rightarrow> message list \<times> int \<times> int" where
  "dedup_loop i [] seen out saved original = (out, saved, original)"
| "dedup_loop i (m # ms) seen out saved original =
     (case msg_get ''content'' m of
        MStr c \<Rightarrow>
          (let n = int (length c) div 4
           in case seen c of
                None \<Rightarrow> dedup_loop (i + 1) ms (seen(c \<mapsto> i)) (out @ [m]) saved (original + n)
              | Some j \<Rightarrow>
                  dedup_loop (i + 1) ms seen (out @ [AList.update ''content'' (MStr (dedup_marker j)) m])
                    (saved + n) (original + n))
      | _ \<Rightarrow> dedup_loop (i + 1) ms seen (out @ [m]) saved original)"

definition fallback_deduplicate :: "message list \<Rightarrow> message list \<times> int \<times> real" where
  "fallback_deduplicate ms =
     (case dedup_loop 0 ms Map.empty [] 0 0 of (out, saved, original) \<Rightarrow> (out, saved, savings_pct saved original))"

definition normalize_candidate :: "(msg_value \<Rightarrow> string) \<Rightarrow> message \<Rightarrow> message" where
  "normalize_candidate py_str m =
     (let text = (\<lambda>v. if v = MNone then [] else py_str v)
      in [(''role'', MStr (text (msg_get ''role'' m))), (''content'', MStr (text (msg_get ''content'' m)))])"

definition deduplicate_messages ::
  "(msg_value \<Rightarrow> string) \<Rightarrow> context_pilot \<Rightarrow> nat \<Rightarrow> message list \<Rightarrow> (message list \<times> int \<times> real) result" where
  "deduplicate_messages py_str cp k ms =
     (case cpi_deduplicate cp of
        None \<Rightarrow> Inr (fallback_deduplicate ms)
      | Some f \<Rightarrow>
          (case f k ms of
             Inl e \<Rightarrow> if e \<in> {TypeError, ValueError, IndexError} then Inr (fallback_deduplicate ms) else Inl e
           | Inr (ReplyList xs) \<Rightarrow>
               (let out = map (normalize_candidate py_str) (concat (map (\<lambda>x. case x of Dict m \<Rightarrow> [m] | NotDict \<Rightarrow> []) xs))
                in Inr (out, estimate_tokens_saved ms out))
           | Inr _ \<Rightarrow> Inr (fallback_deduplicate ms)))"

section \<open>Requests\<close>

definition record_failure_stats :: "middleware \<Rightarrow> middleware" where
  "record_failure_stats w =
     w\<lparr>mw_requests_processed := mw_requests_processed w + 1, mw_last_reorder_latency := 0,
       mw_last_dedup_latency := 0, mw_last_tokens_saved := 0, mw_last_savings_pct := 0\<rparr>"

text \<open>
  \<open>t1\<close> and \<open>t2\<close> are the measured latencies; the calls of the index are numbered from
  \<open>k\<close>, two for reordering and one for deduplication.
\<close>

definition process_chat_request ::
  "(msg_value \<Rightarrow> string) \<Rightarrow> context_pilot \<Rightarrow> nat \<Rightarrow> real \<Rightarrow> real \<Rightarrow> message list \<Rightarrow> middleware \<Rightarrow> message list \<times> middleware" where
  "process_chat_request py_str cp k t1 t2 ms w =
     (if \<not> mw_enabled w then (ms, w)
      else if ms = [] then ([], w)
      else case (if mw_reorder_enabled w then reorder_messages py_str cp k ms else Inr ms) of
             Inl _ \<Rightarrow> (ms, record_failure_stats w)
           | Inr ordered \<Rightarrow>
               (case (if mw_dedup_enabled w then deduplicate_messages py_str cp (k + 2) ordered else Inr (ordered, 0, 0)) of
                  Inl _ \<Rightarrow> (ms, record_failure_stats w)
                | Inr (out, saved, pct) \<Rightarrow>
                    (out, w\<lparr>mw_token_savings_total := mw_token_savings_total w + saved,
                            mw_requests_processed := mw_requests_processed w + 1,
                            mw_savings_pct_total := mw_savings_pct_total w + pct,
                            mw_reorder_count := mw_reorder_count w + of_bool (mw_reorder_enabled w),
                            mw_dedup_count := mw_dedup_count w + of_bool (mw_dedup_enabled w),
                            mw_last_reorder_latency := (if mw_reorder_enabled w then t1 else 0),
                            mw_last_dedup_latency := (if mw_dedup_enabled w then t2 else 0),
                            mw_last_tokens_saved := saved, mw_last_savings_pct := pct\<rparr>)))"

text \<open>The content of the last message that has one, if every message after it is a dictionary.\<close>

fun last_content :: "cp_item list \<Rightarrow> string option result" where
  "last_content [] = Inr None"
| "last_content (NotDict # xs) = Inl AttributeError"
| "last_content (Dict m # xs) = (case msg_get ''content'' m of MStr c \<Rightarrow> Inr (Some c) | _ \<Rightarrow> last_content xs)"

definition record_completion_stats :: "real \<Rightarrow> middleware \<Rightarrow> middleware" where
  "record_completion_stats t w =
     w\<lparr>mw_requests_processed := mw_requests_processed w + 1, mw_reorder_count := mw_reorder_count w + 1,
       mw_last_reorder_latency := t, mw_last_dedup_latency := 0, mw_last_tokens_saved := 0, mw_last_savings_pct := 0\<rparr>"

definition process_completion_request ::
  "context_pilot \<Rightarrow> nat \<Rightarrow> real \<Rightarrow> string \<Rightarrow> middleware \<Rightarrow> string \<times> middleware" where
  "process_completion_request cp k t prompt w =
     (if \<not> mw_enabled w then (prompt, w)
      else case call_optimize cp k [] prompt of
             Inl _ \<Rightarrow> (prompt, record_failure_stats w)
           | Inr ReplyFalsy \<Rightarrow> (prompt, record_completion_stats t w)
           | Inr ReplyOther \<Rightarrow> (prompt, record_failure_stats w)
           | Inr (ReplyList xs) \<Rightarrow>
               (case last_content (rev xs) of
                  Inl _ \<Rightarrow> (prompt, record_failure_stats w)
                | Inr (Some c) \<Rightarrow> (c, record_completion_stats t w)
                | Inr None \<Rightarrow> (prompt, record_completion_stats t w)))"

definition get_token_savings :: "middleware \<Rightarrow> int \<times> real \<times> int" where
  "get_token_savings w =
     (mw_token_savings_total w,
      (if mw_requests_processed w > 0 then mw_savings_pct_total w / real_of_int (mw_requests_processed w) else 0),
      mw_requests_processed w)"

text \<open>
  \<open>on_request_complete\<close>: the clean-up methods the index has are called in turn until one raises;
  \<open>methods name\<close> is \<open>None\<close> for a missing method and says whether a call raises. The
  calls made and the index's dictionary of live requests, if it has one.
\<close>

fun call_methods :: "(string \<Rightarrow> bool option) \<Rightarrow> string list \<Rightarrow> string list \<times> bool" where
  "call_methods methods [] = ([], True)"
| "call_methods methods (n # ns) =
     (case methods n of
        None \<Rightarrow> call_methods methods ns
      | Some True \<Rightarrow> ([n], False)
      | Some False \<Rightarrow> apfst ((#) n) (call_methods methods ns))"

definition cp_on_request_complete ::
  "(string \<Rightarrow> bool option) \<Rightarrow> (string, nat) odict option \<Rightarrow> string \<Rightarrow> middleware \<Rightarrow> string list \<times> (string, nat) odict option" where
  "cp_on_request_complete methods live rid w =
     (if \<not> mw_enabled w then ([], live)
      else case call_methods methods [''on_request_complete'', ''evict'', ''remove_request'', ''remove'', ''delete''] of
             (calls, finished) \<Rightarrow> (calls, if finished then map_option (AList.delete rid) live else live))"

section \<open>Ranking requests\<close>

lemma clamp01_bounds: "0 \<le> clamp01 v \<and> clamp01 v \<le> 1"
  by (simp add: clamp01_def)

lemma predict_bounds: "0 \<le> predict_prefix_reuse mw k rid ts \<and> predict_prefix_reuse mw k rid ts \<le> 1"
  using clamp01_bounds by (simp add: predict_prefix_reuse_def split: option.splits sum.splits cp_value.splits)

lemma take_ranked_spec:
  assumes "distinct out" and "set out \<subseteq> ids"
  shows "distinct (take_ranked py_str ids vs out) \<and>
    set (take_ranked py_str ids vs out) = set out \<union> (ids \<inter> py_str ` set vs)"
  using assms by (induction py_str ids vs out rule: take_ranked.induct) auto

lemma freed_all_forgotten:
  "map_of (ck_request_to_blocks (notify_blocks_freed mw rid hs (notify_blocks_allocated mw rid hs m))) rid = None"
  by (simp add: notify_blocks_freed_def notify_blocks_allocated_def Let_def)

text \<open>
  Ranking never loses or repeats a request: the answer is a permutation of the
  request ids, whatever the index answers or raises. When the index ranks, the
  ids it named come first and the others follow in their old order; otherwise
  they are in the order of falling scores, which are between 0 and 1.
\<close>

theorem allocation_priority_permutes:
  assumes "distinct rids" and "\<And>j r. predict_prefix_reuse mw j r [] = score r"
  shows "mset (get_allocation_priority py_str mw k rids) = mset rids \<and>
    (\<forall>ranker vs. cpo_ranker mw = Some ranker \<and> ranker k rids = Inr (CList vs) \<longrightarrow>
       (\<exists>out. get_allocation_priority py_str mw k rids = out @ filter (\<lambda>r. r \<notin> set out) rids \<and>
          set out = set rids \<inter> py_str ` set vs)) \<and>
    (cpo_ranker mw = None \<longrightarrow>
       sorted_wrt (\<lambda>a b. score b \<le> score a \<and> 0 \<le> score b \<and> score a \<le> 1) (get_allocation_priority py_str mw k rids))"
proof -
  let ?z = "zip [0..<length rids] rids"
  define by_score where "by_score = map snd (sort_key (\<lambda>(i, rid). - predict_prefix_reuse mw (k + i) rid []) ?z)"
  have perm: "mset by_score = mset rids"
  proof -
    have "mset by_score = image_mset snd (mset ?z)" by (simp add: by_score_def)
    also have "\<dots> = mset (map snd ?z)" by (simp only: mset_map)
    finally show ?thesis by simp
  qed
  have "sorted (map (\<lambda>(i, rid). - score rid) (sort_key (\<lambda>(i, rid). - score rid) ?z))" by (rule sorted_sort_key)
  then have srt: "sorted_wrt (\<lambda>a b. score b \<le> score a) by_score"
    by (simp add: by_score_def assms(2) sorted_map sorted_wrt_map case_prod_unfold)
  have sc: "0 \<le> score r \<and> score r \<le> 1" for r using predict_bounds [of mw 0 r "[]"] assms(2) by simp
  have ranked: "mset (out @ filter (\<lambda>r. r \<notin> set out) rids) = mset rids"
    if "distinct out" "set out \<subseteq> set rids" for out
  proof (rule set_eq_iff_mset_eq_distinct [THEN iffD1])
    show "distinct (out @ filter (\<lambda>r. r \<notin> set out) rids)" using that(1) assms(1) by auto
    show "set (out @ filter (\<lambda>r. r \<notin> set out) rids) = set rids" using that(2) by auto
  qed (rule assms(1))
  note tr = take_ranked_spec [of "[]" "set rids" py_str, simplified]
  define ranked_list where "ranked_list vs = (let out = take_ranked py_str (set rids) vs []
      in out @ filter (\<lambda>r. r \<notin> set out) rids)" for vs
  have rk: "mset (ranked_list vs) = mset rids" for vs
    unfolding ranked_list_def Let_def by (rule ranked) (use tr in auto)
  have eq: "get_allocation_priority py_str mw k rids =
      (case cpo_ranker mw of None \<Rightarrow> by_score
       | Some ranker \<Rightarrow> (case ranker k rids of Inr (CList vs) \<Rightarrow> ranked_list vs | _ \<Rightarrow> by_score))"
    unfolding get_allocation_priority_def by_score_def ranked_list_def by (simp only: Let_def)
  have "mset (get_allocation_priority py_str mw k rids) = mset rids"
    using perm rk unfolding eq by (simp split: option.splits sum.splits cp_value.splits)
  moreover have "sorted_wrt (\<lambda>a b. score b \<le> score a \<and> 0 \<le> score b \<and> score a \<le> 1) by_score"
    using srt by (rule sorted_wrt_mono_rel [rotated]) (use sc in auto)
  moreover have "\<exists>out. ranked_list vs = out @ filter (\<lambda>r. r \<notin> set out) rids \<and> set out = set rids \<inter> py_str ` set vs" for vs
    using tr unfolding ranked_list_def Let_def by blast
  ultimately show ?thesis unfolding eq by auto
qed

definition example_index :: cp_object where
  "example_index = \<lparr>cpo_predict = None, cpo_cached_blocks = None, cpo_allocated = True, cpo_freed = True,
     cpo_ranker = Some (\<lambda>_ _. Inr (CList [CStr ''c'', CInt 7, CStr ''c'', CStr ''a'']))\<rparr>"

definition example_str :: "cp_value \<Rightarrow> string" where
  "example_str v = (case v of CStr s \<Rightarrow> s | CInt i \<Rightarrow> str_int i | _ \<Rightarrow> [])"

theorem allocation_priority_permutes_witness:
  "mset (get_allocation_priority example_str example_index 0 [''a'', ''b'', ''c'']) = mset [''a'', ''b'', ''c''] \<and>
   get_allocation_priority example_str example_index 0 [''a'', ''b'', ''c''] = [''c'', ''a'', ''b'']"
proof -
  have "predict_prefix_reuse example_index j r [] = 0" for j r
    by (simp add: predict_prefix_reuse_def example_index_def)
  from allocation_priority_permutes [of "[''a'', ''b'', ''c'']", OF _ this]
  have "mset (get_allocation_priority example_str example_index 0 [''a'', ''b'', ''c'']) = mset [''a'', ''b'', ''c'']" by simp
  moreover have "get_allocation_priority example_str example_index 0 [''a'', ''b'', ''c''] = [''c'', ''a'', ''b'']"
    by code_simp
  ultimately show ?thesis ..
qed

section \<open>Deduplication\<close>

text \<open>The number in the text that replaces a repeated message, and the messages with that text expanded again.\<close>

definition marker_index :: "string \<Rightarrow> nat option" where
  "marker_index c =
     (let p = ''[Deduplicated content; same as message #''
      in if take (length p) c \<noteq> p then None
         else case scan_digits (drop (length p) c) of
                Some (ds, r) \<Rightarrow> if r = '']'' then Some (digits_value ds) else None
              | None \<Rightarrow> None)"

definition expand_message :: "message list \<Rightarrow> message \<Rightarrow> message" where
  "expand_message out m =
     (case msg_get ''content'' m of
        MStr c \<Rightarrow> (case marker_index c of
                     Some j \<Rightarrow> AList.update ''content'' (msg_get ''content'' (out ! j)) m
                   | None \<Rightarrow> m)
      | _ \<Rightarrow> m)"

lemma marker_index_marker [simp]: "marker_index (dedup_marker i) = Some i"
proof -
  have "scan_digits (str_nat i @ '']'') = Some (str_nat i, '']'')"
    by (rule scan_digits_str_nat) (simp add: is_digit_def)
  then show ?thesis by (simp add: marker_index_def dedup_marker_def Let_def)
qed

lemma update_twice: "AList.update k v (AList.update k w m) = AList.update k v m"
  by (induction m) auto

lemma update_same: "map_of m k = Some v \<Longrightarrow> AList.update k v m = m"
  by (induction m) (auto split: if_splits)

definition dedup_at :: "message list \<Rightarrow> message list \<Rightarrow> nat \<Rightarrow> bool" where
  "dedup_at ms out k \<longleftrightarrow> out ! k = ms ! k \<or>
     (\<exists>c j. msg_get ''content'' (ms ! k) = MStr c \<and> j < length out \<and> out ! j = ms ! j \<and>
        msg_get ''content'' (ms ! j) = MStr c \<and> out ! k = AList.update ''content'' (MStr (dedup_marker j)) (ms ! k))"

lemma dedup_loop_spec:
  assumes "dedup_loop i ms seen out saved original = (out', saved', original')"
    and "all = pre @ ms" and "i = length pre" and "length out = i"
    and "\<forall>c j. seen c = Some j \<longrightarrow> j < i \<and> out ! j = all ! j \<and> msg_get ''content'' (all ! j) = MStr c"
    and "\<forall>k < i. dedup_at all out k" and "0 \<le> saved" and "saved \<le> original"
  shows "length out' = length all \<and> (\<forall>k < length all. dedup_at all out' k) \<and> 0 \<le> saved' \<and> saved' \<le> original'"
  using assms
proof (induction i ms seen out saved original arbitrary: pre rule: dedup_loop.induct)
  case (2 i m ms seen out saved original)
  have m: "all ! i = m" using "2.prems"(2,3) by (simp add: nth_append)
  have keep: "dedup_at all (out @ [x]) k" if "k < i" for x k
    using "2.prems"(4,6) that by (auto simp: dedup_at_def nth_append)
  have step: "\<forall>k < i + 1. dedup_at all (out @ [x]) k" if "dedup_at all (out @ [x]) i" for x
    using keep that by (auto simp: less_Suc_eq)
  have seen: "\<forall>c j. seen c = Some j \<longrightarrow> j < i + 1 \<and> (out @ [x]) ! j = all ! j \<and> msg_get ''content'' (all ! j) = MStr c" for x
    using "2.prems"(4,5) by (auto simp: nth_append less_Suc_eq)
  have same: "dedup_at all (out @ [m]) i" using "2.prems"(4) m by (simp add: dedup_at_def nth_append)
  show ?case
  proof (cases "msg_get ''content'' m")
    case (MStr c)
    show ?thesis
    proof (cases "seen c")
      case None
      show ?thesis
      proof (rule "2.IH"(1) [OF MStr refl None, of "pre @ [m]"])
        show "\<forall>c' j. (seen(c \<mapsto> i)) c' = Some j \<longrightarrow> j < i + 1 \<and> (out @ [m]) ! j = all ! j \<and>
            msg_get ''content'' (all ! j) = MStr c'"
          using seen [of m] MStr m "2.prems"(4) by (auto simp: nth_append)
      qed (use "2.prems" MStr None step [OF same] in \<open>auto simp: Let_def fun_upd_def\<close>)
    next
      case (Some j)
      let ?x = "AList.update ''content'' (MStr (dedup_marker j)) m"
      have j: "j < i" "out ! j = all ! j" "msg_get ''content'' (all ! j) = MStr c" using "2.prems"(5) Some by auto
      then have "dedup_at all (out @ [?x]) i"
        using MStr m "2.prems"(4) unfolding dedup_at_def by (intro disjI2 exI [of _ c] exI [of _ j]) (simp add: nth_append)
      with seen [of ?x] step show ?thesis
        using "2.prems" MStr Some by (intro "2.IH"(2) [OF MStr refl Some, of "pre @ [m]"]) (auto simp: Let_def)
    qed
  next
    case MNone
    with seen [of m] step [OF same] "2.prems" show ?thesis by (intro "2.IH"(3) [of "pre @ [m]"]) auto
  next
    case MOther
    with seen [of m] step [OF same] "2.prems" show ?thesis by (intro "2.IH"(4) [of "pre @ [m]"]) auto
  qed
qed simp

lemma expand_dedup:
  assumes "dedup_at ms out k" and "k < length ms" and "length out = length ms"
    and "\<forall>m \<in> set ms. \<forall>c. msg_get ''content'' m = MStr c \<longrightarrow> marker_index c = None"
  shows "expand_message out (out ! k) = ms ! k"
proof -
  have plain: "expand_message out (ms ! k) = ms ! k"
    using assms(4) nth_mem [OF assms(2)] by (force simp: expand_message_def split: msg_value.splits option.splits)
  from assms(1) consider "out ! k = ms ! k"
    | c j where "msg_get ''content'' (ms ! k) = MStr c" "out ! j = ms ! j" "msg_get ''content'' (ms ! j) = MStr c"
        "out ! k = AList.update ''content'' (MStr (dedup_marker j)) (ms ! k)"
    unfolding dedup_at_def by blast
  then show ?thesis
  proof cases
    case (2 c j)
    have "msg_get ''content'' (out ! k) = MStr (dedup_marker j)" by (simp add: 2(4) msg_get_def)
    moreover have "map_of (ms ! k) ''content'' = Some (MStr c)"
      using 2(1) by (simp add: msg_get_def split: option.splits)
    ultimately show ?thesis using 2 by (simp add: expand_message_def update_twice update_same)
  qed (use plain in simp)
qed

text \<open>
  C35: The deduplication of a chat that the middleware falls back to,
  \<^verbatim>\<open>_fallback_deduplicate\<close>, loses nothing as long as no message of the chat already
  reads like one of its markers: a repeated message is replaced by a text that
  names the index of an earlier message with the same content, which is itself
  unchanged, so putting that content back restores the messages. Roles, order and
  number of messages are kept, and the reported share of saved tokens is a
  percentage. The deduplication of the package \<^verbatim>\<open>contextpilot\<close> is not covered.
\<close>

theorem dedup_restorable:
  assumes "\<forall>m \<in> set ms. \<forall>c. msg_get ''content'' m = MStr c \<longrightarrow> marker_index c = None"
    and "fallback_deduplicate ms = (out, saved, pct)"
  shows "map (expand_message out) out = ms \<and> map (msg_get ''role'') out = map (msg_get ''role'') ms \<and>
    0 \<le> saved \<and> 0 \<le> pct \<and> pct \<le> 100"
proof -
  from assms(2) obtain original where run: "dedup_loop 0 ms Map.empty [] 0 0 = (out, saved, original)"
    and pct: "pct = savings_pct saved original" by (auto simp: fallback_deduplicate_def split: prod.splits)
  have sp: "length out = length ms" "\<forall>k < length ms. dedup_at ms out k" "0 \<le> saved" "saved \<le> original"
    using dedup_loop_spec [OF run, of ms "[]"] by auto
  have "map (expand_message out) out = ms"
    using expand_dedup [OF _ _ sp(1) assms(1)] sp(1,2) by (auto intro!: nth_equalityI)
  moreover have "msg_get ''role'' (out ! k) = msg_get ''role'' (ms ! k)" if "k < length ms" for k
    using sp(2) that by (auto simp: dedup_at_def msg_get_def)
  then have "map (msg_get ''role'') out = map (msg_get ''role'') ms"
    using sp(1) by (auto intro!: nth_equalityI)
  moreover have "0 \<le> pct" "pct \<le> 100"
    using sp(3,4) by (auto simp: pct savings_pct_def pos_divide_le_eq)
  ultimately show ?thesis using sp(3) by blast
qed

definition example_chat :: "message list" where
  "example_chat =
     [[(''role'', MStr ''system''), (''content'', MStr ''be brief'')],
      [(''role'', MStr ''user''), (''content'', MStr ''hello'')],
      [(''role'', MStr ''user''), (''content'', MStr ''be brief'')]]"

theorem dedup_restorable_witness:
  "fst (fallback_deduplicate example_chat) \<noteq> example_chat \<and>
   map (expand_message (fst (fallback_deduplicate example_chat))) (fst (fallback_deduplicate example_chat)) = example_chat"
proof -
  obtain out saved pct where e: "fallback_deduplicate example_chat = (out, saved, pct)" by (metis surj_pair)
  have "\<forall>m \<in> set example_chat. \<forall>c. msg_get ''content'' m = MStr c \<longrightarrow> marker_index c = None"
    by (simp add: example_chat_def msg_get_def marker_index_def)
  from dedup_restorable [OF this e] have "map (expand_message out) out = example_chat" by blast
  moreover have "map (msg_get ''content'') (fst (fallback_deduplicate example_chat)) ! 2 \<noteq> msg_get ''content'' (example_chat ! 2)"
    by code_simp
  then have "out \<noteq> example_chat" using e by (auto simp: example_chat_def)
  ultimately show ?thesis by (simp add: e)
qed

text \<open>
  A duplicate shorter than the text that replaces it makes the chat longer, while
  the saving that is reported is never negative.
\<close>

lemma short_duplicate_grows:
  "let (out, saved, pct) = fallback_deduplicate example_chat
   in sum_list (map estimated_tokens example_chat) < sum_list (map estimated_tokens out) \<and> 0 < saved"
  by code_simp

text \<open>Whatever the index does, a disabled middleware or a failing index leaves the chat as it was.\<close>

lemma process_chat_failure:
  assumes "mw_enabled w" and "ms \<noteq> []" and "mw_reorder_enabled w" and "reorder_messages py_str cp k ms = Inl e"
  shows "process_chat_request py_str cp k t1 t2 ms w = (ms, record_failure_stats w)"
  using assms by (simp add: process_chat_request_def)

lemma process_chat_counts:
  "mw_enabled w \<Longrightarrow> ms \<noteq> [] \<Longrightarrow>
   mw_requests_processed (snd (process_chat_request py_str cp k t1 t2 ms w)) = mw_requests_processed w + 1"
  by (simp add: process_chat_request_def record_failure_stats_def split: sum.splits prod.splits)

end
