(* ===== verification/Api_Access.thy ===== *)
theory Api_Access
  imports Prelude Decimal Complex_Main
begin

text \<open>
  Who may use the server: API keys, the rate limit and the queue limit of
  \<^verbatim>\<open>src/moe_infinity/entrypoints/openai/api_server_v2.py\<close>, and the error responses of
  \<^verbatim>\<open>entrypoints/openai/protocol.py\<close>. The clock is an argument. Texts of messages
  are left out.
\<close>

section \<open>Error responses\<close>

record http_error =
  he_status :: int
  he_type :: string
  he_code :: string
  he_param :: "string option"

definition create_error_response :: "int \<Rightarrow> string \<Rightarrow> string \<Rightarrow> string option \<Rightarrow> http_error" where
  "create_error_response status error_type code param =
     \<lparr>he_status = status, he_type = error_type, he_code = code, he_param = param\<rparr>"

section \<open>Keys and rates\<close>

record auth_state =
  au_api_keys :: "string set"
  au_rate_limit_rpm :: int
  au_buckets :: "(string, real list) odict"

fun split_on :: "char \<Rightarrow> string \<Rightarrow> string list" where
  "split_on c [] = [[]]"
| "split_on c (x # xs) =
     (if x = c then [] # split_on c xs
      else case split_on c xs of [] \<Rightarrow> [[x]] | w # ws \<Rightarrow> (x # w) # ws)"

definition configure_auth :: "string option \<Rightarrow> int \<Rightarrow> auth_state" where
  "configure_auth api_key_csv rate_limit =
     \<lparr>au_api_keys = set (filter (\<lambda>k. k \<noteq> []) (map py_strip
        (split_on (CHR '','') (case api_key_csv of None \<Rightarrow> [] | Some s \<Rightarrow> s)))),
      au_rate_limit_rpm = max 0 rate_limit, au_buckets = []\<rparr>"

text \<open>\<^verbatim>\<open>auth_header.partition(" ")\<close>: what is before and after the first space.\<close>

definition partition_space :: "string \<Rightarrow> string \<times> string" where
  "partition_space s = (takeWhile (\<lambda>c. c \<noteq> CHR '' '') s, drop 1 (dropWhile (\<lambda>c. c \<noteq> CHR '' '') s))"

record http_request =
  hr_path :: string
  hr_authorization :: "string option"

definition open_path :: "string \<Rightarrow> bool" where
  "open_path path \<longleftrightarrow> path \<in> {''/health'', ''/metrics'', ''/v1/models''}"

definition bearer :: "http_request \<Rightarrow> string \<times> string" where
  "bearer req = partition_space (case hr_authorization req of None \<Rightarrow> [] | Some h \<Rightarrow> h)"

definition invalid_api_key :: http_error where
  "invalid_api_key = create_error_response 401 ''authentication_error'' ''invalid_api_key'' None"

definition rate_limit_exceeded :: http_error where
  "rate_limit_exceeded = create_error_response 429 ''rate_limit_error'' ''rate_limit_exceeded'' None"

definition check_auth :: "real \<Rightarrow> http_request \<Rightarrow> auth_state \<Rightarrow> http_error option \<times> auth_state" where
  "check_auth now req a =
     (if au_api_keys a = {} then (None, a)
      else if open_path (hr_path req) then (None, a)
      else case bearer req of (scheme, token) \<Rightarrow>
        if scheme \<noteq> ''Bearer'' \<or> token = [] \<or> token \<notin> au_api_keys a then (Some invalid_api_key, a)
        else if au_rate_limit_rpm a \<le> 0 then (None, a)
        else
          (let bucket = filter (\<lambda>t. t \<ge> now - 60)
                 (case map_of (au_buckets a) token of None \<Rightarrow> [] | Some b \<Rightarrow> b)
           in if int (length bucket) \<ge> au_rate_limit_rpm a
              then (Some rate_limit_exceeded, a\<lparr>au_buckets := AList.update token bucket (au_buckets a)\<rparr>)
              else (None, a\<lparr>au_buckets := AList.update token (bucket @ [now]) (au_buckets a)\<rparr>)))"

text \<open>The middleware around every handler: \<^verbatim>\<open>call_next\<close> runs only if access is granted.\<close>

definition auth_middleware ::
  "real \<Rightarrow> http_request \<Rightarrow> (http_request \<Rightarrow> 'r) \<Rightarrow> auth_state \<Rightarrow> (http_error + 'r) \<times> auth_state" where
  "auth_middleware now req call_next a =
     (case check_auth now req a of
        (Some err, a1) \<Rightarrow> (Inl err, a1)
      | (None, a1) \<Rightarrow> (Inr (call_next req), a1))"

definition check_backpressure :: "int \<Rightarrow> int option \<Rightarrow> http_error option" where
  "check_backpressure max_waiting_requests num_waiting =
     (if max_waiting_requests \<le> 0 then None
      else if (case num_waiting of None \<Rightarrow> 0 | Some n \<Rightarrow> n) < max_waiting_requests then None
      else Some (create_error_response 503 ''server_error'' ''queue_full'' None))"

section \<open>Runs of requests\<close>

type_synonym auth_log = "((real \<times> http_request) \<times> http_error option) list"

fun auth_run :: "(real \<times> http_request) list \<Rightarrow> auth_state \<Rightarrow> auth_log \<times> auth_state" where
  "auth_run [] a = ([], a)"
| "auth_run ((now, req) # reqs) a =
     (case check_auth now req a of
        (r, a1) \<Rightarrow> apfst ((#) ((now, req), r)) (auth_run reqs a1))"

text \<open>The times at which requests with a token were admitted to the paths that need one.\<close>

definition admissions :: "string \<Rightarrow> auth_log \<Rightarrow> real list" where
  "admissions token hist =
     map (fst \<circ> fst) (filter (\<lambda>((now, req), r). r = None \<and> \<not> open_path (hr_path req) \<and> snd (bearer req) = token) hist)"

lemma admissions_simps [simp]:
  "admissions token [] = []"
  "admissions token (hist @ hist') = admissions token hist @ admissions token hist'"
  "admissions token [((now, req), r)] =
     (if r = None \<and> \<not> open_path (hr_path req) \<and> snd (bearer req) = token then [now] else [])"
  by (simp_all add: admissions_def)

definition in_window :: "real \<Rightarrow> real list \<Rightarrow> real list" where
  "in_window t ts = filter (\<lambda>s. t \<le> s \<and> s \<le> t + 60) ts"

lemma in_window_append [simp]: "in_window t (xs @ ys) = in_window t xs @ in_window t ys"
  by (simp add: in_window_def)

lemma in_window_Nil [simp]: "in_window t [] = []"
  by (simp add: in_window_def)

text \<open>
  What a run keeps: a bucket holds the admissions since some time at least a minute
  before the last request, and no minute holds more admissions than the limit.
\<close>

definition limiter_ok :: "string set \<Rightarrow> int \<Rightarrow> auth_log \<Rightarrow> real \<Rightarrow> auth_state \<Rightarrow> bool" where
  "limiter_ok K rpm hist now a \<longleftrightarrow>
     au_api_keys a = K \<and> au_rate_limit_rpm a = rpm \<and>
     (\<forall>token. \<exists>w \<le> now - 60.
        (case map_of (au_buckets a) token of None \<Rightarrow> [] | Some b \<Rightarrow> b) = filter (\<lambda>t. t \<ge> w) (admissions token hist)) \<and>
     (\<forall>token. \<forall>t \<in> set (admissions token hist). t \<le> now) \<and>
     (\<forall>token t. int (length (in_window t (admissions token hist))) \<le> rpm)"

definition answer_ok :: "string set \<Rightarrow> int \<Rightarrow> auth_log \<Rightarrow> (real \<times> http_request) \<times> http_error option \<Rightarrow> bool" where
  "answer_ok K rpm hist entry \<longleftrightarrow>
     (case entry of ((now, req), r) \<Rightarrow>
        if open_path (hr_path req) then r = None
        else if fst (bearer req) \<noteq> ''Bearer'' \<or> snd (bearer req) \<notin> K then r = Some invalid_api_key
        else r = (if rpm \<le> int (length (in_window (now - 60) (admissions (snd (bearer req)) hist)))
                  then Some rate_limit_exceeded else None))"

lemma filter_later: "w \<le> (v::real) \<Longrightarrow> filter (\<lambda>t. t \<ge> v) (filter (\<lambda>t. t \<ge> w) ts) = filter (\<lambda>t. t \<ge> v) ts"
  by (auto intro: filter_cong)

lemma in_window_past: "\<forall>t \<in> set ts. t \<le> now \<Longrightarrow> in_window (now - 60) ts = filter (\<lambda>t. t \<ge> now - 60) ts"
  unfolding in_window_def by (rule filter_cong) auto

lemma in_window_grow:
  assumes "\<forall>t \<in> set ts. t \<le> now" and "int (length (in_window (now - 60) ts)) < rpm"
    and "int (length (in_window t ts)) \<le> rpm"
  shows "int (length (in_window t (ts @ [now]))) \<le> rpm"
proof (cases "t \<le> now \<and> now \<le> t + 60")
  case True
  then have "length (in_window t ts) \<le> length (in_window (now - 60) ts)"
    unfolding in_window_def using assms(1) by (induction ts) auto
  with True assms(2) show ?thesis by (simp add: in_window_def)
next
  case False
  with assms(3) show ?thesis by (auto simp: in_window_def)
qed

lemma check_auth_ok:
  assumes ok: "limiter_ok K rpm hist before a" and "before \<le> now" and "0 < rpm" and "K \<noteq> {}" and "[] \<notin> K"
    and run: "check_auth now req a = (r, a')"
  shows "limiter_ok K rpm (hist @ [((now, req), r)]) now a' \<and> answer_ok K rpm hist ((now, req), r)"
proof -
  let ?token = "snd (bearer req)"
  define bucket where "bucket = filter (\<lambda>t. t \<ge> now - 60) (case map_of (au_buckets a) ?token of None \<Rightarrow> [] | Some b \<Rightarrow> b)"
  have conf: "au_api_keys a = K" "au_rate_limit_rpm a = rpm" using ok by (simp_all add: limiter_ok_def)
  have past: "\<forall>t \<in> set (admissions token hist). t \<le> now" for token
    using ok assms(2) by (force simp: limiter_ok_def)
  have w: "\<exists>w \<le> now - 60. (case map_of (au_buckets a) token of None \<Rightarrow> [] | Some b \<Rightarrow> b) = filter (\<lambda>t. t \<ge> w) (admissions token hist)" for token
    using ok assms(2) unfolding limiter_ok_def by (meson diff_right_mono order_trans)
  have b: "bucket = in_window (now - 60) (admissions ?token hist)"
    using w [of ?token] in_window_past [OF past] unfolding bucket_def by (metis filter_later)
  have le: "\<forall>token t. int (length (in_window t (admissions token hist))) \<le> rpm" using ok by (simp add: limiter_ok_def)
  have same: "limiter_ok K rpm (hist @ [((now, req), r)]) now a"
    if "\<And>token. admissions token [((now, req), r)] = []"
    using that conf past w le by (simp add: limiter_ok_def)
  consider (free) "open_path (hr_path req)" | (key) "\<not> open_path (hr_path req)" "fst (bearer req) \<noteq> ''Bearer'' \<or> ?token \<notin> K"
    | (full) "\<not> open_path (hr_path req)" "fst (bearer req) = ''Bearer''" "?token \<in> K" "rpm \<le> int (length bucket)"
    | (pass) "\<not> open_path (hr_path req)" "fst (bearer req) = ''Bearer''" "?token \<in> K" "int (length bucket) < rpm" by fastforce
  then show ?thesis
  proof cases
    case free
    then have "r = None" "a' = a" using run assms(4) conf by (auto simp: check_auth_def split: if_splits)
    with free same show ?thesis by (simp add: answer_ok_def)
  next
    case key
    then have "r = Some invalid_api_key" "a' = a"
      using run assms(4) conf by (auto simp: check_auth_def case_prod_unfold split: if_splits)
    with key same show ?thesis by (simp add: answer_ok_def)
  next
    case full
    have tok: "?token \<noteq> []" using full(3) assms(5) by auto
    have r: "r = Some rate_limit_exceeded" "a' = a\<lparr>au_buckets := AList.update ?token bucket (au_buckets a)\<rparr>"
      using run full tok conf assms(3,4) by (auto simp: check_auth_def case_prod_unfold bucket_def Let_def)
    have "\<exists>w' \<le> now - 60. bucket = filter (\<lambda>t. t \<ge> w') (admissions ?token hist)"
      using b in_window_past [OF past] by auto
    then have "limiter_ok K rpm (hist @ [((now, req), r)]) now a'"
      using r conf past w le by (simp add: limiter_ok_def)
    with full b r show ?thesis by (simp add: answer_ok_def)
  next
    case pass
    have tok: "?token \<noteq> []" using pass(3) assms(5) by auto
    have r: "r = None" "a' = a\<lparr>au_buckets := AList.update ?token (bucket @ [now]) (au_buckets a)\<rparr>"
      using run pass tok conf assms(3,4) by (auto simp: check_auth_def case_prod_unfold bucket_def Let_def)
    have "bucket @ [now] = filter (\<lambda>t. t \<ge> now - 60) (admissions ?token hist @ [now])"
      using b in_window_past [OF past] by simp
    then have "\<exists>w' \<le> now - 60. bucket @ [now] = filter (\<lambda>t. t \<ge> w') (admissions ?token hist @ [now])" by blast
    moreover have "int (length (in_window t (admissions ?token hist @ [now]))) \<le> rpm" for t
      using in_window_grow [OF past] pass(4) b le by blast
    ultimately have "limiter_ok K rpm (hist @ [((now, req), r)]) now a'"
      using r conf past w le pass(1) unfolding limiter_ok_def by auto
    with pass b r show ?thesis by (simp add: answer_ok_def)
  qed
qed

lemma auth_run_ok:
  assumes "limiter_ok K rpm hist before a" and "sorted (before # map fst reqs)" and "0 < rpm" and "K \<noteq> {}" and "[] \<notin> K"
    and "auth_run reqs a = (hist', a')"
  shows "(\<exists>now. limiter_ok K rpm (hist @ hist') now a') \<and> map fst hist' = reqs \<and>
    (\<forall>i < length hist'. answer_ok K rpm (hist @ take i hist') (hist' ! i))"
  using assms
proof (induction reqs a arbitrary: hist before hist' a' rule: auth_run.induct)
  case (1 a)
  then show ?case by auto
next
  case (2 now req reqs a)
  obtain r a1 where c: "check_auth now req a = (r, a1)" by fastforce
  obtain rest where rest: "auth_run reqs a1 = (rest, a')" and l: "hist' = ((now, req), r) # rest"
    using "2.prems"(6) c by (auto simp: apfst_def map_prod_def split: prod.splits)
  have st: "limiter_ok K rpm (hist @ [((now, req), r)]) now a1" "answer_ok K rpm hist ((now, req), r)"
    using check_auth_ok [OF "2.prems"(1) _ "2.prems"(3-5) c] "2.prems"(2) by auto
  have IH: "(\<exists>t. limiter_ok K rpm ((hist @ [((now, req), r)]) @ rest) t a') \<and> map fst rest = reqs \<and>
    (\<forall>i < length rest. answer_ok K rpm ((hist @ [((now, req), r)]) @ take i rest) (rest ! i))"
    using "2.IH" [OF c [symmetric] st(1) _ "2.prems"(3-5) rest] "2.prems"(2) by simp
  have "answer_ok K rpm (hist @ take i hist') (hist' ! i)" if "i < length hist'" for i
    using that IH st(2) l by (cases i) simp_all
  with IH l show ?case by simp
qed

lemma configured_keys: "[] \<notin> au_api_keys (configure_auth csv rate)"
  by (simp add: configure_auth_def)

text \<open>
  C19: However requests arrive, as long as the clock does not run backwards, no key is
  admitted more often than its limit within any minute, and only a configured
  key is admitted to a protected path. A request is refused for its rate only
  if the limit was used up in the minute before it, and every answer is
  one of these.
\<close>

theorem rate_limit_respected:
  assumes "sorted (map fst reqs)" and "0 < rpm" and "a = configure_auth csv rpm" and "au_api_keys a \<noteq> {}"
    and "auth_run reqs a = (hist, a')"
  shows "(\<forall>token t. int (length (in_window t (admissions token hist))) \<le> rpm) \<and> map fst hist = reqs \<and>
    (\<forall>i < length reqs. answer_ok (au_api_keys a) rpm (take i hist) (hist ! i))"
proof -
  define t0 where "t0 = (case reqs of [] \<Rightarrow> 0 | p # _ \<Rightarrow> fst p)"
  have ok: "limiter_ok (au_api_keys a) rpm [] t0 a"
    using assms(2,3) by (auto simp: limiter_ok_def configure_auth_def in_window_def)
  have srt: "sorted (t0 # map fst reqs)" using assms(1) by (cases reqs) (auto simp: t0_def)
  have ne: "[] \<notin> au_api_keys a" using configured_keys assms(3) by simp
  note run = auth_run_ok [OF ok srt assms(2,4) ne assms(5)]
  then obtain now where lim: "limiter_ok (au_api_keys a) rpm hist now a'" by auto
  have hist: "map fst hist = reqs" using run by blast
  then have "length hist = length reqs" by (metis length_map)
  moreover from lim have "\<forall>token t. int (length (in_window t (admissions token hist))) \<le> rpm"
    by (simp add: limiter_ok_def)
  ultimately show ?thesis using run hist by simp
qed

definition example_requests :: "(real \<times> http_request) list" where
  "example_requests =
     map (\<lambda>(t, h). (t, \<lparr>hr_path = ''/v1/completions'', hr_authorization = Some h\<rparr>))
       [(0, ''Bearer k1''), (10, ''Bearer k1''), (20, ''Bearer k1''), (20, ''Bearer k3''), (61, ''Bearer k1'')]"

theorem rate_limit_respected_witness:
  "map (map_option he_status \<circ> snd) (fst (auth_run example_requests (configure_auth (Some ''k1, k2'') 2))) =
     [None, None, Some 429, Some 401, None] \<and>
   (\<forall>token t. int (length (in_window t (admissions token
      (fst (auth_run example_requests (configure_auth (Some ''k1, k2'') 2)))))) \<le> 2)"
proof -
  let ?a = "configure_auth (Some ''k1, k2'') 2"
  obtain hist a' where run: "auth_run example_requests ?a = (hist, a')" by fastforce
  have srt: "sorted (map fst example_requests)" by (simp add: example_requests_def)
  have keys: "au_api_keys ?a = {''k1'', ''k2''}" by code_simp
  have conf: "au_rate_limit_rpm ?a = 2" "au_buckets ?a = []" by (simp_all add: configure_auth_def)
  have "\<forall>token t. int (length (in_window t (admissions token hist))) \<le> 2"
    using rate_limit_respected [OF srt _ refl _ run] keys by simp
  moreover have "map (map_option he_status \<circ> snd) (fst (auth_run example_requests ?a)) = [None, None, Some 429, Some 401, None]"
    by (simp add: keys example_requests_def check_auth_def Let_def bearer_def partition_space_def open_path_def conf
        rate_limit_exceeded_def invalid_api_key_def create_error_response_def)
  ultimately show ?thesis by (simp add: run)
qed

text \<open>A refused request does not reach its handler.\<close>

lemma auth_middleware_refuses:
  assumes "au_api_keys a \<noteq> {}" and "\<not> open_path (hr_path req)" and "snd (bearer req) \<notin> au_api_keys a"
  shows "auth_middleware now req call_next a = (Inl invalid_api_key, a)"
  using assms by (simp add: auth_middleware_def check_auth_def case_prod_unfold)

end
