(* ===== verification/Api_Server.thy ===== *)
theory Api_Server
  imports Api_Access Serving_Engine Resilience Streaming Context_Pilot "HOL-Library.Product_Lexorder"
begin

text \<open>
  The handlers of \<^verbatim>\<open>src/moe_infinity/entrypoints/openai/api_server_v2.py\<close>: completions
  and chat completions over the context index, the tokenizer, the stream
  manager and the engine. The engine is seen from here through the requests
  that are submitted to it and the outputs it passes to a request's callback
  while the handler sleeps; these outputs are a parameter, one list per round of
  the waiting loop, and so are tokenizer, random identifiers and measured times.
\<close>

section \<open>The context index\<close>

record cp_state =
  cs_enabled :: bool
  cs_debug :: bool
  cs_fault :: string
  cs_fallback_count :: int
  cs_last_fallback_count :: int
  cs_middleware :: "middleware option"
  cs_latencies :: "real list"

definition resolve_contextpilot_enabled :: "string option \<Rightarrow> bool \<Rightarrow> bool" where
  "resolve_contextpilot_enabled env_value cli_enabled =
     (if (case env_value of None \<Rightarrow> ''1'' | Some v \<Rightarrow> v) = ''0'' then False else cli_enabled)"

definition is_contextpilot_active :: "string option \<Rightarrow> cp_state \<Rightarrow> bool" where
  "is_contextpilot_active env_value c \<longleftrightarrow>
     cs_enabled c \<and> (case env_value of None \<Rightarrow> ''1'' | Some v \<Rightarrow> v) \<noteq> ''0''"

definition record_contextpilot_fallback :: "cp_state \<Rightarrow> cp_state" where
  "record_contextpilot_fallback c =
     c\<lparr>cs_fallback_count := cs_fallback_count c + 1, cs_last_fallback_count := cs_fallback_count c + 1\<rparr>"

definition record_contextpilot_reorder_latency :: "real \<Rightarrow> cp_state \<Rightarrow> cp_state" where
  "record_contextpilot_reorder_latency latency_ms c =
     c\<lparr>cs_latencies := deque_append 100 latency_ms (cs_latencies c)\<rparr>"

definition compute_latency_stats :: "real list \<Rightarrow> real \<times> real" where
  "compute_latency_stats latencies =
     (if latencies = [] then (0, 0)
      else (sum_list latencies / real (length latencies),
            sort latencies ! nat (max 0 (\<lceil>99 / 100 * real (length latencies)\<rceil> - 1))))"

definition contextpilot_circuit_breaker_state :: "cp_state \<Rightarrow> string" where
  "contextpilot_circuit_breaker_state c =
     (if \<not> cs_enabled c then ''closed''
      else if cs_fault c \<noteq> ''none'' then ''open''
      else if cs_middleware c = None then ''half_open''
      else ''closed'')"

text \<open>\<open>new\<close> is the result of the constructor of the middleware.\<close>

definition ensure_cp_middleware_initialized ::
  "string option \<Rightarrow> middleware result \<Rightarrow> cp_state \<Rightarrow> middleware option \<times> cp_state" where
  "ensure_cp_middleware_initialized env_value new c =
     (if \<not> is_contextpilot_active env_value c then (None, c)
      else case cs_middleware c of
             Some w \<Rightarrow> (Some w, c)
           | None \<Rightarrow>
               (case new of
                  Inl _ \<Rightarrow> (None, c)
                | Inr w \<Rightarrow> (Some w, c\<lparr>cs_middleware := Some w\<rparr>)))"

text \<open>
  Both kinds of request go through the middleware in the same way: \<open>process\<close> is the
  method called. Its state is written back, and its last latency is recorded.
\<close>

definition process_with_contextpilot ::
  "string option \<Rightarrow> middleware result \<Rightarrow> ('p \<Rightarrow> middleware \<Rightarrow> 'p \<times> middleware) \<Rightarrow> 'p \<Rightarrow> cp_state \<Rightarrow> 'p \<times> cp_state" where
  "process_with_contextpilot env_value new process x c =
     (case ensure_cp_middleware_initialized env_value new c of
        (None, c1) \<Rightarrow> (x, c1)
      | (Some w, c1) \<Rightarrow>
          if cs_fault c1 \<noteq> ''none'' then (x, record_contextpilot_fallback c1)
          else case process x w of (y, w1) \<Rightarrow>
            (y, record_contextpilot_reorder_latency (mw_last_reorder_latency w1) (c1\<lparr>cs_middleware := Some w1\<rparr>)))"

definition contextpilot_toggle :: "string option \<Rightarrow> middleware result \<Rightarrow> bool \<Rightarrow> cp_state \<Rightarrow> cp_state" where
  "contextpilot_toggle env_value new enabled c =
     (let c1 = c\<lparr>cs_enabled := enabled\<rparr>
      in if enabled then snd (ensure_cp_middleware_initialized env_value new c1) else c1)"

text \<open>The status of the response: 403 outside debug mode, 400 for an unknown fault or a bad duration.\<close>

definition contextpilot_inject_fault :: "string option \<Rightarrow> int option \<Rightarrow> cp_state \<Rightarrow> int \<times> cp_state" where
  "contextpilot_inject_fault fault duration_s c =
     (if \<not> cs_debug c then (403, c)
      else case fault of
             None \<Rightarrow> (400, c)
           | Some f \<Rightarrow>
               if f \<noteq> ''none'' \<and> f \<noteq> ''reorder_exception'' then (400, c)
               else (case duration_s of
                      None \<Rightarrow> (400, c)
                    | Some d \<Rightarrow> if d < 0 then (400, c) else (200, c\<lparr>cs_fault := f\<rparr>)))"

section \<open>Requests\<close>

text \<open>
  The four shapes of a prompt that the request schema allows, an empty array being one of
  no tokens; a single prompt is a text or a list of tokens.
\<close>

datatype prompt = PromptStr string | PromptStrs "string list" | PromptTokens "int list" | PromptTokenLists "int list list"

definition parse_prompt_format :: "prompt \<Rightarrow> (bool \<times> (string + int list) list) result" where
  "parse_prompt_format p =
     (case p of
        PromptStr s \<Rightarrow> Inr (False, [Inl s])
      | PromptStrs ss \<Rightarrow> if ss = [] then Inl ValueError else Inr (False, map Inl ss)
      | PromptTokens ts \<Rightarrow> if ts = [] then Inl ValueError else Inr (True, [Inr ts])
      | PromptTokenLists tss \<Rightarrow>
          if tss = [] then Inl ValueError
          else if hd tss = [] then Inl ValueError
          else Inr (True, map Inr tss))"

datatype stop_value = StopNone | StopStr string | StopList "string list"

definition extract_stop_sequences :: "stop_value \<Rightarrow> string list" where
  "extract_stop_sequences v = (case v of StopNone \<Rightarrow> [] | StopStr s \<Rightarrow> [s] | StopList ss \<Rightarrow> ss)"

definition build_sampling_params ::
  "real option \<Rightarrow> real option \<Rightarrow> int \<Rightarrow> stop_value \<Rightarrow> int option \<Rightarrow> sv_sampling_params" where
  "build_sampling_params temp p max_toks stop_v lps =
     default_sampling_params\<lparr>
       temperature := (case temp of None \<Rightarrow> 1 | Some t \<Rightarrow> t), top_p := (case p of None \<Rightarrow> 1 | Some x \<Rightarrow> x),
       logprobs := (case lps of None \<Rightarrow> 0 | Some k \<Rightarrow> k), max_tokens := max_toks,
       stop := extract_stop_sequences stop_v\<rparr>"

text \<open>\<^verbatim>\<open>int(x or d)\<close>.\<close>

definition or_int :: "int option \<Rightarrow> int \<Rightarrow> int" where
  "or_int x d = (case x of None \<Rightarrow> d | Some k \<Rightarrow> if k = 0 then d else k)"

definition invalid_request :: "string option \<Rightarrow> http_error" where
  "invalid_request param = create_error_response 400 ''invalid_request_error'' ''invalid_request_error'' param"

definition validate_parallel_sampling :: "int \<Rightarrow> int option \<Rightarrow> int option \<Rightarrow> http_error option" where
  "validate_parallel_sampling max_n n best_of =
     (let requested_n = or_int n 1; requested_best_of = or_int best_of requested_n
      in if requested_n \<le> 0 then Some (invalid_request (Some ''n''))
         else if requested_n > max_n then Some (invalid_request (Some ''n''))
         else if requested_best_of \<le> 0 then Some (invalid_request (Some ''best_of''))
         else if requested_best_of > max_n then Some (invalid_request (Some ''best_of''))
         else if requested_best_of < requested_n then Some (invalid_request (Some ''best_of''))
         else None)"

section \<open>The tokenizer\<close>

datatype exc = HttpExc int | PyExc py_error

datatype token_reply = TokenList "int list" | NotAList

record api_tokenizer =
  at_encode :: "(string \<Rightarrow> token_reply result) option"
  at_decode :: "(int \<Rightarrow> string result) option"
  at_template :: "(message list \<Rightarrow> string) option"

definition decode_token_text :: "api_tokenizer option \<Rightarrow> int \<Rightarrow> string option \<Rightarrow> string" where
  "decode_token_text tok token_id token_text =
     (case token_text of
        Some t \<Rightarrow> t
      | None \<Rightarrow>
          (case tok of
             None \<Rightarrow> []
           | Some tk \<Rightarrow>
               (case at_decode tk of
                  None \<Rightarrow> []
                | Some f \<Rightarrow> (case f token_id of Inl _ \<Rightarrow> [] | Inr t \<Rightarrow> t))))"

definition tokenize_text :: "api_tokenizer option \<Rightarrow> string \<Rightarrow> exc + int list" where
  "tokenize_text tok text =
     (case tok of
        None \<Rightarrow> Inl (HttpExc 503)
      | Some tk \<Rightarrow>
          (case at_encode tk of
             None \<Rightarrow> Inl (HttpExc 500)
           | Some f \<Rightarrow>
               (case f text of
                  Inl e \<Rightarrow> Inl (PyExc e)
                | Inr (TokenList ts) \<Rightarrow> Inr ts
                | Inr NotAList \<Rightarrow> Inl (HttpExc 500))))"

datatype chat_messages = ChatText string | ChatList "message list"

fun join_lines :: "string list \<Rightarrow> string" where
  "join_lines [] = []"
| "join_lines [x] = x"
| "join_lines (x # y # zs) = x @ [CHR 0x0A] @ join_lines (y # zs)"

definition render_message :: "(msg_value \<Rightarrow> string) \<Rightarrow> message \<Rightarrow> string" where
  "render_message py_str m =
     (case map_of m ''role'' of None \<Rightarrow> ''user'' | Some v \<Rightarrow> py_str v) @ '': '' @
     (case map_of m ''content'' of None \<Rightarrow> [] | Some v \<Rightarrow> py_str v)"

definition chat_prompt_to_token_ids ::
  "(msg_value \<Rightarrow> string) \<Rightarrow> api_tokenizer option \<Rightarrow> chat_messages \<Rightarrow> exc + int list" where
  "chat_prompt_to_token_ids py_str tok messages =
     (case tok of
        None \<Rightarrow> Inl (HttpExc 503)
      | Some tk \<Rightarrow>
          (case messages of
             ChatText s \<Rightarrow> tokenize_text tok s
           | ChatList ms \<Rightarrow>
               (case at_template tk of
                  Some f \<Rightarrow> tokenize_text tok (f ms)
                | None \<Rightarrow>
                    tokenize_text tok (join_lines (map (render_message py_str) ms) @ [CHR 0x0A] @ ''assistant:''))))"

section \<open>Results of sequences\<close>

record api_output = request_output +
  ao_logprob :: "real option"
  ao_top_logprobs :: "(int \<times> real) list option"

record sequence_result_state =
  rs_seq_id :: int
  rs_token_texts :: "string list"
  rs_text_offsets :: "int list"
  rs_token_logprobs :: "real option list"
  rs_top_logprobs :: "(int \<times> real) list option list"
  rs_usage :: "int \<times> int \<times> int"
  rs_finish_reason :: "string option"
  rs_cumulative_logprob :: real
  rs_token_count :: int
  rs_current_text_offset :: int

definition new_result_state :: "int \<Rightarrow> nat \<Rightarrow> sequence_result_state" where
  "new_result_state sid prompt_len =
     \<lparr>rs_seq_id = sid, rs_token_texts = [], rs_text_offsets = [], rs_token_logprobs = [], rs_top_logprobs = [],
      rs_usage = (int prompt_len, 0, int prompt_len), rs_finish_reason = None, rs_cumulative_logprob = 0,
      rs_token_count = 0, rs_current_text_offset = 0\<rparr>"

definition add_output :: "api_tokenizer option \<Rightarrow> int \<Rightarrow> api_output \<Rightarrow> sequence_result_state \<Rightarrow> sequence_result_state" where
  "add_output tok lps out st =
     (let text = decode_token_text tok (ro_token_id out) (ro_text out);
          s1 = st\<lparr>rs_token_texts := rs_token_texts st @ [text], rs_token_count := rs_token_count st + 1\<rparr>;
          s2 = (if lps > 0
                then s1\<lparr>rs_text_offsets := rs_text_offsets s1 @ [rs_current_text_offset s1],
                        rs_token_logprobs := rs_token_logprobs s1 @ [ao_logprob out],
                        rs_top_logprobs := rs_top_logprobs s1 @ [ao_top_logprobs out],
                        rs_current_text_offset := rs_current_text_offset s1 + int (length text)\<rparr>
                else s1);
          s3 = (case ao_logprob out of None \<Rightarrow> s2 | Some x \<Rightarrow> s2\<lparr>rs_cumulative_logprob := rs_cumulative_logprob s2 + x\<rparr>);
          s4 = (case ro_usage out of None \<Rightarrow> s3 | Some u \<Rightarrow> s3\<lparr>rs_usage := u\<rparr>)
      in if ro_finished out
         then s4\<lparr>rs_finish_reason := Some (case ro_reason out of
                   None \<Rightarrow> ''stop'' | Some r \<Rightarrow> if r = [] then ''stop'' else r)\<rparr>
         else s4)"

record wait_state =
  ws_results :: "(int, sequence_result_state) odict"
  ws_finished :: "int set"

text \<open>The callback \<^verbatim>\<open>on_token\<close>; the event is set when enough sequences have finished.\<close>

definition on_token :: "api_tokenizer option \<Rightarrow> int \<Rightarrow> nat \<Rightarrow> api_output \<Rightarrow> wait_state \<Rightarrow> wait_state" where
  "on_token tok lps prompt_len out w =
     (let st = (case map_of (ws_results w) (ro_seq_id out) of
                  None \<Rightarrow> new_result_state (ro_seq_id out) prompt_len | Some st \<Rightarrow> st)
      in \<lparr>ws_results = AList.update (ro_seq_id out) (add_output tok lps out st) (ws_results w),
          ws_finished = (if ro_finished out then insert (ro_seq_id out) (ws_finished w) else ws_finished w)\<rparr>)"

definition wait_done :: "int \<Rightarrow> wait_state \<Rightarrow> bool" where
  "wait_done expected w \<longleftrightarrow> int (card (ws_finished w)) \<ge> expected \<and> ws_finished w \<noteq> {}"

text \<open>
  A round of the loop: outputs that arrive while the connection is checked, whether
  the client has gone, and outputs that arrive during the sleep. \<open>None\<close> means that
  the loop is still waiting after these rounds.
\<close>

type_synonym wait_round = "api_output list \<times> bool \<times> api_output list"

fun wait_loop ::
  "(api_output \<Rightarrow> wait_state \<Rightarrow> wait_state) \<Rightarrow> int \<Rightarrow> wait_round list \<Rightarrow> wait_state \<Rightarrow> (exc + wait_state) option" where
  "wait_loop f expected [] w = (if wait_done expected w then Some (Inr w) else None)"
| "wait_loop f expected ((before, gone, after) # rounds) w =
     (if wait_done expected w then Some (Inr w)
      else if gone then Some (Inl (HttpExc 499))
      else wait_loop f expected rounds (fold f after (fold f before w)))"

record log_probs =
  lp_text_offset :: "int list"
  lp_token_logprobs :: "real option list"
  lp_tokens :: "string list"
  lp_top_logprobs :: "(int \<times> real) list option list"

record final_result =
  fr_seq_id :: int
  fr_text :: string
  fr_usage :: "int \<times> int \<times> int"
  fr_finish_reason :: "string option"
  fr_logprobs :: "log_probs option"
  fr_cumulative_logprob :: real
  fr_token_count :: int

definition finalize_sequence_result :: "bool \<Rightarrow> sequence_result_state \<Rightarrow> final_result" where
  "finalize_sequence_result include_logprobs st =
     \<lparr>fr_seq_id = rs_seq_id st, fr_text = concat (rs_token_texts st), fr_usage = rs_usage st,
      fr_finish_reason = rs_finish_reason st,
      fr_logprobs = (if include_logprobs
        then Some \<lparr>lp_text_offset = rs_text_offsets st, lp_token_logprobs = rs_token_logprobs st,
                   lp_tokens = rs_token_texts st, lp_top_logprobs = rs_top_logprobs st\<rparr>
        else None),
      fr_cumulative_logprob = rs_cumulative_logprob st, fr_token_count = rs_token_count st\<rparr>"

definition select_best_results :: "int \<Rightarrow> int \<Rightarrow> bool \<Rightarrow> final_result list \<Rightarrow> final_result list" where
  "select_best_results n best_of use_logprobs results =
     (if int (length results) \<le> n \<and> best_of \<le> n then sort_key fr_seq_id results
      else
        (let ranked = (if use_logprobs
               then sort_key (\<lambda>r. (- fr_cumulative_logprob r, fr_seq_id r)) results
               else sort_key (\<lambda>r. (- fr_token_count r, fr_seq_id r)) results)
         in sort_key fr_seq_id (take (nat n) ranked)))"

definition apply_response_format_validation ::
  "(string \<Rightarrow> bool) \<Rightarrow> string option \<Rightarrow> final_result \<Rightarrow> final_result" where
  "apply_response_format_validation is_json response_format r =
     (case response_format of
        None \<Rightarrow> r
      | Some ty \<Rightarrow>
          if ty \<noteq> ''json_object'' then r
          else if is_json (fr_text r) then r
          else r\<lparr>fr_finish_reason := Some ''error''\<rparr>)"

section \<open>Handlers\<close>

datatype server_call = Submit string "int list" sv_sampling_params int | Abort string

record api_server =
  as_cp :: cp_state
  as_streams :: stream_manager
  as_calls :: "server_call list"

text \<open>
  What a handler reads: \<open>ae_streams_ready\<close> and the engine's queue (\<open>None\<close> while there
  is no engine), limits, the tokenizer and the index behind the middleware.
  \<open>ae_uuid\<close>, \<open>ae_rounds\<close> and \<open>ae_latency\<close> are indexed by the number of the prompt;
  \<open>ae_accepts\<close> and \<open>ae_aborts\<close> are the answers of the engine's \<^verbatim>\<open>add_request\<close> and
  \<^verbatim>\<open>abort_request\<close>. The identifier and the time of a response are left out.
\<close>

record api_env =
  ae_num_waiting :: "int option"
  ae_streams_ready :: bool
  ae_max_waiting :: int
  ae_max_n :: int
  ae_max_seq_length :: int
  ae_default_model :: "string option"
  ae_tokenizer :: "api_tokenizer option"
  ae_cp_variable :: "string option"
  ae_cp_new :: "middleware result"
  ae_cp_index :: context_pilot
  ae_py_str :: "msg_value \<Rightarrow> string"
  ae_is_json :: "string \<Rightarrow> bool"
  ae_uuid :: "nat \<Rightarrow> string"
  ae_latency :: "nat \<Rightarrow> real \<times> real"
  ae_stream_uuid :: string
  ae_accepts :: "string \<Rightarrow> int list \<Rightarrow> int \<Rightarrow> unit result"
  ae_aborts :: "string \<Rightarrow> unit result"
  ae_rounds :: "nat \<Rightarrow> wait_round list"
  ae_now :: int

record completion_request =
  cr_model :: string
  cr_prompt :: prompt
  cr_max_tokens :: "int option"
  cr_temperature :: "real option"
  cr_top_p :: "real option"
  cr_n :: "int option"
  cr_stream :: bool
  cr_logprobs :: "int option"
  cr_stop :: stop_value
  cr_best_of :: "int option"
  cr_response_format :: "string option"

record choice =
  ch_index :: int
  ch_text :: string
  ch_logprobs :: "log_probs option"
  ch_finish_reason :: string

datatype response =
    ErrorResponse http_error
  | Raise exc
  | Completion string "choice list" "int \<times> int \<times> int"
  | Stream string

text \<open>\<^verbatim>\<open>a or b or "unknown"\<close>.\<close>

definition resolve_model_name :: "string \<Rightarrow> string option \<Rightarrow> string" where
  "resolve_model_name requested default_model =
     (if requested \<noteq> [] then requested
      else case default_model of None \<Rightarrow> ''unknown'' | Some m \<Rightarrow> if m \<noteq> [] then m else ''unknown'')"

text \<open>The checks both handlers make before they look at the prompt.\<close>

definition admit_request ::
  "api_env \<Rightarrow> int option \<Rightarrow> real option \<Rightarrow> real option \<Rightarrow> int option \<Rightarrow> int option \<Rightarrow> response option" where
  "admit_request env max_toks temp p n best_of =
     (if ae_num_waiting env = None then Some (ErrorResponse (create_error_response 503 ''server_error'' ''service_starting'' None))
      else if \<not> ae_streams_ready env then Some (Raise (HttpExc 503))
      else case check_backpressure (ae_max_waiting env) (ae_num_waiting env) of
             Some err \<Rightarrow> Some (ErrorResponse err)
           | None \<Rightarrow>
               if isl (validate_required_params max_toks) then Some (ErrorResponse (invalid_request (Some ''max_tokens'')))
               else if isl (validate_sampling_params temp p None max_toks)
               then Some (ErrorResponse (invalid_request (Some
                      (if violates (\<lambda>t. 0 \<le> t \<and> t \<le> 2) temp then ''temperature''
                       else if violates (\<lambda>x. 0 < x \<and> x \<le> 1) p then ''top_p'' else ''max_tokens''))))
               else map_option ErrorResponse (validate_parallel_sampling (ae_max_n env) n best_of))"

definition prompt_token_ids ::
  "api_env \<Rightarrow> nat \<Rightarrow> string + int list \<Rightarrow> api_server \<Rightarrow> (exc + int list) \<times> api_server" where
  "prompt_token_ids env k p s =
     (case p of
        Inr toks \<Rightarrow> (Inr toks, s)
      | Inl text \<Rightarrow>
          (case process_with_contextpilot (ae_cp_variable env) (ae_cp_new env)
                  (process_completion_request (ae_cp_index env) k (fst (ae_latency env k))) text (as_cp s) of
             (text1, c) \<Rightarrow> (tokenize_text (ae_tokenizer env) text1, s\<lparr>as_cp := c\<rparr>)))"

definition too_long :: "api_env \<Rightarrow> int list \<Rightarrow> int option \<Rightarrow> bool" where
  "too_long env toks max_toks \<longleftrightarrow>
     isl (validate_context_length (int (length toks)) (case max_toks of None \<Rightarrow> 0 | Some n \<Rightarrow> n) (ae_max_seq_length env))"

definition context_length_exceeded :: http_error where
  "context_length_exceeded = create_error_response 400 ''invalid_request_error'' ''context_length_exceeded'' None"

text \<open>\<^verbatim>\<open>runtime_engine.add_request\<close>, and the request that is kept waiting for.\<close>

definition submit :: "api_env \<Rightarrow> string \<Rightarrow> int list \<Rightarrow> sv_sampling_params \<Rightarrow> int \<Rightarrow> api_server \<Rightarrow> (exc + unit) \<times> api_server" where
  "submit env rid toks params n s =
     (map_sum PyExc id (ae_accepts env rid toks n), s\<lparr>as_calls := as_calls s @ [Submit rid toks params n]\<rparr>)"

definition wait_non_stream_result ::
  "api_env \<Rightarrow> nat \<Rightarrow> string \<Rightarrow> int list \<Rightarrow> sv_sampling_params \<Rightarrow> int \<Rightarrow> api_server \<Rightarrow>
   ((exc + final_result list) \<times> api_server) option" where
  "wait_non_stream_result env k rid toks params expected s =
     (case submit env rid toks params expected s of
        (Inl e, s1) \<Rightarrow> Some (Inl e, s1)
      | (Inr _, s1) \<Rightarrow>
          (case wait_loop (on_token (ae_tokenizer env) (logprobs params) (length toks)) expected (ae_rounds env k)
                  \<lparr>ws_results = [], ws_finished = {}\<rparr> of
             None \<Rightarrow> None
           | Some (Inl e) \<Rightarrow>
               Some (Inl (case ae_aborts env rid of Inl err \<Rightarrow> PyExc err | Inr _ \<Rightarrow> e),
                     s1\<lparr>as_calls := as_calls s1 @ [Abort rid]\<rparr>)
           | Some (Inr w) \<Rightarrow>
               Some (Inr (map (finalize_sequence_result (logprobs params > 0) \<circ> snd)
                            (sort_key fst (ws_results w))), s1)))"

definition start_stream ::
  "api_env \<Rightarrow> string \<Rightarrow> string \<Rightarrow> int list \<Rightarrow> sv_sampling_params \<Rightarrow> api_server \<Rightarrow> response \<times> api_server" where
  "start_stream env rid model toks params s =
     (case create_stream (ae_stream_uuid env) (ae_now env) rid model (as_streams s) of
        (Inl e, m) \<Rightarrow> (Raise (PyExc e), s\<lparr>as_streams := m\<rparr>)
      | (Inr _, m) \<Rightarrow>
          (case submit env rid toks params 1 (s\<lparr>as_streams := m\<rparr>) of
             (Inl e, s1) \<Rightarrow> (Raise e, s1)
           | (Inr _, s1) \<Rightarrow> (Stream rid, s1)))"

definition choice_of :: "int \<Rightarrow> final_result \<Rightarrow> choice" where
  "choice_of i r =
     \<lparr>ch_index = i, ch_text = fr_text r, ch_logprobs = fr_logprobs r,
      ch_finish_reason = (case fr_finish_reason r of None \<Rightarrow> ''stop'' | Some x \<Rightarrow> if x = [] then ''stop'' else x)\<rparr>"

definition completion_tokens :: "final_result \<Rightarrow> int" where
  "completion_tokens r = fst (snd (fr_usage r))"

record completion_acc =
  ca_choices :: "choice list"
  ca_prompt_tokens :: int
  ca_completion_tokens :: int

fun add_choices :: "final_result list \<Rightarrow> completion_acc \<Rightarrow> completion_acc" where
  "add_choices [] acc = acc"
| "add_choices (r # rs) acc =
     add_choices rs (acc\<lparr>ca_choices := ca_choices acc @ [choice_of (int (length (ca_choices acc))) r],
                         ca_completion_tokens := ca_completion_tokens acc + completion_tokens r\<rparr>)"

text \<open>The loop over the prompts: the accumulator, or the response that ends it early.\<close>

fun completion_loop ::
  "api_env \<Rightarrow> completion_request \<Rightarrow> sv_sampling_params \<Rightarrow> nat \<Rightarrow> (string + int list) list \<Rightarrow> completion_acc \<Rightarrow> api_server \<Rightarrow>
   ((response + completion_acc) \<times> api_server) option" where
  "completion_loop env req params k [] acc s = Some (Inr acc, s)"
| "completion_loop env req params k (p # ps) acc s =
     (let n = or_int (cr_n req) 1; best_of = or_int (cr_best_of req) n
      in case prompt_token_ids env k p s of
           (Inl e, s1) \<Rightarrow> Some (Inl (Raise e), s1)
         | (Inr toks, s1) \<Rightarrow>
             if too_long env toks (cr_max_tokens req) then Some (Inl (ErrorResponse context_length_exceeded), s1)
             else (case wait_non_stream_result env k (ae_uuid env k) toks params best_of s1 of
                    None \<Rightarrow> None
                  | Some (Inl e, s2) \<Rightarrow> Some (Inl (Raise e), s2)
                  | Some (Inr results, s2) \<Rightarrow>
                      (let selected = map (apply_response_format_validation (ae_is_json env) (cr_response_format req))
                             (select_best_results n best_of (logprobs params > 0) results);
                           acc1 = add_choices selected acc
                       in completion_loop env req params (k + 1) ps
                            (acc1\<lparr>ca_prompt_tokens := ca_prompt_tokens acc1 + int (length toks)\<rparr>) s2)))"

definition completion :: "api_env \<Rightarrow> completion_request \<Rightarrow> api_server \<Rightarrow> (response \<times> api_server) option" where
  "completion env req s =
     (case admit_request env (cr_max_tokens req) (cr_temperature req) (cr_top_p req) (cr_n req) (cr_best_of req) of
        Some r \<Rightarrow> Some (r, s)
      | None \<Rightarrow>
          (case parse_prompt_format (cr_prompt req) of
             Inl _ \<Rightarrow> Some (ErrorResponse (invalid_request None), s)
           | Inr (prompt_is_tokens, prompts) \<Rightarrow>
               (let n = or_int (cr_n req) 1; best_of = or_int (cr_best_of req) n;
                    model = resolve_model_name (cr_model req) (ae_default_model env);
                    params = build_sampling_params (cr_temperature req) (cr_top_p req)
                      (case cr_max_tokens req of None \<Rightarrow> 0 | Some m \<Rightarrow> m) (cr_stop req) (cr_logprobs req)
                in if cr_stream req
                   then if n \<noteq> 1 \<or> best_of \<noteq> 1 then Some (ErrorResponse (invalid_request None), s)
                        else if length prompts \<noteq> 1 then Some (ErrorResponse (invalid_request None), s)
                        else case prompt_token_ids env 0 (hd prompts) s of
                               (Inl e, s1) \<Rightarrow> Some (Raise e, s1)
                             | (Inr toks, s1) \<Rightarrow>
                                 if too_long env toks (cr_max_tokens req)
                                 then Some (ErrorResponse context_length_exceeded, s1)
                                 else Some (start_stream env (ae_uuid env 0) model toks params s1)
                   else case completion_loop env req params 0 prompts
                               \<lparr>ca_choices = [], ca_prompt_tokens = 0, ca_completion_tokens = 0\<rparr> s of
                          None \<Rightarrow> None
                        | Some (Inl r, s1) \<Rightarrow> Some (r, s1)
                        | Some (Inr acc, s1) \<Rightarrow>
                            Some (Completion model (ca_choices acc)
                                    (ca_prompt_tokens acc, ca_completion_tokens acc,
                                     ca_prompt_tokens acc + ca_completion_tokens acc), s1))))"

record chat_request =
  hq_model :: string
  hq_messages :: chat_messages
  hq_max_tokens :: "int option"
  hq_temperature :: "real option"
  hq_top_p :: "real option"
  hq_n :: "int option"
  hq_stream :: bool
  hq_logprobs :: "bool option"
  hq_top_logprobs :: "int option"
  hq_stop :: stop_value
  hq_response_format :: "string option"

definition process_chat_messages :: "api_env \<Rightarrow> chat_messages \<Rightarrow> cp_state \<Rightarrow> chat_messages \<times> cp_state" where
  "process_chat_messages env messages c =
     (case messages of
        ChatText t \<Rightarrow> (messages, c)
      | ChatList ms \<Rightarrow>
          apfst ChatList (process_with_contextpilot (ae_cp_variable env) (ae_cp_new env)
            (process_chat_request (ae_py_str env) (ae_cp_index env) 0 (fst (ae_latency env 0)) (snd (ae_latency env 0)))
            ms c))"

definition chat_completion :: "api_env \<Rightarrow> chat_request \<Rightarrow> api_server \<Rightarrow> (response \<times> api_server) option" where
  "chat_completion env req s =
     (case admit_request env (hq_max_tokens req) (hq_temperature req) (hq_top_p req) (hq_n req) None of
        Some r \<Rightarrow> Some (r, s)
      | None \<Rightarrow>
          (let n = or_int (hq_n req) 1; rid = ae_uuid env 0;
               model = resolve_model_name (hq_model req) (ae_default_model env);
               params = build_sampling_params (hq_temperature req) (hq_top_p req)
                 (case hq_max_tokens req of None \<Rightarrow> 0 | Some m \<Rightarrow> m) (hq_stop req)
                 (if hq_logprobs req = Some True then hq_top_logprobs req else None)
           in case process_chat_messages env (hq_messages req) (as_cp s) of (messages, c) \<Rightarrow>
              (let s0 = s\<lparr>as_cp := c\<rparr>
              in case chat_prompt_to_token_ids (ae_py_str env) (ae_tokenizer env) messages of
                   Inl e \<Rightarrow> Some (Raise e, s0)
                 | Inr toks \<Rightarrow>
                     if too_long env toks (hq_max_tokens req) then Some (ErrorResponse context_length_exceeded, s0)
                     else if hq_stream req
                     then if n \<noteq> 1 then Some (ErrorResponse (invalid_request None), s0)
                          else Some (start_stream env rid model toks params s0)
                     else (case wait_non_stream_result env 0 rid toks params n s0 of
                            None \<Rightarrow> None
                          | Some (Inl e, s1) \<Rightarrow> Some (Raise e, s1)
                          | Some (Inr results, s1) \<Rightarrow>
                              (let rs = map (apply_response_format_validation (ae_is_json env) (hq_response_format req)) results;
                                   used = sum_list (map completion_tokens rs)
                               in Some (Completion model (map (\<lambda>(i, r). choice_of (int i) r) (zip [0..<length rs] rs))
                                          (int (length toks), used, int (length toks) + used), s1))))))"

section \<open>Collecting the outputs of a request\<close>

definition delivered :: "wait_round list \<Rightarrow> api_output list" where
  "delivered rounds = concat (map (\<lambda>(before, gone, after). before @ after) rounds)"

definition outputs_of :: "int \<Rightarrow> api_output list \<Rightarrow> api_output list" where
  "outputs_of i outs = filter (\<lambda>out. ro_seq_id out = i) outs"

text \<open>The outputs of a sequence are complete: the last and no other is marked as finished.\<close>

definition sequence_complete :: "int \<Rightarrow> api_output list \<Rightarrow> bool" where
  "sequence_complete i outs \<longleftrightarrow>
     (case rev (outputs_of i outs) of [] \<Rightarrow> False | x # xs \<Rightarrow> ro_finished x \<and> list_all (\<lambda>y. \<not> ro_finished y) xs)"

lemma outputs_of_append [simp]: "outputs_of i (xs @ ys) = outputs_of i xs @ outputs_of i ys"
  by (simp add: outputs_of_def)

lemma sequence_complete_prefix:
  assumes "sequence_complete i (xs @ ys)" and "x \<in> set xs" and "ro_seq_id x = i" and "ro_finished x"
  shows "outputs_of i ys = []"
proof (rule ccontr)
  assume ne: "outputs_of i ys \<noteq> []"
  have "x \<in> set (outputs_of i xs)" using assms(2,3) by (simp add: outputs_of_def)
  moreover from ne obtain y zs where "rev (outputs_of i ys) = y # zs" by (cases "rev (outputs_of i ys)") auto
  ultimately show False using assms(1,4) by (auto simp: sequence_complete_def list_all_iff)
qed

definition wait_init :: wait_state where
  "wait_init = \<lparr>ws_results = [], ws_finished = {}\<rparr>"

lemma on_token_fold:
  fixes tok lps plen
  defines "w \<equiv> \<lambda>outs. fold (on_token tok lps plen) outs wait_init"
  shows "map_of (ws_results (w outs)) i =
      (if outputs_of i outs = [] then None
       else Some (fold (add_output tok lps) (outputs_of i outs) (new_result_state i plen)))"
    and "ws_finished (w outs) = ro_seq_id ` {x \<in> set outs. ro_finished x}"
    and "od_ok (ws_results (w outs))"
proof (induction outs arbitrary: i rule: rev_induct)
  case Nil
  { case 1 then show ?case by (simp add: w_def wait_init_def outputs_of_def)
  next case 2 then show ?case by (simp add: w_def wait_init_def)
  next case 3 then show ?case by (simp add: w_def wait_init_def) }
next
  case (snoc x xs)
  have step: "w (xs @ [x]) = on_token tok lps plen x (w xs)" by (simp add: w_def)
  { case 1
    show ?case unfolding step by (auto simp: on_token_def Let_def outputs_of_def snoc.IH(1))
  next case 2 show ?case using snoc.IH(2) unfolding step by (auto simp: on_token_def Let_def)
  next case 3 show ?case using snoc.IH(3) unfolding step by (simp add: on_token_def Let_def) }
qed

lemma wait_loop_collects:
  assumes "\<forall>r \<in> set rounds. \<not> fst (snd r)" and "finite S" and "int (card S) = expected" and "0 < expected"
    and "outs = consumed @ delivered rounds" and "ro_seq_id ` set outs \<subseteq> S" and "\<forall>i \<in> S. sequence_complete i outs"
    and "w = fold (on_token tok lps plen) consumed wait_init"
  shows "\<exists>w'. wait_loop (on_token tok lps plen) expected rounds w = Some (Inr w') \<and> od_ok (ws_results w') \<and>
    (\<forall>i. map_of (ws_results w') i =
      (if i \<in> S then Some (fold (add_output tok lps) (outputs_of i outs) (new_result_state i plen)) else None))"
proof -
  have fin: "(\<forall>i. map_of (ws_results w) i =
      (if i \<in> S then Some (fold (add_output tok lps) (outputs_of i outs) (new_result_state i plen)) else None)) \<and>
      od_ok (ws_results w)"
    if w: "w = fold (on_token tok lps plen) consumed wait_init" and "wait_done expected w" and o: "outs = consumed @ rest"
    for w consumed rest
  proof -
    note f = on_token_fold [of tok lps plen consumed, folded w]
    have sub: "ws_finished w \<subseteq> S" using assms(6) o unfolding f(2) by auto
    have "card S \<le> card (ws_finished w)" using that(2) assms(3) by (simp add: wait_done_def)
    with sub assms(2) have eq: "ws_finished w = S" by (metis card_seteq)
    have "outputs_of i rest = [] \<and> outputs_of i consumed \<noteq> []" if "i \<in> S" for i
    proof -
      from that eq f(2) obtain x where x: "x \<in> set consumed" "ro_finished x" "ro_seq_id x = i" by auto
      then have "outputs_of i consumed \<noteq> []" by (auto simp: outputs_of_def filter_empty_conv)
      moreover have "outputs_of i rest = []"
        by (rule sequence_complete_prefix [of i consumed]) (use assms(7) o that x in auto)
      ultimately show ?thesis by simp
    qed
    moreover have "outputs_of i consumed = []" if "i \<notin> S" for i
      using that assms(6) o by (auto simp: outputs_of_def filter_empty_conv)
    ultimately show ?thesis using f(1,3) o by auto
  qed
  from assms(1,5,8) show ?thesis
  proof (induction rounds arbitrary: consumed w)
    case Nil
    have "ro_seq_id ` {x \<in> set outs. ro_finished x} = S"
    proof -
      have "\<exists>x \<in> set outs. ro_finished x \<and> ro_seq_id x = i" if i: "i \<in> S" for i
      proof -
        obtain x xs where "rev (outputs_of i outs) = x # xs" "ro_finished x"
          using bspec [OF assms(7) i] by (cases "rev (outputs_of i outs)") (simp_all add: sequence_complete_def)
        then have "x \<in> set (outputs_of i outs)" "ro_finished x" by (metis list.set_intros(1) set_rev)+
        then show ?thesis by (auto simp: outputs_of_def)
      qed
      then show ?thesis using assms(6) by force
    qed
    then have "wait_done expected w" using Nil.prems assms(3,4) on_token_fold(2) [of tok lps plen consumed]
      by (auto simp: wait_done_def delivered_def)
    with fin [OF Nil.prems(3) this, of "[]"] Nil.prems show ?case by (simp add: delivered_def)
  next
    case (Cons r rounds)
    obtain before gone after where r: "r = (before, gone, after)" by (cases r)
    show ?case
    proof (cases "wait_done expected w")
      case True
      with fin [OF Cons.prems(3) True Cons.prems(2)] r show ?thesis by simp
    next
      case False
      have "\<not> gone" using Cons.prems(1) r by simp
      with False r Cons.IH [of "consumed @ before @ after" "fold (on_token tok lps plen) (before @ after) w"] Cons.prems
      show ?thesis by (simp add: delivered_def)
    qed
  qed
qed

section \<open>Selecting the best sequences\<close>

definition tokens_text :: "api_tokenizer option \<Rightarrow> api_output list \<Rightarrow> string" where
  "tokens_text tok outs = concat (map (\<lambda>x. decode_token_text tok (ro_token_id x) (ro_text x)) outs)"

text \<open>The score of a sequence: its total log-probability if those are computed, else its length.\<close>

definition sequence_score :: "bool \<Rightarrow> api_output list \<Rightarrow> real" where
  "sequence_score use_logprobs outs =
     (if use_logprobs then sum_list (map (\<lambda>x. case ao_logprob x of None \<Rightarrow> 0 | Some p \<Rightarrow> p) outs)
      else real (length outs))"

definition best_ids :: "(int \<Rightarrow> real) \<Rightarrow> int \<Rightarrow> int set \<Rightarrow> int list \<Rightarrow> bool" where
  "best_ids score n S ids \<longleftrightarrow>
     sorted_wrt (<) ids \<and> set ids \<subseteq> S \<and> int (length ids) = n \<and>
     (\<forall>i \<in> S - set ids. \<forall>j \<in> set ids. score i \<le> score j)"

definition sequence_answer :: "api_tokenizer option \<Rightarrow> int \<Rightarrow> nat \<Rightarrow> api_output list \<Rightarrow> int \<Rightarrow> final_result" where
  "sequence_answer tok lps plen outs i =
     finalize_sequence_result (lps > 0) (fold (add_output tok lps) (outputs_of i outs) (new_result_state i plen))"

lemma add_output_fold:
  fixes i plen tok lps
  defines "st \<equiv> \<lambda>outs. fold (add_output tok lps) outs (new_result_state i plen)"
  shows "rs_seq_id (st outs) = i \<and> rs_token_texts (st outs) = map (\<lambda>x. decode_token_text tok (ro_token_id x) (ro_text x)) outs \<and>
    rs_token_count (st outs) = int (length outs) \<and>
    rs_cumulative_logprob (st outs) = sum_list (map (\<lambda>x. case ao_logprob x of None \<Rightarrow> 0 | Some p \<Rightarrow> p) outs)"
proof (induction outs rule: rev_induct)
  case Nil
  then show ?case by (simp add: st_def new_result_state_def)
next
  case (snoc x xs)
  have "st (xs @ [x]) = add_output tok lps x (st xs)" by (simp add: st_def)
  with snoc show ?case by (simp add: add_output_def Let_def split: option.splits)
qed

lemma sequence_answer_facts:
  "fr_seq_id (sequence_answer tok lps plen outs i) = i"
  "fr_text (sequence_answer tok lps plen outs i) = tokens_text tok (outputs_of i outs)"
  "sequence_score True (outputs_of i outs) = fr_cumulative_logprob (sequence_answer tok lps plen outs i)"
  "sequence_score False (outputs_of i outs) = real_of_int (fr_token_count (sequence_answer tok lps plen outs i))"
  using add_output_fold [of tok lps "outputs_of i outs" i plen]
  by (simp_all add: sequence_answer_def finalize_sequence_result_def tokens_text_def sequence_score_def)

lemma sorted_take_drop:
  assumes "sorted (map f xs)" and "x \<in> set (take n xs)" and "y \<in> set (drop n xs)"
  shows "f x \<le> f y"
  using assms(1) assms(2,3) sorted_append [of "map f (take n xs)" "map f (drop n xs)"]
  by (metis append_take_drop_id imageI list.set_map map_append)

lemma sort_key_ids:
  fixes ans :: "int \<Rightarrow> final_result"
  assumes "\<And>i. fr_seq_id (ans i) = i" and "set xs \<subseteq> ans ` S" and "distinct (map fr_seq_id xs)"
  shows "sort_key fr_seq_id xs = map ans (sort (map fr_seq_id xs)) \<and> sorted_wrt (<) (sort (map fr_seq_id xs)) \<and>
    set (sort (map fr_seq_id xs)) \<subseteq> S"
proof -
  let ?ys = "sort_key fr_seq_id xs"
  have "map fr_seq_id ?ys = sort (map fr_seq_id xs)"
    by (rule properties_for_sort [symmetric]) simp_all
  moreover have "map ans (map fr_seq_id ?ys) = ?ys"
    using assms(1,2) by (auto intro!: map_idI)
  ultimately have "?ys = map ans (sort (map fr_seq_id xs))" by metis
  moreover have "sorted_wrt (<) (sort (map fr_seq_id xs))"
    using assms(3) by (simp add: strict_sorted_iff)
  moreover have "set (sort (map fr_seq_id xs)) \<subseteq> S" using assms(1,2) by auto
  ultimately show ?thesis by blast
qed

lemma select_best_ids:
  fixes ans :: "int \<Rightarrow> final_result"
  assumes id: "\<And>i. fr_seq_id (ans i) = i" and "finite S" and "int (card S) = best_of" and "0 < n" and "n \<le> best_of"
    and score: "\<And>i. score i = (if use then fr_cumulative_logprob (ans i) else real_of_int (fr_token_count (ans i)))"
  shows "\<exists>ids. select_best_results n best_of use (map ans (sorted_list_of_set S)) = map ans ids \<and> best_ids score n S ids"
proof -
  let ?rs = "map ans (sorted_list_of_set S)"
  have set: "set ?rs = ans ` S" and dist: "distinct (map fr_seq_id ?rs)" and len: "int (length ?rs) = best_of"
    using assms(2,3) by (simp_all add: id comp_def)
  define ranked where "ranked = (if use then sort_key (\<lambda>r. (- fr_cumulative_logprob r, fr_seq_id r)) ?rs
      else sort_key (\<lambda>r. (- fr_token_count r, fr_seq_id r)) ?rs)"
  define sel where "sel = (if int (length ?rs) \<le> n \<and> best_of \<le> n then ?rs else take (nat n) ranked)"
  have ms: "mset ranked = mset ?rs" by (simp add: ranked_def)
  then have sr: "set ranked = ans ` S" "distinct (map fr_seq_id ranked)" "length ranked = length ?rs"
    using set dist by (metis set_mset_mset, metis mset_eq_imp_distinct_iff mset_map, metis size_mset)
  have ord: "score (fr_seq_id y) \<le> score (fr_seq_id x)" if "x \<in> set (take m ranked)" "y \<in> set (drop m ranked)" for x y m
  proof -
    have "x \<in> ans ` S" "y \<in> ans ` S" using that sr(1) by (auto dest!: in_set_takeD in_set_dropD)
    then have e: "ans (fr_seq_id x) = x" "ans (fr_seq_id y) = y" by (auto simp: id)
    show ?thesis
    proof (cases use)
      case True
      have "sorted (map (\<lambda>r. (- fr_cumulative_logprob r, fr_seq_id r)) ranked)" using True by (simp add: ranked_def)
      from sorted_take_drop [OF this that] show ?thesis using True e by (auto simp: score)
    next
      case False
      have "sorted (map (\<lambda>r. (- fr_token_count r, fr_seq_id r)) ranked)" using False by (simp add: ranked_def)
      from sorted_take_drop [OF this that] show ?thesis using False e by (auto simp: score)
    qed
  qed
  have sub: "set sel \<subseteq> ans ` S" and ls: "int (length sel) = n"
    using set sr len assms(4,5) by (auto simp: sel_def dest: in_set_takeD)
  have "distinct (map fr_seq_id (take m ranked))" for m using sr(2) by (simp add: take_map [symmetric])
  then have ds: "distinct (map fr_seq_id sel)" using dist by (cases "int (length ?rs) \<le> n \<and> best_of \<le> n") (simp_all add: sel_def)
  define ids where "ids = sort (map fr_seq_id sel)"
  have "select_best_results n best_of use ?rs = sort_key fr_seq_id sel"
    unfolding select_best_results_def sel_def ranked_def Let_def by simp
  with sort_key_ids [OF id sub ds] have "select_best_results n best_of use ?rs = map ans ids" and
    ids: "sorted_wrt (<) ids" "set ids \<subseteq> S" by (simp_all add: ids_def)
  moreover have "score i \<le> score j" if "i \<in> S - set ids" "j \<in> set ids" for i j
  proof -
    from that(2) obtain x where x: "x \<in> set sel" "fr_seq_id x = j" by (auto simp: ids_def)
    have "set ids = fr_seq_id ` set sel" by (simp add: ids_def)
    then have "ans i \<notin> set sel" using that(1) id by (metis DiffD2 imageI)
    then have "sel = take (nat n) ranked" and "ans i \<notin> set (take (nat n) ranked)"
      using set that(1) by (auto simp: sel_def split: if_splits)
    moreover have "ans i \<in> set ranked" using sr(1) that(1) by simp
    then have "ans i \<in> set (take (nat n) ranked) \<or> ans i \<in> set (drop (nat n) ranked)"
      by (metis Un_iff append_take_drop_id set_append)
    ultimately show ?thesis using ord [of x "nat n" "ans i"] x id by auto
  qed
  ultimately have "best_ids score n S ids" using ls unfolding best_ids_def by (simp add: ids_def)
  with \<open>select_best_results n best_of use ?rs = map ans ids\<close> show ?thesis by blast
qed

section \<open>A completion\<close>

text \<open>
  What one prompt needs to be served: its tokens fit, the engine takes the request and
  delivers complete outputs of the sequences \<open>S\<close>, and the client stays.
\<close>

definition prompt_served ::
  "api_env \<Rightarrow> completion_request \<Rightarrow> nat \<Rightarrow> string + int list \<Rightarrow> int list \<Rightarrow> int set \<Rightarrow> bool" where
  "prompt_served env req k p toks S \<longleftrightarrow>
     (let best_of = or_int (cr_best_of req) (or_int (cr_n req) 1); outs = delivered (ae_rounds env k)
      in (case p of Inr ts \<Rightarrow> ts = toks | Inl text \<Rightarrow> tokenize_text (ae_tokenizer env) text = Inr toks) \<and>
         \<not> too_long env toks (cr_max_tokens req) \<and> ae_accepts env (ae_uuid env k) toks best_of = Inr () \<and>
         (\<forall>r \<in> set (ae_rounds env k). \<not> fst (snd r)) \<and> finite S \<and> int (card S) = best_of \<and>
         ro_seq_id ` set outs \<subseteq> S \<and> (\<forall>i \<in> S. sequence_complete i outs))"

lemma wait_served:
  assumes "prompt_served env req k p toks S" and "expected = or_int (cr_best_of req) (or_int (cr_n req) 1)" and "0 < expected"
  shows "wait_non_stream_result env k (ae_uuid env k) toks params expected s =
    Some (Inr (map (sequence_answer (ae_tokenizer env) (logprobs params) (length toks) (delivered (ae_rounds env k)))
                (sorted_list_of_set S)),
          s\<lparr>as_calls := as_calls s @ [Submit (ae_uuid env k) toks params expected]\<rparr>)"
proof -
  let ?tok = "ae_tokenizer env" and ?outs = "delivered (ae_rounds env k)" and ?lps = "logprobs params"
  define g where "g i = fold (add_output ?tok ?lps) (outputs_of i ?outs) (new_result_state i (length toks))" for i
  note served = assms(1) [unfolded prompt_served_def Let_def, folded assms(2)]
  have fin: "finite S" using served by blast
  have "\<exists>w. wait_loop (on_token ?tok ?lps (length toks)) expected (ae_rounds env k) wait_init = Some (Inr w) \<and>
      od_ok (ws_results w) \<and> (\<forall>i. map_of (ws_results w) i = (if i \<in> S then Some (g i) else None))"
    unfolding g_def by (rule wait_loop_collects [where consumed = "[]"]) (use served assms(3) in auto)
  then obtain w where w: "wait_loop (on_token ?tok ?lps (length toks)) expected (ae_rounds env k) wait_init = Some (Inr w)"
    and ok: "od_ok (ws_results w)" and m: "\<And>i. map_of (ws_results w) i = (if i \<in> S then Some (g i) else None)" by blast
  have dom: "fst ` set (ws_results w) = S" using m by (auto simp: dom_map_of_conv_image_fst [symmetric] dom_def split: if_splits)
  have val: "snd q = g (fst q)" if "q \<in> set (ws_results w)" for q
    using that m [of "fst q"] map_of_is_SomeI [OF ok, of "fst q" "snd q"] dom by (auto split: if_splits)
  have ok': "od_ok (sort_key fst (ws_results w))" using ok by (metis mset_eq_imp_distinct_iff mset_map mset_sort)
  have "map fst (sort_key fst (ws_results w)) = sorted_list_of_set S"
    by (rule sorted_distinct_set_unique) (use ok' dom fin in auto)
  moreover have "map snd (sort_key fst (ws_results w)) = map g (map fst (sort_key fst (ws_results w)))"
    using val by simp
  ultimately have "map (finalize_sequence_result (0 < ?lps) \<circ> snd) (sort_key fst (ws_results w)) =
      map (sequence_answer ?tok ?lps (length toks) ?outs) (sorted_list_of_set S)"
    by (simp add: sequence_answer_def g_def [symmetric] map_map [symmetric] del: map_map) (simp add: comp_def sequence_answer_def g_def)
  with w served show ?thesis by (simp add: wait_non_stream_result_def submit_def wait_init_def)
qed

definition acc_ok :: "completion_acc \<Rightarrow> bool" where
  "acc_ok acc \<longleftrightarrow> map ch_index (ca_choices acc) = map int [0..<length (ca_choices acc)]"

lemma add_choices_spec:
  "acc_ok acc \<Longrightarrow> acc_ok (add_choices rs acc) \<and> ca_prompt_tokens (add_choices rs acc) = ca_prompt_tokens acc \<and>
   map ch_text (ca_choices (add_choices rs acc)) = map ch_text (ca_choices acc) @ map fr_text rs"
  by (induction rs acc rule: add_choices.induct) (simp_all add: acc_ok_def choice_of_def)

lemma response_format_text [simp]: "fr_text (apply_response_format_validation j f r) = fr_text r"
  by (simp add: apply_response_format_validation_def split: option.splits)

lemma completion_loop_spec:
  assumes "\<And>j. j < length ps \<Longrightarrow> prompt_served env req (k + j) (ps ! j) (toks (k + j)) (S (k + j))"
    and "n = or_int (cr_n req) 1" and "best_of = or_int (cr_best_of req) n" and "0 < best_of"
    and "\<And>j. j < length ps \<Longrightarrow> select_best_results n best_of (logprobs params > 0)
           (map (ans (k + j)) (sorted_list_of_set (S (k + j)))) = map (ans (k + j)) (sel (k + j))"
    and "ans = (\<lambda>i. sequence_answer (ae_tokenizer env) (logprobs params) (length (toks i)) (delivered (ae_rounds env i)))"
    and "\<not> is_contextpilot_active (ae_cp_variable env) (as_cp s)" and "acc_ok acc"
  shows "\<exists>acc'. completion_loop env req params k ps acc s =
      Some (Inr acc', s\<lparr>as_calls := as_calls s @
         map (\<lambda>j. Submit (ae_uuid env (k + j)) (toks (k + j)) params best_of) [0..<length ps]\<rparr>) \<and> acc_ok acc' \<and>
    ca_prompt_tokens acc' = ca_prompt_tokens acc + (\<Sum>j \<leftarrow> [0..<length ps]. int (length (toks (k + j)))) \<and>
    map ch_text (ca_choices acc') = map ch_text (ca_choices acc) @
      concat (map (\<lambda>j. map (fr_text \<circ> ans (k + j)) (sel (k + j))) [0..<length ps])"
  using assms(1,5,7,8)
proof (induction ps arbitrary: k acc s)
  case Nil
  then show ?case by simp
next
  case (Cons p ps)
  have served: "prompt_served env req k p (toks k) (S k)" using Cons.prems(1) [of 0] by simp
  have inactive: "prompt_token_ids env k p s = (Inr (toks k), s)"
    using served Cons.prems(3) unfolding prompt_served_def Let_def prompt_token_ids_def
    by (auto simp: process_with_contextpilot_def ensure_cp_middleware_initialized_def split: sum.splits)
  note w = wait_served [OF served, unfolded assms(2) [symmetric] assms(3) [symmetric], OF refl assms(4)]
  define s1 where "s1 = s\<lparr>as_calls := as_calls s @ [Submit (ae_uuid env k) (toks k) params best_of]\<rparr>"
  define picked where "picked = map (apply_response_format_validation (ae_is_json env) (cr_response_format req)) (map (ans k) (sel k))"
  define acc1 where "acc1 = (add_choices picked acc)\<lparr>ca_prompt_tokens := ca_prompt_tokens (add_choices picked acc) + int (length (toks k))\<rparr>"
  have sel: "select_best_results n best_of (logprobs params > 0) (map (ans k) (sorted_list_of_set (S k))) = map (ans k) (sel k)"
    using Cons.prems(2) [of 0] by simp
  have step: "completion_loop env req params k (p # ps) acc s = completion_loop env req params (k + 1) ps acc1 s1"
    using served inactive w sel unfolding prompt_served_def Let_def
    by (simp add: assms(2,3) [symmetric] assms(6) s1_def acc1_def picked_def Let_def comp_def)
  have acc1: "acc_ok acc1" "ca_prompt_tokens acc1 = ca_prompt_tokens acc + int (length (toks k))"
    "map ch_text (ca_choices acc1) = map ch_text (ca_choices acc) @ map (fr_text \<circ> ans k) (sel k)"
    using add_choices_spec [OF Cons.prems(4), of picked] by (simp_all add: acc1_def acc_ok_def picked_def)
  have upt: "[0..<length (p # ps)] = 0 # map Suc [0..<length ps]" by (simp add: map_Suc_upt upt_conv_Cons del: upt_Suc)
  from Cons.IH [of "k + 1" s1 acc1] Cons.prems(1) [of "Suc j" for j] Cons.prems(2) [of "Suc j" for j] Cons.prems(3) acc1
  show ?case unfolding step upt by (auto simp: s1_def comp_def)
qed

lemma admit_request_None:
  assumes "admit_request env max_toks temp p n best_of = None"
  shows "0 < or_int n 1 \<and> or_int n 1 \<le> or_int best_of (or_int n 1) \<and> or_int best_of (or_int n 1) \<le> ae_max_n env \<and>
    (\<exists>m > 0. max_toks = Some m) \<and> ae_num_waiting env \<noteq> None \<and> ae_streams_ready env"
  using assms
  by (auto simp: admit_request_def validate_parallel_sampling_def validate_required_params_def
      validate_sampling_params_def violates_def Let_def split: option.splits if_splits)

text \<open>
  C18: With ContextPilot inactive, a completion request that is not streamed,
  that passes the checks, whose prompts fit and whose sequences the engine
  finishes while the client stays, is answered: \<open>n\<close> choices
  for every prompt, numbered in order, each the concatenated texts of one
  sequence's tokens, and these sequences are the best of \<open>best_of\<close> by total
  log-probability (or by length where none are computed). Each prompt is
  submitted to the engine once, and the usage counts every prompt token.
\<close>

theorem completion_answers:
  fixes env req
  defines "n \<equiv> or_int (cr_n req) 1"
  defines "best_of \<equiv> or_int (cr_best_of req) n"
  defines "params \<equiv> build_sampling_params (cr_temperature req) (cr_top_p req)
      (case cr_max_tokens req of None \<Rightarrow> 0 | Some m \<Rightarrow> m) (cr_stop req) (cr_logprobs req)"
  defines "seq_outs \<equiv> \<lambda>k i. outputs_of i (delivered (ae_rounds env k))"
  assumes "admit_request env (cr_max_tokens req) (cr_temperature req) (cr_top_p req) (cr_n req) (cr_best_of req) = None"
    and "parse_prompt_format (cr_prompt req) = Inr (is_tokens, prompts)" and "\<not> cr_stream req"
    and "\<not> is_contextpilot_active (ae_cp_variable env) (as_cp s)"
    and "\<And>k. k < length prompts \<Longrightarrow> prompt_served env req k (prompts ! k) (toks k) (S k)"
  shows "\<exists>choices prompt_tokens used s' sel.
    completion env req s = Some (Completion (resolve_model_name (cr_model req) (ae_default_model env)) choices
        (prompt_tokens, used, prompt_tokens + used), s') \<and>
    map ch_index choices = map int [0..<length prompts * nat n] \<and>
    map ch_text choices = concat (map (\<lambda>k. map (\<lambda>i. tokens_text (ae_tokenizer env) (seq_outs k i)) (sel k)) [0..<length prompts]) \<and>
    (\<forall>k < length prompts. best_ids (\<lambda>i. sequence_score (0 < logprobs params) (seq_outs k i)) n (S k) (sel k)) \<and>
    as_calls s' = as_calls s @ map (\<lambda>k. Submit (ae_uuid env k) (toks k) params best_of) [0..<length prompts] \<and>
    prompt_tokens = (\<Sum>k \<leftarrow> [0..<length prompts]. int (length (toks k)))"
proof -
  define ans where "ans k = sequence_answer (ae_tokenizer env) (logprobs params) (length (toks k)) (delivered (ae_rounds env k))" for k
  have n: "0 < n" "n \<le> best_of" using admit_request_None [OF assms(5)] by (simp_all add: n_def best_of_def)
  have "\<exists>ids. select_best_results n best_of (0 < logprobs params) (map (ans k) (sorted_list_of_set (S k))) = map (ans k) ids \<and>
      best_ids (\<lambda>i. sequence_score (0 < logprobs params) (seq_outs k i)) n (S k) ids" if "k < length prompts" for k
    using assms(9) [OF that] n unfolding prompt_served_def Let_def
    by (intro select_best_ids) (auto simp: ans_def sequence_answer_facts seq_outs_def n_def best_of_def)
  then obtain sel where sel: "\<And>k. k < length prompts \<Longrightarrow>
      select_best_results n best_of (0 < logprobs params) (map (ans k) (sorted_list_of_set (S k))) = map (ans k) (sel k) \<and>
      best_ids (\<lambda>i. sequence_score (0 < logprobs params) (seq_outs k i)) n (S k) (sel k)" by metis
  let ?acc = "\<lparr>ca_choices = [], ca_prompt_tokens = 0, ca_completion_tokens = 0\<rparr>"
  let ?s = "s\<lparr>as_calls := as_calls s @ map (\<lambda>k. Submit (ae_uuid env k) (toks k) params best_of) [0..<length prompts]\<rparr>"
  have "\<exists>acc'. completion_loop env req params 0 prompts ?acc s =
      Some (Inr acc', s\<lparr>as_calls := as_calls s @
         map (\<lambda>j. Submit (ae_uuid env (0 + j)) (toks (0 + j)) params best_of) [0..<length prompts]\<rparr>) \<and> acc_ok acc' \<and>
    ca_prompt_tokens acc' = ca_prompt_tokens ?acc + (\<Sum>j \<leftarrow> [0..<length prompts]. int (length (toks (0 + j)))) \<and>
    map ch_text (ca_choices acc') = map ch_text (ca_choices ?acc) @
      concat (map (\<lambda>j. map (fr_text \<circ> ans (0 + j)) (sel (0 + j))) [0..<length prompts])"
    by (rule completion_loop_spec [where S = S and n = n and best_of = best_of])
      (use assms(8,9) sel n in \<open>auto simp: n_def best_of_def ans_def fun_eq_iff acc_ok_def\<close>)
  then obtain acc' where run: "completion_loop env req params 0 prompts ?acc s = Some (Inr acc', ?s)" and ok: "acc_ok acc'"
    and pt: "ca_prompt_tokens acc' = (\<Sum>k \<leftarrow> [0..<length prompts]. int (length (toks k)))"
    and texts: "map ch_text (ca_choices acc') = concat (map (\<lambda>k. map (fr_text \<circ> ans k) (sel k)) [0..<length prompts])"
    by auto
  have "length (sel k) = nat n" if "k < length prompts" for k using sel [OF that] by (auto simp: best_ids_def)
  then have "map (\<lambda>k. length (sel k)) [0..<length prompts] = replicate (length prompts) (nat n)"
    by (auto intro: nth_equalityI)
  then have "length (map ch_text (ca_choices acc')) = length prompts * nat n"
    unfolding texts by (simp add: length_concat comp_def sum_list_replicate)
  then have idx: "map ch_index (ca_choices acc') = map int [0..<length prompts * nat n]" using ok by (simp add: acc_ok_def)
  have "completion env req s = Some (Completion (resolve_model_name (cr_model req) (ae_default_model env)) (ca_choices acc')
      (ca_prompt_tokens acc', ca_completion_tokens acc', ca_prompt_tokens acc' + ca_completion_tokens acc'), ?s)"
    using assms(5,6,7) run by (simp add: completion_def params_def [symmetric] Let_def)
  moreover have "fr_text \<circ> ans k = (\<lambda>i. tokens_text (ae_tokenizer env) (seq_outs k i))" for k
    by (auto simp: ans_def sequence_answer_facts seq_outs_def)
  ultimately show ?thesis using idx texts pt sel by (intro exI [of _ "ca_choices acc'"] exI [of _ ?s]) auto
qed

definition example_output :: "int \<Rightarrow> string \<Rightarrow> bool \<Rightarrow> api_output" where
  "example_output i text fin =
     \<lparr>ro_request_id = [], ro_seq_id = i, ro_token_id = 5, ro_text = Some text, ro_finished = fin, ro_reason = None,
      ro_usage = None, ao_logprob = None, ao_top_logprobs = None\<rparr>"

definition example_index_down :: context_pilot where
  "example_index_down = \<lparr>cpi_optimize = (\<lambda>_ _ _. Inl RuntimeError), cpi_deduplicate = None\<rparr>"

text \<open>Two sequences: the second says more, and finishes first.\<close>

definition example_api :: api_env where
  "example_api =
     \<lparr>ae_num_waiting = Some 0, ae_streams_ready = True, ae_max_waiting = 4, ae_max_n = 16, ae_max_seq_length = 100,
      ae_default_model = None, ae_tokenizer = None, ae_cp_variable = None, ae_cp_new = Inl RuntimeError,
      ae_cp_index = example_index_down, ae_py_str = (\<lambda>_. []), ae_is_json = (\<lambda>_. False),
      ae_uuid = (\<lambda>k. ''r'' @ str_nat k), ae_latency = (\<lambda>_. (0, 0)), ae_stream_uuid = [],
      ae_accepts = (\<lambda>_ _ _. Inr ()), ae_aborts = (\<lambda>_. Inr ()),
      ae_rounds = (\<lambda>_. [([], False, [example_output 0 ''a'' False, example_output 1 ''x'' False]),
                        ([example_output 1 ''y'' False], False, [example_output 1 ''z'' True]),
                        ([], False, [example_output 0 ''b'' True])]),
      ae_now = 0\<rparr>"

definition example_completion :: completion_request where
  "example_completion =
     \<lparr>cr_model = ''m'', cr_prompt = PromptTokenLists [[1, 2], [3]], cr_max_tokens = Some 8, cr_temperature = None,
      cr_top_p = None, cr_n = Some 1, cr_stream = False, cr_logprobs = None, cr_stop = StopNone,
      cr_best_of = Some 2, cr_response_format = None\<rparr>"

definition example_server :: api_server where
  "example_server =
     \<lparr>as_cp = \<lparr>cs_enabled = False, cs_debug = False, cs_fault = ''none'', cs_fallback_count = 0,
               cs_last_fallback_count = 0, cs_middleware = None, cs_latencies = []\<rparr>,
      as_streams = \<lparr>sm_streams = []\<rparr>, as_calls = []\<rparr>"

theorem completion_answers_witness:
  "\<exists>choices used s'. completion example_api example_completion example_server =
      Some (Completion ''m'' choices (3, used, 3 + used), s') \<and>
    map ch_index choices = [0, 1] \<and> length (as_calls s') = 2"
proof -
  have admit: "admit_request example_api (cr_max_tokens example_completion) (cr_temperature example_completion)
      (cr_top_p example_completion) (cr_n example_completion) (cr_best_of example_completion) = None"
    by (simp add: admit_request_def example_api_def example_completion_def check_backpressure_def
        validate_required_params_def validate_sampling_params_def validate_parallel_sampling_def violates_def or_int_def)
  have parse: "parse_prompt_format (cr_prompt example_completion) = Inr (True, [Inr [1, 2], Inr [3]])"
    by (simp add: parse_prompt_format_def example_completion_def)
  have off: "\<not> is_contextpilot_active (ae_cp_variable example_api) (as_cp example_server)"
    by (simp add: is_contextpilot_active_def example_server_def)
  define toks where "toks k = [[1, 2], [3 :: int]] ! k" for k
  have served: "prompt_served example_api example_completion k ([Inr [1, 2], Inr [3]] ! k) (toks k) {0, 1}" if "k < 2" for k
    using that
    by (auto simp: prompt_served_def toks_def less_2_cases_iff example_api_def example_completion_def or_int_def too_long_def
        validate_context_length_def delivered_def example_output_def sequence_complete_def outputs_of_def)
  from completion_answers [OF admit parse _ off, where toks = toks and S = "\<lambda>_. {0, 1}"] served
  obtain choices prompt_tokens used s' where
    "completion example_api example_completion example_server =
       Some (Completion (resolve_model_name (cr_model example_completion) (ae_default_model example_api)) choices
         (prompt_tokens, used, prompt_tokens + used), s')"
    and "map ch_index choices = map int [0..<length [Inr [1, 2], Inr [3]] * nat (or_int (cr_n example_completion) 1)]"
    and "as_calls s' = as_calls example_server @ map (\<lambda>k. Submit (ae_uuid example_api k) (toks k)
       (build_sampling_params (cr_temperature example_completion) (cr_top_p example_completion)
         (case cr_max_tokens example_completion of None \<Rightarrow> 0 | Some m \<Rightarrow> m) (cr_stop example_completion) (cr_logprobs example_completion))
       (or_int (cr_best_of example_completion) (or_int (cr_n example_completion) 1))) [0..<length [Inr [1, 2], Inr [3]]]"
    and "prompt_tokens = (\<Sum>k \<leftarrow> [0..<length [Inr [1, 2], Inr [3]]]. int (length (toks k)))"
    by (auto simp: example_completion_def)
  then show ?thesis by (auto simp: toks_def example_completion_def resolve_model_name_def or_int_def example_server_def)
qed

section \<open>Rejections\<close>

definition queue_full :: "api_env \<Rightarrow> bool" where
  "queue_full env \<longleftrightarrow> 0 < ae_max_waiting env \<and> ae_max_waiting env \<le> (case ae_num_waiting env of None \<Rightarrow> 0 | Some k \<Rightarrow> k)"

lemma admit_request_error:
  assumes "admit_request env max_toks temp p n best_of = Some (ErrorResponse err)"
  shows "he_status err = (if ae_num_waiting env = None \<or> queue_full env then 503 else 400)"
  using assms
  by (auto simp: admit_request_def check_backpressure_def queue_full_def create_error_response_def invalid_request_def
      validate_parallel_sampling_def Let_def split: option.splits if_splits)

lemma admit_request_open:
  "admit_request env max_toks temp p n best_of = None \<Longrightarrow> ae_num_waiting env \<noteq> None \<and> \<not> queue_full env"
  by (auto simp: admit_request_def check_backpressure_def queue_full_def split: option.splits if_splits)

lemma start_stream_no_error: "fst (start_stream env rid model toks params s) \<noteq> ErrorResponse err"
  by (auto simp: start_stream_def submit_def split: prod.splits sum.splits)

lemma prompt_token_ids_calls:
  "as_calls (snd (prompt_token_ids env k p s)) = as_calls s \<and> as_streams (snd (prompt_token_ids env k p s)) = as_streams s"
  by (auto simp: prompt_token_ids_def split: sum.splits prod.splits)

lemma context_length_status [simp]: "he_status context_length_exceeded = 400" "he_status (invalid_request q) = 400"
  by (simp_all add: context_length_exceeded_def invalid_request_def create_error_response_def)

lemma wait_submits:
  "wait_non_stream_result env k rid toks params n s = Some (Inr rs, s') \<Longrightarrow>
   s' = s\<lparr>as_calls := as_calls s @ [Submit rid toks params n]\<rparr>"
  by (auto simp: wait_non_stream_result_def submit_def split: sum.splits option.splits)

text \<open>What the loop over the prompts has submitted when it ends with an error response: all earlier prompts.\<close>

lemma loop_error:
  assumes "completion_loop env req params k ps acc s = Some (Inl (ErrorResponse err), s')"
  shows "err = context_length_exceeded \<and> as_streams s' = as_streams s \<and>
    (\<exists>toks j. j < length ps \<and> (\<forall>i < j. \<not> too_long env (toks i) (cr_max_tokens req)) \<and>
       as_calls s' = as_calls s @ map (\<lambda>i. Submit (ae_uuid env (k + i)) (toks i) params
         (or_int (cr_best_of req) (or_int (cr_n req) 1))) [0..<j])"
  using assms
proof (induction ps arbitrary: k acc s)
  case (Cons p ps)
  let ?b = "or_int (cr_best_of req) (or_int (cr_n req) 1)"
  obtain ts s1 where p: "prompt_token_ids env k p s = (Inr ts, s1)"
    using Cons.prems by (cases "prompt_token_ids env k p s"; cases "fst (prompt_token_ids env k p s)") (auto simp: Let_def)
  then have s1: "as_calls s1 = as_calls s" "as_streams s1 = as_streams s" using prompt_token_ids_calls [of env k p s] by simp_all
  show ?case
  proof (cases "too_long env ts (cr_max_tokens req)")
    case True
    with Cons.prems p have "err = context_length_exceeded" "s' = s1" by (simp_all add: Let_def)
    with s1 show ?thesis by (auto intro!: exI [of _ 0])
  next
    case False
    with Cons.prems p obtain rs s2 acc' where w: "wait_non_stream_result env k (ae_uuid env k) ts params ?b s1 = Some (Inr rs, s2)"
      and r: "completion_loop env req params (k + 1) ps acc' s2 = Some (Inl (ErrorResponse err), s')"
      by (auto simp: Let_def split: option.splits sum.splits prod.splits)
    note s2 = wait_submits [OF w]
    from Cons.IH [OF r] obtain toks j where j: "err = context_length_exceeded" "as_streams s' = as_streams s2"
      "j < length ps" "\<forall>i < j. \<not> too_long env (toks i) (cr_max_tokens req)"
      "as_calls s' = as_calls s2 @ map (\<lambda>i. Submit (ae_uuid env (k + 1 + i)) (toks i) params ?b) [0..<j]" by blast
    let ?t = "\<lambda>i. case i of 0 \<Rightarrow> ts | Suc i' \<Rightarrow> toks i'"
    have "[0..<Suc j] = 0 # map Suc [0..<j]" by (simp add: map_Suc_upt upt_conv_Cons del: upt_Suc)
    then have "as_calls s' = as_calls s @ map (\<lambda>i. Submit (ae_uuid env (k + i)) (?t i) params ?b) [0..<Suc j]"
      using j(5) s2 s1 by (simp add: comp_def)
    moreover have "\<forall>i < Suc j. \<not> too_long env (?t i) (cr_max_tokens req)"
      using j(4) False by (auto split: nat.splits)
    moreover have "Suc j < length (p # ps)" "as_streams s' = as_streams s" using j(2,3) s2 s1 by simp_all
    ultimately show ?thesis using j(1) by blast
  qed
qed simp



text \<open>A request for zero choices is served as one for one choice.\<close>

lemma n_zero_accepted: "0 < max_n \<Longrightarrow> validate_parallel_sampling max_n (Some 0) None = None"
  by (simp add: validate_parallel_sampling_def or_int_def)

text \<open>
  A chat request that asks for log-probabilities without a number of alternatives
  is submitted with none, so its choices carry none.
\<close>

lemma chat_logprobs_dropped:
  assumes "hq_logprobs req = Some True" and "hq_top_logprobs req = None"
    and "chat_completion env req s = Some (Completion model choices usage, s')"
  shows "\<forall>c \<in> set choices. ch_logprobs c = None"
proof -
  let ?params = "build_sampling_params (hq_temperature req) (hq_top_p req)
      (case hq_max_tokens req of None \<Rightarrow> 0 | Some m \<Rightarrow> m) (hq_stop req) None"
  have lps: "logprobs ?params = 0" by (simp add: build_sampling_params_def)
  have none: "\<forall>r \<in> set results. fr_logprobs r = None"
    if "wait_non_stream_result env k rid toks ?params n s0 = Some (Inr results, s1)" for k rid toks n s0 s1 results
    using that lps by (auto simp: wait_non_stream_result_def finalize_sequence_result_def split: prod.splits sum.splits option.splits)
  have keep: "fr_logprobs (apply_response_format_validation j f r) = fr_logprobs r" for j f r
    by (simp add: apply_response_format_validation_def split: option.splits)
  have start: "fst (start_stream env rid m toks ps s0) \<noteq> Completion model choices usage" for rid m toks ps s0
    by (auto simp: start_stream_def split: prod.splits sum.splits)
  have admit: "admit_request env a b c d e \<noteq> Some (Completion model choices usage)" for a b c d e
    by (auto simp: admit_request_def split: option.splits if_splits)
  from assms obtain toks results s0 s1 where
    w: "wait_non_stream_result env 0 (ae_uuid env 0) toks ?params (or_int (hq_n req) 1) s0 = Some (Inr results, s1)"
    and c: "choices = map (\<lambda>(i, r). choice_of (int i) r)
      (zip [0..<length results] (map (apply_response_format_validation (ae_is_json env) (hq_response_format req)) results))"
    using start admit
    by (auto simp: chat_completion_def Let_def split: option.splits prod.splits sum.splits if_splits) (metis fst_conv)+
  show ?thesis using none [OF w] keep unfolding c
    by (auto simp: choice_of_def dest!: set_zip_rightD)
qed

section \<open>Streams of a response\<close>

text \<open>
  A round of a response's generator: whether the client has gone, whether a call of
  \<^verbatim>\<open>next\<close> that an earlier round gave up on has returned by now, and what the
  new call gives within its tenth of a second: nothing, the end, or an event.
  A generator that is still executing raises \<^verbatim>\<open>ValueError\<close> when it is called
  again, and the event of a call that was given up reaches nobody.
\<close>

datatype stream_end = Returned | Disconnected | Failed py_error | StillOpen

type_synonym stream_round = "bool \<times> bool \<times> string option option"

fun chat_event_generator :: "bool \<Rightarrow> stream_round list \<Rightarrow> string list \<times> stream_end" where
  "chat_event_generator pending [] = ([], StillOpen)"
| "chat_event_generator pending ((gone, resumed, reply) # rounds) =
     (if gone then ([], Disconnected)
      else if pending \<and> \<not> resumed then ([], Failed ValueError)
      else (case reply of
              None \<Rightarrow> chat_event_generator True rounds
            | Some None \<Rightarrow> ([], Returned)
            | Some (Some event) \<Rightarrow>
                if event = format_done_event then ([event], Returned)
                else apfst ((#) event) (chat_event_generator False rounds)))"

record completion_chunk =
  cc_id :: string
  cc_created :: int
  cc_model :: string
  cc_text :: string
  cc_finish_reason :: "string option"

definition make_completion_stream_chunk ::
  "(completion_chunk \<Rightarrow> string) \<Rightarrow> string \<Rightarrow> int \<Rightarrow> string \<Rightarrow> string \<Rightarrow> string option \<Rightarrow> string" where
  "make_completion_stream_chunk to_json rid created model text reason =
     format_sse_event (to_json \<lparr>cc_id = ''cmpl-'' @ rid, cc_created = created, cc_model = model, cc_text = text,
       cc_finish_reason = (if reason = Some ''stop'' \<or> reason = Some ''length'' then reason else None)\<rparr>)"

text \<open>\<open>loads\<close> gives the content of the first choice, empty if it has none, and its finish reason.\<close>

fun completion_event_generator ::
  "(string \<Rightarrow> (string \<times> string option) option) \<Rightarrow> (string \<Rightarrow> string option \<Rightarrow> string) \<Rightarrow> bool \<Rightarrow> stream_round list \<Rightarrow>
   string list \<times> stream_end" where
  "completion_event_generator loads chunk pending [] = ([], StillOpen)"
| "completion_event_generator loads chunk pending ((gone, resumed, reply) # rounds) =
     (if gone then ([], Disconnected)
      else if pending \<and> \<not> resumed then ([], Failed ValueError)
      else (case reply of
              None \<Rightarrow> completion_event_generator loads chunk True rounds
            | Some None \<Rightarrow> ([], Returned)
            | Some (Some event) \<Rightarrow>
                if event = format_done_event then ([event], Returned)
                else if take 6 event \<noteq> ''data: '' then completion_event_generator loads chunk False rounds
                else (case loads (py_strip (drop 6 event)) of
                        None \<Rightarrow> completion_event_generator loads chunk False rounds
                      | Some (text, reason) \<Rightarrow>
                          apfst ((#) (chunk text reason)) (completion_event_generator loads chunk False rounds))))"

text \<open>While every event arrives in time, a chat stream passes on all events up to the end marker.\<close>

lemma chat_events_complete:
  assumes "format_done_event \<notin> set events"
  shows "chat_event_generator False (map (\<lambda>e. (False, False, Some (Some e))) (events @ [format_done_event])) =
    (events @ [format_done_event], Returned)"
  using assms by (induction events) auto

text \<open>
  One pause longer than the timeout ends the stream: the next round fails, or the event
  that ended the pause is lost.
\<close>

theorem stream_pause_fatal:
  "chat_event_generator False ((False, r1, None) # (False, False, reply) # rounds) = ([], Failed ValueError)"
  "completion_event_generator loads chunk False ((False, r1, None) # (False, False, reply) # rounds) = ([], Failed ValueError)"
  "chat_event_generator False ((False, r1, None) # (False, True, reply) # rounds) =
     chat_event_generator False ((False, True, reply) # rounds)"
  by simp_all

section \<open>The engine loop\<close>

text \<open>
  A round of \<^verbatim>\<open>_engine_loop\<close>: the exception that ends the task, the engine and the
  watchdog. \<open>t1\<close> and \<open>t2\<close> are the times before and after the step.
\<close>

definition engine_loop_round ::
  "('d, 'r) engine_env \<Rightarrow> real \<Rightarrow> real \<Rightarrow> 'd serving_engine option \<Rightarrow> decode_watchdog option \<Rightarrow>
   py_error option \<times> 'd serving_engine option \<times> decode_watchdog option" where
  "engine_loop_round env t1 t2 eng wd =
     (case eng of
        None \<Rightarrow> (None, None, wd)
      | Some e \<Rightarrow>
          if has_pending_requests e
          then (let wd1 = map_option (dw_activate t1) wd
                in case en_step env e of
                     (Inl err, e1) \<Rightarrow> (Some err, Some e1, wd1)
                   | (Inr _, e1) \<Rightarrow> (None, Some e1, map_option (dw_feed t2) wd1))
          else (None, Some e, map_option dw_deactivate wd))"

section \<open>The engine's configuration\<close>

text \<open>
  Attributes of the configuration of a model: integers, texts, lists of integers, and other objects,
  known by their printed form.
\<close>

datatype attr = AInt int | AStr string | AInts "int list" | AOther string

fun resolve_int_attr :: "(string \<rightharpoonup> attr) \<Rightarrow> string list \<Rightarrow> int option" where
  "resolve_int_attr cfg [] = None"
| "resolve_int_attr cfg (name # names) =
     (case cfg name of Some (AInt i) \<Rightarrow> Some i | _ \<Rightarrow> resolve_int_attr cfg names)"

text \<open>\<^verbatim>\<open>s.replace("torch.", "")\<close>.\<close>

fun remove_torch :: "string \<Rightarrow> string" where
  "remove_torch [] = []"
| "remove_torch (c # cs) = (if take 6 (c # cs) = ''torch.'' then remove_torch (drop 5 cs) else c # remove_torch cs)"

definition model_dtype :: "(string \<rightharpoonup> attr) option \<Rightarrow> string" where
  "model_dtype model_config =
     (case model_config of
        None \<Rightarrow> ''float16''
      | Some cfg \<Rightarrow>
          (case cfg ''torch_dtype'' of
             Some (AStr t) \<Rightarrow> remove_torch t
           | Some (AOther t) \<Rightarrow> remove_torch t
           | Some (AInt i) \<Rightarrow> remove_torch (str_int i)
           | _ \<Rightarrow> ''float16''))"

record serve_args =
  sa_device_memory_ratio :: real
  sa_kv_cache_ratio :: real
  sa_max_batch_size :: int
  sa_enable_prefix_caching :: bool

definition config_eos :: "(string \<rightharpoonup> attr) \<Rightarrow> int option" where
  "config_eos cfg =
     (case resolve_int_attr cfg [''eos_token_id''] of
        Some i \<Rightarrow> Some i
      | None \<Rightarrow> (case cfg ''eos_token_id'' of Some (AInts (i # is)) \<Rightarrow> Some i | _ \<Rightarrow> None))"

definition build_engine_config :: "serve_args \<Rightarrow> (string \<rightharpoonup> attr) option \<Rightarrow> config result" where
  "build_engine_config args model_config =
     (case model_config of
        None \<Rightarrow> Inl RuntimeError
      | Some cfg \<Rightarrow>
          (let layers = resolve_int_attr cfg [''num_hidden_layers'', ''num_layers'', ''n_layer''];
               heads = resolve_int_attr cfg [''num_attention_heads'', ''n_head''];
               kv_heads = resolve_int_attr cfg [''num_key_value_heads'', ''num_kv_heads'', ''n_head_kv''];
               hidden = resolve_int_attr cfg [''hidden_size'', ''n_embd''];
               max_seq = resolve_int_attr cfg [''max_position_embeddings'', ''max_seq_len'', ''max_sequence_length'',
                 ''n_positions'', ''model_max_length''];
               head_dim = resolve_int_attr cfg [''head_dim'']
           in if layers = None then Inl RuntimeError
              else if heads = None then Inl RuntimeError
              else if head_dim = None \<and> hidden = None then Inl RuntimeError
              else
                (let dim = (case head_dim of Some d \<Rightarrow> d | None \<Rightarrow> the hidden div max 1 (the heads));
                     base = [''device_memory_ratio'' \<mapsto> PFloat (sa_device_memory_ratio args),
                       ''kv_cache_ratio'' \<mapsto> PFloat (sa_kv_cache_ratio args),
                       ''max_batch_size'' \<mapsto> PInt (sa_max_batch_size args), ''max_tokens_per_step'' \<mapsto> PInt 2048,
                       ''max_seq_length'' \<mapsto> PInt (or_int max_seq 4096), ''block_size'' \<mapsto> PInt 16,
                       ''num_layers'' \<mapsto> PInt (the layers),
                       ''num_kv_heads'' \<mapsto> PInt (case kv_heads of Some k \<Rightarrow> k | None \<Rightarrow> the heads),
                       ''head_dim'' \<mapsto> PInt dim, ''dtype'' \<mapsto> PStr (model_dtype model_config)];
                     with_eos = (case config_eos cfg of None \<Rightarrow> base | Some i \<Rightarrow> base(''eos_token_id'' \<mapsto> PInt i))
                 in Inr (if sa_enable_prefix_caching args then with_eos(''enable_prefix_caching'' \<mapsto> PBool True)
                         else with_eos))))"

text \<open>Every setting the engine's constructor insists on is present and of the type it expects.\<close>

lemma engine_config_readable:
  assumes "build_engine_config args model_config = Inr cfg"
  shows "\<exists>layers kv_heads dim max_seq.
    cfg ''device_memory_ratio'' = Some (PFloat (sa_device_memory_ratio args)) \<and>
    cfg ''kv_cache_ratio'' = Some (PFloat (sa_kv_cache_ratio args)) \<and>
    cfg ''max_batch_size'' = Some (PInt (sa_max_batch_size args)) \<and> cfg ''max_tokens_per_step'' = Some (PInt 2048) \<and>
    cfg ''max_seq_length'' = Some (PInt max_seq) \<and> cfg ''block_size'' = Some (PInt 16) \<and>
    cfg ''num_layers'' = Some (PInt layers) \<and> cfg ''num_kv_heads'' = Some (PInt kv_heads) \<and>
    cfg ''head_dim'' = Some (PInt dim) \<and> cfg ''dtype'' = Some (PStr (model_dtype model_config)) \<and> cfg ''num_kv_blocks'' = None"
proof -
  obtain c where c: "model_config = Some c" using assms by (cases model_config) (simp_all add: build_engine_config_def)
  show ?thesis
    using assms unfolding build_engine_config_def c option.case Let_def
    by (simp del: resolve_int_attr.simps split: if_split_asm option.split_asm) (elim sym [THEN ssubst], simp del: resolve_int_attr.simps)+
qed

end
