(* ===== verification/Attention.thy ===== *)
theory Attention
  imports Prelude Complex_Main
begin

text \<open>
  \<^verbatim>\<open>src/moe_infinity/runtime/attention_backend.py\<close> and \<^verbatim>\<open>kernel/paged_attention_ops.py\<close>: keys and values
  of tokens are written to slots of cache blocks, and attention for a new token
  reads them back through the block table of its sequence. A tensor is its
  shape and its elements by index. Attention over given keys and values is the
  tensor library's, a parameter \<open>sdpa\<close> that works head by head; so are the native
  kernel and FlashInfer. \<open>cast\<close> is the conversion to the type of the cache.
\<close>

section \<open>State\<close>

record 'a nd_tensor =
  tn_shape :: "nat list"
  tn_at :: "nat list \<Rightarrow> 'a"

record kv_cache_spec =
  sp_num_kv_heads :: nat
  sp_head_dim :: nat
  sp_block_size :: nat

record 'a paged_backend =
  ab_spec :: kv_cache_spec
  ab_num_gpu_blocks :: nat
  ab_k_cache :: "'a nd_tensor"
  ab_v_cache :: "'a nd_tensor"
  ab_use_flashinfer :: bool
  ab_fi_kv_cache :: "'a nd_tensor option"
  ab_fi_prefill :: bool
  ab_fi_decode :: bool

definition zero_tensor :: "nat list \<Rightarrow> 'a::zero nd_tensor" where
  "zero_tensor shape = \<lparr>tn_shape = shape, tn_at = (\<lambda>_. 0)\<rparr>"

definition attn_kv_cache_shape :: "kv_cache_spec \<Rightarrow> nat \<Rightarrow> nat list \<times> nat list" where
  "attn_kv_cache_shape sp num_gpu_blocks =
     ([num_gpu_blocks, sp_num_kv_heads sp, sp_head_dim sp div 8, sp_block_size sp, 8],
      [num_gpu_blocks, sp_num_kv_heads sp, sp_head_dim sp, sp_block_size sp])"

text \<open>
  \<open>has_module\<close> says whether FlashInfer was imported, \<open>setup_ok\<close> whether its wrappers could be made.
\<close>

definition paged_backend_new :: "bool \<Rightarrow> bool \<Rightarrow> kv_cache_spec \<Rightarrow> nat \<Rightarrow> 'a::zero paged_backend result" where
  "paged_backend_new has_module setup_ok sp num_gpu_blocks =
     (if sp_head_dim sp mod 8 \<noteq> 0 then Inl ValueError
      else
        (let fi = (has_module \<and> setup_ok)
         in Inr \<lparr>ab_spec = sp, ab_num_gpu_blocks = num_gpu_blocks,
                 ab_k_cache = zero_tensor [num_gpu_blocks, sp_num_kv_heads sp, sp_head_dim sp div 8, sp_block_size sp, 8],
                 ab_v_cache = zero_tensor [num_gpu_blocks, sp_num_kv_heads sp, sp_head_dim sp, sp_block_size sp],
                 ab_use_flashinfer = fi,
                 ab_fi_kv_cache =
                   (if fi then Some (zero_tensor [num_gpu_blocks, 2, sp_block_size sp, sp_num_kv_heads sp, sp_head_dim sp]) else None),
                 ab_fi_prefill = fi, ab_fi_decode = fi\<rparr>))"

section \<open>Writing keys and values\<close>

text \<open>The checks of both writers; the result is the number of tokens.\<close>

definition check_kv :: "kv_cache_spec \<Rightarrow> 'a nd_tensor \<Rightarrow> 'a nd_tensor \<Rightarrow> int nd_tensor \<Rightarrow> nat result" where
  "check_kv sp key val slots =
     (if tn_shape key \<noteq> tn_shape val then Inl ValueError
      else if length (tn_shape key) \<noteq> 3 then Inl ValueError
      else if length (tn_shape slots) \<noteq> 1 \<or> tn_shape slots ! 0 \<noteq> tn_shape key ! 0 then Inl ValueError
      else if tn_shape key ! 1 \<noteq> sp_num_kv_heads sp then Inl ValueError
      else if tn_shape key ! 2 \<noteq> sp_head_dim sp then Inl ValueError
      else Inr (tn_shape key ! 0))"

definition store_token ::
  "('a \<Rightarrow> 'a) \<Rightarrow> 'a nd_tensor \<Rightarrow> 'a nd_tensor \<Rightarrow> nat \<Rightarrow> nat \<Rightarrow> nat \<Rightarrow> 'a paged_backend \<Rightarrow> 'a paged_backend" where
  "store_token cast key val i block_id token_offset b =
     b\<lparr>ab_k_cache := (ab_k_cache b)\<lparr>tn_at := (\<lambda>ix.
         if ix ! 0 = block_id \<and> ix ! 3 = token_offset then cast (tn_at key [i, ix ! 1, ix ! 2 * 8 + ix ! 4])
         else tn_at (ab_k_cache b) ix)\<rparr>,
       ab_v_cache := (ab_v_cache b)\<lparr>tn_at := (\<lambda>ix.
         if ix ! 0 = block_id \<and> ix ! 3 = token_offset then cast (tn_at val [i, ix ! 1, ix ! 2])
         else tn_at (ab_v_cache b) ix)\<rparr>\<rparr>"

definition store_token_fi ::
  "('a \<Rightarrow> 'a) \<Rightarrow> 'a nd_tensor \<Rightarrow> 'a nd_tensor \<Rightarrow> nat \<Rightarrow> nat \<Rightarrow> nat \<Rightarrow> 'a paged_backend \<Rightarrow> 'a paged_backend" where
  "store_token_fi cast key val i block_id token_offset b =
     b\<lparr>ab_fi_kv_cache := map_option (\<lambda>c. c\<lparr>tn_at := (\<lambda>ix.
         if ix ! 0 = block_id \<and> ix ! 2 = token_offset
         then cast (tn_at (if ix ! 1 = 0 then key else val) [i, ix ! 3, ix ! 4])
         else tn_at c ix)\<rparr>) (ab_fi_kv_cache b)\<rparr>"

definition write_slot ::
  "(nat \<Rightarrow> nat \<Rightarrow> 'a paged_backend \<Rightarrow> 'a paged_backend) \<Rightarrow> int \<Rightarrow> 'a paged_backend \<Rightarrow> ('a paged_backend, unit) outcome" where
  "write_slot store slot b =
     (if slot < 0 then (Inl ValueError, b)
      else if sp_block_size (ab_spec b) = 0 then (Inl ZeroDivisionError, b)
      else
        (let block_id = nat slot div sp_block_size (ab_spec b); token_offset = nat slot mod sp_block_size (ab_spec b)
         in if block_id \<ge> ab_num_gpu_blocks b then (Inl ValueError, b)
            else (Inr (), store block_id token_offset b)))"

definition write_kv ::
  "('a \<Rightarrow> 'a) \<Rightarrow> 'a nd_tensor \<Rightarrow> 'a nd_tensor \<Rightarrow> int nd_tensor \<Rightarrow> 'a paged_backend \<Rightarrow> ('a paged_backend, unit) outcome" where
  "write_kv cast key val slots b =
     (case check_kv (ab_spec b) key val slots of
        Inl e \<Rightarrow> (Inl e, b)
      | Inr n \<Rightarrow> for_each (\<lambda>i. write_slot (store_token cast key val i) (tn_at slots [i])) [0..<n] b)"

definition write_kv_flashinfer ::
  "('a \<Rightarrow> 'a) \<Rightarrow> 'a nd_tensor \<Rightarrow> 'a nd_tensor \<Rightarrow> int nd_tensor \<Rightarrow> 'a paged_backend \<Rightarrow> ('a paged_backend, unit) outcome" where
  "write_kv_flashinfer cast key val slots b =
     (if ab_fi_kv_cache b = None then (Inl RuntimeError, b)
      else case check_kv (ab_spec b) key val slots of
        Inl e \<Rightarrow> (Inl e, b)
      | Inr n \<Rightarrow> for_each (\<lambda>i. write_slot (store_token_fi cast key val i) (tn_at slots [i])) [0..<n] b)"

section \<open>Metadata\<close>

text \<open>The attributes of both metadata classes; one that is missing is \<open>None\<close>.\<close>

record attn_metadata =
  md_is_prefill :: bool
  md_slot_mapping :: "int nd_tensor option"
  md_block_tables :: "int nd_tensor option"
  md_block_table :: "int nd_tensor option"
  md_seq_lens :: "int nd_tensor option"
  md_max_seq_len :: "int option"

definition get_block_tables :: "attn_metadata \<Rightarrow> int nd_tensor option" where
  "get_block_tables md = (case md_block_tables md of Some t \<Rightarrow> Some t | None \<Rightarrow> md_block_table md)"

text \<open>The indices of a tensor in row-major order, and with them \<^verbatim>\<open>reshape(-1)\<close>.\<close>

fun tn_indices :: "nat list \<Rightarrow> nat list list" where
  "tn_indices [] = [[]]"
| "tn_indices (n # ns) = concat (map (\<lambda>i. map ((#) i) (tn_indices ns)) [0..<n])"

definition tn_elems :: "'a nd_tensor \<Rightarrow> 'a list" where
  "tn_elems t = map (tn_at t) (tn_indices (tn_shape t))"

definition get_max_seq_len :: "attn_metadata \<Rightarrow> int nd_tensor option \<Rightarrow> int" where
  "get_max_seq_len md seq_lens =
     (case md_max_seq_len md of
        Some n \<Rightarrow> n
      | None \<Rightarrow>
          (case seq_lens of
             None \<Rightarrow> 0
           | Some t \<Rightarrow> if tn_elems t = [] then 0 else fold max (tl (tn_elems t)) (hd (tn_elems t))))"

definition flashinfer_enabled :: "'a paged_backend \<Rightarrow> bool" where
  "flashinfer_enabled b \<longleftrightarrow> ab_use_flashinfer b \<and> ab_fi_prefill b \<and> ab_fi_decode b \<and> ab_fi_kv_cache b \<noteq> None"

record fi_plan =
  fp_qo_indptr :: "int list"
  fp_kv_indptr :: "int list"
  fp_kv_indices :: "int list"
  fp_last_page_len :: "int list"

fun running_sums :: "int \<Rightarrow> int list \<Rightarrow> int list" where
  "running_sums acc [] = []"
| "running_sums acc (x # xs) = (acc + x) # running_sums (acc + x) xs"

text \<open>The number of pages of a sequence, and how much of the last one is used.\<close>

definition seq_pages :: "int \<Rightarrow> int \<Rightarrow> int" where
  "seq_pages block_size seq_len = max ((seq_len + block_size - 1) div block_size) 1"

definition fi_last_page_len :: "int \<Rightarrow> int \<Rightarrow> int" where
  "fi_last_page_len block_size seq_len =
     (if seq_len \<le> 0 then 1 else if seq_len mod block_size = 0 then block_size else seq_len mod block_size)"

fun page_loop :: "int nd_tensor \<Rightarrow> int \<Rightarrow> nat \<Rightarrow> int list \<Rightarrow> int \<Rightarrow> fi_plan \<Rightarrow> fi_plan result" where
  "page_loop tables block_size i [] total_pages plan = Inr plan"
| "page_loop tables block_size i (seq_len # lens) total_pages plan =
     (if block_size = 0 then Inl ZeroDivisionError
      else
        (let num_pages = seq_pages block_size seq_len
         in if length (tn_shape tables) < 2 then Inl IndexError
            else if num_pages > int (tn_shape tables ! 1) then Inl ValueError
            else if i \<ge> tn_shape tables ! 0 then Inl IndexError
            else page_loop tables block_size (i + 1) lens (total_pages + num_pages)
                   (plan\<lparr>fp_kv_indices := fp_kv_indices plan @ map (\<lambda>j. tn_at tables [i, j]) [0..<nat num_pages],
                         fp_kv_indptr := fp_kv_indptr plan @ [total_pages + num_pages],
                         fp_last_page_len := fp_last_page_len plan @ [fi_last_page_len block_size seq_len]\<rparr>)))"

definition build_flashinfer_metadata :: "kv_cache_spec \<Rightarrow> attn_metadata \<Rightarrow> fi_plan result" where
  "build_flashinfer_metadata sp md =
     (case (get_block_tables md, md_seq_lens md) of
        (Some tables, Some lens) \<Rightarrow>
          page_loop tables (int (sp_block_size sp)) 0 (tn_elems lens) 0
            \<lparr>fp_qo_indptr = 0 # running_sums 0 (tn_elems lens), fp_kv_indptr = [0], fp_kv_indices = [], fp_last_page_len = []\<rparr>
      | _ \<Rightarrow> Inl ValueError)"

section \<open>Attention over cached blocks\<close>

text \<open>\<^verbatim>\<open>tensor[i]\<close> in a dimension of size \<open>n\<close>: negative indices count from the end.\<close>

definition wrap_index :: "nat \<Rightarrow> int \<Rightarrow> nat option" where
  "wrap_index n i = (if - int n \<le> i \<and> i < int n then Some (nat (if i < 0 then i + int n else i)) else None)"

text \<open>The blocks of a sequence with the number of its tokens in each.\<close>

fun block_loop :: "int nd_tensor \<Rightarrow> nat \<Rightarrow> nat \<Rightarrow> int \<Rightarrow> nat \<Rightarrow> nat list \<Rightarrow> (nat \<times> nat) list result" where
  "block_loop tables num_blocks seq_idx seq_len block_size [] = Inr []"
| "block_loop tables num_blocks seq_idx seq_len block_size (b # bs) =
     (if seq_idx \<ge> tn_shape tables ! 0 \<or> b \<ge> tn_shape tables ! 1 then Inl IndexError
      else case wrap_index num_blocks (tn_at tables [seq_idx, b]) of
             None \<Rightarrow> Inl IndexError
           | Some phys_block \<Rightarrow>
               (case block_loop tables num_blocks seq_idx seq_len block_size bs of
                  Inl e \<Rightarrow> Inl e
                | Inr rest \<Rightarrow> Inr ((phys_block, nat (min (int block_size) (seq_len - int b * int block_size))) # rest)))"

text \<open>
  The keys of one head in a block, \<^verbatim>\<open>k_block.permute(0, 2, 1, 3).reshape(nkv, block_size, hd_x * x)\<close> cut to
  the tokens in it, and the values, \<^verbatim>\<open>v_block[:, :, :tokens_in_block].permute(0, 2, 1)\<close>.
\<close>

definition block_keys :: "'a nd_tensor \<Rightarrow> nat \<Rightarrow> nat \<times> nat \<Rightarrow> 'a list list" where
  "block_keys cache h p =
     (case p of (phys_block, tokens) \<Rightarrow>
        let hd_x = tn_shape cache ! 2; x = tn_shape cache ! 4
        in map (\<lambda>t. map (\<lambda>d. tn_at cache [phys_block, h, d div x, t, d mod x]) [0..<hd_x * x]) [0..<tokens])"

definition block_values :: "'a nd_tensor \<Rightarrow> nat \<Rightarrow> nat \<times> nat \<Rightarrow> 'a list list" where
  "block_values cache h p =
     (case p of (phys_block, tokens) \<Rightarrow>
        map (\<lambda>t. map (\<lambda>d. tn_at cache [phys_block, h, d, t]) [0..<tn_shape cache ! 2]) [0..<tokens])"

text \<open>A row of a three-dimensional tensor.\<close>

definition row_at :: "'a nd_tensor \<Rightarrow> nat \<Rightarrow> nat \<Rightarrow> 'a list" where
  "row_at t i h = map (\<lambda>d. tn_at t [i, h, d]) [0..<tn_shape t ! 2]"

type_synonym 'a sdpa = "bool \<Rightarrow> real \<Rightarrow> 'a list list \<Rightarrow> 'a list list \<Rightarrow> 'a list list \<Rightarrow> 'a list list"

definition seq_attention ::
  "'a::zero sdpa \<Rightarrow> 'a nd_tensor \<Rightarrow> 'a nd_tensor \<Rightarrow> 'a nd_tensor \<Rightarrow> int nd_tensor \<Rightarrow> int nd_tensor \<Rightarrow> real \<Rightarrow>
   nat \<Rightarrow> nat \<Rightarrow> nat \<Rightarrow> 'a list list result" where
  "seq_attention sdpa query key_cache value_cache tables seq_lens scale num_kv_heads block_size seq_idx =
     (let num_heads = tn_shape query ! 1; seq_len = tn_at seq_lens [seq_idx]
      in if seq_idx \<ge> tn_shape seq_lens ! 0 then Inl IndexError
         else if seq_len \<le> 0 then Inr (replicate num_heads (replicate (tn_shape query ! 2) 0))
         else if block_size = 0 then Inl ZeroDivisionError
         else
           (let num_blocks = (nat seq_len + block_size - 1) div block_size
            in case block_loop tables (tn_shape key_cache ! 0) seq_idx seq_len block_size [0..<num_blocks] of
                 Inl e \<Rightarrow> Inl e
               | Inr blocks \<Rightarrow>
                   (let head_ratio = num_heads div num_kv_heads;
                        k = (\<lambda>h. concat (map (block_keys key_cache h) blocks));
                        v = (\<lambda>h. concat (map (block_values value_cache h) blocks))
                    in Inr (map (\<lambda>h. sdpa False scale [row_at query seq_idx h] (k (h div head_ratio)) (v (h div head_ratio)) ! 0)
                              [0..<num_heads]))))"

fun collect_results :: "'a result list \<Rightarrow> 'a list result" where
  "collect_results [] = Inr []"
| "collect_results (r # rs) =
     (case r of
        Inl e \<Rightarrow> Inl e
      | Inr x \<Rightarrow> (case collect_results rs of Inl e \<Rightarrow> Inl e | Inr xs \<Rightarrow> Inr (x # xs)))"

definition paged_attention_sdpa_fallback ::
  "'a::zero sdpa \<Rightarrow> 'a nd_tensor \<Rightarrow> 'a nd_tensor \<Rightarrow> 'a nd_tensor \<Rightarrow> int nd_tensor \<Rightarrow> int nd_tensor \<Rightarrow> real \<Rightarrow>
   nat \<Rightarrow> nat \<Rightarrow> 'a list list list result" where
  "paged_attention_sdpa_fallback sdpa query key_cache value_cache tables seq_lens scale num_kv_heads block_size =
     (if num_kv_heads = 0 then Inl ZeroDivisionError
      else if tn_shape query ! 1 mod num_kv_heads \<noteq> 0 then Inl ValueError
      else
        (case collect_results (map (seq_attention sdpa query key_cache value_cache tables seq_lens scale num_kv_heads block_size)
                [0..<tn_shape query ! 0]) of
           Inl e \<Rightarrow> Inl e
         | Inr outputs \<Rightarrow> if outputs = [] then Inl RuntimeError else Inr outputs))"

text \<open>
  \<open>native\<close> is the compiled kernel, if it is there and all tensors are on the GPU; it gets
  the largest length, which the fallback does not use.
\<close>

type_synonym 'a native_kernel =
  "'a nd_tensor \<Rightarrow> 'a nd_tensor \<Rightarrow> 'a nd_tensor \<Rightarrow> int nd_tensor \<Rightarrow> int nd_tensor \<Rightarrow> real \<Rightarrow> nat \<Rightarrow> nat \<Rightarrow> int \<Rightarrow> 'a list list list"

definition paged_attention_fwd ::
  "'a::zero sdpa \<Rightarrow> 'a native_kernel option \<Rightarrow> 'a nd_tensor \<Rightarrow> 'a nd_tensor \<Rightarrow> 'a nd_tensor \<Rightarrow> int nd_tensor \<Rightarrow>
   int nd_tensor \<Rightarrow> real \<Rightarrow> nat \<Rightarrow> nat \<Rightarrow> int \<Rightarrow> 'a list list list result" where
  "paged_attention_fwd sdpa native query key_cache value_cache tables seq_lens scale num_kv_heads block_size max_seq_len =
     (if length (tn_shape query) \<noteq> 3 then Inl ValueError
      else if length (tn_shape tables) \<noteq> 2 then Inl ValueError
      else if length (tn_shape seq_lens) \<noteq> 1 then Inl ValueError
      else case native of
             Some attn \<Rightarrow>
               Inr (attn query key_cache value_cache tables seq_lens scale num_kv_heads block_size max_seq_len)
           | None \<Rightarrow>
               paged_attention_sdpa_fallback sdpa query key_cache value_cache tables seq_lens scale num_kv_heads block_size)"

section \<open>The backend\<close>

text \<open>
  FlashInfer: whether \<^verbatim>\<open>plan\<close> accepts a call without or with the additional arguments, and what its
  wrappers compute. A plan made without them leaves the library's default.
\<close>

record 'a attn_env =
  en_cast :: "'a \<Rightarrow> 'a"
  en_sdpa :: "'a sdpa"
  en_native :: "'a native_kernel option"
  en_plan_accepts :: "bool \<Rightarrow> bool"
  en_fi_prefill :: "fi_plan \<Rightarrow> bool \<Rightarrow> 'a nd_tensor \<Rightarrow> 'a nd_tensor \<Rightarrow> 'a list list list"
  en_fi_decode :: "fi_plan \<Rightarrow> bool \<Rightarrow> 'a nd_tensor \<Rightarrow> 'a nd_tensor \<Rightarrow> 'a list list list"

text \<open>\<^verbatim>\<open>_call_prefill_plan\<close> and \<^verbatim>\<open>_call_decode_plan\<close>: the result says whether the additional arguments were passed.\<close>

definition call_plan :: "(bool \<Rightarrow> bool) \<Rightarrow> bool result" where
  "call_plan accepts = (if accepts False then Inr False else if accepts True then Inr True else Inl TypeError)"

definition attn_scale :: "kv_cache_spec \<Rightarrow> real option \<Rightarrow> real result" where
  "attn_scale sp scale =
     (case scale of
        Some s \<Rightarrow> Inr s
      | None \<Rightarrow> if sp_head_dim sp = 0 then Inl ZeroDivisionError else Inr (1 / sqrt (real (sp_head_dim sp))))"

definition cast_tensor :: "('a \<Rightarrow> 'a) \<Rightarrow> 'a nd_tensor \<Rightarrow> 'a nd_tensor" where
  "cast_tensor cast t = t\<lparr>tn_at := cast \<circ> tn_at t\<rparr>"

definition prefill_forward ::
  "'a attn_env \<Rightarrow> 'a nd_tensor \<Rightarrow> 'a nd_tensor \<Rightarrow> 'a nd_tensor \<Rightarrow> attn_metadata \<Rightarrow> real option \<Rightarrow> 'a paged_backend \<Rightarrow>
   'a list list list result" where
  "prefill_forward env query key val md scale b =
     (if length (tn_shape query) \<noteq> 3 \<or> length (tn_shape key) \<noteq> 3 \<or> length (tn_shape val) \<noteq> 3 then Inl ValueError
      else if flashinfer_enabled b
      then (case build_flashinfer_metadata (ab_spec b) md of
              Inl e \<Rightarrow> Inl e
            | Inr plan \<Rightarrow>
                (case call_plan (en_plan_accepts env) of
                   Inl e \<Rightarrow> Inl e
                 | Inr extra \<Rightarrow>
                     Inr (en_fi_prefill env plan extra (cast_tensor (en_cast env) query) (the (ab_fi_kv_cache b)))))
      else
        (let q = cast_tensor (en_cast env) query; k = cast_tensor (en_cast env) key; v = cast_tensor (en_cast env) val;
             num_heads = tn_shape query ! 1; num_kv_heads = tn_shape key ! 1
         in if num_kv_heads = 0 then Inl ZeroDivisionError
            else if num_heads mod num_kv_heads \<noteq> 0 then Inl ValueError
            else
              (case attn_scale (ab_spec b) scale of
                 Inl e \<Rightarrow> Inl e
               | Inr s \<Rightarrow>
                   (let head_ratio = num_heads div num_kv_heads;
                        rows = (\<lambda>t h. map (\<lambda>i. row_at t i h) [0..<tn_shape t ! 0]);
                        out = map (\<lambda>h. en_sdpa env True s (rows q h) (rows k (h div head_ratio)) (rows v (h div head_ratio)))
                                [0..<num_heads]
                    in Inr (map (\<lambda>i. map (\<lambda>h. out ! h ! i) [0..<num_heads]) [0..<tn_shape query ! 0])))))"

definition decode_forward ::
  "'a::zero attn_env \<Rightarrow> 'a nd_tensor \<Rightarrow> attn_metadata \<Rightarrow> real option \<Rightarrow> 'a paged_backend \<Rightarrow> 'a list list list result" where
  "decode_forward env query0 md scale b =
     (let query = (if length (tn_shape query0) = 2
                   then \<lparr>tn_shape = 1 # tn_shape query0, tn_at = tn_at query0 \<circ> tl\<rparr> else query0)
      in if length (tn_shape query) \<noteq> 3 then Inl ValueError
         else if flashinfer_enabled b
         then (case build_flashinfer_metadata (ab_spec b) md of
                 Inl e \<Rightarrow> Inl e
               | Inr plan \<Rightarrow>
                   (case call_plan (en_plan_accepts env) of
                      Inl e \<Rightarrow> Inl e
                    | Inr extra \<Rightarrow>
                        Inr (en_fi_decode env plan extra (cast_tensor (en_cast env) query) (the (ab_fi_kv_cache b)))))
         else
           (case (get_block_tables md, md_seq_lens md) of
              (Some tables, Some seq_lens) \<Rightarrow>
                (case attn_scale (ab_spec b) scale of
                   Inl e \<Rightarrow> Inl e
                 | Inr s \<Rightarrow>
                     paged_attention_fwd (en_sdpa env) (en_native env) (cast_tensor (en_cast env) query) (ab_k_cache b)
                       (ab_v_cache b) tables seq_lens s (sp_num_kv_heads (ab_spec b)) (sp_block_size (ab_spec b))
                       (get_max_seq_len md (Some seq_lens)))
            | _ \<Rightarrow> Inl ValueError))"

text \<open>The two parameters for the metadata are one: the first of them that is given.\<close>

definition attn_forward ::
  "'a::zero attn_env \<Rightarrow> 'a nd_tensor \<Rightarrow> 'a nd_tensor \<Rightarrow> 'a nd_tensor \<Rightarrow> attn_metadata option \<Rightarrow> real option \<Rightarrow>
   'a paged_backend \<Rightarrow> ('a paged_backend, 'a list list list) outcome" where
  "attn_forward env query key val metadata scale b =
     (case metadata of
        None \<Rightarrow> (Inl ValueError, b)
      | Some md \<Rightarrow>
          if md_is_prefill md
          then (case md_slot_mapping md of
                  None \<Rightarrow> (Inl ValueError, b)
                | Some slots \<Rightarrow>
                    andthen (write_kv (en_cast env) key val slots b) (\<lambda>_ b1.
                    andthen (if flashinfer_enabled b1 then write_kv_flashinfer (en_cast env) key val slots b1 else (Inr (), b1))
                      (\<lambda>_ b2. (prefill_forward env query key val md scale b2, b2))))
          else (decode_forward env query md scale b, b))"

section \<open>What the caches hold\<close>

text \<open>The shapes the constructor gives the caches.\<close>

definition backend_ok :: "'a paged_backend \<Rightarrow> bool" where
  "backend_ok b \<longleftrightarrow> sp_head_dim (ab_spec b) mod 8 = 0 \<and>
     (tn_shape (ab_k_cache b), tn_shape (ab_v_cache b)) = attn_kv_cache_shape (ab_spec b) (ab_num_gpu_blocks b)"

lemma paged_backend_new_ok: "paged_backend_new m ok sp n = Inr b \<Longrightarrow> backend_ok b"
  by (auto simp: paged_backend_new_def backend_ok_def attn_kv_cache_shape_def zero_tensor_def Let_def split: if_splits)

text \<open>A slot holds the key and the value of a token.\<close>

definition slot_holds :: "('a \<Rightarrow> 'a) \<Rightarrow> 'a nd_tensor \<Rightarrow> 'a nd_tensor \<Rightarrow> 'a paged_backend \<Rightarrow> nat \<Rightarrow> nat \<Rightarrow> bool" where
  "slot_holds cast key val b slot i \<longleftrightarrow>
     (let block_id = slot div sp_block_size (ab_spec b); off = slot mod sp_block_size (ab_spec b)
      in (\<forall>h g l. tn_at (ab_k_cache b) [block_id, h, g, off, l] = cast (tn_at key [i, h, g * 8 + l])) \<and>
         (\<forall>h d. tn_at (ab_v_cache b) [block_id, h, d, off] = cast (tn_at val [i, h, d])))"

lemma slot_eq:
  assumes "a div m = b div m" and "a mod m = (b mod m :: nat)"
  shows "a = b"
  using assms by (metis div_mult_mod_eq)

lemma store_token_frame [simp]:
  "ab_spec (store_token cast key val i blk off b) = ab_spec b"
  "ab_num_gpu_blocks (store_token cast key val i blk off b) = ab_num_gpu_blocks b"
  "flashinfer_enabled (store_token cast key val i blk off b) = flashinfer_enabled b"
  "backend_ok (store_token cast key val i blk off b) = backend_ok b"
  by (simp_all add: store_token_def flashinfer_enabled_def backend_ok_def)

lemma write_slot_Inr:
  assumes "write_slot store slot b = (Inr u, b1)"
  shows "0 \<le> slot" "nat slot div sp_block_size (ab_spec b) < ab_num_gpu_blocks b" "0 < sp_block_size (ab_spec b)"
    "b1 = store (nat slot div sp_block_size (ab_spec b)) (nat slot mod sp_block_size (ab_spec b)) b"
  using assms by (auto simp: write_slot_def Let_def split: if_splits)

lemma write_tokens:
  assumes "for_each (\<lambda>i. write_slot (store_token cast key val i) (slot i)) is b = (Inr u, b')" and "distinct (map slot is)"
  shows "ab_spec b' = ab_spec b \<and> ab_num_gpu_blocks b' = ab_num_gpu_blocks b \<and>
    flashinfer_enabled b' = flashinfer_enabled b \<and> backend_ok b' = backend_ok b \<and>
    (\<forall>i \<in> set is. 0 \<le> slot i \<and> nat (slot i) div sp_block_size (ab_spec b) < ab_num_gpu_blocks b \<and>
       slot_holds cast key val b' (nat (slot i)) i) \<and>
    (\<forall>s j. int s \<notin> slot ` set is \<longrightarrow> slot_holds cast key val b s j \<longrightarrow> slot_holds cast key val b' s j)"
  using assms
proof (induction "is" arbitrary: b)
  case (Cons i "is")
  from Cons.prems(1) obtain u1 b1 where w: "write_slot (store_token cast key val i) (slot i) b = (Inr u1, b1)"
    and rest: "for_each (\<lambda>i. write_slot (store_token cast key val i) (slot i)) is b1 = (Inr u, b')"
    by (auto split: prod.splits sum.splits)
  note ws = write_slot_Inr [OF w]
  have same: "ab_spec b1 = ab_spec b" "ab_num_gpu_blocks b1 = ab_num_gpu_blocks b"
    "flashinfer_enabled b1 = flashinfer_enabled b" "backend_ok b1 = backend_ok b" using ws(4) by simp_all
  have now: "slot_holds cast key val b1 (nat (slot i)) i"
    unfolding slot_holds_def Let_def same(1) unfolding ws(4) by (simp add: store_token_def)
  have keep: "slot_holds cast key val b1 s j" if "slot_holds cast key val b s j" "s \<noteq> nat (slot i)" for s j
  proof -
    have "\<not> (s div sp_block_size (ab_spec b) = nat (slot i) div sp_block_size (ab_spec b) \<and>
        s mod sp_block_size (ab_spec b) = nat (slot i) mod sp_block_size (ab_spec b))"
      using slot_eq [of s "sp_block_size (ab_spec b)" "nat (slot i)"] that(2) by blast
    then show ?thesis using that(1) unfolding slot_holds_def Let_def same(1) unfolding ws(4) by (auto simp: store_token_def)
  qed
  note ih = Cons.IH [OF rest]
  have "slot i \<notin> slot ` set is" using Cons.prems(2) by simp
  then have "slot_holds cast key val b' (nat (slot i)) i" using ih Cons.prems(2) now ws(1) by simp
  then show ?case using ih Cons.prems(2) keep ws(1,2) same by auto
qed simp

lemma write_kv_holds:
  assumes "write_kv cast key val slots b = (Inr u, b')" and "inj_on (\<lambda>i. tn_at slots [i]) {..<tn_shape key ! 0}"
  shows "ab_spec b' = ab_spec b" "ab_num_gpu_blocks b' = ab_num_gpu_blocks b" "flashinfer_enabled b' = flashinfer_enabled b"
    "backend_ok b' = backend_ok b" "tn_shape key ! 2 = sp_head_dim (ab_spec b)" "tn_shape val ! 2 = sp_head_dim (ab_spec b)"
    "\<And>i. i < tn_shape key ! 0 \<Longrightarrow> 0 \<le> tn_at slots [i] \<and>
       nat (tn_at slots [i]) div sp_block_size (ab_spec b) < ab_num_gpu_blocks b \<and>
       slot_holds cast key val b' (nat (tn_at slots [i])) i"
proof -
  from assms(1) have shape: "tn_shape key ! 2 = sp_head_dim (ab_spec b)" "tn_shape val = tn_shape key"
    and run: "for_each (\<lambda>i. write_slot (store_token cast key val i) (tn_at slots [i])) [0..<tn_shape key ! 0] b = (Inr u, b')"
    by (auto simp: write_kv_def check_kv_def split: if_splits)
  have "distinct (map (\<lambda>i. tn_at slots [i]) [0..<tn_shape key ! 0])"
    using assms(2) by (simp add: distinct_map atLeast0LessThan)
  note all = write_tokens [OF run this]
  from shape show "tn_shape key ! 2 = sp_head_dim (ab_spec b)" "tn_shape val ! 2 = sp_head_dim (ab_spec b)" by simp_all
  from all show "ab_spec b' = ab_spec b" "ab_num_gpu_blocks b' = ab_num_gpu_blocks b"
    "flashinfer_enabled b' = flashinfer_enabled b" "backend_ok b' = backend_ok b" by blast+
  fix i assume "i < tn_shape key ! 0"
  then show "0 \<le> tn_at slots [i] \<and>
       nat (tn_at slots [i]) div sp_block_size (ab_spec b) < ab_num_gpu_blocks b \<and>
       slot_holds cast key val b' (nat (tn_at slots [i])) i" using all by simp
qed

section \<open>Reading them back\<close>

lemma concat_pages:
  assumes "0 < m" and "k \<le> (len + m - 1) div m"
  shows "concat (map (\<lambda>b. map (F b) [0..<min m (len - b * m)]) [0..<k]) = map (\<lambda>t. F (t div m) (t mod m)) [0..<min len (k * m)]"
  using assms(2)
proof (induction k)
  case (Suc k)
  then have "(k + 1) * m \<le> len + m - 1" using assms(1) by (simp add: less_eq_div_iff_mult_less_eq)
  then have k: "k * m < len" using assms(1) by (simp add: algebra_simps)
  define c where "c = min m (len - k * m)"
  have "min len (Suc k * m) = k * m + c" using k by (auto simp: c_def)
  moreover have "[0..<k * m + c] = [0..<k * m] @ map (\<lambda>t. k * m + t) [0..<c]"
    using upt_add_eq_append [of 0 "k * m" c] map_add_upt [of "k * m" c] by (simp add: add.commute)
  moreover have "map (\<lambda>t. F ((k * m + t) div m) ((k * m + t) mod m)) [0..<c] = map (F k) [0..<c]"
    using assms(1) by (simp add: c_def)
  ultimately show ?case using Suc k by (simp add: c_def comp_def)
qed simp

lemma block_loop_Inr:
  assumes "seq_idx < tn_shape tables ! 0" and "\<And>b. b \<in> set bs \<Longrightarrow> b < tn_shape tables ! 1 \<and> wrap_index n (tn_at tables [seq_idx, b]) = Some (phys b)"
  shows "block_loop tables n seq_idx seq_len m bs = Inr (map (\<lambda>b. (phys b, nat (min (int m) (seq_len - int b * int m)))) bs)"
  using assms(2) by (induction bs) (simp_all add: assms(1) not_le)

text \<open>
  The tokens of a sequence, in order, are found where its block table says: position
  \<open>t\<close> of sequence \<open>s\<close> is in the slot that the table gives, and this is the slot
  token \<open>tok s t\<close> was written to.
\<close>

definition tables_point_to ::
  "int nd_tensor \<Rightarrow> int nd_tensor \<Rightarrow> nat \<Rightarrow> int nd_tensor \<Rightarrow> nat \<Rightarrow> (nat \<Rightarrow> nat \<Rightarrow> nat) \<Rightarrow> bool" where
  "tables_point_to tables seq_lens block_size slots num_tokens tok \<longleftrightarrow>
     (\<forall>s < tn_shape tables ! 0. tn_at seq_lens [s] \<le> int (tn_shape tables ! 1 * block_size) \<and>
        (\<forall>t < nat (tn_at seq_lens [s]). tok s t < num_tokens \<and>
           tn_at slots [tok s t] = tn_at tables [s, t div block_size] * int block_size + int (t mod block_size)))"

lemma slot_parts:
  assumes "0 \<le> x * int m + int r" and "r < m"
  shows "0 \<le> x" "nat (x * int m + int r) div m = nat x" "nat (x * int m + int r) mod m = r"
proof -
  have "- 1 < x"
  proof (rule ccontr)
    assume "\<not> - 1 < x"
    then have "x * int m \<le> - 1 * int m" by (intro mult_right_mono) simp_all
    with assms show False by simp
  qed
  then show "0 \<le> x" by simp
  then have "nat (x * int m + int r) = nat x * m + r" by (simp add: nat_add_distrib nat_mult_distrib)
  then show "nat (x * int m + int r) div m = nat x" "nat (x * int m + int r) mod m = r" using assms(2) by simp_all
qed

lemma gathered_rows:
  assumes "backend_ok b" and "slot_holds cast key val b slot i" and "slot div sp_block_size (ab_spec b) = blk"
    and "slot mod sp_block_size (ab_spec b) = off" and "tn_shape key ! 2 = sp_head_dim (ab_spec b)"
    and "tn_shape val ! 2 = sp_head_dim (ab_spec b)"
  shows "map (\<lambda>d. tn_at (ab_k_cache b) [blk, h, d div tn_shape (ab_k_cache b) ! 4, off, d mod tn_shape (ab_k_cache b) ! 4])
      [0..<tn_shape (ab_k_cache b) ! 2 * tn_shape (ab_k_cache b) ! 4] = row_at (cast_tensor cast key) i h"
    and "map (\<lambda>d. tn_at (ab_v_cache b) [blk, h, d, off]) [0..<tn_shape (ab_v_cache b) ! 2] = row_at (cast_tensor cast val) i h"
proof -
  have "sp_head_dim (ab_spec b) div 8 * 8 = sp_head_dim (ab_spec b)" using assms(1) by (auto simp: backend_ok_def)
  then show "map (\<lambda>d. tn_at (ab_k_cache b) [blk, h, d div tn_shape (ab_k_cache b) ! 4, off, d mod tn_shape (ab_k_cache b) ! 4])
      [0..<tn_shape (ab_k_cache b) ! 2 * tn_shape (ab_k_cache b) ! 4] = row_at (cast_tensor cast key) i h"
    using assms by (simp add: backend_ok_def attn_kv_cache_shape_def slot_holds_def Let_def row_at_def cast_tensor_def)
  show "map (\<lambda>d. tn_at (ab_v_cache b) [blk, h, d, off]) [0..<tn_shape (ab_v_cache b) ! 2] = row_at (cast_tensor cast val) i h"
    using assms by (simp add: backend_ok_def attn_kv_cache_shape_def slot_holds_def Let_def row_at_def cast_tensor_def)
qed

text \<open>The reference: attention of a query over the keys and values of given tokens, read from the tensors themselves.\<close>

definition contiguous_attention ::
  "'a attn_env \<Rightarrow> real \<Rightarrow> nat \<Rightarrow> 'a nd_tensor \<Rightarrow> 'a nd_tensor \<Rightarrow> 'a nd_tensor \<Rightarrow> nat \<Rightarrow> nat list \<Rightarrow> 'a list list" where
  "contiguous_attention env scale num_kv_heads query key val s toks =
     map (\<lambda>h. let g = h div (tn_shape query ! 1 div num_kv_heads); cst = cast_tensor (en_cast env)
              in en_sdpa env False scale [row_at (cst query) s h] (map (\<lambda>i. row_at (cst key) i g) toks)
                   (map (\<lambda>i. row_at (cst val) i g) toks) ! 0)
       [0..<tn_shape query ! 1]"

lemma page_rows:
  assumes "0 < m" and "\<And>t. t < n \<Longrightarrow> F (P (t div m)) (t mod m) = G t"
  shows "concat (map (\<lambda>x. map (F (P x)) [0..<min m (n - x * m)]) [0..<(n + m - 1) div m]) = map G [0..<n]"
proof -
  have "n < ((n + m - 1) div m + 1) * m - m + 1"
    using dividend_less_div_times [OF assms(1), of "n + m - 1"] assms(1) by (simp add: algebra_simps)
  then have "min n ((n + m - 1) div m * m) = n" by (simp add: algebra_simps)
  with concat_pages [OF assms(1) order_refl, of "\<lambda>x. F (P x)" n] assms(2) show ?thesis by simp
qed

lemma last_page_start: "0 < m \<Longrightarrow> x < (n + m - 1) div m \<Longrightarrow> x * m < (n :: nat)"
proof -
  assume m: "0 < m" and "x < (n + m - 1) div m"
  then have "(x + 1) * m \<le> n + m - 1" by (simp add: less_eq_div_iff_mult_less_eq flip: Suc_le_eq)
  with m show ?thesis by (simp add: algebra_simps)
qed

lemma tokens_in_page: "nat (min (int m) (int n - int x * int m)) = min m (n - x * m)"
proof -
  have "nat (min (int m) (int n - int y)) = min m (n - y)" for y by (auto simp: min_def)
  from this [of "x * m"] show ?thesis by simp
qed

text \<open>What is needed to read sequence \<open>s\<close>: its \<open>n\<close> tokens are in the slots its table gives.\<close>

definition seq_in_cache ::
  "('a \<Rightarrow> 'a) \<Rightarrow> 'a nd_tensor \<Rightarrow> 'a nd_tensor \<Rightarrow> 'a paged_backend \<Rightarrow> int nd_tensor \<Rightarrow> nat \<Rightarrow> nat \<Rightarrow> (nat \<Rightarrow> nat) \<Rightarrow> bool" where
  "seq_in_cache cast key val b tables s n tok \<longleftrightarrow>
     (let m = sp_block_size (ab_spec b)
      in s < tn_shape tables ! 0 \<and> n \<le> tn_shape tables ! 1 * m \<and>
         (\<forall>t < n. 0 \<le> tn_at tables [s, t div m] \<and> nat (tn_at tables [s, t div m]) < ab_num_gpu_blocks b \<and>
            slot_holds cast key val b (nat (tn_at tables [s, t div m]) * m + t mod m) (tok t)))"

lemma seq_in_cache_blocks:
  assumes "seq_in_cache cast key val b tables s n tok" and "0 < sp_block_size (ab_spec b)" and "backend_ok b"
  shows "block_loop tables (tn_shape (ab_k_cache b) ! 0) s (int n) (sp_block_size (ab_spec b))
      [0..<(n + sp_block_size (ab_spec b) - 1) div sp_block_size (ab_spec b)] =
    Inr (map (\<lambda>x. (nat (tn_at tables [s, x]), min (sp_block_size (ab_spec b)) (n - x * sp_block_size (ab_spec b))))
      [0..<(n + sp_block_size (ab_spec b) - 1) div sp_block_size (ab_spec b)])"
proof -
  let ?m = "sp_block_size (ab_spec b)" let ?k = "(n + ?m - 1) div ?m"
  have "x < tn_shape tables ! 1 \<and> wrap_index (tn_shape (ab_k_cache b) ! 0) (tn_at tables [s, x]) = Some (nat (tn_at tables [s, x]))"
    if "x \<in> set [0..<?k]" for x
  proof -
    have x: "x * ?m < n" by (rule last_page_start [OF assms(2)]) (use that in simp)
    moreover have "n \<le> tn_shape tables ! 1 * ?m" using assms(1) by (simp add: seq_in_cache_def Let_def)
    ultimately have "x < tn_shape tables ! 1" using mult_less_cancel2 [of x ?m "tn_shape tables ! 1"] by linarith
    moreover have "0 \<le> tn_at tables [s, x] \<and> nat (tn_at tables [s, x]) < ab_num_gpu_blocks b"
      using assms(1,2) x nonzero_mult_div_cancel_right [of ?m x] unfolding seq_in_cache_def Let_def by force
    ultimately show ?thesis using assms(3) by (auto simp: wrap_index_def backend_ok_def attn_kv_cache_shape_def)
  qed
  moreover have "s < tn_shape tables ! 0" using assms(1) by (simp add: seq_in_cache_def Let_def)
  ultimately show ?thesis by (subst block_loop_Inr [where phys = "\<lambda>x. nat (tn_at tables [s, x])"]) (auto simp: tokens_in_page)
qed

lemma seq_in_cache_rows:
  assumes "seq_in_cache cast key val b tables s n tok" and "0 < sp_block_size (ab_spec b)" and "backend_ok b"
    and "tn_shape key ! 2 = sp_head_dim (ab_spec b)" and "tn_shape val ! 2 = sp_head_dim (ab_spec b)"
    and "blocks = map (\<lambda>x. (nat (tn_at tables [s, x]), min (sp_block_size (ab_spec b)) (n - x * sp_block_size (ab_spec b))))
      [0..<(n + sp_block_size (ab_spec b) - 1) div sp_block_size (ab_spec b)]"
  shows "concat (map (block_keys (ab_k_cache b) h) blocks) = map (\<lambda>t. row_at (cast_tensor cast key) (tok t) h) [0..<n]"
    and "concat (map (block_values (ab_v_cache b) h) blocks) = map (\<lambda>t. row_at (cast_tensor cast val) (tok t) h) [0..<n]"
proof -
  let ?m = "sp_block_size (ab_spec b)" let ?P = "\<lambda>x. nat (tn_at tables [s, x])"
  have at: "slot_holds cast key val b (?P (t div ?m) * ?m + t mod ?m) (tok t)" if "t < n" for t
    using assms(1) that by (simp add: seq_in_cache_def Let_def)
  have loc: "(p * ?m + t mod ?m) div ?m = p" "(p * ?m + t mod ?m) mod ?m = t mod ?m" for p t using assms(2) by simp_all
  note rows = gathered_rows [OF assms(3) at loc assms(4,5)]
  show "concat (map (block_keys (ab_k_cache b) h) blocks) = map (\<lambda>t. row_at (cast_tensor cast key) (tok t) h) [0..<n]"
    using page_rows [OF assms(2), where P = ?P and F = "\<lambda>p t. map (\<lambda>d. tn_at (ab_k_cache b)
        [p, h, d div tn_shape (ab_k_cache b) ! 4, t, d mod tn_shape (ab_k_cache b) ! 4])
        [0..<tn_shape (ab_k_cache b) ! 2 * tn_shape (ab_k_cache b) ! 4]", OF rows(1)]
    unfolding assms(6) by (simp only: block_keys_def comp_def prod.case Let_def map_map)
  show "concat (map (block_values (ab_v_cache b) h) blocks) = map (\<lambda>t. row_at (cast_tensor cast val) (tok t) h) [0..<n]"
    using page_rows [OF assms(2), where P = ?P and F = "\<lambda>p t. map (\<lambda>d. tn_at (ab_v_cache b) [p, h, d, t])
        [0..<tn_shape (ab_v_cache b) ! 2]", OF rows(2)]
    unfolding assms(6) by (simp only: block_values_def comp_def prod.case map_map)
qed

lemma seq_attention_in_cache:
  assumes "seq_in_cache (en_cast env) key val b tables s n tok" and "0 < sp_block_size (ab_spec b)" and "backend_ok b"
    and "tn_shape key ! 2 = sp_head_dim (ab_spec b)" and "tn_shape val ! 2 = sp_head_dim (ab_spec b)"
    and "tn_at seq_lens [s] = int n" and "0 < n" and "s < tn_shape seq_lens ! 0"
  shows "seq_attention (en_sdpa env) (cast_tensor (en_cast env) query) (ab_k_cache b) (ab_v_cache b) tables seq_lens scale
      num_kv_heads (sp_block_size (ab_spec b)) s =
    Inr (contiguous_attention env scale num_kv_heads query key val s (map tok [0..<n]))"
  using assms(2,6-8) seq_in_cache_blocks [OF assms(1-3)] seq_in_cache_rows [OF assms(1-5) refl]
  by (simp add: seq_attention_def contiguous_attention_def Let_def comp_def) (simp add: cast_tensor_def)

lemma written_in_cache:
  assumes "tables_point_to tables seq_lens (sp_block_size (ab_spec b)) slots num_tokens tok" and "s < tn_shape tables ! 0"
    and "tn_at seq_lens [s] = int n"
    and held: "\<And>i. i < num_tokens \<Longrightarrow> 0 \<le> tn_at slots [i] \<and>
      nat (tn_at slots [i]) div sp_block_size (ab_spec b) < ab_num_gpu_blocks b \<and>
      slot_holds cast key val b (nat (tn_at slots [i])) i"
  shows "seq_in_cache cast key val b tables s n (tok s)"
proof -
  let ?m = "sp_block_size (ab_spec b)"
  have le: "int n \<le> int (tn_shape tables ! 1 * ?m)" using assms(1-3) by (auto simp: tables_point_to_def)
  have "0 \<le> tn_at tables [s, t div ?m] \<and> nat (tn_at tables [s, t div ?m]) < ab_num_gpu_blocks b \<and>
      slot_holds cast key val b (nat (tn_at tables [s, t div ?m]) * ?m + t mod ?m) (tok s t)" if "t < n" for t
  proof -
    have m: "t mod ?m < ?m" using le that by (cases "?m = 0") auto
    have slot: "tok s t < num_tokens" "tn_at slots [tok s t] = tn_at tables [s, t div ?m] * int ?m + int (t mod ?m)"
      using assms(1-3) that by (auto simp: tables_point_to_def)
    note parts = slot_parts [OF _ m, of "tn_at tables [s, t div ?m]"]
    have "nat (tn_at slots [tok s t]) = nat (tn_at tables [s, t div ?m]) * ?m + t mod ?m"
      using parts held [OF slot(1)] slot(2) by (metis div_mult_mod_eq)
    then show ?thesis using parts held [OF slot(1)] slot(2) by metis
  qed
  moreover have "n \<le> tn_shape tables ! 1 * ?m" using le by (simp only: of_nat_le_iff)
  ultimately show ?thesis using assms(2) by (simp add: seq_in_cache_def Let_def)
qed

lemma collect_results_Inr:
  "(\<And>x. x \<in> set xs \<Longrightarrow> f x = Inr (g x)) \<Longrightarrow> collect_results (map f xs) = Inr (map g xs)"
  by (induction xs) simp_all

text \<open>
  C21: On the fallback path in torch, that is without FlashInfer and without the compiled
  kernel, paged attention equals attention over contiguous keys and values: after the keys and
  values of some tokens were written to different slots, a decode step whose
  block tables name these slots computes, for every sequence of the batch, the
  attention of its query over exactly the tokens of that sequence in their
  order, whatever blocks hold them; a sequence of length zero gives zeros. It
  reads nothing else, in particular not the keys and values passed to the step,
  and changes no cache.
\<close>

theorem paged_decode_equals_contiguous:
  assumes "backend_ok b" and "\<not> flashinfer_enabled b" and "en_native env = None"
    and "write_kv (en_cast env) key val slots b = (Inr (), b1)" and "inj_on (\<lambda>i. tn_at slots [i]) {..<tn_shape key ! 0}"
    and "tn_shape query = [batch, heads, sz]" and "0 < batch"
    and "0 < sp_num_kv_heads (ab_spec b)" and "heads mod sp_num_kv_heads (ab_spec b) = 0"
    and "tn_shape tables = [batch, width]" and "tn_shape seq_lens = [batch]"
    and "tables_point_to tables seq_lens (sp_block_size (ab_spec b)) slots (tn_shape key ! 0) tok"
    and "\<not> md_is_prefill md" and "md_block_tables md = Some tables" and "md_seq_lens md = Some seq_lens"
  shows "attn_forward env query new_key new_val (Some md) (Some scale) b1 =
    (Inr (map (\<lambda>s. if tn_at seq_lens [s] \<le> 0 then replicate heads (replicate sz 0)
       else contiguous_attention env scale (sp_num_kv_heads (ab_spec b)) query key val s
              (map (tok s) [0..<nat (tn_at seq_lens [s])])) [0..<batch]), b1)"
proof -
  let ?kv = "sp_num_kv_heads (ab_spec b)"
  define g where "g s = (if tn_at seq_lens [s] \<le> 0 then replicate heads (replicate sz 0)
    else contiguous_attention env scale ?kv query key val s (map (tok s) [0..<nat (tn_at seq_lens [s])]))" for s
  note w = write_kv_holds [OF assms(4,5)]
  have one: "seq_attention (en_sdpa env) (cast_tensor (en_cast env) query) (ab_k_cache b1) (ab_v_cache b1) tables seq_lens scale
      ?kv (sp_block_size (ab_spec b1)) s = Inr (g s)" if s: "s < batch" for s
  proof (cases "tn_at seq_lens [s] \<le> 0")
    case True
    then show ?thesis using s assms(6,11) by (simp add: g_def seq_attention_def cast_tensor_def)
  next
    case False
    define n where "n = nat (tn_at seq_lens [s])"
    have n: "tn_at seq_lens [s] = int n" "0 < n" using False by (simp_all add: n_def)
    have tab: "tables_point_to tables seq_lens (sp_block_size (ab_spec b1)) slots (tn_shape key ! 0) tok" "s < tn_shape tables ! 0"
      using assms(10,12) s w(1) by simp_all
    then have cached: "seq_in_cache (en_cast env) key val b1 tables s n (tok s)"
      by (rule written_in_cache [OF _ _ n(1)]) (use w(1,2,7) in simp)
    then have "n \<le> tn_shape tables ! 1 * sp_block_size (ab_spec b1)" by (simp add: seq_in_cache_def Let_def)
    with n(2) have "0 < sp_block_size (ab_spec b1)" by (cases "sp_block_size (ab_spec b1) = 0") simp_all
    from seq_attention_in_cache [OF cached this, of seq_lens query scale ?kv] have
      "seq_attention (en_sdpa env) (cast_tensor (en_cast env) query) (ab_k_cache b1) (ab_v_cache b1) tables seq_lens scale
        ?kv (sp_block_size (ab_spec b1)) s = Inr (contiguous_attention env scale ?kv query key val s (map (tok s) [0..<n]))"
      using n s assms(1,11) w(1,4-6) by simp
    then show ?thesis using False by (simp add: g_def n_def)
  qed
  have all: "collect_results (map (seq_attention (en_sdpa env) (cast_tensor (en_cast env) query) (ab_k_cache b1) (ab_v_cache b1)
      tables seq_lens scale ?kv (sp_block_size (ab_spec b1))) [0..<batch]) = Inr (map g [0..<batch])"
    by (rule collect_results_Inr) (use one in simp)
  have shape: "tn_shape (cast_tensor (en_cast env) query) = [batch, heads, sz]" using assms(6) by (simp add: cast_tensor_def)
  have "decode_forward env query md (Some scale) b1 = Inr (map g [0..<batch])"
    using assms(2,3,6-11,14,15) w(1,3) shape all
    by (simp add: decode_forward_def attn_scale_def get_block_tables_def paged_attention_fwd_def paged_attention_sdpa_fallback_def)
  then show ?thesis using assms(13) by (simp add: attn_forward_def g_def)
qed

definition example_key :: "int nd_tensor" where
  "example_key = \<lparr>tn_shape = [3, 1, 8], tn_at = (\<lambda>ix. 10 * int (ix ! 0) + int (ix ! 2))\<rparr>"

definition example_slots :: "int nd_tensor" where
  "example_slots = \<lparr>tn_shape = [3], tn_at = (\<lambda>ix. [4, 5, 0] ! (ix ! 0))\<rparr>"

definition example_metadata :: attn_metadata where
  "example_metadata =
     \<lparr>md_is_prefill = False, md_slot_mapping = None, md_block_tables = Some \<lparr>tn_shape = [1, 2], tn_at = (\<lambda>ix. [2, 0] ! (ix ! 1))\<rparr>,
      md_block_table = None, md_seq_lens = Some \<lparr>tn_shape = [1], tn_at = (\<lambda>_. 3)\<rparr>, md_max_seq_len = None\<rparr>"

definition example_attn_env :: "int attn_env" where
  "example_attn_env =
     \<lparr>en_cast = id, en_sdpa = (\<lambda>causal scale q k v. [concat k]), en_native = None, en_plan_accepts = (\<lambda>_. True),
      en_fi_prefill = (\<lambda>_ _ _ _. []), en_fi_decode = (\<lambda>_ _ _ _. [])\<rparr>"

theorem paged_decode_equals_contiguous_witness:
  "\<exists>b b1. paged_backend_new False False \<lparr>sp_num_kv_heads = 1, sp_head_dim = 8, sp_block_size = 2\<rparr> 3 = Inr b \<and>
     write_kv id example_key example_key example_slots b = (Inr (), b1) \<and>
     fst (attn_forward example_attn_env (zero_tensor [1, 1, 8]) (zero_tensor []) (zero_tensor []) (Some example_metadata) (Some 1) b1) =
       Inr [[[0, 1, 2, 3, 4, 5, 6, 7, 10, 11, 12, 13, 14, 15, 16, 17, 20, 21, 22, 23, 24, 25, 26, 27]]]"
proof -
  let ?sp = "\<lparr>sp_num_kv_heads = 1, sp_head_dim = 8, sp_block_size = 2\<rparr>"
  obtain b :: "int paged_backend" where b: "paged_backend_new False False ?sp 3 = Inr b" by (simp add: paged_backend_new_def Let_def)
  then have bf: "ab_spec b = ?sp" "ab_num_gpu_blocks b = 3" "\<not> flashinfer_enabled b"
    by (auto simp: paged_backend_new_def flashinfer_enabled_def Let_def)
  have [simp]: "[0..<3] = [0, 1, 2]" "[0..<8] = [0, 1, 2, 3, 4, 5, 6, 7]" by code_simp+
  obtain b1 where w: "write_kv (en_cast example_attn_env) example_key example_key example_slots b = (Inr (), b1)"
    by (simp add: write_kv_def check_kv_def example_key_def example_slots_def bf write_slot_def)
  have inj: "inj_on (\<lambda>i. tn_at example_slots [i]) {..<tn_shape example_key ! 0}"
    by (auto simp: inj_on_def example_slots_def example_key_def less_Suc_eq numeral_3_eq_3)
  have pt: "tables_point_to (the (md_block_tables example_metadata)) (the (md_seq_lens example_metadata)) 2 example_slots
      (tn_shape example_key ! 0) (\<lambda>s t. t)"
    by (simp add: tables_point_to_def example_metadata_def example_slots_def example_key_def less_Suc_eq numeral_3_eq_3)
  have "attn_forward example_attn_env (zero_tensor [1, 1, 8]) (zero_tensor []) (zero_tensor []) (Some example_metadata) (Some 1) b1 =
    (Inr (map (\<lambda>s. if tn_at (the (md_seq_lens example_metadata)) [s] \<le> 0 then replicate 1 (replicate 8 0)
       else contiguous_attention example_attn_env 1 (sp_num_kv_heads (ab_spec b)) (zero_tensor [1, 1, 8]) example_key example_key s
              (map (\<lambda>t. t) [0..<nat (tn_at (the (md_seq_lens example_metadata)) [s])])) [0..<1]), b1)"
    by (rule paged_decode_equals_contiguous [where tables = "the (md_block_tables example_metadata)" and width = 2,
          OF paged_backend_new_ok [OF b] bf(3) _ w inj])
      (use pt in \<open>simp_all add: bf example_attn_env_def example_metadata_def zero_tensor_def\<close>)
  then have "fst (attn_forward example_attn_env (zero_tensor [1, 1, 8]) (zero_tensor []) (zero_tensor []) (Some example_metadata) (Some 1) b1) =
       Inr [[[0, 1, 2, 3, 4, 5, 6, 7, 10, 11, 12, 13, 14, 15, 16, 17, 20, 21, 22, 23, 24, 25, 26, 27]]]"
    by (simp add: contiguous_attention_def example_attn_env_def example_metadata_def zero_tensor_def bf row_at_def cast_tensor_def
        example_key_def Let_def)
  with b w show ?thesis by (auto simp: example_attn_env_def)
qed

section \<open>Pages for FlashInfer\<close>

definition table_pages :: "int nd_tensor \<Rightarrow> int \<Rightarrow> nat \<Rightarrow> int \<Rightarrow> int list" where
  "table_pages tables m i seq_len = map (\<lambda>j. tn_at tables [i, j]) [0..<nat (seq_pages m seq_len)]"

lemma page_loop_closed:
  assumes "page_loop tables m i lens pgs plan = Inr plan'"
  shows "plan' = plan\<lparr>fp_kv_indices := fp_kv_indices plan @ concat (map (\<lambda>(j, l). table_pages tables m (i + j) l) (enumerate 0 lens)),
    fp_kv_indptr := fp_kv_indptr plan @ running_sums pgs (map (seq_pages m) lens),
    fp_last_page_len := fp_last_page_len plan @ map (fi_last_page_len m) lens\<rparr>"
  using assms
proof (induction tables m i lens pgs plan rule: page_loop.induct)
  case (2 tables m i seq_len lens pgs plan)
  have sh: "enumerate (Suc 0) lens = map (\<lambda>(j, l). (Suc j, l)) (enumerate 0 lens)"
    using enumerate_Suc_eq [of 0 lens] by (auto simp: case_prod_unfold map_prod_def)
  have "concat (map (\<lambda>(j, l). table_pages tables m (i + j) l) (enumerate 0 (seq_len # lens))) =
      table_pages tables m i seq_len @ concat (map (\<lambda>(j, l). table_pages tables m (i + 1 + j) l) (enumerate 0 lens))"
    by (simp add: sh comp_def case_prod_unfold)
  with 2 show ?case by (auto simp: Let_def table_pages_def split: if_splits)
qed simp

lemma running_sums_nth: "i \<le> length xs \<Longrightarrow> (a # running_sums a xs) ! i = a + sum_list (take i xs)"
proof (induction xs arbitrary: a i)
  case (Cons x xs)
  then show ?case using Cons.IH [of "i - 1" "a + x"] by (cases i) (auto simp: algebra_simps)
qed simp

lemma concat_slice_nth:
  assumes "i < length xss" and "length (xss ! i) = k"
  shows "take k (drop (length (concat (take i xss))) (concat xss)) = xss ! i"
proof -
  have "concat xss = concat (take i xss) @ xss ! i @ concat (drop (Suc i) xss)"
    using id_take_nth_drop [OF assms(1)] by (metis concat.simps(2) concat_append)
  with assms(2) show ?thesis by (metis append_eq_conv_conj)
qed

lemma seq_pages_pos: "1 \<le> seq_pages m l"
  by (simp add: seq_pages_def)

lemma pages_length:
  "int (length (concat (take i (map (\<lambda>(j, l). table_pages tables m j l) (enumerate 0 lens))))) = sum_list (take i (map (seq_pages m) lens))"
proof -
  have "map (int \<circ> length) (map (\<lambda>(j, l). table_pages tables m j l) (enumerate k lens)) = map (seq_pages m) lens" for k
    using seq_pages_pos [of m] by (induction lens arbitrary: k) (auto simp: table_pages_def nat_0_le order_trans [of 0 1])
  from arg_cong [OF this [of 0], of "take i"] show ?thesis
    by (simp add: length_concat take_map comp_def flip: sum_list_of_nat)
qed

lemma last_page_fits:
  assumes "0 < m" and "0 < l"
  shows "(seq_pages m l - 1) * m + fi_last_page_len m l = l" and "1 \<le> fi_last_page_len m l" and "fi_last_page_len m l \<le> m"
proof -
  define q r where "q = l div m" and "r = l mod m"
  have l: "l = q * m + r" "0 \<le> r" "r < m" using assms by (simp_all add: q_def r_def)
  have "0 \<le> q" using assms by (simp add: q_def pos_imp_zdiv_nonneg_iff)
  have "(l + m - 1) div m = (if r = 0 then q else q + 1)"
  proof (cases "r = 0")
    case True
    then have eq: "l + m - 1 = (m - 1) + q * m" using l(1) by simp
    have "((m - 1) + q * m) div m = q + (m - 1) div m" using assms(1) by (intro div_mult_self1) simp
    then show ?thesis unfolding eq using True assms(1) by (simp add: div_pos_pos_trivial)
  next
    case False
    have eq: "l + m - 1 = (r - 1) + (q + 1) * m" using l(1) by (simp add: algebra_simps)
    have "((r - 1) + (q + 1) * m) div m = (q + 1) + (r - 1) div m" using assms(1) by (intro div_mult_self1) simp
    then show ?thesis unfolding eq using False l(2,3) by (simp add: div_pos_pos_trivial)
  qed
  then have pages: "seq_pages m l = (if r = 0 then q else q + 1)"
    using l assms(2) \<open>0 \<le> q\<close> by (cases "q = 0") (auto simp: seq_pages_def)
  have len: "fi_last_page_len m l = (if r = 0 then m else r)" using assms(2) by (simp add: fi_last_page_len_def r_def)
  from pages len l show "(seq_pages m l - 1) * m + fi_last_page_len m l = l" by (auto simp: algebra_simps)
  from len l assms(1) show "1 \<le> fi_last_page_len m l" "fi_last_page_len m l \<le> m" by auto
qed

text \<open>
  The pages given to FlashInfer are those of the block tables: between two entries of
  \<^verbatim>\<open>kv_indptr\<close> stand exactly the first pages of one sequence, and they hold its
  length, the last one in part.
\<close>

theorem flashinfer_pages_cover:
  assumes "build_flashinfer_metadata sp md = Inr plan" and "get_block_tables md = Some tables" and "md_seq_lens md = Some lens"
    and "i < length (tn_elems lens)" and "0 < tn_elems lens ! i" and "0 < sp_block_size sp"
  shows "\<exists>pages. fp_kv_indptr plan ! (i + 1) = fp_kv_indptr plan ! i + int pages \<and>
    take pages (drop (nat (fp_kv_indptr plan ! i)) (fp_kv_indices plan)) = map (\<lambda>j. tn_at tables [i, j]) [0..<pages] \<and>
    (int pages - 1) * int (sp_block_size sp) + fp_last_page_len plan ! i = tn_elems lens ! i \<and>
    1 \<le> fp_last_page_len plan ! i \<and> fp_last_page_len plan ! i \<le> int (sp_block_size sp)"
proof -
  let ?m = "int (sp_block_size sp)" let ?ls = "tn_elems lens"
  let ?xss = "map (\<lambda>(j, l). table_pages tables ?m j l) (enumerate 0 ?ls)"
  let ?p = "seq_pages ?m (?ls ! i)"
  from assms(1-3) have run: "page_loop tables ?m 0 ?ls 0
      \<lparr>fp_qo_indptr = 0 # running_sums 0 ?ls, fp_kv_indptr = [0], fp_kv_indices = [], fp_last_page_len = []\<rparr> = Inr plan"
    by (simp add: build_flashinfer_metadata_def)
  note plan = page_loop_closed [OF run]
  have ptr: "fp_kv_indptr plan ! j = sum_list (take j (map (seq_pages ?m) ?ls))" if "j \<le> length ?ls" for j
    using plan running_sums_nth [of j "map (seq_pages ?m) ?ls" 0] that by simp
  have "fp_kv_indptr plan ! (i + 1) = fp_kv_indptr plan ! i + ?p"
    using ptr [of i] ptr [of "i + 1"] assms(4) by (simp add: take_Suc_conv_app_nth)
  moreover have "take (nat ?p) (drop (nat (fp_kv_indptr plan ! i)) (fp_kv_indices plan)) = table_pages tables ?m i (?ls ! i)"
  proof -
    have "fp_kv_indptr plan ! i = int (length (concat (take i ?xss)))" using ptr [of i] assms(4) pages_length [of i tables ?m ?ls] by simp
    then have "nat (fp_kv_indptr plan ! i) = length (concat (take i ?xss))" by simp
    moreover have "fp_kv_indices plan = concat ?xss" using plan by simp
    moreover have "?xss ! i = table_pages tables ?m i (?ls ! i)" using assms(4) by (simp add: nth_enumerate_eq)
    ultimately show ?thesis using concat_slice_nth [of i ?xss "nat ?p"] assms(4) by (simp add: table_pages_def)
  qed
  moreover have "fp_last_page_len plan ! i = fi_last_page_len ?m (?ls ! i)" using plan assms(4) by simp
  moreover have "int (nat ?p) = ?p" using seq_pages_pos [of ?m "?ls ! i"] by simp
  ultimately show ?thesis using last_page_fits [of ?m "?ls ! i"] assms(5,6)
    by (intro exI [of _ "nat ?p"]) (simp add: table_pages_def)
qed

section \<open>Where the code falls short\<close>

text \<open>
  Without FlashInfer a prefill attends over all tokens of the batch as if they were one
  sequence: lengths and tables of the metadata do not matter.
\<close>

theorem prefill_ignores_sequences:
  assumes "\<not> flashinfer_enabled b"
  shows "prefill_forward env query key val md1 scale b = prefill_forward env query key val md2 scale b"
  using assms by (simp add: prefill_forward_def)

text \<open>
  With FlashInfer, the causal mask is requested only from a library that rejects the call
  without it.
\<close>

lemma plan_without_mask: "call_plan accepts = Inr True \<longleftrightarrow> \<not> accepts False \<and> accepts True"
  by (simp add: call_plan_def)

end
