(* ===== verification/Marlin.thy ===== *)
theory Marlin
  imports Prelude Complex_Main "HOL-Library.Word"
begin

unbundle bit_operations_syntax

text \<open>
  Four-bit weights: \<^verbatim>\<open>src/moe_infinity/kernel/marlin_gemm.py\<close> quantises a matrix, permutes it
  into the order the GPU kernel reads and packs eight weights into a 32-bit word.
  A tensor is the list of its elements in row-major order, so reshaping is the
  identity; weights and scales are reals, \<open>fl\<close> rounds a result to the floating
  point type of the weights and \<open>fp16\<close> the scales to 16 bits. Matrices are not empty,
  and no scale rounds to zero (a column of zeros in 16 bits would be divided by
  zero). The native multiplication is not modelled.
\<close>

section \<open>The permutations\<close>

definition marlin_rows :: "nat \<Rightarrow> nat list" where
  "marlin_rows i = [2 * (i mod 4), 2 * (i mod 4) + 1, 2 * (i mod 4 + 4), 2 * (i mod 4 + 4) + 1]"

definition marlin_perm :: "nat list" where
  "marlin_perm =
     concat (map (\<lambda>i.
       let perm1 = concat (map (\<lambda>block. map (\<lambda>row. 16 * row + i div 4 + 8 * block) (marlin_rows i)) [0, 1])
       in concat (map (\<lambda>j. map (\<lambda>p. p + 256 * j) perm1) [0..<4])) [0..<32])"

definition scale_perm :: "nat list" where
  "scale_perm = concat (map (\<lambda>i. map (\<lambda>j. i + 8 * j) [0..<8]) [0..<8])"

definition scale_perm_single :: "nat list" where
  "scale_perm_single = concat (map (\<lambda>i. concat (replicate 4 (map (\<lambda>j. 2 * i + j) [0..<2]))) [0..<4])"

section \<open>Packing\<close>

text \<open>
  \<^verbatim>\<open>reshape(K // 16, 16, N // 16, 16).permute(0, 2, 1, 3)\<close>: where the element at a position comes from.
\<close>

definition tile_index :: "nat \<Rightarrow> nat \<Rightarrow> nat" where
  "tile_index n q =
     (let d = q mod 16; b = q div 16 mod 16; c = q div 256 mod (n div 16); a = q div 256 div (n div 16)
      in ((a * 16 + b) * (n div 16) + c) * 16 + d)"

definition regroup :: "'a list \<Rightarrow> (nat \<Rightarrow> nat) \<Rightarrow> 'a list" where
  "regroup xs f = map (\<lambda>q. xs ! f q) [0..<length xs]"

text \<open>\<^verbatim>\<open>w.reshape(-1, perm.numel())[:, perm]\<close>.\<close>

definition chunk_index :: "nat list \<Rightarrow> nat \<Rightarrow> nat" where
  "chunk_index perm q = q div length perm * length perm + perm ! (q mod length perm)"

text \<open>\<^verbatim>\<open>packed |= (w[:, shift::8] & 0xF) << (4 * shift)\<close> for \<^verbatim>\<open>shift in range(8)\<close>.\<close>

definition pack_word :: "int list \<Rightarrow> nat \<Rightarrow> 32 word" where
  "pack_word w p = fold (\<lambda>shift acc. acc OR push_bit (4 * shift) (word_of_int (w ! (8 * p + shift)) AND 0xF)) [0..<8] 0"

definition pack_marlin_weight ::
  "nat \<Rightarrow> nat \<Rightarrow> int \<Rightarrow> int list \<Rightarrow> 's list \<Rightarrow> (32 word list \<times> 's list) result" where
  "pack_marlin_weight k n groupsize weight scales =
     (if groupsize \<noteq> -1 \<and> groupsize \<noteq> 128 then Inl AssertionError
      else if k mod 128 \<noteq> 0 then Inl AssertionError
      else if n mod 256 \<noteq> 0 then Inl AssertionError
      else
        (let tiled = regroup weight (tile_index n);
             w = regroup tiled (chunk_index marlin_perm);
             packed = map (pack_word w) [0..<length w div 8];
             s_perm = (if groupsize = -1 then scale_perm_single else scale_perm)
         in Inr (packed, regroup scales (chunk_index s_perm))))"

section \<open>Quantising\<close>

text \<open>\<^verbatim>\<open>torch.round\<close>: to the nearest integer, halves to the even one.\<close>

definition torch_round :: "real \<Rightarrow> int" where
  "torch_round x =
     (let d = x - of_int \<lfloor>x\<rfloor>
      in if d < 1 / 2 then \<lfloor>x\<rfloor> else if d > 1 / 2 then \<lfloor>x\<rfloor> + 1 else if even \<lfloor>x\<rfloor> then \<lfloor>x\<rfloor> else \<lfloor>x\<rfloor> + 1)"

text \<open>The scale of a column in the rows from \<open>r0\<close>: its largest absolute value over 7.5, at least 1e-10.\<close>

definition column_scale :: "(real \<Rightarrow> real) \<Rightarrow> nat \<Rightarrow> real list \<Rightarrow> nat \<Rightarrow> nat \<Rightarrow> nat \<Rightarrow> real" where
  "column_scale fl n w r0 rows c =
     max (fl (Max ((\<lambda>r. \<bar>w ! (r * n + c)\<bar>) ` {r0..<r0 + rows}) / (15 / 2))) (fl (1 / 10 ^ 10))"

definition group_rows :: "nat \<Rightarrow> int \<Rightarrow> nat" where
  "group_rows k groupsize = (if groupsize = -1 then k else nat groupsize)"

definition group_scales :: "(real \<Rightarrow> real) \<Rightarrow> nat \<Rightarrow> nat \<Rightarrow> int \<Rightarrow> real list \<Rightarrow> real list" where
  "group_scales fl k n groupsize w =
     (let rows = group_rows k groupsize
      in concat (map (\<lambda>g. map (column_scale fl n w (g * rows) rows) [0..<n]) [0..<k div rows]))"

definition weight_scale :: "(real \<Rightarrow> real) \<Rightarrow> nat \<Rightarrow> nat \<Rightarrow> int \<Rightarrow> real list \<Rightarrow> nat \<Rightarrow> nat \<Rightarrow> real" where
  "weight_scale fl k n groupsize w r c = group_scales fl k n groupsize w ! (r div group_rows k groupsize * n + c)"

definition quantize_weight :: "(real \<Rightarrow> real) \<Rightarrow> real \<Rightarrow> real \<Rightarrow> int" where
  "quantize_weight fl x s = min 15 (max 0 (torch_round (fl (x / s)) + 8))"

definition marlin_quantize ::
  "(real \<Rightarrow> real) \<Rightarrow> (real \<Rightarrow> real) \<Rightarrow> nat \<Rightarrow> nat \<Rightarrow> int \<Rightarrow> real list \<Rightarrow> (32 word list \<times> real list) result" where
  "marlin_quantize fl fp16 k n groupsize w =
     (if groupsize \<noteq> -1 \<and> groupsize \<noteq> 128 then Inl AssertionError
      else if k mod 128 \<noteq> 0 then Inl AssertionError
      else if n mod 256 \<noteq> 0 then Inl AssertionError
      else
        (let w_int = map (\<lambda>q. quantize_weight fl (w ! q) (weight_scale fl k n groupsize w (q div n) (q mod n))) [0..<k * n]
         in pack_marlin_weight k n groupsize w_int (map fp16 (group_scales fl k n groupsize w))))"

text \<open>\<^verbatim>\<open>prob_n // 128 * 16\<close> zeros.\<close>

definition prepare_workspace :: "nat \<Rightarrow> 32 word list" where
  "prepare_workspace prob_n = replicate (prob_n div 128 * 16) 0"

section \<open>The reference\<close>

definition index_of :: "nat list \<Rightarrow> nat \<Rightarrow> nat" where
  "index_of perm x = length (takeWhile (\<lambda>y. y \<noteq> x) perm)"

text \<open>\<^verbatim>\<open>w.reshape(-1, perm.numel())[:, torch.argsort(perm)]\<close>.\<close>

definition chunk_inverse :: "nat list \<Rightarrow> nat \<Rightarrow> nat" where
  "chunk_inverse perm i = i div length perm * length perm + index_of perm (i mod length perm)"

text \<open>
  \<^verbatim>\<open>reference_dequant_gemm\<close> up to the multiplication: the weights it computes from packed words of a given
  shape. Assigning to every eighth row of a matrix needs a shape that can be broadcast to it.
\<close>

definition reference_dequant ::
  "nat \<times> nat \<Rightarrow> 32 word list \<Rightarrow> real list \<Rightarrow> nat \<Rightarrow> nat \<Rightarrow> int \<Rightarrow> real list result" where
  "reference_dequant shape packed scales k n groupsize =
     (case shape of (rows, cols) \<Rightarrow>
        if (rows \<noteq> 1 \<and> rows \<noteq> k div 8) \<or> (cols \<noteq> 1 \<and> cols \<noteq> n) then Inl RuntimeError
        else
          (let w_int = map (\<lambda>q. unat (drop_bit (4 * (q div n mod 8))
                 (packed ! ((if rows = 1 then 0 else q div n div 8) * cols + (if cols = 1 then 0 else q mod n))) AND 0xF)) [0..<k * n]
           in if k * n mod length marlin_perm \<noteq> 0 then Inl RuntimeError
              else
                (let w = regroup w_int (chunk_inverse marlin_perm); grp = group_rows k groupsize
                 in Inr (map (\<lambda>q. (real (w ! q) - 8) * scales ! (q div n div grp * n + q mod n)) [0..<k * n]))))"

section \<open>The packed words\<close>

definition nibble :: "32 word list \<Rightarrow> nat \<Rightarrow> nat" where
  "nibble ws q = unat (drop_bit (4 * (q mod 8)) (ws ! (q div 8)) AND 0xF)"

lemma pack_word_bit:
  assumes "i < 32"
  shows "bit (pack_word w p) i \<longleftrightarrow> bit (w ! (8 * p + i div 4)) (i mod 4)"
proof -
  have fold: "bit (fold (\<lambda>shift acc. acc OR push_bit (4 * shift) (word_of_int (w ! (8 * p + shift)) AND 0xF)) ss (a :: 32 word)) i
    \<longleftrightarrow> bit a i \<or> (\<exists>shift \<in> set ss. bit (push_bit (4 * shift) (word_of_int (w ! (8 * p + shift)) AND (0xF :: 32 word))) i)" for ss a
    by (induction ss arbitrary: a) (auto simp: bit_or_iff)
  have mask: "bit (15 :: int) j \<longleftrightarrow> j < 4" for j
  proof -
    have "(15 :: int) = mask 4" by (simp add: mask_eq_exp_minus_1)
    then show ?thesis by (simp only: bit_mask_iff possible_bit_int) simp
  qed
  have "bit (push_bit (4 * shift) (word_of_int x AND (0xF :: 32 word))) i \<longleftrightarrow>
      4 * shift \<le> i \<and> i - 4 * shift < 4 \<and> bit x (i - 4 * shift)" for shift x
    using assms by (auto simp: bit_push_bit_iff bit_and_iff bit_word_of_int_iff mask)
  moreover have "4 * shift \<le> i \<and> i - 4 * shift < 4 \<longleftrightarrow> i div 4 = shift" for shift by auto
  moreover have "i - 4 * (i div 4) = i mod 4" by (simp add: modulo_nat_def mult.commute)
  ultimately have "bit (push_bit (4 * shift) (word_of_int x AND (0xF :: 32 word))) i \<longleftrightarrow> i div 4 = shift \<and> bit x (i mod 4)" for shift x
    by metis
  moreover have "i div 4 \<in> set [0..<8]" using assms by auto
  ultimately show ?thesis unfolding pack_word_def fold by auto
qed

lemma nibble_pack:
  assumes "q div 8 < len"
  shows "int (nibble (map (pack_word w) [0..<len]) q) = w ! q mod 16"
proof -
  let ?v = "drop_bit (4 * (q mod 8)) (pack_word w (q div 8)) AND (0xF :: 32 word)"
  have m: "(0xF :: 32 word) = mask 4" "(16 :: int) = 2 ^ 4" by (simp_all add: mask_eq_exp_minus_1)
  have "uint ?v = take_bit 4 (w ! q)"
  proof (rule bit_eqI)
    fix j :: nat
    show "bit (uint ?v) j \<longleftrightarrow> bit (take_bit 4 (w ! q)) j"
    proof (cases "j < 4")
      case True
      then have i: "4 * (q mod 8) + j < 32" and "(4 * (q mod 8) + j) div 4 = q mod 8" "(4 * (q mod 8) + j) mod 4 = j"
        using pos_mod_bound [of 8 "int q"] by (simp_all add: less_Suc_eq_le)
      with pack_word_bit [OF i, of w "q div 8"] True show ?thesis
        unfolding m by (simp add: bit_simps del: take_bit_eq_mod mask_eq_exp_minus_1)
    next
      case False
      then show ?thesis unfolding m by (simp add: bit_simps)
    qed
  qed
  moreover have "int (nibble (map (pack_word w) [0..<len]) q) = uint ?v" using assms by (simp add: nibble_def)
  ultimately show ?thesis by (simp add: take_bit_eq_mod)
qed

section \<open>Undoing the permutations\<close>

definition tile_inverse :: "nat \<Rightarrow> nat \<Rightarrow> nat" where
  "tile_inverse n i =
     (let m = n div 16; d = i mod 16; c = i div 16 mod m; b = i div 16 div m mod 16; a = i div 16 div m div 16
      in ((a * m + c) * 16 + b) * 16 + d)"

text \<open>The weights of a packed matrix in their original order.\<close>

definition marlin_unpack :: "nat \<Rightarrow> 32 word list \<Rightarrow> nat list" where
  "marlin_unpack n packed =
     map (\<lambda>i. nibble packed (chunk_inverse marlin_perm (tile_inverse n i))) [0..<8 * length packed]"

lemma index_of_nth: "x \<in> set perm \<Longrightarrow> index_of perm x < length perm \<and> perm ! index_of perm x = x"
  unfolding index_of_def by (induction perm) auto

lemma chunk_inverse_bound:
  assumes "set perm = {..<length perm}" and "length perm dvd len" and "i < len"
  shows "chunk_inverse perm i < len" and "chunk_index perm (chunk_inverse perm i) = i"
proof -
  let ?l = "length perm"
  have l: "0 < ?l" using assms(2,3) by (cases "?l = 0") auto
  have ix: "index_of perm (i mod ?l) < ?l" "perm ! index_of perm (i mod ?l) = i mod ?l"
    using index_of_nth [of "i mod ?l" perm] assms(1) l by auto
  obtain t where t: "len = ?l * t" using assms(2) by blast
  have "i div ?l < t" using assms(3) t l by (metis less_mult_imp_div_less mult.commute)
  then have "(i div ?l + 1) * ?l \<le> t * ?l" by (intro mult_le_mono1) simp
  with ix(1) t show "chunk_inverse perm i < len" by (simp add: chunk_inverse_def algebra_simps)
  have "chunk_inverse perm i div ?l = i div ?l" "chunk_inverse perm i mod ?l = index_of perm (i mod ?l)"
    using ix(1) l by (simp_all add: chunk_inverse_def)
  then show "chunk_index perm (chunk_inverse perm i) = i" using ix(2) by (simp add: chunk_index_def)
qed

lemma tile_inverse_bound:
  assumes "n mod 16 = 0" and "k mod 16 = 0" and "i < k * n"
  shows "tile_inverse n i < k * n" and "tile_index n (tile_inverse n i) = i"
proof -
  define m where "m = n div 16"
  define d c b a where "d = i mod 16" and "c = i div 16 mod m" and "b = i div 16 div m mod 16" and "a = i div 16 div m div 16"
  note defs = d_def c_def b_def a_def
  have n: "n = 16 * m" using assms(1) m_def by auto
  have m: "0 < m" using assms(3) n by (cases "m = 0") auto
  obtain k' where k: "k = 16 * k'" using assms(2) by auto
  have lt: "d < 16" "c < m" "b < 16" using m by (simp_all add: defs)
  have i: "i = ((a * 16 + b) * m + c) * 16 + d" by (simp add: defs)
  have inv: "tile_inverse n i = ((a * m + c) * 16 + b) * 16 + d"
    by (simp add: tile_inverse_def Let_def m_def [symmetric] defs)
  have "i div 16 div m < k" using assms(3) n m
    by (metis div_mult2_eq less_mult_imp_div_less mult.commute mult.left_commute)
  then have "a < k'" using k by (simp add: a_def less_mult_imp_div_less mult.commute)
  then have "(a + 1) * m \<le> k' * m" by (intro mult_le_mono1) simp
  then have "a * m + c < k' * m" using lt(2) by (simp add: algebra_simps)
  then have "(a * m + c + 1) * 256 \<le> k' * m * 256" by (intro mult_le_mono1) simp
  then show "tile_inverse n i < k * n" using lt inv k n by (simp add: algebra_simps)
  define y where "y = a * m + c"
  define x where "x = y * 16 + b"
  have "tile_inverse n i = x * 16 + d" using inv by (simp add: x_def y_def)
  then have q: "tile_inverse n i mod 16 = d" "tile_inverse n i div 16 = x" using lt(1) by simp_all
  have x: "x mod 16 = b" "x div 16 = y" using lt(3) by (simp_all add: x_def)
  have y: "y mod m = c" "y div m = a" using lt(2) by (simp_all add: y_def)
  have "tile_inverse n i div (16 * 16) = y" unfolding div_mult2_eq q(2) x(2) ..
  then have "tile_inverse n i div 256 = y" by simp
  then show "tile_index n (tile_inverse n i) = i" using q x y i
    by (simp add: tile_index_def Let_def m_def [symmetric])
qed

lemma marlin_perm_set: "length marlin_perm = 1024" "set marlin_perm = {..<1024}"
proof -
  show "length marlin_perm = 1024"
    by (simp add: marlin_perm_def length_concat comp_def marlin_rows_def sum_list_triv Let_def)
  have mem: "v \<in> set marlin_perm" if "i < 32" "row \<in> set (marlin_rows i)" "block \<in> {0, 1}" "j < 4"
      "v = 16 * row + i div 4 + 8 * block + 256 * j" for v i row block j
    using that unfolding marlin_perm_def Let_def by fastforce
  have "v \<in> set marlin_perm" if "v < 1024" for v
  proof (rule mem)
    let ?u = "v div 16 mod 8 div 2"
    show "4 * (v mod 8) + ?u < 32" by simp
    have "(4 * (v mod 8) + ?u) mod 4 = ?u" by simp
    moreover have "list_all (\<lambda>r. r \<in> set (marlin_rows (r mod 8 div 2))) [0..<16]" by code_simp
    then have "v div 16 mod 16 \<in> set (marlin_rows (v div 16 mod 16 mod 8 div 2))" by (simp add: list_all_iff)
    then have "v div 16 mod 16 \<in> set (marlin_rows ?u)" by (simp add: mod_mod_cancel)
    ultimately show "v div 16 mod 16 \<in> set (marlin_rows (4 * (v mod 8) + ?u))" unfolding marlin_rows_def by simp
    show "v mod 16 div 8 \<in> {0, 1}" by auto
    show "v div 256 < 4" using that by simp
    show "v = 16 * (v div 16 mod 16) + (4 * (v mod 8) + ?u) div 4 + 8 * (v mod 16 div 8) + 256 * (v div 256)"
    proof -
      have "v mod (16 * 16) = 16 * (v div 16 mod 16) + v mod 16" by (rule mod_mult2_eq)
      moreover have e: "v mod 16 = 8 * (v div 8 mod 2) + v mod 8" using mod_mult2_eq [of v 8 2] by simp
      moreover have "v mod 16 div 8 = v div 8 mod 2" unfolding e by simp
      moreover have "v div 16 mod 8 div 2 div 4 = 0" by (simp add: div_mult2_eq [symmetric])
      ultimately show ?thesis using div_mult_mod_eq [of v 256] by simp
    qed
  qed
  moreover have "v < 1024" if "v \<in> set marlin_perm" for v
  proof -
    have "r \<le> 15" if "r \<in> set (marlin_rows i)" for r i
    proof -
      have "i mod 4 \<le> 3" by simp
      with that show ?thesis unfolding marlin_rows_def by auto
    qed
    with that show ?thesis by (fastforce simp: marlin_perm_def Let_def)
  qed
  ultimately show "set marlin_perm = {..<1024}" by auto
qed

section \<open>Round trip\<close>

lemma regroup_nth [simp]: "q < length xs \<Longrightarrow> regroup xs f ! q = xs ! f q" "length (regroup xs f) = length xs"
  by (simp_all add: regroup_def)

lemma pack_unpack:
  assumes "pack_marlin_weight k n groupsize w s = Inr (packed, s')" and "length w = k * n"
  shows "length packed = k * n div 8" and "map int (marlin_unpack n packed) = map (\<lambda>x. x mod 16) w"
proof -
  have dims: "k mod 128 = 0" "n mod 256 = 0"
    and packed: "packed = map (pack_word (regroup (regroup w (tile_index n)) (chunk_index marlin_perm))) [0..<length w div 8]"
    using assms(1) by (auto simp: pack_marlin_weight_def Let_def split: if_splits)
  obtain k' n' where kn: "k = 128 * k'" "n = 256 * n'" using dims by (metis mod_0_imp_dvd dvdE mult.commute)
  show len: "length packed = k * n div 8" using packed assms(2) by simp
  have l8: "8 * length packed = k * n" using len kn by simp
  have "1024 dvd k * n" using kn by (simp add: dvd_def)
  then have dvd: "length marlin_perm dvd k * n" by (simp add: marlin_perm_set)
  have "int (marlin_unpack n packed ! i) = w ! i mod 16" if "i < k * n" for i
  proof -
    have t: "tile_inverse n i < k * n" "tile_index n (tile_inverse n i) = i"
      using tile_inverse_bound [OF _ _ that] kn by auto
    have c: "chunk_inverse marlin_perm (tile_inverse n i) < k * n"
      "chunk_index marlin_perm (chunk_inverse marlin_perm (tile_inverse n i)) = tile_inverse n i"
      using chunk_inverse_bound [OF _ dvd t(1)] marlin_perm_set by simp_all
    have "chunk_inverse marlin_perm (tile_inverse n i) div 8 < length w div 8"
      using c(1) assms(2) len l8 by (simp add: less_mult_imp_div_less mult.commute)
    from nibble_pack [OF this] have "int (nibble packed (chunk_inverse marlin_perm (tile_inverse n i))) =
        regroup (regroup w (tile_index n)) (chunk_index marlin_perm) ! chunk_inverse marlin_perm (tile_inverse n i) mod 16"
      by (simp add: packed)
    then show ?thesis using that t c assms(2) l8 by (simp add: marlin_unpack_def)
  qed
  then show "map int (marlin_unpack n packed) = map (\<lambda>x. x mod 16) w"
    using l8 assms(2) by (auto intro!: nth_equalityI simp: marlin_unpack_def)
qed

lemma torch_round_error: "\<bar>of_int (torch_round x) - x\<bar> \<le> 1 / 2"
  by (simp add: torch_round_def Let_def)

lemma quantize_error:
  assumes "0 < s" and "\<bar>x\<bar> \<le> 15 / 2 * s"
  shows "\<bar>real_of_int (quantize_weight id x s - 8) * s - x\<bar> \<le> s / 2" and "0 \<le> quantize_weight id x s" and "quantize_weight id x s \<le> 15"
proof -
  define r where "r = torch_round (x / s)"
  have y: "\<bar>x / s\<bar> \<le> 15 / 2" using assms by (simp add: abs_divide pos_divide_le_eq)
  have err: "\<bar>of_int r - x / s\<bar> \<le> 1 / 2" unfolding r_def by (rule torch_round_error)
  then have r: "- 8 \<le> r" "r \<le> 8" using y by linarith+
  have q: "quantize_weight id x s = min 15 (r + 8)" using r by (simp add: quantize_weight_def r_def)
  then show "0 \<le> quantize_weight id x s" "quantize_weight id x s \<le> 15" using r by auto
  have "\<bar>real_of_int (quantize_weight id x s - 8) - x / s\<bar> \<le> 1 / 2"
  proof (cases "r = 8")
    case True
    then have "x / s = 15 / 2" using err y by linarith
    then show ?thesis using True q by (simp only:)
  next
    case False
    with q r err show ?thesis by simp
  qed
  then have "\<bar>real_of_int (quantize_weight id x s - 8) - x / s\<bar> * s \<le> 1 / 2 * s" using assms(1) by (simp add: mult_right_mono)
  then have "\<bar>(real_of_int (quantize_weight id x s - 8) - x / s) * s\<bar> \<le> s / 2" using assms(1) by (simp add: abs_mult)
  then show "\<bar>real_of_int (quantize_weight id x s - 8) * s - x\<bar> \<le> s / 2" using assms(1) by (simp add: left_diff_distrib)
qed

lemma nth_concat_rows:
  assumes "g < m" and "c < n"
  shows "concat (map (\<lambda>g. map (f g) [0..<n]) [0..<m]) ! (g * n + c) = f g c"
  using assms(1)
proof (induction m)
  case (Suc m)
  have len: "length (concat (map (\<lambda>g. map (f g) [0..<n]) [0..<m])) = m * n" by (simp add: length_concat comp_def sum_list_triv)
  show ?case
  proof (cases "g < m")
    case True
    then have "g * n + c < m * n" using assms(2) by (metis add.commute add_less_cancel_left less_le_trans mult_Suc mult_le_mono1 Suc_leI)
    with True Suc.IH len show ?thesis by (simp add: nth_append)
  next
    case False
    with Suc.prems have "g = m" by simp
    with len assms(2) show ?thesis by (simp add: nth_append)
  qed
qed simp

lemma quantized_dims:
  assumes "marlin_quantize fl fp16 k n groupsize w = Inr res"
  shows "k mod 128 = 0" "n mod 256 = 0" "groupsize = -1 \<or> groupsize = 128"
  using assms by (auto simp: marlin_quantize_def split: if_splits)

lemma group_rows_dvd: "k mod 128 = 0 \<Longrightarrow> groupsize = -1 \<or> groupsize = 128 \<Longrightarrow> group_rows k groupsize dvd k"
  by (auto simp: group_rows_def)

lemma weight_within_scale:
  assumes "k mod 128 = 0" and "groupsize = -1 \<or> groupsize = 128" and "r < k" and "c < n"
  shows "0 < weight_scale id k n groupsize w r c" and "\<bar>w ! (r * n + c)\<bar> \<le> 15 / 2 * weight_scale id k n groupsize w r c"
proof -
  let ?rows = "group_rows k groupsize" let ?g = "r div ?rows"
  have pos: "0 < ?rows" using assms(2,3) by (auto simp: group_rows_def)
  have g: "?g < k div ?rows" using group_rows_dvd [OF assms(1,2)] assms(3) pos
    by (metis div_less_iff_less_mult dvd_div_mult_self)
  have e: "weight_scale id k n groupsize w r c = column_scale id n w (?g * ?rows) ?rows c"
    unfolding weight_scale_def group_scales_def Let_def
    by (rule nth_concat_rows [OF g assms(4), where f = "\<lambda>g. column_scale id n w (g * ?rows) ?rows"])
  let ?A = "(\<lambda>r. \<bar>w ! (r * n + c)\<bar>) ` {?g * ?rows..<?g * ?rows + ?rows}"
  have "r \<in> {?g * ?rows..<?g * ?rows + ?rows}"
    using div_times_less_eq_dividend [of r ?rows] dividend_less_div_times [OF pos, of r] by auto
  then have "\<bar>w ! (r * n + c)\<bar> \<le> Max ?A" by (intro Max_ge) auto
  moreover have "Max ?A / (15 / 2) \<le> column_scale id n w (?g * ?rows) ?rows c" by (simp add: column_scale_def)
  ultimately show "\<bar>w ! (r * n + c)\<bar> \<le> 15 / 2 * weight_scale id k n groupsize w r c" unfolding e by simp
  have "0 < (1 :: real) / 10 ^ 10" by simp
  then show "0 < weight_scale id k n groupsize w r c" unfolding e column_scale_def id_apply by linarith
qed

lemma scale_perm_set: "length scale_perm = 64" "set scale_perm = {..<64}"
proof -
  show len: "length scale_perm = 64" by (simp add: scale_perm_def length_concat comp_def sum_list_triv)
  have "v \<in> set scale_perm" if "v < 64" for v
  proof -
    have "v = v mod 8 + 8 * (v div 8)" "v mod 8 < 8" "v div 8 < 8" using that by auto
    then show ?thesis unfolding scale_perm_def
      by (auto intro!: bexI [of _ "v mod 8"] image_eqI [of _ _ "v div 8"])
  qed
  moreover have "v < 64" if "v \<in> set scale_perm" for v using that by (auto simp: scale_perm_def)
  ultimately show "set scale_perm = {..<64}" by auto
qed

lemma packed_scales_restored:
  assumes "64 dvd length s" and "s' = regroup s (chunk_index scale_perm)" and "i < length s"
  shows "s' ! chunk_inverse scale_perm i = s ! i"
  using chunk_inverse_bound [of scale_perm "length s" i] scale_perm_set assms by simp



text \<open>
  In exact arithmetic, quantising and packing loses no more than rounding: each
  unpacked weight, times the scale it was divided by, is within half a scale of
  the original; the clamping to four bits never costs more.
\<close>

theorem marlin_quantize_round_trip:
  assumes "marlin_quantize id fp16 k n groupsize w = Inr (packed, s)" and "length w = k * n"
  shows "length packed = k * n div 8 \<and>
    (\<forall>r < k. \<forall>c < n.
       \<bar>(real (marlin_unpack n packed ! (r * n + c)) - 8) * weight_scale id k n groupsize w r c - w ! (r * n + c)\<bar>
         \<le> weight_scale id k n groupsize w r c / 2) \<and>
    (groupsize = 128 \<longrightarrow> (\<forall>i < length s. s ! chunk_inverse scale_perm i = fp16 (group_scales id k n groupsize w ! i)))"
proof -
  note dims = quantized_dims [OF assms(1)]
  define w_int where "w_int = map (\<lambda>q. quantize_weight id (w ! q) (weight_scale id k n groupsize w (q div n) (q mod n))) [0..<k * n]"
  have pack: "pack_marlin_weight k n groupsize w_int (map fp16 (group_scales id k n groupsize w)) = Inr (packed, s)"
    using assms(1) by (auto simp: marlin_quantize_def w_int_def Let_def split: if_splits)
  have len: "length w_int = k * n" by (simp add: w_int_def)
  note un = pack_unpack [OF pack len]
  have "\<bar>(real (marlin_unpack n packed ! (r * n + c)) - 8) * weight_scale id k n groupsize w r c - w ! (r * n + c)\<bar>
      \<le> weight_scale id k n groupsize w r c / 2" if "r < k" "c < n" for r c
  proof -
    have i: "r * n + c < k * n"
      using that by (metis add.commute add_less_cancel_left less_le_trans mult_Suc mult_le_mono1 Suc_leI)
    note sc = weight_within_scale [OF dims(1,3) that, of w]
    note q = quantize_error [OF sc]
    have "length (marlin_unpack n packed) = k * n" using arg_cong [OF un(2), of length] len by simp
    then have "int (marlin_unpack n packed ! (r * n + c)) = w_int ! (r * n + c) mod 16"
      using arg_cong [OF un(2), of "\<lambda>xs. xs ! (r * n + c)"] i len by simp
    moreover have "w_int ! (r * n + c) = quantize_weight id (w ! (r * n + c)) (weight_scale id k n groupsize w r c)"
      using i that by (simp add: w_int_def)
    ultimately have "int (marlin_unpack n packed ! (r * n + c)) = quantize_weight id (w ! (r * n + c)) (weight_scale id k n groupsize w r c)"
      using q(2,3) by simp
    then have "real (marlin_unpack n packed ! (r * n + c)) =
        real_of_int (quantize_weight id (w ! (r * n + c)) (weight_scale id k n groupsize w r c))" by (metis of_int_of_nat_eq)
    with q(1) show ?thesis by simp
  qed
  moreover have "s ! chunk_inverse scale_perm i = fp16 (group_scales id k n groupsize w ! i)" if "groupsize = 128" "i < length s" for i
  proof -
    have s: "s = regroup (map fp16 (group_scales id k n groupsize w)) (chunk_index scale_perm)"
      using pack that(1) dims(1,2) by (simp add: pack_marlin_weight_def Let_def)
    have "length (group_scales id k n groupsize w) = k div 128 * n"
      using that(1) by (simp add: group_scales_def group_rows_def length_concat comp_def sum_list_triv)
    moreover have "64 dvd n" by (rule dvd_trans [of _ 256]) (use dims(2) in auto)
    ultimately have "64 dvd length s" using s by (simp add: dvd_mult)
    with packed_scales_restored [OF _ s, of i] that(2) s show ?thesis by simp
  qed
  ultimately show ?thesis using un(1) by blast
qed

theorem marlin_quantize_round_trip_witness:
  "\<exists>packed s. marlin_quantize id id 128 256 128 (replicate 32768 (1 :: real)) = Inr (packed, s) \<and> length packed = 4096 \<and>
     \<bar>(real (marlin_unpack 256 packed ! 0) - 8) * weight_scale id 128 256 128 (replicate 32768 1) 0 0 - 1\<bar>
       \<le> weight_scale id 128 256 128 (replicate 32768 1) 0 0 / 2"
proof -
  let ?w = "replicate 32768 (1 :: real)"
  obtain packed s where q: "marlin_quantize id id 128 256 128 ?w = Inr (packed, s)"
    by (auto simp: marlin_quantize_def pack_marlin_weight_def Let_def)
  have "length ?w = 128 * 256" by simp
  note t = marlin_quantize_round_trip [OF q this]
  have "\<forall>r < 128. \<forall>c < 256. \<bar>(real (marlin_unpack 256 packed ! (r * 256 + c)) - 8) * weight_scale id 128 256 128 ?w r c
      - ?w ! (r * 256 + c)\<bar> \<le> weight_scale id 128 256 128 ?w r c / 2" using t by blast
  from this [rule_format, of 0 0] have "\<bar>(real (marlin_unpack 256 packed ! 0) - 8) * weight_scale id 128 256 128 ?w 0 0 - 1\<bar>
      \<le> weight_scale id 128 256 128 ?w 0 0 / 2" by simp
  moreover have "length packed = 4096" using t by simp
  ultimately show ?thesis using q by blast
qed

section \<open>Where the code falls short\<close>

text \<open>
  The permutation for one scale per column repeats the first eight of every
  thirty-two entries, so the other scales are lost: scales that agree on these
  are packed alike.
\<close>

lemma scale_perm_single_small: "length scale_perm_single = 32" "\<forall>p \<in> set scale_perm_single. p < 8"
  by (simp_all add: scale_perm_single_def length_concat comp_def sum_list_triv sum_list_replicate)

theorem per_column_scales_lost:
  assumes "length s1 = n" and "length s2 = n" and "\<forall>i < n. i mod 32 < 8 \<longrightarrow> s1 ! i = s2 ! i"
  shows "pack_marlin_weight k n (-1) w s1 = pack_marlin_weight k n (-1) w s2"
proof (cases "n mod 256 = 0")
  case True
  then obtain m where n: "n = 32 * (8 * m)" by auto
  have "s1 ! chunk_index scale_perm_single q = s2 ! chunk_index scale_perm_single q" if "q < n" for q
  proof -
    let ?p = "scale_perm_single ! (q mod 32)"
    have p: "?p < 8" using scale_perm_single_small by simp
    have i: "chunk_index scale_perm_single q = q div 32 * 32 + ?p" by (simp add: chunk_index_def scale_perm_single_small)
    have "q div 32 < 8 * m" using that n by (simp add: less_mult_imp_div_less mult.commute)
    with p n have "q div 32 * 32 + ?p < n" by simp
    moreover have "(q div 32 * 32 + ?p) mod 32 < 8" using p by simp
    ultimately show ?thesis using assms(3) i by auto
  qed
  then have "regroup s1 (chunk_index scale_perm_single) = regroup s2 (chunk_index scale_perm_single)"
    using assms(1,2) by (auto simp: regroup_def)
  then show ?thesis by (simp add: pack_marlin_weight_def Let_def)
qed (simp add: pack_marlin_weight_def)

theorem per_column_scales_lost_witness:
  "pack_marlin_weight 128 256 (-1) (replicate 32768 3) (replicate 256 (1 :: real)) =
   pack_marlin_weight 128 256 (-1) (replicate 32768 3) ((replicate 256 1)[8 := 2])"
  by (rule per_column_scales_lost) (auto simp: nth_list_update)

text \<open>
  Packed words have shape \<open>(k div 16, 2 * n)\<close>; the reference expects \<open>(k div 8, n)\<close> and
  rejects every matrix the code can pack.
\<close>

lemma reference_rejects_packed:
  assumes "pack_marlin_weight k n groupsize w s = Inr (packed, s')" and "0 < k" and "0 < n"
  shows "reference_dequant (k div 16, 2 * n) packed scales k n groupsize = Inl RuntimeError"
proof -
  have "k mod 128 = 0" "n mod 256 = 0" using assms(1) by (auto simp: pack_marlin_weight_def split: if_splits)
  then obtain k' where "k = 128 * k'" by auto
  then show ?thesis using assms(2,3) by (simp add: reference_dequant_def)
qed

end
