(* ===== verification/Mxfp4.thy ===== *)
theory Mxfp4
  imports Prelude Complex_Main "HOL-Library.Word"
begin

unbundle bit_operations_syntax

text \<open>
  \<^verbatim>\<open>src/moe_infinity/kernel/mxfp4_gemm.py\<close>: weights of four bits in blocks of 32 with a shared
  exponent. A byte holds two weights, the even one in its low half. The
  fused GPU kernel decodes weights while it multiplies; the reference decodes a
  whole matrix with a table. Sums and products are those of the reals; the
  rounding to 16 bits is a parameter \<open>bf16\<close>. A tensor is a list of rows, and the
  strides are those of such a tensor.
\<close>

section \<open>Decoding\<close>

definition fp4_table :: "real list" where
  "fp4_table = [0, 1/2, 1, 3/2, 2, 3, 4, 6, 0, -1/2, -1, -3/2, -2, -3, -4, -6]"

text \<open>The kernel's decoding: sign in bit 3, magnitude in the others.\<close>

definition fp4_lookup :: "32 word \<Rightarrow> real" where
  "fp4_lookup idx =
     (let sign = (if idx \<ge> 8 then -1 else 1); mag_idx = idx AND 7;
          mag0 = (if mag_idx = 0 then 0 else 0);
          mag1 = (if mag_idx = 1 then 1/2 else mag0);
          mag2 = (if mag_idx = 2 then 1 else mag1);
          mag3 = (if mag_idx = 3 then 3/2 else mag2);
          mag4 = (if mag_idx = 4 then 2 else mag3);
          mag5 = (if mag_idx = 5 then 3 else mag4);
          mag6 = (if mag_idx = 6 then 4 else mag5);
          mag7 = (if mag_idx = 7 then 6 else mag6)
      in sign * mag7)"

text \<open>The value of a normal 32-bit float.\<close>

definition float_of_bits :: "32 word \<Rightarrow> real" where
  "float_of_bits w =
     (if bit w 31 then -1 else 1) * (1 + real (unat (take_bit 23 w)) / 2 ^ 23) *
     2 powi (int (unat (drop_bit 23 w AND 0xFF)) - 127)"

definition clamp_exponent :: "int \<Rightarrow> int" where
  "clamp_exponent e = min (max e (-126)) 127"

text \<open>\<^verbatim>\<open>_ldexp\<close>: the power of two is built from the bits of its exponent.\<close>

definition kernel_ldexp :: "real \<Rightarrow> int \<Rightarrow> real" where
  "kernel_ldexp mantissa e = mantissa * float_of_bits (push_bit 23 (word_of_int (clamp_exponent e + 127)))"

section \<open>The reference\<close>

definition low_nibble :: "8 word \<Rightarrow> 8 word" where
  "low_nibble b = b AND 0x0F"

definition high_nibble :: "8 word \<Rightarrow> 8 word" where
  "high_nibble b = drop_bit 4 b"

definition unpack_row :: "8 word list \<Rightarrow> real list" where
  "unpack_row packed =
     map (\<lambda>k. fp4_table ! unat (if even k then low_nibble (packed ! (k div 2)) else high_nibble (packed ! (k div 2))))
       [0..<2 * length packed]"

text \<open>
  A row of \<^verbatim>\<open>mxfp4_dequantize\<close>; \<open>block_size\<close> not positive means that it is found from
  the shapes. Fewer exponents than weights cannot be broadcast.
\<close>

definition mxfp4_dequantize_row ::
  "(real \<Rightarrow> real) \<Rightarrow> int \<Rightarrow> 8 word list \<Rightarrow> 8 word list \<Rightarrow> real list result" where
  "mxfp4_dequantize_row cast block_size packed scales =
     (let unpacked = unpack_row packed;
          exponents = map (\<lambda>s. clamp_exponent (uint s - 127)) scales
      in if block_size \<le> 0 \<and> scales = [] then Inl ZeroDivisionError
         else
           (let width = (if block_size \<le> 0 then length unpacked div length scales else nat block_size);
                expanded = take (length unpacked) (concat (map (replicate width) exponents))
            in if length expanded \<noteq> length unpacked \<and> length expanded \<noteq> 1 then Inl RuntimeError
               else Inr (map (\<lambda>k. cast (unpacked ! k * 2 powi (expanded ! (if length expanded = 1 then 0 else k))))
                           [0..<length unpacked])))"

section \<open>The kernel\<close>

record gemm_args =
  ga_lhs :: "real list list"
  ga_packed :: "8 word list list"
  ga_scales :: "8 word list list"
  ga_bias :: "real list option"
  ga_m :: nat
  ga_n :: nat
  ga_k :: nat

text \<open>Masked loads: outside the matrix the scale is 127, bytes and activations are zero.\<close>

definition load_scale :: "gemm_args \<Rightarrow> nat \<Rightarrow> nat \<Rightarrow> 8 word" where
  "load_scale a n j = (if n < ga_n a then ga_scales a ! n ! j else 127)"

definition load_packed :: "gemm_args \<Rightarrow> nat \<Rightarrow> nat \<Rightarrow> 8 word" where
  "load_packed a n j = (if n < ga_n a \<and> j < ga_k a div 2 then ga_packed a ! n ! j else 0)"

definition load_lhs :: "gemm_args \<Rightarrow> nat \<Rightarrow> nat \<Rightarrow> real" where
  "load_lhs a m k = (if m < ga_m a \<and> k < ga_k a then ga_lhs a ! m ! k else 0)"

text \<open>
  One block of 32 columns for one element of a tile: the products with the even and the odd weights.
\<close>

definition kernel_block :: "(real \<Rightarrow> real) \<Rightarrow> gemm_args \<Rightarrow> nat \<Rightarrow> nat \<Rightarrow> nat \<Rightarrow> real" where
  "kernel_block bf16 a m n k_block =
     (let k_start = k_block * 32;
          e = uint (load_scale a n (k_start div 32)) - 127;
          byte = (\<lambda>i. load_packed a n (k_start div 2 + i));
          val_lo = (\<lambda>i. bf16 (kernel_ldexp (fp4_lookup (ucast (byte i AND 0x0F))) e));
          val_hi = (\<lambda>i. bf16 (kernel_ldexp (fp4_lookup (ucast (drop_bit 4 (byte i) AND 0x0F))) e))
      in (\<Sum>i < 16. bf16 (load_lhs a m (k_start + 2 * i)) * val_lo i) +
         (\<Sum>i < 16. bf16 (load_lhs a m (k_start + 2 * i + 1)) * val_hi i))"

fun kernel_acc :: "(real \<Rightarrow> real) \<Rightarrow> gemm_args \<Rightarrow> nat \<Rightarrow> nat \<Rightarrow> nat list \<Rightarrow> real \<Rightarrow> real" where
  "kernel_acc bf16 a m n [] acc = acc"
| "kernel_acc bf16 a m n (b # bs) acc = kernel_acc bf16 a m n bs (acc + kernel_block bf16 a m n b)"

text \<open>
  The program of one tile: what it stores, element by element. \<^verbatim>\<open>cdiv\<close> rounds up.
\<close>

definition cdiv :: "nat \<Rightarrow> nat \<Rightarrow> nat" where
  "cdiv x y = (x + y - 1) div y"

definition kernel_program ::
  "(real \<Rightarrow> real) \<Rightarrow> nat \<Rightarrow> nat \<Rightarrow> gemm_args \<Rightarrow> nat \<Rightarrow> nat \<Rightarrow> ((nat \<times> nat) \<times> real) list" where
  "kernel_program bf16 block_m block_n a pid_m pid_n =
     concat (map (\<lambda>i. concat (map (\<lambda>j.
       let m = pid_m * block_m + i; n = pid_n * block_n + j;
           acc = kernel_acc bf16 a m n [0..<cdiv (ga_k a) 32] 0;
           biased = (case ga_bias a of None \<Rightarrow> acc | Some bs \<Rightarrow> acc + (if n < ga_n a then bs ! n else 0))
       in if m < ga_m a \<and> n < ga_n a then [((m, n), bf16 biased)] else []) [0..<block_n])) [0..<block_m])"

definition kernel_launch :: "(real \<Rightarrow> real) \<Rightarrow> nat \<Rightarrow> nat \<Rightarrow> gemm_args \<Rightarrow> ((nat \<times> nat) \<times> real) list" where
  "kernel_launch bf16 block_m block_n a =
     concat (map (\<lambda>pm. concat (map (\<lambda>pn. kernel_program bf16 block_m block_n a pm pn) [0..<cdiv (ga_n a) block_n]))
       [0..<cdiv (ga_m a) block_m])"

text \<open>\<^verbatim>\<open>fused_mxfp4_gemm\<close> on two-dimensional inputs: the assertion on the shapes, then the launch.\<close>

definition fused_mxfp4_gemm ::
  "(real \<Rightarrow> real) \<Rightarrow> nat \<Rightarrow> nat \<Rightarrow> nat \<times> real list list \<Rightarrow> nat \<times> 8 word list list \<Rightarrow> 8 word list list \<Rightarrow> real list option \<Rightarrow>
   ((nat \<times> nat) \<times> real) list result" where
  "fused_mxfp4_gemm bf16 block_m block_n x packed scales bias =
     (case (x, packed) of ((k, lhs), (cols, rows)) \<Rightarrow>
        if k \<noteq> cols * 2 then Inl AssertionError
        else Inr (kernel_launch bf16 block_m block_n
               \<lparr>ga_lhs = lhs, ga_packed = rows, ga_scales = scales, ga_bias = bias,
                ga_m = length lhs, ga_n = length rows, ga_k = k\<rparr>))"

section \<open>Decoding agrees\<close>

lemma powi_bits:
  assumes "-126 \<le> e" and "e \<le> 127"
  shows "float_of_bits (push_bit 23 (word_of_int (e + 127))) = 2 powi e"
proof -
  define z where "z = e + 127"
  have z: "0 \<le> z" "z < 2 ^ 8" using assms by (auto simp: z_def)
  let ?w = "push_bit 23 (word_of_int z) :: 32 word"
  have "take_bit 8 z = z" using z by (simp add: take_bit_int_eq_self)
  then have high: "bit z i \<Longrightarrow> i < 8" for i by (metis bit_take_bit_iff)
  have b: "bit ?w i \<longleftrightarrow> 23 \<le> i \<and> i < 31 \<and> bit z (i - 23)" for i
    using high [of "i - 23"] by (auto simp: bit_push_bit_iff bit_word_of_int_iff)
  have "take_bit 23 ?w = 0" by (rule bit_eqI) (simp add: bit_take_bit_iff b)
  moreover have "drop_bit 23 ?w AND 0xFF = word_of_int z"
  proof (rule bit_eqI)
    fix i assume "possible_bit TYPE(32 word) i"
    have m: "(0xFF :: 32 word) = mask 8" by (simp add: mask_eq_exp_minus_1)
    show "bit (drop_bit 23 ?w AND 0xFF) i \<longleftrightarrow> bit (word_of_int z :: 32 word) i"
      unfolding m by (simp only: bit_and_iff bit_drop_bit_eq o_def b bit_mask_iff bit_word_of_int_iff)
        (use high [of i] \<open>possible_bit TYPE(32 word) i\<close> in auto)
  qed
  moreover have "\<not> bit ?w 31" by (simp only: b) simp
  moreover have "int (unat (word_of_int z :: 32 word)) = z" using z by (simp add: take_bit_int_eq_self unsigned_of_int)
  ultimately show ?thesis unfolding z_def [symmetric] float_of_bits_def by (simp add: z_def)
qed

lemma kernel_ldexp_eq: "kernel_ldexp x e = x * 2 powi clamp_exponent e"
  unfolding kernel_ldexp_def by (subst powi_bits) (simp_all add: clamp_exponent_def)

lemma nibble_less: "b AND 0x0F < (16 :: 8 word)" "drop_bit 4 b < (16 :: 8 word)" "drop_bit 4 b AND 0x0F = drop_bit 4 (b :: 8 word)"
proof -
  have "b AND 0x0F = take_bit 4 b" by (simp add: take_bit_eq_mask mask_eq_exp_minus_1)
  then show "b AND 0x0F < 16" by (simp add: take_bit_eq_mod word_mod_less_divisor)
  have d: "drop_bit 4 b = b div 16" by (simp add: drop_bit_eq_div)
  have "unat b < 256" using unsigned_less [of b] by simp
  then show "drop_bit 4 b < 16" by (simp add: d word_less_nat_alt unat_div)
  have "take_bit 4 (drop_bit 4 b) = drop_bit 4 b"
    by (rule bit_eqI) (auto simp: bit_simps dest: bit_imp_le_length)
  then show "drop_bit 4 b AND 0x0F = drop_bit 4 b" by (simp add: take_bit_eq_mask mask_eq_exp_minus_1)
qed

lemma fp4_lookup_table:
  assumes "v < (16 :: 8 word)"
  shows "fp4_lookup (ucast v) = fp4_table ! unat v"
proof -
  have "unat v < 16" using assms by (simp add: word_less_nat_alt)
  moreover have "v = word_of_nat (unat v)" by simp
  ultimately obtain n where n: "n < 16" "v = word_of_nat n" by blast
  then have "n \<in> {0, 1, 2, 3, 4, 5, 6, 7, 8, 9, 10, 11, 12, 13, 14, 15}" by (simp, arith)
  then show ?thesis unfolding n(2) by (auto simp: fp4_lookup_def fp4_table_def Let_def word_le_nat_alt)
qed

section \<open>The fused kernel computes the reference\<close>

text \<open>Shapes of a matrix whose columns are whole blocks.\<close>

definition gemm_shapes :: "nat \<Rightarrow> gemm_args \<Rightarrow> bool" where
  "gemm_shapes blocks a \<longleftrightarrow>
     ga_k a = 32 * blocks \<and> length (ga_lhs a) = ga_m a \<and> (\<forall>row \<in> set (ga_lhs a). length row = ga_k a) \<and>
     length (ga_packed a) = ga_n a \<and> (\<forall>row \<in> set (ga_packed a). length row = 16 * blocks) \<and>
     length (ga_scales a) = ga_n a \<and> (\<forall>row \<in> set (ga_scales a). length row = blocks)"

definition weight_value :: "(real \<Rightarrow> real) \<Rightarrow> gemm_args \<Rightarrow> nat \<Rightarrow> nat \<Rightarrow> real" where
  "weight_value bf16 a n k =
     bf16 (unpack_row (ga_packed a ! n) ! k * 2 powi clamp_exponent (uint (ga_scales a ! n ! (k div 32)) - 127))"

lemma concat_replicate_nth:
  assumes "k < width * length xs"
  shows "concat (map (replicate width) xs) ! k = xs ! (k div width)"
  using assms
proof (induction xs arbitrary: k)
  case (Cons x xs)
  show ?case
  proof (cases "k < width")
    case True
    then show ?thesis by (simp add: nth_append)
  next
    case False
    then have "0 < width" using Cons.prems by (cases width) auto
    moreover from this False have "k div width = Suc ((k - width) div width)" by (simp add: le_div_geq)
    ultimately show ?thesis using False Cons.IH [of "k - width"] Cons.prems by (simp add: nth_append)
  qed
qed simp

lemma dequantize_row:
  assumes "gemm_shapes blocks a" and "n < ga_n a" and "0 < blocks" and "block_size = 32 \<or> block_size \<le> 0"
  shows "mxfp4_dequantize_row bf16 block_size (ga_packed a ! n) (ga_scales a ! n) = Inr (map (weight_value bf16 a n) [0..<ga_k a])"
proof -
  let ?p = "ga_packed a ! n" and ?s = "ga_scales a ! n"
  have len: "length ?p = 16 * blocks" "length ?s = blocks" "ga_k a = 32 * blocks"
    using assms(1,2) by (auto simp: gemm_shapes_def)
  define es where "es = map (\<lambda>s. clamp_exponent (uint s - 127)) ?s"
  have u: "length (unpack_row ?p) = 32 * blocks" using len by (simp add: unpack_row_def)
  have width: "(if block_size \<le> 0 then length (unpack_row ?p) div length ?s else nat block_size) = 32"
    using assms(3,4) len u by auto
  have l: "length (concat (map (replicate 32) es)) = 32 * blocks"
    using len by (simp add: es_def length_concat comp_def sum_list_triv)
  have "?s \<noteq> []" using len(2) assms(3) by auto
  then have "mxfp4_dequantize_row bf16 block_size ?p ?s =
      Inr (map (\<lambda>k. bf16 (unpack_row ?p ! k * 2 powi (concat (map (replicate 32) es) ! k))) [0..<32 * blocks])"
    unfolding mxfp4_dequantize_row_def Let_def width es_def [symmetric] using l u assms(3) by simp
  also have "\<dots> = Inr (map (weight_value bf16 a n) [0..<ga_k a])"
    using len concat_replicate_nth [of _ 32 es] by (simp add: weight_value_def es_def)
  finally show ?thesis .
qed

lemma unpack_row_nth:
  "k < 2 * length p \<Longrightarrow> unpack_row p ! k =
     fp4_lookup (ucast (if even k then p ! (k div 2) AND 0x0F else drop_bit 4 (p ! (k div 2)) AND 0x0F))"
  using fp4_lookup_table [OF nibble_less(1), of "p ! (k div 2)"] fp4_lookup_table [OF nibble_less(2), of "p ! (k div 2)"]
  by (simp add: unpack_row_def low_nibble_def high_nibble_def nibble_less(3))

lemma kernel_block_sum:
  assumes "gemm_shapes blocks a" and "m < ga_m a" and "n < ga_n a" and "b < blocks"
    and "\<forall>row \<in> set (ga_lhs a). \<forall>x \<in> set row. bf16 x = x"
  shows "kernel_block bf16 a m n b = (\<Sum>k \<in> {32 * b..<32 * b + 32}. ga_lhs a ! m ! k * weight_value bf16 a n k)"
proof -
  let ?f = "\<lambda>k. ga_lhs a ! m ! k * weight_value bf16 a n k"
  have len: "length (ga_packed a ! n) = 16 * blocks" "length (ga_lhs a ! m) = 32 * blocks" "ga_k a = 32 * blocks"
    "ga_lhs a ! m \<in> set (ga_lhs a)" using assms(1-3) by (auto simp: gemm_shapes_def)
  have x: "bf16 (ga_lhs a ! m ! k) = ga_lhs a ! m ! k" if "k < 32 * blocks" for k using assms(5) len that by simp
  have lo: "bf16 (load_lhs a m (b * 32 + 2 * i)) * bf16 (kernel_ldexp (fp4_lookup (ucast (load_packed a n (b * 32 div 2 + i) AND 0x0F)))
      (uint (load_scale a n (b * 32 div 32)) - 127)) = ?f (32 * b + 2 * i)" if "i < 16" for i
  proof -
    have k: "32 * b + 2 * i < 32 * blocks" "(32 * b + 2 * i) div 2 = 16 * b + i" "(32 * b + 2 * i) div 32 = b" using that assms(4) by auto
    then show ?thesis using assms(2,3) len x [OF k(1)] unpack_row_nth [of "32 * b + 2 * i" "ga_packed a ! n"]
      by (simp add: load_lhs_def load_packed_def load_scale_def weight_value_def kernel_ldexp_eq mult.commute)
  qed
  have hi: "bf16 (load_lhs a m (b * 32 + 2 * i + 1)) * bf16 (kernel_ldexp (fp4_lookup (ucast (drop_bit 4 (load_packed a n (b * 32 div 2 + i)) AND 0x0F)))
      (uint (load_scale a n (b * 32 div 32)) - 127)) = ?f (32 * b + 2 * i + 1)" if "i < 16" for i
  proof -
    have k: "32 * b + 2 * i + 1 < 32 * blocks" "(32 * b + 2 * i + 1) div 2 = 16 * b + i" "(32 * b + 2 * i + 1) div 32 = b" using that assms(4) by auto
    then show ?thesis using assms(2,3) len x [OF k(1)] unpack_row_nth [of "32 * b + 2 * i + 1" "ga_packed a ! n"]
      by (simp add: load_lhs_def load_packed_def load_scale_def weight_value_def kernel_ldexp_eq mult.commute)
  qed
  have "kernel_block bf16 a m n b = (\<Sum>i < 16. ?f (32 * b + 2 * i)) + (\<Sum>i < 16. ?f (32 * b + 2 * i + 1))"
    unfolding kernel_block_def Let_def using lo hi by simp
  also have "\<dots> = (\<Sum>j < 32. ?f (32 * b + j))" by (simp add: numeral_eq_Suc)
  also have "\<dots> = (\<Sum>k \<in> {32 * b..<32 * b + 32}. ?f k)"
    using sum.shift_bounds_nat_ivl [of ?f 0 "32 * b" 32] by (simp add: atLeast0LessThan add.commute)
  finally show ?thesis .
qed

lemma kernel_acc_sum:
  assumes "gemm_shapes blocks a" and "m < ga_m a" and "n < ga_n a" and "\<forall>row \<in> set (ga_lhs a). \<forall>x \<in> set row. bf16 x = x"
  shows "kernel_acc bf16 a m n [0..<cdiv (ga_k a) 32] 0 = (\<Sum>k < ga_k a. ga_lhs a ! m ! k * weight_value bf16 a n k)"
proof -
  have fold: "kernel_acc bf16 a m n bs acc = acc + sum_list (map (kernel_block bf16 a m n) bs)" for bs acc
    by (induction bs arbitrary: acc) simp_all
  have "(\<Sum>b \<leftarrow> [0..<t]. kernel_block bf16 a m n b) = (\<Sum>k < 32 * t. ga_lhs a ! m ! k * weight_value bf16 a n k)" if "t \<le> blocks" for t
    using that
  proof (induction t)
    case (Suc t)
    have "{..<32 * Suc t} = {..<32 * t} \<union> {32 * t..<32 * t + 32}" by auto
    then show ?case using Suc kernel_block_sum [OF assms(1-3) _ assms(4), of t]
      by (simp add: sum.union_disjoint ivl_disj_int)
  qed simp
  moreover have "ga_k a = 32 * blocks" "cdiv (ga_k a) 32 = blocks" using assms(1) by (auto simp: gemm_shapes_def cdiv_def)
  ultimately show ?thesis unfolding fold by simp
qed

lemma distinct_concat_map:
  assumes "distinct xs" and "\<And>x. x \<in> set xs \<Longrightarrow> distinct (f x)"
    and "\<And>x y z. x \<in> set xs \<Longrightarrow> y \<in> set xs \<Longrightarrow> z \<in> set (f x) \<Longrightarrow> z \<in> set (f y) \<Longrightarrow> x = y"
  shows "distinct (concat (map f xs))"
  using assms
proof (induction xs)
  case (Cons x xs)
  have "set (f x) \<inter> set (concat (map f xs)) = {}"
  proof (rule equals0I)
    fix z assume "z \<in> set (f x) \<inter> set (concat (map f xs))"
    then obtain y where "y \<in> set xs" "z \<in> set (f y)" "z \<in> set (f x)" by auto
    then have "x = y" using Cons.prems(3) [of x y z] by simp
    with \<open>y \<in> set xs\<close> Cons.prems(1) show False by simp
  qed
  moreover have "distinct (concat (map f xs))" by (rule Cons.IH) (use Cons.prems in auto)
  ultimately show ?case using Cons.prems(2) [of x] by simp
qed simp

definition result_value :: "(real \<Rightarrow> real) \<Rightarrow> gemm_args \<Rightarrow> nat \<Rightarrow> nat \<Rightarrow> real" where
  "result_value bf16 a m n =
     (let acc = kernel_acc bf16 a m n [0..<cdiv (ga_k a) 32] 0
      in bf16 (case ga_bias a of None \<Rightarrow> acc | Some bs \<Rightarrow> acc + (if n < ga_n a then bs ! n else 0)))"

definition program_keys :: "nat \<Rightarrow> nat \<Rightarrow> gemm_args \<Rightarrow> nat \<Rightarrow> nat \<Rightarrow> (nat \<times> nat) list" where
  "program_keys bm bn a pm pn =
     concat (map (\<lambda>i. concat (map (\<lambda>j.
       if pm * bm + i < ga_m a \<and> pn * bn + j < ga_n a then [(pm * bm + i, pn * bn + j)] else []) [0..<bn])) [0..<bm])"

lemma kernel_program_keys:
  "kernel_program bf16 bm bn a pm pn = map (\<lambda>(m, n). ((m, n), result_value bf16 a m n)) (program_keys bm bn a pm pn)"
  by (simp add: kernel_program_def program_keys_def result_value_def map_concat comp_def Let_def if_distrib cong: if_cong)

lemma program_keys_set:
  assumes "0 < bm" and "0 < bn"
  shows "set (program_keys bm bn a pm pn) = {(m, n). m < ga_m a \<and> n < ga_n a \<and> m div bm = pm \<and> n div bn = pn}"
proof -
  have d: "(\<exists>i < b. m = p * b + i) \<longleftrightarrow> m div b = p" if "0 < b" for m p b :: nat
    using that by (auto intro: exI [of _ "m mod b"])
  have "(m, n) \<in> set (program_keys bm bn a pm pn) \<longleftrightarrow>
      m < ga_m a \<and> n < ga_n a \<and> (\<exists>i < bm. m = pm * bm + i) \<and> (\<exists>j < bn. n = pn * bn + j)" for m n
    unfolding program_keys_def by (auto split: if_splits)
  then show ?thesis unfolding d [OF assms(1)] d [OF assms(2)] by auto
qed

lemma program_keys_distinct: "distinct (program_keys bm bn a pm pn)"
  unfolding program_keys_def by (intro distinct_concat_map) (auto split: if_splits)

lemma cdiv_less: "0 < b \<Longrightarrow> x < y \<Longrightarrow> x div b < cdiv y b"
proof -
  assume "0 < b" "x < y"
  then have "x div b * b + b \<le> y + b - 1" using div_times_less_eq_dividend [of x b] by linarith
  then have "(x div b + 1) * b \<le> y + b - 1" by simp
  with \<open>0 < b\<close> have "x div b + 1 \<le> (y + b - 1) div b" by (subst less_eq_div_iff_mult_less_eq)
  then show ?thesis by (simp add: cdiv_def)
qed

lemma launch_stores:
  assumes "0 < bm" and "0 < bn"
  shows "distinct (map fst (kernel_launch bf16 bm bn a))"
    and "(\<lambda>p. fst p) ` set (kernel_launch bf16 bm bn a) = {..<ga_m a} \<times> {..<ga_n a}"
    and "p \<in> set (kernel_launch bf16 bm bn a) \<Longrightarrow> snd p = result_value bf16 a (fst (fst p)) (snd (fst p))"
proof -
  let ?k = "concat (map (\<lambda>pm. concat (map (\<lambda>pn. program_keys bm bn a pm pn) [0..<cdiv (ga_n a) bn])) [0..<cdiv (ga_m a) bm])"
  have eq: "kernel_launch bf16 bm bn a = map (\<lambda>(m, n). ((m, n), result_value bf16 a m n)) ?k"
    by (simp add: kernel_launch_def kernel_program_keys map_concat comp_def)
  have keys: "map fst (kernel_launch bf16 bm bn a) = ?k" unfolding eq by (simp add: comp_def case_prod_unfold)
  have "distinct ?k"
    by (intro distinct_concat_map) (auto simp: program_keys_set [OF assms] program_keys_distinct)
  then show "distinct (map fst (kernel_launch bf16 bm bn a))" using keys by simp
  have "set ?k = {..<ga_m a} \<times> {..<ga_n a}"
    using cdiv_less [OF assms(1)] cdiv_less [OF assms(2)] by (auto simp: program_keys_set [OF assms])
  then show "fst ` set (kernel_launch bf16 bm bn a) = {..<ga_m a} \<times> {..<ga_n a}" using keys by (metis list.set_map)
  show "p \<in> set (kernel_launch bf16 bm bn a) \<Longrightarrow> snd p = result_value bf16 a (fst (fst p)) (snd (fst p))"
    unfolding eq by auto
qed

text \<open>
  C22: The fused kernel computes the product with the matrix that the reference decodes:
  for every tile size, every element of the result is stored exactly once, and
  its value is the rounded sum of the products of activations and decoded
  weights plus the bias, where the activations are 16-bit values and the columns
  whole blocks of 32.
\<close>

theorem fused_gemm_equals_reference:
  assumes "gemm_shapes blocks a" and "0 < blocks" and "0 < block_m" and "0 < block_n"
    and "\<forall>row \<in> set (ga_lhs a). \<forall>x \<in> set row. bf16 x = x" and "block_size = 32 \<or> block_size \<le> 0"
  shows "\<exists>stores. fused_mxfp4_gemm bf16 block_m block_n (ga_k a, ga_lhs a) (16 * blocks, ga_packed a) (ga_scales a) (ga_bias a) =
      Inr stores \<and> distinct (map fst stores) \<and> fst ` set stores = {..<ga_m a} \<times> {..<ga_n a} \<and>
    (\<forall>m < ga_m a. \<forall>n < ga_n a. \<exists>w. mxfp4_dequantize_row bf16 block_size (ga_packed a ! n) (ga_scales a ! n) = Inr w \<and>
       map_of stores (m, n) = Some (bf16 ((\<Sum>k < ga_k a. ga_lhs a ! m ! k * w ! k) +
         (case ga_bias a of None \<Rightarrow> 0 | Some bs \<Rightarrow> bs ! n))))"
proof -
  let ?stores = "kernel_launch bf16 block_m block_n a"
  have a: "\<lparr>ga_lhs = ga_lhs a, ga_packed = ga_packed a, ga_scales = ga_scales a, ga_bias = ga_bias a,
      ga_m = length (ga_lhs a), ga_n = length (ga_packed a), ga_k = ga_k a\<rparr> = a"
    using assms(1) by (simp add: gemm_shapes_def)
  have run: "fused_mxfp4_gemm bf16 block_m block_n (ga_k a, ga_lhs a) (16 * blocks, ga_packed a) (ga_scales a) (ga_bias a) = Inr ?stores"
    unfolding fused_mxfp4_gemm_def prod.case a using assms(1) by (simp add: gemm_shapes_def)
  note st = launch_stores [OF assms(3,4), where a = a]
  have "map_of ?stores (m, n) = Some (bf16 ((\<Sum>k < ga_k a. ga_lhs a ! m ! k * map (weight_value bf16 a n) [0..<ga_k a] ! k) +
      (case ga_bias a of None \<Rightarrow> 0 | Some bs \<Rightarrow> bs ! n)))" if mn: "m < ga_m a" "n < ga_n a" for m n
  proof -
    have "(m, n) \<in> fst ` set ?stores" using st(2) mn by auto
    then obtain v where v: "((m, n), v) \<in> set ?stores" by force
    then have "map_of ?stores (m, n) = Some v" using st(1) by (simp add: map_of_is_SomeI)
    moreover have "v = result_value bf16 a m n" using st(3) [OF v] by simp
    ultimately show ?thesis using mn kernel_acc_sum [OF assms(1) mn assms(5)]
      by (simp add: result_value_def split: option.splits)
  qed
  with dequantize_row [OF assms(1) _ assms(2,6), of _ bf16] run st(1,2) show ?thesis by blast
qed

definition example_gemm :: gemm_args where
  "example_gemm =
     \<lparr>ga_lhs = [replicate 32 1, replicate 32 2], ga_packed = [replicate 16 0x22], ga_scales = [[128]],
      ga_bias = Some [5], ga_m = 2, ga_n = 1, ga_k = 32\<rparr>"

theorem fused_gemm_equals_reference_witness:
  "\<exists>stores. fused_mxfp4_gemm id 64 32 (32, ga_lhs example_gemm) (16, ga_packed example_gemm) (ga_scales example_gemm) (Some [5]) =
     Inr stores \<and> map_of stores (1, 0) = Some 133"
proof -
  have shapes: "gemm_shapes 1 example_gemm" by (simp add: gemm_shapes_def example_gemm_def)
  have row: "mxfp4_dequantize_row id 0 (ga_packed example_gemm ! 0) (ga_scales example_gemm ! 0) = Inr w \<Longrightarrow> k < 32 \<Longrightarrow> w ! k = 2" for w k
  proof -
    assume w: "mxfp4_dequantize_row id 0 (ga_packed example_gemm ! 0) (ga_scales example_gemm ! 0) = Inr w" and k: "k < 32"
    have "mxfp4_dequantize_row id 0 (ga_packed example_gemm ! 0) (ga_scales example_gemm ! 0) =
        Inr (map (weight_value id example_gemm 0) [0..<ga_k example_gemm])"
      by (rule dequantize_row [OF shapes]) (simp_all add: example_gemm_def)
    with w have "w = map (weight_value id example_gemm 0) [0..<ga_k example_gemm]" by simp
    then have "w ! k = weight_value id example_gemm 0 k" using k by (simp add: example_gemm_def)
    also have "\<dots> = 2" using k
      by (simp add: weight_value_def example_gemm_def unpack_row_def low_nibble_def high_nibble_def fp4_table_def clamp_exponent_def)
    finally show "w ! k = 2" .
  qed
  from fused_gemm_equals_reference [OF shapes, of 64 32 id 0] obtain stores where
    run: "fused_mxfp4_gemm id 64 32 (ga_k example_gemm, ga_lhs example_gemm) (16 * 1, ga_packed example_gemm)
       (ga_scales example_gemm) (ga_bias example_gemm) = Inr stores"
    and val: "\<forall>m < ga_m example_gemm. \<forall>n < ga_n example_gemm. \<exists>w. mxfp4_dequantize_row id 0 (ga_packed example_gemm ! n)
         (ga_scales example_gemm ! n) = Inr w \<and>
       map_of stores (m, n) = Some (id ((\<Sum>k < ga_k example_gemm. ga_lhs example_gemm ! m ! k * w ! k) +
         (case ga_bias example_gemm of None \<Rightarrow> 0 | Some bs \<Rightarrow> bs ! n)))" by auto
  from val [rule_format, of 1 0] obtain w where w: "mxfp4_dequantize_row id 0 (ga_packed example_gemm ! 0) (ga_scales example_gemm ! 0) = Inr w"
    and m: "map_of stores (1, 0) = Some ((\<Sum>k < ga_k example_gemm. ga_lhs example_gemm ! 1 ! k * w ! k) +
         (case ga_bias example_gemm of None \<Rightarrow> 0 | Some bs \<Rightarrow> bs ! 0))" by (auto simp: example_gemm_def)
  have "(\<Sum>k < ga_k example_gemm. ga_lhs example_gemm ! 1 ! k * w ! k) = (\<Sum>k < (32 :: nat). 4)"
    by (rule sum.cong) (simp_all add: example_gemm_def row [OF w])
  with m run show ?thesis by (simp add: example_gemm_def)
qed

end
