(* ===== verification/Model_Config.thy ===== *)
theory Model_Config
  imports Serving_Engine Decimal "HOL-Library.Char_ord" "HOL-Library.List_Lexorder"
begin

text \<open>
  What is read from configurations and names: \<^verbatim>\<open>src/moe_infinity/utils/config.py\<close>,
  \<^verbatim>\<open>utils/hf_config.py\<close>, \<^verbatim>\<open>utils/quantization.py\<close>, \<^verbatim>\<open>utils/gptq.py\<close>, \<^verbatim>\<open>utils/mxfp4.py\<close> and
  \<^verbatim>\<open>utils/checkpoints.py\<close>. Attributes, parsed JSON and the file system are parameters;
  texts are ASCII.
\<close>

section \<open>Strings\<close>

definition starts_with :: "string \<Rightarrow> string \<Rightarrow> bool" where
  "starts_with p s \<longleftrightarrow> take (length p) s = p"

fun contains :: "string \<Rightarrow> string \<Rightarrow> bool" where
  "contains p [] \<longleftrightarrow> p = []"
| "contains p (c # cs) \<longleftrightarrow> starts_with p (c # cs) \<or> contains p cs"

definition py_lower :: "string \<Rightarrow> string" where
  "py_lower s = map ascii_lower s"

text \<open>\<^verbatim>\<open>re.findall(...)[0]\<close>: the match at the first position that has one.\<close>

fun first_match :: "(string \<Rightarrow> 'a option) \<Rightarrow> string \<Rightarrow> 'a option" where
  "first_match f [] = f []"
| "first_match f (c # cs) = (case f (c # cs) of Some r \<Rightarrow> Some r | None \<Rightarrow> first_match f cs)"

text \<open>A match after a greedy \<^verbatim>\<open>.*\<close>: the one at the last position.\<close>

fun last_match :: "(string \<Rightarrow> 'a option) \<Rightarrow> string \<Rightarrow> 'a option" where
  "last_match f [] = f []"
| "last_match f (c # cs) = (case last_match f cs of Some r \<Rightarrow> Some r | None \<Rightarrow> f (c # cs))"

section \<open>Memory ratios\<close>

record archer_config =
  ar_offload_path :: string
  ar_trace_capacity :: int
  ar_trace_path :: "string option"
  ar_perfect_cache_file :: string
  ar_device_per_node :: int
  ar_prefetch :: bool
  ar_speculative_prefetch :: bool
  ar_speculative_prefetch_overlap :: bool
  ar_device_memory_ratio :: real
  ar_num_threads :: int
  ar_host_memory_ratio :: real
  ar_kv_cache_memory_ratio :: real
  ar_use_native_engine :: bool
  ar_enable_attention_offload :: bool
  ar_enable_kv_cache_offload :: bool
  ar_attention_backend :: string

text \<open>\<^verbatim>\<open>os.path.join\<close> of two parts.\<close>

definition path_join :: "string \<Rightarrow> string \<Rightarrow> string" where
  "path_join a b =
     (if starts_with ''/'' b then b else if a = [] \<or> last a = CHR ''/'' then a @ b else a @ ''/'' @ b)"

definition archer_post_init ::
  "int \<Rightarrow> (string \<Rightarrow> string) \<Rightarrow> (string \<Rightarrow> bool) \<Rightarrow> archer_config \<Rightarrow> archer_config result" where
  "archer_post_init device_count abspath isdir c =
     (let c1 = c\<lparr>ar_perfect_cache_file := path_join (ar_offload_path c) ''perfect_cache'',
                 ar_device_per_node := device_count,
                 ar_trace_path := map_option abspath (ar_trace_path c)\<rparr>
      in if (case ar_trace_path c1 of None \<Rightarrow> False | Some p \<Rightarrow> isdir p) then Inl ValueError
         else
           (let kv_autocorrected = (ar_use_native_engine c1 \<and> ar_kv_cache_memory_ratio c1 = 0);
                c2 = (if kv_autocorrected then c1\<lparr>ar_kv_cache_memory_ratio := 15 / 100\<rparr> else c1);
                c3 = (if kv_autocorrected \<and> ar_device_memory_ratio c2 + ar_kv_cache_memory_ratio c2 > 1
                      then c2\<lparr>ar_device_memory_ratio := max 0 (1 - ar_kv_cache_memory_ratio c2)\<rparr> else c2)
            in if \<not> (0 \<le> ar_device_memory_ratio c3 \<and> ar_device_memory_ratio c3 \<le> 1) then Inl ValueError
               else if \<not> (0 \<le> ar_kv_cache_memory_ratio c3 \<and> ar_kv_cache_memory_ratio c3 \<le> 1) then Inl ValueError
               else if ar_device_memory_ratio c3 + ar_kv_cache_memory_ratio c3 > 1 then Inl ValueError
               else Inr c3))"

section \<open>Parameters of a model\<close>

record hf_config =
  hf_architectures :: "string list option"
  hf_attr :: "string \<rightharpoonup> int"

definition attr_of :: "hf_config \<Rightarrow> string \<Rightarrow> int result" where
  "attr_of cfg name = (case hf_attr cfg name of None \<Rightarrow> Inl AttributeError | Some i \<Rightarrow> Inr i)"

definition floor_div :: "int \<Rightarrow> int \<Rightarrow> int result" where
  "floor_div a b = (if b = 0 then Inl ZeroDivisionError else Inr (a div b))"

text \<open>\<^verbatim>\<open>(config.architectures or [""])[0].lower()\<close>.\<close>

definition arch_name :: "hf_config \<Rightarrow> string" where
  "arch_name cfg = (case hf_architectures cfg of Some (a # as) \<Rightarrow> py_lower a | _ \<Rightarrow> [])"

definition parse_moe_param :: "hf_config \<Rightarrow> (int \<times> int \<times> int) result" where
  "parse_moe_param cfg =
     (let arch = arch_name cfg;
          decoder_only = (\<lambda>experts. rbind (attr_of cfg ''num_hidden_layers'') (\<lambda>layers.
            rbind (attr_of cfg experts) (\<lambda>e. Inr (layers, e, 0))))
      in if contains ''nllb'' arch
         then rbind (attr_of cfg ''encoder_sparse_step'') (\<lambda>es.
              rbind (attr_of cfg ''decoder_sparse_step'') (\<lambda>ds.
              rbind (attr_of cfg ''encoder_layers'') (\<lambda>el.
              rbind (floor_div el es) (\<lambda>enc.
              rbind (attr_of cfg ''decoder_layers'') (\<lambda>dl.
              rbind (floor_div dl ds) (\<lambda>dec.
              rbind (attr_of cfg ''num_experts'') (\<lambda>e. Inr (enc + dec, e, enc))))))))
         else if contains ''mixtral'' arch then decoder_only ''num_local_experts''
         else if contains ''qwen3'' arch then decoder_only ''num_experts''
         else if contains ''deepseek'' arch then decoder_only ''n_routed_experts''
         else if contains ''gpt_oss'' arch \<or> contains ''gptoss'' arch then decoder_only ''num_local_experts''
         else Inl RuntimeError)"

text \<open>\<^verbatim>\<open>layers\.(\d+)<middle>(\d+)\.\<close> at the start of a string.\<close>

definition match_expert :: "string \<Rightarrow> string \<Rightarrow> (int \<times> int) option" where
  "match_expert mid s =
     (if \<not> starts_with ''layers.'' s then None
      else case scan_digits (drop 7 s) of
             None \<Rightarrow> None
           | Some (ls, r) \<Rightarrow>
               if \<not> starts_with mid r then None
               else (case scan_digits (drop (length mid) r) of
                       None \<Rightarrow> None
                     | Some (es, r2) \<Rightarrow>
                         if starts_with ''.'' r2 then Some (int (digits_value ls), int (digits_value es)) else None))"

text \<open>\<^verbatim>\<open>(encoder|decoder)\.[a-z]+\.(\d+).*expert_(\d+)\<close>; \<open>True\<close> is the decoder.\<close>

definition is_lower :: "char \<Rightarrow> bool" where
  "is_lower c \<longleftrightarrow> 97 \<le> (of_char c :: nat) \<and> (of_char c :: nat) \<le> 122"

definition match_nllb :: "string \<Rightarrow> (bool \<times> int \<times> int) option" where
  "match_nllb s =
     (if \<not> starts_with ''encoder.'' s \<and> \<not> starts_with ''decoder.'' s then None
      else
        (let r = drop 8 s; name = takeWhile is_lower r; r1 = dropWhile is_lower r
         in if name = [] \<or> \<not> starts_with ''.'' r1 then None
            else (case scan_digits (drop 1 r1) of
                    None \<Rightarrow> None
                  | Some (ls, r2) \<Rightarrow>
                      (case last_match (\<lambda>t. if starts_with ''expert_'' t then scan_digits (drop 7 t) else None)
                              (takeWhile (\<lambda>c. c \<noteq> CHR 0x0A) r2) of
                         None \<Rightarrow> None
                       | Some (es, _) \<Rightarrow>
                           Some (starts_with ''decoder.'' s, int (digits_value ls), int (digits_value es))))))"

text \<open>\<^verbatim>\<open>layers\.(\d+)\.mlp\.experts\.(gate_up_proj|down_proj)\<close>.\<close>

definition match_fused :: "string \<Rightarrow> int option" where
  "match_fused s =
     (if \<not> starts_with ''layers.'' s then None
      else case scan_digits (drop 7 s) of
             None \<Rightarrow> None
           | Some (ls, r) \<Rightarrow>
               if starts_with ''.mlp.experts.gate_up_proj'' r \<or> starts_with ''.mlp.experts.down_proj'' r
               then Some (int (digits_value ls)) else None)"

definition parse_expert_id :: "string \<Rightarrow> hf_config \<Rightarrow> (int option \<times> int option) result" where
  "parse_expert_id name cfg =
     (let arch = arch_name cfg;
          found = (\<lambda>num_encoder mid. case first_match (match_expert mid) name of
                     None \<Rightarrow> (None, None)
                   | Some (l, e) \<Rightarrow> (Some (l div 1 + num_encoder), Some e))
      in rbind (parse_moe_param cfg) (\<lambda>(_, _, num_encoder).
         if contains ''nllb'' arch
         then rbind (attr_of cfg ''encoder_sparse_step'') (\<lambda>es.
              rbind (attr_of cfg ''decoder_sparse_step'') (\<lambda>ds.
                (case first_match match_nllb name of
                   None \<Rightarrow> Inr (None, None)
                 | Some (True, l, e) \<Rightarrow> rbind (floor_div l ds) (\<lambda>q. Inr (Some (q + num_encoder), Some e))
                 | Some (False, l, e) \<Rightarrow> rbind (floor_div l es) (\<lambda>q. Inr (Some q, Some e)))))
         else if contains ''mixtral'' arch then Inr (found num_encoder ''.block_sparse_moe.experts.'')
         else if contains ''deepseekv4'' arch then Inr (found num_encoder ''.ffn.experts.'')
         else if contains ''deepseek'' arch \<or> contains ''qwen3'' arch then Inr (found num_encoder ''.mlp.experts.'')
         else if contains ''gpt_oss'' arch \<or> contains ''gptoss'' arch
         then Inr (case first_match match_fused name of None \<Rightarrow> (None, None) | Some l \<Rightarrow> (Some l, None))
         else Inr (None, None)))"

text \<open>
  Attributes that configurations of DeepSeek models may lack, and what they are set
  to. The result says whether something was missing, in which case the
  constructor of the class is replaced by one that also does this.
\<close>

datatype cfg_value = CNone | CInt int | CBool bool | CReal real

type_synonym cfg_dict = "string \<rightharpoonup> cfg_value"

definition deepseek_v2_defaults :: "(string \<times> cfg_value) list" where
  "deepseek_v2_defaults =
     [(''head_dim'', CNone), (''mlp_bias'', CBool False), (''attention_bias'', CBool False), (''attention_dropout'', CReal 0),
      (''aux_loss_alpha'', CReal (1 / 1000)), (''seq_aux'', CBool True), (''norm_topk_prob'', CBool False)]"

definition missing_attr :: "cfg_dict \<Rightarrow> string \<Rightarrow> cfg_value \<Rightarrow> cfg_value result" where
  "missing_attr cfg key dflt =
     (if key = ''head_dim''
      then (let val = (case cfg ''qk_rope_head_dim'' of None \<Rightarrow> CInt 0 | Some v \<Rightarrow> v)
            in if val = CInt 0 \<and> cfg ''num_attention_heads'' \<noteq> None
               then (case (cfg ''hidden_size'', cfg ''num_attention_heads'') of
                       (None, _) \<Rightarrow> Inl AttributeError
                     | (Some (CInt h), Some (CInt n)) \<Rightarrow> rbind (floor_div h n) (\<lambda>q. Inr (CInt q))
                     | _ \<Rightarrow> Inl TypeError)
               else Inr val)
      else Inr dflt)"

fun apply_missing_attrs :: "cfg_dict \<Rightarrow> (string \<times> cfg_value) list \<Rightarrow> bool \<Rightarrow> (cfg_dict \<times> bool) result" where
  "apply_missing_attrs cfg [] changed = Inr (cfg, changed)"
| "apply_missing_attrs cfg ((key, dflt) # defaults) changed =
     (if cfg key \<noteq> None then apply_missing_attrs cfg defaults changed
      else rbind (missing_attr cfg key dflt) (\<lambda>val. apply_missing_attrs (cfg(key \<mapsto> val)) defaults True))"

definition ensure_config_compat :: "string \<Rightarrow> cfg_dict \<Rightarrow> (cfg_dict \<times> bool) result" where
  "ensure_config_compat model_type cfg =
     (if \<not> contains ''deepseek'' model_type then Inr (cfg, False)
      else apply_missing_attrs cfg deepseek_v2_defaults False)"

text \<open>The code of the type of the experts, from the two attributes that may hold it.\<close>

definition parse_expert_dtype :: "string option \<Rightarrow> string option \<Rightarrow> int result" where
  "parse_expert_dtype torch_dtype dtype_attr =
     (let dtype0 = (case torch_dtype of None \<Rightarrow> dtype_attr | Some t \<Rightarrow> Some t);
          dtype = (case dtype0 of None \<Rightarrow> ''bfloat16'' | Some t \<Rightarrow> t)
      in if dtype = ''bfloat16'' then Inr 0
         else if dtype = ''float32'' then Inr 1
         else if dtype = ''float16'' then Inr 2
         else Inl AssertionError)"

section \<open>Quantisation\<close>

datatype jvalue = JStr string | JInt int | JList "string list" | JOther

type_synonym json = "(string, jvalue) odict"

record quantization_info =
  qi_method :: string
  qi_supported :: bool
  qi_bits :: "jvalue option"
  qi_group_size :: "jvalue option"
  qi_source :: string

definition supported_quant_method :: "string \<Rightarrow> bool" where
  "supported_quant_method m \<longleftrightarrow> m = ''gptq'' \<or> m = ''awq''"

text \<open>\<^verbatim>\<open>d.get(a, d.get(b))\<close>.\<close>

definition get_either :: "json \<Rightarrow> string \<Rightarrow> string \<Rightarrow> jvalue option" where
  "get_either d a b = (case map_of d a of Some v \<Rightarrow> Some v | None \<Rightarrow> map_of d b)"

text \<open>\<^verbatim>\<open>value.lower().strip()\<close>, where a value that is not a text has no such method.\<close>

definition method_name :: "jvalue option \<Rightarrow> string result" where
  "method_name v = (case v of None \<Rightarrow> Inr [] | Some (JStr t) \<Rightarrow> Inr (py_strip (py_lower t)) | Some _ \<Rightarrow> Inl AttributeError)"

definition quantization_info_of :: "string \<Rightarrow> json \<Rightarrow> string \<Rightarrow> quantization_info" where
  "quantization_info_of m d src =
     \<lparr>qi_method = m, qi_supported = supported_quant_method m, qi_bits = get_either d ''bits'' ''w_bit'',
      qi_group_size = get_either d ''group_size'' ''q_group_size'', qi_source = src\<rparr>"

text \<open>\<open>qc\<close> is the attribute, if it is a dictionary.\<close>

definition detect_from_config_attr :: "json option \<Rightarrow> quantization_info option result" where
  "detect_from_config_attr qc =
     (case qc of
        None \<Rightarrow> Inr None
      | Some d \<Rightarrow>
          rbind (method_name (map_of d ''quant_method'')) (\<lambda>m.
            if m = [] \<or> m = ''mxfp4'' then Inr None
            else Inr (Some (quantization_info_of m d ''config.quantization_config''))))"

fun detect_json_files ::
  "(string \<Rightarrow> json option) \<Rightarrow> (string \<times> string option) list \<Rightarrow> quantization_info option result" where
  "detect_json_files read_json [] = Inr None"
| "detect_json_files read_json ((file, expected) # files) =
     (case read_json file of
        None \<Rightarrow> detect_json_files read_json files
      | Some d \<Rightarrow>
          rbind (method_name (get_either d ''quant_method'' ''type'')) (\<lambda>m0.
            let m = (if m0 = [] then (case expected of None \<Rightarrow> [] | Some x \<Rightarrow> x) else m0)
            in if m = [] \<or> m = ''mxfp4'' then detect_json_files read_json files
               else Inr (Some (quantization_info_of m d file))))"

definition quant_json_files :: "(string \<times> string option) list" where
  "quant_json_files =
     [(''quantize_config.json'', Some ''gptq''), (''quant_config.json'', Some ''awq''), (''quantization_config.json'', None)]"

text \<open>\<open>files\<close> are the names in the directory, if the path is one.\<close>

definition detect_from_checkpoint_files ::
  "(string \<Rightarrow> json option) \<Rightarrow> string list option \<Rightarrow> quantization_info option result" where
  "detect_from_checkpoint_files read_json files =
     (case files of
        None \<Rightarrow> Inr None
      | Some fs \<Rightarrow>
          rbind (detect_json_files read_json quant_json_files) (\<lambda>r.
            case r of
              Some info \<Rightarrow> Inr (Some info)
            | None \<Rightarrow>
                if filter (\<lambda>f. ends_with f ''.gguf'') fs \<noteq> []
                then Inr (Some \<lparr>qi_method = ''gguf'', qi_supported = False, qi_bits = None, qi_group_size = None,
                                qi_source = ''file''\<rparr>)
                else Inr None))"

definition detect_quantization ::
  "json option \<Rightarrow> (string \<Rightarrow> json option) \<Rightarrow> string list option \<Rightarrow> quantization_info option result" where
  "detect_quantization qc read_json files =
     rbind (detect_from_config_attr qc) (\<lambda>r.
       case r of Some info \<Rightarrow> Inr (Some info) | None \<Rightarrow> detect_from_checkpoint_files read_json files)"

definition validate_quantization_support :: "quantization_info \<Rightarrow> unit result" where
  "validate_quantization_support info = (if qi_supported info then Inr () else Inl ValueError)"

text \<open>\<^verbatim>\<open>name.rsplit(".", 1)[-1]\<close>.\<close>

definition name_suffix :: "string \<Rightarrow> string" where
  "name_suffix s = rev (takeWhile (\<lambda>c. c \<noteq> CHR ''.'') (rev s))"

definition quant_tensor_suffix :: "string \<Rightarrow> bool" where
  "quant_tensor_suffix s \<longleftrightarrow> s = ''qweight'' \<or> s = ''qzeros'' \<or> s = ''scales'' \<or> s = ''g_idx''"

definition should_cast_tensor :: "string \<Rightarrow> quantization_info option \<Rightarrow> bool" where
  "should_cast_tensor name info =
     (case info of
        None \<Rightarrow> True
      | Some q \<Rightarrow>
          if \<not> supported_quant_method (qi_method q) then True
          else \<not> quant_tensor_suffix (name_suffix name))"

definition get_quant_dtype_for_tensor :: "string \<Rightarrow> 't \<Rightarrow> quantization_info option \<Rightarrow> 't option" where
  "get_quant_dtype_for_tensor name dtype info =
     (if info = None then None else if \<not> should_cast_tensor name info then Some dtype else None)"

text \<open>\<^verbatim>\<open>utils/gptq.py\<close>: tensors with their shape and type, and scalars beside them.\<close>

definition is_gptq_packed_tensor :: "string \<Rightarrow> bool" where
  "is_gptq_packed_tensor name \<longleftrightarrow> ends_with name ''.qweight'' \<or> ends_with name ''.qzeros''"

definition is_gptq_component :: "string \<Rightarrow> bool" where
  "is_gptq_component name \<longleftrightarrow>
     ends_with name ''.qweight'' \<or> ends_with name ''.qzeros'' \<or> ends_with name ''.scales'' \<or> ends_with name ''.g_idx''"

datatype tensor_entry = Tensor "nat list" string | Scalar int | NoShape

definition detect_marlin_weights :: "(string, tensor_entry) odict \<Rightarrow> bool" where
  "detect_marlin_weights d =
     (let qs = filter (\<lambda>n. ends_with n ''.qweight'') (keys d)
      in qs \<noteq> [] \<and> (\<exists>n \<in> set (keys d). ends_with n ''.scales'') \<and>
         list_all (\<lambda>q.
           let prefix = take (length q - 8) q
           in case (map_of d q, map_of d (prefix @ ''.scales'')) of
                (Some (Tensor qshape ty), Some (Tensor sshape _)) \<Rightarrow>
                  length qshape = 2 \<and> length sshape = 2 \<and> ty = ''torch.int32'' \<and> qshape ! 0 mod 8 = 0 \<and>
                  qshape ! 1 = sshape ! 1 * 2
              | _ \<Rightarrow> False) qs)"

definition is_marlin_compatible :: "(string, tensor_entry) odict \<Rightarrow> bool" where
  "is_marlin_compatible d =
     (let qs = filter (\<lambda>n. ends_with n ''.qweight'') (keys d);
          scalar = (\<lambda>n. case map_of d n of Some (Scalar i) \<Rightarrow> Some i | _ \<Rightarrow> None)
      in qs \<noteq> [] \<and> (\<exists>n \<in> set (keys d). ends_with n ''.scales'') \<and>
         list_all (\<lambda>q.
           let prefix = take (length q - 8) q
           in map_of d (prefix @ ''.scales'') \<noteq> None \<and>
              (case scalar (prefix @ ''.bits'') of None \<Rightarrow> True | Some b \<Rightarrow> b = 4) \<and>
              (case scalar (prefix @ ''.group_size'') of None \<Rightarrow> True | Some g \<Rightarrow> g = -1 \<or> g = 128)) qs)"

text \<open>
  The attribute \<^verbatim>\<open>quantization_config\<close>, a dictionary or an object: a field that is missing or
  \<^verbatim>\<open>None\<close> has no entry. Values of other types cannot be iterated.
\<close>

type_synonym quant_fields = "(string \<rightharpoonup> jvalue) option"

definition is_gptq_quantized :: "quant_fields \<Rightarrow> bool" where
  "is_gptq_quantized qc = (case qc of None \<Rightarrow> False | Some f \<Rightarrow> f ''quant_method'' = Some (JStr ''gptq''))"

definition get_gptq_bits :: "quant_fields \<Rightarrow> jvalue" where
  "get_gptq_bits qc =
     (case qc of None \<Rightarrow> JInt 4 | Some f \<Rightarrow> (case f ''bits'' of None \<Rightarrow> JInt 4 | Some v \<Rightarrow> v))"

definition get_gptq_group_size :: "quant_fields \<Rightarrow> jvalue" where
  "get_gptq_group_size qc =
     (case qc of None \<Rightarrow> JInt 128 | Some f \<Rightarrow> (case f ''group_size'' of None \<Rightarrow> JInt 128 | Some v \<Rightarrow> v))"

text \<open>\<^verbatim>\<open>utils/mxfp4.py\<close>.\<close>

definition is_mxfp4_quantized :: "quant_fields \<Rightarrow> bool" where
  "is_mxfp4_quantized qc = (case qc of None \<Rightarrow> False | Some f \<Rightarrow> f ''quant_method'' = Some (JStr ''mxfp4''))"

definition get_mxfp4_modules_to_not_convert :: "quant_fields \<Rightarrow> string list result" where
  "get_mxfp4_modules_to_not_convert qc =
     (case qc of
        None \<Rightarrow> Inr []
      | Some f \<Rightarrow>
          (case f ''modules_to_not_convert'' of
             None \<Rightarrow> Inr []
           | Some (JStr t) \<Rightarrow> Inr []
           | Some (JList ms) \<Rightarrow> Inr ms
           | Some (JInt i) \<Rightarrow> Inl TypeError
           | Some JOther \<Rightarrow> Inl TypeError))"

fun identify_pairs :: "string set \<Rightarrow> string list \<Rightarrow> (string \<times> string) list" where
  "identify_pairs known [] = []"
| "identify_pairs known (name # names) =
     (let scales_name = take (length name - 7) name @ ''_scales''
      in if ends_with name ''_blocks'' \<and> scales_name \<in> known then (name, scales_name) # identify_pairs known names
         else identify_pairs known names)"

definition identify_mxfp4_pairs :: "string list \<Rightarrow> (string \<times> string) list" where
  "identify_mxfp4_pairs names = identify_pairs (set names) names"

section \<open>Checkpoint files\<close>

text \<open>
  \<^verbatim>\<open>utils/checkpoints.py\<close>. What a path names, and the content of an index file: the
  entry \<^verbatim>\<open>weight_map\<close>, if it has one, and its other entries.
\<close>

datatype path_entry = PFile | PDir "string list" | PMissing

record checkpoint_index =
  ci_weight_map :: "(string, string) odict option"
  ci_entries :: "(string, string) odict"

text \<open>\<^verbatim>\<open>os.path.split(path)[0]\<close>.\<close>

definition path_head :: "string \<Rightarrow> string" where
  "path_head s =
     (let head = rev (dropWhile (\<lambda>c. c \<noteq> CHR ''/'') (rev s)); stripped = rev (dropWhile (\<lambda>c. c = CHR ''/'') (rev head))
      in if stripped = [] then head else stripped)"

definition index_files :: "(string \<Rightarrow> checkpoint_index) \<Rightarrow> string \<Rightarrow> string list" where
  "index_files load file =
     (let index = (case ci_weight_map (load file) of Some m \<Rightarrow> m | None \<Rightarrow> ci_entries (load file))
      in map (path_join (path_head file)) (sort (remdups (map snd index))))"

definition get_checkpoint_paths ::
  "(string \<Rightarrow> path_entry) \<Rightarrow> (string \<Rightarrow> checkpoint_index) \<Rightarrow> string \<Rightarrow> string list result" where
  "get_checkpoint_paths entry load checkpoint =
     (case entry checkpoint of
        PFile \<Rightarrow> if ends_with checkpoint ''.json'' then Inr (index_files load checkpoint) else Inr [checkpoint]
      | PDir files \<Rightarrow>
          (let state_bin = filter (\<lambda>f. f = ''pytorch_model.bin'') files;
               state_safetensor = filter (\<lambda>f. f = ''model.safetensors'') files
           in if length state_bin = 1 then Inr [path_join checkpoint (state_bin ! 0)]
              else if length state_safetensor = 1 then Inr [path_join checkpoint (state_safetensor ! 0)]
              else
                (let potential_index = filter (\<lambda>f. ends_with f ''.index.json'') files
                 in if length potential_index = 1 then Inr (index_files load (path_join checkpoint (potential_index ! 0)))
                    else Inl ValueError))
      | PMissing \<Rightarrow> Inl ValueError)"

section \<open>Names of experts\<close>

lemma contains_iff: "contains p s \<longleftrightarrow> (\<exists>i \<le> length s. starts_with p (drop i s))"
proof (induction s)
  case Nil
  then show ?case by (auto simp: starts_with_def)
next
  case (Cons c cs)
  have "(\<exists>i \<le> length (c # cs). starts_with p (drop i (c # cs))) \<longleftrightarrow>
      starts_with p (c # cs) \<or> (\<exists>i \<le> length cs. starts_with p (drop i cs))"
    by (metis Suc_le_mono drop0 drop_Suc_Cons le0 length_Cons not0_implies_Suc)
  with Cons show ?case by simp
qed

lemma first_match_skip:
  assumes "\<And>i. i < length pre \<Longrightarrow> f (drop i (pre @ s)) = None"
  shows "first_match f (pre @ s) = first_match f s"
  using assms
proof (induction pre)
  case (Cons c pre)
  have "f ((c # pre) @ s) = None" using Cons.prems [of 0] by simp
  moreover have "first_match f (pre @ s) = first_match f s"
    by (rule Cons.IH) (use Cons.prems [of "Suc i" for i] in simp)
  ultimately show ?case by simp
qed simp

lemma no_early_layers:
  assumes "\<not> contains ''layers.'' (pre @ ''layers'')" and "i < length pre"
  shows "\<not> starts_with ''layers.'' (drop i (pre @ ''layers.'' @ t))"
proof
  assume st: "starts_with ''layers.'' (drop i (pre @ ''layers.'' @ t))"
  define y where "y = drop i (pre @ ''layers'')"
  have "drop i (pre @ ''layers.'' @ t) = y @ ''.'' @ t" using assms(2) by (simp add: y_def drop_append)
  moreover have "7 \<le> length y" using assms(2) by (simp add: y_def)
  ultimately have "take 7 (drop i (pre @ ''layers.'' @ t)) = take 7 (drop i (pre @ ''layers''))"
    unfolding y_def [symmetric] by simp
  moreover have l: "length ''layers.'' = 7" by simp
  ultimately have "starts_with ''layers.'' (drop i (pre @ ''layers''))" using st unfolding starts_with_def l by (simp only:)
  moreover have "i \<le> length (pre @ ''layers'')" using assms(2) by simp
  ultimately show False using assms(1) unfolding contains_iff by blast
qed

lemma match_expert_name:
  assumes "mid \<noteq> []" and "\<not> is_digit (hd mid)"
  shows "match_expert mid (''layers.'' @ str_nat l @ mid @ str_nat e @ ''.'' @ suf) = Some (int l, int e)"
proof -
  have d: "drop 7 (''layers.'' @ x) = x" for x by simp
  have "scan_digits (str_nat l @ mid @ str_nat e @ ''.'' @ suf) = Some (str_nat l, mid @ str_nat e @ ''.'' @ suf)"
    by (rule scan_digits_str_nat) (use assms in simp)
  moreover have "scan_digits (str_nat e @ ''.'' @ suf) = Some (str_nat e, ''.'' @ suf)"
    by (rule scan_digits_str_nat) (simp add: is_digit_def)
  ultimately show ?thesis by (simp add: match_expert_def d starts_with_def)
qed

text \<open>The part of a parameter's name between the numbers of layer and expert, for each family of models.\<close>

definition expert_path :: "string \<Rightarrow> string option" where
  "expert_path arch =
     (if contains ''mixtral'' arch then Some ''.block_sparse_moe.experts.''
      else if contains ''deepseekv4'' arch then Some ''.ffn.experts.''
      else if contains ''deepseek'' arch \<or> contains ''qwen3'' arch then Some ''.mlp.experts.''
      else None)"

lemma match_fused_name:
  assumes "proj = ''gate_up_proj'' \<or> proj = ''down_proj''"
  shows "match_fused (''layers.'' @ str_nat l @ ''.mlp.experts.'' @ proj @ suf) = Some (int l)"
proof -
  have d: "drop 7 (''layers.'' @ x) = x" for x by simp
  have "scan_digits (str_nat l @ ''.mlp.experts.'' @ proj @ suf) = Some (str_nat l, ''.mlp.experts.'' @ proj @ suf)"
    by (rule scan_digits_str_nat) (simp add: is_digit_def)
  with assms show ?thesis by (auto simp: match_fused_def d starts_with_def)
qed

text \<open>A configuration that is understood and is not of the encoder-decoder family has one of the two forms of names.\<close>

lemma decoder_only_family:
  assumes "\<not> contains ''nllb'' (arch_name cfg)" and "parse_moe_param cfg = Inr (layers, experts, enc)"
  shows "enc = 0" and "expert_path (arch_name cfg) = None \<Longrightarrow>
    contains ''gpt_oss'' (arch_name cfg) \<or> contains ''gptoss'' (arch_name cfg)"
  using assms by (auto simp: parse_moe_param_def expert_path_def Let_def rbind_def split: if_splits sum.splits)

text \<open>
  C24: For every decoder-only family whose configuration is understood, the numbers in
  the name of an expert's parameter are read back, provided that no \<^verbatim>\<open>layers.\<close> occurs
  in the name before the one written: where experts are stored one by one, a name
  written for layer \<open>l\<close> and expert \<open>e\<close> is parsed as \<open>(l, e)\<close>; where all experts of
  a layer are fused in one tensor, the name of either projection of layer \<open>l\<close> is
  parsed as layer \<open>l\<close> and no expert.
\<close>

theorem expert_name_round_trip:
  assumes "\<not> contains ''nllb'' (arch_name cfg)" and "parse_moe_param cfg = Inr (layers, experts, enc)"
    and "\<not> contains ''layers.'' (pre @ ''layers'')"
  shows "case expert_path (arch_name cfg) of
      Some mid \<Rightarrow>
        parse_expert_id (pre @ ''layers.'' @ str_nat l @ mid @ str_nat e @ ''.'' @ suf) cfg = Inr (Some (int l), Some (int e))
    | None \<Rightarrow>
        (\<forall>proj \<in> {''gate_up_proj'', ''down_proj''}.
           parse_expert_id (pre @ ''layers.'' @ str_nat l @ ''.mlp.experts.'' @ proj @ suf) cfg = Inr (Some (int l), None))"
proof (cases "expert_path (arch_name cfg)")
  case (Some mid)
  let ?t = "str_nat l @ mid @ str_nat e @ ''.'' @ suf"
  have mid: "mid \<noteq> []" "\<not> is_digit (hd mid)" using Some by (auto simp: expert_path_def is_digit_def split: if_splits)
  have "first_match (match_expert mid) (pre @ ''layers.'' @ ?t) = first_match (match_expert mid) (''layers.'' @ ?t)"
    by (rule first_match_skip) (use no_early_layers [OF assms(3)] in \<open>simp add: match_expert_def\<close>)
  also have "\<dots> = Some (int l, int e)" using match_expert_name [OF mid, of l e suf] by simp
  finally have fm: "first_match (match_expert mid) (pre @ ''layers.'' @ ?t) = Some (int l, int e)" .
  show ?thesis using assms(1,2) Some fm decoder_only_family(1) [OF assms(1,2)]
    by (auto simp: parse_expert_id_def expert_path_def Let_def rbind_def split: if_splits)
next
  case None
  have fm: "first_match match_fused (pre @ ''layers.'' @ str_nat l @ ''.mlp.experts.'' @ proj @ suf) = Some (int l)"
    if "proj = ''gate_up_proj'' \<or> proj = ''down_proj''" for proj
  proof -
    have "first_match match_fused (pre @ ''layers.'' @ str_nat l @ ''.mlp.experts.'' @ proj @ suf) =
        first_match match_fused (''layers.'' @ str_nat l @ ''.mlp.experts.'' @ proj @ suf)"
      by (rule first_match_skip) (use no_early_layers [OF assms(3)] in \<open>simp add: match_fused_def\<close>)
    also have "\<dots> = Some (int l)" using match_fused_name [OF that, of l suf] by simp
    finally show ?thesis .
  qed
  have parse: "parse_expert_id name cfg = Inr (case first_match match_fused name of None \<Rightarrow> (None, None) | Some l \<Rightarrow> (Some l, None))"
    for name using assms(1,2) None decoder_only_family(2) [OF assms(1,2) None]
    by (auto simp: parse_expert_id_def expert_path_def Let_def rbind_def split: if_splits)
  show ?thesis
  proof (unfold None option.case, rule ballI)
    fix proj assume "proj \<in> {''gate_up_proj'', ''down_proj''}"
    then have "proj = ''gate_up_proj'' \<or> proj = ''down_proj''" by blast
    from fm [OF this] show "parse_expert_id (pre @ ''layers.'' @ str_nat l @ ''.mlp.experts.'' @ proj @ suf) cfg = Inr (Some (int l), None)"
      unfolding parse by (simp only: option.case)
  qed
qed

definition example_hf :: hf_config where
  "example_hf = \<lparr>hf_architectures = Some [''Qwen3MoeForCausalLM''],
     hf_attr = [''num_hidden_layers'' \<mapsto> 48, ''num_experts'' \<mapsto> 128]\<rparr>"

theorem expert_name_round_trip_witness:
  "parse_expert_id ''model.layers.12.mlp.experts.103.gate_proj.weight'' example_hf = Inr (Some 12, Some 103)"
proof -
  have "parse_moe_param example_hf = Inr (48, 128, 0)" by code_simp
  moreover have "expert_path (arch_name example_hf) = Some ''.mlp.experts.''" by code_simp
  moreover have "\<not> contains ''nllb'' (arch_name example_hf)" by code_simp
  moreover have "\<not> contains ''layers.'' (''model.'' @ ''layers'')" by code_simp
  ultimately have "parse_expert_id (''model.'' @ ''layers.'' @ str_nat 12 @ ''.mlp.experts.'' @ str_nat 103 @ ''.'' @ ''gate_proj.weight'') example_hf =
      Inr (Some (int 12), Some (int 103))" using expert_name_round_trip [where cfg = example_hf and pre = "''model.''" and l = 12 and e = 103 and suf = "''gate_proj.weight''"] by simp
  moreover have "str_nat 12 = ''12''" "str_nat 103 = ''103''" by code_simp+
  ultimately show ?thesis by simp
qed

text \<open>
  A configuration that is accepted divides the device memory: both shares are between
  zero and one and fit together, and the native engine always gets a share for
  its cache.
\<close>

theorem archer_ratios_fit:
  assumes "archer_post_init devices abspath isdir c = Inr c'"
  shows "0 \<le> ar_device_memory_ratio c' \<and> 0 \<le> ar_kv_cache_memory_ratio c' \<and>
    ar_device_memory_ratio c' + ar_kv_cache_memory_ratio c' \<le> 1 \<and>
    (ar_use_native_engine c' \<longrightarrow> 0 < ar_kv_cache_memory_ratio c') \<and>
    (\<not> ar_use_native_engine c' \<or> ar_kv_cache_memory_ratio c \<noteq> 0 \<longrightarrow>
       ar_device_memory_ratio c' = ar_device_memory_ratio c \<and> ar_kv_cache_memory_ratio c' = ar_kv_cache_memory_ratio c)"
  using assms unfolding archer_post_init_def Let_def by (auto split: if_splits)

text \<open>The defaults of the class, a device share of 0.9 and no cache share, are not kept: they become 0.85 and 0.15.\<close>

lemma archer_defaults_changed:
  assumes "ar_trace_path c = None" and "ar_device_memory_ratio c = 9 / 10" and "ar_kv_cache_memory_ratio c = 0" and "ar_use_native_engine c"
  shows "\<exists>c'. archer_post_init devices abspath isdir c = Inr c' \<and> ar_device_memory_ratio c' = 85 / 100 \<and>
    ar_kv_cache_memory_ratio c' = 15 / 100"
  using assms by (simp add: archer_post_init_def Let_def)

text \<open>Packed tensors of a supported checkpoint are never cast.\<close>

lemma suffix_of_ends:
  assumes "ends_with name (CHR ''.'' # suf)" and "CHR ''.'' \<notin> set suf"
  shows "name_suffix name = suf"
proof -
  have "name = take (length name - Suc (length suf)) name @ CHR ''.'' # suf"
    using assms(1) by (metis append_take_drop_id ends_with_def length_Cons)
  then obtain pre where "name = pre @ CHR ''.'' # suf" by blast
  moreover have "takeWhile (\<lambda>c. c \<noteq> CHR ''.'') (rev suf @ CHR ''.'' # rev pre) = rev suf" for pre
    by (subst takeWhile_append2) (use assms(2) in auto)
  ultimately show ?thesis by (simp add: name_suffix_def)
qed

lemma packed_never_cast:
  assumes "is_gptq_component name" and "info = Some q" and "supported_quant_method (qi_method q)"
  shows "\<not> should_cast_tensor name info \<and> get_quant_dtype_for_tensor name t info = Some t"
proof -
  have "quant_tensor_suffix (name_suffix name)"
    using assms(1) suffix_of_ends [of name] unfolding is_gptq_component_def quant_tensor_suffix_def by fastforce
  then show ?thesis using assms(2,3) by (simp add: should_cast_tensor_def get_quant_dtype_for_tensor_def)
qed

text \<open>The pairs found are those of the names: each pairs a block tensor with the scales of the same base.\<close>

lemma mxfp4_pairs_iff:
  "(b, s) \<in> set (identify_mxfp4_pairs names) \<longleftrightarrow>
   (\<exists>base. b = base @ ''_blocks'' \<and> s = base @ ''_scales'' \<and> b \<in> set names \<and> s \<in> set names)"
proof -
  have e: "ends_with x ''_blocks'' \<longleftrightarrow> (\<exists>base. x = base @ ''_blocks'')" for x
    by (auto simp: ends_with_def) (metis append_take_drop_id)
  have "(b, s) \<in> set (identify_pairs known xs) \<longleftrightarrow>
      (\<exists>base. b = base @ ''_blocks'' \<and> s = base @ ''_scales'' \<and> b \<in> set xs \<and> s \<in> known)" for known xs
    by (induction known xs rule: identify_pairs.induct) (auto simp: e Let_def)
  then show ?thesis by (simp add: identify_mxfp4_pairs_def)
qed

text \<open>
  A repaired configuration has every attribute, keeps those it had, and needs no second
  repair.
\<close>

lemma apply_missing_attrs_keeps:
  assumes "apply_missing_attrs cfg defaults changed = Inr (cfg', changed')"
  shows "cfg \<subseteq>\<^sub>m cfg' \<and> fst ` set defaults \<subseteq> dom cfg'"
  using assms
proof (induction cfg defaults changed rule: apply_missing_attrs.induct)
  case (2 cfg key dflt defaults changed)
  show ?case
  proof (cases "cfg key")
    case None
    with 2(3) obtain val where val: "missing_attr cfg key dflt = Inr val"
      "apply_missing_attrs (cfg(key \<mapsto> val)) defaults True = Inr (cfg', changed')"
      by (auto simp: rbind_def split: sum.splits)
    have ih: "cfg(key \<mapsto> val) \<subseteq>\<^sub>m cfg'" "fst ` set defaults \<subseteq> dom cfg'" using 2(2) [of val] None val(2) by (simp_all add: fun_upd_def)
    moreover have "cfg \<subseteq>\<^sub>m cfg(key \<mapsto> val)" using None by (simp add: map_le_def dom_def)
    moreover have "key \<in> dom cfg'" using map_le_implies_dom_le [OF ih(1)] by auto
    ultimately show ?thesis using map_le_trans by auto
  next
    case (Some v)
    then have "apply_missing_attrs cfg defaults changed = Inr (cfg', changed')" using 2(3) by simp
    then have ih: "cfg \<subseteq>\<^sub>m cfg'" "fst ` set defaults \<subseteq> dom cfg'" using 2(1) Some by auto
    moreover have "key \<in> dom cfg'" using map_le_implies_dom_le [OF ih(1)] Some by auto
    ultimately show ?thesis by simp
  qed
qed simp

lemma apply_missing_attrs_present:
  "fst ` set defaults \<subseteq> dom cfg \<Longrightarrow> apply_missing_attrs cfg defaults changed = Inr (cfg, changed)"
  by (induction cfg defaults changed rule: apply_missing_attrs.induct) auto

theorem config_compat_complete:
  assumes "ensure_config_compat model_type cfg = Inr (cfg', patched)"
  shows "cfg \<subseteq>\<^sub>m cfg' \<and> (contains ''deepseek'' model_type \<longrightarrow> fst ` set deepseek_v2_defaults \<subseteq> dom cfg') \<and>
    ensure_config_compat model_type cfg' = Inr (cfg', False)"
proof (cases "contains ''deepseek'' model_type")
  case True
  then have run: "apply_missing_attrs cfg deepseek_v2_defaults False = Inr (cfg', patched)"
    using assms by (simp add: ensure_config_compat_def)
  then have keep: "cfg \<subseteq>\<^sub>m cfg'" "fst ` set deepseek_v2_defaults \<subseteq> dom cfg'" using apply_missing_attrs_keeps by blast+
  with True apply_missing_attrs_present [OF keep(2)] show ?thesis by (simp add: ensure_config_compat_def)
qed (use assms in \<open>simp add: ensure_config_compat_def\<close>)

text \<open>
  Both ways to recognise a method agree on exact names: a configuration recognised by the
  GPTQ or MXFP4 helper is detected as GPTQ, or left to the MXFP4 path.
\<close>

lemma exact_method_detected:
  "is_gptq_quantized (Some (map_of d)) \<Longrightarrow>
     detect_from_config_attr (Some d) = Inr (Some (quantization_info_of ''gptq'' d ''config.quantization_config''))"
  "is_mxfp4_quantized (Some (map_of d)) \<Longrightarrow> detect_from_config_attr (Some d) = Inr None"
proof -
  have m: "py_strip (py_lower ''gptq'') = ''gptq''" "py_strip (py_lower ''mxfp4'') = ''mxfp4''" by code_simp+
  show "is_gptq_quantized (Some (map_of d)) \<Longrightarrow>
     detect_from_config_attr (Some d) = Inr (Some (quantization_info_of ''gptq'' d ''config.quantization_config''))"
    by (simp add: is_gptq_quantized_def detect_from_config_attr_def method_name_def m rbind_def)
  show "is_mxfp4_quantized (Some (map_of d)) \<Longrightarrow> detect_from_config_attr (Some d) = Inr None"
    by (simp add: is_mxfp4_quantized_def detect_from_config_attr_def method_name_def m rbind_def)
qed

text \<open>On other spellings they do not: detection ignores case, the helper does not.\<close>

lemma method_case_differs:
  "\<not> is_gptq_quantized (Some (map_of [(''quant_method'', JStr ''GPTQ'')])) \<and>
   map_option qi_method (projr (detect_from_config_attr (Some [(''quant_method'', JStr ''GPTQ'')]))) = Some ''gptq''"
  by code_simp

text \<open>The files of a sharded checkpoint: each shard the index names, once.\<close>

lemma path_join_inj: "\<not> starts_with ''/'' a \<Longrightarrow> \<not> starts_with ''/'' b \<Longrightarrow> path_join d a = path_join d b \<Longrightarrow> a = b"
  by (auto simp: path_join_def split: if_splits)

theorem index_files_complete:
  assumes "ci_weight_map (load file) = Some m"
  shows "set (index_files load file) = (\<lambda>(_, shard). path_join (path_head file) shard) ` set m"
    and "\<forall>(_, shard) \<in> set m. \<not> starts_with ''/'' shard \<Longrightarrow> distinct (index_files load file)"
proof -
  show "set (index_files load file) = (\<lambda>(_, shard). path_join (path_head file) shard) ` set m"
    using assms by (simp add: index_files_def image_image case_prod_unfold)
  assume "\<forall>(_, shard) \<in> set m. \<not> starts_with ''/'' shard"
  then have "inj_on (path_join (path_head file)) (snd ` set m)"
    by (intro inj_onI) (rule path_join_inj, auto)
  then show "distinct (index_files load file)" using assms by (simp add: index_files_def distinct_map)
qed

end
