(* ===== verification/Spec2Isabelle.thy ===== *)
theory Spec2Isabelle
  imports Cpu_Block_Cache Engine_Scheduler Serving_Engine Prefix_Cache Generation Expert_Batch
    Resilience Streaming Cuda_Graph Sampler Context_Pilot Api_Server
    Attention Marlin Mxfp4 Model_Config
begin

text \<open>
  \<^bold>\<open>MoE-Infinity: KV cache, scheduling and serving.\<close>

  MoE-Infinity serves mixture-of-experts models on a GPU that is too small for
  them. Its Python part (\<^verbatim>\<open>src/moe_infinity\<close>) decides which requests run, which
  cache blocks they use, what is moved between GPU and host memory, and when a
  generation ends; tensor kernels and the expert store are native code below
  it. This development models that deciding part.

  \<^bold>\<open>Two stacks.\<close> The older engine (\<^verbatim>\<open>engine/\<close> over \<^verbatim>\<open>memory/\<close>) schedules
  \<^verbatim>\<open>Request\<close>s over reference-counted blocks with prefix sharing; the newer one
  (\<^verbatim>\<open>serving/\<close>) schedules groups of sequences over a paged cache. They share no
  state.

  \<^item> \<open>Prelude\<close>: exceptions, outcomes that carry the state an exception leaves
    behind, ordered dictionaries, and the locale \<open>block_holder\<close>, what a client
    that takes and returns blocks relies on.
  \<^item> \<open>Block_Pool\<close>: \<^verbatim>\<open>memory/block_pool.py\<close>. Blocks live in a heap and the free
    queue is an intrusive doubly linked list; it refines a list (locale
    \<open>free_queue\<close>), and the pool's reference counts, queue and hash index agree
    in every reachable state.
  \<^item> \<open>KV_Manager\<close>: \<^verbatim>\<open>memory/kv_cache_manager.py\<close>. Block tables, growth, release
    and swapping; reference counts are exactly the references of the tables.
    Both pools are interpretations of \<open>block_holder\<close>.
  \<^item> \<open>Cache_Policy\<close>, \<open>Cpu_Block_Cache\<close>: \<^verbatim>\<open>memory/offloading_policy.py\<close> and
    \<^verbatim>\<open>memory/cpu_block_cache.py\<close>. LRU and ARC implement one locale; LRU keeps the
    most recently used keys; ARC's lists stay disjoint and bounded; the CPU
    cache neither leaks nor shares blocks.
  \<^item> \<open>Requests\<close>: \<^verbatim>\<open>engine/types.py\<close>, \<^verbatim>\<open>engine/request_manager.py\<close>. The life cycle of
    a request.
  \<^item> \<open>Kv_Transfer\<close>: \<^verbatim>\<open>engine/transfer_types.py\<close>,
    \<^verbatim>\<open>engine/unified_transfer_scheduler.py\<close>, \<^verbatim>\<open>engine/kv_cache_offload_coordinator.py\<close>.
    The worker thread and its clients as atomic steps in any interleaving:
    order of service, that no waiter is left behind, and round trips of content.
  \<^item> \<open>Engine_Scheduler\<close>: \<^verbatim>\<open>engine/scheduler.py\<close> over \<open>KV_Manager\<close> and \<open>Requests\<close>.
    No reachable state makes scheduling raise; requests are conserved; limits
    hold; the head of the queue is started when it fits.
  \<^item> \<open>Generation\<close>: \<^verbatim>\<open>engine/generation_loop.py\<close>, \<^verbatim>\<open>runtime/attention_types.py\<close> over
    \<open>KV_Manager\<close>. Whatever happens, all blocks are returned; every token passed
    to the model has a slot of its own; why a generation ended.
  \<^item> \<open>Paged_KV\<close>: \<^verbatim>\<open>serving/kv_cache.py\<close>. Exclusive ownership of blocks, growth, swap
    round trips, page metadata.
  \<^item> \<open>Serving_Sequence\<close>, \<open>Serving_Batch\<close>: \<^verbatim>\<open>serving/sequence.py\<close>,
    \<^verbatim>\<open>serving/batch.py\<close>. Splitting a batch into prefill and decode parts and
    recombining the outputs equals running it whole.
  \<^item> \<open>Serving_Scheduler\<close>, \<open>Serving_Invariant\<close>: \<^verbatim>\<open>serving/scheduler.py\<close> over
    \<open>Paged_KV\<close>. Sequence objects are named by their id in a heap. Queues, status
    and block tables agree in every reachable state.
  \<^item> \<open>Memory_Budget\<close>: \<^verbatim>\<open>memory/memory_coordinator.py\<close>, \<^verbatim>\<open>serving/memory_manager.py\<close>
    and \<^verbatim>\<open>MemoryBudget\<close> of \<^verbatim>\<open>memory/kv_cache_manager.py\<close>. The KV share fits beside the experts; the adaptive batch size stays in its
    bounds.
  \<^item> \<open>Serving_Engine\<close>: \<^verbatim>\<open>serving/engine.py\<close>. Construction, requests, one step and
    \<^verbatim>\<open>run_until_done\<close>, which is a partial function on options whose termination
    is proved.
  \<^item> \<open>Prefix_Cache\<close>: \<^verbatim>\<open>serving/prefix_cache.py\<close>. Lookups are right under every
    pattern of hash collisions; a prompt that was inserted is found again.
  \<^item> \<open>Expert_Prefetch\<close>: \<^verbatim>\<open>memory/expert_tracer.py\<close>, \<^verbatim>\<open>memory/expert_predictor.py\<close>,
    \<^verbatim>\<open>memory/expert_prefetcher.py\<close>, \<^verbatim>\<open>distributed/expert_executor.py\<close>. Traces of
    routed experts, the candidates predicted from them, speculation and its
    correction.
  \<^item> \<open>Expert_Batch\<close>: \<^verbatim>\<open>serving/expert_prefetch_coordinator.py\<close>,
    \<^verbatim>\<open>serving/expert_batch.py\<close>. The order of experts equals a sorted reference,
    a split output is a partition, routing weights are the shares of the
    selected experts.
  \<^item> \<open>Resilience\<close>: \<^verbatim>\<open>serving/contextpilot_circuit_breaker.py\<close>, \<^verbatim>\<open>serving/health.py\<close>,
    \<^verbatim>\<open>serving/watchdog.py\<close>, \<^verbatim>\<open>serving/eviction_sync.py\<close>, \<^verbatim>\<open>serving/validation.py\<close>.
    The contract of the breaker over every run; an eviction is reported once.
  \<^item> \<open>Streaming\<close>: \<^verbatim>\<open>serving/stream.py\<close>. Tokens arrive in order, and the consumer is
    not left waiting after the last one.
  \<^item> \<open>Model_Runner\<close>, \<open>Cuda_Graph\<close>, \<open>Sampler\<close>: \<^verbatim>\<open>serving/model_runner.py\<close>,
    \<^verbatim>\<open>serving/cuda_graph.py\<close>, \<^verbatim>\<open>serving/sampler.py\<close>. Padded inputs and packed logits
    belong to the same tokens, slots of scheduled sequences are disjoint, a
    batch called compatible is replayed with the graph of its size on its own
    inputs, and a sampled token is one that temperature, top-k and top-p leave.
  \<^item> \<open>Context_Pilot\<close>: \<^verbatim>\<open>serving/cp_kv_interface.py\<close>,
    \<^verbatim>\<open>serving/contextpilot_middleware.py\<close>. Ranking permutes requests, and
    the built-in deduplication can be undone. \<open>Decimal\<close> holds Python's decimal numerals.
  \<^item> \<open>Api_Access\<close>, \<open>Api_Server\<close>: \<^verbatim>\<open>entrypoints/openai/api_server_v2.py\<close>. Keys and rate
    limits; the completion and chat handlers from validation to the answer, their
    streams, and the engine's loop. What a request answered with an error has
    submitted, and that an accepted one is answered with what its sequences produced.
  \<^item> \<open>Attention\<close>: \<^verbatim>\<open>runtime/attention_backend.py\<close>, \<^verbatim>\<open>kernel/paged_attention_ops.py\<close>. Keys and
    values written to slots are read back through block tables: the torch path of paged
    attention equals attention over the tokens of each sequence in order.
  \<^item> \<open>Marlin\<close>, \<open>Mxfp4\<close>: \<^verbatim>\<open>kernel/marlin_gemm.py\<close>, \<^verbatim>\<open>kernel/mxfp4_gemm.py\<close>. Packing four-bit
    weights into 32-bit words can be undone; the fused kernel
    computes the product with the matrix the reference decodes.
  \<^item> \<open>Model_Config\<close>: \<^verbatim>\<open>utils/config.py\<close>, \<^verbatim>\<open>utils/hf_config.py\<close>, \<^verbatim>\<open>utils/quantization.py\<close>,
    \<^verbatim>\<open>utils/gptq.py\<close>, \<^verbatim>\<open>utils/mxfp4.py\<close>, \<^verbatim>\<open>utils/checkpoints.py\<close>. Memory ratios, the
    numbers in parameter names, quantisation, files of a checkpoint.

  \<^bold>\<open>How the code is rendered.\<close> Classes are records, operations are functions from
  state to outcome, and an exception keeps the state reached when it was raised.
  Python integers are \<^typ>\<open>int\<close>, dictionaries association lists when their order
  or size is observed and maps otherwise. Floating point values are reals or
  rationals; rounding is left out, or a parameter where the code casts. A tensor is a list of rows, and only
  its first dimension is used. A method that holds a lock throughout is one
  step. Clocks, random identifiers, SHA-256, the model's forward pass, the
  tensor library, the tokenizer and the external context index are parameters;
  where such a parameter may answer differently each time it is indexed by the
  step, so that theorems hold for every sequence of answers.

  \<^bold>\<open>Loops.\<close> \<^verbatim>\<open>for\<close> loops are structural recursions, \<^verbatim>\<open>while\<close> loops are functions
  with a measure. The loop of \<^verbatim>\<open>run_until_done\<close> is the only one without a bound
  in the code; it is proved to return. No definition uses fuel.

  \<^bold>\<open>Not modelled.\<close> The native engine (\<^verbatim>\<open>core/\<close>), the remaining kernels
  (\<^verbatim>\<open>kernel/\<close>), model wrappers and loading (\<^verbatim>\<open>models/\<close>, \<^verbatim>\<open>runtime/model_offload.py\<close>,
  \<^verbatim>\<open>entrypoints/big_modeling.py\<close>): they are tensor arithmetic or patches of
  third-party classes. Of the HTTP server, start and shutdown, metrics and the
  loading of modules; profiling, build scripts and benchmarks: input and
  output around libraries.
\<close>

end
